(* ===== verification/Prelude.thy ===== *)
theory Prelude
  imports Main "HOL-Library.Word" "HOL-Library.Monad_Syntax"
begin

text \<open>
  What every component of the development shares.

  Bytes are \<open>8 word\<close>, a buffer of \<open>n\<close> readable (or writable) bytes is a list of length \<open>n\<close>,
  and an access outside a buffer, which is undefined behaviour in the C++ source, is the value
  \<open>None\<close> of the option monad: \<open>rd\<close>, \<open>wr\<close>, \<open>getn\<close> and \<open>putn\<close> check the index.
  A model function of type \<open>'a option\<close> therefore returns \<open>Some r\<close> exactly when the code
  returns \<open>r\<close> without having left a buffer. Loops are \<open>loop\<close>, whose \<open>None\<close> also covers
  divergence, so a theorem that a model function returns \<open>Some\<close> is both memory safety and
  termination.
\<close>

unbundle bit_operations_syntax

type_synonym u8 = "8 word"
type_synonym u16 = "16 word"
type_synonym u32 = "32 word"
type_synonym u64 = "64 word"
type_synonym bytes = "u8 list"

named_theorems access_simps \<open>bounds of buffer accesses\<close>

section \<open>Checked accesses\<close>

definition rd :: "'a list \<Rightarrow> nat \<Rightarrow> 'a option" where
  "rd xs i = (if i < length xs then Some (xs ! i) else None)"

definition wr :: "'a list \<Rightarrow> nat \<Rightarrow> 'a \<Rightarrow> 'a list option" where
  "wr xs i v = (if i < length xs then Some (xs[i := v]) else None)"

definition getn :: "'a list \<Rightarrow> nat \<Rightarrow> nat \<Rightarrow> 'a list option" where
  "getn xs off n = (if off + n \<le> length xs then Some (take n (drop off xs)) else None)"

definition putn :: "'a list \<Rightarrow> nat \<Rightarrow> 'a list \<Rightarrow> 'a list option" where
  "putn xs off ys =
     (if off + length ys \<le> length xs
      then Some (take off xs @ ys @ drop (off + length ys) xs) else None)"

lemma rd_Some [access_simps]: "i < length xs \<Longrightarrow> rd xs i = Some (xs ! i)"
  by (simp add: rd_def)

lemma rd_eq_Some_iff: "rd xs i = Some v \<longleftrightarrow> i < length xs \<and> v = xs ! i"
  by (auto simp: rd_def)

lemma rd_eq_None_iff: "rd xs i = None \<longleftrightarrow> length xs \<le> i"
  by (auto simp: rd_def)

lemma rd_append_left [access_simps]: "i < length xs \<Longrightarrow> rd (xs @ ys) i = Some (xs ! i)"
  by (simp add: rd_def nth_append)

lemma rd_append_right: "rd (xs @ ys) (length xs + i) = rd ys i"
  by (simp add: rd_def)

lemma wr_Some [access_simps]: "i < length xs \<Longrightarrow> wr xs i v = Some (xs[i := v])"
  by (simp add: wr_def)

lemma wr_eq_Some_iff: "wr xs i v = Some ys \<longleftrightarrow> i < length xs \<and> ys = xs[i := v]"
  by (auto simp: wr_def)

lemma getn_Some [access_simps]:
  "off + n \<le> length xs \<Longrightarrow> getn xs off n = Some (take n (drop off xs))"
  by (simp add: getn_def)

lemma getn_eq_Some_iff:
  "getn xs off n = Some ys \<longleftrightarrow> off + n \<le> length xs \<and> ys = take n (drop off xs)"
  by (auto simp: getn_def)

lemma getn_length: "getn xs off n = Some ys \<Longrightarrow> length ys = n"
  by (auto simp: getn_def split: if_splits)

lemma getn_middle: "length ys = n \<Longrightarrow> getn (xs @ ys @ zs) (length xs) n = Some ys"
  by (simp add: getn_def)

lemma putn_Some [access_simps]:
  "off + length ys \<le> length xs \<Longrightarrow>
     putn xs off ys = Some (take off xs @ ys @ drop (off + length ys) xs)"
  by (simp add: putn_def)

lemma putn_length: "putn xs off ys = Some zs \<Longrightarrow> length zs = length xs"
  by (auto simp: putn_def split: if_splits)

lemma getn_putn_same:
  "putn xs off ys = Some zs \<Longrightarrow> getn zs off (length ys) = Some ys"
  by (auto simp: putn_def getn_def split: if_splits)

lemma putn_nth_outside:
  assumes "putn xs off ys = Some zs" and "i < off \<or> off + length ys \<le> i"
  shows "zs ! i = xs ! i"
proof (cases "i < off")
  case True
  with assms show ?thesis by (auto simp: putn_def nth_append split: if_splits)
next
  case False
  with assms have "off + length ys \<le> i" by simp
  then obtain k where i: "i = off + (length ys + k)" by (metis add.assoc le_Suc_ex)
  from assms have "off \<le> length xs" by (auto simp: putn_def split: if_splits)
  with assms i show ?thesis
    by (auto simp: putn_def nth_append ac_simps min_absorb1 min_absorb2 split: if_splits)
qed

text \<open>\<open>vector::resize\<close>, which fills with zeros.\<close>

definition resize :: "nat \<Rightarrow> bytes \<Rightarrow> bytes" where
  "resize n xs = take n xs @ replicate (n - length xs) 0"

lemma length_resize [simp]: "length (resize n xs) = n"
  by (simp add: resize_def)

section \<open>Big- and little-endian fields\<close>

definition be16 :: "u8 \<Rightarrow> u8 \<Rightarrow> u16" where
  "be16 a b = push_bit 8 (ucast a) OR ucast b"

definition be32 :: "u8 \<Rightarrow> u8 \<Rightarrow> u8 \<Rightarrow> u8 \<Rightarrow> u32" where
  "be32 a b c d = push_bit 24 (ucast a) OR push_bit 16 (ucast b) OR push_bit 8 (ucast c) OR ucast d"

definition be64 :: "u32 \<Rightarrow> u32 \<Rightarrow> u64" where
  "be64 hi lo = push_bit 32 (ucast hi) OR ucast lo"

definition bytes16 :: "u16 \<Rightarrow> bytes" where
  "bytes16 w = [ucast (drop_bit 8 w), ucast w]"

definition bytes32 :: "u32 \<Rightarrow> bytes" where
  "bytes32 w = [ucast (drop_bit 24 w), ucast (drop_bit 16 w), ucast (drop_bit 8 w), ucast w]"

definition bytes64 :: "u64 \<Rightarrow> bytes" where
  "bytes64 w = bytes32 (ucast (drop_bit 32 w)) @ bytes32 (ucast w)"

definition read16 :: "bytes \<Rightarrow> nat \<Rightarrow> u16 option" where
  "read16 p at = do { a \<leftarrow> rd p at; b \<leftarrow> rd p (at + 1); Some (be16 a b) }"

definition read32 :: "bytes \<Rightarrow> nat \<Rightarrow> u32 option" where
  "read32 p at = do { a \<leftarrow> rd p at; b \<leftarrow> rd p (at + 1); c \<leftarrow> rd p (at + 2); d \<leftarrow> rd p (at + 3);
     Some (be32 a b c d) }"

definition read64 :: "bytes \<Rightarrow> nat \<Rightarrow> u64 option" where
  "read64 p at = do { hi \<leftarrow> read32 p at; lo \<leftarrow> read32 p (at + 4); Some (be64 hi lo) }"

definition read32le :: "bytes \<Rightarrow> nat \<Rightarrow> u32 option" where
  "read32le p at = do { a \<leftarrow> rd p at; b \<leftarrow> rd p (at + 1); c \<leftarrow> rd p (at + 2); d \<leftarrow> rd p (at + 3);
     Some (be32 d c b a) }"

definition read64le :: "bytes \<Rightarrow> nat \<Rightarrow> u64 option" where
  "read64le p at = do { lo \<leftarrow> read32le p at; hi \<leftarrow> read32le p (at + 4); Some (be64 hi lo) }"

lemma length_bytes [simp]:
  "length (bytes16 w) = 2" "length (bytes32 v) = 4" "length (bytes64 u) = 8"
  by (simp_all add: bytes16_def bytes32_def bytes64_def)

lemma read16_Some [access_simps]:
  "at + 2 \<le> length p \<Longrightarrow> read16 p at = Some (be16 (p ! at) (p ! (at + 1)))"
  by (simp add: read16_def rd_def)

lemma read32_Some [access_simps]:
  "at + 4 \<le> length p \<Longrightarrow>
     read32 p at = Some (be32 (p ! at) (p ! (at + 1)) (p ! (at + 2)) (p ! (at + 3)))"
  by (simp add: read32_def rd_def)

lemma read32le_Some [access_simps]:
  "at + 4 \<le> length p \<Longrightarrow>
     read32le p at = Some (be32 (p ! (at + 3)) (p ! (at + 2)) (p ! (at + 1)) (p ! at))"
  by (simp add: read32le_def rd_def)

lemma read64_Some: "at + 8 \<le> length p \<Longrightarrow> \<exists>w. read64 p at = Some w"
  by (simp add: read64_def read32_Some)

lemma read64le_Some: "at + 8 \<le> length p \<Longrightarrow> \<exists>w. read64le p at = Some w"
  by (simp add: read64le_def read32le_Some)

lemma read32_None: "length p < at + 4 \<Longrightarrow> read32 p at = None"
  by (auto simp: read32_def rd_def)

lemma be16_bytes: "be16 (ucast (drop_bit 8 w)) (ucast w) = (w :: u16)"
  by (rule bit_word_eqI) (auto simp: be16_def bit_simps)

lemma be32_bytes:
  "be32 (ucast (drop_bit 24 w)) (ucast (drop_bit 16 w)) (ucast (drop_bit 8 w)) (ucast w) = (w :: u32)"
proof (rule bit_word_eqI)
  fix n assume "n < LENGTH(32)"
  then consider "n < 8" | "8 \<le> n" "n < 16" | "16 \<le> n" "n < 24" | "24 \<le> n" "n < 32"
    by fastforce
  then show "bit (be32 (ucast (drop_bit 24 w)) (ucast (drop_bit 16 w)) (ucast (drop_bit 8 w))
      (ucast w)) n = bit w n"
    by cases (auto simp: be32_def bit_simps)
qed

text \<open>Bytes behind the ones that were read change nothing.\<close>

lemma rd_more: "rd p i = Some x \<Longrightarrow> rd (p @ q) i = Some x"
  by (auto simp: rd_def nth_append split: if_splits)

lemma read16_more: "read16 p i = Some x \<Longrightarrow> read16 (p @ q) i = Some x"
  by (auto simp: read16_def rd_more split: Option.bind_splits)

lemma read32_more: "read32 p i = Some x \<Longrightarrow> read32 (p @ q) i = Some x"
  by (auto simp: read32_def rd_more split: Option.bind_splits)

lemma read64_more: "read64 p i = Some x \<Longrightarrow> read64 (p @ q) i = Some x"
  by (auto simp: read64_def read32_more split: Option.bind_splits)

lemma getn_more: "getn p i n = Some x \<Longrightarrow> getn (p @ q) i n = Some x"
  by (auto simp: getn_def split: if_splits)

text \<open>A list of results that are all there.\<close>

lemma those_append:
  "those (xs @ ys) = (case those xs of None \<Rightarrow> None | Some a \<Rightarrow> map_option (\<lambda>b. a @ b) (those ys))"
  by (induction xs; cases "those ys") (auto split: option.split)

lemma those_Some: "those (map Some xs) = Some xs"
  by (induction xs) simp_all

lemma those_None: "None \<in> set xs \<Longrightarrow> those xs = None"
  by (induction xs) (auto split: option.split)

lemma those_length: "those xs = Some ys \<Longrightarrow> length ys = length xs"
  by (induction xs arbitrary: ys) (auto split: option.splits)

lemma unat_or_disjoint:
  fixes a b :: "'a::len word"
  assumes "a AND b = 0"
  shows "unat (a OR b) = unat a + unat b"
proof -
  have "a + b = a OR b" using assms by (simp add: disjunctive_add_eq_or)
  moreover have "unat (a OR b) = unat a OR unat b" by (simp add: unsigned_or_eq)
  moreover have "unat a AND unat b = 0" using assms by (metis unsigned_and_eq unsigned_0)
  ultimately show ?thesis by (simp add: disjunctive_add_eq_or)
qed

lemma be64_words: "be64 (ucast (drop_bit 32 w)) (ucast w) = (w :: u64)"
  by (rule bit_word_eqI) (auto simp: be64_def bit_simps)

lemma unat_u8: "unat (a :: u8) < 256"
  using unsigned_less [of a] by simp

lemma unat_u8_less [simp]: "256 \<le> k \<Longrightarrow> unat (a :: u8) < k"
  using unat_u8 [of a] by linarith

lemma unat_u8_le [simp]: "255 \<le> k \<Longrightarrow> unat (a :: u8) \<le> k"
  using unat_u8 [of a] by linarith

lemma unat_of_nat_u8: "n < 256 \<Longrightarrow> unat (of_nat n :: u8) = n"
  by (simp add: unat_of_nat take_bit_nat_eq_self)

lemma unat_of_nat_u32: "n < 4294967296 \<Longrightarrow> unat (of_nat n :: u32) = n"
  by (simp add: unat_of_nat take_bit_nat_eq_self)

lemma unat_u8_div16 [simp]: "unat (a :: u8) div 16 < 16"
  using unat_u8 [of a] by linarith

lemma unat_u16: "unat (a :: u16) < 65536"
  using unsigned_less [of a] by simp

lemma unat_u32: "unat (a :: u32) < 4294967296"
  using unsigned_less [of a] by simp

lemma unat_push_bit_small:
  fixes w :: "'a::len word"
  assumes "unat w * 2 ^ n < 2 ^ LENGTH('a)"
  shows "unat (push_bit n w) = unat w * 2 ^ n"
  using assms
  by (simp only: unsigned_push_bit_eq) (simp add: push_bit_eq_mult take_bit_nat_eq_self)

lemma unat_shift_or:
  fixes x y :: "'a::len word"
  assumes "unat y < 2 ^ k" "unat x * 2 ^ k < 2 ^ LENGTH('a)"
  shows "unat (push_bit k x OR y) = unat x * 2 ^ k + unat y"
proof -
  have "\<not> bit y n" if "k \<le> n" for n
  proof -
    have "unat y < 2 ^ n" using assms(1) that by (meson less_le_trans one_le_numeral power_increasing)
    then have "\<not> bit (unat y) n" by (metis bit_take_bit_iff order_less_irrefl take_bit_nat_eq_self)
    then show ?thesis by (auto simp: bit_unsigned_iff dest: bit_imp_le_length)
  qed
  then have "push_bit k x AND y = 0" by (intro bit_word_eqI) (auto simp: bit_simps)
  then show ?thesis using unat_push_bit_small [OF assms(2)] by (simp only: unat_or_disjoint)
qed

lemma unat_ucast_up:
  fixes w :: "'a::len word"
  assumes "LENGTH('a) \<le> LENGTH('b)"
  shows "unat (ucast w :: 'b::len word) = unat w"
proof -
  have "unat w < 2 ^ LENGTH('b)"
    using assms unsigned_less [of w] by (meson less_le_trans one_le_numeral power_increasing)
  then show ?thesis by (simp add: unsigned_ucast_eq take_bit_nat_eq_self)
qed

lemma unat_ucast_u8 [simp]:
  "unat (ucast (a :: u8) :: u16) = unat a" "unat (ucast (a :: u8) :: u32) = unat a"
  "unat (ucast (a :: u8) :: u64) = unat a"
  by (simp_all add: unat_ucast_up)

lemma unat_be16: "unat (be16 a b) = unat a * 256 + unat b"
proof -
  have "push_bit 8 (ucast a :: u16) AND ucast b = 0"
    by (rule bit_word_eqI) (auto simp: bit_simps dest: bit_imp_le_length)
  moreover have "unat (push_bit 8 (ucast a :: u16)) = unat a * 2 ^ 8"
    using unat_u8 [of a] by (subst unat_push_bit_small) simp_all
  ultimately show ?thesis by (simp add: be16_def unat_or_disjoint del: push_bit_numeral)
qed

lemma unat_pair32: "unat (push_bit 8 (ucast (a :: u8)) OR ucast (b :: u8) :: u32) = unat a * 256 + unat b"
proof -
  have "push_bit 8 (ucast a :: u32) AND ucast b = 0"
    by (rule bit_word_eqI) (auto simp: bit_simps dest: bit_imp_le_length)
  moreover have "unat (push_bit 8 (ucast a :: u32)) = unat a * 2 ^ 8"
    using unat_u8 [of a] by (subst unat_push_bit_small) simp_all
  ultimately show ?thesis by (simp add: unat_or_disjoint del: push_bit_numeral)
qed

lemma unat_drop_bit: "unat (drop_bit n w :: 'a::len word) = unat w div 2 ^ n"
  by (simp only: unsigned_drop_bit_eq) (simp add: drop_bit_eq_div take_bit_nat_eq_self)

lemma unat_and_mask_less: "unat (x AND mask n :: 'a::len word) < 2 ^ n"
  by (simp add: take_bit_eq_mask [symmetric] unsigned_take_bit_eq)

lemma unat_and_mask: "unat (x AND mask n :: 'a::len word) = unat x mod 2 ^ n"
  by (simp only: take_bit_eq_mask [symmetric] unsigned_take_bit_eq) (simp add: take_bit_eq_mod)

lemma unat_and_FFF: "unat (x AND 0xFFF :: 'a::len word) = unat x mod 4096"
  using unat_and_mask [of x 12] by (simp add: mask_eq_exp_minus_1)

lemma unat_and_FF: "unat (x AND 0xFF :: 'a::len word) = unat x mod 256"
  using unat_and_mask [of x 8] by (simp add: mask_eq_exp_minus_1)

lemma unat_and_F: "unat (x AND 0xF :: 'a::len word) = unat x mod 16"
  using unat_and_mask [of x 4] by (simp add: mask_eq_exp_minus_1)

lemma unat_be32:
  "unat (be32 a b c d) = unat a * 2 ^ 24 + unat b * 2 ^ 16 + unat c * 2 ^ 8 + unat d"
proof -
  let ?a = "push_bit 24 (ucast a :: u32)" and ?b = "push_bit 16 (ucast b :: u32)"
  let ?c = "push_bit 8 (ucast c :: u32)" and ?d = "ucast d :: u32"
  have disj: "?a AND (?b OR ?c OR ?d) = 0" "?b AND (?c OR ?d) = 0" "?c AND ?d = 0"
    by (rule bit_word_eqI; auto simp: bit_simps dest: bit_imp_le_length)+
  have "unat ?a = unat a * 2 ^ 24"
    using unat_u8 [of a] by (subst unat_push_bit_small) simp_all
  moreover have "unat ?b = unat b * 2 ^ 16"
    using unat_u8 [of b] by (subst unat_push_bit_small) simp_all
  moreover have "unat ?c = unat c * 2 ^ 8"
    using unat_u8 [of c] by (subst unat_push_bit_small) simp_all
  ultimately show ?thesis
    by (simp only: be32_def unat_or_disjoint [OF disj(1)] unat_or_disjoint [OF disj(2)]
        unat_or_disjoint [OF disj(3)] add.assoc unat_ucast_u8)
qed

section \<open>Loops\<close>

text \<open>
  One iteration of a loop that may return from the enclosing function: \<open>None\<close> is undefined
  behaviour, \<open>Inl r\<close> leaves with the result \<open>r\<close>, \<open>Inr s\<close> is the next state.
\<close>

partial_function (option) loop :: "('s \<Rightarrow> ('r + 's) option) \<Rightarrow> 's \<Rightarrow> 'r option" where
  "loop step s = (case step s of None \<Rightarrow> None
     | Some x \<Rightarrow> (case x of Inl r \<Rightarrow> Some r | Inr s' \<Rightarrow> loop step s'))"

lemma loop_Inl: "step s = Some (Inl r) \<Longrightarrow> loop step s = Some r"
  by (simp add: loop.simps)

lemma loop_Inr: "step s = Some (Inr s') \<Longrightarrow> loop step s = loop step s'"
  by (subst loop.simps) simp

lemma loop_None: "step s = None \<Longrightarrow> loop step s = None"
  by (simp add: loop.simps)

text \<open>Total correctness: an invariant, a measure that shrinks, and the exit condition.\<close>

lemma loop_total:
  fixes m :: "'s \<Rightarrow> nat"
  assumes inv: "I s"
    and body: "\<And>s. I s \<Longrightarrow> (\<exists>r. step s = Some (Inl r) \<and> Q r) \<or>
                  (\<exists>s'. step s = Some (Inr s') \<and> I s' \<and> m s' < m s)"
  shows "\<exists>r. loop step s = Some r \<and> Q r"
  using inv
proof (induction "m s" arbitrary: s rule: less_induct)
  case less
  from body [OF less.prems] show ?case
  proof (elim disjE exE conjE)
    fix r assume "step s = Some (Inl r)" "Q r"
    then show ?thesis by (auto intro: loop_Inl)
  next
    fix s' assume "step s = Some (Inr s')" "I s'" "m s' < m s"
    with less.hyps show ?thesis by (simp add: loop_Inr)
  qed
qed

text \<open>Partial correctness: what every iteration keeps, the result satisfies.\<close>

lemma loop_invariant:
  assumes ret: "loop step s = Some r" and inv: "I s"
    and next_inv: "\<And>s s'. I s \<Longrightarrow> step s = Some (Inr s') \<Longrightarrow> I s'"
    and exit_inv: "\<And>s r. I s \<Longrightarrow> step s = Some (Inl r) \<Longrightarrow> Q r"
  shows "Q r"
proof -
  have "step = step \<longrightarrow> I s \<longrightarrow> Q r"
  proof (rule loop.raw_induct [where P = "\<lambda>st s r. st = step \<longrightarrow> I s \<longrightarrow> Q r", OF _ ret])
    fix lp st s r
    assume IH: "\<And>st s r. lp st s = Some r \<Longrightarrow> st = step \<longrightarrow> I s \<longrightarrow> Q r"
      and eq: "(case st s of None \<Rightarrow> None
        | Some x \<Rightarrow> (case x of Inl r \<Rightarrow> Some r | Inr s' \<Rightarrow> lp st s')) = Some r"
    show "st = step \<longrightarrow> I s \<longrightarrow> Q r"
    proof (intro impI)
      assume st: "st = step" and I: "I s"
      from eq st consider "step s = Some (Inl r)" | s' where "step s = Some (Inr s')" "lp step s' = Some r"
        by (auto split: option.splits sum.splits)
      then show "Q r" using exit_inv next_inv IH I by cases blast+
    qed
  qed
  with inv show ?thesis by blast
qed

text \<open>Two loops in lock step: a relation kept by every pair of iterations is kept to the exit.\<close>

lemma loop_refine:
  fixes m :: "'s \<Rightarrow> nat"
  assumes start: "R s t"
    and body: "\<And>s t. R s t \<Longrightarrow>
       (\<exists>r r'. f s = Some (Inl r) \<and> g t = Some (Inl r') \<and> Q r r') \<or>
       (\<exists>s' t'. f s = Some (Inr s') \<and> g t = Some (Inr t') \<and> R s' t' \<and> m s' < m s)"
  shows "\<exists>r r'. loop f s = Some r \<and> loop g t = Some r' \<and> Q r r'"
  using start
proof (induction "m s" arbitrary: s t rule: less_induct)
  case less
  from body [OF less.prems] show ?case
  proof (elim disjE exE conjE)
    fix r r' assume "f s = Some (Inl r)" "g t = Some (Inl r')" "Q r r'"
    then show ?thesis by (auto intro: loop_Inl)
  next
    fix s' t' assume "f s = Some (Inr s')" "g t = Some (Inr t')" "R s' t'" "m s' < m s"
    with less.hyps show ?thesis by (simp add: loop_Inr)
  qed
qed

section \<open>Reading inside a slice\<close>

lemma getn_inner: "getn buf c l = Some xs \<Longrightarrow> k + m \<le> l \<Longrightarrow> getn buf (c + k) m = getn xs k m"
  by (auto simp: getn_def drop_take add.commute split: if_splits)

lemma rd_inner: "getn buf c l = Some xs \<Longrightarrow> k < l \<Longrightarrow> rd buf (c + k) = rd xs k"
  by (auto simp: getn_def rd_def split: if_splits)

lemma read16_inner: "getn buf c l = Some xs \<Longrightarrow> k + 1 < l \<Longrightarrow> read16 buf (c + k) = read16 xs k"
  using rd_inner [of buf c l xs k] rd_inner [of buf c l xs "k + 1"] by (simp add: read16_def add.assoc)

lemma getn_same: "(\<And>i. c \<le> i \<Longrightarrow> i < c + n \<Longrightarrow> b ! i = a ! i) \<Longrightarrow> length b = length a \<Longrightarrow> getn b c n = getn a c n"
  by (auto simp: getn_def intro!: nth_equalityI)

lemma getn_append: "getn b c n = Some x \<Longrightarrow> getn b (c + n) m = Some y \<Longrightarrow> getn b c (n + m) = Some (x @ y)"
  using take_add [of n m "drop c b"] by (auto simp: getn_def ac_simps split: if_splits)

section \<open>State kept under keys\<close>

text \<open>A state whose parts have names: settings, files, slots.\<close>

locale keyed =
  fixes look :: "'s \<Rightarrow> 'k \<Rightarrow> 'v option" and put :: "'k \<Rightarrow> 'v \<Rightarrow> 's \<Rightarrow> 's"
  assumes look_put: "look (put k v s) k = Some v"
    and look_other: "k \<noteq> k' \<Longrightarrow> look (put k v s) k' = look s k'"
begin

lemma look_puts:
  "look (fold (\<lambda>(k, v). put k v) kvs s) k = (case map_of (rev kvs) k of Some v \<Rightarrow> Some v | None \<Rightarrow> look s k)"
proof (induction kvs rule: rev_induct)
  case (snoc kv kvs)
  then show ?case by (cases kv; cases "fst kv = k") (auto simp: look_put look_other)
qed simp

lemma look_puts_other: "k \<notin> fst ` set kvs \<Longrightarrow> look (fold (\<lambda>(k, v). put k v) kvs s) k = look s k"
proof -
  assume "k \<notin> fst ` set kvs"
  then have "map_of (rev kvs) k = None" by (simp add: map_of_eq_None_iff)
  then show ?thesis by (simp add: look_puts)
qed

end

end
