(* ===== verification/Os_Memory.thy ===== *)
theory Os_Memory
  imports Prelude
begin

text \<open>
  Guest memory as the system calls of src/platform/os see it through \<open>Memory::Read32\<close> and its kin: a byte for
  every mapped address, and an access violation (\<open>None\<close>) elsewhere. A cell is four bytes at a multiple of
  four; the fields of the system's structures are cells, or the first half of one.
\<close>

type_synonym gmem = "u32 \<Rightarrow> u8 option"

definition Read32 :: "gmem \<Rightarrow> u32 \<Rightarrow> u32 option" where
  "Read32 m a = do { w \<leftarrow> m a; x \<leftarrow> m (a + 1); y \<leftarrow> m (a + 2); z \<leftarrow> m (a + 3); Some (be32 w x y z) }"

definition Read16 :: "gmem \<Rightarrow> u32 \<Rightarrow> u16 option" where
  "Read16 m a = do { w \<leftarrow> m a; x \<leftarrow> m (a + 1); Some (be16 w x) }"

definition poke32 :: "gmem \<Rightarrow> u32 \<Rightarrow> u32 \<Rightarrow> gmem" where
  "poke32 m a v = m(a \<mapsto> ucast (drop_bit 24 v), a + 1 \<mapsto> ucast (drop_bit 16 v), a + 2 \<mapsto> ucast (drop_bit 8 v), a + 3 \<mapsto> ucast v)"

definition poke16 :: "gmem \<Rightarrow> u32 \<Rightarrow> u16 \<Rightarrow> gmem" where
  "poke16 m a v = m(a \<mapsto> ucast (drop_bit 8 v), a + 1 \<mapsto> ucast v)"

definition Write32 :: "gmem \<Rightarrow> u32 \<Rightarrow> u32 \<Rightarrow> gmem option" where
  "Write32 m a v = (if Read32 m a = None then None else Some (poke32 m a v))"

definition Write16 :: "gmem \<Rightarrow> u32 \<Rightarrow> u16 \<Rightarrow> gmem option" where
  "Write16 m a v = (if Read16 m a = None then None else Some (poke16 m a v))"

section \<open>Cells\<close>

definition aligned :: "u32 \<Rightarrow> bool" where
  "aligned a \<longleftrightarrow> unat a mod 4 = 0"

lemma aligned_add [simp]: "aligned a \<Longrightarrow> aligned b \<Longrightarrow> aligned (a + b)"
proof -
  assume "aligned a" "aligned b"
  then have "(unat a + unat b) mod 4 = 0" by (simp add: aligned_def mod_add_eq [symmetric])
  then show ?thesis by (simp add: aligned_def unat_word_ariths mod_mod_cancel)
qed

lemma in_cell: "aligned a \<Longrightarrow> i < 4 \<Longrightarrow> unat (a + of_nat i) div 4 = unat a div 4"
proof -
  assume a: "aligned a" and i: "i < 4"
  obtain k where k: "unat a = 4 * k" using a by (auto simp: aligned_def elim: dvdE simp flip: dvd_eq_mod_eq_0)
  have "4 * k < 4294967296" using unat_u32 [of a] k by simp
  then have "4 * k + i < 4294967296" using i by presburger
  moreover have "unat (of_nat i :: u32) = i" using i by (intro unat_of_nat_u32) simp
  ultimately have "unat (a + of_nat i) = 4 * k + i" by (simp add: unat_word_ariths k)
  then show ?thesis using i k by simp
qed

lemma cells_apart:
  assumes "aligned a" "aligned b" "a \<noteq> b" "i < 4" "j < 4"
  shows "a + of_nat i \<noteq> b + of_nat j"
proof
  assume "a + of_nat i = b + of_nat j"
  then have "unat a div 4 = unat b div 4" using in_cell assms by metis
  then have "unat a = unat b" using assms(1,2) unfolding aligned_def by (metis mod_div_mult_eq)
  then show False using assms(3) by (metis unsigned_word_eqI)
qed

lemma cell_bytes:
  assumes "aligned a" "aligned b" "a \<noteq> b"
  shows "b \<noteq> a" "b \<noteq> a + 1" "b \<noteq> a + 2" "b \<noteq> a + 3" "b + 1 \<noteq> a" "b + 1 \<noteq> a + 1" "b + 1 \<noteq> a + 2" "b + 1 \<noteq> a + 3"
    "b + 2 \<noteq> a" "b + 2 \<noteq> a + 1" "b + 2 \<noteq> a + 2" "b + 2 \<noteq> a + 3" "b + 3 \<noteq> a" "b + 3 \<noteq> a + 1" "b + 3 \<noteq> a + 2" "b + 3 \<noteq> a + 3"
  using cells_apart [OF assms, of 0 0] cells_apart [OF assms, of 0 1] cells_apart [OF assms, of 0 2] cells_apart [OF assms, of 0 3]
    cells_apart [OF assms, of 1 0] cells_apart [OF assms, of 1 1] cells_apart [OF assms, of 1 2] cells_apart [OF assms, of 1 3]
    cells_apart [OF assms, of 2 0] cells_apart [OF assms, of 2 1] cells_apart [OF assms, of 2 2] cells_apart [OF assms, of 2 3]
    cells_apart [OF assms, of 3 0] cells_apart [OF assms, of 3 1] cells_apart [OF assms, of 3 2] cells_apart [OF assms, of 3 3]
  by (simp_all; metis add.commute add_right_imp_eq)+

lemma read_poke32 [simp]:
  assumes "aligned a" "aligned b"
  shows "Read32 (poke32 m a v) b = (if a = b then Some v else Read32 m b)"
    "Read16 (poke32 m a v) b = (if a = b then Some (ucast (drop_bit 16 v)) else Read16 m b)"
proof -
  show "Read32 (poke32 m a v) b = (if a = b then Some v else Read32 m b)"
  proof (cases "a = b")
    case False
    note apart = cell_bytes [OF assms False]
    then show ?thesis by (simp add: Read32_def poke32_def)
  qed (simp add: Read32_def poke32_def be32_bytes)
  show "Read16 (poke32 m a v) b = (if a = b then Some (ucast (drop_bit 16 v)) else Read16 m b)"
  proof (cases "a = b")
    case False
    then show ?thesis using cell_bytes [OF assms False] by (simp add: Read16_def poke32_def)
  next
    case True
    have "be16 (ucast (drop_bit 24 v)) (ucast (drop_bit 16 v)) = (ucast (drop_bit 16 v) :: u16)"
      by (rule bit_word_eqI) (auto simp: be16_def bit_simps)
    then show ?thesis using True by (simp add: Read16_def poke32_def)
  qed
qed

lemma read_poke16 [simp]:
  assumes "aligned a" "aligned b"
  shows "Read16 (poke16 m a v) b = (if a = b then Some v else Read16 m b)"
    "a \<noteq> b \<Longrightarrow> Read32 (poke16 m a v) b = Read32 m b"
  using cell_bytes [OF assms] by (cases "a = b"; simp add: Read16_def Read32_def poke16_def be16_bytes)+

end
