(* ===== verification/Os_List.thy ===== *)
theory Os_List
  imports Os_Memory
begin

text \<open>
  The doubly linked lists of the system (src/platform/os/os_internal.h): nodes are guest addresses, the links
  are two fields of each node, and the head and the tail are two cells of their own. A list is a ring through
  zero: what follows zero is the head, what is in front of zero is the tail.
\<close>

record glist =
  l_next :: u32
  l_prev :: u32
  l_head :: u32
  l_tail :: u32

text \<open>The cell that holds what follows a node, and the one that holds what is in front of it.\<close>

definition next_slot :: "glist \<Rightarrow> u32 \<Rightarrow> u32" where
  "next_slot L a = (if a \<noteq> 0 then a + l_next L else l_head L)"

definition prev_slot :: "glist \<Rightarrow> u32 \<Rightarrow> u32" where
  "prev_slot L a = (if a \<noteq> 0 then a + l_prev L else l_tail L)"

definition UnlinkGuestListNode :: "u32 \<Rightarrow> glist \<Rightarrow> gmem \<Rightarrow> gmem option" where
  "UnlinkGuestListNode node L m = do {
     next \<leftarrow> Read32 m (node + l_next L);
     prev \<leftarrow> Read32 m (node + l_prev L);
     m \<leftarrow> Write32 m (if next \<noteq> 0 then next + l_prev L else l_tail L) prev;
     m \<leftarrow> Write32 m (if prev \<noteq> 0 then prev + l_next L else l_head L) next;
     m \<leftarrow> Write32 m (node + l_next L) 0;
     Write32 m (node + l_prev L) 0 }"

text \<open>A node at the end, and one in front of another.\<close>

definition link_last :: "u32 \<Rightarrow> glist \<Rightarrow> gmem \<Rightarrow> gmem option" where
  "link_last t L m = do {
     tail \<leftarrow> Read32 m (l_tail L);
     m \<leftarrow> Write32 m (if tail = 0 then l_head L else tail + l_next L) t;
     m \<leftarrow> Write32 m (t + l_prev L) tail;
     m \<leftarrow> Write32 m (t + l_next L) 0;
     Write32 m (l_tail L) t }"

definition link_before :: "u32 \<Rightarrow> u32 \<Rightarrow> glist \<Rightarrow> gmem \<Rightarrow> gmem option" where
  "link_before t before L m = do {
     m \<leftarrow> Write32 m (t + l_next L) before;
     prev \<leftarrow> Read32 m (before + l_prev L);
     m \<leftarrow> Write32 m (before + l_prev L) t;
     m \<leftarrow> Write32 m (t + l_prev L) prev;
     Write32 m (if prev = 0 then l_head L else prev + l_next L) t }"

text \<open>The first node, taken out; the new head as well. The node keeps its own links.\<close>

definition pop_first :: "u32 \<Rightarrow> glist \<Rightarrow> gmem \<Rightarrow> (u32 \<times> gmem) option" where
  "pop_first head L m = do {
     next \<leftarrow> Read32 m (head + l_next L);
     m \<leftarrow> (if next = 0 then Write32 m (l_tail L) 0 else Write32 m (next + l_prev L) 0);
     m \<leftarrow> Write32 m (l_head L) next;
     Some (next, m) }"

section \<open>Rings\<close>

text \<open>From \<open>a\<close> through these nodes to \<open>b\<close>, both ways.\<close>

primrec path :: "(u32 \<Rightarrow> u32 option) \<Rightarrow> (u32 \<Rightarrow> u32 option) \<Rightarrow> u32 \<Rightarrow> u32 list \<Rightarrow> u32 \<Rightarrow> bool" where
  "path N P a [] b \<longleftrightarrow> N a = Some b \<and> P b = Some a"
| "path N P a (x # xs) b \<longleftrightarrow> N a = Some x \<and> P x = Some a \<and> path N P x xs b"

lemma path_cong:
  "(\<And>x. x \<in> set (a # xs) \<Longrightarrow> N' x = N x) \<Longrightarrow> (\<And>x. x \<in> set (xs @ [b]) \<Longrightarrow> P' x = P x) \<Longrightarrow>
     path N' P' a xs b \<longleftrightarrow> path N P a xs b"
  by (induction xs arbitrary: a) simp_all

lemma path_split: "path N P a (xs @ x # ys) b \<longleftrightarrow> path N P a xs x \<and> path N P x ys b"
  by (induction xs arbitrary: a) simp_all

lemma path_end: "path N P a xs b \<Longrightarrow> N (last (a # xs)) = Some b \<and> P b = Some (last (a # xs))"
  by (induction xs arbitrary: a) auto

lemma path_mapped:
  "path N P a xs b \<Longrightarrow> x \<in> set (a # xs) \<Longrightarrow> \<exists>v. N x = Some v" "path N P a xs b \<Longrightarrow> x \<in> set (b # xs) \<Longrightarrow> \<exists>v. P x = Some v"
  by (induction xs arbitrary: a) auto

text \<open>The end of a path is moved.\<close>

lemma path_move_end:
  assumes "path N P a xs b" "distinct (a # xs)" "c \<notin> set xs"
  shows "path (N(last (a # xs) \<mapsto> c)) (P(c \<mapsto> last (a # xs))) a xs c"
proof (cases xs rule: rev_cases)
  case (snoc ys y)
  have "path N P a ys y" using assms(1) snoc by (simp add: path_split)
  then have "path (N(y \<mapsto> c)) (P(c \<mapsto> y)) a ys y"
    using assms(2,3) snoc by (subst path_cong [of a ys _ N y _ P]) auto
  then show ?thesis using snoc by (simp add: path_split)
qed (use assms in simp)

text \<open>A ring, with a node put in and one taken out.\<close>

lemma ring_insert:
  assumes "path N P 0 (xs @ ys) 0" "distinct (0 # xs @ ys)" "t \<notin> set (0 # xs @ ys)"
  defines "p \<equiv> last (0 # xs)" and "n \<equiv> hd (ys @ [0])"
  shows "path (N(p \<mapsto> t, t \<mapsto> n)) (P(n \<mapsto> t, t \<mapsto> p)) 0 (xs @ t # ys) 0"
proof -
  have pt: "p \<noteq> t" using assms(3) unfolding p_def by (metis append_Cons last_in_set list.discI set_append Un_iff)
  have nt: "n \<noteq> t" using assms(3) unfolding n_def by (cases ys) auto
  have left: "\<exists>b. path N P 0 xs b" using assms(1) by (cases ys) (auto simp: path_split)
  then obtain b where "path N P 0 xs b" by blast
  then have "path (N(p \<mapsto> t)) (P(t \<mapsto> p)) 0 xs t" unfolding p_def using assms(2,3) by (intro path_move_end) auto
  moreover have "n \<notin> set xs" using assms(2) unfolding n_def by (cases ys) auto
  ultimately have "path (N(p \<mapsto> t, t \<mapsto> n)) (P(n \<mapsto> t, t \<mapsto> p)) 0 xs t"
    using assms(3) nt by (subst path_cong [of 0 xs _ "N(p \<mapsto> t)" t _ "P(t \<mapsto> p)"]) auto
  moreover have "path (N(p \<mapsto> t, t \<mapsto> n)) (P(n \<mapsto> t, t \<mapsto> p)) t ys 0"
  proof (cases ys)
    case (Cons y ys')
    have "path N P y ys' 0" using assms(1) Cons by (simp add: path_split)
    moreover have "p \<notin> set ys" using assms(2) unfolding p_def by (cases xs rule: rev_cases) auto
    ultimately have "path (N(p \<mapsto> t, t \<mapsto> n)) (P(n \<mapsto> t, t \<mapsto> p)) y ys' 0"
      using assms(2,3) Cons unfolding n_def by (subst path_cong [of y ys' _ N 0 _ P]) auto
    then show ?thesis using Cons pt nt by (simp add: n_def)
  qed (use pt nt in \<open>simp add: n_def\<close>)
  ultimately show ?thesis by (simp add: path_split)
qed

lemma ring_remove:
  assumes "path N P 0 (xs @ t # ys) 0" "distinct (0 # xs @ t # ys)"
  defines "p \<equiv> last (0 # xs)" and "n \<equiv> hd (ys @ [0])"
  shows "path (N(p \<mapsto> n)) (P(n \<mapsto> p)) 0 (xs @ ys) 0" "N t = Some n" "P t = Some p"
proof -
  have parts: "path N P 0 xs t" "path N P t ys 0" using assms(1) by (simp_all add: path_split)
  show "N t = Some n" using parts(2) by (cases ys) (simp_all add: n_def)
  show "P t = Some p" using path_end [OF parts(1)] by (simp add: p_def)
  have "n \<notin> set xs" using assms(2) unfolding n_def by (cases ys) auto
  then have left: "path (N(p \<mapsto> n)) (P(n \<mapsto> p)) 0 xs n"
    using path_move_end [OF parts(1)] assms(2) unfolding p_def by auto
  show "path (N(p \<mapsto> n)) (P(n \<mapsto> p)) 0 (xs @ ys) 0"
  proof (cases ys)
    case (Cons y ys')
    have "path N P y ys' 0" using parts(2) Cons by simp
    moreover have "p \<notin> set ys" using assms(2) unfolding p_def by (cases xs rule: rev_cases) auto
    ultimately have "path (N(p \<mapsto> n)) (P(n \<mapsto> p)) y ys' 0"
      using assms(2) Cons unfolding n_def by (subst path_cong [of y ys' _ N 0 _ P]) auto
    then show ?thesis using left Cons by (simp add: path_split n_def)
  qed (use left in \<open>simp add: n_def\<close>)
qed

section \<open>Lists in memory\<close>

definition linked :: "gmem \<Rightarrow> glist \<Rightarrow> u32 list \<Rightarrow> bool" where
  "linked m L ts = path (\<lambda>a. Read32 m (next_slot L a)) (\<lambda>a. Read32 m (prev_slot L a)) 0 ts 0"

text \<open>The cells a list lives in, and that they are cells of their own.\<close>

definition cells :: "glist \<Rightarrow> u32 list \<Rightarrow> u32 list" where
  "cells L ts = map (next_slot L) (0 # ts) @ map (prev_slot L) (0 # ts)"

definition list_ok :: "glist \<Rightarrow> u32 list \<Rightarrow> bool" where
  "list_ok L ts \<longleftrightarrow> distinct (0 # ts) \<and> distinct (cells L ts) \<and> list_all aligned (cells L ts)"

lemma slot_eq:
  assumes "list_ok L ts" "a \<in> set (0 # ts)" "b \<in> set (0 # ts)"
  shows "next_slot L a = next_slot L b \<longleftrightarrow> a = b" "prev_slot L a = prev_slot L b \<longleftrightarrow> a = b"
    "next_slot L a \<noteq> prev_slot L b" "prev_slot L b \<noteq> next_slot L a" "aligned (next_slot L a)" "aligned (prev_slot L a)"
proof -
  have d: "distinct (map (next_slot L) (0 # ts))" "distinct (map (prev_slot L) (0 # ts))"
    "set (map (next_slot L) (0 # ts)) \<inter> set (map (prev_slot L) (0 # ts)) = {}"
    using assms(1) unfolding list_ok_def cells_def distinct_append by blast+
  show "next_slot L a = next_slot L b \<longleftrightarrow> a = b" "prev_slot L a = prev_slot L b \<longleftrightarrow> a = b"
    using d(1,2) assms(2,3) unfolding distinct_map inj_on_def by blast+
  have n: "next_slot L a \<in> set (map (next_slot L) (0 # ts))" "prev_slot L b \<in> set (map (prev_slot L) (0 # ts))"
    "prev_slot L a \<in> set (map (prev_slot L) (0 # ts))"
    unfolding set_map by (rule imageI, rule assms)+
  show "next_slot L a \<noteq> prev_slot L b" "prev_slot L b \<noteq> next_slot L a"
    using d(3) n(1,2) by (metis IntI empty_iff)+
  show "aligned (next_slot L a)" "aligned (prev_slot L a)"
    using assms(1) n unfolding list_ok_def cells_def list_all_append by (simp_all only: list_all_iff)
qed

lemmas slot_aligned = slot_eq(5,6) [OF _ _ list.set_intros(1)]

lemma linked_insert:
  assumes "linked m L (xs @ ys)" "list_ok L (xs @ t # ys)"
  defines "p \<equiv> last (0 # xs)" and "n \<equiv> hd (ys @ [0])"
  assumes "\<And>x. x \<in> set (0 # xs @ t # ys) \<Longrightarrow>
       Read32 m' (next_slot L x) = (if x = t then Some n else if x = p then Some t else Read32 m (next_slot L x))"
    and "\<And>x. x \<in> set (0 # xs @ t # ys) \<Longrightarrow>
       Read32 m' (prev_slot L x) = (if x = t then Some p else if x = n then Some t else Read32 m (prev_slot L x))"
  shows "linked m' L (xs @ t # ys)"
proof -
  have d: "distinct (0 # xs @ ys)" "t \<notin> set (0 # xs @ ys)" using assms(2) by (auto simp: list_ok_def)
  note new = ring_insert [OF assms(1) [unfolded linked_def] d, folded p_def n_def]
  show ?thesis unfolding linked_def
  proof (rule path_cong [THEN iffD2, OF _ _ new])
    fix x
    show "x \<in> set (0 # xs @ t # ys) \<Longrightarrow> Read32 m' (next_slot L x) = ((\<lambda>a. Read32 m (next_slot L a))(p \<mapsto> t, t \<mapsto> n)) x"
      by (drule assms(5)) (simp only: fun_upd_apply)
    show "x \<in> set ((xs @ t # ys) @ [0]) \<Longrightarrow> Read32 m' (prev_slot L x) = ((\<lambda>a. Read32 m (prev_slot L a))(n \<mapsto> t, t \<mapsto> p)) x"
      by (subst assms(6)) (simp_all only: fun_upd_apply set_append list.set Un_insert_left Un_empty_left insert_iff Un_iff disj_comms, blast)
  qed
qed

lemma linked_remove:
  assumes "linked m L (xs @ t # ys)" "list_ok L (xs @ t # ys)"
  defines "p \<equiv> last (0 # xs)" and "n \<equiv> hd (ys @ [0])"
  assumes "\<And>x. x \<in> set (0 # xs @ ys) \<Longrightarrow> Read32 m' (next_slot L x) = (if x = p then Some n else Read32 m (next_slot L x))"
    and "\<And>x. x \<in> set (0 # xs @ ys) \<Longrightarrow> Read32 m' (prev_slot L x) = (if x = n then Some p else Read32 m (prev_slot L x))"
  shows "linked m' L (xs @ ys)"
proof -
  have d: "distinct (0 # xs @ t # ys)" using assms(2) by (simp add: list_ok_def)
  note new = ring_remove(1) [OF assms(1) [unfolded linked_def] d, folded p_def n_def]
  show ?thesis unfolding linked_def
  proof (rule path_cong [THEN iffD2, OF _ _ new])
    fix x
    show "x \<in> set (0 # xs @ ys) \<Longrightarrow> Read32 m' (next_slot L x) = ((\<lambda>a. Read32 m (next_slot L a))(p \<mapsto> n)) x"
      by (drule assms(5)) (simp only: fun_upd_apply)
    show "x \<in> set ((xs @ ys) @ [0]) \<Longrightarrow> Read32 m' (prev_slot L x) = ((\<lambda>a. Read32 m (prev_slot L a))(n \<mapsto> p)) x"
      by (subst assms(6)) (simp_all only: fun_upd_apply set_append list.set Un_insert_left Un_empty_left insert_iff Un_iff disj_comms, blast)
  qed
qed

text \<open>What a node's neighbours are, in the memory.\<close>

lemma linked_around:
  assumes "linked m L (xs @ t # ys)" "list_ok L (xs @ t # ys)"
  shows "Read32 m (next_slot L t) = Some (hd (ys @ [0]))" "Read32 m (prev_slot L t) = Some (last (0 # xs))"
  using ring_remove(2,3) [OF assms(1) [unfolded linked_def]] assms(2) by (simp_all add: list_ok_def)

lemma linked_ends:
  assumes "linked m L ts"
  shows "Read32 m (l_head L) = Some (hd (ts @ [0]))" "Read32 m (l_tail L) = Some (last (0 # ts))"
proof -
  show "Read32 m (l_head L) = Some (hd (ts @ [0]))"
    using assms by (cases ts) (simp_all add: linked_def next_slot_def)
  show "Read32 m (l_tail L) = Some (last (0 # ts))"
    using path_end [OF assms [unfolded linked_def]] by (simp add: prev_slot_def)
qed

text \<open>A change of memory that a list does not see.\<close>

lemma linked_frame:
  assumes "linked m L ts" "\<And>a. a \<in> set (cells L ts) \<Longrightarrow> Read32 m' a = Read32 m a"
  shows "linked m' L ts"
  using assms unfolding linked_def by (subst path_cong) (auto simp: cells_def)

text \<open>The same cells, but for these, and none lost.\<close>

definition same_but :: "u32 list \<Rightarrow> gmem \<Rightarrow> gmem \<Rightarrow> bool" where
  "same_but cs m m' \<longleftrightarrow> (\<forall>a. aligned a \<longrightarrow>
     (a \<notin> set cs \<longrightarrow> Read32 m' a = Read32 m a \<and> Read16 m' a = Read16 m a) \<and> (Read32 m a \<noteq> None \<longrightarrow> Read32 m' a \<noteq> None))"

lemma same_but_refl [simp]: "same_but cs m m"
  by (simp add: same_but_def)

lemma same_but_poke: "same_but cs m m' \<Longrightarrow> aligned a \<Longrightarrow> a \<in> set cs \<Longrightarrow> same_but cs m (poke32 m' a v)"
  by (auto simp: same_but_def)

lemma same_but_trans: "same_but cs m m' \<Longrightarrow> same_but ds m' m'' \<Longrightarrow> set cs \<subseteq> set es \<Longrightarrow> set ds \<subseteq> set es \<Longrightarrow> same_but es m m''"
  unfolding same_but_def by (metis subsetD)

lemma Write32_Some: "Read32 m a = Some v' \<Longrightarrow> Write32 m a v = Some (poke32 m a v)"
  by (simp add: Write32_def)

text \<open>The cell of a node, for the code's test of zero.\<close>

lemma slot_codes:
  "(if x \<noteq> 0 then x + l_prev L else l_tail L) = prev_slot L x" "(if x \<noteq> 0 then x + l_next L else l_head L) = next_slot L x"
  "(if x = 0 then l_head L else x + l_next L) = next_slot L x" "(if x = 0 then l_tail L else x + l_prev L) = prev_slot L x"
  by (simp_all add: next_slot_def prev_slot_def)

text \<open>A node that is taken out.\<close>

lemma unlink_linked:
  assumes lk: "linked m L (xs @ t # ys)" and ok: "list_ok L (xs @ t # ys)"
  shows "\<exists>m'. UnlinkGuestListNode t L m = Some m' \<and> linked m' L (xs @ ys) \<and>
     Read32 m' (next_slot L t) = Some 0 \<and> Read32 m' (prev_slot L t) = Some 0 \<and> same_but (cells L (xs @ t # ys)) m m'"
proof -
  define ts where "ts = xs @ t # ys"
  define p where "p = last (0 # xs)"
  define n where "n = hd (ys @ [0])"
  have t: "t \<in> set (0 # ts)" "t \<noteq> 0" using ok by (auto simp: list_ok_def ts_def)
  have "p \<in> set (0 # xs)" unfolding p_def by (rule last_in_set) simp
  then have p: "p \<in> set (0 # ts)" "p \<noteq> t" using ok by (auto simp: list_ok_def ts_def)
  have "n \<in> set (0 # ys)" unfolding n_def by (cases ys) auto
  then have n: "n \<in> set (0 # ts)" "n \<noteq> t" using ok by (auto simp: list_ok_def ts_def)
  have slots: "t + l_next L = next_slot L t" "t + l_prev L = prev_slot L t" using t(2) by (simp_all add: next_slot_def prev_slot_def)
  note around = linked_around [OF lk ok, folded p_def n_def]
  obtain vp where vp: "Read32 m (next_slot L p) = Some vp"
    using path_mapped(1) [OF lk [unfolded linked_def], of p] p(1) unfolding ts_def by blast
  obtain vn where vn: "Read32 m (prev_slot L n) = Some vn"
    using path_mapped(2) [OF lk [unfolded linked_def], of n] n(1) unfolding ts_def by blast
  define m' where "m' = poke32 (poke32 (poke32 (poke32 m (prev_slot L n) p) (next_slot L p) n) (next_slot L t) 0) (prev_slot L t) 0"
  have ok': "list_ok L ts" using ok by (simp add: ts_def)
  note eqs = slot_eq [OF ok']
  have W: "Write32 m (prev_slot L n) p = Some (poke32 m (prev_slot L n) p)" using vn by (rule Write32_Some)
  have W2: "Read32 (poke32 m (prev_slot L n) p) (next_slot L p) = Some vp" using vp p n by (simp add: eqs)
  have W3: "Read32 (poke32 (poke32 m (prev_slot L n) p) (next_slot L p) n) (next_slot L t) = Some n"
    using around p n t by (simp add: eqs)
  have W4: "Read32 (poke32 (poke32 (poke32 m (prev_slot L n) p) (next_slot L p) n) (next_slot L t) 0) (prev_slot L t) = Some p"
    using around p n t by (simp add: eqs)
  have run: "UnlinkGuestListNode t L m = Some m'"
    unfolding UnlinkGuestListNode_def slots slot_codes around bind.bind_lunit W Write32_Some [OF W2] Write32_Some [OF W3] Write32_Some [OF W4]
      m'_def by (rule refl)
  have nexts: "Read32 m' (next_slot L x) = (if x = t then Some 0 else if x = p then Some n else Read32 m (next_slot L x))"
    if "x \<in> set (0 # ts)" for x
    unfolding m'_def using that t(1) p n by (simp add: eqs)
  have prevs: "Read32 m' (prev_slot L x) = (if x = t then Some 0 else if x = n then Some p else Read32 m (prev_slot L x))"
    if "x \<in> set (0 # ts)" for x
    unfolding m'_def using that t(1) p n by (simp add: eqs)
  have sub: "x \<in> set (0 # xs @ ys) \<Longrightarrow> x \<in> set (0 # ts) \<and> x \<noteq> t" for x using ok by (auto simp: list_ok_def ts_def)
  have "linked m' L (xs @ ys)"
  proof (rule linked_remove [OF lk ok, folded p_def n_def])
    fix x
    assume x: "x \<in> set (0 # xs @ ys)"
    show "Read32 m' (next_slot L x) = (if x = p then Some n else Read32 m (next_slot L x))"
      "Read32 m' (prev_slot L x) = (if x = n then Some p else Read32 m (prev_slot L x))"
      using nexts prevs sub [OF x] by (metis (full_types))+
  qed
  moreover have "same_but (cells L ts) m m'"
    unfolding m'_def using t(1) p(1) n(1) by (intro same_but_poke same_but_refl eqs(5,6)) (auto simp: cells_def)
  ultimately show ?thesis using run nexts [OF t(1)] prevs [OF t(1)] unfolding ts_def by auto
qed

text \<open>A node that is put in.\<close>

lemma inserted_linked:
  assumes lk: "linked m L (xs @ ys)" and ok: "list_ok L (xs @ t # ys)"
  defines "p \<equiv> last (0 # xs)" and "n \<equiv> hd (ys @ [0])"
  assumes m': "\<And>a. aligned a \<Longrightarrow> Read32 m' a = (if a = next_slot L t then Some n else if a = prev_slot L t then Some p
       else if a = next_slot L p then Some t else if a = prev_slot L n then Some t else Read32 m a)"
  shows "linked m' L (xs @ t # ys)"
proof (rule linked_insert [OF lk ok, folded p_def n_def])
  define ts where "ts = xs @ t # ys"
  have "p \<in> set (0 # xs)" unfolding p_def by (rule last_in_set) simp
  then have p: "p \<in> set (0 # ts)" "p \<noteq> t" using ok by (auto simp: list_ok_def ts_def)
  have "n \<in> set (0 # ys)" unfolding n_def by (cases ys) auto
  then have n: "n \<in> set (0 # ts)" "n \<noteq> t" using ok by (auto simp: list_ok_def ts_def)
  have t: "t \<in> set (0 # ts)" by (simp add: ts_def)
  note eqs = slot_eq [OF ok [folded ts_def]]
  fix x
  assume x: "x \<in> set (0 # xs @ t # ys)"
  then have x: "x \<in> set (0 # ts)" by (simp only: ts_def)
  show "Read32 m' (next_slot L x) = (if x = t then Some n else if x = p then Some t else Read32 m (next_slot L x))"
    "Read32 m' (prev_slot L x) = (if x = t then Some p else if x = n then Some t else Read32 m (prev_slot L x))"
    using x t p n by (simp_all add: m' eqs)
qed

lemma linked_mapped:
  assumes "linked m L ts" "x \<in> set (0 # ts)"
  shows "\<exists>v. Read32 m (next_slot L x) = Some v" "\<exists>v. Read32 m (prev_slot L x) = Some v"
  using path_mapped [OF assms(1) [unfolded linked_def]] assms(2) by blast+

lemma link_last_linked:
  assumes lk: "linked m L xs" and ok: "list_ok L (xs @ [t])"
    and t: "Read32 m (t + l_next L) = Some vn" "Read32 m (t + l_prev L) = Some vp"
  shows "\<exists>m'. link_last t L m = Some m' \<and> linked m' L (xs @ [t]) \<and> same_but (cells L (xs @ [t])) m m'"
proof -
  define ts where "ts = xs @ [t]"
  define p where "p = last (0 # xs)"
  have "p \<in> set (0 # xs)" unfolding p_def by (rule last_in_set) simp
  then have p: "p \<in> set (0 # xs)" "p \<in> set (0 # ts)" "p \<noteq> t" using ok by (auto simp: list_ok_def ts_def)
  have t0: "t \<in> set (0 # ts)" "t \<noteq> 0" "0 \<in> set (0 # ts)" using ok by (auto simp: list_ok_def ts_def)
  have slots: "t + l_next L = next_slot L t" "t + l_prev L = prev_slot L t" "l_tail L = prev_slot L 0"
    using t0(2) by (simp_all add: next_slot_def prev_slot_def)
  note eqs = slot_eq [OF ok [folded ts_def]]
  have tail: "Read32 m (prev_slot L 0) = Some p" using linked_ends(2) [OF lk] by (simp add: prev_slot_def p_def)
  obtain v where v: "Read32 m (next_slot L p) = Some v" using linked_mapped(1) [OF lk p(1)] by blast
  define m' where "m' = poke32 (poke32 (poke32 (poke32 m (next_slot L p) t) (prev_slot L t) p) (next_slot L t) 0) (prev_slot L 0) t"
  have W: "Write32 m (next_slot L p) t = Some (poke32 m (next_slot L p) t)" using v by (rule Write32_Some)
  have W2: "Read32 (poke32 m (next_slot L p) t) (prev_slot L t) = Some vp" using t p t0 by (simp add: slots eqs)
  have W3: "Read32 (poke32 (poke32 m (next_slot L p) t) (prev_slot L t) p) (next_slot L t) = Some vn" using t p t0 by (simp add: slots eqs)
  have W4: "Read32 (poke32 (poke32 (poke32 m (next_slot L p) t) (prev_slot L t) p) (next_slot L t) 0) (prev_slot L 0) = Some p"
    using tail p t0 by (simp add: eqs)
  have "link_last t L m = Some m'"
    unfolding link_last_def slot_codes slots tail bind.bind_lunit W Write32_Some [OF W2] Write32_Some [OF W3] Write32_Some [OF W4] m'_def
    by (rule refl)
  moreover have "linked m' L (xs @ [t])"
  proof (rule inserted_linked [where xs = xs and ys = "[]", folded p_def])
    show "Read32 m' a = (if a = next_slot L t then Some (hd ([] @ [0])) else if a = prev_slot L t then Some p
       else if a = next_slot L p then Some t else if a = prev_slot L (hd ([] @ [0])) then Some t else Read32 m a)" if "aligned a" for a
      unfolding m'_def using that p t0 by (auto simp: eqs)
  qed (use lk ok in simp_all)
  moreover have "same_but (cells L ts) m m'"
    unfolding m'_def using p t0 by (intro same_but_poke same_but_refl eqs(5,6)) (auto simp: cells_def)
  ultimately show ?thesis by (simp add: ts_def)
qed

lemma link_before_linked:
  assumes lk: "linked m L (xs @ b # ys)" and ok: "list_ok L (xs @ t # b # ys)"
    and t: "Read32 m (t + l_next L) = Some vn" "Read32 m (t + l_prev L) = Some vp"
  shows "\<exists>m'. link_before t b L m = Some m' \<and> linked m' L (xs @ t # b # ys) \<and> same_but (cells L (xs @ t # b # ys)) m m'"
proof -
  define ts where "ts = xs @ t # b # ys"
  define p where "p = last (0 # xs)"
  have "p \<in> set (0 # xs)" unfolding p_def by (rule last_in_set) simp
  then have p: "p \<in> set (0 # xs @ b # ys)" "p \<in> set (0 # ts)" "p \<noteq> t" "p \<noteq> b" using ok by (auto simp: list_ok_def ts_def)
  have t0: "t \<in> set (0 # ts)" "t \<noteq> 0" "b \<in> set (0 # ts)" "b \<noteq> 0" "b \<noteq> t" using ok by (auto simp: list_ok_def ts_def)
  have slots: "t + l_next L = next_slot L t" "t + l_prev L = prev_slot L t" "b + l_prev L = prev_slot L b"
    using t0 by (simp_all add: next_slot_def prev_slot_def)
  note eqs = slot_eq [OF ok [folded ts_def]]
  have ok': "list_ok L (xs @ b # ys)"
    using ok unfolding list_ok_def cells_def by (auto simp: distinct_map inj_on_def)
  have prev: "Read32 m (prev_slot L b) = Some p" using linked_around(2) [OF lk ok'] by (simp add: p_def)
  obtain v where v: "Read32 m (next_slot L p) = Some v" using linked_mapped(1) [OF lk p(1)] by blast
  define m' where "m' = poke32 (poke32 (poke32 (poke32 m (next_slot L t) b) (prev_slot L b) t) (prev_slot L t) p) (next_slot L p) t"
  have W: "Write32 m (next_slot L t) b = Some (poke32 m (next_slot L t) b)" using t(1) by (simp add: slots Write32_Some)
  have W2: "Read32 (poke32 m (next_slot L t) b) (prev_slot L b) = Some p" using prev p t0 by (simp add: eqs)
  have W3: "Read32 (poke32 (poke32 m (next_slot L t) b) (prev_slot L b) t) (prev_slot L t) = Some vp" using t p t0 by (simp add: slots eqs)
  have W4: "Read32 (poke32 (poke32 (poke32 m (next_slot L t) b) (prev_slot L b) t) (prev_slot L t) p) (next_slot L p) = Some v"
    using v p t0 by (simp add: eqs)
  have "link_before t b L m = Some m'"
    unfolding link_before_def slot_codes slots W bind.bind_lunit W2 Write32_Some [OF W2] Write32_Some [OF W3] Write32_Some [OF W4] m'_def
    by (rule refl)
  moreover have "linked m' L (xs @ t # b # ys)"
  proof (rule inserted_linked [OF lk, folded p_def])
    show "Read32 m' a = (if a = next_slot L t then Some (hd ((b # ys) @ [0])) else if a = prev_slot L t then Some p
       else if a = next_slot L p then Some t else if a = prev_slot L (hd ((b # ys) @ [0])) then Some t else Read32 m a)" if "aligned a" for a
      unfolding m'_def using that p t0 by (auto simp: eqs)
  qed (use ok in simp_all)
  moreover have "same_but (cells L ts) m m'"
    unfolding m'_def using p t0 by (intro same_but_poke same_but_refl eqs(5,6)) (auto simp: cells_def)
  ultimately show ?thesis by (simp add: ts_def)
qed

lemma pop_linked:
  assumes lk: "linked m L (t # ys)" and ok: "list_ok L (t # ys)"
  shows "\<exists>m'. pop_first t L m = Some (hd (ys @ [0]), m') \<and> linked m' L ys \<and> same_but (cells L (t # ys)) m m'"
proof -
  define ts where "ts = t # ys"
  define n where "n = hd (ys @ [0])"
  have t0: "t \<in> set (0 # ts)" "t \<noteq> 0" "0 \<in> set (0 # ts)" using ok by (auto simp: list_ok_def ts_def)
  have "n \<in> set (0 # ys)" unfolding n_def by (cases ys) auto
  then have n: "n \<in> set (0 # ts)" "n \<noteq> t" using ok by (auto simp: list_ok_def ts_def)
  have slots: "t + l_next L = next_slot L t" "l_head L = next_slot L 0" using t0(2) by (simp_all add: next_slot_def)
  note eqs = slot_eq(1-4) [OF ok [folded ts_def]] slot_aligned [OF ok [folded ts_def]]
  have nexts: "Read32 m (next_slot L t) = Some n" using linked_around(1) [of m L "[]" t ys] lk ok by (simp add: n_def)
  obtain vp where vp: "Read32 m (prev_slot L n) = Some vp" using linked_mapped(2) [OF lk] n(1) unfolding ts_def by blast
  have head: "Read32 m (next_slot L 0) = Some t" using linked_ends(1) [OF lk] by (simp add: next_slot_def)
  define m' where "m' = poke32 (poke32 m (prev_slot L n) 0) (next_slot L 0) n"
  have W: "(if n = 0 then Write32 m (l_tail L) 0 else Write32 m (n + l_prev L) 0) = Some (poke32 m (prev_slot L n) 0)"
    using Write32_Some [OF vp, of 0] by (auto simp: prev_slot_def split: if_splits)
  have W2: "Read32 (poke32 m (prev_slot L n) 0) (next_slot L 0) = Some t" using head n t0 by (simp add: eqs)
  have "pop_first t L m = Some (n, m')"
    unfolding pop_first_def slots nexts bind.bind_lunit W Write32_Some [OF W2] m'_def by (rule refl)
  moreover have "linked m' L ([] @ ys)"
  proof (rule linked_remove [where xs = "[]" and t = t and ys = ys and m = m, folded n_def])
    fix x
    assume "x \<in> set (0 # [] @ ys)"
    then have x: "x \<in> set (0 # ts)" by (auto simp: ts_def)
    show "Read32 m' (next_slot L x) = (if x = last [0] then Some n else Read32 m (next_slot L x))"
      "Read32 m' (prev_slot L x) = (if x = n then Some (last [0]) else Read32 m (prev_slot L x))"
      unfolding m'_def using x n t0 by (auto simp: eqs)
  qed (use lk ok in simp_all)
  moreover have "same_but (cells L ts) m m'"
    unfolding m'_def using n t0 by (intro same_but_poke same_but_refl eqs(5,6)) (auto simp: cells_def)
  ultimately show ?thesis by (simp add: ts_def n_def)
qed

end
