(* ===== verification/Os_System.thy ===== *)
theory Os_System
  imports Os_List
begin

text \<open>
  The threads, the queues and the mutexes of the system (src/platform/os/os_internal.h,
  src/cpu/include/guest_os_layout.h): where the game keeps its variables (\<open>os_layout\<close>), the fields of each object,
  and what the memory says of them all (\<open>sched\<close>, with \<open>represents\<close>).
\<close>

record os_layout =
  run_queue :: u32
  run_queue_bits :: u32
  reschedule :: u32
  scheduler_disable_count :: u32
  idle_thread :: u32

definition kOSRunningContextAddr :: u32 where "kOSRunningContextAddr = 0x800000E4"
definition kThreadStateOffset :: u32 where "kThreadStateOffset = 0x2C8"
definition kThreadSuspendOffset :: u32 where "kThreadSuspendOffset = 0x2CC"
definition kThreadPriorityOffset :: u32 where "kThreadPriorityOffset = 0x2D0"
definition kThreadBasePriorityOffset :: u32 where "kThreadBasePriorityOffset = 0x2D4"
definition kThreadQueueOffset :: u32 where "kThreadQueueOffset = 0x2DC"
definition kThreadNextOffset :: u32 where "kThreadNextOffset = 0x2E0"
definition kThreadPrevOffset :: u32 where "kThreadPrevOffset = 0x2E4"
definition kThreadMutexOffset :: u32 where "kThreadMutexOffset = 0x2F0"
definition kThreadMutexQueueOffset :: u32 where "kThreadMutexQueueOffset = 0x2F4"
definition kThreadMutexTailOffset :: u32 where "kThreadMutexTailOffset = 0x2F8"
definition kThreadQueueArrayBytes :: u32 where "kThreadQueueArrayBytes = 0x100"
definition kMutexWaitQueueHeadOffset :: u32 where "kMutexWaitQueueHeadOffset = 0"
definition kMutexOwnerOffset :: u32 where "kMutexOwnerOffset = 0x08"
definition kMutexCountOffset :: u32 where "kMutexCountOffset = 0x0C"
definition kMutexThreadNextOffset :: u32 where "kMutexThreadNextOffset = 0x10"
definition kMutexThreadPrevOffset :: u32 where "kMutexThreadPrevOffset = 0x14"
definition kThreadStateReady :: u16 where "kThreadStateReady = 1"
definition kThreadStateRunning :: u16 where "kThreadStateRunning = 2"
definition kThreadStateWaiting :: u16 where "kThreadStateWaiting = 4"
definition kThreadStateMoribund :: u16 where "kThreadStateMoribund = 8"
definition kSuspendedWaitPriority :: u32 where "kSuspendedWaitPriority = 32"

lemmas thread_offsets = kThreadStateOffset_def kThreadSuspendOffset_def kThreadPriorityOffset_def
  kThreadBasePriorityOffset_def kThreadQueueOffset_def kThreadNextOffset_def kThreadPrevOffset_def kThreadMutexOffset_def
  kThreadMutexQueueOffset_def kThreadMutexTailOffset_def

lemmas mutex_offsets = kMutexOwnerOffset_def kMutexCountOffset_def kMutexThreadNextOffset_def kMutexThreadPrevOffset_def

definition thread_field_offsets :: "u32 list" where
  "thread_field_offsets = [kThreadStateOffset, kThreadSuspendOffset, kThreadPriorityOffset, kThreadBasePriorityOffset, kThreadQueueOffset,
     kThreadNextOffset, kThreadPrevOffset, kThreadMutexOffset, kThreadMutexQueueOffset, kThreadMutexTailOffset]"

definition mutex_field_offsets :: "u32 list" where
  "mutex_field_offsets = [kMutexOwnerOffset, kMutexCountOffset, kMutexThreadNextOffset, kMutexThreadPrevOffset]"

lemma offsets_distinct: "distinct thread_field_offsets" "distinct (rev thread_field_offsets)"
  "distinct mutex_field_offsets" "distinct (rev mutex_field_offsets)"
  by (simp_all add: thread_field_offsets_def mutex_field_offsets_def thread_offsets mutex_offsets)

lemmas offsets_apart [simp] = offsets_distinct [unfolded thread_field_offsets_def mutex_field_offsets_def, simplified]

text \<open>A queue of threads: its head, and its tail in the next cell.\<close>

definition thread_queue :: "u32 \<Rightarrow> glist" where
  "thread_queue q = \<lparr>l_next = kThreadNextOffset, l_prev = kThreadPrevOffset, l_head = q, l_tail = q + 4\<rparr>"

definition is_run_queue :: "'a os_layout_scheme \<Rightarrow> u32 \<Rightarrow> bool" where
  "is_run_queue lay q \<longleftrightarrow> run_queue lay \<le> q \<and> q < run_queue lay + kThreadQueueArrayBytes \<and> (q - run_queue lay) mod 8 = 0"

definition run_entry :: "'a os_layout_scheme \<Rightarrow> u32 \<Rightarrow> u32" where
  "run_entry lay priority = run_queue lay + priority * 8"

section \<open>Places\<close>

text \<open>
  The objects of the system: the threads, the queues (the run queues, the wait queues, those of the mutexes), the
  mutexes. A place is a cell with a name; places are apart when the game has laid its objects out without overlap.
\<close>

record os_system = os_layout +
  threads :: "u32 list"
  queues :: "u32 list"
  mutexes :: "u32 list"

datatype place =
    Pending
  | Reschedule
  | Running
  | Head u32
  | Tail u32
  | Mutex_Field u32 u32
  | Thread_Field u32 u32

primrec addr :: "'a os_layout_scheme \<Rightarrow> place \<Rightarrow> u32" where
  "addr sys Pending = run_queue_bits sys"
| "addr sys Reschedule = reschedule sys"
| "addr sys Running = kOSRunningContextAddr"
| "addr sys (Head q) = q"
| "addr sys (Tail q) = q + 4"
| "addr sys (Mutex_Field x k) = x + k"
| "addr sys (Thread_Field t k) = t + k"

definition scalar_places :: "os_system \<Rightarrow> place list" where
  "scalar_places sys = [Pending, Reschedule, Running] @
     concat (map (\<lambda>x. map (Mutex_Field x) [kMutexOwnerOffset, kMutexCountOffset]) (mutexes sys)) @
     concat (map (\<lambda>t. map (Thread_Field t) [kThreadStateOffset, kThreadSuspendOffset, kThreadPriorityOffset,
       kThreadBasePriorityOffset, kThreadQueueOffset, kThreadMutexOffset]) (threads sys))"

definition link_places :: "os_system \<Rightarrow> place list" where
  "link_places sys = map Head (queues sys) @ map Tail (queues sys) @
     concat (map (\<lambda>x. map (Mutex_Field x) [kMutexThreadNextOffset, kMutexThreadPrevOffset]) (mutexes sys)) @
     concat (map (\<lambda>t. map (Thread_Field t) [kThreadNextOffset, kThreadPrevOffset, kThreadMutexQueueOffset,
       kThreadMutexTailOffset]) (threads sys))"

definition system_ok :: "os_system \<Rightarrow> bool" where
  "system_ok sys \<longleftrightarrow> distinct (map (addr sys) (scalar_places sys @ link_places sys)) \<and>
     list_all aligned (map (addr sys) (scalar_places sys @ link_places sys)) \<and>
     0 \<notin> set (threads sys) \<and> 0 \<notin> set (mutexes sys) \<and> 0 \<notin> set (queues sys) \<and>
     unat (run_queue sys) + 0x100 < 2 ^ 32 \<and> list_all (\<lambda>k. run_entry sys (of_nat k) \<in> set (queues sys)) [0..<32] \<and>
     set (mutexes sys) \<subseteq> set (queues sys)"

definition get :: "'a os_layout_scheme \<Rightarrow> gmem \<Rightarrow> place \<Rightarrow> u32 option" where
  "get sys m p = Read32 m (addr sys p)"

definition put :: "'a os_layout_scheme \<Rightarrow> gmem \<Rightarrow> place \<Rightarrow> u32 \<Rightarrow> gmem" where
  "put sys m p v = poke32 m (addr sys p) v"

definition places :: "os_system \<Rightarrow> place set" where
  "places sys = set (scalar_places sys) \<union> set (link_places sys)"

lemma place_eq:
  assumes "system_ok sys" "p \<in> places sys" "p' \<in> places sys"
  shows "addr sys p = addr sys p' \<longleftrightarrow> p = p'" "aligned (addr sys p)"
  using assms unfolding system_ok_def places_def distinct_map inj_on_def list_all_iff by auto

lemma get_put [simp]:
  "system_ok sys \<Longrightarrow> p \<in> places sys \<Longrightarrow> p' \<in> places sys \<Longrightarrow> get sys (put sys m p v) p' = (if p = p' then Some v else get sys m p')"
  by (simp add: get_def put_def place_eq)

lemma in_places [simp]:
  "Pending \<in> places sys" "Reschedule \<in> places sys" "Running \<in> places sys"
  "Head q \<in> places sys \<longleftrightarrow> q \<in> set (queues sys)" "Tail q \<in> places sys \<longleftrightarrow> q \<in> set (queues sys)"
  "Mutex_Field x k \<in> places sys \<longleftrightarrow> x \<in> set (mutexes sys) \<and>
     k \<in> {kMutexOwnerOffset, kMutexCountOffset, kMutexThreadNextOffset, kMutexThreadPrevOffset}"
  "Thread_Field t k \<in> places sys \<longleftrightarrow> t \<in> set (threads sys) \<and> k \<in> {kThreadStateOffset, kThreadSuspendOffset, kThreadPriorityOffset,
     kThreadBasePriorityOffset, kThreadQueueOffset, kThreadMutexOffset, kThreadNextOffset, kThreadPrevOffset, kThreadMutexQueueOffset,
     kThreadMutexTailOffset}"
  by (auto simp: places_def scalar_places_def link_places_def)

lemma in_scalar_places [simp]:
  "Pending \<in> set (scalar_places sys)" "Reschedule \<in> set (scalar_places sys)" "Running \<in> set (scalar_places sys)"
  "Mutex_Field x k \<in> set (scalar_places sys) \<longleftrightarrow> x \<in> set (mutexes sys) \<and> k \<in> {kMutexOwnerOffset, kMutexCountOffset}"
  "Thread_Field t k \<in> set (scalar_places sys) \<longleftrightarrow> t \<in> set (threads sys) \<and> k \<in> {kThreadStateOffset, kThreadSuspendOffset,
     kThreadPriorityOffset, kThreadBasePriorityOffset, kThreadQueueOffset, kThreadMutexOffset}"
  by (auto simp: scalar_places_def)

section \<open>The state of the scheduler\<close>

text \<open>What the memory holds: who stands in which queue, which mutexes a thread holds, and the fields of each.\<close>

record sched =
  pending :: u32
  resched :: u32
  running :: u32
  members :: "u32 \<Rightarrow> u32 list"
  held :: "u32 \<Rightarrow> u32 list"
  state :: "u32 \<Rightarrow> u16"
  suspended :: "u32 \<Rightarrow> u32"
  prio :: "u32 \<Rightarrow> u32"
  base_prio :: "u32 \<Rightarrow> u32"
  queued_on :: "u32 \<Rightarrow> u32"
  blocked_on :: "u32 \<Rightarrow> u32"
  owner :: "u32 \<Rightarrow> u32"
  lock_count :: "u32 \<Rightarrow> u32"

definition mutex_list :: "u32 \<Rightarrow> glist" where
  "mutex_list t = \<lparr>l_next = kMutexThreadNextOffset, l_prev = kMutexThreadPrevOffset,
     l_head = t + kThreadMutexQueueOffset, l_tail = t + kThreadMutexTailOffset\<rparr>"

definition thread_fields_ok :: "os_system \<Rightarrow> sched \<Rightarrow> gmem \<Rightarrow> u32 \<Rightarrow> bool" where
  "thread_fields_ok sys S m t \<longleftrightarrow> Read16 m (t + kThreadStateOffset) = Some (state S t) \<and>
     get sys m (Thread_Field t kThreadSuspendOffset) = Some (suspended S t) \<and>
     get sys m (Thread_Field t kThreadPriorityOffset) = Some (prio S t) \<and>
     get sys m (Thread_Field t kThreadBasePriorityOffset) = Some (base_prio S t) \<and>
     get sys m (Thread_Field t kThreadQueueOffset) = Some (queued_on S t) \<and>
     get sys m (Thread_Field t kThreadMutexOffset) = Some (blocked_on S t)"

definition mutex_fields_ok :: "os_system \<Rightarrow> sched \<Rightarrow> gmem \<Rightarrow> u32 \<Rightarrow> bool" where
  "mutex_fields_ok sys S m x \<longleftrightarrow> get sys m (Mutex_Field x kMutexOwnerOffset) = Some (owner S x) \<and>
     get sys m (Mutex_Field x kMutexCountOffset) = Some (lock_count S x)"

definition scalars_ok :: "os_system \<Rightarrow> sched \<Rightarrow> gmem \<Rightarrow> bool" where
  "scalars_ok sys S m \<longleftrightarrow> get sys m Pending = Some (pending S) \<and> get sys m Reschedule = Some (resched S) \<and>
     get sys m Running = Some (running S) \<and> (\<forall>t \<in> set (threads sys). thread_fields_ok sys S m t) \<and>
     (\<forall>x \<in> set (mutexes sys). mutex_fields_ok sys S m x)"

definition links_ok :: "os_system \<Rightarrow> sched \<Rightarrow> gmem \<Rightarrow> bool" where
  "links_ok sys S m \<longleftrightarrow> (\<forall>q \<in> set (queues sys). linked m (thread_queue q) (members S q)) \<and>
     (\<forall>t \<in> set (threads sys). linked m (mutex_list t) (held S t)) \<and>
     (\<forall>p \<in> set (link_places sys). \<exists>v. get sys m p = Some v)"

text \<open>Lists of members that share nothing.\<close>

definition lists_ok :: "u32 list \<Rightarrow> u32 list \<Rightarrow> (u32 \<Rightarrow> u32 list) \<Rightarrow> bool" where
  "lists_ok qs ts f \<longleftrightarrow> (\<forall>q \<in> set qs. distinct (f q) \<and> set (f q) \<subseteq> set ts) \<and>
     (\<forall>q \<in> set qs. \<forall>q' \<in> set qs. q \<noteq> q' \<longrightarrow> set (f q) \<inter> set (f q') = {})"

definition represents :: "os_system \<Rightarrow> sched \<Rightarrow> gmem \<Rightarrow> bool" where
  "represents sys S m \<longleftrightarrow> scalars_ok sys S m \<and> links_ok sys S m \<and> lists_ok (queues sys) (threads sys) (members S) \<and>
     lists_ok (threads sys) (mutexes sys) (held S)"

text \<open>A list of threads, or of mutexes, as places.\<close>

definition queue_places :: "u32 \<Rightarrow> u32 list \<Rightarrow> place list" where
  "queue_places q ts = Head q # map (\<lambda>t. Thread_Field t kThreadNextOffset) ts @ Tail q # map (\<lambda>t. Thread_Field t kThreadPrevOffset) ts"

definition held_places :: "u32 \<Rightarrow> u32 list \<Rightarrow> place list" where
  "held_places t xs = Thread_Field t kThreadMutexQueueOffset # map (\<lambda>x. Mutex_Field x kMutexThreadNextOffset) xs @
     Thread_Field t kThreadMutexTailOffset # map (\<lambda>x. Mutex_Field x kMutexThreadPrevOffset) xs"

lemma queue_cells: "0 \<notin> set ts \<Longrightarrow> cells (thread_queue q) ts = map (addr sys) (queue_places q ts)"
  by (auto simp: cells_def queue_places_def next_slot_def prev_slot_def thread_queue_def)

lemma held_cells: "0 \<notin> set xs \<Longrightarrow> cells (mutex_list t) xs = map (addr sys) (held_places t xs)"
  by (auto simp: cells_def held_places_def next_slot_def prev_slot_def mutex_list_def)

lemma queue_places_in: "q \<in> set (queues sys) \<Longrightarrow> set ts \<subseteq> set (threads sys) \<Longrightarrow> set (queue_places q ts) \<subseteq> set (link_places sys)"
  by (auto simp: queue_places_def link_places_def)

lemma held_places_in: "t \<in> set (threads sys) \<Longrightarrow> set xs \<subseteq> set (mutexes sys) \<Longrightarrow> set (held_places t xs) \<subseteq> set (link_places sys)"
  by (auto simp: held_places_def link_places_def)

lemma places_list_ok:
  assumes "system_ok sys" "distinct ps" "set ps \<subseteq> places sys"
  shows "distinct (map (addr sys) ps)" "list_all aligned (map (addr sys) ps)"
proof -
  show "distinct (map (addr sys) ps)"
    using assms(2,3) place_eq(1) [OF assms(1)] unfolding distinct_map inj_on_def by (metis subsetD)
  show "list_all aligned (map (addr sys) ps)"
    using assms(3) place_eq(2) [OF assms(1)] unfolding list_all_iff set_map by blast
qed

lemma queue_list_ok:
  assumes "system_ok sys" "q \<in> set (queues sys)" "distinct ts" "set ts \<subseteq> set (threads sys)"
  shows "list_ok (thread_queue q) ts"
proof -
  have z: "0 \<notin> set ts" using assms by (auto simp: system_ok_def)
  have "distinct (queue_places q ts)" using assms(3) by (auto simp: queue_places_def distinct_map inj_on_def)
  moreover have "set (queue_places q ts) \<subseteq> places sys" using queue_places_in [OF assms(2,4)] by (auto simp: places_def)
  ultimately show ?thesis
    using places_list_ok [OF assms(1)] z assms(3) by (simp add: list_ok_def queue_cells [OF z, of _ sys])
qed

lemma held_list_ok:
  assumes "system_ok sys" "t \<in> set (threads sys)" "distinct xs" "set xs \<subseteq> set (mutexes sys)"
  shows "list_ok (mutex_list t) xs"
proof -
  have z: "0 \<notin> set xs" using assms by (auto simp: system_ok_def)
  have "distinct (held_places t xs)" using assms(3)
    by (auto simp: held_places_def distinct_map inj_on_def thread_offsets mutex_offsets)
  moreover have "set (held_places t xs) \<subseteq> places sys" using held_places_in [OF assms(2,4)] by (auto simp: places_def)
  ultimately show ?thesis
    using places_list_ok [OF assms(1)] z assms(3) by (simp add: list_ok_def held_cells [OF z, of _ sys])
qed

text \<open>What a change to some places leaves alone.\<close>

lemma same_but_get:
  assumes "system_ok sys" "same_but (map (addr sys) ps) m m'" "set ps \<subseteq> places sys" "p \<in> places sys" "p \<notin> set ps"
  shows "get sys m' p = get sys m p" "Read16 m' (addr sys p) = Read16 m (addr sys p)"
proof -
  have "addr sys p \<notin> set (map (addr sys) ps)" using assms place_eq(1) [OF assms(1)] by auto
  then show "get sys m' p = get sys m p" "Read16 m' (addr sys p) = Read16 m (addr sys p)"
    using assms(2) place_eq(2) [OF assms(1,4) assms(4)] unfolding same_but_def get_def by blast+
qed

lemma linked_frame_places:
  assumes "linked m L xs" "cells L xs = map (addr sys) ps" "\<And>p. p \<in> set ps \<Longrightarrow> get sys m' p = get sys m p"
  shows "linked m' L xs"
proof (rule linked_frame [OF assms(1)])
  fix a
  assume "a \<in> set (cells L xs)"
  then obtain p where "p \<in> set ps" "a = addr sys p" unfolding assms(2) set_map by blast
  then show "Read32 m' a = Read32 m a" using assms(3) unfolding get_def by blast
qed

lemma links_frame:
  assumes ok: "system_ok sys" "lists_ok (queues sys) (threads sys) (members S)" "lists_ok (threads sys) (mutexes sys) (held S)"
    and links: "links_ok sys S m" and same: "\<And>p. p \<in> set (link_places sys) \<Longrightarrow> get sys m' p = get sys m p"
  shows "links_ok sys S m'"
  unfolding links_ok_def
proof (intro conjI ballI)
  fix q
  assume q: "q \<in> set (queues sys)"
  then have sub: "set (members S q) \<subseteq> set (threads sys)" using ok(2) by (simp add: lists_ok_def)
  then have z: "0 \<notin> set (members S q)" using ok(1) by (auto simp: system_ok_def)
  have "linked m (thread_queue q) (members S q)" using links q unfolding links_ok_def by blast
  then show "linked m' (thread_queue q) (members S q)"
    by (rule linked_frame_places [OF _ queue_cells [OF z, of q sys]]) (rule same, rule subsetD [OF queue_places_in [OF q sub]])
next
  fix t
  assume t: "t \<in> set (threads sys)"
  then have sub: "set (held S t) \<subseteq> set (mutexes sys)" using ok(3) by (simp add: lists_ok_def)
  then have z: "0 \<notin> set (held S t)" using ok(1) by (auto simp: system_ok_def)
  have "linked m (mutex_list t) (held S t)" using links t unfolding links_ok_def by blast
  then show "linked m' (mutex_list t) (held S t)"
    by (rule linked_frame_places [OF _ held_cells [OF z, of t sys]]) (rule same, rule subsetD [OF held_places_in [OF t sub]])
next
  fix p
  assume p: "p \<in> set (link_places sys)"
  show "\<exists>v. get sys m' p = Some v" unfolding same [OF p] using links p unfolding links_ok_def by blast
qed

lemma scalars_frame:
  assumes "scalars_ok sys S m" "\<And>p. p \<in> set (scalar_places sys) \<Longrightarrow> get sys m' p = get sys m p"
    "\<And>t. t \<in> set (threads sys) \<Longrightarrow> Read16 m' (t + kThreadStateOffset) = Read16 m (t + kThreadStateOffset)"
  shows "scalars_ok sys S m'"
  using assms(1,3) unfolding scalars_ok_def thread_fields_ok_def mutex_fields_ok_def by (simp add: assms(2))

section \<open>Reads and writes of the fields\<close>

lemma scalar_not_link: "system_ok sys \<Longrightarrow> p \<in> set (scalar_places sys) \<Longrightarrow> p' \<in> set (link_places sys) \<Longrightarrow> p \<noteq> p'"
  unfolding system_ok_def map_append distinct_append by (metis disjoint_iff image_eqI set_map)

lemma scalar_in [intro]: "p \<in> set (scalar_places sys) \<Longrightarrow> p \<in> places sys"
  by (simp add: places_def)

lemma link_in [intro]: "p \<in> set (link_places sys) \<Longrightarrow> p \<in> places sys"
  by (simp add: places_def)

lemma state_put:
  "system_ok sys \<Longrightarrow> p \<in> places sys \<Longrightarrow> t \<in> set (threads sys) \<Longrightarrow> p \<noteq> Thread_Field t kThreadStateOffset \<Longrightarrow>
     Read16 (put sys m p v) (t + kThreadStateOffset) = Read16 m (t + kThreadStateOffset)"
  using place_eq [of sys p "Thread_Field t kThreadStateOffset"] place_eq(2) [of sys "Thread_Field t kThreadStateOffset" Running]
  by (simp add: put_def)

lemma represents_put:
  assumes "system_ok sys" "represents sys S m" "p \<in> set (scalar_places sys)"
    and "scalars_ok sys S' (put sys m p v)" "members S' = members S" "held S' = held S"
  shows "represents sys S' (put sys m p v)"
proof -
  have "links_ok sys S (put sys m p v)"
  proof (rule links_frame [of _ _ m])
    fix p'
    assume "p' \<in> set (link_places sys)"
    then show "get sys (put sys m p v) p' = get sys m p'"
      using scalar_not_link [OF assms(1,3)] assms(1,3) by (subst get_put) auto
  qed (use assms in \<open>simp_all add: represents_def\<close>)
  then have "links_ok sys S' (put sys m p v)" unfolding links_ok_def assms(5,6) .
  then show ?thesis using assms by (simp add: represents_def)
qed

lemma represents_reads:
  assumes "represents sys S m"
  shows "Read32 m (run_queue_bits sys) = Some (pending S)" "Read32 m (reschedule sys) = Some (resched S)"
    "Read32 m kOSRunningContextAddr = Some (running S)"
    "t \<in> set (threads sys) \<Longrightarrow> Read16 m (t + kThreadStateOffset) = Some (state S t)"
    "t \<in> set (threads sys) \<Longrightarrow> Read32 m (t + kThreadSuspendOffset) = Some (suspended S t)"
    "t \<in> set (threads sys) \<Longrightarrow> Read32 m (t + kThreadPriorityOffset) = Some (prio S t)"
    "t \<in> set (threads sys) \<Longrightarrow> Read32 m (t + kThreadBasePriorityOffset) = Some (base_prio S t)"
    "t \<in> set (threads sys) \<Longrightarrow> Read32 m (t + kThreadQueueOffset) = Some (queued_on S t)"
    "t \<in> set (threads sys) \<Longrightarrow> Read32 m (t + kThreadMutexOffset) = Some (blocked_on S t)"
    "x \<in> set (mutexes sys) \<Longrightarrow> Read32 m (x + kMutexOwnerOffset) = Some (owner S x)"
    "x \<in> set (mutexes sys) \<Longrightarrow> Read32 m (x + kMutexCountOffset) = Some (lock_count S x)"
  using assms by (simp_all add: represents_def scalars_ok_def thread_fields_ok_def mutex_fields_ok_def get_def)

lemma write_scalar:
  assumes "system_ok sys" "represents sys S m" "p \<in> set (scalar_places sys)" "Read32 m (addr sys p) = Some v0"
    and "scalars_ok sys S' (put sys m p v)" "members S' = members S" "held S' = held S"
  shows "\<exists>m'. Write32 m (addr sys p) v = Some m' \<and> represents sys S' m'"
  using represents_put [OF assms(1-3,5-7)] Write32_Some [OF assms(4), of v] unfolding put_def by blast

lemma represents_writes:
  assumes ok: "system_ok sys" and rep: "represents sys S m"
  shows "\<exists>m'. Write32 m (run_queue_bits sys) v = Some m' \<and> represents sys (S\<lparr>pending := v\<rparr>) m'"
    "\<exists>m'. Write32 m (reschedule sys) v = Some m' \<and> represents sys (S\<lparr>resched := v\<rparr>) m'"
    "\<exists>m'. Write32 m kOSRunningContextAddr v = Some m' \<and> represents sys (S\<lparr>running := v\<rparr>) m'"
    "t \<in> set (threads sys) \<Longrightarrow> \<exists>m'. Write32 m (t + kThreadSuspendOffset) v = Some m' \<and>
       represents sys (S\<lparr>suspended := (suspended S)(t := v)\<rparr>) m'"
    "t \<in> set (threads sys) \<Longrightarrow> \<exists>m'. Write32 m (t + kThreadPriorityOffset) v = Some m' \<and>
       represents sys (S\<lparr>prio := (prio S)(t := v)\<rparr>) m'"
    "t \<in> set (threads sys) \<Longrightarrow> \<exists>m'. Write32 m (t + kThreadQueueOffset) v = Some m' \<and>
       represents sys (S\<lparr>queued_on := (queued_on S)(t := v)\<rparr>) m'"
    "t \<in> set (threads sys) \<Longrightarrow> \<exists>m'. Write32 m (t + kThreadMutexOffset) v = Some m' \<and>
       represents sys (S\<lparr>blocked_on := (blocked_on S)(t := v)\<rparr>) m'"
    "x \<in> set (mutexes sys) \<Longrightarrow> \<exists>m'. Write32 m (x + kMutexOwnerOffset) v = Some m' \<and>
       represents sys (S\<lparr>owner := (owner S)(x := v)\<rparr>) m'"
    "x \<in> set (mutexes sys) \<Longrightarrow> \<exists>m'. Write32 m (x + kMutexCountOffset) v = Some m' \<and>
       represents sys (S\<lparr>lock_count := (lock_count S)(x := v)\<rparr>) m'"
proof -
  have sc: "scalars_ok sys S m" using rep by (simp add: represents_def)
  note store = write_scalar [OF ok rep, of _ _ _ v]
  note unf = scalars_ok_def thread_fields_ok_def mutex_fields_ok_def
  note put = get_put [OF ok] state_put [OF ok]
  show "\<exists>m'. Write32 m (run_queue_bits sys) v = Some m' \<and> represents sys (S\<lparr>pending := v\<rparr>) m'"
    by (rule store [of Pending, unfolded addr.simps]) (use sc represents_reads [OF rep] in \<open>simp_all add: unf put\<close>)
  show "\<exists>m'. Write32 m (reschedule sys) v = Some m' \<and> represents sys (S\<lparr>resched := v\<rparr>) m'"
    by (rule store [of Reschedule, unfolded addr.simps]) (use sc represents_reads [OF rep] in \<open>simp_all add: unf put\<close>)
  show "\<exists>m'. Write32 m kOSRunningContextAddr v = Some m' \<and> represents sys (S\<lparr>running := v\<rparr>) m'"
    by (rule store [of Running, unfolded addr.simps]) (use sc represents_reads [OF rep] in \<open>simp_all add: unf put\<close>)
  show "t \<in> set (threads sys) \<Longrightarrow> \<exists>m'. Write32 m (t + kThreadSuspendOffset) v = Some m' \<and>
       represents sys (S\<lparr>suspended := (suspended S)(t := v)\<rparr>) m'"
    by (rule store [of "Thread_Field t kThreadSuspendOffset", unfolded addr.simps]) (use sc represents_reads [OF rep] in \<open>simp_all add: unf put\<close>)
  show "t \<in> set (threads sys) \<Longrightarrow> \<exists>m'. Write32 m (t + kThreadPriorityOffset) v = Some m' \<and>
       represents sys (S\<lparr>prio := (prio S)(t := v)\<rparr>) m'"
    by (rule store [of "Thread_Field t kThreadPriorityOffset", unfolded addr.simps]) (use sc represents_reads [OF rep] in \<open>simp_all add: unf put\<close>)
  show "t \<in> set (threads sys) \<Longrightarrow> \<exists>m'. Write32 m (t + kThreadQueueOffset) v = Some m' \<and>
       represents sys (S\<lparr>queued_on := (queued_on S)(t := v)\<rparr>) m'"
    by (rule store [of "Thread_Field t kThreadQueueOffset", unfolded addr.simps]) (use sc represents_reads [OF rep] in \<open>simp_all add: unf put\<close>)
  show "t \<in> set (threads sys) \<Longrightarrow> \<exists>m'. Write32 m (t + kThreadMutexOffset) v = Some m' \<and>
       represents sys (S\<lparr>blocked_on := (blocked_on S)(t := v)\<rparr>) m'"
    by (rule store [of "Thread_Field t kThreadMutexOffset", unfolded addr.simps]) (use sc represents_reads [OF rep] in \<open>simp_all add: unf put\<close>)
  show "x \<in> set (mutexes sys) \<Longrightarrow> \<exists>m'. Write32 m (x + kMutexOwnerOffset) v = Some m' \<and>
       represents sys (S\<lparr>owner := (owner S)(x := v)\<rparr>) m'"
    by (rule store [of "Mutex_Field x kMutexOwnerOffset", unfolded addr.simps]) (use sc represents_reads [OF rep] in \<open>simp_all add: unf put\<close>)
  show "x \<in> set (mutexes sys) \<Longrightarrow> \<exists>m'. Write32 m (x + kMutexCountOffset) v = Some m' \<and>
       represents sys (S\<lparr>lock_count := (lock_count S)(x := v)\<rparr>) m'"
    by (rule store [of "Mutex_Field x kMutexCountOffset", unfolded addr.simps]) (use sc represents_reads [OF rep] in \<open>simp_all add: unf put\<close>)
qed

lemma write_state:
  assumes ok: "system_ok sys" and rep: "represents sys S m" and t: "t \<in> set (threads sys)"
  shows "\<exists>m'. Write16 m (t + kThreadStateOffset) v = Some m' \<and> represents sys (S\<lparr>state := (state S)(t := v)\<rparr>) m'"
proof -
  define m' where "m' = poke16 m (t + kThreadStateOffset) v"
  let ?p = "Thread_Field t kThreadStateOffset"
  have p: "?p \<in> places sys" "?p \<in> set (scalar_places sys)" using t by simp_all
  have apart: "get sys m' p = get sys m p" if "p \<in> places sys" "p \<noteq> ?p" for p
    using that place_eq [OF ok that(1) p(1)] place_eq(2) [OF ok p(1) p(1)] unfolding m'_def get_def by simp
  have "Write16 m (t + kThreadStateOffset) v = Some m'"
    using represents_reads(4) [OF rep t] by (simp add: Write16_def m'_def)
  moreover have "links_ok sys S m'"
    by (rule links_frame [of _ _ m])
      (use ok rep apart scalar_not_link [OF ok p(2)] in \<open>auto simp: represents_def\<close>)
  moreover have "scalars_ok sys (S\<lparr>state := (state S)(t := v)\<rparr>) m'"
  proof -
    have "Read16 m' (u + kThreadStateOffset) = Some (if u = t then v else state S u)" if "u \<in> set (threads sys)" for u
      using that t place_eq [OF ok, of "Thread_Field u kThreadStateOffset" ?p] place_eq(2) [OF ok p(1) p(1)] represents_reads(4) [OF rep that]
      unfolding m'_def by simp
    then show ?thesis
      using rep unfolding represents_def scalars_ok_def thread_fields_ok_def mutex_fields_ok_def by (simp add: apart)
  qed
  ultimately show ?thesis using rep by (simp add: represents_def links_ok_def)
qed

section \<open>Changes to the lists\<close>

lemma same_but_scalars:
  assumes ok: "system_ok sys" and "scalars_ok sys S m" "same_but (map (addr sys) ps) m m'" "set ps \<subseteq> set (link_places sys)"
  shows "scalars_ok sys S m'"
proof (rule scalars_frame [OF assms(2)])
  have sub: "set ps \<subseteq> places sys" using assms(4) by (auto simp: places_def)
  fix p
  assume p: "p \<in> set (scalar_places sys)"
  then show "get sys m' p = get sys m p"
    using scalar_not_link [OF ok p] assms(4) by (intro same_but_get(1) [OF ok assms(3) sub]) auto
next
  have sub: "set ps \<subseteq> places sys" using assms(4) by (auto simp: places_def)
  fix t
  assume t: "t \<in> set (threads sys)"
  then have p: "Thread_Field t kThreadStateOffset \<in> set (scalar_places sys)" by simp
  show "Read16 m' (t + kThreadStateOffset) = Read16 m (t + kThreadStateOffset)"
    using same_but_get(2) [OF ok assms(3) sub scalar_in [OF p]] scalar_not_link [OF ok p] assms(4) by auto
qed

text \<open>Some links are changed: every list is as before, or has become the one it should be.\<close>

lemma represents_change:
  assumes ok: "system_ok sys" and rep: "represents sys S m"
    and same: "same_but (map (addr sys) ps) m m'" and sub: "set ps \<subseteq> set (link_places sys)"
    and lists: "lists_ok (queues sys) (threads sys) f" "lists_ok (threads sys) (mutexes sys) g"
    and f: "\<And>q. q \<in> set (queues sys) \<Longrightarrow> linked m' (thread_queue q) (f q) \<or>
       f q = members S q \<and> set ps \<inter> set (queue_places q (members S q)) = {}"
    and g: "\<And>t. t \<in> set (threads sys) \<Longrightarrow> linked m' (mutex_list t) (g t) \<or>
       g t = held S t \<and> set ps \<inter> set (held_places t (held S t)) = {}"
  shows "represents sys (S\<lparr>members := f, held := g\<rparr>) m'"
proof -
  have sub': "set ps \<subseteq> places sys" using sub by (auto simp: places_def)
  note apart = same_but_get(1) [OF ok same sub']
  have "linked m' (thread_queue q) (f q)" if q: "q \<in> set (queues sys)" for q
    using f [OF q]
  proof (elim disjE conjE)
    assume eq: "f q = members S q" and none: "set ps \<inter> set (queue_places q (members S q)) = {}"
    have s: "set (members S q) \<subseteq> set (threads sys)" using lists(1) q unfolding lists_ok_def eq [symmetric] by blast
    then have z: "0 \<notin> set (members S q)" using ok by (auto simp: system_ok_def)
    have "linked m (thread_queue q) (members S q)" using rep q by (simp add: represents_def links_ok_def)
    then show ?thesis unfolding eq
    proof (rule linked_frame_places [OF _ queue_cells [OF z, of q sys]])
      fix p assume p: "p \<in> set (queue_places q (members S q))"
      then show "get sys m' p = get sys m p" using none queue_places_in [OF q s] by (intro apart) auto
    qed
  qed
  moreover have "linked m' (mutex_list t) (g t)" if t: "t \<in> set (threads sys)" for t
    using g [OF t]
  proof (elim disjE conjE)
    assume eq: "g t = held S t" and none: "set ps \<inter> set (held_places t (held S t)) = {}"
    have s: "set (held S t) \<subseteq> set (mutexes sys)" using lists(2) t unfolding lists_ok_def eq [symmetric] by blast
    then have z: "0 \<notin> set (held S t)" using ok by (auto simp: system_ok_def)
    have "linked m (mutex_list t) (held S t)" using rep t by (simp add: represents_def links_ok_def)
    then show ?thesis unfolding eq
    proof (rule linked_frame_places [OF _ held_cells [OF z, of t sys]])
      fix p assume p: "p \<in> set (held_places t (held S t))"
      then show "get sys m' p = get sys m p" using none held_places_in [OF t s] by (intro apart) auto
    qed
  qed
  moreover have "\<exists>v. get sys m' p = Some v" if p: "p \<in> set (link_places sys)" for p
  proof -
    have "\<exists>v. get sys m p = Some v" using p rep unfolding represents_def links_ok_def by blast
    then show ?thesis using same place_eq(2) [OF ok link_in [OF p] link_in [OF p]] unfolding same_but_def get_def by blast
  qed
  ultimately show ?thesis
    using rep same_but_scalars [OF ok _ same sub, of S] lists
    unfolding represents_def links_ok_def scalars_ok_def thread_fields_ok_def mutex_fields_ok_def by simp
qed

lemma represents_members:
  assumes ok: "system_ok sys" and rep: "represents sys S m" and q: "q \<in> set (queues sys)"
    and new: "linked m' (thread_queue q) ts" "distinct ts" "set ts \<subseteq> set us"
    and same: "same_but (cells (thread_queue q) us) m m'" "set us \<subseteq> set (threads sys)"
    and others: "\<And>r. r \<in> set (queues sys) \<Longrightarrow> r \<noteq> q \<Longrightarrow> set us \<inter> set (members S r) = {}"
  shows "represents sys (S\<lparr>members := (members S)(q := ts)\<rparr>) m'"
proof -
  have "0 \<notin> set us" using ok same(2) by (auto simp: system_ok_def)
  note same' = same(1) [unfolded queue_cells [OF this, of q sys]]
  have lists: "lists_ok (queues sys) (threads sys) (members S)" "lists_ok (threads sys) (mutexes sys) (held S)"
    using rep by (simp_all add: represents_def)
  have "lists_ok (queues sys) (threads sys) ((members S)(q := ts))"
    using lists(1) new(2,3) same(2) others unfolding lists_ok_def by (simp add: disjoint_iff) blast
  note change = represents_change [OF ok rep same' queue_places_in [OF q same(2)] this lists(2)]
  have "represents sys (S\<lparr>members := (members S)(q := ts), held := held S\<rparr>) m'"
  proof (rule change)
    fix r
    assume r: "r \<in> set (queues sys)"
    show "linked m' (thread_queue r) (((members S)(q := ts)) r) \<or> ((members S)(q := ts)) r = members S r \<and>
       set (queue_places q us) \<inter> set (queue_places r (members S r)) = {}"
      using new(1) others [OF r] by (cases "r = q") (auto simp: queue_places_def)
  qed (auto simp: queue_places_def held_places_def)
  then show ?thesis by simp
qed

lemma represents_held:
  assumes ok: "system_ok sys" and rep: "represents sys S m" and t: "t \<in> set (threads sys)"
    and new: "linked m' (mutex_list t) xs" "distinct xs" "set xs \<subseteq> set us"
    and same: "same_but (cells (mutex_list t) us) m m'" "set us \<subseteq> set (mutexes sys)"
    and others: "\<And>u. u \<in> set (threads sys) \<Longrightarrow> u \<noteq> t \<Longrightarrow> set us \<inter> set (held S u) = {}"
  shows "represents sys (S\<lparr>held := (held S)(t := xs)\<rparr>) m'"
proof -
  have "0 \<notin> set us" using ok same(2) by (auto simp: system_ok_def)
  note same' = same(1) [unfolded held_cells [OF this, of t sys]]
  have lists: "lists_ok (queues sys) (threads sys) (members S)" "lists_ok (threads sys) (mutexes sys) (held S)"
    using rep by (simp_all add: represents_def)
  have "lists_ok (threads sys) (mutexes sys) ((held S)(t := xs))"
    using lists(2) new(2,3) same(2) others unfolding lists_ok_def by (simp add: disjoint_iff) blast
  note change = represents_change [OF ok rep same' held_places_in [OF t same(2)] lists(1) this]
  have "represents sys (S\<lparr>members := members S, held := (held S)(t := xs)\<rparr>) m'"
  proof (rule change)
    fix u
    assume u: "u \<in> set (threads sys)"
    show "linked m' (mutex_list u) (((held S)(t := xs)) u) \<or> ((held S)(t := xs)) u = held S u \<and>
       set (held_places t us) \<inter> set (held_places u (held S u)) = {}"
      using new(1) others [OF u] by (cases "u = t") (auto simp: held_places_def)
  qed (auto simp: queue_places_def held_places_def)
  then show ?thesis by simp
qed

lemma represents_elsewhere:
  assumes ok: "system_ok sys" and rep: "represents sys S m" and same: "same_but cs m m'"
    and apart: "\<And>p. p \<in> places sys \<Longrightarrow> addr sys p \<notin> set cs"
  shows "represents sys S m'"
proof -
  have eq: "get sys m' p = get sys m p" "Read16 m' (addr sys p) = Read16 m (addr sys p)" if "p \<in> places sys" for p
    using same apart [OF that] place_eq(2) [OF ok that that] unfolding same_but_def get_def by blast+
  have lists: "lists_ok (queues sys) (threads sys) (members S)" "lists_ok (threads sys) (mutexes sys) (held S)"
    using rep by (simp_all add: represents_def)
  have "links_ok sys S m'"
    by (rule links_frame [OF ok lists, of m]) (use rep eq in \<open>auto simp: represents_def\<close>)
  moreover have "scalars_ok sys S m'"
    by (rule scalars_frame [of _ _ m])
      (use rep eq eq(2) [of "Thread_Field t kThreadStateOffset" for t] in \<open>auto simp: represents_def\<close>)
  ultimately show ?thesis using lists by (simp add: represents_def)
qed

end
