(* ===== verification/Os_Queue.thy ===== *)
theory Os_Queue
  imports Os_System
begin

text \<open>
  The queues threads stand in (src/platform/os/os_thread.cpp, os_scheduler.cpp): the run queues, one for each of
  32 priorities, with a mask of those that are not empty, and the wait queues of everything that blocks. Each
  operation on the memory does what its abstract one does to the lists.
\<close>

definition UpdatePendingMaskForQueue :: "'a os_layout_scheme \<Rightarrow> u32 \<Rightarrow> gmem \<Rightarrow> gmem option" where
  "UpdatePendingMaskForQueue lay q m =
     (if \<not> is_run_queue lay q then Some m
      else do {
        first \<leftarrow> Read32 m q;
        if first \<noteq> 0 then Some m
        else do {
          pending \<leftarrow> Read32 m (run_queue_bits lay);
          Write32 m (run_queue_bits lay) (pending AND NOT (push_bit (unat (31 - (q - run_queue lay) div 8)) 1)) } })"

definition RemoveThreadFromQueue :: "'a os_layout_scheme \<Rightarrow> u32 \<Rightarrow> gmem \<Rightarrow> gmem option" where
  "RemoveThreadFromQueue lay t m = do {
     q \<leftarrow> Read32 m (t + kThreadQueueOffset);
     if q = 0 then Some m
     else do {
       m \<leftarrow> UnlinkGuestListNode t (thread_queue q) m;
       m \<leftarrow> Write32 m (t + kThreadQueueOffset) 0;
       UpdatePendingMaskForQueue lay q m } }"

text \<open>The thread in front of which one of this priority stands, or zero. The search returns nothing on a queue that
  runs in a circle.\<close>

definition find_before :: "gmem \<Rightarrow> u32 \<Rightarrow> u32 \<Rightarrow> u32 option" where
  "find_before m priority first =
     loop (\<lambda>t. if t = 0 then Some (Inl 0)
       else do {
         queued \<leftarrow> Read32 m (t + kThreadPriorityOffset);
         if sint priority < sint queued then Some (Inl t)
         else do { next \<leftarrow> Read32 m (t + kThreadNextOffset); Some (Inr next) } }) first"

definition InsertThreadIntoQueueByPriority :: "'a os_layout_scheme \<Rightarrow> u32 \<Rightarrow> u32 \<Rightarrow> u32 \<Rightarrow> gmem \<Rightarrow> gmem option" where
  "InsertThreadIntoQueueByPriority lay q t priority m = do {
     m \<leftarrow> Write32 m (t + kThreadQueueOffset) q;
     first \<leftarrow> Read32 m q;
     before \<leftarrow> find_before m priority first;
     m \<leftarrow> (if before = 0 then link_last t (thread_queue q) m else link_before t before (thread_queue q) m);
     if is_run_queue lay q then do {
       pending \<leftarrow> Read32 m (run_queue_bits lay);
       Write32 m (run_queue_bits lay) (pending OR push_bit (unat (31 - (q - run_queue lay) div 8)) 1) }
     else Some m }"

definition LinkThreadOnRunQueue :: "'a os_layout_scheme \<Rightarrow> u32 \<Rightarrow> u32 \<Rightarrow> gmem \<Rightarrow> gmem option" where
  "LinkThreadOnRunQueue lay t priority m = do {
     m \<leftarrow> link_last t (thread_queue (run_entry lay priority)) m;
     Write32 m (t + kThreadQueueOffset) (run_entry lay priority) }"

definition MarkRunQueuePending :: "'a os_layout_scheme \<Rightarrow> u32 \<Rightarrow> gmem \<Rightarrow> gmem option" where
  "MarkRunQueuePending lay priority m = do {
     pending \<leftarrow> Read32 m (run_queue_bits lay);
     m \<leftarrow> Write32 m (run_queue_bits lay) (pending OR push_bit (unat (31 - priority)) 1);
     Write32 m (reschedule lay) 1 }"

definition PopThreadQueueHead :: "u32 \<Rightarrow> u32 \<Rightarrow> gmem \<Rightarrow> (u32 \<times> gmem) option" where
  "PopThreadQueueHead q first m = pop_first first (thread_queue q) m"

section \<open>The queues as lists\<close>

lemma run_entry_index:
  assumes "system_ok sys" "k < 32"
  shows "unat (run_entry sys (of_nat k)) = unat (run_queue sys) + 8 * k" "run_entry sys (of_nat k) - run_queue sys = of_nat (8 * k)"
proof -
  have b: "unat (run_queue sys) + 0x100 < 2 ^ 32" using assms(1) by (simp add: system_ok_def)
  have "unat (of_nat k * 8 :: u32) = 8 * k" using assms(2) by (simp add: unat_word_ariths unat_of_nat_u32)
  then show "unat (run_entry sys (of_nat k)) = unat (run_queue sys) + 8 * k"
    using b assms(2) by (simp add: run_entry_def unat_word_ariths)
  show "run_entry sys (of_nat k) - run_queue sys = of_nat (8 * k)" by (simp add: run_entry_def)
qed

lemma is_run_queue_iff:
  assumes "system_ok sys"
  shows "is_run_queue sys q \<longleftrightarrow> (\<exists>k<32. q = run_entry sys (of_nat k))"
proof
  assume q: "is_run_queue sys q"
  have b: "unat (run_queue sys) + 0x100 < 2 ^ 32" using assms(1) by (simp add: system_ok_def)
  have end_at: "unat (run_queue sys + 0x100) = unat (run_queue sys) + 0x100" using b by (simp add: unat_word_ariths)
  have le: "unat (run_queue sys) \<le> unat q" "unat q < unat (run_queue sys) + 0x100"
    using q end_at by (simp_all add: is_run_queue_def kThreadQueueArrayBytes_def word_le_nat_alt word_less_nat_alt)
  have diff: "unat (q - run_queue sys) = unat q - unat (run_queue sys)" using le(1) by (simp add: unat_sub word_le_nat_alt)
  have "unat ((q - run_queue sys) mod 8) = 0" using q by (simp add: is_run_queue_def)
  then have "(unat q - unat (run_queue sys)) mod 8 = 0" by (simp add: unat_mod diff)
  then obtain k where k: "unat q - unat (run_queue sys) = 8 * k" by (metis dvd_def mod_0_imp_dvd)
  then have "k < 32" using le by presburger
  moreover have "unat q = unat (run_entry sys (of_nat k))" using run_entry_index(1) [OF assms \<open>k < 32\<close>] k le(1) by presburger
  ultimately show "\<exists>k<32. q = run_entry sys (of_nat k)" by (metis unsigned_word_eqI)
next
  assume "\<exists>k<32. q = run_entry sys (of_nat k)"
  then obtain k where k: "k < 32" "q = run_entry sys (of_nat k)" by blast
  have b: "unat (run_queue sys) + 0x100 < 2 ^ 32" using assms(1) by (simp add: system_ok_def)
  have "unat (run_queue sys + 0x100) = unat (run_queue sys) + 0x100" using b by (simp add: unat_word_ariths)
  then have "run_queue sys \<le> q" "q < run_queue sys + kThreadQueueArrayBytes"
    using run_entry_index(1) [OF assms k(1)] k by (simp_all add: kThreadQueueArrayBytes_def word_le_nat_alt word_less_nat_alt)
  moreover have "(q - run_queue sys) mod 8 = 0"
  proof -
    have "unat (of_nat (8 * k) :: u32) = 8 * k" using k(1) by (intro unat_of_nat_u32) simp
    then have "unat ((q - run_queue sys) mod 8) = 0"
      unfolding k(2) run_entry_index(2) [OF assms k(1)] by (simp add: unat_mod del: of_nat_mult)
    then show ?thesis by (simp only: unat_eq_0)
  qed
  ultimately show "is_run_queue sys q" by (simp add: is_run_queue_def)
qed

text \<open>The bit of a run queue in the pending mask.\<close>

definition run_bit :: "'a os_layout_scheme \<Rightarrow> u32 \<Rightarrow> u32" where
  "run_bit sys q = push_bit (unat (31 - (q - run_queue sys) div 8)) 1"

lemma run_bit_entry:
  assumes "system_ok sys" "k < 32"
  shows "run_bit sys (run_entry sys (of_nat k)) = push_bit (31 - k) 1"
proof -
  have "unat (of_nat (8 * k) :: u32) = 8 * k" using assms(2) by (intro unat_of_nat_u32) simp
  then have "unat ((of_nat (8 * k) :: u32) div 8) = k" by (simp add: unat_div del: of_nat_mult)
  then have "unat (31 - (of_nat (8 * k) :: u32) div 8) = 31 - k"
    using assms(2) by (subst unat_sub) (simp_all add: word_le_nat_alt del: of_nat_mult)
  then show ?thesis by (simp only: run_bit_def run_entry_index(2) [OF assms])
qed

definition unpend :: "'a os_layout_scheme \<Rightarrow> u32 \<Rightarrow> sched \<Rightarrow> sched" where
  "unpend sys q S = (if is_run_queue sys q \<and> members S q = [] then S\<lparr>pending := pending S AND NOT (run_bit sys q)\<rparr> else S)"

definition remove_thread :: "'a os_layout_scheme \<Rightarrow> u32 \<Rightarrow> sched \<Rightarrow> sched" where
  "remove_thread sys t S = (let q = queued_on S t in
     if q = 0 then S
     else unpend sys q (S\<lparr>members := (members S)(q := remove1 t (members S q)), queued_on := (queued_on S)(t := 0)\<rparr>))"

definition insert_by :: "(u32 \<Rightarrow> u32) \<Rightarrow> u32 \<Rightarrow> u32 \<Rightarrow> u32 list \<Rightarrow> u32 list" where
  "insert_by f p t ts = takeWhile (\<lambda>x. sint (f x) \<le> sint p) ts @ t # dropWhile (\<lambda>x. sint (f x) \<le> sint p) ts"

definition insert_thread :: "'a os_layout_scheme \<Rightarrow> u32 \<Rightarrow> u32 \<Rightarrow> u32 \<Rightarrow> sched \<Rightarrow> sched" where
  "insert_thread sys q t p S = S\<lparr>queued_on := (queued_on S)(t := q), members := (members S)(q := insert_by (prio S) p t (members S q)),
     pending := (if is_run_queue sys q then pending S OR run_bit sys q else pending S)\<rparr>"

text \<open>Where a thread may be taken out: it is where its field says it is, or nowhere.\<close>

definition well_placed :: "os_system \<Rightarrow> u32 \<Rightarrow> sched \<Rightarrow> bool" where
  "well_placed sys t S \<longleftrightarrow> queued_on S t = 0 \<or> queued_on S t \<in> set (queues sys) \<and> t \<in> set (members S (queued_on S t))"

definition unqueued :: "os_system \<Rightarrow> u32 \<Rightarrow> sched \<Rightarrow> bool" where
  "unqueued sys t S \<longleftrightarrow> (\<forall>q \<in> set (queues sys). t \<notin> set (members S q))"

lemma represents_lists:
  assumes "represents sys S m" "q \<in> set (queues sys)"
  shows "linked m (thread_queue q) (members S q)" "distinct (members S q)" "set (members S q) \<subseteq> set (threads sys)"
    "r \<in> set (queues sys) \<Longrightarrow> r \<noteq> q \<Longrightarrow> set (members S q) \<inter> set (members S r) = {}"
proof -
  have ok: "links_ok sys S m" "lists_ok (queues sys) (threads sys) (members S)" using assms(1) by (simp_all add: represents_def)
  show "linked m (thread_queue q) (members S q)" using ok(1) assms(2) by (simp add: links_ok_def)
  show "distinct (members S q)" "set (members S q) \<subseteq> set (threads sys)" using ok(2) assms(2) by (simp_all add: lists_ok_def)
  show "r \<in> set (queues sys) \<Longrightarrow> r \<noteq> q \<Longrightarrow> set (members S q) \<inter> set (members S r) = {}"
    using ok(2) assms(2) by (auto simp: lists_ok_def)
qed

lemma queue_head:
  assumes "represents sys S m" "q \<in> set (queues sys)"
  shows "Read32 m q = Some (hd (members S q @ [0]))"
  using linked_ends(1) [OF represents_lists(1) [OF assms]] by (simp add: thread_queue_def)

lemma queue_head_zero:
  assumes "system_ok sys" "represents sys S m" "q \<in> set (queues sys)"
  shows "hd (members S q @ [0]) = 0 \<longleftrightarrow> members S q = []"
proof (cases "members S q")
  case (Cons t ts)
  then have "t \<in> set (threads sys)" using represents_lists(3) [OF assms(2,3)] by simp
  then have "t \<noteq> 0" using assms(1) by (auto simp: system_ok_def)
  then show ?thesis using Cons by simp
qed simp

lemma UpdatePendingMask_refines:
  assumes "system_ok sys" "represents sys S m" "q \<in> set (queues sys)"
  shows "\<exists>m'. UpdatePendingMaskForQueue sys q m = Some m' \<and> represents sys (unpend sys q S) m'"
  using represents_writes(1) [OF assms(1,2), of "pending S AND NOT (run_bit sys q)"] assms(2) queue_head_zero [OF assms]
  unfolding UpdatePendingMaskForQueue_def unpend_def run_bit_def
  by (auto simp: queue_head [OF assms(2,3)] represents_reads [OF assms(2)])

text \<open>A thread is taken out of its queue, and nothing else changes.\<close>

lemma RemoveThread_refines:
  assumes ok: "system_ok sys" and rep: "represents sys S m" and t: "t \<in> set (threads sys)" and placed: "well_placed sys t S"
  shows "\<exists>m'. RemoveThreadFromQueue sys t m = Some m' \<and> represents sys (remove_thread sys t S) m'"
proof (cases "queued_on S t = 0")
  case True
  then show ?thesis using rep by (simp add: RemoveThreadFromQueue_def remove_thread_def represents_reads [OF rep] t Let_def)
next
  case False
  define q where "q = queued_on S t"
  have q: "q \<in> set (queues sys)" "t \<in> set (members S q)" using placed False by (simp_all add: well_placed_def q_def)
  note lists = represents_lists [OF rep q(1)]
  obtain xs ys where ts: "members S q = xs @ t # ys" using split_list [OF q(2)] by blast
  have rest: "remove1 t (members S q) = xs @ ys" using lists(2) ts by (simp add: remove1_append)
  have "list_ok (thread_queue q) (xs @ t # ys)" using queue_list_ok [OF ok q(1) lists(2,3)] ts by simp
  from unlink_linked [OF lists(1) [unfolded ts] this] obtain m1 where
    m1: "UnlinkGuestListNode t (thread_queue q) m = Some m1" "linked m1 (thread_queue q) (xs @ ys)"
      "same_but (cells (thread_queue q) (members S q)) m m1"
    unfolding ts by blast
  have rep1: "represents sys (S\<lparr>members := (members S)(q := xs @ ys)\<rparr>) m1"
    by (rule represents_members [OF ok rep q(1) m1(2) _ _ m1(3)]) (use lists ts in auto)
  from represents_writes(6) [OF ok this t, of 0] obtain m2 where
    m2: "Write32 m1 (t + kThreadQueueOffset) 0 = Some m2"
      "represents sys (S\<lparr>members := (members S)(q := xs @ ys), queued_on := (queued_on S)(t := 0)\<rparr>) m2" by auto
  from UpdatePendingMask_refines [OF ok m2(2) q(1)] show ?thesis
    using False m1(1) m2(1) rest unfolding RemoveThreadFromQueue_def remove_thread_def Let_def
    by (simp add: represents_reads [OF rep] t flip: q_def)
qed

section \<open>A thread put in by its priority\<close>

lemma set_insert_by [simp]: "set (insert_by f p t ts) = insert t (set ts)"
  unfolding insert_by_def by (metis Un_insert_right list.simps(15) set_append takeWhile_dropWhile_id)

lemma distinct_insert_by [simp]: "distinct (insert_by f p t ts) \<longleftrightarrow> distinct ts \<and> t \<notin> set ts"
proof -
  obtain xs ys where "takeWhile (\<lambda>x. sint (f x) \<le> sint p) ts = xs" "dropWhile (\<lambda>x. sint (f x) \<le> sint p) ts = ys" "ts = xs @ ys"
    by (metis takeWhile_dropWhile_id)
  then show ?thesis unfolding insert_by_def by auto
qed

text \<open>The search finds the first thread of a lower priority.\<close>

lemma find_before_finds:
  assumes ok: "system_ok sys" and rep: "represents sys S m" and q: "q \<in> set (queues sys)" and ts: "members S q = xs @ ys"
  shows "find_before m p (hd (ys @ [0])) = Some (hd (dropWhile (\<lambda>x. sint (prio S x) \<le> sint p) ys @ [0]))"
  using ts
proof (induction ys arbitrary: xs)
  case (Cons t ys)
  note lists = represents_lists [OF rep q]
  have t: "t \<in> set (threads sys)" "t \<noteq> 0" using lists(3) Cons.prems ok by (auto simp: system_ok_def)
  have "list_ok (thread_queue q) (members S q)" by (rule queue_list_ok [OF ok q lists(2,3)])
  then have "Read32 m (next_slot (thread_queue q) t) = Some (hd (ys @ [0]))"
    using linked_around(1) [of m "thread_queue q" xs t ys] lists(1) Cons.prems by simp
  then have next_t: "Read32 m (t + kThreadNextOffset) = Some (hd (ys @ [0]))" using t(2) by (simp add: next_slot_def thread_queue_def)
  have "find_before m p (hd (ys @ [0])) = Some (hd (dropWhile (\<lambda>x. sint (prio S x) \<le> sint p) ys @ [0]))"
    using Cons.IH [of "xs @ [t]"] Cons.prems by simp
  then show ?case using t
    by (cases "sint p < sint (prio S t)") (simp_all add: find_before_def loop_Inl loop_Inr represents_reads [OF rep] next_t)
qed (simp add: find_before_def loop_Inl)

text \<open>A linked thread's own cells are there.\<close>

lemma own_links:
  assumes "represents sys S m" "t \<in> set (threads sys)"
  shows "\<exists>v. Read32 m (t + kThreadNextOffset) = Some v" "\<exists>v. Read32 m (t + kThreadPrevOffset) = Some v"
proof -
  have "Thread_Field t kThreadNextOffset \<in> set (link_places sys)" "Thread_Field t kThreadPrevOffset \<in> set (link_places sys)"
    using assms(2) by (auto simp: link_places_def)
  then have "\<exists>v. get sys m (Thread_Field t kThreadNextOffset) = Some v" "\<exists>v. get sys m (Thread_Field t kThreadPrevOffset) = Some v"
    using assms(1) unfolding represents_def links_ok_def by blast+
  then show "\<exists>v. Read32 m (t + kThreadNextOffset) = Some v" "\<exists>v. Read32 m (t + kThreadPrevOffset) = Some v"
    by (simp_all add: get_def)
qed

lemma link_at_end:
  assumes ok: "system_ok sys" and rep: "represents sys S m" and q: "q \<in> set (queues sys)" and t: "t \<in> set (threads sys)" "unqueued sys t S"
  shows "\<exists>m'. link_last t (thread_queue q) m = Some m' \<and> represents sys (S\<lparr>members := (members S)(q := members S q @ [t])\<rparr>) m'"
proof -
  note lists = represents_lists [OF rep q]
  define ts where "ts = members S q @ [t]"
  have new: "distinct ts" "set ts \<subseteq> set (threads sys)" using lists t q by (auto simp: ts_def unqueued_def)
  obtain vn vp where v: "Read32 m (t + kThreadNextOffset) = Some vn" "Read32 m (t + kThreadPrevOffset) = Some vp"
    using own_links [OF rep t(1)] by blast
  have "list_ok (thread_queue q) (members S q @ [t])" using queue_list_ok [OF ok q new] by (simp add: ts_def)
  from link_last_linked [OF lists(1) this, of vn vp] v obtain m' where
    m': "link_last t (thread_queue q) m = Some m'" "linked m' (thread_queue q) ts" "same_but (cells (thread_queue q) ts) m m'"
    by (auto simp: thread_queue_def ts_def)
  have "represents sys (S\<lparr>members := (members S)(q := ts)\<rparr>) m'"
    by (rule represents_members [OF ok rep q m'(2) new(1) _ m'(3) new(2)]) (use lists(4) t in \<open>auto simp: ts_def unqueued_def\<close>)
  then show ?thesis using m'(1) by (auto simp: ts_def)
qed

lemma link_in_front:
  assumes ok: "system_ok sys" and rep: "represents sys S m" and q: "q \<in> set (queues sys)" and t: "t \<in> set (threads sys)" "unqueued sys t S"
    and at: "members S q = xs @ b # ys"
  shows "\<exists>m'. link_before t b (thread_queue q) m = Some m' \<and> represents sys (S\<lparr>members := (members S)(q := xs @ t # b # ys)\<rparr>) m'"
proof -
  note lists = represents_lists [OF rep q]
  define ts where "ts = xs @ t # b # ys"
  have "t \<notin> set (members S q)" using t q by (auto simp: unqueued_def)
  then have new: "distinct ts" "set ts \<subseteq> set (threads sys)" using lists(2,3) t at by (auto simp: ts_def)
  obtain vn vp where v: "Read32 m (t + kThreadNextOffset) = Some vn" "Read32 m (t + kThreadPrevOffset) = Some vp"
    using own_links [OF rep t(1)] by blast
  have "list_ok (thread_queue q) (xs @ t # b # ys)" using queue_list_ok [OF ok q new] by (simp add: ts_def)
  from link_before_linked [OF lists(1) [unfolded at] this, of vn vp] v obtain m' where
    m': "link_before t b (thread_queue q) m = Some m'" "linked m' (thread_queue q) ts" "same_but (cells (thread_queue q) ts) m m'"
    by (auto simp: thread_queue_def ts_def)
  have "represents sys (S\<lparr>members := (members S)(q := ts)\<rparr>) m'"
  proof (rule represents_members [OF ok rep q m'(2) new(1) _ m'(3) new(2)])
    fix r
    assume r: "r \<in> set (queues sys)" "r \<noteq> q"
    have "set ts = insert t (set (members S q))" by (auto simp: ts_def at)
    then show "set ts \<inter> set (members S r) = {}" using lists(4) [OF r] t r by (auto simp: unqueued_def)
  qed simp
  then show ?thesis using m'(1) by (auto simp: ts_def)
qed

text \<open>A thread is put behind those of its priority, and the queue is marked when it is a run queue.\<close>

lemma InsertThread_refines:
  assumes ok: "system_ok sys" and rep: "represents sys S m" and q: "q \<in> set (queues sys)" and t: "t \<in> set (threads sys)" "unqueued sys t S"
  shows "\<exists>m'. InsertThreadIntoQueueByPriority sys q t p m = Some m' \<and> represents sys (insert_thread sys q t p S) m'"
proof -
  let ?P = "\<lambda>x. sint (prio S x) \<le> sint p"
  define S1 where "S1 = S\<lparr>queued_on := (queued_on S)(t := q)\<rparr>"
  define S2 where "S2 = S1\<lparr>members := (members S)(q := insert_by (prio S) p t (members S q))\<rparr>"
  from represents_writes(6) [OF ok rep t(1), of q] obtain m1 where
    m1: "Write32 m (t + kThreadQueueOffset) q = Some m1" "represents sys S1 m1" by (auto simp: S1_def)
  have head: "Read32 m1 q = Some (hd (members S q @ [0]))" using queue_head [OF m1(2) q] by (simp add: S1_def)
  have before: "find_before m1 p (hd (members S q @ [0])) = Some (hd (dropWhile ?P (members S q) @ [0]))"
    using find_before_finds [OF ok m1(2) q, of "[]"] by (simp add: S1_def)
  have t': "unqueued sys t S1" using t by (simp add: unqueued_def S1_def)
  obtain m2 where m2: "represents sys S2 m2"
    "(if hd (dropWhile ?P (members S q) @ [0]) = 0 then link_last t (thread_queue q) m1
      else link_before t (hd (dropWhile ?P (members S q) @ [0])) (thread_queue q) m1) = Some m2"
  proof (cases "dropWhile ?P (members S q)")
    case Nil
    then have "takeWhile ?P (members S q) = members S q" by (metis append_Nil2 takeWhile_dropWhile_id)
    then have "insert_by (prio S) p t (members S q) = members S q @ [t]" using Nil by (simp add: insert_by_def)
    with link_at_end [OF ok m1(2) q t(1) t'] obtain m2 where "link_last t (thread_queue q) m1 = Some m2" "represents sys S2 m2"
      by (auto simp: S2_def S1_def)
    then show ?thesis by (intro that [of m2]) (simp_all only: Nil append_Nil list.sel if_True simp_thms)
  next
    case (Cons b ys)
    then have at: "members S q = takeWhile ?P (members S q) @ b # ys" by (metis takeWhile_dropWhile_id)
    have "b \<in> set (threads sys)" using represents_lists(3) [OF rep q] at by (metis in_set_conv_decomp subsetD)
    then have "b \<noteq> 0" using ok by (auto simp: system_ok_def)
    from link_in_front [OF ok m1(2) q t(1) t', of "takeWhile ?P (members S q)" b ys] at Cons obtain m2 where
      "link_before t b (thread_queue q) m1 = Some m2" "represents sys S2 m2"
      by (auto simp: S2_def S1_def insert_by_def)
    then show ?thesis using \<open>b \<noteq> 0\<close> by (intro that [of m2]) (simp_all only: Cons append_Cons list.sel if_False)
  qed
  show ?thesis
  proof (cases "is_run_queue sys q")
    case True
    from represents_writes(1) [OF ok m2(1), of "pending S OR run_bit sys q"] show ?thesis
      using True m2(2)
      unfolding InsertThreadIntoQueueByPriority_def m1(1) head before bind.bind_lunit represents_reads [OF m2(1)]
      by (auto simp: insert_thread_def S2_def S1_def run_bit_def represents_reads [OF m2(1)])
  next
    case False
    then show ?thesis using m2
      unfolding InsertThreadIntoQueueByPriority_def m1(1) head before bind.bind_lunit
      by (simp add: insert_thread_def S2_def S1_def)
  qed
qed

section \<open>A thread taken from the front, and put on a run queue\<close>

lemma PopThread_refines:
  assumes ok: "system_ok sys" and rep: "represents sys S m" and q: "q \<in> set (queues sys)" and at: "members S q = t # ts"
  shows "\<exists>m'. PopThreadQueueHead q t m = Some (hd (ts @ [0]), m') \<and> represents sys (S\<lparr>members := (members S)(q := ts)\<rparr>) m'"
proof -
  note lists = represents_lists [OF rep q]
  have "list_ok (thread_queue q) (t # ts)" using queue_list_ok [OF ok q lists(2,3)] at by simp
  from pop_linked [OF lists(1) [unfolded at] this] obtain m' where
    m': "PopThreadQueueHead q t m = Some (hd (ts @ [0]), m')" "linked m' (thread_queue q) ts"
      "same_but (cells (thread_queue q) (members S q)) m m'"
    unfolding PopThreadQueueHead_def at by blast
  have "represents sys (S\<lparr>members := (members S)(q := ts)\<rparr>) m'"
    by (rule represents_members [OF ok rep q m'(2) _ _ m'(3)]) (use lists at in auto)
  then show ?thesis using m'(1) by blast
qed

definition link_run :: "'a os_layout_scheme \<Rightarrow> u32 \<Rightarrow> u32 \<Rightarrow> sched \<Rightarrow> sched" where
  "link_run sys t p S = S\<lparr>members := (members S)(run_entry sys p := members S (run_entry sys p) @ [t]),
     queued_on := (queued_on S)(t := run_entry sys p)\<rparr>"

definition mark_run :: "u32 \<Rightarrow> sched \<Rightarrow> sched" where
  "mark_run p S = S\<lparr>pending := pending S OR push_bit (unat (31 - p)) 1, resched := 1\<rparr>"

lemma run_entry_queue: "system_ok sys \<Longrightarrow> k < 32 \<Longrightarrow> run_entry sys (of_nat k) \<in> set (queues sys)"
  by (simp add: system_ok_def list_all_iff)

lemma LinkThreadOnRunQueue_refines:
  assumes ok: "system_ok sys" and rep: "represents sys S m" and k: "k < 32" and t: "t \<in> set (threads sys)" "unqueued sys t S"
  shows "\<exists>m'. LinkThreadOnRunQueue sys t (of_nat k) m = Some m' \<and> represents sys (link_run sys t (of_nat k) S) m'"
proof -
  let ?q = "run_entry sys (of_nat k)"
  from link_at_end [OF ok rep run_entry_queue [OF ok k] t] obtain m1 where
    m1: "link_last t (thread_queue ?q) m = Some m1" "represents sys (S\<lparr>members := (members S)(?q := members S ?q @ [t])\<rparr>) m1" by blast
  from represents_writes(6) [OF ok m1(2) t(1), of ?q] show ?thesis
    using m1(1) by (auto simp: LinkThreadOnRunQueue_def link_run_def)
qed

lemma MarkRunQueuePending_refines:
  assumes ok: "system_ok sys" and rep: "represents sys S m"
  shows "\<exists>m'. MarkRunQueuePending sys p m = Some m' \<and> represents sys (mark_run p S) m'"
proof -
  from represents_writes(1) [OF ok rep, of "pending S OR push_bit (unat (31 - p)) 1"] obtain m1 where
    m1: "Write32 m (run_queue_bits sys) (pending S OR push_bit (unat (31 - p)) 1) = Some m1"
      "represents sys (S\<lparr>pending := pending S OR push_bit (unat (31 - p)) 1\<rparr>) m1" by blast
  from represents_writes(2) [OF ok m1(2), of 1] show ?thesis
    using m1(1) by (auto simp: MarkRunQueuePending_def mark_run_def represents_reads [OF rep])
qed

text \<open>A thread in no queue has its links for itself.\<close>

lemma write_own_link:
  assumes ok: "system_ok sys" and rep: "represents sys S m" and t: "t \<in> set (threads sys)" "unqueued sys t S"
    and k: "k \<in> {kThreadNextOffset, kThreadPrevOffset}"
  shows "\<exists>m'. Write32 m (t + k) v = Some m' \<and> represents sys S m'"
proof -
  define p where "p = Thread_Field t k"
  have p: "p \<in> set (link_places sys)" "p \<in> places sys" using t(1) k by (auto simp: p_def link_places_def)
  have at: "addr sys p = t + k" by (simp add: p_def)
  have "\<exists>v. Read32 m (t + k) = Some v" using own_links [OF rep t(1)] k by auto
  then have W: "Write32 m (t + k) v = Some (put sys m p v)" by (auto simp: Write32_def put_def at)
  have same: "same_but (map (addr sys) [p]) m (put sys m p v)"
    unfolding put_def using place_eq(2) [OF ok p(2) p(2)] by (intro same_but_poke) simp_all
  have lists: "lists_ok (queues sys) (threads sys) (members S)" "lists_ok (threads sys) (mutexes sys) (held S)"
    using rep by (simp_all add: represents_def)
  have "represents sys (S\<lparr>members := members S, held := held S\<rparr>) (put sys m p v)"
    by (rule represents_change [OF ok rep same _ lists])
      (use p(1) t(2) k in \<open>auto simp: queue_places_def held_places_def p_def unqueued_def\<close>)
  then show ?thesis using W by auto
qed

end
