(* ===== verification/Os_Invariant.thy ===== *)
theory Os_Invariant
  imports Os_Queue
begin

text \<open>
  What holds of the scheduler between two system calls: a thread stands in the queue its field names; the threads on
  a run queue are those that are ready, not suspended and of its priority, and no others; a waiting thread stands in
  a wait queue; the pending mask has the bits of the run queues that are not empty; every queue is in the order of
  the priorities. A thread whose host context is gone is in \<open>gone\<close>; the threads of \<open>X\<close> are on their way from one
  queue to another.
\<close>

definition place_ok :: "os_system \<Rightarrow> sched \<Rightarrow> u32 \<Rightarrow> u32 \<Rightarrow> bool" where
  "place_ok sys S q t \<longleftrightarrow> queued_on S t = q \<and>
     (if is_run_queue sys q
      then state S t = kThreadStateReady \<and> sint (suspended S t) < 1 \<and> prio S t < 32 \<and> q = run_entry sys (prio S t)
      else state S t = kThreadStateWaiting)"

definition thread_ok :: "os_system \<Rightarrow> u32 set \<Rightarrow> sched \<Rightarrow> u32 \<Rightarrow> bool" where
  "thread_ok sys gone S t \<longleftrightarrow>
     (state S t = kThreadStateReady \<and> sint (suspended S t) < 1 \<and> t \<notin> gone \<longrightarrow>
        prio S t < 32 \<and> t \<in> set (members S (run_entry sys (prio S t)))) \<and>
     (state S t = kThreadStateWaiting \<and> queued_on S t \<noteq> 0 \<longrightarrow>
        queued_on S t \<in> set (queues sys) \<and> \<not> is_run_queue sys (queued_on S t) \<and> t \<in> set (members S (queued_on S t)))"

definition mask_ok :: "os_system \<Rightarrow> sched \<Rightarrow> bool" where
  "mask_ok sys S \<longleftrightarrow> (\<forall>k<32. bit (pending S) (31 - k) \<longleftrightarrow> members S (run_entry sys (of_nat k)) \<noteq> [])"

definition in_order :: "(u32 \<Rightarrow> u32) \<Rightarrow> u32 list \<Rightarrow> bool" where
  "in_order f ts \<longleftrightarrow> sorted_wrt (\<lambda>x y. sint (f x) \<le> sint (f y)) ts"

definition consistent_but :: "os_system \<Rightarrow> u32 set \<Rightarrow> u32 set \<Rightarrow> sched \<Rightarrow> bool" where
  "consistent_but sys gone X S \<longleftrightarrow> (\<forall>q \<in> set (queues sys). \<forall>t \<in> set (members S q). place_ok sys S q t) \<and>
     (\<forall>t \<in> set (threads sys). t \<notin> X \<longrightarrow> thread_ok sys gone S t) \<and> (\<forall>t \<in> X. unqueued sys t S) \<and>
     mask_ok sys S \<and> (\<forall>q \<in> set (queues sys). in_order (prio S) (members S q))"

abbreviation consistent :: "os_system \<Rightarrow> u32 set \<Rightarrow> sched \<Rightarrow> bool" where
  "consistent sys gone S \<equiv> consistent_but sys gone {} S"

section \<open>The mask\<close>

lemma run_entry_inj: "system_ok sys \<Longrightarrow> j < 32 \<Longrightarrow> k < 32 \<Longrightarrow> run_entry sys (of_nat j) = run_entry sys (of_nat k) \<longleftrightarrow> j = k"
  by (metis add_left_cancel mult_cancel1 run_entry_index(1) zero_neq_numeral)

lemma run_entry_prio: "system_ok sys \<Longrightarrow> p < 32 \<Longrightarrow> run_entry sys p \<in> set (queues sys)"
  "system_ok sys \<Longrightarrow> p < 32 \<Longrightarrow> is_run_queue sys (run_entry sys p)"
proof -
  assume ok: "system_ok sys" and "p < 32"
  then have k: "unat p < 32" by (simp add: word_less_nat_alt)
  show "run_entry sys p \<in> set (queues sys)" using run_entry_queue [OF ok k] by simp
  show "is_run_queue sys (run_entry sys p)" unfolding is_run_queue_iff [OF ok] using k by (intro exI [of _ "unat p"]) simp
qed

lemma mask_insert:
  assumes ok: "system_ok sys" and mask: "mask_ok sys S" and q: "is_run_queue sys q" and ts: "ts \<noteq> []"
  shows "mask_ok sys (S\<lparr>members := (members S)(q := ts), pending := pending S OR run_bit sys q\<rparr>)"
proof -
  obtain k where k: "k < 32" "q = run_entry sys (of_nat k)" using q is_run_queue_iff [OF ok] by blast
  show ?thesis
    unfolding mask_ok_def
  proof (intro allI impI)
    fix j :: nat
    assume j: "j < 32"
    then have "31 - j = 31 - k \<longleftrightarrow> j = k" using k(1) by presburger
    then show "bit (pending (S\<lparr>members := (members S)(q := ts), pending := pending S OR run_bit sys q\<rparr>)) (31 - j) \<longleftrightarrow>
       members (S\<lparr>members := (members S)(q := ts), pending := pending S OR run_bit sys q\<rparr>) (run_entry sys (of_nat j)) \<noteq> []"
      using mask j ts k run_entry_inj [OF ok j k(1)] unfolding mask_ok_def k(2) run_bit_entry [OF ok k(1)]
      by (auto simp: bit_simps)
  qed
qed

lemma mask_remove:
  assumes ok: "system_ok sys" and mask: "mask_ok sys S"
  shows "mask_ok sys (unpend sys q (S\<lparr>members := (members S)(q := ts)\<rparr>)) \<or> is_run_queue sys q \<and> members S q = [] \<and> ts \<noteq> []"
proof (cases "is_run_queue sys q")
  case True
  then obtain k where k: "k < 32" "q = run_entry sys (of_nat k)" using is_run_queue_iff [OF ok] by blast
  have "mask_ok sys (unpend sys q (S\<lparr>members := (members S)(q := ts)\<rparr>))" if "members S q \<noteq> [] \<or> ts = []"
    unfolding mask_ok_def
  proof (intro allI impI)
    fix j :: nat
    assume j: "j < 32"
    then have "31 - j = 31 - k \<longleftrightarrow> j = k" using k(1) by presburger
    then show "bit (pending (unpend sys q (S\<lparr>members := (members S)(q := ts)\<rparr>))) (31 - j) \<longleftrightarrow>
       members (unpend sys q (S\<lparr>members := (members S)(q := ts)\<rparr>)) (run_entry sys (of_nat j)) \<noteq> []"
      using mask j k True that run_entry_inj [OF ok j k(1)] unfolding mask_ok_def unpend_def k(2) run_bit_entry [OF ok k(1)]
      by (auto simp: bit_simps)
  qed
  then show ?thesis using True by blast
next
  case False
  then have "run_entry sys (of_nat j) \<noteq> q" if "j < 32" for j using that is_run_queue_iff [OF ok] by blast
  then show ?thesis using mask False by (simp add: mask_ok_def unpend_def)
qed

section \<open>The order\<close>

lemma in_order_remove1: "in_order f ts \<Longrightarrow> in_order f (remove1 t ts)"
  by (induction ts) (auto simp: in_order_def dest: notin_set_remove1 in_set_remove1 [THEN iffD1, rotated] set_remove1_subset [THEN subsetD])

lemma in_order_cong: "(\<And>t. t \<in> set ts \<Longrightarrow> g t = f t) \<Longrightarrow> in_order g ts = in_order f ts"
  unfolding in_order_def by (induction ts) auto

lemma in_order_insert_by:
  assumes "in_order f ts" "f t = p"
  shows "in_order f (insert_by f p t ts)"
  using assms
proof (induction ts)
  case (Cons x xs)
  have "in_order f (x # ys) \<longleftrightarrow> (\<forall>y \<in> set ys. sint (f x) \<le> sint (f y)) \<and> in_order f ys" for x ys by (simp add: in_order_def)
  note step = this
  have ih: "in_order f (insert_by f p t xs)" "\<forall>y \<in> set xs. sint (f x) \<le> sint (f y)" using Cons by (simp_all add: step)
  show ?case
  proof (cases "sint (f x) \<le> sint p")
    case True
    then have "insert_by f p t (x # xs) = x # insert_by f p t xs" by (simp add: insert_by_def)
    then show ?thesis using ih True Cons.prems(2) by (simp add: step)
  next
    case False
    then have "insert_by f p t (x # xs) = t # x # xs" by (simp add: insert_by_def)
    then show ?thesis using ih(2) Cons.prems False by (auto simp: step)
  qed
qed (simp add: in_order_def insert_by_def)

lemma insert_by_last: "(\<And>x. x \<in> set ts \<Longrightarrow> f x = p) \<Longrightarrow> insert_by f p t ts = ts @ [t]"
proof -
  assume "\<And>x. x \<in> set ts \<Longrightarrow> f x = p"
  then have "takeWhile (\<lambda>x. sint (f x) \<le> sint p) ts = ts" by (simp add: takeWhile_eq_all_conv)
  moreover from this have "dropWhile (\<lambda>x. sint (f x) \<le> sint p) ts = []" by (metis append_self_conv takeWhile_dropWhile_id)
  ultimately show ?thesis by (simp add: insert_by_def)
qed

section \<open>A thread on its way\<close>

lemma queue_not_zero: "system_ok sys \<Longrightarrow> q \<in> set (queues sys) \<Longrightarrow> q \<noteq> 0"
  by (auto simp: system_ok_def)

lemma consistent_parts:
  assumes "consistent_but sys gone X S"
  shows "q \<in> set (queues sys) \<Longrightarrow> t \<in> set (members S q) \<Longrightarrow> place_ok sys S q t"
    "t \<in> set (threads sys) \<Longrightarrow> t \<notin> X \<Longrightarrow> thread_ok sys gone S t" "t \<in> X \<Longrightarrow> unqueued sys t S"
    "mask_ok sys S" "q \<in> set (queues sys) \<Longrightarrow> in_order (prio S) (members S q)"
  using assms by (simp_all add: consistent_but_def)

lemma remove_thread_fields [simp]:
  "state (remove_thread sys t S) = state S" "suspended (remove_thread sys t S) = suspended S" "prio (remove_thread sys t S) = prio S"
  "blocked_on (remove_thread sys t S) = blocked_on S" "held (remove_thread sys t S) = held S" "owner (remove_thread sys t S) = owner S"
  "base_prio (remove_thread sys t S) = base_prio S" "resched (remove_thread sys t S) = resched S"
  "lock_count (remove_thread sys t S) = lock_count S" "running (remove_thread sys t S) = running S"
  by (simp_all add: remove_thread_def unpend_def Let_def)

lemma insert_thread_fields [simp]:
  "state (insert_thread sys q t p S) = state S" "suspended (insert_thread sys q t p S) = suspended S" "prio (insert_thread sys q t p S) = prio S"
  "blocked_on (insert_thread sys q t p S) = blocked_on S" "held (insert_thread sys q t p S) = held S" "owner (insert_thread sys q t p S) = owner S"
  "base_prio (insert_thread sys q t p S) = base_prio S" "resched (insert_thread sys q t p S) = resched S"
  "lock_count (insert_thread sys q t p S) = lock_count S" "running (insert_thread sys q t p S) = running S"
  "queued_on (insert_thread sys q t p S) = (queued_on S)(t := q)"
  "members (insert_thread sys q t p S) = (members S)(q := insert_by (prio S) p t (members S q))"
  by (simp_all add: insert_thread_def)

text \<open>Where a thread may be.\<close>

lemma consistent_well_placed:
  assumes ok: "system_ok sys" and S: "consistent_but sys gone X S" and t: "t \<in> set (threads sys)" "t \<notin> X"
    and st: "state S t = kThreadStateWaiting \<or> state S t = kThreadStateReady \<and> sint (suspended S t) < 1 \<and> t \<notin> gone"
  shows "well_placed sys t S"
proof -
  note th = consistent_parts(2) [OF S t]
  from st show ?thesis
  proof (elim disjE conjE)
    assume "state S t = kThreadStateReady" "sint (suspended S t) < 1" "t \<notin> gone"
    then have p: "prio S t < 32" "t \<in> set (members S (run_entry sys (prio S t)))" using th by (simp_all add: thread_ok_def)
    have q: "run_entry sys (prio S t) \<in> set (queues sys)" by (rule run_entry_prio(1) [OF ok p(1)])
    then have "queued_on S t = run_entry sys (prio S t)" using consistent_parts(1) [OF S q p(2)] by (simp add: place_ok_def)
    then show ?thesis using q p(2) by (simp add: well_placed_def)
  qed (use th in \<open>auto simp: thread_ok_def well_placed_def\<close>)
qed

lemma consistent_unqueued:
  assumes S: "consistent_but sys gone X S" and none: "queued_on S t \<notin> set (queues sys)"
  shows "unqueued sys t S"
  unfolding unqueued_def
proof (intro ballI notI)
  fix q
  assume "q \<in> set (queues sys)" "t \<in> set (members S q)"
  then show False using consistent_parts(1) [OF S] none by (auto simp: place_ok_def)
qed

lemma remove_consistent:
  assumes ok: "system_ok sys" and lists: "lists_ok (queues sys) (threads sys) (members S)"
    and S: "consistent_but sys gone X S" and t: "t \<in> set (threads sys)" "well_placed sys t S"
  shows "consistent_but sys gone (insert t X) (remove_thread sys t S)"
proof (cases "queued_on S t = 0")
  case True
  have "unqueued sys t S" using consistent_unqueued [OF S] True queue_not_zero [OF ok] by metis
  then show ?thesis using True S by (simp add: remove_thread_def Let_def consistent_but_def)
next
  case False
  define q where "q = queued_on S t"
  have q: "q \<in> set (queues sys)" "t \<in> set (members S q)" using t(2) False by (simp_all add: well_placed_def q_def)
  define S1 where "S1 = S\<lparr>members := (members S)(q := remove1 t (members S q))\<rparr>"
  define S2 where "S2 = S1\<lparr>queued_on := (queued_on S)(t := 0)\<rparr>"
  have S': "remove_thread sys t S = unpend sys q S2" using False by (simp add: remove_thread_def Let_def q_def S2_def S1_def)
  have un: "members (unpend sys q S2) = members S1" "queued_on (unpend sys q S2) = (queued_on S)(t := 0)"
    "state (unpend sys q S2) = state S" "suspended (unpend sys q S2) = suspended S" "prio (unpend sys q S2) = prio S"
    by (simp_all add: unpend_def S2_def S1_def)
  have dist: "distinct (members S q)" using lists q(1) by (simp add: lists_ok_def)
  have mem: "x \<in> set (members S1 r) \<longleftrightarrow> x \<in> set (members S r) \<and> x \<noteq> t" if "r \<in> set (queues sys)" for x r
  proof (cases "r = q")
    case True
    then show ?thesis using set_remove1_eq [OF dist, of t] by (auto simp: S1_def)
  next
    case False
    then have "set (members S r) \<inter> set (members S q) = {}" using lists that q(1) by (simp add: lists_ok_def)
    then have "t \<notin> set (members S r)" using q(2) by blast
    then show ?thesis using False by (auto simp: S1_def)
  qed
  have "pending (unpend sys q S2) = pending (unpend sys q S1)" "members (unpend sys q S1) = members S1"
    by (simp_all add: unpend_def S2_def S1_def)
  moreover have "mask_ok sys (unpend sys q S1)"
    using mask_remove [OF ok consistent_parts(4) [OF S], of q "remove1 t (members S q)"] q(2) by (auto simp: S1_def)
  ultimately have mask: "mask_ok sys (unpend sys q S2)" by (simp add: mask_ok_def un)
  have place: "place_ok sys (unpend sys q S2) r x" if r: "r \<in> set (queues sys)" "x \<in> set (members S1 r)" for r x
    using consistent_parts(1) [OF S r(1), of x] mem [OF r(1)] r(2) by (simp add: place_ok_def un)
  have thread: "thread_ok sys gone (unpend sys q S2) x" if x: "x \<in> set (threads sys)" "x \<notin> insert t X" for x
  proof -
    have th: "thread_ok sys gone S x" "x \<noteq> t" using consistent_parts(2) [OF S x(1)] x(2) by simp_all
    show ?thesis
      using th mem run_entry_prio(1) [OF ok, of "prio S x"] by (auto simp: thread_ok_def un)
  qed
  have unq: "unqueued sys x (unpend sys q S2)" if "x \<in> insert t X" for x
    using that consistent_parts(3) [OF S] mem by (auto simp: unqueued_def un)
  have order: "in_order (prio S) (members S1 r)" if "r \<in> set (queues sys)" for r
    using consistent_parts(5) [OF S that] by (auto simp: S1_def in_order_remove1)
  show ?thesis unfolding S' consistent_but_def un using place thread unq mask order by (auto simp: un)
qed

text \<open>What happens to the threads on their way is of no concern to the others.\<close>

definition agree :: "u32 set \<Rightarrow> sched \<Rightarrow> sched \<Rightarrow> bool" where
  "agree X S S' \<longleftrightarrow> members S' = members S \<and> pending S' = pending S \<and>
     (\<forall>t. t \<notin> X \<longrightarrow> state S' t = state S t \<and> suspended S' t = suspended S t \<and> prio S' t = prio S t \<and> queued_on S' t = queued_on S t)"

lemma agree_consistent:
  assumes S: "consistent_but sys gone X S" and agree: "agree X S S'"
  shows "consistent_but sys gone X S'"
proof -
  have same: "members S' = members S" "pending S' = pending S" using agree by (simp_all add: agree_def)
  have fields: "state S' t = state S t" "suspended S' t = suspended S t" "prio S' t = prio S t" "queued_on S' t = queued_on S t"
    if "t \<notin> X" for t using agree that by (simp_all add: agree_def)
  have out: "t \<notin> X" if "q \<in> set (queues sys)" "t \<in> set (members S q)" for q t
    using consistent_parts(3) [OF S] that unfolding unqueued_def by blast
  have "in_order (prio S') (members S q)" if q: "q \<in> set (queues sys)" for q
    using in_order_cong [of "members S q" "prio S'" "prio S"] fields(3) [OF out [OF q]] consistent_parts(5) [OF S q] by simp
  then show ?thesis
    using S fields out unfolding consistent_but_def place_ok_def thread_ok_def mask_ok_def unqueued_def same by simp
qed

lemma insert_consistent:
  assumes ok: "system_ok sys" and S: "consistent_but sys gone X S" and t: "t \<in> X" "t \<in> set (threads sys)" and q: "q \<in> set (queues sys)"
    and right: "if is_run_queue sys q
      then state S t = kThreadStateReady \<and> sint (suspended S t) < 1 \<and> prio S t < 32 \<and> q = run_entry sys (prio S t)
      else state S t = kThreadStateWaiting"
  shows "consistent_but sys gone (X - {t}) (insert_thread sys q t (prio S t) S)"
proof -
  define ts where "ts = insert_by (prio S) (prio S t) t (members S q)"
  define S' where "S' = insert_thread sys q t (prio S t) S"
  have new: "members S' = (members S)(q := ts)" "queued_on S' = (queued_on S)(t := q)" "state S' = state S"
    "suspended S' = suspended S" "prio S' = prio S"
    by (simp_all add: S'_def ts_def)
  have set_ts: "set ts = insert t (set (members S q))" by (simp add: ts_def)
  have unq: "unqueued sys t S" by (rule consistent_parts(3) [OF S t(1)])
  have place: "place_ok sys S' r x" if r: "r \<in> set (queues sys)" "x \<in> set (members S' r)" for r x
  proof (cases "x = t")
    case True
    then have "r = q" using r unq by (auto simp: new unqueued_def split: if_splits)
    then show ?thesis using right True by (simp add: place_ok_def new)
  next
    case False
    then have "x \<in> set (members S r)" using r set_ts by (auto simp: new split: if_splits)
    then show ?thesis using consistent_parts(1) [OF S r(1)] False by (simp add: place_ok_def new)
  qed
  have thread: "thread_ok sys gone S' x" if x: "x \<in> set (threads sys)" "x \<notin> X - {t}" for x
  proof (cases "x = t")
    case True
    then show ?thesis using right q set_ts
      by (auto simp: thread_ok_def new kThreadStateReady_def kThreadStateWaiting_def split: if_splits)
  next
    case False
    then have "thread_ok sys gone S x" using consistent_parts(2) [OF S x(1)] x(2) by simp
    moreover have "x \<in> set (members S' r)" if "x \<in> set (members S r)" for r using that set_ts by (auto simp: new)
    ultimately show ?thesis using False unfolding thread_ok_def new(2-) by (simp add: fun_upd_other)
  qed
  have unq': "unqueued sys x S'" if x: "x \<in> X - {t}" for x
    using consistent_parts(3) [OF S, of x] x set_ts by (auto simp: unqueued_def new)
  have mask: "mask_ok sys S'"
  proof (cases "is_run_queue sys q")
    case True
    then show ?thesis using mask_insert [OF ok consistent_parts(4) [OF S] True, of ts]
      by (simp add: S'_def insert_thread_def mask_ok_def ts_def insert_by_def)
  next
    case False
    then have "run_entry sys (of_nat k) \<noteq> q" if "k < 32" for k using that is_run_queue_iff [OF ok] by blast
    then show ?thesis using consistent_parts(4) [OF S] False by (simp add: S'_def insert_thread_def mask_ok_def)
  qed
  have order: "in_order (prio S') (members S' r)" if r: "r \<in> set (queues sys)" for r
    using consistent_parts(5) [OF S r] by (auto simp: new ts_def intro: in_order_insert_by)
  show ?thesis unfolding S'_def [symmetric] consistent_but_def using place thread unq' mask order by blast
qed

lemma leave_consistent:
  assumes "consistent_but sys gone X S" "thread_ok sys gone S t"
  shows "consistent_but sys gone (X - {t}) S"
  using assms unfolding consistent_but_def by blast

end
