(* ===== verification/Os_Thread.thy ===== *)
theory Os_Thread
  imports Os_Invariant
begin

text \<open>
  The priorities of threads (src/platform/os/os_thread.cpp, os_scheduler.cpp): what a thread inherits from those
  that wait for its mutexes, and how a new priority goes along the mutexes to whoever owns them.
\<close>

definition ComputeThreadEffectivePriority :: "u32 \<Rightarrow> gmem \<Rightarrow> u32 option" where
  "ComputeThreadEffectivePriority t m = do {
     priority \<leftarrow> Read32 m (t + kThreadBasePriorityOffset);
     mutex \<leftarrow> Read32 m (t + kThreadMutexQueueOffset);
     loop (\<lambda>(mutex, priority).
       if mutex = 0 then Some (Inl priority)
       else do {
         waiter \<leftarrow> Read32 m (mutex + kMutexWaitQueueHeadOffset);
         priority \<leftarrow> (if waiter = 0 then Some priority
           else do {
             waiting \<leftarrow> Read32 m (waiter + kThreadPriorityOffset);
             Some (if sint waiting < sint priority then waiting else priority) });
         next \<leftarrow> Read32 m (mutex + kMutexThreadNextOffset);
         Some (Inr (next, priority)) }) (mutex, priority) }"

text \<open>The owner of what the thread waits for as well, when there is one.\<close>

definition SetThreadEffectivePriority :: "'a os_layout_scheme \<Rightarrow> u32 \<Rightarrow> u32 \<Rightarrow> gmem \<Rightarrow> (u32 \<times> gmem) option" where
  "SetThreadEffectivePriority lay t priority m = do {
     st \<leftarrow> Read16 m (t + kThreadStateOffset);
     if st = 3 then Some (0, m)
     else if st < 3 then
       (if st = kThreadStateReady then do {
          m \<leftarrow> RemoveThreadFromQueue lay t m;
          m \<leftarrow> Write32 m (t + kThreadPriorityOffset) priority;
          m \<leftarrow> InsertThreadIntoQueueByPriority lay (run_entry lay priority) t priority m;
          m \<leftarrow> Write32 m (reschedule lay) 1;
          Some (0, m) }
        else if st \<noteq> 0 then do {
          m \<leftarrow> Write32 m (reschedule lay) 1;
          m \<leftarrow> Write32 m (t + kThreadPriorityOffset) priority;
          Some (0, m) }
        else Some (0, m))
     else if st < 5 then do {
       q \<leftarrow> Read32 m (t + kThreadQueueOffset);
       m \<leftarrow> RemoveThreadFromQueue lay t m;
       m \<leftarrow> Write32 m (t + kThreadPriorityOffset) priority;
       m \<leftarrow> (if q \<noteq> 0 then InsertThreadIntoQueueByPriority lay q t priority m else Some m);
       mutex \<leftarrow> Read32 m (t + kThreadMutexOffset);
       if mutex \<noteq> 0 then do { own \<leftarrow> Read32 m (mutex + kMutexOwnerOffset); Some (own, m) }
       else Some (0, m) }
     else Some (0, m) }"

definition promote_step :: "'a os_layout_scheme \<Rightarrow> u32 \<Rightarrow> u32 \<times> gmem \<Rightarrow> (gmem + u32 \<times> gmem) option" where
  "promote_step lay priority = (\<lambda>(t, m).
     if t = 0 then Some (Inl m)
     else do {
       suspend \<leftarrow> Read32 m (t + kThreadSuspendOffset);
       if sint suspend > 0 then Some (Inl m)
       else do {
         current \<leftarrow> Read32 m (t + kThreadPriorityOffset);
         if sint current \<le> sint priority then Some (Inl m)
         else do { next \<leftarrow> SetThreadEffectivePriority lay t priority m; Some (Inr next) } } })"

definition PromoteThreadPriority :: "'a os_layout_scheme \<Rightarrow> u32 \<Rightarrow> u32 \<Rightarrow> gmem \<Rightarrow> gmem option" where
  "PromoteThreadPriority lay t priority m = loop (promote_step lay priority) (t, m)"

definition propagate_step :: "'a os_layout_scheme \<Rightarrow> u32 \<times> gmem \<Rightarrow> (gmem + u32 \<times> gmem) option" where
  "propagate_step lay = (\<lambda>(own, m).
     if own = 0 then Some (Inl m)
     else do {
       suspend \<leftarrow> Read32 m (own + kThreadSuspendOffset);
       if \<not> sint suspend < 1 then Some (Inl m)
       else do {
         priority \<leftarrow> ComputeThreadEffectivePriority own m;
         current \<leftarrow> Read32 m (own + kThreadPriorityOffset);
         if current = priority then Some (Inl m)
         else do { next \<leftarrow> SetThreadEffectivePriority lay own priority m; Some (Inr next) } } })"

definition PropagateMutexOwnerPriority :: "'a os_layout_scheme \<Rightarrow> u32 \<Rightarrow> gmem \<Rightarrow> gmem option" where
  "PropagateMutexOwnerPriority lay mutex m =
     (if mutex = 0 then Some m
      else do {
        own \<leftarrow> Read32 m (mutex + kMutexOwnerOffset);
        loop (propagate_step lay) (own, m) })"

section \<open>Priorities of the state\<close>

definition inherit :: "sched \<Rightarrow> u32 \<Rightarrow> u32 \<Rightarrow> u32" where
  "inherit S x p = (case members S x of [] \<Rightarrow> p | w # _ \<Rightarrow> if sint (prio S w) < sint p then prio S w else p)"

definition effective :: "sched \<Rightarrow> u32 \<Rightarrow> u32" where
  "effective S t = fold (inherit S) (held S t) (base_prio S t)"

text \<open>The most urgent of its own priority and those of the first threads that wait for what it holds.\<close>

lemma fold_inherit:
  "sint (fold (inherit S) xs p) = Min (insert (sint p) {sint (prio S w) |x w ws. x \<in> set xs \<and> members S x = w # ws})"
proof (induction xs arbitrary: p)
  case (Cons x xs)
  define A where "A = {sint (prio S w) |x w ws. x \<in> set xs \<and> members S x = w # ws}"
  have "A \<subseteq> (\<lambda>x. sint (prio S (hd (members S x)))) ` set xs" by (force simp: A_def)
  then have fin: "finite A" by (rule finite_subset) simp
  have "{sint (prio S w) |y w ws. y \<in> set (x # xs) \<and> members S y = w # ws} =
    (case members S x of [] \<Rightarrow> A | w # _ \<Rightarrow> insert (sint (prio S w)) A)"
    by (auto simp: A_def split: list.split)
  moreover have "sint (fold (inherit S) (x # xs) p) = Min (insert (sint (inherit S x p)) A)" by (simp add: Cons.IH A_def)
  moreover have "Min (insert a (insert b A)) = Min (insert (min a b) A)" for a b :: int
  proof (cases "A = {}")
    case False
    then show ?thesis using fin by (simp add: min.assoc)
  qed simp
  moreover have "sint (inherit S x p) = (case members S x of [] \<Rightarrow> sint p | w # _ \<Rightarrow> min (sint p) (sint (prio S w)))"
    by (simp add: inherit_def split: list.split)
  ultimately show ?case by (simp split: list.split)
qed simp

lemma represents_held_list:
  assumes "represents sys S m" "t \<in> set (threads sys)"
  shows "linked m (mutex_list t) (held S t)" "distinct (held S t)" "set (held S t) \<subseteq> set (mutexes sys)"
  using assms by (simp_all add: represents_def links_ok_def lists_ok_def)

lemma mutex_queue: "system_ok sys \<Longrightarrow> x \<in> set (mutexes sys) \<Longrightarrow> x \<in> set (queues sys)" "system_ok sys \<Longrightarrow> x \<in> set (mutexes sys) \<Longrightarrow> x \<noteq> 0"
  by (auto simp: system_ok_def)

lemma Compute_effective:
  assumes ok: "system_ok sys" and rep: "represents sys S m" and t: "t \<in> set (threads sys)"
  shows "ComputeThreadEffectivePriority t m = Some (effective S t)"
proof -
  note lists = represents_held_list [OF rep t]
  define step where "step = (\<lambda>(mutex, priority :: u32).
       if mutex = 0 then Some (Inl priority)
       else do {
         waiter \<leftarrow> Read32 m (mutex + kMutexWaitQueueHeadOffset);
         priority \<leftarrow> (if waiter = 0 then Some priority
           else do {
             waiting \<leftarrow> Read32 m (waiter + kThreadPriorityOffset);
             Some (if sint waiting < sint priority then waiting else priority) });
         next \<leftarrow> Read32 m (mutex + kMutexThreadNextOffset);
         Some (Inr (next, priority)) })"
  have walk: "loop step (hd (ys @ [0]), p) = Some (fold (inherit S) ys p)" if "held S t = xs @ ys" for xs ys p
    using that
  proof (induction ys arbitrary: xs p)
    case (Cons x ys)
    have x: "x \<in> set (mutexes sys)" using lists(3) Cons.prems by auto
    note q = mutex_queue [OF ok x]
    have "list_ok (mutex_list t) (held S t)" by (rule held_list_ok [OF ok t lists(2,3)])
    then have "Read32 m (next_slot (mutex_list t) x) = Some (hd (ys @ [0]))"
      using linked_around(1) [of m "mutex_list t" xs x ys] lists(1) Cons.prems by simp
    then have next_x: "Read32 m (x + kMutexThreadNextOffset) = Some (hd (ys @ [0]))" using q(2) by (simp add: next_slot_def mutex_list_def)
    have head: "Read32 m (x + kMutexWaitQueueHeadOffset) = Some (hd (members S x @ [0]))"
      using queue_head [OF rep q(1)] by (simp add: kMutexWaitQueueHeadOffset_def)
    have "step (x, p) = Some (Inr (hd (ys @ [0]), inherit S x p))"
    proof (cases "members S x")
      case (Cons w ws)
      then have "w \<in> set (threads sys)" using represents_lists(3) [OF rep q(1)] by simp
      moreover from this have "w \<noteq> 0" using ok by (auto simp: system_ok_def)
      ultimately show ?thesis using q(2) Cons by (simp add: step_def head next_x inherit_def represents_reads [OF rep])
    qed (use q(2) in \<open>simp add: step_def head next_x inherit_def\<close>)
    then show ?case using Cons.IH [of "xs @ [x]" "inherit S x p"] Cons.prems by (simp add: loop_Inr)
  qed (simp add: step_def loop_Inl)
  have "Read32 m (t + kThreadMutexQueueOffset) = Some (hd (held S t @ [0]))"
    using linked_ends(1) [OF lists(1)] by (simp add: mutex_list_def)
  then show ?thesis
    using walk [of "[]" "held S t"] unfolding ComputeThreadEffectivePriority_def step_def [symmetric] effective_def
    by (simp add: represents_reads [OF rep] t)
qed

section \<open>A thread moved for a new priority\<close>

definition requeue :: "'a os_layout_scheme \<Rightarrow> u32 \<Rightarrow> u32 \<Rightarrow> u32 \<Rightarrow> sched \<Rightarrow> sched" where
  "requeue sys q t p S = insert_thread sys q t p ((remove_thread sys t S)\<lparr>prio := (prio S)(t := p)\<rparr>)"

text \<open>Where a thread of this state belongs.\<close>

definition belongs :: "os_system \<Rightarrow> sched \<Rightarrow> u32 \<Rightarrow> u32 \<Rightarrow> u32 \<Rightarrow> bool" where
  "belongs sys S q t p \<longleftrightarrow> q \<in> set (queues sys) \<and> (if is_run_queue sys q
     then state S t = kThreadStateReady \<and> sint (suspended S t) < 1 \<and> p < 32 \<and> q = run_entry sys p
     else state S t = kThreadStateWaiting)"

lemma represents_lists_ok: "represents sys S m \<Longrightarrow> lists_ok (queues sys) (threads sys) (members S)"
  by (simp add: represents_def)

lemma requeue_consistent:
  assumes "system_ok sys" "lists_ok (queues sys) (threads sys) (members S)" "consistent sys gone S" "t \<in> set (threads sys)"
    "well_placed sys t S" "belongs sys S q t p"
  shows "consistent sys gone (requeue sys q t p S)"
proof -
  define S1 where "S1 = (remove_thread sys t S)\<lparr>prio := (prio S)(t := p)\<rparr>"
  have "consistent_but sys gone {t} (remove_thread sys t S)" using remove_consistent [OF assms(1-5)] by simp
  then have "consistent_but sys gone {t} S1" by (rule agree_consistent) (simp add: agree_def S1_def)
  from insert_consistent [OF assms(1) this _ assms(4), of q] assms(6) show ?thesis
    by (simp add: belongs_def requeue_def S1_def)
qed

lemma consistent_remove_unqueued:
  assumes "system_ok sys" "lists_ok (queues sys) (threads sys) (members S)" "consistent sys gone S" "t \<in> set (threads sys)" "well_placed sys t S"
  shows "unqueued sys t (remove_thread sys t S)"
  using remove_consistent [OF assms] by (simp add: consistent_but_def)

lemma requeue_refines:
  assumes ok: "system_ok sys" and rep: "represents sys S m" and S: "consistent sys gone S" and t: "t \<in> set (threads sys)"
    and placed: "well_placed sys t S" and q: "q \<in> set (queues sys)"
  obtains m1 m2 m3 where "RemoveThreadFromQueue sys t m = Some m1" "Write32 m1 (t + kThreadPriorityOffset) p = Some m2"
    "InsertThreadIntoQueueByPriority sys q t p m2 = Some m3" "represents sys (requeue sys q t p S) m3"
    "represents sys (remove_thread sys t S) m1" "represents sys ((remove_thread sys t S)\<lparr>prio := (prio S)(t := p)\<rparr>) m2"
proof -
  from RemoveThread_refines [OF ok rep t placed] obtain m1 where
    m1: "RemoveThreadFromQueue sys t m = Some m1" "represents sys (remove_thread sys t S) m1" by blast
  from represents_writes(5) [OF ok m1(2) t, of p] obtain m2 where
    m2: "Write32 m1 (t + kThreadPriorityOffset) p = Some m2" "represents sys ((remove_thread sys t S)\<lparr>prio := (prio S)(t := p)\<rparr>) m2"
    by auto
  have "unqueued sys t ((remove_thread sys t S)\<lparr>prio := (prio S)(t := p)\<rparr>)"
    using consistent_remove_unqueued [OF ok represents_lists_ok [OF rep] S t placed] by (simp add: unqueued_def)
  from InsertThread_refines [OF ok m2(2) q t this, of p] show ?thesis using m1 m2 that unfolding requeue_def by blast
qed

text \<open>What the fields refer to, and the priorities a game may give.\<close>

definition references_ok :: "os_system \<Rightarrow> sched \<Rightarrow> bool" where
  "references_ok sys S \<longleftrightarrow> (\<forall>t \<in> set (threads sys). blocked_on S t = 0 \<or> blocked_on S t \<in> set (mutexes sys)) \<and>
     (\<forall>x \<in> set (mutexes sys). owner S x = 0 \<or> owner S x \<in> set (threads sys))"

definition priorities_ok :: "os_system \<Rightarrow> sched \<Rightarrow> bool" where
  "priorities_ok sys S \<longleftrightarrow> (\<forall>t \<in> set (threads sys). base_prio S t < 32 \<and> prio S t \<le> 32)"

definition states_ok :: "os_system \<Rightarrow> sched \<Rightarrow> bool" where
  "states_ok sys S \<longleftrightarrow> (\<forall>t \<in> set (threads sys).
     state S t \<in> {0, kThreadStateReady, kThreadStateRunning, kThreadStateWaiting, kThreadStateMoribund})"

text \<open>All of it: what every system call finds, and leaves.\<close>

definition well_formed :: "os_system \<Rightarrow> sched \<Rightarrow> bool" where
  "well_formed sys S \<longleftrightarrow> consistent sys {} S \<and> references_ok sys S \<and> priorities_ok sys S \<and> states_ok sys S"

definition set_priority :: "'a os_layout_scheme \<Rightarrow> u32 \<Rightarrow> u32 \<Rightarrow> sched \<Rightarrow> sched" where
  "set_priority sys t p S =
     (if state S t = kThreadStateReady then (requeue sys (run_entry sys p) t p S)\<lparr>resched := 1\<rparr>
      else if state S t = kThreadStateRunning then S\<lparr>resched := 1, prio := (prio S)(t := p)\<rparr>
      else if state S t = kThreadStateWaiting then
        (if queued_on S t \<noteq> 0 then requeue sys (queued_on S t) t p S else S\<lparr>prio := (prio S)(t := p)\<rparr>)
      else S)"

text \<open>Who owns the mutex a thread waits for.\<close>

definition waits_for :: "sched \<Rightarrow> u32 \<Rightarrow> u32" where
  "waits_for S t = (if t \<noteq> 0 \<and> state S t = kThreadStateWaiting \<and> blocked_on S t \<noteq> 0 then owner S (blocked_on S t) else 0)"

lemma requeue_fields [simp]:
  "state (requeue sys q t p S) = state S" "suspended (requeue sys q t p S) = suspended S" "prio (requeue sys q t p S) = (prio S)(t := p)"
  "blocked_on (requeue sys q t p S) = blocked_on S" "owner (requeue sys q t p S) = owner S" "base_prio (requeue sys q t p S) = base_prio S"
  "held (requeue sys q t p S) = held S" "lock_count (requeue sys q t p S) = lock_count S" "running (requeue sys q t p S) = running S"
  by (simp_all add: requeue_def)

lemma set_priority_fields [simp]:
  "state (set_priority sys t p S) = state S" "suspended (set_priority sys t p S) = suspended S"
  "blocked_on (set_priority sys t p S) = blocked_on S" "owner (set_priority sys t p S) = owner S"
  "base_prio (set_priority sys t p S) = base_prio S" "held (set_priority sys t p S) = held S"
  "lock_count (set_priority sys t p S) = lock_count S" "running (set_priority sys t p S) = running S"
  "prio (set_priority sys t p S) = (if state S t \<in> {kThreadStateReady, kThreadStateRunning, kThreadStateWaiting} then (prio S)(t := p) else prio S)"
  by (simp_all add: set_priority_def)

lemmas thread_states = kThreadStateReady_def kThreadStateRunning_def kThreadStateWaiting_def kThreadStateMoribund_def

text \<open>A thread that runs, or has come to its end, is in no queue.\<close>

lemma idle_unqueued:
  assumes "consistent_but sys gone X S" "state S t \<noteq> kThreadStateReady \<or> \<not> sint (suspended S t) < 1" "state S t \<noteq> kThreadStateWaiting"
  shows "unqueued sys t S"
  using consistent_parts(1) [OF assms(1), of _ t] assms(2,3) unfolding unqueued_def place_ok_def by metis

text \<open>Fields that say nothing of the queues.\<close>

lemma consistent_same:
  assumes "consistent_but sys gone X S" "agree {} S S'"
  shows "consistent_but sys gone X S'"
  by (rule agree_consistent [OF assms(1)]) (use assms(2) in \<open>simp add: agree_def\<close>)

text \<open>A thread that stands nowhere, and need not.\<close>

lemma idle_consistent:
  assumes S: "consistent sys gone S" and idle: "unqueued sys t S" and same: "agree {t} S S'" and "thread_ok sys gone S' t"
  shows "consistent sys gone S'"
proof -
  have "consistent_but sys gone {t} S" using S idle by (simp add: consistent_but_def)
  from leave_consistent [OF agree_consistent [OF this same] assms(4)] show ?thesis by simp
qed

lemma set_priority_consistent:
  assumes ok: "system_ok sys" and rep: "represents sys S m" and S: "consistent sys {} S" and t: "t \<in> set (threads sys)"
    and runs: "sint (suspended S t) < 1" and p: "state S t = kThreadStateReady \<Longrightarrow> p < 32"
  shows "consistent sys {} (set_priority sys t p S)"
proof -
  consider (ready) "state S t = kThreadStateReady" | (waiting) "state S t = kThreadStateWaiting" "queued_on S t \<noteq> 0"
    | (other) "state S t \<noteq> kThreadStateReady" "state S t = kThreadStateWaiting \<Longrightarrow> queued_on S t = 0" by blast
  then show ?thesis
  proof cases
    case ready
    have "well_placed sys t S" by (rule consistent_well_placed [OF ok S t]) (use ready runs in simp_all)
    moreover have "belongs sys S (run_entry sys p) t p" using ready runs p run_entry_prio [OF ok] by (simp add: belongs_def)
    ultimately have "consistent sys {} (requeue sys (run_entry sys p) t p S)"
      by (rule requeue_consistent [OF ok represents_lists_ok [OF rep] S t])
    from consistent_same [OF this] show ?thesis using ready by (simp add: set_priority_def agree_def)
  next
    case waiting
    have "well_placed sys t S" by (rule consistent_well_placed [OF ok S t]) (use waiting in simp_all)
    moreover have "belongs sys S (queued_on S t) t p"
      using waiting consistent_parts(2) [OF S t] by (simp add: belongs_def thread_ok_def)
    ultimately have "consistent sys {} (requeue sys (queued_on S t) t p S)"
      by (rule requeue_consistent [OF ok represents_lists_ok [OF rep] S t])
    then show ?thesis using waiting by (simp add: set_priority_def thread_states)
  next
    case other
    have "unqueued sys t S"
    proof (cases "state S t = kThreadStateWaiting")
      case True
      then show ?thesis using other queue_not_zero [OF ok] by (intro consistent_unqueued [OF S]) auto
    qed (use idle_unqueued [OF S] other in blast)
    then show ?thesis
    proof (rule idle_consistent [OF S])
      show "agree {t} S (set_priority sys t p S)" using other by (auto simp: set_priority_def agree_def)
      show "thread_ok sys {} (set_priority sys t p S) t" using other by (auto simp: thread_ok_def set_priority_def thread_states)
    qed
  qed
qed

lemma SetThread_refines:
  assumes ok: "system_ok sys" and rep: "represents sys S m" and S: "consistent sys {} S" and t: "t \<in> set (threads sys)"
    and refs: "references_ok sys S" and runs: "sint (suspended S t) < 1" and p: "state S t = kThreadStateReady \<Longrightarrow> p < 32"
  shows "\<exists>m'. SetThreadEffectivePriority sys t p m = Some (waits_for S t, m') \<and> represents sys (set_priority sys t p S) m'"
proof -
  note reads = represents_reads [OF rep]
  have t0: "t \<noteq> 0" using t ok by (auto simp: system_ok_def)
  consider (ready) "state S t = kThreadStateReady" | (running) "state S t = kThreadStateRunning"
    | (waiting) "state S t = kThreadStateWaiting" "queued_on S t \<noteq> 0" | (adrift) "state S t = kThreadStateWaiting" "queued_on S t = 0"
    | (over) "state S t = 0" | (other) "state S t = 3 \<or> \<not> state S t < 5"
  proof -
    have "state S t \<in> {0, 1, 2, 3, 4}" if "state S t < 5"
    proof -
      have "unat (state S t) < 5" using that by (simp add: word_less_nat_alt)
      then have "unat (state S t) \<in> set [0..<5]" by simp
      then have "word_of_nat (unat (state S t)) \<in> (word_of_nat ` set [0..<5] :: u16 set)" by (rule imageI)
      then show ?thesis by (simp add: upt_rec)
    qed
    then show thesis using that unfolding thread_states by blast
  qed
  then show ?thesis
  proof cases
    case ready
    have placed: "well_placed sys t S" by (rule consistent_well_placed [OF ok S t]) (use ready runs in simp_all)
    obtain m1 m2 m3 where q: "RemoveThreadFromQueue sys t m = Some m1" "Write32 m1 (t + kThreadPriorityOffset) p = Some m2"
      "InsertThreadIntoQueueByPriority sys (run_entry sys p) t p m2 = Some m3" "represents sys (requeue sys (run_entry sys p) t p S) m3"
      using requeue_refines [OF ok rep S t placed run_entry_prio(1) [OF ok p [OF ready]]] .
    from represents_writes(2) [OF ok q(4), of 1] show ?thesis
      using ready q by (auto simp: SetThreadEffectivePriority_def reads t waits_for_def set_priority_def thread_states)
  next
    case running
    from represents_writes(2) [OF ok rep, of 1] obtain m1 where
      m1: "Write32 m (reschedule sys) 1 = Some m1" "represents sys (S\<lparr>resched := 1\<rparr>) m1" by blast
    from represents_writes(5) [OF ok m1(2) t, of p] show ?thesis
      using running m1(1) by (auto simp: SetThreadEffectivePriority_def reads t waits_for_def set_priority_def thread_states)
  next
    case waiting
    have placed: "well_placed sys t S" by (rule consistent_well_placed [OF ok S t]) (use waiting in simp_all)
    have qs: "queued_on S t \<in> set (queues sys)" using placed waiting(2) by (simp add: well_placed_def)
    obtain m1 m2 m3 where q: "RemoveThreadFromQueue sys t m = Some m1" "Write32 m1 (t + kThreadPriorityOffset) p = Some m2"
      "InsertThreadIntoQueueByPriority sys (queued_on S t) t p m2 = Some m3" "represents sys (requeue sys (queued_on S t) t p S) m3"
      using requeue_refines [OF ok rep S t placed qs] .
    note after = represents_reads [OF q(4)]
    show ?thesis
      using waiting q after(9) [OF t] after(10) [of "blocked_on S t"] refs t t0
      by (auto simp: SetThreadEffectivePriority_def reads waits_for_def set_priority_def references_ok_def thread_states)
  next
    case adrift
    have placed: "well_placed sys t S" using adrift by (simp add: well_placed_def)
    from RemoveThread_refines [OF ok rep t placed] adrift(2) obtain m1 where
      m1: "RemoveThreadFromQueue sys t m = Some m1" "represents sys S m1" by (auto simp: remove_thread_def)
    from represents_writes(5) [OF ok m1(2) t, of p] obtain m2 where
      m2: "Write32 m1 (t + kThreadPriorityOffset) p = Some m2" "represents sys (S\<lparr>prio := (prio S)(t := p)\<rparr>) m2" by blast
    note after = represents_reads [OF m2(2)]
    show ?thesis
      using adrift m1 m2 after(9) [OF t] after(10) [of "blocked_on S t"] refs t t0
      by (auto simp: SetThreadEffectivePriority_def reads waits_for_def set_priority_def references_ok_def thread_states)
  next
    case over
    then show ?thesis using rep by (simp add: SetThreadEffectivePriority_def reads t waits_for_def set_priority_def thread_states)
  next
    case other
    then have "state S t \<noteq> 1" "state S t \<noteq> 2" "state S t \<noteq> 4" "\<not> state S t < 3"
      by (auto simp: word_less_nat_alt)
    then show ?thesis using rep other by (auto simp: SetThreadEffectivePriority_def reads t waits_for_def set_priority_def thread_states)
  qed
qed

section \<open>Priorities inherited along the mutexes\<close>

lemma set_priority_well_formed:
  assumes "system_ok sys" "represents sys S m" "well_formed sys S" "t \<in> set (threads sys)" "sint (suspended S t) < 1"
    and p: "p \<le> 32" "state S t = kThreadStateReady \<Longrightarrow> p < 32"
  shows "well_formed sys (set_priority sys t p S)"
  using set_priority_consistent [OF assms(1,2) _ assms(4,5) p(2)] assms(3) p(1)
  by (auto simp: well_formed_def references_ok_def priorities_ok_def states_ok_def)

lemma waits_for_thread:
  "references_ok sys S \<Longrightarrow> t \<in> set (threads sys) \<Longrightarrow> waits_for S t = 0 \<or> waits_for S t \<in> set (threads sys)"
  by (auto simp: waits_for_def references_ok_def)

text \<open>Only priorities are changed, and only to one that is more urgent.\<close>

definition raised :: "u32 \<Rightarrow> sched \<Rightarrow> sched \<Rightarrow> bool" where
  "raised p S S' \<longleftrightarrow> state S' = state S \<and> suspended S' = suspended S \<and> blocked_on S' = blocked_on S \<and> owner S' = owner S \<and>
     base_prio S' = base_prio S \<and> held S' = held S \<and> lock_count S' = lock_count S \<and> running S' = running S \<and>
     (\<forall>u. prio S' u = prio S u \<or> sint p < sint (prio S u) \<and> prio S' u = p)"

text \<open>Who has been raised does not wait for one that has not been.\<close>

definition inherited :: "u32 \<Rightarrow> u32 \<Rightarrow> sched \<Rightarrow> sched \<Rightarrow> bool" where
  "inherited p t S S' \<longleftrightarrow> (\<forall>u. prio S' u \<noteq> prio S u \<and> waits_for S' u \<noteq> 0 \<and> waits_for S' u \<noteq> t \<longrightarrow>
     0 < sint (suspended S' (waits_for S' u)) \<or> sint (prio S' (waits_for S' u)) \<le> sint p \<or>
     state S' (waits_for S' u) \<notin> {kThreadStateReady, kThreadStateRunning, kThreadStateWaiting})"

definition urgent :: "os_system \<Rightarrow> u32 \<Rightarrow> gmem \<Rightarrow> nat" where
  "urgent sys p m = length (filter (\<lambda>u. case Read32 m (u + kThreadPriorityOffset) of None \<Rightarrow> False | Some v \<Rightarrow> sint p < sint v) (threads sys))"

lemma urgent_represents: "represents sys S m \<Longrightarrow> urgent sys p m = length (filter (\<lambda>u. sint p < sint (prio S u)) (threads sys))"
  unfolding urgent_def by (rule arg_cong [of _ _ length], rule filter_cong) (simp_all add: represents_reads)

lemma length_filter_less:
  "x \<in> set xs \<Longrightarrow> P x \<Longrightarrow> \<not> Q x \<Longrightarrow> (\<And>y. Q y \<Longrightarrow> P y) \<Longrightarrow> length (filter Q xs) < length (filter P xs)"
proof (induction xs)
  case (Cons y ys)
  have le: "length (filter Q ys) \<le> length (filter P ys)" using Cons.prems(4) by (induction ys) auto
  show ?case using Cons le by (cases "y = x") (auto simp: less_Suc_eq_le)
qed simp

lemma waits_for_raised: "raised p S S' \<Longrightarrow> waits_for S' = waits_for S"
  by (simp add: raised_def waits_for_def fun_eq_iff)

text \<open>
  The search for an owner to raise comes to its end, whatever the threads wait for, even in a circle; the owner it
  starts with is raised, and so is everyone that one waits for in turn.
\<close>

lemma Promote_inherits:
  assumes ok: "system_ok sys" and rep: "represents sys S m" and S: "well_formed sys S" and t: "t = 0 \<or> t \<in> set (threads sys)" and p: "p < 32"
  shows "\<exists>m' S'. PromoteThreadPriority sys t p m = Some m' \<and> represents sys S' m' \<and> well_formed sys S' \<and> raised p S S' \<and>
     inherited p 0 S S' \<and> (t \<noteq> 0 \<and> sint (suspended S t) < 1 \<and> state S t \<in> {kThreadStateReady, kThreadStateRunning, kThreadStateWaiting} \<longrightarrow>
       sint (prio S' t) \<le> sint p)"
proof -
  let ?live = "{kThreadStateReady, kThreadStateRunning, kThreadStateWaiting}"
  define goal where "goal = (\<lambda>S' :: sched. t \<noteq> 0 \<and> sint (suspended S t) < 1 \<and> state S t \<in> ?live \<longrightarrow> sint (prio S' t) \<le> sint p)"
  define I where "I = (\<lambda>(u, m'). \<exists>S'. represents sys S' m' \<and> well_formed sys S' \<and> raised p S S' \<and> inherited p u S S' \<and>
    (u = 0 \<or> u \<in> set (threads sys)) \<and> (u = t \<or> goal S'))"
  define Q where "Q = (\<lambda>m'. \<exists>S'. represents sys S' m' \<and> well_formed sys S' \<and> raised p S S' \<and> inherited p 0 S S' \<and> goal S')"
  define left where "left = (\<lambda>(u :: u32, m'). 2 * urgent sys p m' + (if u = 0 then 0 else 1))"
  have "\<exists>m'. PromoteThreadPriority sys t p m = Some m' \<and> Q m'"
    unfolding PromoteThreadPriority_def
  proof (rule loop_total [where I = I and m = left])
    show "I (t, m)" using rep S t by (auto simp: I_def raised_def inherited_def)
    fix s
    assume "I s"
    then obtain u m' S' where s: "s = (u, m')" and rep': "represents sys S' m'" and S': "well_formed sys S'" "raised p S S'" "inherited p u S S'"
      and u: "u = 0 \<or> u \<in> set (threads sys)" and met: "u = t \<or> goal S'"
      unfolding I_def by blast
    have same: "suspended S' = suspended S" "state S' = state S" using S'(2) by (simp_all add: raised_def)
    note reads = represents_reads [OF rep']
    show "(\<exists>r. promote_step sys p s = Some (Inl r) \<and> Q r) \<or> (\<exists>s'. promote_step sys p s = Some (Inr s') \<and> I s' \<and> left s' < left s)"
    proof (cases "u = 0 \<or> 0 < sint (suspended S' u) \<or> sint (prio S' u) \<le> sint p")
      case True
      then have "inherited p 0 S S'" using S'(3) unfolding inherited_def by metis
      moreover have "goal S'" using met True same by (auto simp: goal_def)
      ultimately have "Q m'" using rep' S' unfolding Q_def by blast
      then show ?thesis using True u by (auto simp: promote_step_def s reads)
    next
      case False
      then have u': "u \<in> set (threads sys)" "sint (suspended S' u) < 1" "sint p < sint (prio S' u)" using u by simp_all
      define S2 where "S2 = set_priority sys u p S'"
      have parts: "consistent sys {} S'" "references_ok sys S'" using S'(1) by (simp_all add: well_formed_def)
      from SetThread_refines [OF ok rep' parts(1) u'(1) parts(2) u'(2) p] obtain m2 where
        m2: "SetThreadEffectivePriority sys u p m' = Some (waits_for S' u, m2)" "represents sys S2 m2" unfolding S2_def by blast
      have step: "promote_step sys p s = Some (Inr (waits_for S' u, m2))" using False u' m2(1) by (simp add: promote_step_def s reads)
      have p': "p \<le> 32" using p by simp
      have wf: "well_formed sys S2" unfolding S2_def by (rule set_priority_well_formed [OF ok rep' S'(1) u'(1,2) p' p])
      have pr: "prio S2 = (if state S u \<in> ?live then (prio S')(u := p) else prio S')" by (simp add: S2_def same)
      have "prio S' u = prio S u" using S'(2) u'(3) unfolding raised_def by (metis less_irrefl)
      then have "raised p S S2" using S'(2) u'(3) by (auto simp: raised_def S2_def)
      moreover from this have waits: "waits_for S2 = waits_for S'" using S'(2) waits_for_raised by metis
      have "inherited p (waits_for S' u) S S2"
        unfolding inherited_def waits
      proof (intro allI impI)
        fix v
        define w where "w = waits_for S' v"
        assume v: "prio S2 v \<noteq> prio S v \<and> waits_for S' v \<noteq> 0 \<and> waits_for S' v \<noteq> waits_for S' u"
        then have "v \<noteq> u" by blast
        then have "prio S' v \<noteq> prio S v" using v by (auto simp: pr split: if_splits)
        then have "w \<noteq> u \<Longrightarrow> 0 < sint (suspended S' w) \<or> sint (prio S' w) \<le> sint p \<or> state S' w \<notin> ?live"
          using S'(3) v unfolding inherited_def w_def by blast
        then show "0 < sint (suspended S2 (waits_for S' v)) \<or> sint (prio S2 (waits_for S' v)) \<le> sint p \<or> state S2 (waits_for S' v) \<notin> ?live"
          unfolding w_def [symmetric] by (cases "w = u") (auto simp: pr S2_def same)
      qed
      moreover have "waits_for S' u = t \<or> goal S2" using met by (auto simp: goal_def pr)
      moreover have "left (waits_for S' u, m2) < left s"
      proof (cases "state S u \<in> ?live")
        case True
        have "urgent sys p m2 < urgent sys p m'"
          unfolding urgent_represents [OF m2(2)] urgent_represents [OF rep']
          by (rule length_filter_less [OF u'(1)]) (use u'(3) True in \<open>auto simp: pr split: if_splits\<close>)
        then show ?thesis by (simp add: left_def s)
      next
        case live: False
        then have "waits_for S' u = 0" by (simp add: waits_for_def same)
        moreover have "urgent sys p m2 = urgent sys p m'"
          unfolding urgent_represents [OF m2(2)] urgent_represents [OF rep'] pr using live by simp
        ultimately show ?thesis using False by (simp add: left_def s)
      qed
      ultimately show ?thesis
        using step m2(2) wf waits_for_thread [OF parts(2) u'(1)] unfolding I_def by blast
    qed
  qed
  then show ?thesis unfolding Q_def goal_def by blast
qed

text \<open>The other way a priority goes along the mutexes, when one that waits is suspended: each owner is given what it is
  owed. That it comes to an end rests on the threads not waiting in a circle.\<close>

definition reprioritised :: "sched \<Rightarrow> sched \<Rightarrow> bool" where
  "reprioritised S S' \<longleftrightarrow> state S' = state S \<and> suspended S' = suspended S \<and> blocked_on S' = blocked_on S \<and> owner S' = owner S \<and>
     base_prio S' = base_prio S \<and> held S' = held S \<and> lock_count S' = lock_count S \<and> running S' = running S \<and>
     (\<forall>u. prio S' u = prio S u \<or> prio S' u < 32)"

definition deadlock_free :: "os_system \<Rightarrow> sched \<Rightarrow> bool" where
  "deadlock_free sys S \<longleftrightarrow> (\<forall>t \<in> set (threads sys). (waits_for S ^^ length (threads sys)) t = 0)"

definition chain_length :: "sched \<Rightarrow> u32 \<Rightarrow> nat" where
  "chain_length S t = (LEAST n. (waits_for S ^^ n) t = 0)"

lemma chain_length_next:
  assumes "(waits_for S ^^ n) t = 0" "t \<noteq> 0"
  shows "chain_length S (waits_for S t) < chain_length S t"
proof -
  have l: "(waits_for S ^^ chain_length S t) t = 0" unfolding chain_length_def by (rule LeastI [of _ n]) (rule assms(1))
  then obtain k where k: "chain_length S t = Suc k" using assms(2) by (cases "chain_length S t") auto
  then have "(waits_for S ^^ k) (waits_for S t) = 0" using l by (simp add: funpow_swap1)
  then have "chain_length S (waits_for S t) \<le> k" unfolding chain_length_def by (rule Least_le)
  then show ?thesis using k by simp
qed

lemma waits_for_reprioritised: "reprioritised S S' \<Longrightarrow> waits_for S' = waits_for S"
  by (simp add: reprioritised_def waits_for_def fun_eq_iff)

lemma sint_small: "(p :: u32) < 0x80000000 \<Longrightarrow> sint p = uint p"
proof -
  assume "p < 0x80000000"
  then have "uint p < 2 ^ 31" by (simp add: word_less_def)
  then show "sint p = uint p" unfolding sint_uint by (intro signed_take_bit_int_eq_self) (simp_all add: order_trans [of _ 0])
qed

lemma effective_less:
  assumes ok: "system_ok sys" and rep: "represents sys S m" and prios: "priorities_ok sys S" and t: "t \<in> set (threads sys)"
  shows "effective S t < 32"
proof -
  have "fold (inherit S) xs p < 32" if "set xs \<subseteq> set (mutexes sys)" "p < 32" for xs p
    using that
  proof (induction xs arbitrary: p)
    case (Cons x xs)
    have "inherit S x p < 32"
    proof (cases "members S x")
      case Nil
      then show ?thesis using Cons.prems by (simp add: inherit_def)
    next
      case at: (Cons w ws)
      have "x \<in> set (queues sys)" using Cons.prems mutex_queue [OF ok] by simp
      then have "w \<in> set (threads sys)" using represents_lists(3) [OF rep] at by (metis list.set_intros(1) subsetD)
      then have "prio S w \<le> 32" using prios by (simp add: priorities_ok_def)
      then have "sint (prio S w) < sint p \<Longrightarrow> prio S w < 32"
        using Cons.prems(2) sint_small [of "prio S w"] sint_small [of p] less_trans [of p 32 "0x80000000"] le_less_trans [of "prio S w" 32 "0x80000000"] by (simp add: word_less_def word_le_def)
      then show ?thesis using Cons.prems(2) at by (simp add: inherit_def)
    qed
    then show ?case using Cons by simp
  qed simp
  then show ?thesis unfolding effective_def
    using represents_held_list(3) [OF rep t] prios t by (simp add: priorities_ok_def)
qed

lemma Propagate_returns:
  assumes ok: "system_ok sys" and rep: "represents sys S m" and S: "well_formed sys S" and x: "x = 0 \<or> x \<in> set (mutexes sys)"
    and free: "deadlock_free sys S"
  shows "\<exists>m' S'. PropagateMutexOwnerPriority sys x m = Some m' \<and> represents sys S' m' \<and> well_formed sys S' \<and> reprioritised S S'"
proof (cases "x = 0")
  case True
  then show ?thesis using rep S by (auto simp: PropagateMutexOwnerPriority_def reprioritised_def)
next
  case False
  define I where "I = (\<lambda>(u, m'). \<exists>S'. represents sys S' m' \<and> well_formed sys S' \<and> reprioritised S S' \<and> (u = 0 \<or> u \<in> set (threads sys)))"
  define Q where "Q = (\<lambda>m'. \<exists>S'. represents sys S' m' \<and> well_formed sys S' \<and> reprioritised S S')"
  have x: "x \<in> set (mutexes sys)" using x False by simp
  have own: "Read32 m (x + kMutexOwnerOffset) = Some (owner S x)" by (rule represents_reads(10) [OF rep x])
  have "\<exists>m'. loop (propagate_step sys) (owner S x, m) = Some m' \<and> Q m'"
  proof (rule loop_total [where I = I and m = "\<lambda>(u, m'). chain_length S u"])
    show "I (owner S x, m)" using rep S x by (auto simp: I_def reprioritised_def well_formed_def references_ok_def)
    fix s
    assume "I s"
    then obtain u m' S' where s: "s = (u, m')" and rep': "represents sys S' m'" and S': "well_formed sys S'" "reprioritised S S'"
      and u: "u = 0 \<or> u \<in> set (threads sys)"
      unfolding I_def by blast
    note reads = represents_reads [OF rep']
    have Q: "Q m'" using rep' S' unfolding Q_def by blast
    show "(\<exists>r. propagate_step sys s = Some (Inl r) \<and> Q r) \<or>
      (\<exists>s'. propagate_step sys s = Some (Inr s') \<and> I s' \<and> (case s' of (u, m') \<Rightarrow> chain_length S u) < (case s of (u, m') \<Rightarrow> chain_length S u))"
    proof (cases "u = 0 \<or> \<not> sint (suspended S' u) < 1 \<or> prio S' u = effective S' u")
      case True
      then show ?thesis using Q u Compute_effective [OF ok rep', of u] by (auto simp: propagate_step_def s reads)
    next
      case False
      then have u': "u \<in> set (threads sys)" "u \<noteq> 0" "sint (suspended S' u) < 1" using u by simp_all
      let ?p = "effective S' u"
      have parts: "consistent sys {} S'" "references_ok sys S'" "priorities_ok sys S'" using S'(1) by (simp_all add: well_formed_def)
      have p: "?p < 32" by (rule effective_less [OF ok rep' parts(3) u'(1)])
      from SetThread_refines [OF ok rep' parts(1) u'(1) parts(2) u'(3) p] obtain m2 where
        m2: "SetThreadEffectivePriority sys u ?p m' = Some (waits_for S' u, m2)" "represents sys (set_priority sys u ?p S') m2" by blast
      have step: "propagate_step sys s = Some (Inr (waits_for S' u, m2))"
        using False u' m2(1) Compute_effective [OF ok rep' u'(1)] by (simp add: propagate_step_def s reads)
      have "?p \<le> 32" using p by simp
      then have "well_formed sys (set_priority sys u ?p S')"
        by (rule set_priority_well_formed [OF ok rep' S'(1) u'(1,3) _ p])
      moreover have "reprioritised S (set_priority sys u ?p S')" using S'(2) p by (auto simp: reprioritised_def)
      moreover have "chain_length S (waits_for S' u) < chain_length S u"
        unfolding waits_for_reprioritised [OF S'(2)]
        using free u'(1) by (intro chain_length_next [OF _ u'(2)]) (auto simp: deadlock_free_def)
      ultimately show ?thesis using step m2(2) waits_for_thread [OF parts(2) u'(1)] unfolding I_def s by fastforce
    qed
  qed
  then show ?thesis using False own unfolding Q_def PropagateMutexOwnerPriority_def by auto
qed

end
