(* ===== verification/Os_Suspend.thy ===== *)
theory Os_Suspend
  imports Os_Thread
begin

text \<open>
  How a thread is suspended and resumed (src/platform/os/os_thread.cpp). The host side of a thread, its fiber and its
  sleep timer, is not in guest memory and not here; \<open>select\<close> is the switch to another thread at the end of a
  system call.
\<close>

text \<open>What is done to a thread that was not suspended before.\<close>

definition suspend_body :: "'a os_layout_scheme \<Rightarrow> u32 \<Rightarrow> gmem \<Rightarrow> gmem option" where
  "suspend_body lay t m = do {
     st \<leftarrow> Read16 m (t + kThreadStateOffset);
     if st < 3 then
       (if st = kThreadStateReady then RemoveThreadFromQueue lay t m
        else if st \<noteq> 0 then do {
          m \<leftarrow> Write32 m (reschedule lay) 1;
          Write16 m (t + kThreadStateOffset) kThreadStateReady }
        else Some m)
     else if st < 5 then do {
       q \<leftarrow> Read32 m (t + kThreadQueueOffset);
       m \<leftarrow> RemoveThreadFromQueue lay t m;
       m \<leftarrow> Write32 m (t + kThreadPriorityOffset) kSuspendedWaitPriority;
       m \<leftarrow> (if q \<noteq> 0 then InsertThreadIntoQueueByPriority lay q t kSuspendedWaitPriority m else Some m);
       mutex \<leftarrow> Read32 m (t + kThreadMutexOffset);
       PropagateMutexOwnerPriority lay mutex m }
     else Some m }"

text \<open>The count from before is returned; the system switches when there is a reason to.\<close>

definition OSSuspendThread :: "'a os_layout_scheme \<Rightarrow> (gmem \<Rightarrow> gmem option) \<Rightarrow> u32 \<Rightarrow> gmem \<Rightarrow> (u32 \<times> gmem) option" where
  "OSSuspendThread lay select t m =
     (if t = 0 then Some (0, m)
      else do {
        count \<leftarrow> Read32 m (t + kThreadSuspendOffset);
        m \<leftarrow> Write32 m (t + kThreadSuspendOffset) (count + 1);
        m \<leftarrow> (if count = 0 then do {
            m \<leftarrow> suspend_body lay t m;
            again \<leftarrow> Read32 m (reschedule lay);
            if again \<noteq> 0 then select m else Some m }
          else Some m);
        Some (count, m) })"

text \<open>The host's view of whether the fiber has come to its end is \<open>terminated\<close>.\<close>

definition resume_body :: "'a os_layout_scheme \<Rightarrow> u32 set \<Rightarrow> u32 \<Rightarrow> gmem \<Rightarrow> gmem option" where
  "resume_body lay terminated t m = do {
     st \<leftarrow> Read16 m (t + kThreadStateOffset);
     if st = kThreadStateWaiting then do {
       q \<leftarrow> Read32 m (t + kThreadQueueOffset);
       m \<leftarrow> RemoveThreadFromQueue lay t m;
       priority \<leftarrow> ComputeThreadEffectivePriority t m;
       m \<leftarrow> Write32 m (t + kThreadPriorityOffset) priority;
       m \<leftarrow> (if q \<noteq> 0 then InsertThreadIntoQueueByPriority lay q t priority m else Some m);
       mutex \<leftarrow> Read32 m (t + kThreadMutexOffset);
       PropagateMutexOwnerPriority lay mutex m }
     else if st = kThreadStateReady \<or> st = kThreadStateRunning \<and> t \<notin> terminated then do {
       m \<leftarrow> (if st = kThreadStateReady then Some m else Write16 m (t + kThreadStateOffset) kThreadStateReady);
       priority \<leftarrow> ComputeThreadEffectivePriority t m;
       m \<leftarrow> Write32 m (t + kThreadPriorityOffset) priority;
       m \<leftarrow> InsertThreadIntoQueueByPriority lay (run_entry lay priority) t priority m;
       Write32 m (reschedule lay) 1 }
     else Some m }"

definition OSResumeThread :: "'a os_layout_scheme \<Rightarrow> u32 set \<Rightarrow> (gmem \<Rightarrow> gmem option) \<Rightarrow> u32 \<Rightarrow> gmem \<Rightarrow> (u32 \<times> gmem) option" where
  "OSResumeThread lay terminated select t m =
     (if t = 0 then Some (0, m)
      else do {
        count \<leftarrow> Read32 m (t + kThreadSuspendOffset);
        m \<leftarrow> (if sint count - 1 < 0 then Write32 m (t + kThreadSuspendOffset) 0
          else do {
            m \<leftarrow> Write32 m (t + kThreadSuspendOffset) (count - 1);
            if count - 1 = 0 then do {
              m \<leftarrow> resume_body lay terminated t m;
              again \<leftarrow> Read32 m (reschedule lay);
              if again \<noteq> 0 then select m else Some m }
            else Some m });
        Some (count, m) })"

section \<open>Counts\<close>

lemma suspended_more:
  assumes "(v :: u32) < 0x7FFFFFFF"
  shows "sint (v + 1) = sint v + 1" "0 \<le> sint v"
proof -
  have "uint v < 0x7FFFFFFF" using assms by (simp add: word_less_def)
  then have "uint (v + 1) = uint v + 1" by (simp add: uint_word_ariths)
  moreover from this have "v + 1 < 0x80000000" using \<open>uint v < 0x7FFFFFFF\<close> by (simp add: word_less_def)
  moreover have "v < 0x80000000" using \<open>uint v < 0x7FFFFFFF\<close> by (simp add: word_less_def)
  ultimately show "sint (v + 1) = sint v + 1" "0 \<le> sint v" by (simp_all add: sint_small)
qed

lemma sint_zero_iff: "sint (v :: u32) = 0 \<longleftrightarrow> v = 0"
  by (metis signed_0 signed_word_eqI)

text \<open>The fields of a thread that stands in a queue are read by nobody else.\<close>

lemma remove_suspended:
  "remove_thread sys t (S\<lparr>suspended := f\<rparr>) = (remove_thread sys t S)\<lparr>suspended := f\<rparr>"
  by (simp add: remove_thread_def unpend_def Let_def)

lemma requeue_suspended: "requeue sys q t p (S\<lparr>suspended := f\<rparr>) = (requeue sys q t p S)\<lparr>suspended := f\<rparr>"
  by (simp add: requeue_def remove_suspended insert_thread_def)

text \<open>A count that does not decide whether the thread may run.\<close>

lemma suspended_consistent:
  assumes S: "consistent sys gone S" and same: "state S t = kThreadStateReady \<longrightarrow> (sint v < 1 \<longleftrightarrow> sint (suspended S t) < 1)"
  shows "consistent sys gone (S\<lparr>suspended := (suspended S)(t := v)\<rparr>)"
  using S same unfolding consistent_but_def place_ok_def thread_ok_def mask_ok_def unqueued_def by auto

lemma suspended_well_formed:
  assumes "well_formed sys S" "state S t = kThreadStateReady \<longrightarrow> (sint v < 1 \<longleftrightarrow> sint (suspended S t) < 1)"
  shows "well_formed sys (S\<lparr>suspended := (suspended S)(t := v)\<rparr>)"
  using assms suspended_consistent [of sys "{}" S t v] by (simp add: well_formed_def references_ok_def priorities_ok_def states_ok_def)

section \<open>A thread suspended\<close>

text \<open>What a call leaves when the thread's own fields are set aside: the fields of a system call's argument, and what
  it may change of others, which is their priorities.\<close>

definition suspends :: "u32 \<Rightarrow> u32 \<Rightarrow> u16 \<Rightarrow> sched \<Rightarrow> sched \<Rightarrow> bool" where
  "suspends t count st S S' \<longleftrightarrow> suspended S' = (suspended S)(t := count) \<and> state S' = (state S)(t := st) \<and>
     blocked_on S' = blocked_on S \<and> owner S' = owner S \<and> base_prio S' = base_prio S \<and> held S' = held S \<and>
     lock_count S' = lock_count S \<and> running S' = running S \<and>
     (\<forall>u. u \<noteq> t \<longrightarrow> prio S' u = prio S u \<or> prio S' u < 32) \<and>
     (st = kThreadStateWaiting \<and> sint count < 1 \<longrightarrow>
       prio S' t < 32 \<or> prio S' t = prio S t \<and> sint (suspended S t) < 1 \<and> state S t = kThreadStateWaiting)"

lemma reprioritised_suspends:
  assumes S: "suspends t count st S S1" and S1: "reprioritised S1 S2"
  shows "suspends t count st S S2"
proof -
  have prios: "prio S2 u = prio S1 u \<or> prio S2 u < 32" for u using S1 by (simp add: reprioritised_def)
  have "prio S2 u = prio S u \<or> prio S2 u < 32" if "u \<noteq> t" for u
    using prios [of u] S that unfolding suspends_def by metis
  moreover have "st = kThreadStateWaiting \<and> sint count < 1 \<longrightarrow>
    prio S2 t < 32 \<or> prio S2 t = prio S t \<and> sint (suspended S t) < 1 \<and> state S t = kThreadStateWaiting"
    using prios [of t] S unfolding suspends_def by metis
  ultimately show ?thesis using S S1 by (simp add: suspends_def reprioritised_def)
qed

text \<open>A thread that waits and is not suspended has a priority it can be made ready with.\<close>

definition settled :: "os_system \<Rightarrow> sched \<Rightarrow> bool" where
  "settled sys S \<longleftrightarrow> (\<forall>t \<in> set (threads sys). state S t = kThreadStateWaiting \<and> sint (suspended S t) < 1 \<longrightarrow> prio S t < 32)"

lemma suspends_settled: "suspends t count st S S' \<Longrightarrow> settled sys S \<Longrightarrow> settled sys S'"
  unfolding settled_def
proof
  fix u
  assume u: "u \<in> set (threads sys)" and S: "suspends t count st S S'"
    and old: "\<forall>t \<in> set (threads sys). state S t = kThreadStateWaiting \<and> sint (suspended S t) < 1 \<longrightarrow> prio S t < 32"
  show "state S' u = kThreadStateWaiting \<and> sint (suspended S' u) < 1 \<longrightarrow> prio S' u < 32"
  proof (cases "u = t")
    case True
    then show ?thesis using S old [rule_format, OF u] by (auto simp: suspends_def)
  next
    case False
    then have "state S' u = state S u" "suspended S' u = suspended S u" "prio S' u = prio S u \<or> prio S' u < 32"
      using S by (simp_all add: suspends_def)
    then show ?thesis using old [rule_format, OF u] by auto
  qed
qed

text \<open>A thread with a new count and a new state, out of every queue.\<close>

lemma idle_well_formed:
  assumes S: "well_formed sys S" and idle: "unqueued sys t S" and same: "agree {t} S S'" and "thread_ok sys {} S' t"
    and rest: "blocked_on S' = blocked_on S" "owner S' = owner S" "base_prio S' = base_prio S" "prio S' = prio S" "states_ok sys S'"
  shows "well_formed sys S'"
  using idle_consistent [OF _ idle same assms(4)] S rest(5) by (simp add: well_formed_def references_ok_def priorities_ok_def rest(1-4))

lemma same_well_formed:
  assumes "well_formed sys S" "agree {} S S'" "blocked_on S' = blocked_on S" "base_prio S' = base_prio S" "references_ok sys S'"
  shows "well_formed sys S'"
  using assms consistent_same [OF _ assms(2)] by (auto simp: well_formed_def priorities_ok_def states_ok_def agree_def)

lemma remove_well_formed:
  assumes ok: "system_ok sys" and rep: "represents sys S m" and S: "well_formed sys S" and t: "t \<in> set (threads sys)"
    and ready: "state S t = kThreadStateReady" "sint (suspended S t) < 1" and count: "\<not> sint v < 1"
  shows "well_formed sys ((remove_thread sys t S)\<lparr>suspended := (suspended S)(t := v)\<rparr>)"
proof -
  have parts: "consistent sys {} S" using S by (simp add: well_formed_def)
  have "well_placed sys t S" by (rule consistent_well_placed [OF ok parts t]) (use ready in simp_all)
  from remove_consistent [OF ok represents_lists_ok [OF rep] parts t this]
  have "consistent_but sys {} {t} (remove_thread sys t S)" by simp
  then have "consistent_but sys {} {t} ((remove_thread sys t S)\<lparr>suspended := (suspended S)(t := v)\<rparr>)"
    by (rule agree_consistent) (simp add: agree_def)
  moreover have "thread_ok sys {} ((remove_thread sys t S)\<lparr>suspended := (suspended S)(t := v)\<rparr>) t"
    using count ready by (simp add: thread_ok_def thread_states)
  ultimately have "consistent sys {} ((remove_thread sys t S)\<lparr>suspended := (suspended S)(t := v)\<rparr>)"
    using leave_consistent [of sys "{}" "{t}"] by fastforce
  then show ?thesis using S by (simp add: well_formed_def references_ok_def priorities_ok_def states_ok_def)
qed

lemma requeue_well_formed:
  assumes ok: "system_ok sys" and rep: "represents sys S m" and S: "well_formed sys S" and t: "t \<in> set (threads sys)"
    and waiting: "state S t = kThreadStateWaiting" "queued_on S t \<noteq> 0" and p: "p \<le> 32"
  shows "well_formed sys (requeue sys (queued_on S t) t p S)"
proof -
  have parts: "consistent sys {} S" using S by (simp add: well_formed_def)
  have placed: "well_placed sys t S" by (rule consistent_well_placed [OF ok parts t]) (use waiting in simp_all)
  have "belongs sys S (queued_on S t) t p"
    using waiting consistent_parts(2) [OF parts t] by (simp add: belongs_def thread_ok_def)
  from requeue_consistent [OF ok represents_lists_ok [OF rep] parts t placed this] S p
  show ?thesis by (simp add: well_formed_def references_ok_def priorities_ok_def states_ok_def)
qed

text \<open>A waiting thread's move within its queue, and what comes of it: the shared middle of both calls.\<close>

definition requeue_waiting :: "'a os_layout_scheme \<Rightarrow> u32 \<Rightarrow> u32 \<Rightarrow> sched \<Rightarrow> sched" where
  "requeue_waiting sys t p S = (if queued_on S t \<noteq> 0 then requeue sys (queued_on S t) t p S else S\<lparr>prio := (prio S)(t := p)\<rparr>)"

lemma requeue_waiting_refines:
  assumes ok: "system_ok sys" and rep: "represents sys S m" and S: "well_formed sys S" and t: "t \<in> set (threads sys)"
    and waiting: "state S t = kThreadStateWaiting" and p: "p \<le> 32"
  obtains m1 m2 m3 where "RemoveThreadFromQueue sys t m = Some m1" "Write32 m1 (t + kThreadPriorityOffset) p = Some m2"
    "(if queued_on S t \<noteq> 0 then InsertThreadIntoQueueByPriority sys (queued_on S t) t p m2 else Some m2) = Some m3"
    "represents sys (requeue_waiting sys t p S) m3" "well_formed sys (requeue_waiting sys t p S)"
    "represents sys (remove_thread sys t S) m1"
proof (cases "queued_on S t = 0")
  case False
  have parts: "consistent sys {} S" using S by (simp add: well_formed_def)
  have placed: "well_placed sys t S" by (rule consistent_well_placed [OF ok parts t]) (use waiting in simp_all)
  then have "queued_on S t \<in> set (queues sys)" using False by (simp add: well_placed_def)
  from requeue_refines [OF ok rep parts t placed this] obtain m1 m2 m3 where
    "RemoveThreadFromQueue sys t m = Some m1" "Write32 m1 (t + kThreadPriorityOffset) p = Some m2"
    "InsertThreadIntoQueueByPriority sys (queued_on S t) t p m2 = Some m3" "represents sys (requeue sys (queued_on S t) t p S) m3"
    "represents sys (remove_thread sys t S) m1" by metis
  then show ?thesis
    using that requeue_well_formed [OF ok rep S t waiting False p] False by (simp add: requeue_waiting_def)
next
  case True
  then have "well_placed sys t S" by (simp add: well_placed_def)
  from RemoveThread_refines [OF ok rep t this] True obtain m1 where
    m1: "RemoveThreadFromQueue sys t m = Some m1" "represents sys (remove_thread sys t S) m1" "represents sys S m1"
    by (auto simp: remove_thread_def)
  from represents_writes(5) [OF ok m1(3) t, of p] obtain m2 where
    m2: "Write32 m1 (t + kThreadPriorityOffset) p = Some m2" "represents sys (S\<lparr>prio := (prio S)(t := p)\<rparr>) m2" by blast
  have parts: "consistent sys {} S" using S by (simp add: well_formed_def)
  have "unqueued sys t S" using True queue_not_zero [OF ok] by (intro consistent_unqueued [OF parts]) auto
  then have "consistent sys {} (S\<lparr>prio := (prio S)(t := p)\<rparr>)"
    by (rule idle_consistent [OF parts]) (use True waiting in \<open>simp_all add: agree_def thread_ok_def thread_states\<close>)
  then have "well_formed sys (S\<lparr>prio := (prio S)(t := p)\<rparr>)"
    using S p by (simp add: well_formed_def references_ok_def priorities_ok_def states_ok_def)
  then show ?thesis using that m1 m2 True by (simp add: requeue_waiting_def)
qed

lemma requeue_waiting_fields [simp]:
  "state (requeue_waiting sys t p S) = state S" "suspended (requeue_waiting sys t p S) = suspended S"
  "blocked_on (requeue_waiting sys t p S) = blocked_on S" "owner (requeue_waiting sys t p S) = owner S"
  "base_prio (requeue_waiting sys t p S) = base_prio S" "held (requeue_waiting sys t p S) = held S"
  "lock_count (requeue_waiting sys t p S) = lock_count S" "running (requeue_waiting sys t p S) = running S"
  "prio (requeue_waiting sys t p S) = (prio S)(t := p)"
  by (simp_all add: requeue_waiting_def)

lemma deadlock_free_same:
  "deadlock_free sys S \<Longrightarrow> state S' = state S \<Longrightarrow> blocked_on S' = blocked_on S \<Longrightarrow> owner S' = owner S \<Longrightarrow> deadlock_free sys S'"
proof -
  assume "deadlock_free sys S" "state S' = state S" "blocked_on S' = blocked_on S" "owner S' = owner S"
  moreover from this have "waits_for S' = waits_for S" by (simp add: waits_for_def fun_eq_iff)
  ultimately show ?thesis by (simp add: deadlock_free_def)
qed

text \<open>The kinds of state the calls tell apart.\<close>

lemma state_cases [consumes 2]:
  assumes "well_formed sys S" "t \<in> set (threads sys)"
  obtains (ready) "state S t = kThreadStateReady" | (running) "state S t = kThreadStateRunning"
    | (waiting) "state S t = kThreadStateWaiting" | (over) "state S t = 0 \<or> state S t = kThreadStateMoribund"
  using assms unfolding well_formed_def states_ok_def by blast

definition state_after_suspend :: "u16 \<Rightarrow> u16" where
  "state_after_suspend st = (if st = kThreadStateRunning then kThreadStateReady else st)"

lemma suspend_body_refines:
  assumes ok: "system_ok sys" and rep: "represents sys (S\<lparr>suspended := (suspended S)(t := v)\<rparr>) m" and rep0: "represents sys S m0"
    and S: "well_formed sys S"
    and t: "t \<in> set (threads sys)" and free: "deadlock_free sys S" and count: "suspended S t = 0" "\<not> sint v < 1"
  shows "\<exists>m' S'. suspend_body sys t m = Some m' \<and> represents sys S' m' \<and> well_formed sys S' \<and>
     suspends t v (state_after_suspend (state S t)) S S'"
proof -
  define S1 where "S1 = S\<lparr>suspended := (suspended S)(t := v)\<rparr>"
  have rep: "represents sys S1 m" using rep by (simp add: S1_def)
  note reads = represents_reads [OF rep]
  have same: "state S1 = state S" "queued_on S1 = queued_on S" "members S1 = members S" "blocked_on S1 = blocked_on S" by (simp_all add: S1_def)
  have parts: "consistent sys {} S" using S by (simp add: well_formed_def)
  show ?thesis
    using S t
  proof (cases rule: state_cases)
    case ready
    then have runs: "sint (suspended S t) < 1" using count by simp
    have "well_placed sys t S" by (rule consistent_well_placed [OF ok parts t]) (use ready runs in simp_all)
    then have "well_placed sys t S1" by (simp add: well_placed_def same)
    from RemoveThread_refines [OF ok rep t this] obtain m' where
      m': "RemoveThreadFromQueue sys t m = Some m'" "represents sys (remove_thread sys t S1) m'" by blast
    have "well_formed sys (remove_thread sys t S1)"
      unfolding S1_def remove_suspended by (rule remove_well_formed [OF ok rep0 S t ready runs count(2)])
    moreover have "suspends t v (state_after_suspend (state S t)) S (remove_thread sys t S1)"
      using ready by (auto simp: suspends_def S1_def state_after_suspend_def thread_states fun_eq_iff)
    ultimately show ?thesis using ready m' by (auto simp: suspend_body_def reads t same thread_states)
  next
    case running
    from represents_writes(2) [OF ok rep, of 1] obtain m1 where
      m1: "Write32 m (reschedule sys) 1 = Some m1" "represents sys (S1\<lparr>resched := 1\<rparr>) m1" by blast
    from write_state [OF ok m1(2) t, of kThreadStateReady] obtain m2 where
      m2: "Write16 m1 (t + kThreadStateOffset) kThreadStateReady = Some m2"
        "represents sys (S1\<lparr>resched := 1, state := (state S)(t := kThreadStateReady)\<rparr>) m2" by (auto simp: same)
    have "unqueued sys t S" by (rule idle_unqueued [OF parts]) (use running in \<open>simp_all add: thread_states\<close>)
    then have "well_formed sys (S1\<lparr>resched := 1, state := (state S)(t := kThreadStateReady)\<rparr>)"
      by (rule idle_well_formed [OF S])
        (use count S in \<open>auto simp: agree_def thread_ok_def S1_def states_ok_def well_formed_def thread_states\<close>)
    moreover have "suspends t v (state_after_suspend (state S t)) S (S1\<lparr>resched := 1, state := (state S)(t := kThreadStateReady)\<rparr>)"
      using running by (simp add: suspends_def S1_def state_after_suspend_def thread_states)
    ultimately show ?thesis using running m1(1) m2 by (auto simp: suspend_body_def reads t same thread_states)
  next
    case waiting
    have wf1: "well_formed sys S1" unfolding S1_def by (rule suspended_well_formed [OF S]) (use waiting in \<open>simp add: thread_states\<close>)
    have p: "kSuspendedWaitPriority \<le> 32" by (simp add: kSuspendedWaitPriority_def)
    define S2 where "S2 = requeue_waiting sys t kSuspendedWaitPriority S1"
    have waiting1: "state S1 t = kThreadStateWaiting" using waiting by (simp add: same)
    obtain m1 m2 m3 where m: "RemoveThreadFromQueue sys t m = Some m1" "Write32 m1 (t + kThreadPriorityOffset) kSuspendedWaitPriority = Some m2"
      "(if queued_on S t \<noteq> 0 then InsertThreadIntoQueueByPriority sys (queued_on S t) t kSuspendedWaitPriority m2 else Some m2) = Some m3"
      "represents sys S2 m3" "well_formed sys S2"
      using requeue_waiting_refines [OF ok rep wf1 t waiting1 p] unfolding S2_def same by metis
    have x: "blocked_on S t = 0 \<or> blocked_on S t \<in> set (mutexes sys)" using S t by (simp add: well_formed_def references_ok_def)
    have "deadlock_free sys S2" by (rule deadlock_free_same [OF free]) (simp_all add: S2_def S1_def)
    from Propagate_returns [OF ok m(4,5) x this] obtain m' S' where
      m': "PropagateMutexOwnerPriority sys (blocked_on S t) m3 = Some m'" "represents sys S' m'" "well_formed sys S'" "reprioritised S2 S'"
      by blast
    have "suspends t v (state_after_suspend (state S t)) S S2"
      using waiting count by (auto simp: suspends_def S2_def S1_def state_after_suspend_def thread_states fun_eq_iff)
    note reprioritised_suspends [OF this m'(4)]
    moreover have "Read32 m3 (t + kThreadMutexOffset) = Some (blocked_on S t)"
      using represents_reads(9) [OF m(4) t] by (simp add: S2_def S1_def)
    ultimately show ?thesis
      using waiting m m' by (auto simp: suspend_body_def reads t same thread_states)
  next
    case over
    then have "well_formed sys S1" unfolding S1_def by (intro suspended_well_formed [OF S]) (auto simp: thread_states)
    moreover have "suspends t v (state_after_suspend (state S t)) S S1"
      using over by (auto simp: suspends_def S1_def state_after_suspend_def thread_states fun_eq_iff)
    ultimately show ?thesis using over rep by (auto simp: suspend_body_def reads t same thread_states)
  qed
qed

text \<open>
  The call leaves the system as it should be, with the count one higher; a thread that had not been suspended is on
  no run queue any more, and one that waits is behind all the others in its queue. Then the system may switch.
\<close>

lemma OSSuspendThread_refines:
  assumes ok: "system_ok sys" and rep: "represents sys S m" and S: "well_formed sys S" and t: "t \<in> set (threads sys)"
    and free: "deadlock_free sys S" and count: "suspended S t < 0x7FFFFFFF"
  shows "\<exists>m' S'. OSSuspendThread sys select t m =
       (if suspended S t = 0 \<and> resched S' \<noteq> 0 then do { m'' \<leftarrow> select m'; Some (suspended S t, m'') } else Some (suspended S t, m')) \<and>
     represents sys S' m' \<and> well_formed sys S' \<and>
     suspends t (suspended S t + 1) (if suspended S t = 0 then state_after_suspend (state S t) else state S t) S S'"
proof -
  let ?v = "suspended S t + 1"
  have t0: "t \<noteq> 0" using t ok by (auto simp: system_ok_def)
  note more = suspended_more [OF count]
  from represents_writes(4) [OF ok rep t, of ?v] obtain m1 where
    m1: "Write32 m (t + kThreadSuspendOffset) ?v = Some m1" "represents sys (S\<lparr>suspended := (suspended S)(t := ?v)\<rparr>) m1" by blast
  show ?thesis
  proof (cases "suspended S t = 0")
    case True
    have "\<not> sint ?v < 1" using more by simp
    from suspend_body_refines [OF ok m1(2) rep S t free True this] obtain m' S' where
      m': "suspend_body sys t m1 = Some m'" "represents sys S' m'" "well_formed sys S'"
        "suspends t ?v (state_after_suspend (state S t)) S S'" by blast
    then show ?thesis using True t0 m1(1)
      by (intro exI [of _ m'] exI [of _ S'])
        (simp add: OSSuspendThread_def represents_reads [OF rep] represents_reads [OF m'(2)] t)
  next
    case False
    then have "sint (suspended S t) \<noteq> 0" by (simp add: sint_zero_iff)
    then have keeps: "sint ?v < 1 \<longleftrightarrow> sint (suspended S t) < 1" using more by simp
    then have "well_formed sys (S\<lparr>suspended := (suspended S)(t := ?v)\<rparr>)" by (intro suspended_well_formed [OF S]) simp
    then show ?thesis using False t0 m1
      by (intro exI [of _ m1] exI [of _ "S\<lparr>suspended := (suspended S)(t := ?v)\<rparr>"])
        (auto simp: OSSuspendThread_def represents_reads [OF rep] t suspends_def fun_eq_iff keeps)
  qed
qed

section \<open>A thread resumed\<close>

text \<open>A thread that stands nowhere is put on the run queue of its priority.\<close>

definition make_ready :: "'a os_layout_scheme \<Rightarrow> u32 \<Rightarrow> sched \<Rightarrow> sched" where
  "make_ready sys t S = (let p = effective S t in
     (insert_thread sys (run_entry sys p) t p (S\<lparr>prio := (prio S)(t := p)\<rparr>))\<lparr>resched := 1\<rparr>)"

lemma make_ready_well_formed:
  assumes ok: "system_ok sys" and rep: "represents sys S m" and S: "consistent_but sys {} {t} S" "references_ok sys S" "priorities_ok sys S" "states_ok sys S"
    and t: "t \<in> set (threads sys)" and ready: "state S t = kThreadStateReady" "sint (suspended S t) < 1"
  shows "well_formed sys (make_ready sys t S)"
proof -
  let ?p = "effective S t"
  have p: "?p < 32" by (rule effective_less [OF ok rep S(3) t])
  have "consistent_but sys {} {t} (S\<lparr>prio := (prio S)(t := ?p)\<rparr>)" by (rule agree_consistent [OF S(1)]) (simp add: agree_def)
  from insert_consistent [OF ok this _ t run_entry_prio(1) [OF ok p]] p ready run_entry_prio(2) [OF ok p]
  have "consistent sys {} (insert_thread sys (run_entry sys ?p) t ?p (S\<lparr>prio := (prio S)(t := ?p)\<rparr>))" by simp
  from consistent_same [OF this, of "make_ready sys t S"] show ?thesis
    using S p by (auto simp: well_formed_def references_ok_def priorities_ok_def states_ok_def make_ready_def agree_def Let_def)
qed

lemma make_ready_refines:
  assumes ok: "system_ok sys" and rep: "represents sys S m" and t: "t \<in> set (threads sys)" "unqueued sys t S" and prios: "priorities_ok sys S"
  shows "\<exists>m'. do {
       priority \<leftarrow> ComputeThreadEffectivePriority t m;
       m \<leftarrow> Write32 m (t + kThreadPriorityOffset) priority;
       m \<leftarrow> InsertThreadIntoQueueByPriority sys (run_entry sys priority) t priority m;
       Write32 m (reschedule sys) 1 } = Some m' \<and> represents sys (make_ready sys t S) m'"
proof -
  let ?p = "effective S t"
  have p: "?p < 32" by (rule effective_less [OF ok rep prios t(1)])
  from represents_writes(5) [OF ok rep t(1), of ?p] obtain m1 where
    m1: "Write32 m (t + kThreadPriorityOffset) ?p = Some m1" "represents sys (S\<lparr>prio := (prio S)(t := ?p)\<rparr>) m1" by blast
  have "unqueued sys t (S\<lparr>prio := (prio S)(t := ?p)\<rparr>)" using t(2) by (simp add: unqueued_def)
  from InsertThread_refines [OF ok m1(2) run_entry_prio(1) [OF ok p] t(1) this, of ?p] obtain m2 where
    m2: "InsertThreadIntoQueueByPriority sys (run_entry sys ?p) t ?p m1 = Some m2"
      "represents sys (insert_thread sys (run_entry sys ?p) t ?p (S\<lparr>prio := (prio S)(t := ?p)\<rparr>)) m2" by blast
  from represents_writes(2) [OF ok m2(2), of 1] show ?thesis
    using m1(1) m2(1) by (auto simp: Compute_effective [OF ok rep t(1)] make_ready_def Let_def)
qed

definition state_after_resume :: "u32 set \<Rightarrow> u32 \<Rightarrow> u16 \<Rightarrow> u16" where
  "state_after_resume terminated t st = (if st = kThreadStateRunning \<and> t \<notin> terminated then kThreadStateReady else st)"

lemma resume_body_refines:
  assumes ok: "system_ok sys" and rep: "represents sys (S\<lparr>suspended := (suspended S)(t := v)\<rparr>) m"
    and S: "well_formed sys S" and t: "t \<in> set (threads sys)" and free: "deadlock_free sys S"
    and count: "\<not> sint (suspended S t) < 1" "sint v < 1"
  shows "\<exists>m' S'. resume_body sys terminated t m = Some m' \<and> represents sys S' m' \<and> well_formed sys S' \<and>
     suspends t v (state_after_resume terminated t (state S t)) S S'"
proof -
  define S1 where "S1 = S\<lparr>suspended := (suspended S)(t := v)\<rparr>"
  have rep: "represents sys S1 m" using rep by (simp add: S1_def)
  note reads = represents_reads [OF rep]
  have same: "state S1 = state S" "queued_on S1 = queued_on S" "members S1 = members S" "blocked_on S1 = blocked_on S" by (simp_all add: S1_def)
  have parts: "consistent sys {} S" "references_ok sys S" "priorities_ok sys S" "states_ok sys S" using S by (simp_all add: well_formed_def)
  have wake: "\<exists>m' S'. do {
         priority \<leftarrow> ComputeThreadEffectivePriority t m0;
         m \<leftarrow> Write32 m0 (t + kThreadPriorityOffset) priority;
         m \<leftarrow> InsertThreadIntoQueueByPriority sys (run_entry sys priority) t priority m;
         Write32 m (reschedule sys) 1 } = Some m' \<and> represents sys S' m' \<and> well_formed sys S' \<and> suspends t v kThreadStateReady S S'"
    if idle: "unqueued sys t S" and rep': "represents sys (S1\<lparr>state := (state S)(t := kThreadStateReady)\<rparr>) m0" for m0
  proof -
    let ?S = "S1\<lparr>state := (state S)(t := kThreadStateReady)\<rparr>"
    have "consistent_but sys {} {t} S" using parts(1) idle by (simp add: consistent_but_def)
    then have c: "consistent_but sys {} {t} ?S" by (rule agree_consistent) (simp add: agree_def S1_def)
    have r: "references_ok sys ?S" "priorities_ok sys ?S" "states_ok sys ?S"
      using parts by (simp_all add: references_ok_def priorities_ok_def states_ok_def S1_def)
    have "unqueued sys t ?S" using idle by (simp add: unqueued_def S1_def)
    from make_ready_refines [OF ok rep' t this r(2)] obtain m' where
      m': "do {
         priority \<leftarrow> ComputeThreadEffectivePriority t m0;
         m \<leftarrow> Write32 m0 (t + kThreadPriorityOffset) priority;
         m \<leftarrow> InsertThreadIntoQueueByPriority sys (run_entry sys priority) t priority m;
         Write32 m (reschedule sys) 1 } = Some m'" "represents sys (make_ready sys t ?S) m'" by blast
    have "well_formed sys (make_ready sys t ?S)"
      by (rule make_ready_well_formed [OF ok rep' c r t]) (use count(2) in \<open>simp_all add: S1_def\<close>)
    moreover have "suspends t v kThreadStateReady S (make_ready sys t ?S)"
      by (simp add: suspends_def make_ready_def Let_def S1_def thread_states)
    ultimately show ?thesis using m' by blast
  qed
  show ?thesis
    using S t
  proof (cases rule: state_cases)
    case ready
    have idle: "unqueued sys t S" by (rule idle_unqueued [OF parts(1)]) (use ready count in \<open>simp_all add: thread_states\<close>)
    have eq: "S1 = S1\<lparr>state := (state S)(t := kThreadStateReady)\<rparr>"
      using ready by (simp add: S1_def fun_upd_idem)
    then show ?thesis using wake [OF idle, of m] rep ready
      by (simp add: resume_body_def reads t same state_after_resume_def thread_states)
  next
    case running
    have idle: "unqueued sys t S" by (rule idle_unqueued [OF parts(1)]) (use running in \<open>simp_all add: thread_states\<close>)
    show ?thesis
    proof (cases "t \<in> terminated")
      case True
      have "well_formed sys S1" unfolding S1_def by (intro suspended_well_formed [OF S]) (use running in \<open>simp add: thread_states\<close>)
      moreover have "suspends t v kThreadStateRunning S S1" using running by (auto simp: suspends_def S1_def fun_eq_iff thread_states)
      ultimately show ?thesis using running True rep
        by (auto simp: resume_body_def reads t same state_after_resume_def thread_states)
    next
      case False
      from write_state [OF ok rep t, of kThreadStateReady] obtain m0 where
        m0: "Write16 m (t + kThreadStateOffset) kThreadStateReady = Some m0"
          "represents sys (S1\<lparr>state := (state S)(t := kThreadStateReady)\<rparr>) m0" by (auto simp: same)
      from wake [OF idle m0(2)] show ?thesis using running False m0(1)
        by (simp add: resume_body_def reads t same state_after_resume_def thread_states)
    qed
  next
    case waiting
    have wf1: "well_formed sys S1" unfolding S1_def by (rule suspended_well_formed [OF S]) (use waiting in \<open>simp add: thread_states\<close>)
    have waiting1: "state S1 t = kThreadStateWaiting" using waiting by (simp add: same)
    have parts1: "consistent sys {} S1" "priorities_ok sys S1" using wf1 by (simp_all add: well_formed_def)
    have "well_placed sys t S1" by (rule consistent_well_placed [OF ok parts1(1) t]) (use waiting1 in simp_all)
    from RemoveThread_refines [OF ok rep t this] obtain m1 where
      m1: "RemoveThreadFromQueue sys t m = Some m1" "represents sys (remove_thread sys t S1) m1" by blast
    define p where "p = effective (remove_thread sys t S1) t"
    have p: "p < 32" unfolding p_def by (rule effective_less [OF ok m1(2) _ t]) (use parts1 in \<open>simp add: priorities_ok_def\<close>)
    then have p': "p \<le> 32" by simp
    define S2 where "S2 = requeue_waiting sys t p S1"
    obtain m2 m3 where m: "Write32 m1 (t + kThreadPriorityOffset) p = Some m2"
      "(if queued_on S t \<noteq> 0 then InsertThreadIntoQueueByPriority sys (queued_on S t) t p m2 else Some m2) = Some m3"
      "represents sys S2 m3" "well_formed sys S2"
      using requeue_waiting_refines [OF ok rep wf1 t waiting1 p'] m1(1) unfolding S2_def same by (metis option.inject)
    have x: "blocked_on S t = 0 \<or> blocked_on S t \<in> set (mutexes sys)" using S t by (simp add: well_formed_def references_ok_def)
    have "deadlock_free sys S2" by (rule deadlock_free_same [OF free]) (simp_all add: S2_def S1_def)
    from Propagate_returns [OF ok m(3,4) x this] obtain m' S' where
      m': "PropagateMutexOwnerPriority sys (blocked_on S t) m3 = Some m'" "represents sys S' m'" "well_formed sys S'" "reprioritised S2 S'"
      by blast
    have "suspends t v (state_after_resume terminated t (state S t)) S S2"
      using waiting p by (auto simp: suspends_def S2_def S1_def state_after_resume_def thread_states fun_eq_iff)
    note reprioritised_suspends [OF this m'(4)]
    moreover have "Read32 m3 (t + kThreadMutexOffset) = Some (blocked_on S t)"
      using represents_reads(9) [OF m(3) t] by (simp add: S2_def S1_def)
    moreover have "ComputeThreadEffectivePriority t m1 = Some p" unfolding p_def by (rule Compute_effective [OF ok m1(2) t])
    ultimately show ?thesis
      using waiting m m' m1(1) by (auto simp: resume_body_def reads t same thread_states)
  next
    case over
    then have "well_formed sys S1" unfolding S1_def by (intro suspended_well_formed [OF S]) (auto simp: thread_states)
    moreover have "suspends t v (state_after_resume terminated t (state S t)) S S1"
      using over by (auto simp: suspends_def S1_def state_after_resume_def thread_states fun_eq_iff)
    ultimately show ?thesis using over rep by (auto simp: resume_body_def reads t same thread_states)
  qed
qed

lemma OSResumeThread_refines:
  assumes ok: "system_ok sys" and rep: "represents sys S m" and S: "well_formed sys S" and t: "t \<in> set (threads sys)"
    and free: "deadlock_free sys S" and count: "suspended S t < 0x7FFFFFFF"
  shows "\<exists>m' S'. OSResumeThread sys terminated select t m =
       (if suspended S t = 1 \<and> resched S' \<noteq> 0 then do { m'' \<leftarrow> select m'; Some (suspended S t, m'') } else Some (suspended S t, m')) \<and>
     represents sys S' m' \<and> well_formed sys S' \<and>
     suspends t (if suspended S t = 0 then 0 else suspended S t - 1)
       (if suspended S t = 1 then state_after_resume terminated t (state S t) else state S t) S S'"
proof -
  have t0: "t \<noteq> 0" using t ok by (auto simp: system_ok_def)
  have pos: "0 \<le> sint (suspended S t)" "sint (suspended S t) = uint (suspended S t)"
    using suspended_more(2) [OF count] sint_small [of "suspended S t"] count by (simp_all add: word_less_def)
  consider (none) "suspended S t = 0" | (last) "suspended S t = 1" | (more) "1 < suspended S t"
    by (metis antisym_conv3 word_less_1 word_neq_0_conv)
  then show ?thesis
  proof cases
    case none
    from represents_writes(4) [OF ok rep t, of 0] obtain m1 where
      m1: "Write32 m (t + kThreadSuspendOffset) 0 = Some m1" "represents sys (S\<lparr>suspended := (suspended S)(t := 0)\<rparr>) m1" by blast
    have "well_formed sys (S\<lparr>suspended := (suspended S)(t := 0)\<rparr>)" using none by (intro suspended_well_formed [OF S]) simp
    then show ?thesis using none t0 m1
      by (intro exI [of _ m1] exI [of _ "S\<lparr>suspended := (suspended S)(t := 0)\<rparr>"])
        (auto simp: OSResumeThread_def represents_reads [OF rep] t suspends_def fun_eq_iff)
  next
    case last
    from represents_writes(4) [OF ok rep t, of 0] obtain m1 where
      m1: "Write32 m (t + kThreadSuspendOffset) 0 = Some m1" "represents sys (S\<lparr>suspended := (suspended S)(t := 0)\<rparr>) m1" by blast
    have "\<not> sint (suspended S t) < 1" "sint (0 :: u32) < 1" using last by simp_all
    from resume_body_refines [OF ok m1(2) S t free this] obtain m' S' where
      m': "resume_body sys terminated t m1 = Some m'" "represents sys S' m'" "well_formed sys S'"
        "suspends t 0 (state_after_resume terminated t (state S t)) S S'" by blast
    then show ?thesis using last t0 m1(1)
      by (intro exI [of _ m'] exI [of _ S'])
        (simp add: OSResumeThread_def represents_reads [OF rep] represents_reads [OF m'(2)] t)
  next
    case more
    let ?v = "suspended S t - 1"
    from represents_writes(4) [OF ok rep t, of ?v] obtain m1 where
      m1: "Write32 m (t + kThreadSuspendOffset) ?v = Some m1" "represents sys (S\<lparr>suspended := (suspended S)(t := ?v)\<rparr>) m1" by blast
    have u: "1 < uint (suspended S t)" using more by (simp add: word_less_def)
    then have v: "uint ?v = uint (suspended S t) - 1" by (simp add: uint_word_ariths) (use uint_lt2p [of "suspended S t"] in simp)
    have big: "?v < 0x80000000" using count v by (simp add: word_less_def)
    have nz: "suspended S t \<noteq> 0" "suspended S t \<noteq> 1" "?v \<noteq> 0" "\<not> sint (suspended S t) - 1 < 0"
      using u v pos by (auto simp: word_uint_eq_iff)
    have keeps: "sint ?v < 1 \<longleftrightarrow> sint (suspended S t) < 1" using u v pos(2) sint_small [OF big] by simp
    then have "well_formed sys (S\<lparr>suspended := (suspended S)(t := ?v)\<rparr>)" by (intro suspended_well_formed [OF S]) simp
    then show ?thesis using nz t0 m1
      by (intro exI [of _ m1] exI [of _ "S\<lparr>suspended := (suspended S)(t := ?v)\<rparr>"])
        (auto simp: OSResumeThread_def represents_reads [OF rep] t suspends_def fun_eq_iff keeps)
  qed
qed

end
