(* ===== verification/Os_Wake.thy ===== *)
theory Os_Wake
  imports Os_Suspend
begin

text \<open>
  Waking what waits in a queue, and the choice of the thread to run next (src/platform/os/os_scheduler.cpp).
  \<open>terminated\<close> are the threads whose host context is gone.
\<close>

definition ThreadStateIsTerminated :: "u16 \<Rightarrow> bool" where
  "ThreadStateIsTerminated st \<longleftrightarrow> st = 0 \<or> st = kThreadStateMoribund"

definition wake_thread :: "'a os_layout_scheme \<Rightarrow> u32 set \<Rightarrow> u32 \<Rightarrow> bool \<Rightarrow> gmem \<Rightarrow> (gmem \<times> bool) option" where
  "wake_thread lay terminated t again m = do {
     st \<leftarrow> Read16 m (t + kThreadStateOffset);
     if ThreadStateIsTerminated st \<or> t \<in> terminated then do {
       m \<leftarrow> Write32 m (t + kThreadQueueOffset) 0;
       m \<leftarrow> Write32 m (t + kThreadNextOffset) 0;
       m \<leftarrow> Write32 m (t + kThreadPrevOffset) 0;
       Some (m, again) }
     else do {
       m \<leftarrow> Write16 m (t + kThreadStateOffset) 1;
       suspend \<leftarrow> Read32 m (t + kThreadSuspendOffset);
       if sint suspend < 1 then do {
         p \<leftarrow> Read32 m (t + kThreadPriorityOffset);
         let p = (if sint p < 0 then 0 else if sint p > 31 then 31 else p);
         m \<leftarrow> LinkThreadOnRunQueue lay t p m;
         m \<leftarrow> MarkRunQueuePending lay p m;
         Some (m, True) }
       else Some (m, again) } }"

text \<open>At most so many; and whether a thread can run that could not before.\<close>

primrec wake_queue :: "'a os_layout_scheme \<Rightarrow> u32 set \<Rightarrow> u32 \<Rightarrow> nat \<Rightarrow> bool \<Rightarrow> gmem \<Rightarrow> (gmem \<times> bool) option" where
  "wake_queue lay terminated q 0 again m = Some (m, again)"
| "wake_queue lay terminated q (Suc n) again m = do {
     t \<leftarrow> Read32 m q;
     if t = 0 then Some (m, again)
     else do {
       (_, m) \<leftarrow> PopThreadQueueHead q t m;
       (m, again) \<leftarrow> wake_thread lay terminated t again m;
       wake_queue lay terminated q n again m } }"

definition kMaxWake :: nat where "kMaxWake = 256"

definition WakeupThreadQueue :: "'a os_layout_scheme \<Rightarrow> u32 set \<Rightarrow> (gmem \<Rightarrow> gmem option) \<Rightarrow> bool \<Rightarrow> u32 \<Rightarrow> gmem \<Rightarrow> gmem option" where
  "WakeupThreadQueue lay terminated select switch_now q m =
     (if q = 0 then Some m
      else do {
        (m, again) \<leftarrow> wake_queue lay terminated q kMaxWake False m;
        if switch_now \<and> again then select m else Some m })"

section \<open>The threads of a queue\<close>

definition wake_one :: "'a os_layout_scheme \<Rightarrow> u32 set \<Rightarrow> u32 \<Rightarrow> sched \<Rightarrow> sched" where
  "wake_one sys terminated t S =
     (if t \<in> terminated then S\<lparr>queued_on := (queued_on S)(t := 0)\<rparr>
      else let S1 = S\<lparr>state := (state S)(t := kThreadStateReady)\<rparr> in
        if sint (suspended S t) < 1 then (insert_thread sys (run_entry sys (prio S t)) t (prio S t) S1)\<lparr>resched := 1\<rparr> else S1)"

lemma run_members_prio:
  assumes ok: "system_ok sys" and S: "consistent_but sys gone X S" and p: "p < 32" and t: "t \<in> set (members S (run_entry sys p))"
  shows "prio S t = p"
proof -
  have "place_ok sys S (run_entry sys p) t" by (rule consistent_parts(1) [OF S run_entry_prio(1) [OF ok p] t])
  then have "prio S t < 32" "run_entry sys (of_nat (unat p)) = run_entry sys (of_nat (unat (prio S t)))"
    using run_entry_prio(2) [OF ok p] by (simp_all add: place_ok_def)
  then have "unat p = unat (prio S t)" using run_entry_inj [OF ok, of "unat p" "unat (prio S t)"] p by (simp add: word_less_nat_alt)
  then show ?thesis by (metis unsigned_word_eqI)
qed

lemma link_mark_insert:
  assumes ok: "system_ok sys" and S: "consistent_but sys gone X S" and p: "p < 32"
  shows "mark_run p (link_run sys t p S) = (insert_thread sys (run_entry sys p) t p S)\<lparr>resched := 1\<rparr>"
proof -
  let ?q = "run_entry sys p"
  have k: "unat p < 32" using p by (simp add: word_less_nat_alt)
  have "insert_by (prio S) p t (members S ?q) = members S ?q @ [t]"
    using run_members_prio [OF ok S p] by (intro insert_by_last) blast
  moreover have "run_bit sys ?q = push_bit (31 - unat p) 1" using run_bit_entry [OF ok k] by simp
  moreover have "unat (31 - p) = 31 - unat p" using k by (subst unat_sub) (simp_all add: word_le_nat_alt)
  ultimately show ?thesis using run_entry_prio(2) [OF ok p] by (simp add: mark_run_def link_run_def insert_thread_def)
qed

lemma clamp_small: "(p :: u32) < 32 \<Longrightarrow> (if sint p < 0 then 0 else if sint p > 31 then 31 else p) = p"
proof -
  assume p: "p < 32"
  then have "uint p < 32" "p < 0x80000000" by (simp_all add: word_less_def)
  then show ?thesis using sint_small [of p] by (simp add: not_less)
qed

lemma wake_thread_refines:
  assumes ok: "system_ok sys" and rep: "represents sys S m" and S: "consistent_but sys gone X S" and t: "t \<in> set (threads sys)" "unqueued sys t S"
    and waiting: "state S t = kThreadStateWaiting" and p: "sint (suspended S t) < 1 \<Longrightarrow> prio S t < 32"
    and X: "t \<in> X"
  shows "\<exists>m'. wake_thread sys terminated t r m = Some (m', r \<or> t \<notin> terminated \<and> sint (suspended S t) < 1) \<and>
     represents sys (wake_one sys terminated t S) m'"
proof (cases "t \<in> terminated")
  case True
  from represents_writes(6) [OF ok rep t(1), of 0] obtain m1 where
    m1: "Write32 m (t + kThreadQueueOffset) 0 = Some m1" "represents sys (wake_one sys terminated t S) m1"
    using True by (auto simp: wake_one_def)
  have t1: "unqueued sys t (wake_one sys terminated t S)" using t(2) True by (simp add: wake_one_def unqueued_def)
  from write_own_link [OF ok m1(2) t(1) t1, of kThreadNextOffset 0] obtain m2 where
    m2: "Write32 m1 (t + kThreadNextOffset) 0 = Some m2" "represents sys (wake_one sys terminated t S) m2" by blast
  from write_own_link [OF ok m2(2) t(1) t1, of kThreadPrevOffset 0] show ?thesis
    using m1(1) m2(1) True by (auto simp: wake_thread_def represents_reads [OF rep] t)
next
  case False
  have alive: "\<not> ThreadStateIsTerminated (state S t)" using waiting by (simp add: ThreadStateIsTerminated_def thread_states)
  define S1 where "S1 = S\<lparr>state := (state S)(t := kThreadStateReady)\<rparr>"
  from write_state [OF ok rep t(1), of kThreadStateReady] obtain m1 where
    m1: "Write16 m (t + kThreadStateOffset) 1 = Some m1" "represents sys S1 m1" by (auto simp: S1_def thread_states)
  note reads = represents_reads [OF m1(2)]
  have same: "suspended S1 = suspended S" "prio S1 = prio S" by (simp_all add: S1_def)
  show ?thesis
  proof (cases "sint (suspended S t) < 1")
    case run: True
    then have small: "prio S t < 32" by (rule p)
    then have k: "unat (prio S t) < 32" by (simp add: word_less_nat_alt)
    have t1: "unqueued sys t S1" using t(2) by (simp add: S1_def unqueued_def)
    have S1: "consistent_but sys gone X S1" by (rule agree_consistent [OF S]) (use X in \<open>auto simp: S1_def agree_def\<close>)
    from LinkThreadOnRunQueue_refines [OF ok m1(2) k t(1) t1] obtain m2 where
      m2: "LinkThreadOnRunQueue sys t (prio S t) m1 = Some m2" "represents sys (link_run sys t (prio S t) S1) m2" by auto
    from MarkRunQueuePending_refines [OF ok m2(2), of "prio S t"] obtain m3 where
      m3: "MarkRunQueuePending sys (prio S t) m2 = Some m3" "represents sys (mark_run (prio S t) (link_run sys t (prio S t) S1)) m3" by blast
    have "mark_run (prio S t) (link_run sys t (prio S t) S1) = wake_one sys terminated t S"
      using link_mark_insert [OF ok S1 small] run False by (simp add: wake_one_def S1_def Let_def)
    then show ?thesis
      using False alive run m1(1) m2(1) m3 clamp_small [OF small]
      by (simp add: wake_thread_def represents_reads [OF rep] t reads same Let_def)
  next
    case still: False
    then show ?thesis using False alive m1
      by (auto simp: wake_thread_def represents_reads [OF rep] t reads same wake_one_def S1_def Let_def)
  qed
qed

section \<open>A queue woken\<close>

lemma pop_consistent:
  assumes ok: "system_ok sys" and lists: "lists_ok (queues sys) (threads sys) (members S)" and S: "consistent sys gone S"
    and q: "q \<in> set (queues sys)" "\<not> is_run_queue sys q" and at: "members S q = t # ts"
  shows "consistent_but sys gone {t} (S\<lparr>members := (members S)(q := ts)\<rparr>)" "unqueued sys t (S\<lparr>members := (members S)(q := ts)\<rparr>)"
    "state S t = kThreadStateWaiting" "t \<in> set (threads sys)"
proof -
  have place: "place_ok sys S q t" by (rule consistent_parts(1) [OF S q(1)]) (simp add: at)
  then have on: "queued_on S t = q" "state S t = kThreadStateWaiting" using q(2) by (simp_all add: place_ok_def)
  show "state S t = kThreadStateWaiting" by (rule on)
  show t: "t \<in> set (threads sys)" using lists q(1) at unfolding lists_ok_def by (metis list.set_intros(1) subsetD)
  have q0: "q \<noteq> 0" by (rule queue_not_zero [OF ok q(1)])
  have "well_placed sys t S" using on q at by (simp add: well_placed_def)
  from remove_consistent [OF ok lists S t this]
  have "consistent_but sys gone {t} (S\<lparr>members := (members S)(q := ts), queued_on := (queued_on S)(t := 0)\<rparr>)"
    using on q q0 at by (simp add: remove_thread_def unpend_def Let_def)
  then show c: "consistent_but sys gone {t} (S\<lparr>members := (members S)(q := ts)\<rparr>)"
    by (rule agree_consistent) (simp add: agree_def)
  show "unqueued sys t (S\<lparr>members := (members S)(q := ts)\<rparr>)" using c by (simp add: consistent_but_def)
qed

lemma wake_one_well_formed:
  assumes ok: "system_ok sys" and S: "consistent_but sys {} {t} S" "references_ok sys S" "priorities_ok sys S" "states_ok sys S" "settled sys S"
    and t: "t \<in> set (threads sys)" and waiting: "state S t = kThreadStateWaiting"
  shows "well_formed sys (wake_one sys terminated t S)" "settled sys (wake_one sys terminated t S)"
proof -
  have small: "sint (suspended S t) < 1 \<Longrightarrow> prio S t < 32" using S(5) t waiting by (simp add: settled_def)
  have "consistent sys {} (wake_one sys terminated t S)"
  proof (cases "t \<in> terminated")
    case True
    have "consistent_but sys {} {t} (wake_one sys terminated t S)"
      by (rule agree_consistent [OF S(1)]) (use True in \<open>simp add: wake_one_def agree_def\<close>)
    moreover have "thread_ok sys {} (wake_one sys terminated t S) t" using True waiting by (simp add: wake_one_def thread_ok_def thread_states)
    ultimately show ?thesis using leave_consistent [of sys "{}" "{t}"] by fastforce
  next
    case False
    define S1 where "S1 = S\<lparr>state := (state S)(t := kThreadStateReady)\<rparr>"
    have S1: "consistent_but sys {} {t} S1" by (rule agree_consistent [OF S(1)]) (simp add: S1_def agree_def)
    show ?thesis
    proof (cases "sint (suspended S t) < 1")
      case True
      have "consistent sys {} (insert_thread sys (run_entry sys (prio S t)) t (prio S t) S1)"
        using insert_consistent [OF ok S1 _ t run_entry_prio(1) [OF ok small [OF True]]] small [OF True] True run_entry_prio(2) [OF ok small [OF True]]
        by (simp add: S1_def)
      then show ?thesis
        by (rule consistent_same) (use True False in \<open>simp add: wake_one_def S1_def agree_def Let_def\<close>)
    next
      case still: False
      then have "thread_ok sys {} S1 t" by (simp add: thread_ok_def S1_def thread_states)
      from leave_consistent [OF S1 this] show ?thesis using False still by (simp add: wake_one_def S1_def Let_def)
    qed
  qed
  then show "well_formed sys (wake_one sys terminated t S)"
    using S by (auto simp: well_formed_def references_ok_def priorities_ok_def states_ok_def wake_one_def Let_def)
  show "settled sys (wake_one sys terminated t S)"
    using S(5) by (auto simp: settled_def wake_one_def Let_def thread_states)
qed

text \<open>What waking these threads of a queue comes to.\<close>

definition woken :: "os_system \<Rightarrow> u32 set \<Rightarrow> u32 list \<Rightarrow> sched \<Rightarrow> sched \<Rightarrow> bool" where
  "woken sys terminated ts S S' \<longleftrightarrow>
     (\<forall>u. state S' u = (if u \<in> set ts \<and> u \<notin> terminated then kThreadStateReady else state S u)) \<and>
     (\<forall>k<32. members S' (run_entry sys (of_nat k)) = members S (run_entry sys (of_nat k)) @
       filter (\<lambda>u. u \<notin> terminated \<and> sint (suspended S u) < 1 \<and> prio S u = of_nat k) ts) \<and>
     suspended S' = suspended S \<and> prio S' = prio S \<and> blocked_on S' = blocked_on S \<and> owner S' = owner S \<and> base_prio S' = base_prio S \<and>
     held S' = held S \<and> lock_count S' = lock_count S \<and> running S' = running S"

lemma woken_Nil: "woken sys terminated [] S S"
  by (simp add: woken_def)

lemma woken_append: "woken sys terminated ts S S1 \<Longrightarrow> woken sys terminated us S1 S2 \<Longrightarrow> woken sys terminated (ts @ us) S S2"
  unfolding woken_def by auto

lemma wake_one_woken:
  fixes terminated :: "u32 set"
  assumes ok: "system_ok sys" and S: "consistent_but sys gone {t} (S\<lparr>members := (members S)(q := ts)\<rparr>)" and q: "\<not> is_run_queue sys q"
    and small: "sint (suspended S t) < 1 \<Longrightarrow> prio S t < 32"
  defines "S2 \<equiv> wake_one sys terminated t (S\<lparr>members := (members S)(q := ts)\<rparr>)"
  shows "woken sys terminated [t] S S2" "members S2 q = ts"
proof -
  define S1 where "S1 = S\<lparr>members := (members S)(q := ts)\<rparr>"
  have other: "run_entry sys (of_nat k) \<noteq> q" if "k < 32" for k using q is_run_queue_iff [OF ok] that by blast
  show "members S2 q = ts"
  proof (cases "t \<notin> terminated \<and> sint (suspended S t) < 1")
    case True
    have "run_entry sys (prio S t) \<noteq> q" using run_entry_prio(2) [OF ok small] True q by metis
    then show ?thesis using True by (simp add: S2_def wake_one_def Let_def)
  qed (auto simp: S2_def wake_one_def Let_def)
  have "members S2 (run_entry sys (of_nat k)) = members S (run_entry sys (of_nat k)) @
       filter (\<lambda>u. u \<notin> terminated \<and> sint (suspended S u) < 1 \<and> prio S u = of_nat k) [t]" if k: "k < 32" for k
  proof (cases "t \<notin> terminated \<and> sint (suspended S t) < 1")
    case True
    then have p: "prio S t < 32" by (intro small) simp
    have "prio S1 = prio S" by (simp add: S1_def)
    then have "insert_by (prio S) (prio S t) t (members S1 (run_entry sys (prio S t))) = members S1 (run_entry sys (prio S t)) @ [t]"
      using run_members_prio [OF ok S [folded S1_def] p] by (intro insert_by_last) metis
    moreover have "run_entry sys (of_nat k) = run_entry sys (prio S t) \<longleftrightarrow> prio S t = of_nat k"
    proof -
      have n: "unat (prio S t) < 32" using p by (simp add: word_less_nat_alt)
      have "run_entry sys (of_nat k) = run_entry sys (prio S t) \<longleftrightarrow> k = unat (prio S t)"
        using run_entry_inj [OF ok k n] by simp
      also have "\<dots> \<longleftrightarrow> prio S t = of_nat k"
      proof
        assume "prio S t = of_nat k"
        then show "k = unat (prio S t)" using k by (simp add: unat_of_nat_u32)
      qed simp
      finally show ?thesis .
    qed
    moreover have "members S2 = (members S1)(run_entry sys (prio S t) := insert_by (prio S) (prio S t) t (members S1 (run_entry sys (prio S t))))"
      using True by (simp add: S2_def wake_one_def Let_def S1_def)
    moreover have "members S1 (run_entry sys (of_nat k)) = members S (run_entry sys (of_nat k))" using other [OF k] by (simp add: S1_def)
    ultimately show ?thesis using True by (cases "prio S t = of_nat k") simp_all
  next
    case False
    then have "members S2 = (members S)(q := ts)" unfolding S2_def wake_one_def by (cases "t \<in> terminated") (simp_all add: Let_def)
    moreover have "filter (\<lambda>u. u \<notin> terminated \<and> sint (suspended S u) < 1 \<and> prio S u = of_nat k) [t] = []" using False by auto
    ultimately show ?thesis using other [OF k] by (simp only: fun_upd_apply if_False append_Nil2)
  qed
  then show "woken sys terminated [t] S S2"
    by (auto simp: woken_def S2_def wake_one_def Let_def)
qed

lemma wake_queue_refines:
  assumes ok: "system_ok sys" and q: "q \<in> set (queues sys)" "\<not> is_run_queue sys q"
  shows "represents sys S m \<Longrightarrow> well_formed sys S \<Longrightarrow> settled sys S \<Longrightarrow>
    \<exists>m' S'. wake_queue sys terminated q n r m =
        Some (m', r \<or> list_ex (\<lambda>u. u \<notin> terminated \<and> sint (suspended S u) < 1) (take n (members S q))) \<and>
      represents sys S' m' \<and> well_formed sys S' \<and> settled sys S' \<and> members S' q = drop n (members S q) \<and>
      woken sys terminated (take n (members S q)) S S'"
proof (induction n arbitrary: S m r)
  case 0
  then show ?case using woken_Nil by auto
next
  case (Suc n)
  note rep = Suc.prems(1)
  note head = queue_head [OF rep q(1)]
  show ?case
  proof (cases "members S q")
    case Nil
    then show ?thesis using Suc.prems head woken_Nil by auto
  next
    case (Cons t ts)
    define S1 where "S1 = S\<lparr>members := (members S)(q := ts)\<rparr>"
    have parts: "consistent sys {} S" "references_ok sys S" "priorities_ok sys S" "states_ok sys S"
      using Suc.prems(2) by (simp_all add: well_formed_def)
    note pop = pop_consistent [OF ok represents_lists_ok [OF rep] parts(1) q Cons, folded S1_def]
    have t0: "t \<noteq> 0" using pop(4) ok by (auto simp: system_ok_def)
    have more: "references_ok sys S1" "priorities_ok sys S1" "states_ok sys S1" "settled sys S1"
      using parts Suc.prems(3) by (simp_all add: S1_def references_ok_def priorities_ok_def states_ok_def settled_def)
    have waiting: "state S1 t = kThreadStateWaiting" using pop(3) by (simp add: S1_def)
    have small: "sint (suspended S1 t) < 1 \<Longrightarrow> prio S1 t < 32" using more(4) pop(4) waiting by (simp add: settled_def)
    from PopThread_refines [OF ok rep q(1) Cons] obtain m1 where
      m1: "PopThreadQueueHead q t m = Some (hd (ts @ [0]), m1)" "represents sys S1 m1" by (auto simp: S1_def)
    from wake_thread_refines [OF ok m1(2) pop(1) pop(4) pop(2) waiting small] obtain m2 where
      m2: "wake_thread sys terminated t r m1 = Some (m2, r \<or> t \<notin> terminated \<and> sint (suspended S1 t) < 1)"
        "represents sys (wake_one sys terminated t S1) m2" by blast
    note wf = wake_one_well_formed [OF ok pop(1) more pop(4) waiting]
    have one: "woken sys terminated [t] S (wake_one sys terminated t S1)" "members (wake_one sys terminated t S1) q = ts"
      using wake_one_woken [OF ok pop(1) [unfolded S1_def] q(2)] small by (simp_all add: S1_def)
    from Suc.IH [OF m2(2) wf, of "r \<or> t \<notin> terminated \<and> sint (suspended S1 t) < 1"] obtain m' S' where
      m': "wake_queue sys terminated q n (r \<or> t \<notin> terminated \<and> sint (suspended S1 t) < 1) m2 = Some (m',
          (r \<or> t \<notin> terminated \<and> sint (suspended S1 t) < 1) \<or>
          list_ex (\<lambda>u. u \<notin> terminated \<and> sint (suspended (wake_one sys terminated t S1) u) < 1) (take n ts))"
        "represents sys S' m'" "well_formed sys S'" "settled sys S'" "members S' q = drop n ts"
        "woken sys terminated (take n ts) (wake_one sys terminated t S1) S'"
      unfolding one(2) by blast
    have same: "suspended (wake_one sys terminated t S1) = suspended S" "suspended S1 = suspended S"
      using one(1) by (simp_all add: woken_def S1_def)
    have "wake_queue sys terminated q (Suc n) r m = Some (m', r \<or>
       list_ex (\<lambda>u. u \<notin> terminated \<and> sint (suspended S u) < 1) (take (Suc n) (members S q)))"
      using m1(1) m2(1) [unfolded same] m'(1) [unfolded same] head t0 Cons by (simp add: disj_assoc)
    moreover have "woken sys terminated (take (Suc n) (members S q)) S S'"
      using woken_append [OF one(1) m'(6)] Cons by simp
    ultimately show ?thesis
      using m'(2-5) Cons by (intro exI [of _ m'] exI [of _ S']) simp
  qed
qed

text \<open>
  Everyone who waited in the queue, and up to 256 of them, is out of it and ready; who is not suspended is at the end
  of the run queue of its priority, in the order they waited in.
\<close>

lemma WakeupThreadQueue_refines:
  assumes ok: "system_ok sys" and q: "q \<in> set (queues sys)" "\<not> is_run_queue sys q"
    and rep: "represents sys S m" and S: "well_formed sys S" "settled sys S"
  shows "\<exists>m' S'. WakeupThreadQueue sys terminated select switch_now q m =
      (if switch_now \<and> list_ex (\<lambda>u. u \<notin> terminated \<and> sint (suspended S u) < 1) (take 256 (members S q)) then select m' else Some m') \<and>
    represents sys S' m' \<and> well_formed sys S' \<and> settled sys S' \<and> members S' q = drop 256 (members S q) \<and>
    woken sys terminated (take 256 (members S q)) S S'"
proof -
  have "q \<noteq> 0" by (rule queue_not_zero [OF ok q(1)])
  moreover obtain m' S' where m': "wake_queue sys terminated q kMaxWake False m =
        Some (m', list_ex (\<lambda>u. u \<notin> terminated \<and> sint (suspended S u) < 1) (take 256 (members S q)))"
      "represents sys S' m'" "well_formed sys S'" "settled sys S'" "members S' q = drop 256 (members S q)"
      "woken sys terminated (take 256 (members S q)) S S'"
    using wake_queue_refines [OF ok q rep S, of terminated kMaxWake False] unfolding kMaxWake_def simp_thms by blast
  ultimately show ?thesis
    by (intro exI [of _ m'] exI [of _ S']) (simp only: WakeupThreadQueue_def m' if_False bind.bind_lunit case_prod_conv simp_thms)
qed

section \<open>The thread to run next\<close>

definition PPC_Cntlzw :: "u32 \<Rightarrow> u32" where
  "PPC_Cntlzw w = of_nat (length (takeWhile (\<lambda>k. \<not> bit w (31 - k)) [0..<32]))"

definition pick_step :: "'a os_layout_scheme \<Rightarrow> u32 set \<Rightarrow> u32 \<times> gmem \<Rightarrow> ((u32 \<times> u32 \<times> u32) option \<times> gmem + u32 \<times> gmem) option" where
  "pick_step lay terminated = (\<lambda>(mask, m). do {
     let p = PPC_Cntlzw mask;
     t \<leftarrow> Read32 m (run_entry lay p);
     if t = 0 then do {
       m \<leftarrow> Write32 m (run_queue_bits lay) (mask AND NOT (push_bit (unat (31 - p)) 1));
       mask \<leftarrow> Read32 m (run_queue_bits lay);
       if mask = 0 then Some (Inl (None, m)) else Some (Inr (mask, m)) }
     else do {
       st \<leftarrow> Read16 m (t + kThreadStateOffset);
       if ThreadStateIsTerminated st \<or> t \<in> terminated then do {
         m \<leftarrow> RemoveThreadFromQueue lay t m;
         mask \<leftarrow> Read32 m (run_queue_bits lay);
         if mask = 0 then Some (Inl (None, m)) else Some (Inr (mask, m)) }
       else Some (Inl (Some (p, t, mask), m)) } })"

text \<open>
  The choice itself, in \<open>SelectThread\<close> (the theory \<open>Os_Select\<close> has the function around it): from the
  clearing of the counter to the thread's new state. The result is the thread, or zero.
\<close>

definition pick_thread :: "'a os_layout_scheme \<Rightarrow> u32 set \<Rightarrow> gmem \<Rightarrow> (u32 \<times> gmem) option" where
  "pick_thread lay terminated m = do {
     m \<leftarrow> Write32 m (reschedule lay) 0;
     mask \<leftarrow> Read32 m (run_queue_bits lay);
     if mask = 0 then Some (0, m)
     else do {
       (found, m) \<leftarrow> loop (pick_step lay terminated) (mask, m);
       case found of None \<Rightarrow> Some (0, m)
       | Some (p, t, mask) \<Rightarrow> do {
           (next, m) \<leftarrow> PopThreadQueueHead (run_entry lay p) t m;
           m \<leftarrow> (if next = 0 then Write32 m (run_queue_bits lay) (mask AND NOT (push_bit (unat (31 - p)) 1)) else Some m);
           m \<leftarrow> Write32 m (t + kThreadQueueOffset) 0;
           m \<leftarrow> Write16 m (t + kThreadStateOffset) kThreadStateRunning;
           Some (t, m) } } }"

lemma Cntlzw_first:
  assumes "w \<noteq> 0"
  obtains k where "k < 32" "PPC_Cntlzw w = of_nat k" "bit w (31 - k)" "\<And>j. j < k \<Longrightarrow> \<not> bit w (31 - j)"
proof -
  let ?P = "\<lambda>k. \<not> bit w (31 - k)"
  define k where "k = length (takeWhile ?P [0..<32])"
  have some: "\<exists>j<32. bit w (31 - j)"
  proof (rule ccontr)
    assume none: "\<not> ?thesis"
    have "\<not> bit w n" for n
    proof (cases "n < 32")
      case True
      then have "31 - (31 - n) = n" "31 - n < 32" by simp_all
      then show ?thesis using none by metis
    qed (use bit_imp_le_length [of w n] in auto)
    then show False using assms by (simp add: bit_eq_iff)
  qed
  have k: "k < 32"
  proof (rule ccontr)
    assume "\<not> k < 32"
    moreover have "k \<le> 32" unfolding k_def using length_takeWhile_le [of ?P "[0..<32]"] by simp
    ultimately have "length (takeWhile ?P [0..<32]) = length [0..<32]" unfolding k_def by simp
    then have "takeWhile ?P [0..<32] = [0..<32]" by (metis append_Nil2 length_append list.size(3) add_left_cancel add_0_right length_0_conv takeWhile_dropWhile_id)
    then have "\<forall>j \<in> set [0..<32]. ?P j" by (simp only: takeWhile_eq_all_conv)
    then show False using some by force
  qed
  have "\<not> ?P ([0..<32] ! k)" unfolding k_def by (rule nth_length_takeWhile) (use k in \<open>simp add: k_def\<close>)
  then have "bit w (31 - k)" using k by simp
  moreover have "?P j" if "j < k" for j
  proof -
    have "j \<in> set (takeWhile ?P [0..<32])"
      using that k takeWhile_nth [of j ?P "[0..<32]"] nth_mem [of j "takeWhile ?P [0..<32]"] unfolding k_def by simp
    then show ?thesis by (rule set_takeWhileD [THEN conjunct2])
  qed
  ultimately show thesis using that k unfolding PPC_Cntlzw_def k_def by metis
qed

text \<open>The thread at the front of the most urgent run queue is the one.\<close>

definition run_thread :: "'a os_layout_scheme \<Rightarrow> u32 \<Rightarrow> sched \<Rightarrow> sched" where
  "run_thread sys t S = (remove_thread sys t S)\<lparr>resched := 0, state := (state S)(t := kThreadStateRunning)\<rparr>"

lemma run_thread_well_formed:
  assumes ok: "system_ok sys" and rep: "represents sys S m" and S: "well_formed sys S" "settled sys S" and t: "t \<in> set (threads sys)" "well_placed sys t S"
  shows "well_formed sys (run_thread sys t S)" "settled sys (run_thread sys t S)"
proof -
  have parts: "consistent sys {} S" using S by (simp add: well_formed_def)
  have "consistent_but sys {} {t} (remove_thread sys t S)"
    using remove_consistent [OF ok represents_lists_ok [OF rep] parts t] by simp
  then have "consistent_but sys {} {t} (run_thread sys t S)"
    by (rule agree_consistent) (simp add: agree_def run_thread_def)
  moreover have "thread_ok sys {} (run_thread sys t S) t" by (simp add: thread_ok_def run_thread_def thread_states)
  ultimately have "consistent sys {} (run_thread sys t S)" using leave_consistent [of sys "{}" "{t}"] by fastforce
  then show "well_formed sys (run_thread sys t S)"
    using S by (auto simp: well_formed_def references_ok_def priorities_ok_def states_ok_def run_thread_def)
  show "settled sys (run_thread sys t S)" using S(2) by (auto simp: settled_def run_thread_def thread_states)
qed

text \<open>A thread that can run; and the run queue the pending mask names first, whose first thread none that can run is
  more urgent than.\<close>

definition awake :: "os_system \<Rightarrow> sched \<Rightarrow> u32 \<Rightarrow> bool" where
  "awake sys S t \<longleftrightarrow> t \<in> set (threads sys) \<and> state S t = kThreadStateReady \<and> sint (suspended S t) < 1"

lemma awake_queued: "consistent sys {} S \<Longrightarrow> awake sys S t \<Longrightarrow> prio S t < 32 \<and> t \<in> set (members S (run_entry sys (prio S t)))"
  using consistent_parts(2) [of sys "{}" "{}" S t] by (simp add: awake_def thread_ok_def)

lemma awake_pending:
  assumes S: "consistent sys {} S" and u: "awake sys S u"
  shows "unat (prio S u) < 32" "bit (pending S) (31 - unat (prio S u))"
proof -
  have p: "prio S u < 32" "members S (run_entry sys (of_nat (unat (prio S u)))) \<noteq> []" using awake_queued [OF S u] by auto
  then show l: "unat (prio S u) < 32" by (simp add: word_less_nat_alt)
  show "bit (pending S) (31 - unat (prio S u))" using consistent_parts(4) [OF S] l p(2) by (simp add: mask_ok_def)
qed

lemma most_urgent_queue:
  assumes ok: "system_ok sys" and rep: "represents sys S m" and S: "consistent sys {} S" and some: "pending S \<noteq> 0"
  obtains k t ts where "k < 32" "PPC_Cntlzw (pending S) = of_nat k" "members S (run_entry sys (of_nat k)) = t # ts"
    "awake sys S t" "queued_on S t = run_entry sys (of_nat k)" "prio S t = of_nat k"
    "\<And>u. awake sys S u \<Longrightarrow> prio S t \<le> prio S u"
proof -
  note mask = consistent_parts(4) [OF S]
  obtain k where k: "k < 32" "PPC_Cntlzw (pending S) = of_nat k" "bit (pending S) (31 - k)" "\<And>j. j < k \<Longrightarrow> \<not> bit (pending S) (31 - j)"
    using Cntlzw_first [OF some] by blast
  define q where "q = run_entry sys (of_nat k)"
  obtain t ts where at: "members S q = t # ts" using mask k by (cases "members S q") (auto simp: mask_ok_def q_def)
  have q: "q \<in> set (queues sys)" "is_run_queue sys q" unfolding q_def using run_entry_queue [OF ok k(1)] is_run_queue_iff [OF ok] k(1) by auto
  have "place_ok sys S q t" by (rule consistent_parts(1) [OF S q(1)]) (simp add: at)
  moreover have "t \<in> set (threads sys)" using represents_lists(3) [OF rep q(1)] at by simp
  ultimately have t: "awake sys S t" "queued_on S t = q" using q(2) by (simp_all add: place_ok_def awake_def)
  have "(of_nat k :: u32) < 32" using k(1) by (simp add: word_less_nat_alt unat_of_nat_u32)
  then have prio: "prio S t = of_nat k" by (rule run_members_prio [OF ok S]) (simp add: at flip: q_def)
  have first: "prio S t \<le> prio S u" if u: "awake sys S u" for u
  proof -
    have "k \<le> unat (prio S u)" using awake_pending [OF S u] k(4) [of "unat (prio S u)"] by (meson not_less)
    then show ?thesis unfolding prio word_le_nat_alt using k(1) by (simp add: unat_of_nat_u32)
  qed
  show thesis using that [OF k(1,2) at [unfolded q_def] t [unfolded q_def] prio first] .
qed

lemma none_awake: "consistent sys {} S \<Longrightarrow> pending S = 0 \<Longrightarrow> \<not> awake sys S u"
  using awake_pending(2) [of sys S u] by auto

lemma pick_thread_runs:
  assumes ok: "system_ok sys" and rep: "represents sys S m" and S: "well_formed sys S" "settled sys S"
    and alive: "\<And>t. t \<in> terminated \<Longrightarrow> state S t \<noteq> kThreadStateReady" and some: "pending S \<noteq> 0"
  shows "\<exists>t ts m'. awake sys S t \<and> (\<forall>u. awake sys S u \<longrightarrow> prio S t \<le> prio S u) \<and>
       members S (run_entry sys (prio S t)) = t # ts \<and>
       pick_thread sys terminated m = Some (t, m') \<and> represents sys (run_thread sys t S) m' \<and>
       well_formed sys (run_thread sys t S) \<and> settled sys (run_thread sys t S)"
proof -
  have parts: "consistent sys {} S" using S by (simp add: well_formed_def)
  define S0 where "S0 = S\<lparr>resched := 0\<rparr>"
  from represents_writes(2) [OF ok rep, of 0] obtain m0 where
    m0: "Write32 m (reschedule sys) 0 = Some m0" "represents sys S0 m0" by (auto simp: S0_def)
  obtain k t ts where k: "k < 32" "PPC_Cntlzw (pending S) = of_nat k" and at: "members S (run_entry sys (of_nat k)) = t # ts"
    and t: "awake sys S t" "queued_on S t = run_entry sys (of_nat k)" and prio: "prio S t = of_nat k"
    and first: "\<And>u. awake sys S u \<Longrightarrow> prio S t \<le> prio S u"
    using most_urgent_queue [OF ok rep parts some] by blast
  define q where "q = run_entry sys (of_nat k)"
  note at = at [folded q_def] and t = t [folded q_def]
  have thread: "t \<in> set (threads sys)" "state S t = kThreadStateReady" using t(1) by (simp_all add: awake_def)
  have q: "q \<in> set (queues sys)" "is_run_queue sys q" unfolding q_def using run_entry_queue [OF ok k(1)] is_run_queue_iff [OF ok] k(1) by auto
  have t0: "t \<noteq> 0" using thread ok by (auto simp: system_ok_def)
  have placed: "well_placed sys t S" using t(2) q(1) at by (simp add: well_placed_def)
  note reads0 = represents_reads [OF m0(2)]
  have head: "Read32 m0 q = Some t" using queue_head [OF m0(2) q(1)] at by (simp add: S0_def)
  have "t \<notin> terminated" using alive thread(2) by blast
  then have "pick_step sys terminated (pending S, m0) = Some (Inl (Some (of_nat k, t, pending S), m0))"
    using thread(2) t0 reads0(4) [OF thread(1)] head
    by (simp add: pick_step_def k(2) Let_def ThreadStateIsTerminated_def S0_def thread_states flip: q_def)
  then have found: "loop (pick_step sys terminated) (pending S, m0) = Some (Some (of_nat k, t, pending S), m0)"
    by (simp add: loop_Inl)
  have "members S0 q = t # ts" by (simp add: S0_def at)
  from PopThread_refines [OF ok m0(2) q(1) this] obtain m1 where
    m1: "PopThreadQueueHead q t m0 = Some (hd (ts @ [0]), m1)" "represents sys (S0\<lparr>members := (members S)(q := ts)\<rparr>) m1"
    by (auto simp: S0_def)
  have empty: "hd (ts @ [0]) = 0 \<longleftrightarrow> ts = []"
    using queue_head_zero [OF ok m1(2) q(1)] by (simp add: S0_def)
  have bit: "push_bit (unat (31 - of_nat k :: u32)) 1 = run_bit sys q"
    using run_bit_entry [OF ok k(1)] k(1) unfolding q_def by (subst unat_sub) (simp_all add: word_le_nat_alt unat_of_nat_u32)
  define S2 where "S2 = unpend sys q (S0\<lparr>members := (members S)(q := ts)\<rparr>)"
  obtain m2 where m2: "(if hd (ts @ [0]) = 0 then Write32 m1 (run_queue_bits sys) (pending S AND NOT (push_bit (unat (31 - of_nat k :: u32)) 1)) else Some m1) = Some m2"
    "represents sys S2 m2"
    using represents_writes(1) [OF ok m1(2), of "pending S AND NOT (run_bit sys q)"] m1(2) q(2)
    unfolding empty bit S2_def unpend_def by (cases "ts = []") (auto simp: S0_def)
  from represents_writes(6) [OF ok m2(2) thread(1), of 0] obtain m3 where
    m3: "Write32 m2 (t + kThreadQueueOffset) 0 = Some m3" "represents sys (S2\<lparr>queued_on := (queued_on S2)(t := 0)\<rparr>) m3" by blast
  from write_state [OF ok m3(2) thread(1), of kThreadStateRunning] obtain m4 where
    m4: "Write16 m3 (t + kThreadStateOffset) kThreadStateRunning = Some m4"
      "represents sys (S2\<lparr>queued_on := (queued_on S2)(t := 0), state := (state S2)(t := kThreadStateRunning)\<rparr>) m4" by auto
  have "S2\<lparr>queued_on := (queued_on S2)(t := 0), state := (state S2)(t := kThreadStateRunning)\<rparr> = run_thread sys t S"
    using t(2) at queue_not_zero [OF ok q(1)] by (simp add: S2_def S0_def run_thread_def remove_thread_def unpend_def Let_def)
  moreover have "pick_thread sys terminated m = Some (t, m4)"
    using m0(1) reads0(1) some found m1(1) m2(1) m3(1) m4(1) by (simp add: pick_thread_def S0_def flip: q_def)
  ultimately show ?thesis
    using m4(2) run_thread_well_formed [OF ok rep S thread(1) placed] t(1) first at prio
    by (intro exI [of _ t] exI [of _ ts] exI [of _ m4]) (simp add: q_def)
qed

lemma pick_thread_picks:
  assumes ok: "system_ok sys" and rep: "represents sys S m" and S: "well_formed sys S" "settled sys S"
    and alive: "\<And>t. t \<in> terminated \<Longrightarrow> state S t \<noteq> kThreadStateReady"
  shows "(\<exists>m'. pick_thread sys terminated m = Some (0, m') \<and> represents sys (S\<lparr>resched := 0\<rparr>) m') \<or>
     (\<exists>t m'. pick_thread sys terminated m = Some (t, m') \<and> represents sys (run_thread sys t S) m' \<and>
       well_formed sys (run_thread sys t S) \<and> settled sys (run_thread sys t S))"
proof (cases "pending S = 0")
  case True
  from represents_writes(2) [OF ok rep, of 0] obtain m0 where
    m0: "Write32 m (reschedule sys) 0 = Some m0" "represents sys (S\<lparr>resched := 0\<rparr>) m0" by blast
  then have "pick_thread sys terminated m = Some (0, m0)"
    using True represents_reads(1) [OF m0(2)] by (simp add: pick_thread_def)
  then show ?thesis using m0(2) by blast
qed (use pick_thread_runs [OF ok rep S alive] in blast)

end
