(* ===== verification/Os_Message.thy ===== *)
theory Os_Message
  imports Os_Wake
begin

text \<open>
  Message queues (src/platform/os/os_message.cpp): a ring of words in guest memory, with a queue of the threads that
  wait to send and one of those that wait to receive. An access violation ends the call in the code, and is
  \<open>None\<close> here. \<open>wake\<close> and \<open>sleep\<close> are the system calls of those names, on the address of a thread queue.
\<close>

definition kMsgQueueSendOffset :: u32 where "kMsgQueueSendOffset = 0x00"
definition kMsgQueueRecvOffset :: u32 where "kMsgQueueRecvOffset = 0x08"
definition kMsgQueueArrayOffset :: u32 where "kMsgQueueArrayOffset = 0x10"
definition kMsgQueueCountOffset :: u32 where "kMsgQueueCountOffset = 0x14"
definition kMsgQueueFirstOffset :: u32 where "kMsgQueueFirstOffset = 0x18"
definition kMsgQueueUsedOffset :: u32 where "kMsgQueueUsedOffset = 0x1C"

definition InitMessageQueue :: "u32 \<Rightarrow> u32 \<Rightarrow> u32 \<Rightarrow> gmem \<Rightarrow> gmem option" where
  "InitMessageQueue q arr count m =
     (if q = 0 then Some m
      else do {
        m \<leftarrow> Write32 m (q + kMsgQueueSendOffset) 0;
        m \<leftarrow> Write32 m (q + kMsgQueueSendOffset + 4) 0;
        m \<leftarrow> Write32 m (q + kMsgQueueRecvOffset) 0;
        m \<leftarrow> Write32 m (q + kMsgQueueRecvOffset + 4) 0;
        m \<leftarrow> Write32 m (q + kMsgQueueArrayOffset) arr;
        m \<leftarrow> Write32 m (q + kMsgQueueCountOffset) count;
        m \<leftarrow> Write32 m (q + kMsgQueueFirstOffset) 0;
        Write32 m (q + kMsgQueueUsedOffset) 0 })"

definition MsgQueueIsFull :: "u32 \<Rightarrow> gmem \<Rightarrow> bool option" where
  "MsgQueueIsFull q m = do {
     used \<leftarrow> Read32 m (q + kMsgQueueUsedOffset);
     count \<leftarrow> Read32 m (q + kMsgQueueCountOffset);
     Some (count \<noteq> 0 \<and> used \<ge> count) }"

definition MsgQueueIsEmpty :: "u32 \<Rightarrow> gmem \<Rightarrow> bool option" where
  "MsgQueueIsEmpty q m = do { used \<leftarrow> Read32 m (q + kMsgQueueUsedOffset); Some (used = 0) }"

definition MsgQueueEnqueue :: "u32 \<Rightarrow> u32 \<Rightarrow> gmem \<Rightarrow> gmem option" where
  "MsgQueueEnqueue q msg m = do {
     arr \<leftarrow> Read32 m (q + kMsgQueueArrayOffset);
     count \<leftarrow> Read32 m (q + kMsgQueueCountOffset);
     first \<leftarrow> Read32 m (q + kMsgQueueFirstOffset);
     used \<leftarrow> Read32 m (q + kMsgQueueUsedOffset);
     if count = 0 then Some m
     else do {
       m \<leftarrow> Write32 m (arr + (first + used) mod count * 4) msg;
       Write32 m (q + kMsgQueueUsedOffset) (used + 1) } }"

definition MsgQueueJam :: "u32 \<Rightarrow> u32 \<Rightarrow> gmem \<Rightarrow> gmem option" where
  "MsgQueueJam q msg m = do {
     arr \<leftarrow> Read32 m (q + kMsgQueueArrayOffset);
     count \<leftarrow> Read32 m (q + kMsgQueueCountOffset);
     first \<leftarrow> Read32 m (q + kMsgQueueFirstOffset);
     used \<leftarrow> Read32 m (q + kMsgQueueUsedOffset);
     if count = 0 then Some m
     else do {
       let first = (if first = 0 then count - 1 else first - 1);
       m \<leftarrow> Write32 m (arr + first * 4) msg;
       m \<leftarrow> Write32 m (q + kMsgQueueFirstOffset) first;
       Write32 m (q + kMsgQueueUsedOffset) (used + 1) } }"

definition MsgQueueDequeue :: "u32 \<Rightarrow> gmem \<Rightarrow> (u32 \<times> gmem) option" where
  "MsgQueueDequeue q m = do {
     arr \<leftarrow> Read32 m (q + kMsgQueueArrayOffset);
     count \<leftarrow> Read32 m (q + kMsgQueueCountOffset);
     first \<leftarrow> Read32 m (q + kMsgQueueFirstOffset);
     used \<leftarrow> Read32 m (q + kMsgQueueUsedOffset);
     if count = 0 \<or> used = 0 then Some (0, m)
     else do {
       msg \<leftarrow> Read32 m (arr + first * 4);
       m \<leftarrow> Write32 m (q + kMsgQueueFirstOffset) ((first + 1) mod count);
       m \<leftarrow> Write32 m (q + kMsgQueueUsedOffset) (used - 1);
       Some (msg, m) } }"

text \<open>Wait until the queue is ready, do it, wake the other side; or give up at once.\<close>

definition MsgQueueOp :: "(gmem \<Rightarrow> bool option) \<Rightarrow> (gmem \<Rightarrow> gmem option) \<Rightarrow> (gmem \<Rightarrow> gmem option) \<Rightarrow> (gmem \<Rightarrow> gmem option) \<Rightarrow> bool \<Rightarrow> gmem \<Rightarrow>
    (u32 \<times> gmem) option" where
  "MsgQueueOp ready act wake sleep block m = loop (\<lambda>m. do {
     r \<leftarrow> ready m;
     if r then do { m \<leftarrow> act m; m \<leftarrow> wake m; Some (Inl (1, m)) }
     else if \<not> block then Some (Inl (0, m))
     else do { m \<leftarrow> sleep m; Some (Inr m) } }) m"

definition SendMessage :: "(u32 \<Rightarrow> gmem \<Rightarrow> gmem option) \<Rightarrow> (u32 \<Rightarrow> gmem \<Rightarrow> gmem option) \<Rightarrow> u32 \<Rightarrow> u32 \<Rightarrow> u32 \<Rightarrow> gmem \<Rightarrow> (u32 \<times> gmem) option" where
  "SendMessage wake sleep q msg flags m =
     (if q = 0 then Some (0, m)
      else MsgQueueOp (\<lambda>m. map_option Not (MsgQueueIsFull q m)) (MsgQueueEnqueue q msg)
        (wake (q + kMsgQueueRecvOffset)) (sleep (q + kMsgQueueSendOffset)) (flags AND 1 \<noteq> 0) m)"

definition receive_into :: "u32 \<Rightarrow> u32 \<Rightarrow> gmem \<Rightarrow> gmem option" where
  "receive_into q out m = do {
     (msg, m) \<leftarrow> MsgQueueDequeue q m;
     if out \<noteq> 0 then Write32 m out msg else Some m }"

definition ReceiveMessage :: "(u32 \<Rightarrow> gmem \<Rightarrow> gmem option) \<Rightarrow> (u32 \<Rightarrow> gmem \<Rightarrow> gmem option) \<Rightarrow> u32 \<Rightarrow> u32 \<Rightarrow> u32 \<Rightarrow> gmem \<Rightarrow> (u32 \<times> gmem) option" where
  "ReceiveMessage wake sleep q out flags m =
     (if q = 0 then Some (0, m)
      else MsgQueueOp (\<lambda>m. map_option Not (MsgQueueIsEmpty q m)) (receive_into q out)
        (wake (q + kMsgQueueSendOffset)) (sleep (q + kMsgQueueRecvOffset)) (flags AND 1 \<noteq> 0) m)"

definition JamMessage :: "(u32 \<Rightarrow> gmem \<Rightarrow> gmem option) \<Rightarrow> (u32 \<Rightarrow> gmem \<Rightarrow> gmem option) \<Rightarrow> u32 \<Rightarrow> u32 \<Rightarrow> u32 \<Rightarrow> gmem \<Rightarrow> (u32 \<times> gmem) option" where
  "JamMessage wake sleep q msg flags m =
     (if q = 0 then Some (0, m)
      else MsgQueueOp (\<lambda>m. map_option Not (MsgQueueIsFull q m)) (MsgQueueJam q msg)
        (wake (q + kMsgQueueRecvOffset)) (sleep (q + kMsgQueueSendOffset)) (flags AND 1 \<noteq> 0) m)"

section \<open>The ring as a list\<close>

definition msg_fields :: "u32 \<Rightarrow> u32 list" where
  "msg_fields q = [q + kMsgQueueArrayOffset, q + kMsgQueueCountOffset, q + kMsgQueueFirstOffset, q + kMsgQueueUsedOffset]"

definition msg_slot :: "u32 \<Rightarrow> nat \<Rightarrow> u32" where
  "msg_slot arr i = arr + of_nat i * 4"

definition msg_cells :: "u32 \<Rightarrow> u32 \<Rightarrow> nat \<Rightarrow> u32 list" where
  "msg_cells q arr cap = msg_fields q @ map (msg_slot arr) [0..<cap]"

definition msg_ok :: "u32 \<Rightarrow> u32 \<Rightarrow> nat \<Rightarrow> bool" where
  "msg_ok q arr cap \<longleftrightarrow> distinct (msg_cells q arr cap) \<and> list_all aligned (msg_cells q arr cap) \<and> 0 < cap \<and> cap < 2 ^ 30"

text \<open>The messages in the ring, the oldest first.\<close>

definition holds :: "u32 \<Rightarrow> u32 \<Rightarrow> nat \<Rightarrow> u32 list \<Rightarrow> gmem \<Rightarrow> bool" where
  "holds q arr cap xs m \<longleftrightarrow> (\<exists>first < cap. Read32 m (q + kMsgQueueArrayOffset) = Some arr \<and>
     Read32 m (q + kMsgQueueCountOffset) = Some (of_nat cap) \<and> Read32 m (q + kMsgQueueFirstOffset) = Some (of_nat first) \<and>
     Read32 m (q + kMsgQueueUsedOffset) = Some (of_nat (length xs)) \<and> length xs \<le> cap \<and>
     (\<forall>i<cap. \<exists>v. Read32 m (msg_slot arr i) = Some v) \<and>
     (\<forall>i<length xs. Read32 m (msg_slot arr ((first + i) mod cap)) = Some (xs ! i)))"

lemma msg_offsets: "distinct (msg_fields q)" "distinct (rev (msg_fields q))"
  by (simp_all add: msg_fields_def kMsgQueueArrayOffset_def kMsgQueueCountOffset_def kMsgQueueFirstOffset_def kMsgQueueUsedOffset_def)

lemmas msg_fields_apart [simp] = msg_offsets [unfolded msg_fields_def, simplified]

lemma msg_cell_eq:
  assumes "msg_ok q arr cap"
  shows "i < cap \<Longrightarrow> j < cap \<Longrightarrow> msg_slot arr i = msg_slot arr j \<longleftrightarrow> i = j"
    "i < cap \<Longrightarrow> a \<in> set (msg_fields q) \<Longrightarrow> a \<noteq> msg_slot arr i" "i < cap \<Longrightarrow> a \<in> set (msg_fields q) \<Longrightarrow> msg_slot arr i \<noteq> a"
    "i < cap \<Longrightarrow> aligned (msg_slot arr i)" "a \<in> set (msg_fields q) \<Longrightarrow> aligned a"
proof -
  have d: "distinct (map (msg_slot arr) [0..<cap])" "set (msg_fields q) \<inter> set (map (msg_slot arr) [0..<cap]) = {}"
    using assms unfolding msg_ok_def msg_cells_def distinct_append by blast+
  show "i < cap \<Longrightarrow> j < cap \<Longrightarrow> msg_slot arr i = msg_slot arr j \<longleftrightarrow> i = j"
    using d(1) unfolding distinct_map inj_on_def by auto
  have "i < cap \<Longrightarrow> msg_slot arr i \<in> set (map (msg_slot arr) [0..<cap])" by simp
  then show "i < cap \<Longrightarrow> a \<in> set (msg_fields q) \<Longrightarrow> a \<noteq> msg_slot arr i" "i < cap \<Longrightarrow> a \<in> set (msg_fields q) \<Longrightarrow> msg_slot arr i \<noteq> a"
    using d(2) by (metis IntI empty_iff)+
  show "i < cap \<Longrightarrow> aligned (msg_slot arr i)" "a \<in> set (msg_fields q) \<Longrightarrow> aligned a"
    using assms unfolding msg_ok_def msg_cells_def by (auto simp: list_all_iff)
qed

lemma msg_field_in [simp]:
  "q + kMsgQueueArrayOffset \<in> set (msg_fields q)" "q + kMsgQueueCountOffset \<in> set (msg_fields q)"
  "q + kMsgQueueFirstOffset \<in> set (msg_fields q)" "q + kMsgQueueUsedOffset \<in> set (msg_fields q)"
  by (simp_all add: msg_fields_def)

lemma of_nat_mod_u32: "a < 2 ^ 32 \<Longrightarrow> b < 2 ^ 32 \<Longrightarrow> (of_nat a :: u32) mod of_nat b = of_nat (a mod b)"
proof (rule unsigned_word_eqI)
  assume ab: "a < 2 ^ 32" "b < 2 ^ 32"
  have "a mod b < 2 ^ 32" using ab(1) by (rule le_less_trans [OF mod_less_eq_dividend])
  then show "unat ((of_nat a :: u32) mod of_nat b) = unat (of_nat (a mod b) :: u32)" using ab by (simp add: unat_mod unat_of_nat_u32)
qed

lemma of_nat_zero_u32: "a < 2 ^ 32 \<Longrightarrow> (of_nat a :: u32) = 0 \<longleftrightarrow> a = 0"
proof
  assume a: "a < 2 ^ 32" and "(of_nat a :: u32) = 0"
  then have "unat (of_nat a :: u32) = 0" by simp
  then show "a = 0" using a by (simp add: unat_of_nat_u32)
qed simp

text \<open>The slots of a ring, counted from any one, are apart.\<close>

lemma ring_slots:
  fixes i j cap f :: nat
  assumes "i < cap" "j < cap"
  shows "(f + i) mod cap = (f + j) mod cap \<longleftrightarrow> i = j"
proof
  assume eq: "(f + i) mod cap = (f + j) mod cap"
  have "\<not> (x < y \<and> y < cap \<and> (f + x) mod cap = (f + y) mod cap)" for x y
  proof
    assume xy: "x < y \<and> y < cap \<and> (f + x) mod cap = (f + y) mod cap"
    then have "cap dvd (f + y) - (f + x)" by (intro mod_eq_dvd_iff_nat [THEN iffD1]) simp_all
    then have "cap dvd y - x" by simp
    then show False using xy by (auto dest: dvd_imp_le)
  qed
  then show "i = j" using eq assms by (metis linorder_neqE_nat)
qed simp

text \<open>What a step of a system call does not touch, and how it is read off.\<close>

lemma MsgQueueIs:
  assumes "holds q arr cap xs m" "msg_ok q arr cap"
  shows "MsgQueueIsFull q m = Some (length xs = cap)" "MsgQueueIsEmpty q m = Some (xs = [])"
proof -
  have b: "cap < 2 ^ 30" "0 < cap" "length xs \<le> cap" using assms by (auto simp: msg_ok_def holds_def)
  then have "(of_nat cap :: u32) \<noteq> 0" "(of_nat (length xs) :: u32) = 0 \<longleftrightarrow> xs = []"
    "(of_nat cap :: u32) \<le> of_nat (length xs) \<longleftrightarrow> length xs = cap"
    by (auto simp: of_nat_zero_u32 word_le_nat_alt unat_of_nat_u32)
  then show "MsgQueueIsFull q m = Some (length xs = cap)" "MsgQueueIsEmpty q m = Some (xs = [])"
    using assms(1) by (auto simp: MsgQueueIsFull_def MsgQueueIsEmpty_def holds_def)
qed

text \<open>A message is put at the end.\<close>

lemma Enqueue_appends:
  assumes h: "holds q arr cap xs m" and ok: "msg_ok q arr cap" and room: "length xs < cap"
  shows "\<exists>m'. MsgQueueEnqueue q msg m = Some m' \<and> holds q arr cap (xs @ [msg]) m' \<and> same_but (msg_cells q arr cap) m m'"
proof -
  obtain f where f: "f < cap" and reads: "Read32 m (q + kMsgQueueArrayOffset) = Some arr"
    "Read32 m (q + kMsgQueueCountOffset) = Some (of_nat cap)" "Read32 m (q + kMsgQueueFirstOffset) = Some (of_nat f)"
    "Read32 m (q + kMsgQueueUsedOffset) = Some (of_nat (length xs))" and mapped: "\<And>i. i < cap \<Longrightarrow> \<exists>v. Read32 m (msg_slot arr i) = Some v"
    and msgs: "\<And>i. i < length xs \<Longrightarrow> Read32 m (msg_slot arr ((f + i) mod cap)) = Some (xs ! i)"
    using h unfolding holds_def by blast
  define k where "k = (f + length xs) mod cap"
  have cap: "0 < cap" "cap < 2 ^ 30" using ok by (simp_all add: msg_ok_def)
  have k: "k < cap" unfolding k_def using cap by simp
  have index: "(of_nat f + of_nat (length xs) :: u32) mod of_nat cap * 4 = of_nat k * 4"
  proof -
    have "(of_nat (f + length xs) :: u32) mod of_nat cap = of_nat k" unfolding k_def using f room cap by (intro of_nat_mod_u32) simp_all
    then show ?thesis by simp
  qed
  note eqs = msg_cell_eq [OF ok]
  define m' where "m' = poke32 (poke32 m (msg_slot arr k) msg) (q + kMsgQueueUsedOffset) (of_nat (length xs) + 1)"
  have read: "Read32 m' a = (if a = q + kMsgQueueUsedOffset then Some (of_nat (length xs) + 1) else if a = msg_slot arr k then Some msg else Read32 m a)"
    if "aligned a" for a unfolding m'_def using that k by (auto simp: eqs)
  obtain v where v: "Read32 m (msg_slot arr k) = Some v" using mapped [OF k] by blast
  have "Read32 (poke32 m (msg_slot arr k) msg) (q + kMsgQueueUsedOffset) = Some (of_nat (length xs))"
    using reads k by (simp add: eqs)
  note W = Write32_Some [OF v, of msg] Write32_Some [OF this, of "of_nat (length xs) + 1"]
  have "MsgQueueEnqueue q msg m = Some m'"
    using W cap unfolding MsgQueueEnqueue_def m'_def by (simp add: reads index msg_slot_def of_nat_zero_u32)
  moreover have "same_but (msg_cells q arr cap) m m'"
    unfolding m'_def using k by (intro same_but_poke same_but_refl eqs(4,5)) (auto simp: msg_cells_def)
  moreover have "holds q arr cap (xs @ [msg]) m'"
    unfolding holds_def
  proof (intro exI [of _ f] conjI allI impI)
    fix i
    assume "i < cap"
    then show "\<exists>v. Read32 m' (msg_slot arr i) = Some v" using mapped [of i] by (simp add: read eqs)
  next
    fix i
    assume i: "i < length (xs @ [msg])"
    have c: "(f + i) mod cap < cap" using cap by simp
    have "(f + i) mod cap = k \<longleftrightarrow> i = length xs" unfolding k_def using i room by (intro ring_slots) simp_all
    then show "Read32 m' (msg_slot arr ((f + i) mod cap)) = Some ((xs @ [msg]) ! i)"
      using msgs [of i] i c k by (auto simp: read eqs nth_append less_Suc_eq)
  qed (use f room reads k in \<open>simp_all add: read eqs\<close>)
  ultimately show ?thesis by blast
qed

text \<open>The oldest message is taken.\<close>

lemma Dequeue_takes:
  assumes h: "holds q arr cap (x # xs) m" and ok: "msg_ok q arr cap"
  shows "\<exists>m'. MsgQueueDequeue q m = Some (x, m') \<and> holds q arr cap xs m' \<and> same_but (msg_cells q arr cap) m m'"
proof -
  obtain f where f: "f < cap" and reads: "Read32 m (q + kMsgQueueArrayOffset) = Some arr"
    "Read32 m (q + kMsgQueueCountOffset) = Some (of_nat cap)" "Read32 m (q + kMsgQueueFirstOffset) = Some (of_nat f)"
    "Read32 m (q + kMsgQueueUsedOffset) = Some (of_nat (length (x # xs)))" and room: "length (x # xs) \<le> cap"
    and mapped: "\<And>i. i < cap \<Longrightarrow> \<exists>v. Read32 m (msg_slot arr i) = Some v"
    and msgs: "\<And>i. i < length (x # xs) \<Longrightarrow> Read32 m (msg_slot arr ((f + i) mod cap)) = Some ((x # xs) ! i)"
    using h unfolding holds_def by blast
  have cap: "0 < cap" "cap < 2 ^ 30" using ok by (simp_all add: msg_ok_def)
  have "(of_nat (f + 1) :: u32) mod of_nat cap = of_nat ((f + 1) mod cap)" using f cap by (intro of_nat_mod_u32) simp_all
  then have index: "((of_nat f :: u32) + 1) mod of_nat cap = of_nat ((f + 1) mod cap)" by (simp add: add.commute)
  note eqs = msg_cell_eq [OF ok]
  define m' where "m' = poke32 (poke32 m (q + kMsgQueueFirstOffset) (of_nat ((f + 1) mod cap))) (q + kMsgQueueUsedOffset) (of_nat (length xs))"
  have read: "Read32 m' a = (if a = q + kMsgQueueUsedOffset then Some (of_nat (length xs)) else if a = q + kMsgQueueFirstOffset
      then Some (of_nat ((f + 1) mod cap)) else Read32 m a)"
    if "aligned a" for a unfolding m'_def using that by (auto simp: eqs)
  have "Read32 (poke32 m (q + kMsgQueueFirstOffset) (of_nat ((f + 1) mod cap))) (q + kMsgQueueUsedOffset) = Some (of_nat (length (x # xs)))"
    using reads by (simp add: eqs)
  note W = Write32_Some [OF reads(3), of "of_nat ((f + 1) mod cap)"] Write32_Some [OF this, of "of_nat (length xs)"]
  have "Read32 m (arr + of_nat f * 4) = Some x" using msgs [of 0] f by (simp add: msg_slot_def)
  moreover have "(of_nat cap :: u32) \<noteq> 0" "(of_nat (length (x # xs)) :: u32) \<noteq> 0"
    using cap room by (simp_all add: of_nat_zero_u32 del: of_nat_Suc list.size)
  ultimately have "MsgQueueDequeue q m = Some (x, m')"
    using W unfolding MsgQueueDequeue_def m'_def by (simp add: reads index)
  moreover have "same_but (msg_cells q arr cap) m m'"
    unfolding m'_def by (intro same_but_poke same_but_refl eqs(5)) (auto simp: msg_cells_def)
  moreover have "holds q arr cap xs m'"
    unfolding holds_def
  proof (intro exI [of _ "(f + 1) mod cap"] conjI allI impI)
    fix i
    assume "i < cap"
    then show "\<exists>v. Read32 m' (msg_slot arr i) = Some v" using mapped [of i] by (simp add: read eqs)
  next
    fix i
    assume i: "i < length xs"
    have "((f + 1) mod cap + i) mod cap = (f + Suc i) mod cap" by (simp add: mod_add_left_eq)
    then show "Read32 m' (msg_slot arr (((f + 1) mod cap + i) mod cap)) = Some (xs ! i)"
      using msgs [of "Suc i"] i cap by (simp add: read eqs)
  qed (use f room reads cap in \<open>simp_all add: read eqs\<close>)
  ultimately show ?thesis by blast
qed

text \<open>A message is put in front of all the others.\<close>

lemma Jam_prepends:
  assumes h: "holds q arr cap xs m" and ok: "msg_ok q arr cap" and room: "length xs < cap"
  shows "\<exists>m'. MsgQueueJam q msg m = Some m' \<and> holds q arr cap (msg # xs) m' \<and> same_but (msg_cells q arr cap) m m'"
proof -
  obtain f where f: "f < cap" and reads: "Read32 m (q + kMsgQueueArrayOffset) = Some arr"
    "Read32 m (q + kMsgQueueCountOffset) = Some (of_nat cap)" "Read32 m (q + kMsgQueueFirstOffset) = Some (of_nat f)"
    "Read32 m (q + kMsgQueueUsedOffset) = Some (of_nat (length xs))" and mapped: "\<And>i. i < cap \<Longrightarrow> \<exists>v. Read32 m (msg_slot arr i) = Some v"
    and msgs: "\<And>i. i < length xs \<Longrightarrow> Read32 m (msg_slot arr ((f + i) mod cap)) = Some (xs ! i)"
    using h unfolding holds_def by blast
  define k where "k = (if f = 0 then cap - 1 else f - 1)"
  have cap: "0 < cap" "cap < 2 ^ 30" using ok by (simp_all add: msg_ok_def)
  have k: "k < cap" "(k + 1) mod cap = f" using f by (auto simp: k_def)
  have zero: "(of_nat f :: u32) = 0 \<longleftrightarrow> f = 0" using f cap by (intro of_nat_zero_u32) simp
  have index: "(if (of_nat f :: u32) = 0 then of_nat cap - 1 else of_nat f - 1) = (of_nat k :: u32)"
    using cap by (auto simp: zero k_def of_nat_diff)
  note eqs = msg_cell_eq [OF ok]
  define m1 where "m1 = poke32 m (msg_slot arr k) msg"
  define m2 where "m2 = poke32 m1 (q + kMsgQueueFirstOffset) (of_nat k)"
  define m' where "m' = poke32 m2 (q + kMsgQueueUsedOffset) (of_nat (length xs) + 1)"
  have read: "Read32 m' a = (if a = q + kMsgQueueUsedOffset then Some (of_nat (length xs) + 1) else if a = q + kMsgQueueFirstOffset
      then Some (of_nat k) else if a = msg_slot arr k then Some msg else Read32 m a)"
    if "aligned a" for a unfolding m'_def m2_def m1_def using that k by (auto simp: eqs)
  obtain v where v: "Read32 m (msg_slot arr k) = Some v" using mapped [OF k(1)] by blast
  have r1: "Read32 m1 (q + kMsgQueueFirstOffset) = Some (of_nat f)" unfolding m1_def using reads k by (simp add: eqs)
  have r2: "Read32 m2 (q + kMsgQueueUsedOffset) = Some (of_nat (length xs))" unfolding m1_def m2_def using reads k by (simp add: eqs)
  have W: "Write32 m (arr + of_nat k * 4) msg = Some m1" "Write32 m1 (q + kMsgQueueFirstOffset) (of_nat k) = Some m2"
    "Write32 m2 (q + kMsgQueueUsedOffset) (of_nat (length xs) + 1) = Some m'"
    using Write32_Some [OF v, of msg] Write32_Some [OF r1, of "of_nat k"] Write32_Some [OF r2, of "of_nat (length xs) + 1"]
    unfolding m'_def m2_def m1_def msg_slot_def by simp_all
  have "(of_nat cap :: u32) \<noteq> 0" using cap by (simp add: of_nat_zero_u32)
  then have "MsgQueueJam q msg m = Some m'"
    unfolding MsgQueueJam_def reads bind.bind_lunit Let_def index W by simp
  moreover have "same_but (msg_cells q arr cap) m m'"
    unfolding m'_def m2_def m1_def using k by (intro same_but_poke same_but_refl eqs(4,5)) (auto simp: msg_cells_def)
  moreover have "holds q arr cap (msg # xs) m'"
    unfolding holds_def
  proof (intro exI [of _ k] conjI allI impI)
    fix i
    assume "i < cap"
    then show "\<exists>v. Read32 m' (msg_slot arr i) = Some v" using mapped [of i] by (simp add: read eqs)
  next
    fix i
    assume i: "i < length (msg # xs)"
    have c: "(k + i) mod cap < cap" using cap by simp
    have "(k + i) mod cap = (k + 0) mod cap \<longleftrightarrow> i = 0" using i room cap by (intro ring_slots) simp_all
    then have first: "(k + i) mod cap = k \<longleftrightarrow> i = 0" using k(1) by simp
    have rest: "(k + Suc j) mod cap = (f + j) mod cap" for j using k(2) by (metis add.assoc mod_add_left_eq plus_1_eq_Suc)
    show "Read32 m' (msg_slot arr ((k + i) mod cap)) = Some ((msg # xs) ! i)"
      using msgs [of "i - 1"] i c k first rest [of "i - 1"] by (cases i) (auto simp: read eqs)
  qed (use f room reads k in \<open>simp_all add: read eqs\<close>)
  ultimately show ?thesis by blast
qed

section \<open>The calls\<close>

lemma MsgQueueOp_now:
  "ready m = Some True \<Longrightarrow> act m = Some m1 \<Longrightarrow> MsgQueueOp ready act wake sleep block m = do { m' \<leftarrow> wake m1; Some (1, m') }"
  by (cases "wake m1") (simp_all add: MsgQueueOp_def loop_Inl loop_None)

lemma MsgQueueOp_never: "ready m = Some False \<Longrightarrow> MsgQueueOp ready act wake sleep False m = Some (0, m)"
  by (simp add: MsgQueueOp_def loop_Inl)

lemma MsgQueueOp_wait:
  "ready m = Some False \<Longrightarrow> sleep m = Some m1 \<Longrightarrow> MsgQueueOp ready act wake sleep True m = MsgQueueOp ready act wake sleep True m1"
  by (simp add: MsgQueueOp_def loop_Inr)

text \<open>A call that waits is done as soon as a sleep leaves the queue ready.\<close>

lemma MsgQueueOp_waits:
  assumes "\<And>i. i < n \<Longrightarrow> ready (ms i) = Some False" "\<And>i. i < n \<Longrightarrow> sleep (ms i) = Some (ms (Suc i))"
  shows "MsgQueueOp ready act wake sleep True (ms 0) = MsgQueueOp ready act wake sleep True (ms n)"
  using assms by (induction n) (simp_all add: MsgQueueOp_wait)

lemma ReceiveMessage_waits:
  assumes q: "q \<noteq> 0" and ok: "msg_ok q arr cap" and block: "flags AND 1 \<noteq> 0"
    and empty: "\<And>i. i < n \<Longrightarrow> holds q arr cap [] (ms i)"
    and slept: "\<And>i. i < n \<Longrightarrow> sleep (q + kMsgQueueRecvOffset) (ms i) = Some (ms (Suc i))"
    and there: "holds q arr cap (x # xs) (ms n)"
    and out: "out \<noteq> 0 \<Longrightarrow> aligned out \<and> out \<notin> set (msg_cells q arr cap) \<and> Read32 (ms n) out \<noteq> None"
  shows "\<exists>m1. ReceiveMessage wake sleep q out flags (ms 0) = do { m' \<leftarrow> wake (q + kMsgQueueSendOffset) m1; Some (1, m') } \<and>
     holds q arr cap xs m1 \<and> (out \<noteq> 0 \<longrightarrow> Read32 m1 out = Some x)"
proof -
  let ?ready = "\<lambda>m. map_option Not (MsgQueueIsEmpty q m)"
  have wait: "?ready (ms i) = Some False" if "i < n" for i using MsgQueueIs(2) [OF empty [OF that] ok] by simp
  have go: "?ready (ms n) = Some True" using MsgQueueIs(2) [OF there ok] by simp
  from Dequeue_takes [OF there ok] obtain m0 where
    m0: "MsgQueueDequeue q (ms n) = Some (x, m0)" "holds q arr cap xs m0" "same_but (msg_cells q arr cap) (ms n) m0" by blast
  have mapped: "out \<noteq> 0 \<Longrightarrow> Read32 m0 out \<noteq> None" using out m0(3) unfolding same_but_def by blast
  define m1 where "m1 = (if out \<noteq> 0 then poke32 m0 out x else m0)"
  have act: "receive_into q out (ms n) = Some m1"
  proof (cases "out = 0")
    case False
    then show ?thesis using m0(1) mapped [OF False] by (simp add: receive_into_def m1_def Write32_def)
  qed (simp add: receive_into_def m1_def m0(1))
  have "holds q arr cap xs m1"
  proof (cases "out = 0")
    case False
    have "Read32 m1 a = Read32 m0 a" if "a \<in> set (msg_cells q arr cap)" for a
      using that out [OF False] ok False by (auto simp: m1_def msg_ok_def list_all_iff)
    then have same: "Read32 m1 a = Read32 m0 a" if "a \<in> set (msg_fields q) \<or> a \<in> set (map (msg_slot arr) [0..<cap])" for a
      using that by (auto simp: msg_cells_def)
    have slot: "Read32 m1 (msg_slot arr i) = Read32 m0 (msg_slot arr i)" if "i < cap" for i using that by (intro same) simp
    have "0 < cap" using ok by (simp add: msg_ok_def)
    then show ?thesis using m0(2) unfolding holds_def by (auto simp: same slot)
  qed (use m0(2) in \<open>simp add: m1_def\<close>)
  moreover have "ReceiveMessage wake sleep q out flags (ms 0) = do { m' \<leftarrow> wake (q + kMsgQueueSendOffset) m1; Some (1, m') }"
    using MsgQueueOp_waits [of n ?ready ms "sleep (q + kMsgQueueRecvOffset)" "receive_into q out" "wake (q + kMsgQueueSendOffset)", OF wait slept]
      MsgQueueOp_now [of ?ready "ms n" "receive_into q out" m1, OF go act] q block
    by (simp add: ReceiveMessage_def)
  moreover have "out \<noteq> 0 \<longrightarrow> Read32 m1 out = Some x" using out by (auto simp: m1_def)
  ultimately show ?thesis by blast
qed

text \<open>Without the leave to wait, a full queue and an empty one are given up on at once, with nothing changed.\<close>

lemma message_gives_up:
  assumes "msg_ok q arr cap" "holds q arr cap xs m" "flags AND 1 = 0"
  shows "length xs = cap \<Longrightarrow> SendMessage wake sleep q msg flags m = Some (0, m)"
    "length xs = cap \<Longrightarrow> JamMessage wake sleep q msg flags m = Some (0, m)"
    "xs = [] \<Longrightarrow> ReceiveMessage wake sleep q out flags m = Some (0, m)"
  using MsgQueueIs [OF assms(2,1)] assms(3)
  by (simp_all add: SendMessage_def JamMessage_def ReceiveMessage_def MsgQueueOp_never)

text \<open>A queue with no room at all takes a message, and loses it.\<close>

lemma SendMessage_no_room:
  assumes "q \<noteq> 0" "Read32 m (q + kMsgQueueArrayOffset) = Some arr" "Read32 m (q + kMsgQueueCountOffset) = Some 0"
    "Read32 m (q + kMsgQueueFirstOffset) = Some f" "Read32 m (q + kMsgQueueUsedOffset) = Some u"
  shows "SendMessage wake sleep q msg flags m = do { m' \<leftarrow> wake (q + kMsgQueueRecvOffset) m; Some (1, m') }"
proof -
  have "map_option Not (MsgQueueIsFull q m) = Some True" "MsgQueueEnqueue q msg m = Some m"
    using assms by (simp_all add: MsgQueueIsFull_def MsgQueueEnqueue_def)
  then show ?thesis using assms(1) by (simp add: SendMessage_def MsgQueueOp_now)
qed

end
