(* ===== verification/Os_Mutex.thy ===== *)
theory Os_Mutex
  imports Os_Wake
begin

text \<open>
  Mutexes (src/platform/os/os_scheduler.cpp): who owns one, how often it has locked it, and the list of those a thread
  holds. \<open>sleep\<close> and \<open>wake\<close> are the system calls of those names, on the mutex's wait queue.
\<close>

definition LinkMutexToThread :: "u32 \<Rightarrow> u32 \<Rightarrow> gmem \<Rightarrow> gmem option" where
  "LinkMutexToThread t x m = link_last x (mutex_list t) m"

definition UnlinkMutexFromThread :: "u32 \<Rightarrow> u32 \<Rightarrow> gmem \<Rightarrow> gmem option" where
  "UnlinkMutexFromThread t x m = UnlinkGuestListNode x (mutex_list t) m"

definition lock_step :: "'a os_layout_scheme \<Rightarrow> (u32 \<Rightarrow> gmem \<Rightarrow> gmem option) \<Rightarrow> u32 \<Rightarrow> u32 \<Rightarrow> gmem \<Rightarrow> (gmem + gmem) option" where
  "lock_step lay sleep current x m = do {
     own \<leftarrow> Read32 m (x + kMutexOwnerOffset);
     if own = 0 then do {
       m \<leftarrow> Write32 m (x + kMutexOwnerOffset) current;
       count \<leftarrow> Read32 m (x + kMutexCountOffset);
       m \<leftarrow> Write32 m (x + kMutexCountOffset) (count + 1);
       m \<leftarrow> LinkMutexToThread current x m;
       Some (Inl m) }
     else if own = current then do {
       count \<leftarrow> Read32 m (x + kMutexCountOffset);
       m \<leftarrow> Write32 m (x + kMutexCountOffset) (count + 1);
       Some (Inl m) }
     else do {
       m \<leftarrow> Write32 m (current + kThreadMutexOffset) x;
       p \<leftarrow> Read32 m (current + kThreadPriorityOffset);
       m \<leftarrow> PromoteThreadPriority lay own p m;
       m \<leftarrow> sleep x m;
       m \<leftarrow> Write32 m (current + kThreadMutexOffset) 0;
       Some (Inr m) } }"

definition OSLockMutex :: "'a os_layout_scheme \<Rightarrow> (u32 \<Rightarrow> gmem \<Rightarrow> gmem option) \<Rightarrow> u32 \<Rightarrow> gmem \<Rightarrow> gmem option" where
  "OSLockMutex lay sleep x m =
     (if x = 0 then Some m
      else do {
        current \<leftarrow> Read32 m kOSRunningContextAddr;
        if current = 0 then Some m else loop (lock_step lay sleep current x) m })"

definition OSUnlockMutex :: "(u32 \<Rightarrow> gmem \<Rightarrow> gmem option) \<Rightarrow> u32 \<Rightarrow> gmem \<Rightarrow> gmem option" where
  "OSUnlockMutex wake x m =
     (if x = 0 then Some m
      else do {
        current \<leftarrow> Read32 m kOSRunningContextAddr;
        if current = 0 then Some m
        else do {
          own \<leftarrow> Read32 m (x + kMutexOwnerOffset);
          if own = current then do {
            count \<leftarrow> Read32 m (x + kMutexCountOffset);
            m \<leftarrow> Write32 m (x + kMutexCountOffset) (count - 1);
            if count - 1 = 0 then do {
              m \<leftarrow> UnlinkMutexFromThread current x m;
              m \<leftarrow> Write32 m (x + kMutexOwnerOffset) 0;
              effective \<leftarrow> Read32 m (current + kThreadPriorityOffset);
              base \<leftarrow> Read32 m (current + kThreadBasePriorityOffset);
              m \<leftarrow> (if sint effective < sint base then do {
                  p \<leftarrow> ComputeThreadEffectivePriority current m;
                  Write32 m (current + kThreadPriorityOffset) p }
                else Some m);
              wake x m }
            else Some m }
          else Some m } })"

section \<open>Who owns what\<close>

definition ownership_ok :: "os_system \<Rightarrow> sched \<Rightarrow> bool" where
  "ownership_ok sys S \<longleftrightarrow> (\<forall>x \<in> set (mutexes sys). (owner S x = 0 \<longleftrightarrow> lock_count S x = 0) \<and>
     (\<forall>t \<in> set (threads sys). x \<in> set (held S t) \<longleftrightarrow> owner S x = t))"

text \<open>The thread that runs.\<close>

definition running_ok :: "os_system \<Rightarrow> sched \<Rightarrow> bool" where
  "running_ok sys S \<longleftrightarrow> running S \<in> set (threads sys) \<and> state S (running S) = kThreadStateRunning \<and> prio S (running S) < 32"

definition acquire :: "u32 \<Rightarrow> u32 \<Rightarrow> sched \<Rightarrow> sched" where
  "acquire t x S = S\<lparr>owner := (owner S)(x := t), lock_count := (lock_count S)(x := lock_count S x + 1),
     held := (held S)(t := held S t @ [x])\<rparr>"

definition release :: "u32 \<Rightarrow> u32 \<Rightarrow> sched \<Rightarrow> sched" where
  "release t x S = (let S1 = S\<lparr>lock_count := (lock_count S)(x := 0), held := (held S)(t := remove1 x (held S t)), owner := (owner S)(x := 0)\<rparr> in
     S1\<lparr>prio := (prio S)(t := if sint (prio S t) < sint (base_prio S t) then effective S1 t else prio S t)\<rparr>)"

lemma mutex_links:
  assumes "represents sys S m" "x \<in> set (mutexes sys)"
  shows "\<exists>v. Read32 m (x + kMutexThreadNextOffset) = Some v" "\<exists>v. Read32 m (x + kMutexThreadPrevOffset) = Some v"
proof -
  have "Mutex_Field x kMutexThreadNextOffset \<in> set (link_places sys)" "Mutex_Field x kMutexThreadPrevOffset \<in> set (link_places sys)"
    using assms(2) by (auto simp: link_places_def)
  then have "\<exists>v. get sys m (Mutex_Field x kMutexThreadNextOffset) = Some v" "\<exists>v. get sys m (Mutex_Field x kMutexThreadPrevOffset) = Some v"
    using assms(1) unfolding represents_def links_ok_def by blast+
  then show "\<exists>v. Read32 m (x + kMutexThreadNextOffset) = Some v" "\<exists>v. Read32 m (x + kMutexThreadPrevOffset) = Some v"
    by (simp_all add: get_def)
qed

lemma held_others:
  assumes "represents sys S m" "t \<in> set (threads sys)" "u \<in> set (threads sys)" "u \<noteq> t"
  shows "set (held S t) \<inter> set (held S u) = {}"
  using assms unfolding represents_def lists_ok_def by auto

lemma LinkMutex_refines:
  assumes ok: "system_ok sys" and rep: "represents sys S m" and t: "t \<in> set (threads sys)" and x: "x \<in> set (mutexes sys)"
    and free: "\<And>u. u \<in> set (threads sys) \<Longrightarrow> x \<notin> set (held S u)"
  shows "\<exists>m'. LinkMutexToThread t x m = Some m' \<and> represents sys (S\<lparr>held := (held S)(t := held S t @ [x])\<rparr>) m'"
proof -
  note lists = represents_held_list [OF rep t]
  define xs where "xs = held S t @ [x]"
  have new: "distinct xs" "set xs \<subseteq> set (mutexes sys)" using lists x free [OF t] by (auto simp: xs_def)
  obtain vn vp where v: "Read32 m (x + kMutexThreadNextOffset) = Some vn" "Read32 m (x + kMutexThreadPrevOffset) = Some vp"
    using mutex_links [OF rep x] by blast
  have "list_ok (mutex_list t) (held S t @ [x])" using held_list_ok [OF ok t new] by (simp add: xs_def)
  from link_last_linked [OF lists(1) this, of vn vp] v obtain m' where
    m': "link_last x (mutex_list t) m = Some m'" "linked m' (mutex_list t) xs" "same_but (cells (mutex_list t) xs) m m'"
    by (auto simp: mutex_list_def xs_def)
  have "represents sys (S\<lparr>held := (held S)(t := xs)\<rparr>) m'"
    by (rule represents_held [OF ok rep t m'(2) new(1) _ m'(3) new(2)]) (use held_others [OF rep t] free in \<open>auto simp: xs_def\<close>)
  then show ?thesis using m'(1) by (auto simp: xs_def LinkMutexToThread_def)
qed

lemma UnlinkMutex_refines:
  assumes ok: "system_ok sys" and rep: "represents sys S m" and t: "t \<in> set (threads sys)" and x: "x \<in> set (held S t)"
  shows "\<exists>m'. UnlinkMutexFromThread t x m = Some m' \<and> represents sys (S\<lparr>held := (held S)(t := remove1 x (held S t))\<rparr>) m'"
proof -
  note lists = represents_held_list [OF rep t]
  obtain xs ys where at: "held S t = xs @ x # ys" using split_list [OF x] by blast
  have rest: "remove1 x (held S t) = xs @ ys" using lists(2) at by (simp add: remove1_append)
  have "list_ok (mutex_list t) (xs @ x # ys)" using held_list_ok [OF ok t lists(2,3)] at by simp
  from unlink_linked [OF lists(1) [unfolded at] this] obtain m1 where
    m1: "UnlinkMutexFromThread t x m = Some m1" "linked m1 (mutex_list t) (xs @ ys)" "same_but (cells (mutex_list t) (held S t)) m m1"
    unfolding at UnlinkMutexFromThread_def by blast
  have "represents sys (S\<lparr>held := (held S)(t := xs @ ys)\<rparr>) m1"
    by (rule represents_held [OF ok rep t m1(2) _ _ m1(3)]) (use lists at held_others [OF rep t] in auto)
  then show ?thesis using m1(1) rest by simp
qed

section \<open>Locking\<close>

lemma thread_not_zero: "system_ok sys \<Longrightarrow> t \<in> set (threads sys) \<Longrightarrow> t \<noteq> 0"
  by (auto simp: system_ok_def)

lemma acquire_ok:
  assumes ok: "system_ok sys" and own: "ownership_ok sys S" and S: "well_formed sys S" and t: "t \<in> set (threads sys)" and free: "owner S x = 0"
    and x: "x \<in> set (mutexes sys)"
  shows "ownership_ok sys (acquire t x S)" "well_formed sys (acquire t x S)"
proof -
  have "lock_count S x = 0" using own free x by (simp add: ownership_ok_def)
  moreover have "t \<noteq> 0" "\<And>u. u \<in> set (threads sys) \<Longrightarrow> u \<noteq> 0" using thread_not_zero [OF ok] t by blast+
  ultimately show "ownership_ok sys (acquire t x S)"
    using own free unfolding ownership_ok_def acquire_def by auto
  show "well_formed sys (acquire t x S)"
    by (rule same_well_formed [OF S]) (use S t in \<open>auto simp: acquire_def agree_def well_formed_def references_ok_def\<close>)
qed

lemma lock_step_free:
  assumes ok: "system_ok sys" and rep: "represents sys S m" and own: "ownership_ok sys S" and t: "t \<in> set (threads sys)"
    and x: "x \<in> set (mutexes sys)" and free: "owner S x = 0"
  shows "\<exists>m'. lock_step sys sleep t x m = Some (Inl m') \<and> represents sys (acquire t x S) m'"
proof -
  from represents_writes(8) [OF ok rep x, of t] obtain m1 where
    m1: "Write32 m (x + kMutexOwnerOffset) t = Some m1" "represents sys (S\<lparr>owner := (owner S)(x := t)\<rparr>) m1" by blast
  from represents_writes(9) [OF ok m1(2) x, of "lock_count S x + 1"] obtain m2 where
    m2: "Write32 m1 (x + kMutexCountOffset) (lock_count S x + 1) = Some m2"
      "represents sys (S\<lparr>owner := (owner S)(x := t), lock_count := (lock_count S)(x := lock_count S x + 1)\<rparr>) m2" by auto
  have "x \<notin> set (held S u)" if "u \<in> set (threads sys)" for u
    using own x free that thread_not_zero [OF ok that] by (auto simp: ownership_ok_def)
  then obtain m3 where
    m3: "LinkMutexToThread t x m2 = Some m3" "represents sys (acquire t x S) m3"
    using LinkMutex_refines [OF ok m2(2) t x] by (auto simp: acquire_def)
  then show ?thesis
    using m1(1) m2(1) free by (simp add: lock_step_def represents_reads [OF rep] represents_reads [OF m1(2)] x)
qed

text \<open>A mutex that is free is taken; one the thread has already is taken once more.\<close>

lemma OSLockMutex_takes:
  assumes ok: "system_ok sys" and rep: "represents sys S m" and own: "ownership_ok sys S" and S: "well_formed sys S"
    and t: "running S \<in> set (threads sys)" and x: "x \<in> set (mutexes sys)"
  shows "owner S x = 0 \<Longrightarrow> \<exists>m'. OSLockMutex sys sleep x m = Some m' \<and> represents sys (acquire (running S) x S) m' \<and>
      well_formed sys (acquire (running S) x S) \<and> ownership_ok sys (acquire (running S) x S)"
    "owner S x = running S \<Longrightarrow> lock_count S x + 1 \<noteq> 0 \<Longrightarrow>
      \<exists>m'. OSLockMutex sys sleep x m = Some m' \<and> represents sys (S\<lparr>lock_count := (lock_count S)(x := lock_count S x + 1)\<rparr>) m' \<and>
      ownership_ok sys (S\<lparr>lock_count := (lock_count S)(x := lock_count S x + 1)\<rparr>)"
proof -
  have nz: "x \<noteq> 0" "running S \<noteq> 0" using mutex_queue(2) [OF ok x] thread_not_zero [OF ok t] by simp_all
  note reads = represents_reads [OF rep]
  show "\<exists>m'. OSLockMutex sys sleep x m = Some m' \<and> represents sys (acquire (running S) x S) m' \<and>
      well_formed sys (acquire (running S) x S) \<and> ownership_ok sys (acquire (running S) x S)" if free: "owner S x = 0"
  proof -
    obtain m' where "lock_step sys sleep (running S) x m = Some (Inl m')" "represents sys (acquire (running S) x S) m'"
      using lock_step_free [OF ok rep own t x free] by blast
    then show ?thesis using acquire_ok [OF ok own S t free x] nz by (simp add: OSLockMutex_def reads loop_Inl)
  qed
  assume mine: "owner S x = running S" "lock_count S x + 1 \<noteq> 0"
  from represents_writes(9) [OF ok rep x, of "lock_count S x + 1"] obtain m1 where
    m1: "Write32 m (x + kMutexCountOffset) (lock_count S x + 1) = Some m1"
      "represents sys (S\<lparr>lock_count := (lock_count S)(x := lock_count S x + 1)\<rparr>) m1" by blast
  have "lock_step sys sleep (running S) x m = Some (Inl m1)"
    using m1(1) mine nz by (simp add: lock_step_def reads x)
  then show "\<exists>m'. OSLockMutex sys sleep x m = Some m' \<and> represents sys (S\<lparr>lock_count := (lock_count S)(x := lock_count S x + 1)\<rparr>) m' \<and>
      ownership_ok sys (S\<lparr>lock_count := (lock_count S)(x := lock_count S x + 1)\<rparr>)"
    using m1(2) own mine nz by (auto simp: OSLockMutex_def reads loop_Inl ownership_ok_def)
qed

section \<open>Unlocking\<close>

text \<open>
  The last unlock takes the mutex off the thread, gives the thread the priority that is left to it, and wakes
  whoever waits; any other only counts down.
\<close>

lemma release_ok:
  assumes ok: "system_ok sys" and rep: "represents sys S m" and own: "ownership_ok sys S" and S: "well_formed sys S"
    and t: "t \<in> set (threads sys)" "state S t = kThreadStateRunning" and mine: "owner S x = t" and x: "x \<in> set (mutexes sys)"
    and eff: "effective (S\<lparr>lock_count := (lock_count S)(x := 0), held := (held S)(t := remove1 x (held S t)), owner := (owner S)(x := 0)\<rparr>) t < 32"
  shows "ownership_ok sys (release t x S)" "well_formed sys (release t x S)"
proof -
  have "distinct (held S t)" using represents_held_list [OF rep t(1)] by simp
  then show "ownership_ok sys (release t x S)"
    using own mine thread_not_zero [OF ok] unfolding ownership_ok_def release_def Let_def by (auto simp: set_remove1_eq)
  have parts: "consistent sys {} S" "references_ok sys S" "priorities_ok sys S" "states_ok sys S" using S by (simp_all add: well_formed_def)
  have "unqueued sys t S" by (rule idle_unqueued [OF parts(1)]) (use t in \<open>simp_all add: thread_states\<close>)
  then have "consistent sys {} (release t x S)"
    by (rule idle_consistent [OF parts(1)]) (use t in \<open>simp_all add: agree_def release_def Let_def thread_ok_def thread_states\<close>)
  moreover have "priorities_ok sys (release t x S)"
    using parts(3) eff by (auto simp: priorities_ok_def release_def Let_def)
  ultimately show "well_formed sys (release t x S)"
    using parts by (simp add: well_formed_def references_ok_def states_ok_def release_def Let_def)
qed

lemma OSUnlockMutex_releases:
  assumes ok: "system_ok sys" and rep: "represents sys S m" and own: "ownership_ok sys S" and S: "well_formed sys S"
    and run: "running_ok sys S" and x: "x \<in> set (mutexes sys)" and mine: "owner S x = running S"
  shows "lock_count S x = 1 \<Longrightarrow> \<exists>m1. OSUnlockMutex wake x m = wake x m1 \<and> represents sys (release (running S) x S) m1 \<and>
      well_formed sys (release (running S) x S) \<and> ownership_ok sys (release (running S) x S)"
    "lock_count S x \<noteq> 1 \<Longrightarrow> \<exists>m1. OSUnlockMutex wake x m = Some m1 \<and>
      represents sys (S\<lparr>lock_count := (lock_count S)(x := lock_count S x - 1)\<rparr>) m1 \<and>
      ownership_ok sys (S\<lparr>lock_count := (lock_count S)(x := lock_count S x - 1)\<rparr>)"
proof -
  let ?t = "running S"
  have t: "?t \<in> set (threads sys)" "state S ?t = kThreadStateRunning" using run by (simp_all add: running_ok_def)
  have nz: "x \<noteq> 0" "?t \<noteq> 0" using mutex_queue(2) [OF ok x] thread_not_zero [OF ok t(1)] by simp_all
  note reads = represents_reads [OF rep]
  let ?S0 = "S\<lparr>lock_count := (lock_count S)(x := lock_count S x - 1)\<rparr>"
  from represents_writes(9) [OF ok rep x, of "lock_count S x - 1"] obtain m0 where
    m0: "Write32 m (x + kMutexCountOffset) (lock_count S x - 1) = Some m0" "represents sys ?S0 m0" by blast
  show "\<exists>m1. OSUnlockMutex wake x m = Some m1 \<and> represents sys ?S0 m1 \<and> ownership_ok sys ?S0" if more: "lock_count S x \<noteq> 1"
  proof -
    have "ownership_ok sys ?S0" using own mine nz more x by (auto simp: ownership_ok_def)
    then show ?thesis using m0 mine nz more by (simp add: OSUnlockMutex_def reads x)
  qed
  assume last: "lock_count S x = 1"
  have inx: "x \<in> set (held ?S0 ?t)" using own mine x t(1) by (simp add: ownership_ok_def)
  define S1 where "S1 = S\<lparr>lock_count := (lock_count S)(x := 0), held := (held S)(?t := remove1 x (held S ?t)), owner := (owner S)(x := 0)\<rparr>"
  from UnlinkMutex_refines [OF ok m0(2) t(1) inx] obtain m1 where
    m1: "UnlinkMutexFromThread ?t x m0 = Some m1" "represents sys (?S0\<lparr>held := (held S)(?t := remove1 x (held S ?t))\<rparr>) m1" by auto
  from represents_writes(8) [OF ok m1(2) x, of 0] last obtain m2 where
    m2: "Write32 m1 (x + kMutexOwnerOffset) 0 = Some m2" "represents sys S1 m2" by (auto simp: S1_def)
  have "priorities_ok sys S1" using S by (simp add: S1_def well_formed_def priorities_ok_def)
  then have eff: "effective S1 ?t < 32" by (rule effective_less [OF ok m2(2) _ t(1)])
  note reads2 = represents_reads [OF m2(2)]
  obtain m3 where m3: "(if sint (prio S ?t) < sint (base_prio S ?t)
      then do { p \<leftarrow> ComputeThreadEffectivePriority ?t m2; Write32 m2 (?t + kThreadPriorityOffset) p } else Some m2) = Some m3"
    "represents sys (release ?t x S) m3"
  proof (cases "sint (prio S ?t) < sint (base_prio S ?t)")
    case True
    from represents_writes(5) [OF ok m2(2) t(1), of "effective S1 ?t"] that True show ?thesis
      by (auto simp: Compute_effective [OF ok m2(2) t(1)] release_def Let_def S1_def)
  next
    case False
    then have "release ?t x S = S1" by (simp add: release_def Let_def S1_def)
    then show ?thesis using that False m2(2) by simp
  qed
  have "OSUnlockMutex wake x m = wake x m3"
    using m0(1) m1(1) m2(1) m3(1) mine nz last
    by (simp add: OSUnlockMutex_def reads x reads2 t S1_def)
  then show "\<exists>m1. OSUnlockMutex wake x m = wake x m1 \<and> represents sys (release ?t x S) m1 \<and>
      well_formed sys (release ?t x S) \<and> ownership_ok sys (release ?t x S)"
    using m3(2) release_ok [OF ok rep own S t mine x eff [unfolded S1_def]] by blast
qed

end
