(* ===== verification/Os_Select.thy ===== *)
theory Os_Select
  imports Os_Wake
begin

text \<open>
  SelectThread (src/platform/os/os_scheduler.cpp), and the contexts it makes current (os_context.cpp). What the
  scheduler calls and does not own is \<open>select_host\<close>: the sleep timers, the game's own code that saves a context
  or hears of a switch, a pass of the idle loop, whether interrupts are on when it is called, and the threads whose fiber is gone.
  The result is the thread the host's fibers are to go on with, or zero where \<open>r3\<close> is zero and nothing is switched.
\<close>

definition kOSPhysicalContextAddr :: u32 where "kOSPhysicalContextAddr = 0x800000C0"
definition kOSCurrentContextAddr :: u32 where "kOSCurrentContextAddr = 0x800000D4"
definition kOSExceptionContextAddr :: u32 where "kOSExceptionContextAddr = 0x800000D8"

text \<open>Accesses in a \<open>try\<close> block: the first violation ends them, and what was written stays.\<close>

primrec try_all :: "(gmem \<Rightarrow> gmem option) list \<Rightarrow> gmem \<Rightarrow> gmem" where
  "try_all [] m = m"
| "try_all (f # fs) m = (case f m of None \<Rightarrow> m | Some m' \<Rightarrow> try_all fs m')"

definition OS__SetCurrentContext :: "bool \<Rightarrow> u32 \<Rightarrow> gmem \<Rightarrow> gmem" where
  "OS__SetCurrentContext interrupts t m =
     (if t = 0 then try_all [\<lambda>m. Write32 m kOSPhysicalContextAddr 0, \<lambda>m. Write32 m kOSCurrentContextAddr 0] m
      else try_all
        [\<lambda>m. Write32 m kOSPhysicalContextAddr (t AND 0x3FFFFFFF),
         \<lambda>m. Write32 m kOSCurrentContextAddr t,
         \<lambda>m. do {
           exception \<leftarrow> Read32 m kOSExceptionContextAddr;
           flags \<leftarrow> Read32 m (t + 0x19C);
           Write32 m (t + 0x19C) (if exception = t then flags OR 0x2000 else flags AND NOT 0x2000) },
         \<lambda>m. do {
           mode \<leftarrow> Read16 m (t + 0x1A2);
           Write16 m (t + 0x1A2) (if interrupts then mode OR 2 else mode AND NOT 2) }] m)"

definition OS__ClearContext :: "u32 \<Rightarrow> gmem \<Rightarrow> gmem" where
  "OS__ClearContext t m =
     (if t = 0 then m
      else try_all
        [\<lambda>m. Write16 m (t + 0x1A0) 0,
         \<lambda>m. Write16 m (t + 0x1A2) 0,
         \<lambda>m. do {
           exception \<leftarrow> Read32 m kOSExceptionContextAddr;
           if exception = t then Write32 m kOSExceptionContextAddr 0 else Some m }] m)"

text \<open>
  The flag of the current context that says whether interrupts are enabled, when they are switched on or off (its
  lookups are taken to succeed where a read or a write does).
\<close>

definition UpdateCurrentContextInterruptFlag :: "bool \<Rightarrow> gmem \<Rightarrow> gmem" where
  "UpdateCurrentContextInterruptFlag enabled m =
     (case Read32 m kOSCurrentContextAddr of None \<Rightarrow> m
      | Some current \<Rightarrow>
          if current = 0 then m
          else (case Read16 m (current + 0x1A2) of None \<Rightarrow> m
            | Some mode \<Rightarrow>
                let updated = (if enabled then mode OR 2 else mode AND NOT 2) in
                if updated = mode then m
                else (case Write16 m (current + 0x1A2) updated of None \<Rightarrow> m | Some m' \<Rightarrow> m')))"

record select_host =
  sleep_timers :: "gmem \<Rightarrow> gmem option"
  save_context :: "u32 \<Rightarrow> gmem \<Rightarrow> bool \<times> gmem"
  switch_callback :: "u32 \<Rightarrow> u32 \<Rightarrow> gmem \<Rightarrow> gmem option"
  idle_pass :: "gmem \<Rightarrow> gmem option"
  interrupts_on :: bool
  fibers_gone :: "u32 set"

text \<open>
  The thread that ran is put back at the end of its run queue, unless it may stay: then the first component is true.
  A context that is not marked as saved is saved; \<open>save_context\<close> says whether it came back as resumed, which ends
  the call as well.
\<close>

definition requeue_running :: "'a os_layout_scheme \<Rightarrow> u32 \<Rightarrow> u32 \<Rightarrow> gmem \<Rightarrow> (bool \<times> gmem) option" where
  "requeue_running lay forceSwitch t m = do {
     st \<leftarrow> Read16 m (t + kThreadStateOffset);
     if st = kThreadStateRunning then do {
       pending \<leftarrow> Read32 m (run_queue_bits lay);
       stays \<leftarrow> (if forceSwitch = 0 then do {
           p \<leftarrow> Read32 m (t + kThreadPriorityOffset);
           Some (sint p \<le> sint (if pending \<noteq> 0 then PPC_Cntlzw pending else 32)) }
         else Some False);
       if stays then Some (True, m)
       else do {
         m \<leftarrow> Write16 m (t + kThreadStateOffset) kThreadStateReady;
         p \<leftarrow> Read32 m (t + kThreadPriorityOffset);
         m \<leftarrow> LinkThreadOnRunQueue lay t p m;
         m \<leftarrow> MarkRunQueuePending lay p m;
         Some (False, m) } }
     else Some (False, m) }"

definition save_running :: "select_host \<Rightarrow> u32 \<Rightarrow> gmem \<Rightarrow> bool \<times> gmem" where
  "save_running host t m =
     (case Read16 m (t + 0x1A2) of None \<Rightarrow> (False, m)
      | Some mode \<Rightarrow> if mode AND 2 = 0 then save_context host t m else (False, m))"

text \<open>
  The idle loop: with interrupts enabled, passes until some thread is ready; then they are disabled, and the mask is
  read once more.
\<close>

definition idle_step :: "'a os_layout_scheme \<Rightarrow> select_host \<Rightarrow> gmem \<Rightarrow> (gmem + gmem) option" where
  "idle_step lay host m = do {
     m \<leftarrow> loop (\<lambda>m. do {
         pending \<leftarrow> Read32 m (run_queue_bits lay);
         if pending \<noteq> 0 then Some (Inl m) else do { m \<leftarrow> idle_pass host m; Some (Inr m) } })
       (UpdateCurrentContextInterruptFlag True m);
     let m = UpdateCurrentContextInterruptFlag False m;
     pending \<leftarrow> Read32 m (run_queue_bits lay);
     Some (if pending \<noteq> 0 then Inl m else Inr m) }"

definition idle_until_ready :: "'a os_layout_scheme \<Rightarrow> select_host \<Rightarrow> u32 \<Rightarrow> gmem \<Rightarrow> gmem option" where
  "idle_until_ready lay host t m = do {
     m \<leftarrow> switch_callback host t 0 m;
     m \<leftarrow> Write32 m kOSRunningContextAddr 0;
     m \<leftarrow> loop (idle_step lay host) (OS__SetCurrentContext (interrupts_on host) (idle_thread lay) m);
     Some (OS__ClearContext (idle_thread lay) m) }"

definition SelectThread :: "'a os_layout_scheme \<Rightarrow> select_host \<Rightarrow> u32 \<Rightarrow> gmem \<Rightarrow> (u32 \<times> gmem) option" where
  "SelectThread lay host forceSwitch m = do {
     m \<leftarrow> sleep_timers host m;
     disabled \<leftarrow> Read32 m (scheduler_disable_count lay);
     if disabled \<ge> 1 then Some (0, m)
     else do {
       current \<leftarrow> Read32 m kOSCurrentContextAddr;
       runs \<leftarrow> Read32 m kOSRunningContextAddr;
       if current = 0 \<and> runs = 0 then Some (0, m)
       else if current \<noteq> runs then Some (0, m)
       else do {
         (stays, m) \<leftarrow> (if runs \<noteq> 0 then requeue_running lay forceSwitch runs m else Some (False, m));
         if stays then Some (0, m)
         else do {
           let (resumed, m) = (if runs \<noteq> 0 then save_running host runs m else (False, m));
           if resumed then Some (0, m)
           else do {
             pending \<leftarrow> Read32 m (run_queue_bits lay);
             m \<leftarrow> (if pending = 0 then idle_until_ready lay host runs m else Some m);
             (t, m) \<leftarrow> pick_thread lay (fibers_gone host) m;
             if t = 0 then Some (0, m)
             else do {
               m \<leftarrow> switch_callback host runs t m;
               m \<leftarrow> Write32 m kOSRunningContextAddr t;
               Some (t, OS__SetCurrentContext (pending \<noteq> 0 \<and> interrupts_on host) t m) } } } } } }"

section \<open>Contexts\<close>

text \<open>The cells of the contexts are none of the scheduler's own.\<close>

definition context_cells :: "os_system \<Rightarrow> u32 list" where
  "context_cells sys = [kOSPhysicalContextAddr, kOSCurrentContextAddr] @ concat (map (\<lambda>t. [t + 0x19C, t + 0x1A0]) (threads sys))"

definition contexts_apart :: "os_system \<Rightarrow> bool" where
  "contexts_apart sys \<longleftrightarrow> list_all aligned (context_cells sys) \<and>
     list_all (\<lambda>c. c \<notin> set (map (addr sys) (scalar_places sys @ link_places sys))) (context_cells sys)"

lemma contexts_apartD:
  assumes "contexts_apart sys" "c \<in> set (context_cells sys)"
  shows "aligned c" "p \<in> places sys \<Longrightarrow> addr sys p \<noteq> c"
  using assms by (auto simp: contexts_apart_def list_all_iff places_def)

lemma same_but_Write32: "aligned a \<Longrightarrow> a \<in> set cs \<Longrightarrow> Write32 m a v = Some m' \<Longrightarrow> same_but cs m m'"
  by (auto simp: Write32_def same_but_poke split: if_splits)

lemma try_all_same:
  assumes "\<And>f m m'. f \<in> set fs \<Longrightarrow> f m = Some m' \<Longrightarrow> same_but cs m m'"
  shows "same_but cs m (try_all fs m)"
  using assms
proof (induction fs arbitrary: m)
  case (Cons f fs)
  show ?case
  proof (cases "f m")
    case (Some m')
    have "same_but cs m m'" by (rule Cons.prems [of f]) (simp_all add: Some)
    moreover have "same_but cs m' (try_all fs m')" by (rule Cons.IH) (use Cons.prems in auto)
    ultimately show ?thesis using same_but_trans Some by fastforce
  qed simp
qed simp

lemma Read32_mapped: "Read32 m b \<noteq> None \<longleftrightarrow> m b \<noteq> None \<and> m (b + 1) \<noteq> None \<and> m (b + 2) \<noteq> None \<and> m (b + 3) \<noteq> None"
  by (cases "m b"; cases "m (b + 1)"; cases "m (b + 2)"; cases "m (b + 3)"; simp add: Read32_def)

lemma same_but_Write16:
  assumes a: "aligned a" "a \<in> set cs" and w: "Write16 m (a + 2) v = Some m'"
  shows "same_but cs m m'"
proof -
  have m': "m' = poke16 m (a + 2) v" using w by (simp add: Write16_def split: if_splits)
  have "Read32 m' b = Read32 m b \<and> Read16 m' b = Read16 m b" if "aligned b" "b \<notin> set cs" for b
  proof -
    have "a \<noteq> b" using a(2) that(2) by blast
    note apart = cell_bytes [OF a(1) that(1) this]
    then show ?thesis by (simp add: m' poke16_def Read32_def Read16_def add.assoc)
  qed
  moreover have "Read32 m' b \<noteq> None" if "Read32 m b \<noteq> None" for b
  proof -
    have "m' c \<noteq> None" if "m c \<noteq> None" for c using that by (simp add: m' poke16_def)
    then show ?thesis using that unfolding Read32_mapped by blast
  qed
  ultimately show ?thesis by (simp add: same_but_def)
qed

lemma SetCurrentContext_same:
  assumes sys: "contexts_apart sys" and t: "t \<in> set (threads sys)"
  shows "same_but (context_cells sys) m (OS__SetCurrentContext interrupts t m)"
proof -
  have cs: "kOSPhysicalContextAddr \<in> set (context_cells sys)" "kOSCurrentContextAddr \<in> set (context_cells sys)"
    "t + 0x19C \<in> set (context_cells sys)" "t + 0x1A0 \<in> set (context_cells sys)"
    using t by (auto simp: context_cells_def)
  note store = same_but_Write32 [OF contexts_apartD(1) [OF sys cs(1)] cs(1)] same_but_Write32 [OF contexts_apartD(1) [OF sys cs(2)] cs(2)]
    same_but_Write32 [OF contexts_apartD(1) [OF sys cs(3)] cs(3)]
    same_but_Write16 [OF contexts_apartD(1) [OF sys cs(4)] cs(4), simplified add.assoc, simplified]
  have steps: "same_but (context_cells sys) m (try_all fs m)"
    if "list_all (\<lambda>f. \<forall>m m'. f m = Some m' \<longrightarrow> same_but (context_cells sys) m m') fs" for fs
    using that by (intro try_all_same) (auto simp: list_all_iff)
  show ?thesis
    unfolding OS__SetCurrentContext_def by (split if_split, intro conjI impI; rule steps; auto intro: store split: bind_split_asm)
qed

lemma SetCurrentContext_represents:
  assumes "system_ok sys" "represents sys S m" "contexts_apart sys" "t \<in> set (threads sys)"
  shows "represents sys S (OS__SetCurrentContext interrupts t m)"
  using represents_elsewhere [OF assms(1,2) SetCurrentContext_same [OF assms(3,4)]] contexts_apartD(2) [OF assms(3)] by blast

section \<open>The thread that ran\<close>

definition preempted :: "os_system \<Rightarrow> u32 \<Rightarrow> sched \<Rightarrow> sched" where
  "preempted sys t S = (insert_thread sys (run_entry sys (prio S t)) t (prio S t) (S\<lparr>state := (state S)(t := kThreadStateReady)\<rparr>))\<lparr>resched := 1\<rparr>"

lemma running_unqueued:
  assumes "consistent sys {} S" "state S t = kThreadStateRunning"
  shows "unqueued sys t S"
  using consistent_parts(1) [OF assms(1)] assms(2) by (fastforce simp: unqueued_def place_ok_def thread_states split: if_splits)

lemma preempted_well_formed:
  assumes ok: "system_ok sys" and S: "well_formed sys S" "settled sys S"
    and t: "t \<in> set (threads sys)" "state S t = kThreadStateRunning" "sint (suspended S t) < 1" "prio S t < 32"
  shows "well_formed sys (preempted sys t S)" "settled sys (preempted sys t S)"
proof -
  define S1 where "S1 = S\<lparr>state := (state S)(t := kThreadStateReady)\<rparr>"
  have parts: "consistent sys {} S" using S by (simp add: well_formed_def)
  have "consistent_but sys {} {t} S" using parts running_unqueued [OF parts t(2)] by (simp add: consistent_but_def)
  then have S1: "consistent_but sys {} {t} S1" by (rule agree_consistent) (simp add: S1_def agree_def)
  have "consistent sys {} (insert_thread sys (run_entry sys (prio S t)) t (prio S t) S1)"
    using insert_consistent [OF ok S1 _ t(1) run_entry_prio(1) [OF ok t(4)]] t run_entry_prio(2) [OF ok t(4)] by (simp add: S1_def)
  then have "consistent sys {} (preempted sys t S)" by (rule consistent_same) (simp add: preempted_def S1_def agree_def)
  then show "well_formed sys (preempted sys t S)"
    using S by (auto simp: well_formed_def references_ok_def priorities_ok_def states_ok_def preempted_def)
  show "settled sys (preempted sys t S)" using S(2) by (auto simp: settled_def preempted_def thread_states)
qed

text \<open>Who can run then: whoever could, and the thread itself.\<close>

lemma awake_preempted:
  assumes "t \<in> set (threads sys)" "sint (suspended S t) < 1"
  shows "awake sys (preempted sys t S) u \<longleftrightarrow> u = t \<or> awake sys S u" "prio (preempted sys t S) = prio S"
  using assms by (auto simp: awake_def preempted_def thread_states)

lemma small_sint: "(p :: u32) \<le> 32 \<Longrightarrow> q \<le> 32 \<Longrightarrow> sint p \<le> sint q \<longleftrightarrow> p \<le> q"
proof -
  assume "p \<le> 32" "q \<le> 32"
  then have "p < 0x80000000" "q < 0x80000000" by (simp_all add: word_le_def word_less_def)
  then show ?thesis using sint_small [of p] sint_small [of q] by (simp add: word_le_def)
qed

text \<open>The code's comparison with the leading zeros of the mask asks for just that.\<close>

lemma stays_compare:
  assumes ok: "system_ok sys" and rep: "represents sys S m" and S: "consistent sys {} S" and p: "prio S t < 32"
  shows "sint (prio S t) \<le> sint (if pending S \<noteq> 0 then PPC_Cntlzw (pending S) else 32) \<longleftrightarrow>
     (\<forall>u. awake sys S u \<longrightarrow> prio S t \<le> prio S u)"
proof (cases "pending S = 0")
  case True
  then show ?thesis using none_awake [OF S] p small_sint [of "prio S t" 32] by auto
next
  case False
  obtain k u us where k: "k < 32" "PPC_Cntlzw (pending S) = of_nat k" and u: "awake sys S u" "prio S u = of_nat k"
    and first: "\<And>v. awake sys S v \<Longrightarrow> prio S u \<le> prio S v"
    using most_urgent_queue [OF ok rep S False] by blast
  have "prio S u \<le> 32" using awake_queued [OF S u(1)] by (simp add: order.strict_implies_order)
  then have "sint (prio S t) \<le> sint (prio S u) \<longleftrightarrow> prio S t \<le> prio S u" using p by (intro small_sint) (simp_all add: order.strict_implies_order)
  then show ?thesis using False k(2) u first by (auto intro: order_trans)
qed

lemma requeue_running_refines:
  assumes ok: "system_ok sys" and rep: "represents sys S m" and S: "well_formed sys S"
    and t: "t \<in> set (threads sys)" "state S t = kThreadStateRunning" "prio S t < 32"
  shows "forceSwitch = 0 \<and> (\<forall>u. awake sys S u \<longrightarrow> prio S t \<le> prio S u) \<Longrightarrow> requeue_running sys forceSwitch t m = Some (True, m)"
    "\<not> (forceSwitch = 0 \<and> (\<forall>u. awake sys S u \<longrightarrow> prio S t \<le> prio S u)) \<Longrightarrow>
      \<exists>m'. requeue_running sys forceSwitch t m = Some (False, m') \<and> represents sys (preempted sys t S) m'"
proof -
  have parts: "consistent sys {} S" using S by (simp add: well_formed_def)
  note stays = stays_compare [OF ok rep parts t(3)]
  note reads = represents_reads [OF rep]
  show "requeue_running sys forceSwitch t m = Some (True, m)" if "forceSwitch = 0 \<and> (\<forall>u. awake sys S u \<longrightarrow> prio S t \<le> prio S u)"
    using that stays t reads by (simp add: requeue_running_def)
  assume leaves: "\<not> (forceSwitch = 0 \<and> (\<forall>u. awake sys S u \<longrightarrow> prio S t \<le> prio S u))"
  define S1 where "S1 = S\<lparr>state := (state S)(t := kThreadStateReady)\<rparr>"
  have un: "unqueued sys t S" by (rule running_unqueued [OF parts t(2)])
  from write_state [OF ok rep t(1), of kThreadStateReady] obtain m1 where
    m1: "Write16 m (t + kThreadStateOffset) kThreadStateReady = Some m1" "represents sys S1 m1" by (auto simp: S1_def)
  have k: "unat (prio S t) < 32" using t(3) by (simp add: word_less_nat_alt)
  have "unqueued sys t S1" using un by (simp add: S1_def unqueued_def)
  from LinkThreadOnRunQueue_refines [OF ok m1(2) k t(1) this] obtain m2 where
    m2: "LinkThreadOnRunQueue sys t (prio S t) m1 = Some m2" "represents sys (link_run sys t (prio S t) S1) m2" by auto
  from MarkRunQueuePending_refines [OF ok m2(2), of "prio S t"] obtain m3 where
    m3: "MarkRunQueuePending sys (prio S t) m2 = Some m3" "represents sys (mark_run (prio S t) (link_run sys t (prio S t) S1)) m3" by blast
  have "consistent_but sys {} {t} S" using parts un by (simp add: consistent_but_def)
  then have "consistent_but sys {} {t} S1" by (rule agree_consistent) (simp add: S1_def agree_def)
  then have "mark_run (prio S t) (link_run sys t (prio S t) S1) = preempted sys t S"
    using link_mark_insert [OF ok _ t(3)] unfolding preempted_def S1_def by blast
  moreover have "prio S1 t = prio S t" by (simp add: S1_def)
  ultimately show "\<exists>m'. requeue_running sys forceSwitch t m = Some (False, m') \<and> represents sys (preempted sys t S) m'"
    using leaves stays t reads m1 m2(1) m3 represents_reads(6) [OF m1(2)]
    by (cases "forceSwitch = 0") (simp_all add: requeue_running_def)
qed

section \<open>The whole of it\<close>

text \<open>Callbacks and saved contexts leave the scheduler's own cells as they are, and a context is only saved, not resumed.\<close>

definition host_quiet :: "os_system \<Rightarrow> select_host \<Rightarrow> bool" where
  "host_quiet sys host \<longleftrightarrow>
     (\<forall>S m t u. represents sys S m \<longrightarrow> (\<exists>m'. switch_callback host t u m = Some m' \<and> represents sys S m')) \<and>
     (\<forall>S m t. represents sys S m \<longrightarrow> (\<exists>m'. save_context host t m = (False, m') \<and> represents sys S m'))"

text \<open>The scheduler when the thread that ran has been put back, and when another has been switched to.\<close>

definition put_back :: "os_system \<Rightarrow> sched \<Rightarrow> sched" where
  "put_back sys S = (if state S (running S) = kThreadStateRunning then preempted sys (running S) S else S)"

definition switched :: "os_system \<Rightarrow> u32 \<Rightarrow> sched \<Rightarrow> sched" where
  "switched sys t S = (run_thread sys t S)\<lparr>running := t\<rparr>"

lemma put_back_running [simp]: "running (put_back sys S) = running S"
  by (simp add: put_back_def preempted_def)

lemma switched_well_formed:
  "well_formed sys (run_thread sys t S) \<Longrightarrow> well_formed sys (switched sys t S)"
  "settled sys (run_thread sys t S) \<Longrightarrow> settled sys (switched sys t S)"
proof -
  show "well_formed sys (switched sys t S)" if "well_formed sys (run_thread sys t S)"
    by (rule same_well_formed [OF that]) (use that in \<open>simp_all add: switched_def agree_def well_formed_def references_ok_def\<close>)
  show "settled sys (switched sys t S)" if "settled sys (run_thread sys t S)" using that by (simp add: switched_def settled_def)
qed

lemma save_running_quiet: "host_quiet sys host \<Longrightarrow> represents sys S m \<Longrightarrow> \<exists>m'. save_running host t m = (False, m') \<and> represents sys S m'"
  by (auto simp: host_quiet_def save_running_def split: option.split)

text \<open>
  How SelectThread finds the system once the sleep timers have been seen to: switching is enabled, and the current
  context is that of the thread that runs, or ran. If it runs, it is not suspended and its priority is one.
\<close>

definition can_select :: "os_system \<Rightarrow> select_host \<Rightarrow> sched \<Rightarrow> gmem \<Rightarrow> bool" where
  "can_select sys host S m \<longleftrightarrow> contexts_apart sys \<and> host_quiet sys host \<and>
     represents sys S m \<and> well_formed sys S \<and> settled sys S \<and>
     Read32 m (scheduler_disable_count sys) = Some 0 \<and> Read32 m kOSCurrentContextAddr = Some (running S) \<and>
     running S \<in> set (threads sys) \<and>
     (state S (running S) = kThreadStateRunning \<longrightarrow> sint (suspended S (running S)) < 1 \<and> prio S (running S) < 32)"

lemma can_selectD:
  assumes "can_select sys host S m"
  shows "contexts_apart sys" "host_quiet sys host" "represents sys S m" "well_formed sys S" "settled sys S"
    "Read32 m (scheduler_disable_count sys) = Some 0" "Read32 m kOSCurrentContextAddr = Some (running S)" "running S \<in> set (threads sys)"
    "state S (running S) = kThreadStateRunning \<Longrightarrow> sint (suspended S (running S)) < 1"
    "state S (running S) = kThreadStateRunning \<Longrightarrow> prio S (running S) < 32"
  using assms by (simp_all add: can_select_def)

text \<open>The thread that runs may stay: it is not told to give way, and none that can run is more urgent.\<close>

definition may_stay :: "os_system \<Rightarrow> u32 \<Rightarrow> sched \<Rightarrow> bool" where
  "may_stay sys forceSwitch S \<longleftrightarrow> state S (running S) = kThreadStateRunning \<and> forceSwitch = 0 \<and>
     (\<forall>u. awake sys S u \<longrightarrow> prio S (running S) \<le> prio S u)"

lemma put_back_ok:
  assumes ok: "system_ok sys" and S: "can_select sys host S m"
  shows "well_formed sys (put_back sys S)" "settled sys (put_back sys S)"
  using preempted_well_formed [OF ok can_selectD(4,5,8) [OF S]] can_selectD [OF S] by (simp_all add: put_back_def)

lemma put_back_refines:
  assumes ok: "system_ok sys" and S: "can_select sys host S m" and leaves: "\<not> may_stay sys forceSwitch S"
  shows "\<exists>m'. requeue_running sys forceSwitch (running S) m = Some (False, m') \<and> represents sys (put_back sys S) m'"
proof (cases "state S (running S) = kThreadStateRunning")
  case True
  then show ?thesis
    using requeue_running_refines(2) [OF ok can_selectD(3,4,8) [OF S] True can_selectD(10) [OF S True], of forceSwitch] leaves
    by (simp add: put_back_def may_stay_def)
next
  case False
  then show ?thesis using represents_reads(4) [OF can_selectD(3,8) [OF S]] can_selectD(3) [OF S] by (simp add: put_back_def requeue_running_def)
qed

lemma SelectThread_keeps:
  assumes ok: "system_ok sys" and timers: "sleep_timers host m0 = Some m" and S: "can_select sys host S m" and stay: "may_stay sys forceSwitch S"
  shows "SelectThread sys host forceSwitch m0 = Some (0, m)"
proof -
  note now = can_selectD [OF S]
  have runs: "state S (running S) = kThreadStateRunning" using stay by (simp add: may_stay_def)
  have "requeue_running sys forceSwitch (running S) m = Some (True, m)"
    using requeue_running_refines(1) [OF ok now(3,4,8) runs now(10) [OF runs], of forceSwitch] stay by (simp add: may_stay_def)
  moreover have "running S \<noteq> 0" using now(8) ok by (auto simp: system_ok_def)
  ultimately show ?thesis
    using timers now(6,7) represents_reads(3) [OF now(3)] by (simp add: SelectThread_def)
qed

lemma SelectThread_switches:
  assumes ok: "system_ok sys" and timers: "sleep_timers host m0 = Some m" and S: "can_select sys host S m" and leaves: "\<not> may_stay sys forceSwitch S"
    and alive: "\<And>t. t \<in> fibers_gone host \<Longrightarrow> state (put_back sys S) t \<noteq> kThreadStateReady" and some: "awake sys (put_back sys S) w"
  shows "\<exists>t ts m'. SelectThread sys host forceSwitch m0 = Some (t, m') \<and> awake sys (put_back sys S) t \<and>
     (\<forall>u. awake sys (put_back sys S) u \<longrightarrow> prio S t \<le> prio S u) \<and> members (put_back sys S) (run_entry sys (prio S t)) = t # ts \<and>
     represents sys (switched sys t (put_back sys S)) m' \<and> well_formed sys (switched sys t (put_back sys S)) \<and>
     settled sys (switched sys t (put_back sys S))"
proof -
  note now = can_selectD [OF S]
  define S1 where "S1 = put_back sys S"
  note S1 = put_back_ok [OF ok S, folded S1_def]
  have prio: "prio S1 = prio S" "running S1 = running S" by (simp_all add: S1_def put_back_def preempted_def)
  have runs: "running S \<noteq> 0" using now(8) ok by (auto simp: system_ok_def)
  obtain m1 where m1: "requeue_running sys forceSwitch (running S) m = Some (False, m1)" "represents sys S1 m1"
    using put_back_refines [OF ok S leaves] unfolding S1_def by blast
  obtain m2 where m2: "save_running host (running S) m1 = (False, m2)" "represents sys S1 m2"
    using save_running_quiet [OF now(2) m1(2)] by blast
  have "consistent sys {} S1" using S1(1) by (simp add: well_formed_def)
  then have pending: "pending S1 \<noteq> 0" using none_awake some unfolding S1_def by blast
  from pick_thread_runs [OF ok m2(2) S1 alive [folded S1_def] this] obtain t ts m3 where
    t: "awake sys S1 t" "\<forall>u. awake sys S1 u \<longrightarrow> prio S1 t \<le> prio S1 u" "members S1 (run_entry sys (prio S1 t)) = t # ts"
    and m3: "pick_thread sys (fibers_gone host) m2 = Some (t, m3)" "represents sys (run_thread sys t S1) m3"
    and wf: "well_formed sys (run_thread sys t S1)" "settled sys (run_thread sys t S1)" by blast
  have thread: "t \<in> set (threads sys)" "t \<noteq> 0" using t(1) ok by (auto simp: awake_def system_ok_def)
  obtain m4 where m4: "switch_callback host (running S) t m3 = Some m4" "represents sys (run_thread sys t S1) m4"
    using now(2) m3(2) unfolding host_quiet_def by blast
  from represents_writes(3) [OF ok m4(2), of t] obtain m5 where
    m5: "Write32 m4 kOSRunningContextAddr t = Some m5" "represents sys (switched sys t S1) m5" unfolding switched_def by blast
  note last = SetCurrentContext_represents [OF ok m5(2) now(1) thread(1), of "pending S1 \<noteq> 0 \<and> interrupts_on host"]
  have "SelectThread sys host forceSwitch m0 = Some (t, OS__SetCurrentContext (pending S1 \<noteq> 0 \<and> interrupts_on host) t m5)"
    using timers now(6,7) represents_reads(3) [OF now(3)] runs m1(1) m2(1) represents_reads(1) [OF m2(2)] pending m3(1) thread(2)
      m4(1) m5(1) by (simp add: SelectThread_def)
  then show ?thesis
    using t last switched_well_formed(1) [OF wf(1)] switched_well_formed(2) [OF wf(2)] unfolding S1_def [symmetric] prio by blast
qed

end
