(* ===== verification/Os_Run.thy ===== *)
theory Os_Run
  imports Os_Select
begin

text \<open>
  The scheduler as a machine: system calls that suspend, resume and wake threads, put back the one that ran and pick the one to run,
  in any order, and what holds of guest memory after every one of them.
\<close>

definition sound :: "os_system \<Rightarrow> sched \<Rightarrow> gmem \<Rightarrow> bool" where
  "sound sys S m \<longleftrightarrow> represents sys S m \<and> well_formed sys S \<and> settled sys S \<and> deadlock_free sys S"

text \<open>
  One call. The switch to another thread at the end of a call is two steps of its own, the two parts of SelectThread
  that change the queues: \<open>preempt\<close> and \<open>pick\<close>.
\<close>

inductive os_step :: "os_system \<Rightarrow> u32 set \<Rightarrow> gmem \<Rightarrow> gmem \<Rightarrow> bool" for sys terminated where
  suspend: "t \<in> set (threads sys) \<Longrightarrow> Read32 m (t + kThreadSuspendOffset) = Some c \<Longrightarrow> c < 0x7FFFFFFF \<Longrightarrow>
    OSSuspendThread sys Some t m = Some (r, m') \<Longrightarrow> os_step sys terminated m m'"
| resume: "t \<in> set (threads sys) \<Longrightarrow> Read32 m (t + kThreadSuspendOffset) = Some c \<Longrightarrow> c < 0x7FFFFFFF \<Longrightarrow>
    OSResumeThread sys terminated Some t m = Some (r, m') \<Longrightarrow> os_step sys terminated m m'"
| wake: "q \<in> set (queues sys) \<Longrightarrow> \<not> is_run_queue sys q \<Longrightarrow>
    WakeupThreadQueue sys terminated Some switch_now q m = Some m' \<Longrightarrow> os_step sys terminated m m'"
| preempt: "t \<in> set (threads sys) \<Longrightarrow> Read32 m (t + kThreadSuspendOffset) = Some c \<Longrightarrow> sint c < 1 \<Longrightarrow>
    Read32 m (t + kThreadPriorityOffset) = Some p \<Longrightarrow> p < 32 \<Longrightarrow>
    requeue_running sys forceSwitch t m = Some (r, m') \<Longrightarrow> os_step sys terminated m m'"
| pick: "(\<And>t. t \<in> terminated \<Longrightarrow> Read16 m (t + kThreadStateOffset) \<noteq> Some kThreadStateReady) \<Longrightarrow> terminated \<subseteq> set (threads sys) \<Longrightarrow>
    pick_thread sys terminated m = Some (r, m') \<Longrightarrow> os_step sys terminated m m'"

inductive_cases os_stepE: "os_step sys terminated m m'"

text \<open>Threads that wait for fewer than before do not come to wait in a circle.\<close>

lemma deadlock_free_fewer:
  assumes free: "deadlock_free sys S" and fewer: "\<And>t. waits_for S' t = waits_for S t \<or> waits_for S' t = 0"
  shows "deadlock_free sys S'"
proof -
  have zero: "waits_for S 0 = 0" "waits_for S' 0 = 0" by (simp_all add: waits_for_def)
  have stays: "(waits_for S' ^^ n) 0 = 0" for n by (induction n) (simp_all add: zero)
  have "(waits_for S ^^ n) t = 0 \<Longrightarrow> (waits_for S' ^^ n) t = 0" for n t
  proof (induction n arbitrary: t)
    case (Suc n)
    show ?case
    proof (cases "waits_for S' t = 0")
      case True
      then show ?thesis using stays [of n] by (simp add: funpow_swap1)
    next
      case False
      then have "waits_for S' t = waits_for S t" using fewer by metis
      then show ?thesis using Suc by (simp add: funpow_swap1)
    qed
  qed simp
  then show ?thesis using free by (simp add: deadlock_free_def)
qed

lemma suspends_waits:
  assumes "suspends t c st S S'" "st = kThreadStateWaiting \<Longrightarrow> state S t = kThreadStateWaiting"
  shows "waits_for S' u = waits_for S u \<or> waits_for S' u = 0"
  using assms by (auto simp: suspends_def waits_for_def)

lemma woken_waits: "woken sys terminated ts S S' \<Longrightarrow> waits_for S' u = waits_for S u \<or> waits_for S' u = 0"
  by (auto simp: woken_def waits_for_def thread_states)

lemma run_waits: "waits_for (run_thread sys t S) u = waits_for S u \<or> waits_for (run_thread sys t S) u = 0"
  by (auto simp: run_thread_def waits_for_def thread_states)

lemma preempted_waits: "waits_for (preempted sys t S) u = waits_for S u \<or> waits_for (preempted sys t S) u = 0"
  by (auto simp: preempted_def waits_for_def thread_states)

lemma requeue_running_sound:
  assumes ok: "system_ok sys" and S: "sound sys S m" and t: "t \<in> set (threads sys)" "sint (suspended S t) < 1" "prio S t < 32"
    and returns: "requeue_running sys forceSwitch t m = Some (r, m')"
  shows "\<exists>S'. sound sys S' m'"
proof -
  have parts: "represents sys S m" "well_formed sys S" "settled sys S" "deadlock_free sys S" using S by (simp_all add: sound_def)
  consider "m' = m" | "state S t = kThreadStateRunning" "represents sys (preempted sys t S) m'"
  proof (cases "state S t = kThreadStateRunning")
    case True
    then show thesis using requeue_running_refines [OF ok parts(1,2) t(1) _ t(3), of forceSwitch] returns that by fastforce
  next
    case False
    then show thesis using returns represents_reads(4) [OF parts(1) t(1)] that by (simp add: requeue_running_def)
  qed
  then show ?thesis
  proof cases
    case 2
    then have "sound sys (preempted sys t S) m'"
      using preempted_well_formed [OF ok parts(2,3) t(1) 2(1) t(2,3)] deadlock_free_fewer [OF parts(4) preempted_waits] by (simp add: sound_def)
    then show ?thesis by blast
  qed (use S in blast)
qed

lemma step_sound:
  assumes ok: "system_ok sys" and step: "os_step sys terminated m m'" and S: "sound sys S m"
  shows "\<exists>S'. sound sys S' m'"
proof -
  have parts: "represents sys S m" "well_formed sys S" "settled sys S" "deadlock_free sys S" using S by (simp_all add: sound_def)
  note reads = represents_reads [OF parts(1)]
  from step show ?thesis
  proof (cases rule: os_step.cases)
    case (suspend t c r)
    then have "suspended S t < 0x7FFFFFFF" using reads(5) by simp
    from OSSuspendThread_refines [OF ok parts(1,2) suspend(1) parts(4) this, of Some] suspend(4) obtain S' where
      S': "represents sys S' m'" "well_formed sys S'"
        "suspends t (suspended S t + 1) (if suspended S t = 0 then state_after_suspend (state S t) else state S t) S S'"
      by (auto split: if_splits)
    have "deadlock_free sys S'"
      by (rule deadlock_free_fewer [OF parts(4) suspends_waits [OF S'(3)]]) (auto simp: state_after_suspend_def thread_states split: if_splits)
    then show ?thesis using S' suspends_settled [OF S'(3) parts(3)] by (auto simp: sound_def)
  next
    case (resume t c r)
    then have "suspended S t < 0x7FFFFFFF" using reads(5) by simp
    from OSResumeThread_refines [OF ok parts(1,2) resume(1) parts(4) this, of terminated Some] resume(4) obtain S' where
      S': "represents sys S' m'" "well_formed sys S'"
        "suspends t (if suspended S t = 0 then 0 else suspended S t - 1)
           (if suspended S t = 1 then state_after_resume terminated t (state S t) else state S t) S S'"
      by (auto split: if_splits)
    have "deadlock_free sys S'"
      by (rule deadlock_free_fewer [OF parts(4) suspends_waits [OF S'(3)]]) (auto simp: state_after_resume_def thread_states split: if_splits)
    then show ?thesis using S' suspends_settled [OF S'(3) parts(3)] by (auto simp: sound_def)
  next
    case (wake q b)
    from WakeupThreadQueue_refines [OF ok wake(1,2) parts(1-3), of terminated Some b] wake(3) obtain S' where
      S': "represents sys S' m'" "well_formed sys S'" "settled sys S'" "woken sys terminated (take 256 (members S q)) S S'"
      by (auto split: if_splits)
    have "deadlock_free sys S'" by (rule deadlock_free_fewer [OF parts(4) woken_waits [OF S'(4)]])
    then show ?thesis using S' by (auto simp: sound_def)
  next
    case (preempt t c p f r)
    then have "sint (suspended S t) < 1" "prio S t < 32" using reads(5,6) by simp_all
    then show ?thesis using requeue_running_sound [OF ok S preempt(1) _ _ preempt(6)] by blast
  next
    case (pick r)
    have alive: "state S t \<noteq> kThreadStateReady" if "t \<in> terminated" for t using pick(1,2) reads(4) that by force
    from pick_thread_picks [OF ok parts(1-3), of terminated] alive pick(3) consider "represents sys (S\<lparr>resched := 0\<rparr>) m'"
      | t where "represents sys (run_thread sys t S) m'" "well_formed sys (run_thread sys t S)" "settled sys (run_thread sys t S)"
      by auto
    then show ?thesis
    proof cases
      case 1
      have "well_formed sys (S\<lparr>resched := 0\<rparr>)"
        by (rule same_well_formed [OF parts(2)]) (use parts(2) in \<open>simp_all add: agree_def well_formed_def references_ok_def\<close>)
      moreover have "settled sys (S\<lparr>resched := 0\<rparr>)" "deadlock_free sys (S\<lparr>resched := 0\<rparr>)"
        using parts(3,4) deadlock_free_same [OF parts(4), of "S\<lparr>resched := 0\<rparr>"] by (simp_all add: settled_def)
      ultimately show ?thesis using 1 by (auto simp: sound_def)
    next
      case 2
      then show ?thesis using deadlock_free_fewer [OF parts(4) run_waits] by (auto simp: sound_def)
    qed
  qed
qed

end
