(* ===== verification/Os_Calls.thy ===== *)
theory Os_Calls
  imports Os_Example Os_Run
begin

text \<open>
  What the system calls of a guest do: to threads and their queues (src/platform/os/os_scheduler.cpp and
  os_thread.cpp), to mutexes and the priorities of those who hold them, to message queues (os_message.cpp), each shown
  on the memory itself and tried on the system of \<open>Os_Example\<close>.
\<close>

section \<open>Queues and priorities\<close>

text \<open>C16: InsertThreadIntoQueueByPriority links the thread behind everyone at least as urgent and in front of the
  rest: the chain of links in memory is the old queue with the thread put there, and a queue in order of priority
  stays in order, with threads of one priority first come, first served. All else is as \<open>insert_thread\<close> has it.\<close>

lemma InsertThread_by_priority:
  assumes ok: "system_ok sys" and rep: "represents sys S m" and q: "q \<in> set (queues sys)" and t: "t \<in> set (threads sys)" "unqueued sys t S"
    and order: "in_order (prio S) (members S q)"
  shows "\<exists>m'. InsertThreadIntoQueueByPriority sys q t (prio S t) m = Some m' \<and> represents sys (insert_thread sys q t (prio S t) S) m' \<and>
     linked m' (thread_queue q) (takeWhile (\<lambda>u. sint (prio S u) \<le> sint (prio S t)) (members S q) @
       t # dropWhile (\<lambda>u. sint (prio S u) \<le> sint (prio S t)) (members S q)) \<and>
     in_order (prio S) (takeWhile (\<lambda>u. sint (prio S u) \<le> sint (prio S t)) (members S q) @
       t # dropWhile (\<lambda>u. sint (prio S u) \<le> sint (prio S t)) (members S q))"
proof -
  from InsertThread_refines [OF ok rep q t, of "prio S t"] obtain m' where
    m': "InsertThreadIntoQueueByPriority sys q t (prio S t) m = Some m'" "represents sys (insert_thread sys q t (prio S t) S) m'" by blast
  from represents_lists(1) [OF m'(2) q] in_order_insert_by [OF order refl, of t] m' show ?thesis
    by (simp add: insert_thread_def insert_by_def)
qed

theorem InsertThread_by_priority_witness:
  "\<exists>m'. InsertThreadIntoQueueByPriority ex_sys 0x4000 0x2000 16 ex_mem = Some m' \<and> linked m' (thread_queue 0x4000) [0x3000, 0x2000]"
proof -
  have "0x4000 \<in> set (queues ex_sys)" "0x2000 \<in> set (threads ex_sys)" by (simp_all add: ex_sys_def)
  moreover have "unqueued ex_sys 0x2000 ex_state" "in_order (prio ex_state) (members ex_state 0x4000)"
    by (simp_all add: unqueued_def in_order_def ex_state_def)
  ultimately show ?thesis
    using InsertThread_by_priority [OF ex_ok ex_represents, of "0x4000" "0x2000"] by (auto simp: ex_state_def)
qed

text \<open>C15: ComputeThreadEffectivePriority, which walks the mutexes a thread holds and looks at who waits first for each,
  answers the most urgent of the thread's own priority and the priorities of all those waiters.\<close>

lemma ComputePriority_most_urgent:
  assumes "system_ok sys" "represents sys S m" "t \<in> set (threads sys)"
  shows "\<exists>p. ComputeThreadEffectivePriority t m = Some p \<and>
     sint p = Min (insert (sint (base_prio S t)) {sint (prio S w) |x w ws. x \<in> set (held S t) \<and> members S x = w # ws})"
  using Compute_effective [OF assms] fold_inherit [of S "held S t" "base_prio S t"] by (simp add: effective_def)

theorem ComputePriority_most_urgent_witness: "\<exists>p. ComputeThreadEffectivePriority 0x2000 ex_mem = Some p \<and> sint p = 16"
  using ComputePriority_most_urgent [OF ex_ok ex_represents, of "0x2000"] by (simp add: ex_sys_def ex_state_def)



section \<open>Threads\<close>

text \<open>C11: OSSuspendThread leaves well-formed memory well formed: every queue a proper list in order of priority, every
  thread on the queue its state and priority say, the mask of pending queues exact. It answers the old count, adds
  one to it, changes the state only of a thread that ran, and asks for another thread only if it must. It supposes that no
  threads wait for one another in a circle (the code's propagation of priorities would not end), that a waiting thread
  that is not suspended has a priority below 32, which it leaves so, and that the count is below 0x7FFFFFFF.\<close>

lemma OSSuspendThread_keeps:
  assumes "system_ok sys" "represents sys S m" "well_formed sys S" "settled sys S" "t \<in> set (threads sys)" "deadlock_free sys S"
    "suspended S t < 0x7FFFFFFF"
  shows "\<exists>m' S'. OSSuspendThread sys select t m =
       (if suspended S t = 0 \<and> resched S' \<noteq> 0 then do { m'' \<leftarrow> select m'; Some (suspended S t, m'') } else Some (suspended S t, m')) \<and>
     represents sys S' m' \<and> well_formed sys S' \<and> settled sys S' \<and>
     suspends t (suspended S t + 1) (if suspended S t = 0 then state_after_suspend (state S t) else state S t) S S'"
proof -
  from OSSuspendThread_refines [OF assms(1-3,5-7), of select] obtain m' S' where
    m': "OSSuspendThread sys select t m =
       (if suspended S t = 0 \<and> resched S' \<noteq> 0 then do { m'' \<leftarrow> select m'; Some (suspended S t, m'') } else Some (suspended S t, m'))"
     "represents sys S' m'" "well_formed sys S'"
     "suspends t (suspended S t + 1) (if suspended S t = 0 then state_after_suspend (state S t) else state S t) S S'"
    by blast
  from m' suspends_settled [OF m'(4) assms(4)] show ?thesis by blast
qed

theorem OSSuspendThread_keeps_witness:
  "\<exists>m' S'. OSSuspendThread ex_sys Some 0x6000 ex_mem = Some (0, m') \<and> represents ex_sys S' m' \<and> well_formed ex_sys S' \<and> suspended S' 0x6000 = 1"
proof -
  have at: "0x6000 \<in> set (threads ex_sys)" "suspended ex_state 0x6000 < 0x7FFFFFFF" by (simp_all add: ex_sys_def ex_state_def)
  from OSSuspendThread_keeps [OF ex_ok ex_represents ex_well_formed at(1) ex_deadlock_free at(2), of Some] obtain m' S' where
    m': "OSSuspendThread ex_sys Some 0x6000 ex_mem = (if suspended ex_state 0x6000 = 0 \<and> resched S' \<noteq> 0
         then do { m'' \<leftarrow> Some m'; Some (suspended ex_state 0x6000, m'') } else Some (suspended ex_state 0x6000, m'))"
      "represents ex_sys S' m'" "well_formed ex_sys S'" "suspended S' = (suspended ex_state)(0x6000 := suspended ex_state 0x6000 + 1)"
    unfolding suspends_def by blast
  show ?thesis using m' by (intro exI [of _ m'] exI [of _ S']) (simp add: ex_state_def)
qed

text \<open>C17: WakeupThreadQueue empties the queue, of up to 256 threads, and has each of them ready, and at the end of the run
  queue of its own priority unless it is suspended, in the order they waited in; a thread that is gone is dropped.
  The scheduler is called only if one of them can run.\<close>

lemma WakeupThreadQueue_wakes:
  assumes "system_ok sys" "q \<in> set (queues sys)" "\<not> is_run_queue sys q" "represents sys S m" "well_formed sys S" "settled sys S"
  shows "\<exists>m' S'. WakeupThreadQueue sys terminated select switch_now q m =
      (if switch_now \<and> list_ex (\<lambda>u. u \<notin> terminated \<and> sint (suspended S u) < 1) (take 256 (members S q)) then select m' else Some m') \<and>
    represents sys S' m' \<and> well_formed sys S' \<and> settled sys S' \<and> members S' q = drop 256 (members S q) \<and>
    woken sys terminated (take 256 (members S q)) S S'"
  by (rule WakeupThreadQueue_refines [OF assms])

theorem WakeupThreadQueue_wakes_witness:
  "\<exists>m' S'. WakeupThreadQueue ex_sys {} Some False 0x4000 ex_mem = Some m' \<and> represents ex_sys S' m' \<and> members S' 0x4000 = [] \<and>
     members S' (run_entry ex_sys 10) = [0x3000]"
proof -
  have "0x4000 \<in> set (queues ex_sys)" by (simp add: ex_sys_def)
  from WakeupThreadQueue_wakes [OF ex_ok this ex_run_queue(1) ex_represents ex_well_formed, of "{}" Some False] obtain m' S' where
    m': "WakeupThreadQueue ex_sys {} Some False 0x4000 ex_mem = Some m'" "represents ex_sys S' m'"
      "members S' 0x4000 = drop 256 (members ex_state 0x4000)" "woken ex_sys {} (take 256 (members ex_state 0x4000)) ex_state S'"
    by auto
  from m'(4) have "\<forall>k<32. members S' (run_entry ex_sys (of_nat k)) = members ex_state (run_entry ex_sys (of_nat k)) @
      filter (\<lambda>u. u \<notin> {} \<and> sint (suspended ex_state u) < 1 \<and> prio ex_state u = of_nat k) (take 256 (members ex_state 0x4000))"
    unfolding woken_def by blast
  then have "members S' (run_entry ex_sys (of_nat 10)) = members ex_state (run_entry ex_sys (of_nat 10)) @
      filter (\<lambda>u. u \<notin> {} \<and> sint (suspended ex_state u) < 1 \<and> prio ex_state u = of_nat 10) (take 256 (members ex_state 0x4000))"
    by (rule allE [of _ 10]) simp
  then have "members S' (run_entry ex_sys 10) = [0x3000]" by (simp add: ex_state_def run_entry_def ex_sys_def)
  then show ?thesis using m' by (intro exI [of _ m'] exI [of _ S']) (simp add: ex_state_def)
qed

text \<open>C10: SelectThread, called in the context of the thread that runs (or of one that has just gone to sleep, while
  another is ready) and with switching enabled, leaves that thread running if it need not give way and none that is ready,
  and not suspended, is more urgent. Otherwise it puts a running thread back as ready at the end of the run queue of its
  priority, and switches to a thread such that none that can run is more urgent: the one that has waited longest at its
  priority, which leaves its queue, and runs, and is the running context. It supposes that the system is well formed (a waiting thread that is
  not suspended has a priority below 32), that the contexts of threads lie apart from the scheduler's own cells, that the
  sleep timers have returned, that callbacks and saved contexts leave those cells alone and save rather than resume, that a
  running thread is not suspended and its priority is below 32, and that no thread whose fiber is gone is ready or running.\<close>

lemma SelectThread_most_urgent:
  assumes "system_ok sys" "sleep_timers host m0 = Some m" "can_select sys host S m"
    and alive: "\<And>t. t \<in> fibers_gone host \<Longrightarrow> state S t \<noteq> kThreadStateReady \<and> state S t \<noteq> kThreadStateRunning"
    and some: "state S (running S) = kThreadStateRunning \<or> awake sys S w"
  shows "if state S (running S) = kThreadStateRunning \<and> forceSwitch = 0 \<and> (\<forall>u. awake sys S u \<longrightarrow> prio S (running S) \<le> prio S u)
     then SelectThread sys host forceSwitch m0 = Some (0, m)
     else \<exists>t ts m'. SelectThread sys host forceSwitch m0 = Some (t, m') \<and> awake sys (put_back sys S) t \<and>
       (\<forall>u. awake sys (put_back sys S) u \<longrightarrow> prio S t \<le> prio S u) \<and> members (put_back sys S) (run_entry sys (prio S t)) = t # ts \<and>
       represents sys (switched sys t (put_back sys S)) m' \<and> well_formed sys (switched sys t (put_back sys S)) \<and>
       settled sys (switched sys t (put_back sys S))"
proof -
  note now = can_selectD [OF assms(3)]
  have gone: "state (put_back sys S) t \<noteq> kThreadStateReady" if "t \<in> fibers_gone host" for t
    using alive [OF that] by (auto simp: put_back_def preempted_def)
  obtain w' where w': "awake sys (put_back sys S) w'"
  proof (cases "state S (running S) = kThreadStateRunning")
    case True
    then show thesis using awake_preempted(1) [OF now(8,9)] that by (auto simp: put_back_def)
  qed (use some that in \<open>auto simp: put_back_def\<close>)
  show ?thesis
  proof (split if_split, intro conjI impI)
    assume "state S (running S) = kThreadStateRunning \<and> forceSwitch = 0 \<and> (\<forall>u. awake sys S u \<longrightarrow> prio S (running S) \<le> prio S u)"
    then show "SelectThread sys host forceSwitch m0 = Some (0, m)"
      by (intro SelectThread_keeps [OF assms(1-3)]) (simp add: may_stay_def)
  next
    assume "\<not> (state S (running S) = kThreadStateRunning \<and> forceSwitch = 0 \<and> (\<forall>u. awake sys S u \<longrightarrow> prio S (running S) \<le> prio S u))"
    then have "\<not> may_stay sys forceSwitch S" by (simp add: may_stay_def)
    from SelectThread_switches [OF assms(1-3) this gone w'] show "\<exists>t ts m'. SelectThread sys host forceSwitch m0 = Some (t, m') \<and>
       awake sys (put_back sys S) t \<and> (\<forall>u. awake sys (put_back sys S) u \<longrightarrow> prio S t \<le> prio S u) \<and>
       members (put_back sys S) (run_entry sys (prio S t)) = t # ts \<and> represents sys (switched sys t (put_back sys S)) m' \<and>
       well_formed sys (switched sys t (put_back sys S)) \<and> settled sys (switched sys t (put_back sys S))" .
  qed
qed

theorem SelectThread_most_urgent_witness:
  "\<exists>m'. SelectThread ex_sys ex_host 0 ex_mem = Some (0x6000, m') \<and>
     represents ex_sys (switched ex_sys 0x6000 (put_back ex_sys ex_state)) m'"
proof -
  have some: "state ex_state (running ex_state) = kThreadStateRunning \<or> awake ex_sys ex_state 0"
    by (simp add: ex_state_def thread_states)
  have ready: "awake ex_sys ex_state 0x6000" "prio ex_state 0x6000 < prio ex_state (running ex_state)"
    by (simp_all add: awake_def ex_sys_def ex_state_def thread_states)
  have "\<not> (state ex_state (running ex_state) = kThreadStateRunning \<and> 0 = (0 :: u32) \<and>
      (\<forall>u. awake ex_sys ex_state u \<longrightarrow> prio ex_state (running ex_state) \<le> prio ex_state u))"
    using ready by (auto simp: not_le)
  with SelectThread_most_urgent [where forceSwitch = 0, OF ex_ok ex_host_timers ex_can_select ex_fibers some] obtain t ts m' where
    m': "SelectThread ex_sys ex_host 0 ex_mem = Some (t, m')" "represents ex_sys (switched ex_sys t (put_back ex_sys ex_state)) m'"
    and t: "awake ex_sys (put_back ex_sys ex_state) t"
      "\<forall>u. awake ex_sys (put_back ex_sys ex_state) u \<longrightarrow> prio ex_state t \<le> prio ex_state u"
    by (simp only: if_False) blast
  have "t \<in> {0x2000, 0x3000, 0x6000}" using t(1) by (simp add: awake_def ex_sys_def)
  moreover have "awake ex_sys (put_back ex_sys ex_state) 0x6000"
    by (simp add: awake_def put_back_def preempted_def ex_sys_def ex_state_def thread_states)
  ultimately have "t \<in> {0x2000, 0x3000, 0x6000}" "prio ex_state t \<le> prio ex_state 0x6000" using t(2) by blast+
  then have "t = 0x6000" by (auto simp: ex_state_def)
  then show ?thesis using m' by blast
qed

section \<open>Mutexes\<close>



text \<open>C18: OSUnlockMutex by the owner takes one lock off; the last one frees the mutex, takes it off the thread's list,
  has the thread give back the priority it was lent for it, and only then wakes the waiters.\<close>

lemma OSUnlockMutex_frees:
  assumes ok: "system_ok sys" "represents sys S m" "ownership_ok sys S" "well_formed sys S" "running_ok sys S" "x \<in> set (mutexes sys)" "owner S x = running S"
  defines "S' \<equiv> (if lock_count S x = 1 then release (running S) x S else S\<lparr>lock_count := (lock_count S)(x := lock_count S x - 1)\<rparr>)"
  shows "\<exists>m'. OSUnlockMutex wake x m = (if lock_count S x = 1 then wake x m' else Some m') \<and> represents sys S' m' \<and>
     well_formed sys S' \<and> ownership_ok sys S'"
proof (cases "lock_count S x = 1")
  case True
  then show ?thesis using OSUnlockMutex_releases(1) [OF ok] by (simp add: S'_def)
next
  case False
  have "well_formed sys (S\<lparr>lock_count := (lock_count S)(x := lock_count S x - 1)\<rparr>)"
    by (rule same_well_formed [OF ok(4)]) (use ok(4) in \<open>simp_all add: agree_def well_formed_def references_ok_def\<close>)
  then show ?thesis using False OSUnlockMutex_releases(2) [OF ok] by (simp add: S'_def)
qed

theorem OSUnlockMutex_frees_witness:
  "\<exists>m'. OSUnlockMutex (\<lambda>x. Some) 0x5000 ex_mem = Some m' \<and> represents ex_sys (release 0x2000 0x5000 ex_state) m'"
proof -
  have at: "ownership_ok ex_sys ex_state" "running_ok ex_sys ex_state" "0x5000 \<in> set (mutexes ex_sys)" "owner ex_state 0x5000 = running ex_state"
    by (simp_all add: ownership_ok_def running_ok_def ex_sys_def ex_state_def thread_states)
  have "lock_count ex_state 0x5000 = 1" "running ex_state = 0x2000" by (simp_all add: ex_state_def)
  then show ?thesis using OSUnlockMutex_frees [OF ex_ok ex_represents at(1) ex_well_formed(1) at(2-4), of "\<lambda>x. Some"] by auto
qed

section \<open>Messages\<close>

text \<open>C13: A message queue is a ring in guest memory that holds a list of messages: sending appends to the list,
  receiving takes its first message, jamming puts one in front, wherever in the ring the list starts.\<close>

lemma MsgQueue_fifo:
  assumes h: "holds q arr cap xs m" and ok: "msg_ok q arr cap" and room: "length xs < cap"
  shows "\<exists>m1 m2 m3 m4. MsgQueueEnqueue q msg m = Some m1 \<and> holds q arr cap (xs @ [msg]) m1 \<and>
     MsgQueueDequeue q m1 = Some (hd (xs @ [msg]), m2) \<and> holds q arr cap (tl (xs @ [msg])) m2 \<and>
     MsgQueueJam q msg' m2 = Some m3 \<and> holds q arr cap (msg' # tl (xs @ [msg])) m3 \<and>
     MsgQueueDequeue q m3 = Some (msg', m4) \<and> holds q arr cap (tl (xs @ [msg])) m4 \<and> same_but (msg_cells q arr cap) m m1"
proof -
  from Enqueue_appends [OF h ok room] obtain m1 where
    m1: "MsgQueueEnqueue q msg m = Some m1" "holds q arr cap (xs @ [msg]) m1" "same_but (msg_cells q arr cap) m m1" by blast
  have "xs @ [msg] = hd (xs @ [msg]) # tl (xs @ [msg])" by simp
  with m1(2) have "holds q arr cap (hd (xs @ [msg]) # tl (xs @ [msg])) m1" by simp
  from Dequeue_takes [OF this ok] obtain m2 where
    m2: "MsgQueueDequeue q m1 = Some (hd (xs @ [msg]), m2)" "holds q arr cap (tl (xs @ [msg])) m2" by blast
  have "length (tl (xs @ [msg])) < cap" using room by simp
  from Jam_prepends [OF m2(2) ok this] obtain m3 where
    m3: "MsgQueueJam q msg' m2 = Some m3" "holds q arr cap (msg' # tl (xs @ [msg])) m3" by blast
  from Dequeue_takes [OF m3(2) ok] m1 m2 m3 show ?thesis by blast
qed

definition ex_full :: gmem where
  "ex_full = word_mem (\<lambda>a. case map_of ((0x4014, 2) # ex_words) a of None \<Rightarrow> 0 | Some v \<Rightarrow> v)"

lemma ex_msg: "msg_ok 0x3FF8 0x7000 2" "holds 0x3FF8 0x7000 2 [] ex_mem" "holds 0x3FF8 0x7000 2 [0, 0] ex_full"
proof -
  note simps = ex_mem_def ex_full_def ex_words_def msg_slot_def aligned_def kMsgQueueArrayOffset_def kMsgQueueCountOffset_def
    kMsgQueueFirstOffset_def kMsgQueueUsedOffset_def
  have two: "i < Suc (Suc 0) \<longleftrightarrow> i = 0 \<or> i = Suc 0" "i < 2 \<longleftrightarrow> i = 0 \<or> i = Suc 0" for i by auto
  show "msg_ok 0x3FF8 0x7000 2" by (simp add: msg_ok_def msg_cells_def msg_fields_def simps upt_rec)
  show "holds 0x3FF8 0x7000 2 [] ex_mem" unfolding holds_def by (rule exI [of _ 0]) (auto simp: simps two)
  show "holds 0x3FF8 0x7000 2 [0, 0] ex_full" unfolding holds_def by (rule exI [of _ 0]) (auto simp: simps two)
qed

theorem MsgQueue_fifo_witness:
  "\<exists>m1 m2 m3 m4. MsgQueueEnqueue 0x3FF8 7 ex_mem = Some m1 \<and> MsgQueueDequeue 0x3FF8 m1 = Some (7, m2) \<and>
     MsgQueueJam 0x3FF8 9 m2 = Some m3 \<and> MsgQueueDequeue 0x3FF8 m3 = Some (9, m4) \<and> holds 0x3FF8 0x7000 2 [] m4"
  using MsgQueue_fifo [OF ex_msg(2,1), of 7 9] by fastforce

text \<open>C8: A sender that may block is not stuck, and does not lose its message: it sleeps as often as it finds the queue
  full, and once it wakes to find room the message is in, behind all others, and the receivers are woken.\<close>

lemma SendMessage_waits:
  assumes q: "q \<noteq> 0" and ok: "msg_ok q arr cap" and block: "flags AND 1 \<noteq> 0"
    and full: "\<And>i. i < n \<Longrightarrow> \<exists>ys. holds q arr cap ys (ms i) \<and> length ys = cap"
    and slept: "\<And>i. i < n \<Longrightarrow> sleep (q + kMsgQueueSendOffset) (ms i) = Some (ms (Suc i))"
    and room: "holds q arr cap xs (ms n)" "length xs < cap"
  shows "\<exists>m1. SendMessage wake sleep q msg flags (ms 0) = do { m' \<leftarrow> wake (q + kMsgQueueRecvOffset) m1; Some (1, m') } \<and>
     holds q arr cap (xs @ [msg]) m1 \<and> same_but (msg_cells q arr cap) (ms n) m1"
proof -
  let ?ready = "\<lambda>m. map_option Not (MsgQueueIsFull q m)"
  have wait: "?ready (ms i) = Some False" if "i < n" for i using full [OF that] MsgQueueIs(1) [OF _ ok] by fastforce
  have go: "?ready (ms n) = Some True" using MsgQueueIs(1) [OF room(1) ok] room(2) by simp
  from Enqueue_appends [OF room(1) ok room(2)] obtain m1 where
    m1: "MsgQueueEnqueue q msg (ms n) = Some m1" "holds q arr cap (xs @ [msg]) m1" "same_but (msg_cells q arr cap) (ms n) m1" by blast
  have "SendMessage wake sleep q msg flags (ms 0) = do { m' \<leftarrow> wake (q + kMsgQueueRecvOffset) m1; Some (1, m') }"
    using MsgQueueOp_waits [of n ?ready ms "sleep (q + kMsgQueueSendOffset)" "MsgQueueEnqueue q msg" "wake (q + kMsgQueueRecvOffset)", OF wait slept]
      MsgQueueOp_now [of ?ready "ms n" "MsgQueueEnqueue q msg" m1, OF go m1(1)] q block
    by (simp add: SendMessage_def)
  then show ?thesis using m1 by blast
qed

theorem SendMessage_waits_witness:
  "\<exists>m1. SendMessage (\<lambda>_. Some) (\<lambda>_ _. Some ex_mem) 0x3FF8 7 1 ex_full = Some (1, m1) \<and> holds 0x3FF8 0x7000 2 [7] m1"
proof -
  let ?ms = "\<lambda>i. if i = (0 :: nat) then ex_full else ex_mem"
  have full: "\<exists>ys. holds 0x3FF8 0x7000 2 ys (?ms i) \<and> length ys = 2" if "i < 1" for i
    using ex_msg(3) that by (intro exI [of _ "[0, 0]"]) simp
  from SendMessage_waits [where n = 1 and ms = ?ms and sleep = "\<lambda>_ _. Some ex_mem" and wake = "\<lambda>_. Some" and q = "0x3FF8" and flags = 1
      and xs = "[]" and msg = 7, OF _ ex_msg(1) _ full] ex_msg(2)
  show ?thesis by auto
qed

text \<open>C12: With the system's own wake, in a well-formed system where a waiting thread that is not suspended has a priority
  below 32: if the ring has room, and its cells are none of the scheduler's, a message that is sent stands in the ring
  behind the others, and then those that waited to receive are woken, up to 256 of them: each is ready, and stands at the
  end of the run queue of its priority, in the order they waited in, unless it is suspended; one whose fiber is gone is
  dropped; whoever waited behind the 256 still waits. The scheduler is called only if one of those woken can run, and
  up to then the system stays well formed.\<close>

lemma SendMessage_wakes:
  assumes ok: "system_ok sys" and rep: "represents sys S m" and S: "well_formed sys S" "settled sys S"
    and recv: "q + kMsgQueueRecvOffset \<in> set (queues sys)" "\<not> is_run_queue sys (q + kMsgQueueRecvOffset)"
    and msgs: "msg_ok q arr cap" "holds q arr cap xs m" "length xs < cap" "q \<noteq> 0"
    and apart: "\<And>p. p \<in> places sys \<Longrightarrow> addr sys p \<notin> set (msg_cells q arr cap)"
  defines "ts \<equiv> take 256 (members S (q + kMsgQueueRecvOffset))"
  shows "\<exists>m1 m' S'. holds q arr cap (xs @ [msg]) m1 \<and>
     SendMessage (WakeupThreadQueue sys terminated select True) sleep q msg flags m =
       (if list_ex (\<lambda>u. u \<notin> terminated \<and> sint (suspended S u) < 1) ts then do { m'' \<leftarrow> select m'; Some (1, m'') } else Some (1, m')) \<and>
     WakeupThreadQueue sys terminated select False (q + kMsgQueueRecvOffset) m1 = Some m' \<and>
     represents sys S' m' \<and> well_formed sys S' \<and> settled sys S' \<and> woken sys terminated ts S S'"
proof -
  have go: "map_option Not (MsgQueueIsFull q m) = Some True" using MsgQueueIs(1) [OF msgs(2,1)] msgs(3) by simp
  from Enqueue_appends [OF msgs(2,1,3)] obtain m1 where
    m1: "MsgQueueEnqueue q msg m = Some m1" "holds q arr cap (xs @ [msg]) m1" "same_but (msg_cells q arr cap) m m1" by blast
  have rep1: "represents sys S m1" by (rule represents_elsewhere [OF ok rep m1(3) apart])
  have "q + kMsgQueueRecvOffset \<noteq> 0" by (rule queue_not_zero [OF ok recv(1)])
  then have both: "WakeupThreadQueue sys terminated select b (q + kMsgQueueRecvOffset) m1 =
      do { (m, again) \<leftarrow> wake_queue sys terminated (q + kMsgQueueRecvOffset) kMaxWake False m1; if b \<and> again then select m else Some m }" for b
    by (simp add: WakeupThreadQueue_def)
  from wake_queue_refines [OF ok recv rep1 S, of terminated kMaxWake False] obtain m' S' where
    m': "wake_queue sys terminated (q + kMsgQueueRecvOffset) kMaxWake False m1 =
        Some (m', list_ex (\<lambda>u. u \<notin> terminated \<and> sint (suspended S u) < 1) ts)"
      "represents sys S' m'" "well_formed sys S'" "settled sys S'" "woken sys terminated ts S S'"
    unfolding kMaxWake_def ts_def simp_thms by blast
  have "SendMessage (WakeupThreadQueue sys terminated select True) sleep q msg flags m =
     do { m'' \<leftarrow> WakeupThreadQueue sys terminated select True (q + kMsgQueueRecvOffset) m1; Some (1, m'') }"
    using go m1(1) msgs(4) by (simp add: SendMessage_def MsgQueueOp_now)
  then show ?thesis using m1(2) m' both by (intro exI [of _ m1] exI [of _ m'] exI [of _ S']) simp
qed

theorem SendMessage_wakes_witness:
  "\<exists>m' S'. SendMessage (WakeupThreadQueue ex_sys {} Some True) (\<lambda>_. Some) 0x3FF8 7 1 ex_mem = Some (1, m') \<and> represents ex_sys S' m' \<and>
     state S' 0x3000 = kThreadStateReady"
proof -
  have recv: "0x3FF8 + kMsgQueueRecvOffset \<in> set (queues ex_sys)" "\<not> is_run_queue ex_sys (0x3FF8 + kMsgQueueRecvOffset)"
    using ex_run_queue(1) by (simp_all add: kMsgQueueRecvOffset_def ex_sys_def)
  have "list_all (\<lambda>a. unat a \<notin> {0x4008, 0x400C, 0x4010, 0x4014, 0x7000, 0x7004}) (map (addr ex_sys) (scalar_places ex_sys @ link_places ex_sys))"
    by (simp add: ex_simps)
  then have far: "\<forall>a \<in> set (map (addr ex_sys) (scalar_places ex_sys @ link_places ex_sys)).
      unat a \<notin> {0x4008, 0x400C, 0x4010, 0x4014, 0x7000, 0x7004}"
    by (simp only: list_all_iff)
  have apart: "addr ex_sys p \<notin> set (msg_cells 0x3FF8 0x7000 2)" if "p \<in> places ex_sys" for p
  proof -
    have "unat (addr ex_sys p) \<notin> {0x4008, 0x400C, 0x4010, 0x4014, 0x7000, 0x7004}"
      by (rule bspec [OF far]) (use that in \<open>auto simp: places_def\<close>)
    then show ?thesis
      by (auto simp: msg_cells_def msg_fields_def msg_slot_def kMsgQueueArrayOffset_def kMsgQueueCountOffset_def
        kMsgQueueFirstOffset_def kMsgQueueUsedOffset_def upt_rec)
  qed
  have at: "length ([] :: u32 list) < 2" "(0x3FF8 :: u32) \<noteq> 0" by simp_all
  have waits: "members ex_state (0x3FF8 + kMsgQueueRecvOffset) = [0x3000]" by (simp add: kMsgQueueRecvOffset_def ex_state_def)
  from SendMessage_wakes [where terminated = "{}" and select = Some and sleep = "\<lambda>_. Some" and msg = 7 and flags = 1,
      OF ex_ok ex_represents ex_well_formed recv ex_msg(1,2) at apart] obtain m' S' where
    m': "SendMessage (WakeupThreadQueue ex_sys {} Some True) (\<lambda>_. Some) 0x3FF8 7 1 ex_mem = Some (1, m')" "represents ex_sys S' m'"
      "woken ex_sys {} [0x3000] ex_state S'"
    unfolding waits by (auto split: if_splits)
  then show ?thesis by (intro exI [of _ m'] exI [of _ S']) (simp add: woken_def)
qed

section \<open>Any sequence of calls\<close>



end
