(* ===== verification/Sliding_Window.thy ===== *)
theory Sliding_Window
  imports Prelude
begin

text \<open>
  What the sliding-window decoders of format/archive share (Yaz0 in yaz0.cpp, the two LZ kinds
  in cx.cpp): the reader that ends a decode at the end of the stream, the forward copy inside
  the output, the meaning of a stream as a list of tokens, and the contract \<open>lz_decoder\<close> between
  a decoder's loop body and its token syntax. Inside the contract the safety of the loop, its
  termination and its agreement with the token semantics are proved once.
\<close>

section \<open>The pieces the decoders are made of\<close>

text \<open>The lambda \<open>next\<close>: a byte and the moved cursor, or (its -1) nothing at the end.\<close>

definition next_byte :: "bytes \<Rightarrow> nat \<Rightarrow> u8 option \<times> nat" where
  "next_byte src r = (if r < length src then (Some (src ! r), r + 1) else (None, r))"

text \<open>The copy loop: forward, a byte at a time, both cursors 32 bits wide.\<close>

fun lz_copy :: "bytes \<Rightarrow> u32 \<Rightarrow> u32 \<Rightarrow> nat \<Rightarrow> (bytes \<times> u32) option" where
  "lz_copy dst frm written 0 = Some (dst, written)"
| "lz_copy dst frm written (Suc n) =
     do { b \<leftarrow> rd dst (unat frm);
          dst' \<leftarrow> wr dst (unat written) b;
          lz_copy dst' (frm + 1) (written + 1) n }"

section \<open>What a stream means\<close>

datatype token = Lit u8 | Ref nat nat

fun copy_run :: "bytes \<Rightarrow> nat \<Rightarrow> nat \<Rightarrow> bytes" where
  "copy_run out d 0 = out"
| "copy_run out d (Suc n) = copy_run (out @ [out ! (length out - d)]) d n"

fun emit :: "bytes \<Rightarrow> token \<Rightarrow> bytes" where
  "emit out (Lit b) = out @ [b]"
| "emit out (Ref d n) = copy_run out d n"

fun token_ok :: "nat \<Rightarrow> bytes \<Rightarrow> token \<Rightarrow> bool" where
  "token_ok limit out (Lit b) = (length out < limit)"
| "token_ok limit out (Ref d n) = (1 \<le> d \<and> d \<le> length out \<and> length out + n \<le> limit)"

fun token_len :: "token \<Rightarrow> nat" where
  "token_len (Lit b) = 1"
| "token_len (Ref d n) = n"

fun expand :: "nat \<Rightarrow> bytes \<Rightarrow> token list \<Rightarrow> bytes option" where
  "expand limit out [] = Some out"
| "expand limit out (t # ts) = (if token_ok limit out t then expand limit (emit out t) ts else None)"

definition lz_step ::
  "('p \<Rightarrow> (token \<times> 'p) option) \<Rightarrow> ('p \<Rightarrow> bool) \<Rightarrow> nat \<Rightarrow> 'p \<times> bytes \<Rightarrow>
     (bytes option + 'p \<times> bytes) option" where
  "lz_step token accept limit = (\<lambda>(p, out).
     if length out < limit then
       (case token p of None \<Rightarrow> Some (Inl None)
        | Some (t, p') \<Rightarrow> if token_ok limit out t then Some (Inr (p', emit out t)) else Some (Inl None))
     else Some (Inl (if accept p then Some out else None)))"

definition lz_decode ::
  "('p \<Rightarrow> (token \<times> 'p) option) \<Rightarrow> ('p \<Rightarrow> bool) \<Rightarrow> nat \<Rightarrow> 'p \<Rightarrow> bytes option option" where
  "lz_decode token accept limit p = loop (lz_step token accept limit) (p, [])"

fun parses :: "('p \<Rightarrow> (token \<times> 'p) option) \<Rightarrow> 'p \<Rightarrow> token list \<Rightarrow> 'p \<Rightarrow> bool" where
  "parses token p [] q = (p = q)"
| "parses token p (t # ts) q = (\<exists>p'. token p = Some (t, p') \<and> parses token p' ts q)"

lemma copy_run_numeral [simp]:
  "copy_run out d (numeral k) = copy_run (out @ [out ! (length out - d)]) d (pred_numeral k)"
  by (simp add: numeral_eq_Suc)

lemma length_copy_run [simp]: "length (copy_run out d n) = length out + n"
  by (induction n arbitrary: out) auto

lemma length_emit [simp]: "length (emit out t) = length out + token_len t"
  by (cases t) auto

lemma take_copy_run: "k \<le> length out \<Longrightarrow> take k (copy_run out d n) = take k out"
  by (induction n arbitrary: out) auto

lemma copy_run_nth_old: "i < length out \<Longrightarrow> copy_run out d n ! i = out ! i"
  using take_copy_run [of "length out" out d n] by (metis nth_take order_refl)

text \<open>A run repeats what lies \<open>d\<close> bytes back, its own bytes included.\<close>

lemma copy_run_periodic:
  assumes "1 \<le> d" "d \<le> length out" "i < n"
  shows "copy_run out d n ! (length out + i) = copy_run out d n ! (length out + i - d)"
  using assms
proof (induction n arbitrary: out i)
  case 0
  then show ?case by simp
next
  case (Suc n)
  let ?o = "out @ [out ! (length out - d)]"
  show ?case
  proof (cases i)
    case 0
    with Suc.prems show ?thesis
      using copy_run_nth_old [of "length out" ?o d n] copy_run_nth_old [of "length out - d" ?o d n]
      by (simp add: nth_append)
  next
    case (Suc j)
    with Suc.prems Suc.IH [of ?o j] show ?thesis by simp
  qed
qed

lemma lz_copy_refines:
  assumes "unat written = length out" "1 \<le> d" "d \<le> length out" "frm = written - of_nat d"
    and "length out + n \<le> length out + length rest" "length out + n < 2 ^ 32"
  shows "lz_copy (out @ rest) frm written n =
           Some (copy_run out d n @ drop n rest, written + of_nat n)"
  using assms
proof (induction n arbitrary: out rest frm written)
  case 0
  then show ?case by simp
next
  case (Suc n)
  from Suc.prems obtain x xs where rest: "rest = x # xs" by (cases rest) auto
  have "unat (of_nat d :: u32) = d"
    using Suc.prems by (simp add: unat_of_nat take_bit_nat_eq_self)
  then have frm_eq: "unat frm = length out - d"
    using Suc.prems by (simp add: unat_sub word_le_nat_alt)
  let ?b = "out ! (length out - d)"
  have lt: "length out - d < length out" using Suc.prems by linarith
  have w1: "unat (written + 1) = length (out @ [?b])"
    using Suc.prems by (simp add: unat_word_ariths)
  have step: "lz_copy (out @ rest) frm written (Suc n) =
      lz_copy ((out @ [?b]) @ xs) (frm + 1) (written + 1) n"
    using lt Suc.prems frm_eq rest by (simp add: rd_def wr_def nth_append list_update_append)
  also have "\<dots> = Some (copy_run (out @ [?b]) d n @ drop n xs, written + 1 + of_nat n)"
    using Suc.prems w1 rest by (intro Suc.IH) (auto simp: algebra_simps)
  finally show ?case using rest by (simp add: algebra_simps)
qed

section \<open>Decoding is expanding the tokens of the stream\<close>

lemma parses_append:
  "parses token p (ts @ us) q \<longleftrightarrow> (\<exists>m. parses token p ts m \<and> parses token m us q)"
  by (induction ts arbitrary: p) auto

lemma expand_append:
  "expand limit out (ts @ us) = Option.bind (expand limit out ts) (\<lambda>mid. expand limit mid us)"
  by (induction ts arbitrary: out) auto

lemma length_expand:
  "expand limit out ts = Some out' \<Longrightarrow> length out' = length out + sum_list (map token_len ts)"
  by (induction ts arbitrary: out) (auto split: if_splits)

lemma lz_loop_parses:
  assumes "parses token p ts q" and "accept q" and "expand limit out ts = Some out'" and "length out' = limit"
    and "\<forall>t \<in> set ts. 1 \<le> token_len t"
  shows "loop (lz_step token accept limit) (p, out) = Some (Some out')"
  using assms
proof (induction ts arbitrary: p out)
  case Nil
  then show ?case by (auto intro: loop_Inl simp: lz_step_def)
next
  case (Cons t ts)
  then obtain p' where tok: "token p = Some (t, p')" and ok: "token_ok limit out t"
    and *: "parses token p' ts q" "expand limit (emit out t) ts = Some out'"
    by (auto split: if_splits)
  have "length out < limit" using length_expand [OF Cons.prems(3)] Cons.prems(4,5) by simp
  then have "lz_step token accept limit (p, out) = Some (Inr (p', emit out t))"
    using tok ok by (simp add: lz_step_def)
  then show ?case using Cons * by (simp add: loop_Inr)
qed

lemma lz_decode_parses:
  "parses token p ts q \<Longrightarrow> accept q \<Longrightarrow> expand limit [] ts = Some out \<Longrightarrow> length out = limit \<Longrightarrow>
     \<forall>t \<in> set ts. 1 \<le> token_len t \<Longrightarrow> lz_decode token accept limit p = Some (Some out)"
  unfolding lz_decode_def by (rule lz_loop_parses)

lemma lz_decode_sound:
  assumes "lz_decode token accept limit p = Some (Some out)"
  shows "\<exists>ts q. parses token p ts q \<and> accept q \<and> expand limit [] ts = Some out"
proof -
  let ?I = "\<lambda>(q, out). \<exists>ts. parses token p ts q \<and> expand limit [] ts = Some out"
  let ?Q = "\<lambda>r. \<forall>out. r = Some out \<longrightarrow> (\<exists>ts q. parses token p ts q \<and> accept q \<and> expand limit [] ts = Some out)"
  have "?Q (Some out)"
  proof (rule loop_invariant [OF assms [unfolded lz_decode_def], where I = ?I])
    show "?I (p, [])" by (auto intro!: exI [of _ "[]"])
  next
    fix s s' assume I: "?I s" and st: "lz_step token accept limit s = Some (Inr s')"
    then obtain q mid t q' where s: "s = (q, mid)" "s' = (q', emit mid t)" "token q = Some (t, q')"
      "token_ok limit mid t" by (auto simp: lz_step_def split: if_splits option.splits)
    moreover from I s obtain ts where "parses token p ts q" "expand limit [] ts = Some mid" by auto
    ultimately show "?I s'" by (auto intro!: exI [of _ "ts @ [t]"] simp: parses_append expand_append)
  next
    fix s r assume I: "?I s" and "lz_step token accept limit s = Some (Inl r)"
    then show "?Q r" by (cases s) (auto simp: lz_step_def split: if_splits option.splits; blast)
  qed
  then show ?thesis by simp
qed

section \<open>Groups of eight\<close>

fun is_lit :: "token \<Rightarrow> bool" where
  "is_lit (Lit b) = True"
| "is_lit (Ref d n) = False"

text \<open>
  The flag byte in front of a group of at most eight tokens, most significant bit first; \<open>P\<close> says
  which tokens have their bit set.
\<close>

fun group_flags :: "(token \<Rightarrow> bool) \<Rightarrow> nat \<Rightarrow> token list \<Rightarrow> u8" where
  "group_flags P k [] = 0"
| "group_flags P k (t # ts) = (if P t then push_bit k 1 else 0) OR group_flags P (k - 1) ts"

function lz_stream :: "(token \<Rightarrow> bool) \<Rightarrow> (token \<Rightarrow> bytes) \<Rightarrow> token list \<Rightarrow> bytes" where
  "lz_stream P enc [] = []"
| "lz_stream P enc (t # ts) =
     group_flags P 7 (take 8 (t # ts)) # concat (map enc (take 8 (t # ts))) @
     lz_stream P enc (drop 8 (t # ts))"
  by pat_completeness auto
termination by (relation "measure (\<lambda>(_, _, ts). length ts)") auto

declare lz_stream.simps(2) [simp del]

lemma bit_group_flags_above: "length ts \<le> k + 1 \<Longrightarrow> k < j \<Longrightarrow> \<not> bit (group_flags P k ts) j"
proof (induction ts arbitrary: k)
  case (Cons t ts)
  have "\<not> bit (group_flags P (k - 1) ts) j"
    using Cons by (cases "ts = []") auto
  with Cons.prems show ?case by (auto simp: bit_or_iff bit_exp_iff)
qed simp

lemma bit_group_flags_head:
  assumes "length (t # ts) \<le> k + 1" "k < 8"
  shows "bit (group_flags P k (t # ts)) k = P t"
proof -
  have "\<not> bit (group_flags P (k - 1) ts) k"
  proof (cases ts)
    case (Cons u us)
    with assms show ?thesis by (intro bit_group_flags_above) auto
  qed simp
  with assms show ?thesis by (auto simp: bit_or_iff bit_exp_iff)
qed

lemma bit_group_flags_tail:
  "j < k \<Longrightarrow> bit (group_flags P k (t # ts)) j = bit (group_flags P (k - 1) ts) j"
  by (auto simp: bit_or_iff bit_exp_iff)

section \<open>The contract between a loop body and its token syntax\<close>

text \<open>
  \<open>token\<close> reads one token, \<open>rest\<close> is what is left of the stream, \<open>body\<close> is one iteration of
  the decoder's loop for a declared size, and \<open>view\<close> shows the body's state as the cursor of the
  token syntax, the bytes written and the output buffer.
\<close>

locale lz_decoder =
  fixes token :: "'p \<Rightarrow> (token \<times> 'p) option"
    and ok :: "'p \<Rightarrow> bool"
    and accept :: "'p \<Rightarrow> bool"
    and rest :: "'p \<Rightarrow> nat"
    and max_len :: nat
    and body :: "u32 \<Rightarrow> 's \<Rightarrow> ((u32 \<times> bytes) + 's) option"
    and view :: "'s \<Rightarrow> 'p \<times> u32 \<times> bytes"
  assumes progress: "ok p \<Longrightarrow> token p = Some (t, p') \<Longrightarrow> ok p' \<and> rest p' < rest p"
    and ref_bounds: "ok p \<Longrightarrow> token p = Some (Ref d n, p') \<Longrightarrow> 1 \<le> d \<and> d < 2 ^ 32 \<and> 1 \<le> n \<and> n \<le> max_len"
    and body_done: "ok p \<Longrightarrow> view s = (p, w, dst) \<Longrightarrow> \<not> w < e \<Longrightarrow> body e s = Some (Inl (if accept p then w else 0, dst))"
    and body_end: "ok p \<Longrightarrow> view s = (p, w, dst) \<Longrightarrow> w < e \<Longrightarrow> token p = None \<Longrightarrow>
          body e s = Some (Inl (0, dst))"
    and body_lit: "ok p \<Longrightarrow> view s = (p, w, dst) \<Longrightarrow> w < e \<Longrightarrow> token p = Some (Lit b, p') \<Longrightarrow>
          unat w < length dst \<Longrightarrow>
          \<exists>s'. body e s = Some (Inr s') \<and> view s' = (p', w + 1, dst[unat w := b])"
    and body_bad: "ok p \<Longrightarrow> view s = (p, w, dst) \<Longrightarrow> w < e \<Longrightarrow> token p = Some (Ref d n, p') \<Longrightarrow>
          unat w < d \<or> e < w + of_nat n \<Longrightarrow> body e s = Some (Inl (0, dst))"
    and body_ref: "ok p \<Longrightarrow> view s = (p, w, dst) \<Longrightarrow> w < e \<Longrightarrow> token p = Some (Ref d n, p') \<Longrightarrow>
          d \<le> unat w \<Longrightarrow> w + of_nat n \<le> e \<Longrightarrow> lz_copy dst (w - of_nat d) w n = Some (dst', w') \<Longrightarrow>
          \<exists>s'. body e s = Some (Inr s') \<and> view s' = (p', w', dst')"
begin

lemma parses_len: "ok p \<Longrightarrow> parses token p ts q \<Longrightarrow> \<forall>t \<in> set ts. 1 \<le> token_len t"
proof (induction ts arbitrary: p)
  case (Cons t ts)
  then show ?case by (cases t) (auto dest: ref_bounds progress)
qed simp

text \<open>The states of the code and of the token semantics that belong together.\<close>

definition related :: "u32 \<Rightarrow> bytes \<Rightarrow> 's \<Rightarrow> 'p \<times> bytes \<Rightarrow> bool" where
  "related e dst0 s = (\<lambda>(p, out). ok p \<and> (\<exists>w. view s = (p, w, out @ drop (length out) dst0) \<and>
     unat w = length out \<and> length out \<le> unat e))"

definition outcome :: "u32 \<Rightarrow> bytes \<Rightarrow> u32 \<times> bytes \<Rightarrow> bytes option \<Rightarrow> bool" where
  "outcome e dst0 r out \<longleftrightarrow> (case out of
     None \<Rightarrow> fst r = 0 \<and> length (snd r) = length dst0 \<and> drop (unat e) (snd r) = drop (unat e) dst0
   | Some out \<Rightarrow> fst r = e \<and> length out = unat e \<and> snd r = out @ drop (unat e) dst0)"

lemma related_None:
  "related e dst0 s (p, out) \<Longrightarrow> unat e \<le> length dst0 \<Longrightarrow> view s = (p, w, dst) \<Longrightarrow>
     outcome e dst0 (0, dst) None"
  by (auto simp: related_def outcome_def)

lemma body_refines:
  assumes rel: "related e dst0 s t" and room: "unat e \<le> length dst0"
    and nowrap: "unat e + max_len < 2 ^ 32"
  shows "(\<exists>r r'. body e s = Some (Inl r) \<and> lz_step token accept (unat e) t = Some (Inl r') \<and> outcome e dst0 r r') \<or>
         (\<exists>s' t'. body e s = Some (Inr s') \<and> lz_step token accept (unat e) t = Some (Inr t') \<and>
            related e dst0 s' t' \<and> rest (fst (view s')) < rest (fst (view s)))"
proof -
  obtain p out where t: "t = (p, out)" by (cases t)
  from rel t obtain w where v: "view s = (p, w, out @ drop (length out) dst0)"
    and w: "unat w = length out" and le: "length out \<le> unat e"
    and ok: "ok p"
    by (auto simp: related_def)
  note none = related_None [OF rel [unfolded t] room v]
  show ?thesis
  proof (cases "w < e")
    case False
    with w le have "w = e" by (simp add: word_less_nat_alt word_unat_eq_iff)
    with False w room show ?thesis using body_done [OF ok v False]
      by (auto simp: lz_step_def t outcome_def)
  next
    case True
    then have lt: "length out < unat e" using w by (simp add: word_less_nat_alt)
    show ?thesis
    proof (cases "token p")
      case None
      then show ?thesis using body_end [OF ok v True None] lt none by (auto simp: lz_step_def t)
    next
      case (Some tp)
      then obtain tk p' where tok: "token p = Some (tk, p')" by (cases tp) auto
      note less = progress [OF ok tok]
      show ?thesis
      proof (cases tk)
        case (Lit b)
        obtain s' where "body e s = Some (Inr s')"
          "view s' = (p', w + 1, (out @ drop (length out) dst0)[unat w := b])"
          using body_lit [OF ok v True tok [unfolded Lit]] lt room w by auto
        moreover have "unat (w + 1) = Suc (length out)"
          using w lt nowrap by (simp add: unat_word_ariths)
        moreover have "(out @ drop (length out) dst0)[unat w := b] = out @ b # drop (Suc (length out)) dst0"
          using w lt room by (simp add: list_update_append Cons_nth_drop_Suc [symmetric])
        ultimately show ?thesis using tok lt less v Lit
          by (auto simp: lz_step_def t related_def)
      next
        case (Ref d n)
        note bnd = ref_bounds [OF ok tok [unfolded Ref]]
        have n_small: "unat (w + of_nat n) = length out + n"
          using bnd w le nowrap by (simp add: unat_word_ariths unat_of_nat take_bit_nat_eq_self)
        show ?thesis
        proof (cases "unat w < d \<or> e < w + of_nat n")
          case True
          with n_small w show ?thesis using body_bad [OF ok v \<open>w < e\<close> tok [unfolded Ref] True] tok Ref lt none
            by (auto simp: lz_step_def t word_less_nat_alt)
        next
          case False
          then have fit: "d \<le> unat w" "w + of_nat n \<le> e" "d \<le> length out" "length out + n \<le> unat e"
            using n_small w by (auto simp: word_le_nat_alt word_less_nat_alt)
          have "lz_copy (out @ drop (length out) dst0) (w - of_nat d) w n =
              Some (copy_run out d n @ drop n (drop (length out) dst0), w + of_nat n)"
            using w bnd fit nowrap room by (intro lz_copy_refines) auto
          then obtain s' where "body e s = Some (Inr s')"
            "view s' = (p', w + of_nat n, copy_run out d n @ drop n (drop (length out) dst0))"
            using body_ref [OF ok v \<open>w < e\<close> tok [unfolded Ref] fit(1,2)] by blast
          then show ?thesis using tok lt less v Ref fit bnd n_small
            by (auto simp: lz_step_def t related_def add.commute)
        qed
      qed
    qed
  qed
qed

text \<open>
  The loop returns, never leaves a buffer, and computes the token semantics.
\<close>

theorem loop_decodes:
  assumes "view s = (p, 0, dst0)" and "ok p" and "unat e \<le> length dst0" and "unat e + max_len < 2 ^ 32"
  shows "\<exists>r out. loop (body e) s = Some r \<and> lz_decode token accept (unat e) p = Some out \<and>
           outcome e dst0 r out"
  unfolding lz_decode_def
proof (rule loop_refine [where m = "\<lambda>s. rest (fst (view s))" and R = "related e dst0"])
  show "related e dst0 s (p, [])" using assms(1,2) by (simp add: related_def)
qed (use body_refines [OF _ assms(3,4)] in blast)

lemma outcome_iff:
  assumes dec: "lz_decode token accept (unat e) p = Some out" and out: "outcome e dst0 r out" and e: "e \<noteq> 0"
    and ok: "ok p"
  shows "fst r = e \<and> snd r = d \<longleftrightarrow>
     (\<exists>ts q o'. parses token p ts q \<and> accept q \<and> expand (unat e) [] ts = Some o' \<and>
        length o' = unat e \<and> d = o' @ drop (unat e) dst0)" (is "?lhs \<longleftrightarrow> ?rhs")
proof
  assume r: ?lhs
  with out e obtain o' where o': "out = Some o'" by (cases out) (auto simp: outcome_def)
  with out r have "length o' = unat e" "d = o' @ drop (unat e) dst0" by (simp_all add: outcome_def)
  moreover obtain ts q where "parses token p ts q" "accept q" "expand (unat e) [] ts = Some o'"
    using lz_decode_sound [of token accept "unat e" p o'] dec o' by auto
  ultimately show ?rhs by (intro exI [of _ ts] exI [of _ q] exI [of _ o']) simp
next
  assume ?rhs
  then obtain ts q o' where *: "parses token p ts q" "accept q"
    "expand (unat e) [] ts = Some o'" "length o' = unat e" "d = o' @ drop (unat e) dst0" by blast
  have "\<forall>t \<in> set ts. 1 \<le> token_len t" using ok *(1) by (rule parses_len)
  from lz_decode_parses [of token p ts q accept, OF *(1-4) this] dec have "out = Some o'" by simp
  with out have "fst r = e" and "snd r = o' @ drop (unat e) dst0" by (simp_all add: outcome_def)
  with *(5) show ?lhs by simp
qed

end

end
