(* ===== verification/Yaz0.thy ===== *)
theory Yaz0
  imports Sliding_Window
begin

text \<open>
  src/format/archive/yaz0.cpp: the Yaz0 decoder. \<open>yaz0_body\<close> is one iteration of the while loop,
  \<open>Yaz0Decode\<close> the function; a null pointer is \<open>None\<close>, and the result is the returned count
  with the output buffer as the call leaves it.
\<close>

definition kYaz0HeaderSize :: nat where
  "kYaz0HeaderSize = 16"

definition Yaz0ExpandedSize :: "bytes option \<Rightarrow> u32 option" where
  "Yaz0ExpandedSize data = (case data of None \<Rightarrow> Some 0
     | Some p \<Rightarrow>
        if length p < 8 then Some 0
        else do { magic \<leftarrow> getn p 0 4;
                  if magic \<noteq> [0x59, 0x61, 0x7A, 0x30] then Some 0 else read32 p 4 })"

record yaz0 =
  y_read :: nat
  y_written :: u32
  y_mask :: u32
  y_flags :: u32
  y_dst :: bytes

definition yaz0_reference :: "u8 \<Rightarrow> u8 \<Rightarrow> u32" where
  "yaz0_reference high low = push_bit 8 (ucast high) OR ucast low"

text \<open>The new group byte when the last group is used up; nothing when the stream has ended.\<close>

definition yaz0_refill :: "bytes \<Rightarrow> yaz0 \<Rightarrow> yaz0 option" where
  "yaz0_refill src s =
     (if y_mask s = 0 then
        (case next_byte src (y_read s) of
           (None, _) \<Rightarrow> None
         | (Some g, r) \<Rightarrow> Some (s\<lparr>y_read := r, y_flags := ucast g, y_mask := 0x80\<rparr>))
      else Some s)"

definition yaz0_literal :: "bytes \<Rightarrow> yaz0 \<Rightarrow> ((u32 \<times> bytes) + yaz0) option" where
  "yaz0_literal src s =
     (case next_byte src (y_read s) of
        (None, _) \<Rightarrow> Some (Inl (0, y_dst s))
      | (Some literal, r) \<Rightarrow>
          do { dst \<leftarrow> wr (y_dst s) (unat (y_written s)) literal;
               Some (Inr (s\<lparr>y_read := r, y_dst := dst, y_written := y_written s + 1\<rparr>)) })"

text \<open>How long a run is: in the reference's top nibble, or in a byte of its own.\<close>

definition yaz0_count :: "bytes \<Rightarrow> u32 \<Rightarrow> nat \<Rightarrow> (u32 \<times> nat) option" where
  "yaz0_count src reference r =
     (if drop_bit 12 reference = 0 then
        (case next_byte src r of
           (None, _) \<Rightarrow> None
         | (Some extra, r) \<Rightarrow> Some (ucast extra + 18, r))
      else Some (drop_bit 12 reference + 2, r))"

definition yaz0_run :: "bytes \<Rightarrow> u32 \<Rightarrow> yaz0 \<Rightarrow> ((u32 \<times> bytes) + yaz0) option" where
  "yaz0_run src expanded s =
     (let (high, r1) = next_byte src (y_read s); (low, r2) = next_byte src r1 in
      case (high, low) of
        (Some high, Some low) \<Rightarrow>
          (let reference = yaz0_reference high low; distance = (reference AND 0xFFF) + 1 in
           if y_written s < distance then Some (Inl (0, y_dst s))
           else
             (case yaz0_count src reference r2 of
                None \<Rightarrow> Some (Inl (0, y_dst s))
              | Some (count, r3) \<Rightarrow>
                  if expanded < y_written s + count then Some (Inl (0, y_dst s))
                  else do { (dst, written) \<leftarrow>
                              lz_copy (y_dst s) (y_written s - distance) (y_written s) (unat count);
                            Some (Inr (s\<lparr>y_read := r3, y_dst := dst, y_written := written\<rparr>)) }))
      | _ \<Rightarrow> Some (Inl (0, y_dst s)))"

definition yaz0_body :: "bytes \<Rightarrow> u32 \<Rightarrow> yaz0 \<Rightarrow> ((u32 \<times> bytes) + yaz0) option" where
  "yaz0_body src expanded s =
    (if y_written s < expanded then
       (case yaz0_refill src s of
          None \<Rightarrow> Some (Inl (0, y_dst s))
        | Some s \<Rightarrow>
            do { x \<leftarrow> (if y_flags s AND y_mask s \<noteq> 0 then yaz0_literal src s
                      else yaz0_run src expanded s);
                 case x of Inl r \<Rightarrow> Some (Inl r)
                 | Inr s \<Rightarrow> Some (Inr (s\<lparr>y_mask := drop_bit 1 (y_mask s)\<rparr>)) })
     else Some (Inl (y_written s, y_dst s)))"

definition Yaz0Decode :: "bytes option \<Rightarrow> bytes option \<Rightarrow> (u32 \<times> bytes option) option" where
  "Yaz0Decode src dst =
     do { expanded \<leftarrow> Yaz0ExpandedSize src;
          case (src, dst) of
            (Some src, Some dst) \<Rightarrow>
              if expanded = 0 \<or> length dst < unat expanded \<or> length src < kYaz0HeaderSize
              then Some (0, Some dst)
              else do { (n, d) \<leftarrow> loop (yaz0_body src expanded)
                          \<lparr>y_read = kYaz0HeaderSize, y_written = 0, y_mask = 0, y_flags = 0, y_dst = dst\<rparr>;
                        Some (n, Some d) }
          | _ \<Rightarrow> Some (0, dst) }"

section \<open>The token syntax\<close>

text \<open>The stream a cursor of read position, group mask and group flags is looking at.\<close>

type_synonym yaz0_cursor = "nat \<times> u32 \<times> u32"

definition yaz0_group :: "bytes \<Rightarrow> yaz0_cursor \<Rightarrow> yaz0_cursor option" where
  "yaz0_group src = (\<lambda>(r, mask, flags).
     if mask = 0 then map_option (\<lambda>g. (r + 1, 0x80, ucast g)) (rd src r) else Some (r, mask, flags))"

definition yaz0_token :: "bytes \<Rightarrow> yaz0_cursor \<Rightarrow> (token \<times> yaz0_cursor) option" where
  "yaz0_token src p = do { (r, mask, flags) \<leftarrow> yaz0_group src p;
     if flags AND mask \<noteq> 0 then
       do { b \<leftarrow> rd src r; Some (Lit b, (r + 1, drop_bit 1 mask, flags)) }
     else do {
       high \<leftarrow> rd src r; low \<leftarrow> rd src (r + 1);
       (count, r') \<leftarrow> yaz0_count src (yaz0_reference high low) (r + 2);
       Some (Ref (unat (yaz0_reference high low AND 0xFFF) + 1) (unat count),
             (r', drop_bit 1 mask, flags)) } }"

lemma yaz0_reference_bounds:
  "unat (yaz0_reference high low AND 0xFFF) < 4096" "unat (drop_bit 12 (yaz0_reference high low)) < 16"
proof -
  show "unat (yaz0_reference high low AND 0xFFF) < 4096"
    by (simp add: unat_and_FFF)
  have "unat (yaz0_reference high low) < 65536"
    using unat_u8 [of high] unat_u8 [of low] unfolding yaz0_reference_def unat_pair32 by linarith
  then show "unat (drop_bit 12 (yaz0_reference high low)) < 16"
    by (simp add: unat_drop_bit)
qed

lemma yaz0_count_bounds:
  assumes "yaz0_count src (yaz0_reference high low) r = Some (count, r')"
  shows "1 \<le> unat count" "unat count \<le> 273" "r \<le> r'"
proof -
  have "1 \<le> unat count \<and> unat count \<le> 273 \<and> r \<le> r'"
  proof (cases "drop_bit 12 (yaz0_reference high low) = 0")
    case True
    with assms have "count = ucast (src ! r) + 18" and "r' = r + 1"
      by (auto simp: yaz0_count_def next_byte_def split: if_splits)
    then show ?thesis using unat_u8 [of "src ! r"] by (simp add: unat_word_ariths)
  next
    case False
    with assms have "count = drop_bit 12 (yaz0_reference high low) + 2" and "r' = r"
      by (simp_all add: yaz0_count_def)
    then show ?thesis
      using yaz0_reference_bounds(2) [of high low] by (simp add: unat_word_ariths)
  qed
  then show "1 \<le> unat count" "unat count \<le> 273" "r \<le> r'" by auto
qed

lemma yaz0_distance:
  "w < (yaz0_reference high low AND 0xFFF) + 1 \<longleftrightarrow> unat w < unat (yaz0_reference high low AND 0xFFF) + 1"
  "of_nat (unat (yaz0_reference high low AND 0xFFF) + 1) = (yaz0_reference high low AND 0xFFF) + 1"
  using yaz0_reference_bounds(1) [of high low] by (simp_all add: word_less_nat_alt unat_word_ariths)

definition yaz0_view :: "yaz0 \<Rightarrow> yaz0_cursor \<times> u32 \<times> bytes" where
  "yaz0_view s = ((y_read s, y_mask s, y_flags s), y_written s, y_dst s)"

lemma yaz0_refill_group:
  assumes "yaz0_view s = (p, w, dst)"
  shows "yaz0_group src p = map_option (\<lambda>s1. (y_read s1, y_mask s1, y_flags s1)) (yaz0_refill src s)"
    and "yaz0_refill src s = Some s1 \<Longrightarrow> y_dst s1 = dst \<and> y_written s1 = w \<and> y_read s \<le> y_read s1"
  using assms by (auto simp: yaz0_group_def yaz0_view_def yaz0_refill_def next_byte_def rd_def split: if_splits)

lemma yaz0_token_cases:
  assumes "yaz0_view s = (p, w, dst)" "yaz0_token src p = Some (t, p')"
  obtains s1 b where "yaz0_refill src s = Some s1" "y_flags s1 AND y_mask s1 \<noteq> 0" "t = Lit b"
      "y_read s1 < length src" "b = src ! y_read s1" "y_dst s1 = dst" "y_written s1 = w"
      "y_read s \<le> y_read s1" "p' = (y_read s1 + 1, drop_bit 1 (y_mask s1), y_flags s1)"
  | s1 high low count r where "yaz0_refill src s = Some s1" "y_flags s1 AND y_mask s1 = 0"
      "y_read s1 + 1 < length src" "high = src ! y_read s1" "low = src ! (y_read s1 + 1)"
      "yaz0_count src (yaz0_reference high low) (y_read s1 + 2) = Some (count, r)"
      "t = Ref (unat (yaz0_reference high low AND 0xFFF) + 1) (unat count)"
      "y_dst s1 = dst" "y_written s1 = w" "y_read s \<le> y_read s1"
      "p' = (r, drop_bit 1 (y_mask s1), y_flags s1)"
proof -
  note f = yaz0_refill_group [OF assms(1), of src]
  from assms(2) f(1) obtain s1 where s1: "yaz0_refill src s = Some s1"
    "yaz0_group src p = Some (y_read s1, y_mask s1, y_flags s1)"
    by (auto simp: yaz0_token_def split: Option.bind_splits)
  note f(2) [OF s1(1)]
  with s1 assms(2) that show thesis
    by (auto simp: yaz0_token_def rd_def split: if_splits Option.bind_splits)
qed

lemma yaz0_body_end:
  assumes v: "yaz0_view s = (p, w, dst)" and w: "w < e" and none: "yaz0_token src p = None"
  shows "yaz0_body src e s = Some (Inl (0, dst))"
proof (cases "yaz0_refill src s")
  case None
  with v w show ?thesis by (simp add: yaz0_body_def yaz0_view_def)
next
  case (Some s1)
  note f = yaz0_refill_group [OF v, of src] 
  from none f(1) Some have
    "(if y_flags s1 AND y_mask s1 \<noteq> 0 then rd src (y_read s1) = None
      else rd src (y_read s1) = None \<or> rd src (y_read s1 + 1) = None \<or>
        (\<exists>high low. rd src (y_read s1) = Some high \<and> rd src (y_read s1 + 1) = Some low \<and>
           yaz0_count src (yaz0_reference high low) (y_read s1 + 2) = None))"
    by (auto simp: yaz0_token_def split: if_splits Option.bind_splits)
  with v w Some f(2) [OF Some] show ?thesis
    by (auto simp: yaz0_body_def yaz0_view_def yaz0_literal_def yaz0_run_def next_byte_def rd_def Let_def
        split: if_splits)
qed

lemma yaz0_cursor_state: obtains s where "yaz0_view s = (p, 0, [])" "y_read s = fst p"
proof -
  obtain r m f where p: "p = (r, m, f)" by (cases p) auto
  have "yaz0_view \<lparr>y_read = r, y_written = 0, y_mask = m, y_flags = f, y_dst = []\<rparr> = (p, 0, [])"
    by (simp add: p yaz0_view_def)
  then show thesis by (rule that) (simp add: p)
qed

interpretation yaz0: lz_decoder "yaz0_token src" "\<lambda>_. True" "\<lambda>_. True" "\<lambda>p. length src - fst p" 273
  "yaz0_body src" yaz0_view for src
proof unfold_locales
  fix p t p'
  assume tok: "yaz0_token src p = Some (t, p')"
  obtain s where s: "yaz0_view s = (p, 0, [])" "y_read s = fst p" by (rule yaz0_cursor_state)
  from s(1) tok show "True \<and> length src - fst p' < length src - fst p"
    by (cases rule: yaz0_token_cases) (use s(2) in \<open>auto dest: yaz0_count_bounds(3)\<close>)
next
  fix p d n p'
  assume tok: "yaz0_token src p = Some (Ref d n, p')"
  obtain s where s: "yaz0_view s = (p, 0, [])" "y_read s = fst p" by (rule yaz0_cursor_state)
  from s(1) tok show "1 \<le> d \<and> d < 2 ^ 32 \<and> 1 \<le> n \<and> n \<le> 273"
  proof (cases rule: yaz0_token_cases)
    case (2 s1 high low count r)
    then show ?thesis
      using yaz0_reference_bounds(1) [of high low] yaz0_count_bounds [OF 2(6)] by simp
  qed simp
next
  fix s p w dst and e :: u32
  assume v: "yaz0_view s = (p, w, dst)"
  { assume "\<not> w < e"
    with v show "yaz0_body src e s = Some (Inl (if True then w else 0, dst))" by (auto simp: yaz0_view_def yaz0_body_def) }
  assume w: "w < e"
  { assume "yaz0_token src p = None"
    with v w show "yaz0_body src e s = Some (Inl (0, dst))" by (rule yaz0_body_end) }
  { fix b p' assume tok: "yaz0_token src p = Some (Lit b, p')" and room: "unat w < length dst"
    from v tok show "\<exists>s'. yaz0_body src e s = Some (Inr s') \<and> yaz0_view s' = (p', w + 1, dst[unat w := b])"
    proof (cases rule: yaz0_token_cases)
      case (1 s1 b)
      then show ?thesis using v w room
        by (simp add: yaz0_body_def yaz0_literal_def next_byte_def wr_def yaz0_view_def)
    qed simp }
  fix d n p' assume tok: "yaz0_token src p = Some (Ref d n, p')"
  { assume bad: "unat w < d \<or> e < w + of_nat n"
    from v tok show "yaz0_body src e s = Some (Inl (0, dst))"
    proof (cases rule: yaz0_token_cases)
      case (2 s1 high low count r)
      then show ?thesis using w v bad
        by (cases "e < w + count") (simp_all add: yaz0_body_def yaz0_run_def next_byte_def yaz0_view_def yaz0_distance(1) Let_def)
    qed simp }
  fix dst' w' assume ok: "d \<le> unat w" "w + of_nat n \<le> e" "lz_copy dst (w - of_nat d) w n = Some (dst', w')"
  from v tok show "\<exists>s'. yaz0_body src e s = Some (Inr s') \<and> yaz0_view s' = (p', w', dst')"
  proof (cases rule: yaz0_token_cases)
    case (2 s1 high low count r)
    from 2(7) have dn: "d = unat (yaz0_reference high low AND 0xFFF) + 1" "n = unat count" by simp_all
    from ok(3) have "lz_copy dst (w - ((yaz0_reference high low AND 0xFFF) + 1)) w (unat count) = Some (dst', w')"
      unfolding dn yaz0_distance(2) .
    then show ?thesis using w v ok 2
      by (simp add: yaz0_body_def yaz0_run_def next_byte_def yaz0_view_def yaz0_distance(1) Let_def not_less)
  qed simp
qed

section \<open>What the decoder does\<close>

lemma Yaz0ExpandedSize_defined: "\<exists>e. Yaz0ExpandedSize src = Some e"
  by (auto simp: Yaz0ExpandedSize_def getn_def read32_Some split: option.splits)

definition yaz0_start :: yaz0_cursor where
  "yaz0_start = (kYaz0HeaderSize, 0, 0)"

lemma Yaz0Decode_tokens:
  assumes "Yaz0ExpandedSize (Some src) = Some e" "e \<noteq> 0" "unat e \<le> length dst" "16 \<le> length src"
    and "unat e + 273 < 2 ^ 32"
  obtains r out where "Yaz0Decode (Some src) (Some dst) = Some (fst r, Some (snd r))"
    "lz_decode (yaz0_token src) (\<lambda>_. True) (unat e) yaz0_start = Some out" "yaz0.outcome e dst r out"
proof -
  have "\<exists>r out. loop (yaz0_body src e)
         \<lparr>y_read = kYaz0HeaderSize, y_written = 0, y_mask = 0, y_flags = 0, y_dst = dst\<rparr> = Some r \<and>
      lz_decode (yaz0_token src) (\<lambda>_. True) (unat e) yaz0_start = Some out \<and> yaz0.outcome e dst r out"
    using assms by (intro yaz0.loop_decodes) (simp_all add: yaz0_view_def yaz0_start_def)
  with assms that show thesis
    by (fastforce simp: Yaz0Decode_def kYaz0HeaderSize_def not_less)
qed

text \<open>Yaz0Decode never leaves its two buffers and always returns, for any stream and any output
  buffer: it returns 0 or the declared size, keeps the buffer's length and leaves what lies behind
  the declared size alone. The size has to stay 273 below 2^32, since the check of a run against
  the size is a 32-bit sum.\<close>

theorem Yaz0Decode_safe:
  assumes "Yaz0ExpandedSize src = Some e" and "unat e + 273 < 2 ^ 32"
  shows "\<exists>n d. Yaz0Decode src (Some dst) = Some (n, Some d) \<and> (n = 0 \<or> n = e) \<and>
           length d = length dst \<and> drop (unat e) d = drop (unat e) dst"
proof (cases "\<exists>p. src = Some p \<and> e \<noteq> 0 \<and> unat e \<le> length dst \<and> 16 \<le> length p")
  case True
  then obtain p where p: "src = Some p" "e \<noteq> 0" "unat e \<le> length dst" "16 \<le> length p" by blast
  obtain r out where "Yaz0Decode (Some p) (Some dst) = Some (fst r, Some (snd r))"
    "yaz0.outcome e dst r out"
    using Yaz0Decode_tokens [of p e dst] assms p by metis
  with p show ?thesis by (auto simp: yaz0.outcome_def split: option.splits)
next
  case False
  with assms show ?thesis
    by (auto simp: Yaz0Decode_def kYaz0HeaderSize_def not_le split: option.splits)
qed

definition yaz0_example :: bytes where
  "yaz0_example = [0x59, 0x61, 0x7A, 0x30, 0, 0, 0, 5, 0, 0, 0, 0, 0, 0, 0, 0, 0x80, 0x61, 0x20, 0x00]"

lemma yaz0_example_size: "Yaz0ExpandedSize (Some yaz0_example) = Some 5"
  by (simp add: yaz0_example_def Yaz0ExpandedSize_def getn_def read32_def rd_def be32_def)

lemma yaz0_example_bytes: "rd yaz0_example 16 = Some 0x80" "rd yaz0_example 17 = Some 0x61"
  "rd yaz0_example 18 = Some 0x20" "rd yaz0_example 19 = Some 0x00" "length yaz0_example = 20"
  by (simp_all add: yaz0_example_def rd_def)

lemma yaz0_example_tokens:
  "yaz0_token yaz0_example yaz0_start = Some (Lit 0x61, (18, 0x40, 0x80))"
  "yaz0_token yaz0_example (18, 0x40, 0x80) = Some (Ref 1 4, (20, 0x20, 0x80))"
proof -
  show "yaz0_token yaz0_example yaz0_start = Some (Lit 0x61, (18, 0x40, 0x80))"
    by (simp add: yaz0_start_def kYaz0HeaderSize_def yaz0_token_def yaz0_group_def yaz0_example_bytes)
  have "yaz0_reference 0x20 0 = 0x2000" by (simp add: yaz0_reference_def)
  moreover have "yaz0_count yaz0_example 0x2000 20 = Some (4, 20)" by (simp add: yaz0_count_def)
  ultimately show "yaz0_token yaz0_example (18, 0x40, 0x80) = Some (Ref 1 4, (20, 0x20, 0x80))"
    by (simp add: yaz0_token_def yaz0_group_def yaz0_example_bytes)
qed

lemma Yaz0Decode_safe_witness:
  "\<exists>n d. Yaz0Decode (Some yaz0_example) (Some [0, 0, 0, 0, 0, 0]) = Some (n, Some d) \<and>
     (n = 0 \<or> n = 5) \<and> length d = length [0, 0, 0, 0, 0, 0 :: u8] \<and> drop 5 d = [0]"
  using Yaz0Decode_safe [OF yaz0_example_size, of "[0, 0, 0, 0, 0, 0]"] by simp

lemma Yaz0Decode_iff:
  assumes "Yaz0ExpandedSize (Some src) = Some e" "e \<noteq> 0" "unat e \<le> length dst" "16 \<le> length src"
    and "unat e + 273 < 2 ^ 32"
  shows "Yaz0Decode (Some src) (Some dst) = Some (e, Some d) \<longleftrightarrow>
     (\<exists>ts q out. parses (yaz0_token src) yaz0_start ts q \<and> expand (unat e) [] ts = Some out \<and>
        length out = unat e \<and> d = out @ drop (unat e) dst)" (is "?lhs \<longleftrightarrow> ?rhs")
proof -
  obtain r out where run: "Yaz0Decode (Some src) (Some dst) = Some (fst r, Some (snd r))"
    and dec: "lz_decode (yaz0_token src) (\<lambda>_. True) (unat e) yaz0_start = Some out"
    and out: "yaz0.outcome e dst r out"
    using Yaz0Decode_tokens [OF assms] by metis
  have "?lhs \<longleftrightarrow> fst r = e \<and> snd r = d" using run by auto
  also have "\<dots> \<longleftrightarrow> ?rhs" using yaz0.outcome_iff [OF dec out assms(2) TrueI] by simp
  finally show ?thesis .
qed

text \<open>C1: Yaz0Decode succeeds with an output exactly when the stream parses, group by group, into
  literals and references whose meaning (each reference repeating what lies its distance back, its
  own bytes included) is that output and fills the declared size.\<close>

theorem Yaz0Decode_correct:
  assumes "Yaz0ExpandedSize (Some src) = Some e" "e \<noteq> 0" "unat e \<le> length dst" "16 \<le> length src"
    and "unat e + 273 < 2 ^ 32"
  shows "Yaz0Decode (Some src) (Some dst) = Some (e, Some d) \<longleftrightarrow>
     (\<exists>ts q out. parses (yaz0_token src) yaz0_start ts q \<and> expand (unat e) [] ts = Some out \<and>
        length out = unat e \<and> d = out @ drop (unat e) dst)"
  using assms by (rule Yaz0Decode_iff)

lemma Yaz0Decode_correct_witness:
  "Yaz0Decode (Some yaz0_example) (Some [0, 0, 0, 0, 0, 0]) = Some (5, Some [0x61, 0x61, 0x61, 0x61, 0x61, 0])"
proof (rule iffD2 [OF Yaz0Decode_correct [OF yaz0_example_size]])
  show "\<exists>ts q out. parses (yaz0_token yaz0_example) yaz0_start ts q \<and>
     expand (unat (5 :: u32)) [] ts = Some out \<and> length out = unat (5 :: u32) \<and>
     [0x61, 0x61, 0x61, 0x61, 0x61, 0] = out @ drop (unat (5 :: u32)) [0, 0, 0, 0, 0, 0]"
    by (intro exI [of _ "[Lit 0x61, Ref 1 4]"] exI [of _ "(20, 0x20, 0x80)"] exI [of _ "[0x61, 0x61, 0x61, 0x61, 0x61]"])
       (simp add: yaz0_example_tokens [simplified])
qed (simp_all add: yaz0_example_bytes)

section \<open>Streams the decoder accepts\<close>

fun yaz0_enc :: "token \<Rightarrow> bytes" where
  "yaz0_enc (Lit b) = [b]"
| "yaz0_enc (Ref d n) =
     (if n \<le> 17 then bytes16 (of_nat ((n - 2) * 4096 + (d - 1)))
      else bytes16 (of_nat (d - 1)) @ [of_nat (n - 18)])"

fun yaz0_enc_ok :: "token \<Rightarrow> bool" where
  "yaz0_enc_ok (Lit b) = True"
| "yaz0_enc_ok (Ref d n) = (1 \<le> d \<and> d \<le> 4096 \<and> 3 \<le> n \<and> n \<le> 273)"

definition yaz0_encode :: "nat \<Rightarrow> token list \<Rightarrow> bytes" where
  "yaz0_encode sz ts = [0x59, 0x61, 0x7A, 0x30] @ bytes32 (of_nat sz) @ replicate 8 0 @
     lz_stream is_lit yaz0_enc ts"

lemma yaz0_reference_bytes16:
  assumes "x < 65536"
  shows "unat (yaz0_reference (bytes16 (of_nat x) ! 0) (bytes16 (of_nat x) ! 1)) = x"
proof -
  have "unat (be16 (bytes16 (of_nat x) ! 0) (bytes16 (of_nat x) ! 1)) = x"
    using assms by (simp add: bytes16_def be16_bytes unat_of_nat take_bit_nat_eq_self)
  then show ?thesis unfolding unat_be16 yaz0_reference_def unat_pair32 .
qed

lemma yaz0_token_enc:
  assumes "yaz0_enc_ok t" "src = pre @ yaz0_enc t @ post" "m \<noteq> 0" "(f AND m \<noteq> 0) = is_lit t"
  shows "yaz0_token src (length pre, m, f) =
           Some (t, (length pre + length (yaz0_enc t), drop_bit 1 m, f))"
proof (cases t)
  case (Lit b)
  with assms show ?thesis by (simp add: yaz0_token_def yaz0_group_def rd_def)
next
  case (Ref d n)
  have dn: "1 \<le> d" "d \<le> 4096" "3 \<le> n" "n \<le> 273" using assms Ref by auto
  define x where "x = (if n \<le> 17 then (n - 2) * 4096 + (d - 1) else d - 1)"
  define high where "high = bytes16 (of_nat x) ! 0"
  define low where "low = bytes16 (of_nat x) ! 1"
  have x: "x < 65536" using dn by (auto simp: x_def)
  have b: "bytes16 (of_nat x) = [high, low]" by (simp add: high_def low_def bytes16_def)
  have ref: "unat (yaz0_reference high low) = x"
    using yaz0_reference_bytes16 [OF x] by (simp add: high_def low_def)
  have "unat (yaz0_reference high low AND 0xFFF) = x mod 4096"
    using ref by (simp add: unat_and_FFF)
  moreover have "x mod 4096 = (d - 1) mod 4096" by (simp only: x_def mod_mult_self3 split: if_split) simp
  ultimately have dist: "unat (yaz0_reference high low AND 0xFFF) + 1 = d" using dn by simp
  have top: "unat (drop_bit 12 (yaz0_reference high low)) = (if n \<le> 17 then n - 2 else 0)"
    using dn by (auto simp: unat_drop_bit ref x_def)
  show ?thesis
  proof (cases "n \<le> 17")
    case True
    then have "unat (drop_bit 12 (yaz0_reference high low) + 2) = n"
      using top dn by (simp add: unat_word_ariths)
    moreover have "drop_bit 12 (yaz0_reference high low) \<noteq> 0"
      using top True dn by (metis One_nat_def diff_is_0_eq not_less_eq_eq numeral_2_eq_2 numeral_3_eq_3 unsigned_0)
    ultimately show ?thesis using assms Ref True dist b x_def
      by (simp add: yaz0_token_def yaz0_group_def yaz0_count_def rd_def nth_append)
  next
    case False
    then have "drop_bit 12 (yaz0_reference high low) = 0" using top by (simp add: unsigned_eq_0_iff)
    moreover have "unat (of_nat (n - 18) :: u8) = n - 18" using dn by (intro unat_of_nat_u8) simp
    then have "unat (ucast (of_nat (n - 18) :: u8) + 18 :: u32) = n"
      using False dn by (simp only: unat_word_ariths unat_ucast_u8) simp
    ultimately show ?thesis using assms Ref False dist b x_def
      by (simp add: yaz0_token_def yaz0_group_def yaz0_count_def next_byte_def rd_def nth_append)
  qed
qed

lemma yaz0_group_parses:
  assumes "length ts \<le> k + 1" "k < 8" "list_all yaz0_enc_ok ts"
    "\<And>j. j \<le> k \<Longrightarrow> bit f j = bit (group_flags is_lit k ts) j"
    "src = pre @ concat (map yaz0_enc ts) @ post"
  shows "parses (yaz0_token src) (length pre, push_bit k 1, ucast f) ts
           (length pre + length (concat (map yaz0_enc ts)), drop_bit (length ts) (push_bit k 1), ucast f)"
  using assms
proof (induction ts arbitrary: k pre)
  case Nil
  then show ?case by simp
next
  case (Cons t ts)
  have flag: "((ucast f :: u32) AND push_bit k 1 \<noteq> 0) = is_lit t"
  proof -
    have "bit f k = is_lit t"
      using Cons.prems(4) [of k] bit_group_flags_head [OF Cons.prems(1,2), of is_lit] by simp
    moreover have "((ucast f :: u32) AND push_bit k 1 \<noteq> 0) = bit f k"
      using Cons.prems(2) by (simp add: and_exp_eq_0_iff_not_bit bit_simps)
    ultimately show ?thesis by simp
  qed
  have tok: "yaz0_token src (length pre, push_bit k 1, ucast f) =
      Some (t, (length pre + length (yaz0_enc t), drop_bit 1 (push_bit k 1), ucast f))"
    using Cons.prems flag by (intro yaz0_token_enc) (auto simp: push_bit_eq_0_iff)
  show ?case
  proof (cases "k = 0")
    case True
    with Cons.prems(1) have "ts = []" by simp
    with tok show ?thesis by simp
  next
    case False
    then have shift: "drop_bit 1 (push_bit k 1 :: u32) = push_bit (k - 1) 1"
      using Cons.prems(2) by (intro bit_word_eqI) (auto simp: bit_simps bit_1_iff)
    have "parses (yaz0_token src) (length (pre @ yaz0_enc t), push_bit (k - 1) 1, ucast f) ts
       (length (pre @ yaz0_enc t) + length (concat (map yaz0_enc ts)),
        drop_bit (length ts) (push_bit (k - 1) 1), ucast f)"
      using Cons.prems False
      by (intro Cons.IH) (auto simp: bit_group_flags_tail simp del: group_flags.simps)
    moreover have "drop_bit (Suc (length ts)) (push_bit k 1 :: u32) = drop_bit (length ts) (push_bit (k - 1) 1)"
      unfolding shift [symmetric] drop_bit_drop_bit by simp
    ultimately show ?thesis using tok shift by (simp add: add.assoc)
  qed
qed

lemma yaz0_stream_parses:
  assumes "list_all yaz0_enc_ok ts" "src = pre @ lz_stream is_lit yaz0_enc ts"
  shows "\<exists>q. parses (yaz0_token src) (length pre, 0, f) ts q"
  using assms
proof (induction "is_lit" yaz0_enc ts arbitrary: pre f rule: lz_stream.induct)
  case 1
  then show ?case by simp
next
  case (2 t ts)
  let ?g = "take 8 (t # ts)" and ?r = "drop 8 (t # ts)"
  let ?F = "group_flags is_lit 7 ?g"
  let ?pre = "pre @ [?F]"
  let ?pos = "length ?pre + length (concat (map yaz0_enc ?g))"
  have ok: "list_all yaz0_enc_ok ?g" "list_all yaz0_enc_ok ?r"
    using 2(2) by (auto simp: list_all_iff dest: in_set_takeD in_set_dropD)
  have src: "src = ?pre @ concat (map yaz0_enc ?g) @ lz_stream is_lit yaz0_enc ?r"
    using 2(3) by (simp add: lz_stream.simps(2))
  have grp: "parses (yaz0_token src) (length ?pre, push_bit 7 1, ucast ?F) ?g
      (?pos, drop_bit (length ?g) (push_bit 7 1), ucast ?F)"
    by (rule yaz0_group_parses [OF _ _ ok(1) _ src]) auto
  moreover have "yaz0_token src (length pre, 0, f) = yaz0_token src (length ?pre, push_bit 7 1, ucast ?F)"
    using src by (simp add: yaz0_token_def yaz0_group_def rd_def nth_append)
  ultimately have start: "parses (yaz0_token src) (length pre, 0, f) ?g
      (?pos, drop_bit (length ?g) (push_bit 7 1), ucast ?F)"
    by (simp del: push_bit_of_1)
  show ?case
  proof (cases "length ?g = 8")
    case True
    then have "drop_bit (length ?g) (push_bit 7 1 :: u32) = 0" by simp
    moreover have "src = (?pre @ concat (map yaz0_enc ?g)) @ lz_stream is_lit yaz0_enc ?r"
      using src by simp
    from 2(1) [OF ok(2) this, of "ucast ?F"] obtain q where
      "parses (yaz0_token src) (?pos, 0, ucast ?F) ?r q" unfolding length_append by blast
    ultimately have "parses (yaz0_token src) (length pre, 0, f) (?g @ ?r) q"
      using start unfolding parses_append by metis
    then show ?thesis by (metis append_take_drop_id)
  next
    case False
    then have "?g = t # ts" by simp
    with start show ?thesis by metis
  qed
qed

text \<open>C22: The decoder is the inverse of the encoder that groups eight tokens behind their flag byte:
  what a list of tokens means comes back from its encoding.\<close>

theorem Yaz0Decode_encode:
  assumes "list_all yaz0_enc_ok ts" "expand n [] ts = Some out" "length out = n"
    and "0 < n" "n + 273 < 2 ^ 32" "n \<le> length dst"
  shows "Yaz0Decode (Some (yaz0_encode n ts)) (Some dst) = Some (of_nat n, Some (out @ drop n dst))"
proof -
  let ?src = "yaz0_encode n ts" and ?hdr = "[0x59, 0x61, 0x7A, 0x30] @ bytes32 (of_nat n) @ replicate 8 0 :: bytes"
  have n: "unat (of_nat n :: u32) = n" using assms(5) by (intro unat_of_nat_u32) simp
  have src: "?src = ?hdr @ lz_stream is_lit yaz0_enc ts" by (simp add: yaz0_encode_def)
  have "Yaz0ExpandedSize (Some ?src) = Some (of_nat n)"
    by (simp add: Yaz0ExpandedSize_def yaz0_encode_def getn_def read32_def rd_def bytes32_def be32_bytes)
  moreover have "(of_nat n :: u32) \<noteq> 0" using n assms(4) by (metis less_irrefl unsigned_0)
  moreover obtain q where "parses (yaz0_token ?src) yaz0_start ts q"
    using yaz0_stream_parses [OF assms(1) src, of 0] by (auto simp: yaz0_start_def kYaz0HeaderSize_def)
  ultimately show ?thesis
    using assms n
    by (intro iffD2 [OF Yaz0Decode_iff] exI [of _ ts] exI [of _ q] exI [of _ out] conjI)
       (simp_all add: yaz0_encode_def)
qed

lemma Yaz0Decode_encode_witness:
  "Yaz0Decode (Some (yaz0_encode 5 [Lit 0x61, Ref 1 4])) (Some [0, 0, 0, 0, 0, 0]) =
     Some (5, Some [0x61, 0x61, 0x61, 0x61, 0x61, 0])"
  using Yaz0Decode_encode [of "[Lit 0x61, Ref 1 4]" 5 "[0x61, 0x61, 0x61, 0x61, 0x61]" "[0, 0, 0, 0, 0, 0]"]
  by simp

end
