(* ===== verification/Cx.thy ===== *)
theory Cx
  imports Sliding_Window
begin

text \<open>
  src/format/archive/cx.cpp: the two sliding-window kinds of a CX stream. \<open>cx_body\<close> is one
  iteration of the while loop of \<open>CxDecompress\<close>; \<open>cx_fields\<close> reads how a reference is spelled.
\<close>

datatype CxKind = CxNone | Lz10 | Lz11 | Huffman4 | Huffman8 | Rle

definition cx_read24 :: "bytes \<Rightarrow> nat \<Rightarrow> u32 option" where
  "cx_read24 p at = do { a \<leftarrow> rd p at; b \<leftarrow> rd p (at + 1); c \<leftarrow> rd p (at + 2);
     Some (ucast a OR push_bit 8 (ucast b) OR push_bit 16 (ucast c)) }"

definition PayloadAt :: "bytes \<Rightarrow> nat option" where
  "PayloadAt data = do { small \<leftarrow> cx_read24 data 1; Some (if small = 0 then 8 else 4) }"

definition CxIdentify :: "bytes option \<Rightarrow> CxKind" where
  "CxIdentify data = (case data of None \<Rightarrow> CxNone
     | Some p \<Rightarrow>
        if length p < 4 then CxNone
        else let k = p ! 0 in
          if k = 0x10 then Lz10 else if k = 0x11 then Lz11 else if k = 0x20 then Huffman4
          else if k = 0x28 then Huffman8 else if k = 0x30 then Rle else CxNone)"

definition CxExpandedSize :: "bytes option \<Rightarrow> u32 option" where
  "CxExpandedSize data =
     (case data of None \<Rightarrow> Some 0
      | Some p \<Rightarrow>
        if CxIdentify data = CxNone then Some 0
        else do { small \<leftarrow> cx_read24 p 1;
                  if small \<noteq> 0 then Some small
                  else if 8 \<le> length p then read32le p 4 else Some 0 })"

record cx =
  c_read :: nat
  c_written :: u32
  c_flags :: u32
  c_left :: nat
  c_dst :: bytes

definition cx_refill :: "bytes \<Rightarrow> cx \<Rightarrow> cx option" where
  "cx_refill src s =
     (if c_left s = 0 then
        (case next_byte src (c_read s) of
           (None, _) \<Rightarrow> None
         | (Some g, r) \<Rightarrow> Some (s\<lparr>c_read := r, c_flags := ucast g, c_left := 8\<rparr>))
      else Some s)"

definition cx_literal :: "bytes \<Rightarrow> cx \<Rightarrow> ((u32 \<times> bytes) + cx) option" where
  "cx_literal src s =
     (case next_byte src (c_read s) of
        (None, _) \<Rightarrow> Some (Inl (0, c_dst s))
      | (Some literal, r) \<Rightarrow>
          do { dst \<leftarrow> wr (c_dst s) (unat (c_written s)) literal;
               Some (Inr (s\<lparr>c_read := r, c_dst := dst, c_written := c_written s + 1\<rparr>)) })"

definition cx_distance :: "u8 \<Rightarrow> u8 \<Rightarrow> u32" where
  "cx_distance a b = (push_bit 8 (ucast a AND 0xF) OR ucast b) + 1"

text \<open>The four ways a length is written, by kind and by the top nibble of the first byte.\<close>

definition cx_len_lz10 :: "u8 \<Rightarrow> u32" where
  "cx_len_lz10 first = drop_bit 4 (ucast first) + 3"

definition cx_len_nibble :: "u8 \<Rightarrow> u32" where
  "cx_len_nibble first = drop_bit 4 (ucast first) + 1"

definition cx_len_byte :: "u8 \<Rightarrow> u8 \<Rightarrow> u32" where
  "cx_len_byte first second = (push_bit 4 (ucast first) OR drop_bit 4 (ucast second)) + 0x11"

definition cx_len_word :: "u8 \<Rightarrow> u8 \<Rightarrow> u8 \<Rightarrow> u32" where
  "cx_len_word first second third =
     (push_bit 12 (ucast first AND 0xF) OR push_bit 4 (ucast second) OR drop_bit 4 (ucast third)) + 0x111"

text \<open>The length and the distance a reference spells, and the cursor behind it.\<close>

definition cx_fields :: "CxKind \<Rightarrow> bytes \<Rightarrow> nat \<Rightarrow> (u32 \<times> u32 \<times> nat) option" where
  "cx_fields kind src r =
     (case next_byte src r of
        (None, _) \<Rightarrow> None
      | (Some first, r) \<Rightarrow>
        (case next_byte src r of
           (None, _) \<Rightarrow> None
         | (Some second, r) \<Rightarrow>
           if kind = Lz10 then Some (cx_len_lz10 first, cx_distance first second, r)
           else
             let indicator = drop_bit 4 (ucast first :: u32) in
             if indicator = 0 then
               (case next_byte src r of
                  (None, _) \<Rightarrow> None
                | (Some third, r) \<Rightarrow>
                    Some (cx_len_byte first second, cx_distance second third, r))
             else if indicator = 1 then
               (let (third, r) = next_byte src r; (fourth, r) = next_byte src r in
                case (third, fourth) of
                  (Some third, Some fourth) \<Rightarrow>
                    Some (cx_len_word first second third, cx_distance third fourth, r)
                | _ \<Rightarrow> None)
             else Some (cx_len_nibble first, cx_distance first second, r)))"

definition cx_reference :: "CxKind \<Rightarrow> bytes \<Rightarrow> u32 \<Rightarrow> cx \<Rightarrow> ((u32 \<times> bytes) + cx) option" where
  "cx_reference kind src expanded s =
     (case cx_fields kind src (c_read s) of
        None \<Rightarrow> Some (Inl (0, c_dst s))
      | Some (len, distance, r) \<Rightarrow>
          if c_written s < distance \<or> expanded < c_written s + len then Some (Inl (0, c_dst s))
          else do { (dst, written) \<leftarrow>
                      lz_copy (c_dst s) (c_written s - distance) (c_written s) (unat len);
                    Some (Inr (s\<lparr>c_read := r, c_dst := dst, c_written := written\<rparr>)) })"

definition cx_body :: "CxKind \<Rightarrow> bytes \<Rightarrow> u32 \<Rightarrow> cx \<Rightarrow> ((u32 \<times> bytes) + cx) option" where
  "cx_body kind src expanded s =
    (if c_written s < expanded then
       (case cx_refill src s of
          None \<Rightarrow> Some (Inl (0, c_dst s))
        | Some s \<Rightarrow>
            let reference = (c_flags s AND 0x80 \<noteq> 0);
                s = s\<lparr>c_flags := push_bit 1 (c_flags s) AND 0xFF, c_left := c_left s - 1\<rparr>
            in if \<not> reference then cx_literal src s else cx_reference kind src expanded s)
     else Some (Inl (c_written s, c_dst s)))"

definition CxDecompress :: "bytes option \<Rightarrow> bytes option \<Rightarrow> (u32 \<times> bytes option) option" where
  "CxDecompress src dst =
     (let kind = CxIdentify src in
      if kind \<noteq> Lz10 \<and> kind \<noteq> Lz11 then Some (0, dst)
      else do {
        expanded \<leftarrow> CxExpandedSize src;
        case (src, dst) of
          (Some src, Some dst) \<Rightarrow>
            if expanded = 0 \<or> length dst < unat expanded then Some (0, Some dst)
            else do { at \<leftarrow> PayloadAt src;
                      (n, d) \<leftarrow> loop (cx_body kind src expanded)
                        \<lparr>c_read = at, c_written = 0, c_flags = 0, c_left = 0, c_dst = dst\<rparr>;
                      Some (n, Some d) }
        | _ \<Rightarrow> Some (0, dst) })"

section \<open>The token syntax\<close>

type_synonym cx_cursor = "nat \<times> nat \<times> u32"

definition cx_group :: "bytes \<Rightarrow> cx_cursor \<Rightarrow> cx_cursor option" where
  "cx_group src = (\<lambda>(r, left, flags).
     if left = 0 then map_option (\<lambda>g. (r + 1, 8, ucast g)) (rd src r) else Some (r, left, flags))"

text \<open>A reference of each kind as the bytes it is spelled with: a run's length and distance, and how many bytes these take.\<close>

definition cx_spelled :: "CxKind \<Rightarrow> nat list \<Rightarrow> (nat \<times> nat \<times> nat) option" where
  "cx_spelled kind bs =
     (if kind = Lz10 then (case bs of a # b # _ \<Rightarrow> Some (3 + a div 16, 1 + a mod 16 * 256 + b, 2) | _ \<Rightarrow> None)
      else case bs of
        a # b # cs \<Rightarrow>
          if a div 16 = 0 then
            (case cs of c # _ \<Rightarrow> Some (0x11 + a * 16 + b div 16, 1 + b mod 16 * 256 + c, 3) | _ \<Rightarrow> None)
          else if a div 16 = 1 then
            (case cs of c # e # _ \<Rightarrow> Some (0x111 + a mod 16 * 4096 + b * 16 + c div 16, 1 + c mod 16 * 256 + e, 4) | _ \<Rightarrow> None)
          else Some (1 + a div 16, 1 + a mod 16 * 256 + b, 2)
      | _ \<Rightarrow> None)"

definition cx_token :: "CxKind \<Rightarrow> bytes \<Rightarrow> cx_cursor \<Rightarrow> (token \<times> cx_cursor) option" where
  "cx_token kind src p = do { (r, left, flags) \<leftarrow> cx_group src p;
     let flags' = push_bit 1 flags AND 0xFF in
     if flags AND 0x80 = 0 then
       do { b \<leftarrow> rd src r; Some (Lit b, (r + 1, left - 1, flags')) }
     else do { (len, distance, n) \<leftarrow> cx_spelled kind (map unat (drop r src));
               Some (Ref distance len, (r + n, left - 1, flags')) } }"

definition cx_view :: "cx \<Rightarrow> cx_cursor \<times> u32 \<times> bytes" where
  "cx_view s = ((c_read s, c_left s, c_flags s), c_written s, c_dst s)"

lemma unat_cx_distance: "unat (cx_distance a b) = (unat a mod 16) * 256 + unat b + 1"
proof -
  have "unat (push_bit 8 (ucast a AND 0xF :: u32) OR ucast b) = (unat a mod 16) * 2 ^ 8 + unat b"
    by (subst unat_shift_or) (simp_all add: unat_and_F)
  moreover have "(unat a mod 16) * 256 + unat b + 1 < 4294967296"
    using unat_u8 [of b] mod_less_divisor [of 16 "unat a"] by linarith
  ultimately show ?thesis unfolding cx_distance_def by (simp add: unat_word_ariths)
qed

lemma cx_distance_bounds: "1 \<le> unat (cx_distance a b)" "unat (cx_distance a b) \<le> 4096"
  using unat_u8 [of b] mod_less_divisor [of 16 "unat a"] unfolding unat_cx_distance by linarith+

lemma unat_cx_lens:
  "unat (cx_len_lz10 a) = unat a div 16 + 3"
  "unat (cx_len_nibble a) = unat a div 16 + 1"
  "unat (cx_len_byte a b) = unat a * 16 + unat b div 16 + 0x11"
  "unat (cx_len_word a b c) = (unat a mod 16) * 4096 + unat b * 16 + unat c div 16 + 0x111"
proof -
  have "unat a div 16 + 3 < 4294967296" using unat_u8 [of a] by linarith
  then show "unat (cx_len_lz10 a) = unat a div 16 + 3" "unat (cx_len_nibble a) = unat a div 16 + 1"
    by (simp_all add: cx_len_lz10_def cx_len_nibble_def unat_word_ariths unat_drop_bit)
  have "unat (push_bit 4 (ucast a :: u32) OR drop_bit 4 (ucast b)) = unat a * 2 ^ 4 + unat b div 16"
    using unat_u8 [of a] unat_u8 [of b] by (subst unat_shift_or) (simp_all add: unat_drop_bit)
  moreover have "unat a * 16 + unat b div 16 + 17 < 4294967296"
    using unat_u8 [of a] unat_u8 [of b] by linarith
  ultimately show "unat (cx_len_byte a b) = unat a * 16 + unat b div 16 + 0x11"
    by (simp add: cx_len_byte_def unat_word_ariths)
  have a: "unat (push_bit 4 (ucast b :: u32) OR drop_bit 4 (ucast c)) = unat b * 2 ^ 4 + unat c div 16"
    using unat_u8 [of b] unat_u8 [of c] by (subst unat_shift_or) (simp_all add: unat_drop_bit)
  have lt: "unat b * 2 ^ 4 + unat c div 16 < 2 ^ 12"
    using unat_u8 [of b] unat_u8 [of c] by (simp del: unat_u8_less)
  have "unat (push_bit 12 (ucast a AND 0xF :: u32) OR push_bit 4 (ucast b) OR drop_bit 4 (ucast c)) =
      (unat a mod 16) * 2 ^ 12 + (unat b * 2 ^ 4 + unat c div 16)"
    using a lt by (subst unat_shift_or) (simp_all add: unat_and_F)
  moreover have "unat a mod 16 < 16" by simp
  ultimately show "unat (cx_len_word a b c) = (unat a mod 16) * 4096 + unat b * 16 + unat c div 16 + 0x111"
    using lt by (simp add: cx_len_word_def unat_word_ariths)
qed

lemma cx_len_bounds:
  "1 \<le> unat (cx_len_lz10 a)" "1 \<le> unat (cx_len_nibble a)" "1 \<le> unat (cx_len_byte a b)"
  "1 \<le> unat (cx_len_word a b c)" "unat (cx_len_lz10 a) \<le> 65808" "unat (cx_len_nibble a) \<le> 65808"
  "unat (cx_len_byte a b) \<le> 65808" "unat (cx_len_word a b c) \<le> 65808"
  using unat_u8 [of a] unat_u8 [of b] unat_u8 [of c] mod_less_divisor [of 16 "unat a"]
  unfolding unat_cx_lens by linarith+

lemma cx_fields_spelled:
  "cx_spelled kind (map unat (drop r src)) =
     map_option (\<lambda>(len, distance, r'). (unat len, unat distance, r' - r)) (cx_fields kind src r)"
proof (cases "r < length src")
  case True
  define pre where "pre = take r src"
  obtain rest where src: "src = pre @ rest" "length pre = r" using True by (metis append_take_drop_id length_take min.absorb4 pre_def)
  have nib: "drop_bit 4 (ucast a :: u32) = 0 \<longleftrightarrow> unat a div 16 = 0" "drop_bit 4 (ucast a :: u32) = 1 \<longleftrightarrow> unat a div 16 = 1" for a :: u8
    by (simp_all add: word_unat_eq_iff unat_drop_bit)
  consider "rest = []" | a where "rest = [a]" | a b where "rest = [a, b]" | a b c where "rest = [a, b, c]"
    | a b c e more where "rest = a # b # c # e # more"
    by (metis list.exhaust)
  then show ?thesis
    by cases (simp_all add: cx_spelled_def cx_fields_def next_byte_def nth_append src(1) src(2) [symmetric] nib unat_cx_lens unat_cx_distance Let_def)
qed (simp add: cx_spelled_def cx_fields_def next_byte_def)

lemma cx_fields_after: "cx_fields kind src r = Some (len, distance, r') \<Longrightarrow> r + (r' - r) = r'"
  by (auto simp: cx_fields_def next_byte_def Let_def split: if_splits)

lemma cx_token_fields: "cx_token kind src p = do { (r, left, flags) \<leftarrow> cx_group src p;
     let flags' = push_bit 1 flags AND 0xFF in
     if flags AND 0x80 = 0 then
       do { b \<leftarrow> rd src r; Some (Lit b, (r + 1, left - 1, flags')) }
     else do { (len, distance, r') \<leftarrow> cx_fields kind src r;
               Some (Ref (unat distance) (unat len), (r', left - 1, flags')) } }"
  by (cases "cx_group src p")
    (auto simp: cx_token_def cx_fields_spelled Let_def cx_fields_after split: Option.bind_split prod.split)

lemma cx_fields_bounds:
  assumes "cx_fields kind src r = Some (len, distance, r')"
  shows "1 \<le> unat len \<and> unat len \<le> 65808 \<and> 1 \<le> unat distance \<and> unat distance \<le> 4096 \<and> r < r'"
  using assms cx_len_bounds cx_distance_bounds
  by (auto simp: cx_fields_def next_byte_def Let_def split: if_splits)

lemma cx_fields_end: "cx_fields kind src r = Some (len, distance, r') \<Longrightarrow> r' \<le> length src"
  by (auto simp: cx_fields_def next_byte_def Let_def split: if_splits)

lemma cx_refill_group:
  assumes "cx_view s = (p, w, dst)"
  shows "cx_group src p = map_option (\<lambda>s1. (c_read s1, c_left s1, c_flags s1)) (cx_refill src s)"
    and "cx_refill src s = Some s1 \<Longrightarrow> c_dst s1 = dst \<and> c_written s1 = w \<and> c_read s \<le> c_read s1"
  using assms by (auto simp: cx_group_def cx_view_def cx_refill_def next_byte_def rd_def split: if_splits)

abbreviation cx_shift :: "cx \<Rightarrow> cx" where
  "cx_shift s \<equiv> s\<lparr>c_flags := push_bit 1 (c_flags s) AND 0xFF, c_left := c_left s - 1\<rparr>"

lemma cx_token_cases:
  assumes "cx_view s = (p, w, dst)" "cx_token kind src p = Some (t, p')"
  obtains s1 b where "cx_refill src s = Some s1" "c_flags s1 AND 0x80 = 0" "t = Lit b"
      "c_read s1 < length src" "b = src ! c_read s1" "c_dst s1 = dst" "c_written s1 = w"
      "c_read s \<le> c_read s1" "p' = (c_read s1 + 1, c_left s1 - 1, push_bit 1 (c_flags s1) AND 0xFF)"
  | s1 len distance r where "cx_refill src s = Some s1" "c_flags s1 AND 0x80 \<noteq> 0"
      "cx_fields kind src (c_read s1) = Some (len, distance, r)" "t = Ref (unat distance) (unat len)"
      "c_dst s1 = dst" "c_written s1 = w" "c_read s \<le> c_read s1"
      "p' = (r, c_left s1 - 1, push_bit 1 (c_flags s1) AND 0xFF)"
proof -
  note f = cx_refill_group [OF assms(1), of src]
  from assms(2) f(1) obtain s1 where s1: "cx_refill src s = Some s1"
    "cx_group src p = Some (c_read s1, c_left s1, c_flags s1)"
    by (auto simp: cx_token_fields split: Option.bind_splits)
  note f(2) [OF s1(1)]
  with s1 assms(2) that show thesis
    by (auto simp: cx_token_fields rd_def Let_def split: if_splits Option.bind_splits)
qed

lemma cx_token_None:
  assumes "cx_view s = (p, w, dst)" "cx_token kind src p = None"
  obtains "cx_refill src s = None"
  | s1 where "cx_refill src s = Some s1" "c_dst s1 = dst" "c_flags s1 AND 0x80 = 0" "length src \<le> c_read s1"
  | s1 where "cx_refill src s = Some s1" "c_dst s1 = dst" "c_flags s1 AND 0x80 \<noteq> 0"
      "cx_fields kind src (c_read s1) = None"
proof (cases "cx_refill src s")
  case (Some s1)
  show thesis
  proof (cases "cx_fields kind src (c_read s1)")
    case None
    with Some assms cx_refill_group [OF assms(1), of src] that show ?thesis
      by (auto simp: cx_token_fields rd_def Let_def split: if_splits)
  next
    case (Some a)
    with \<open>cx_refill src s = Some s1\<close> assms cx_refill_group [OF assms(1), of src] that show ?thesis
      by (cases a) (auto simp: cx_token_fields rd_def Let_def split: if_splits)
  qed
qed (rule that(1))

lemma cx_cursor_state: obtains s where "cx_view s = (p, 0, [])" "c_read s = fst p"
proof -
  obtain r l f where p: "p = (r, l, f)" by (cases p) auto
  have "cx_view \<lparr>c_read = r, c_written = 0, c_flags = f, c_left = l, c_dst = []\<rparr> = (p, 0, [])"
    by (simp add: p cx_view_def)
  then show thesis by (rule that) (simp add: p)
qed

lemmas cx_loop_defs = cx_body_def cx_literal_def cx_reference_def cx_view_def next_byte_def Let_def

interpretation cx: lz_decoder "cx_token kind src" "\<lambda>_. True" "\<lambda>_. True" "\<lambda>p. length src - fst p" 65808
  "cx_body kind src" cx_view for kind src
proof unfold_locales
  fix p t p'
  assume tok: "cx_token kind src p = Some (t, p')"
  obtain s where s: "cx_view s = (p, 0, [])" "c_read s = fst p" by (rule cx_cursor_state)
  from s(1) tok show "True \<and> length src - fst p' < length src - fst p"
  proof (cases rule: cx_token_cases)
    case (2 s1 len distance r)
    then show ?thesis using cx_fields_bounds [OF 2(3)] cx_fields_end [OF 2(3)] s(2) by auto
  qed (use s(2) in simp)
next
  fix p d n p'
  assume tok: "cx_token kind src p = Some (Ref d n, p')"
  obtain s where s: "cx_view s = (p, 0, [])" "c_read s = fst p" by (rule cx_cursor_state)
  from s(1) tok show "1 \<le> d \<and> d < 2 ^ 32 \<and> 1 \<le> n \<and> n \<le> 65808"
    by (cases rule: cx_token_cases) (auto dest: cx_fields_bounds)
next
  fix s p w dst and e :: u32
  assume v: "cx_view s = (p, w, dst)"
  { assume "\<not> w < e"
    with v show "cx_body kind src e s = Some (Inl (if True then w else 0, dst))" by (auto simp: cx_view_def cx_body_def) }
  assume w: "w < e"
  { assume "cx_token kind src p = None"
    from cx_token_None [OF v this] v w show "cx_body kind src e s = Some (Inl (0, dst))"
      by cases (simp_all add: cx_loop_defs) }
  { fix b p' assume tok: "cx_token kind src p = Some (Lit b, p')" and room: "unat w < length dst"
    from v tok show "\<exists>s'. cx_body kind src e s = Some (Inr s') \<and> cx_view s' = (p', w + 1, dst[unat w := b])"
    proof (cases rule: cx_token_cases)
      case (1 s1 b)
      then show ?thesis using v w room by (simp add: cx_loop_defs wr_def)
    qed simp }
  fix d n p' assume tok: "cx_token kind src p = Some (Ref d n, p')"
  { assume bad: "unat w < d \<or> e < w + of_nat n"
    from v tok show "cx_body kind src e s = Some (Inl (0, dst))"
    proof (cases rule: cx_token_cases)
      case (2 s1 len distance r)
      then have "w < distance \<or> e < w + len" using bad by (auto simp: word_less_nat_alt)
      then show ?thesis using v w 2 by (simp add: cx_loop_defs)
    qed simp }
  fix dst' w' assume ok: "d \<le> unat w" "w + of_nat n \<le> e" "lz_copy dst (w - of_nat d) w n = Some (dst', w')"
  from v tok show "\<exists>s'. cx_body kind src e s = Some (Inr s') \<and> cx_view s' = (p', w', dst')"
  proof (cases rule: cx_token_cases)
    case (2 s1 len distance r)
    then have "\<not> (w < distance \<or> e < w + len)"
      using ok(1,2) by (simp add: not_less word_le_nat_alt [of distance w])
    moreover have "lz_copy dst (w - distance) w (unat len) = Some (dst', w')" using ok 2 by simp
    ultimately show ?thesis using v w 2 by (simp add: cx_loop_defs)
  qed simp
qed

section \<open>What the decoder does\<close>

definition cx_start :: "bytes \<Rightarrow> cx_cursor" where
  "cx_start src = (case PayloadAt src of None \<Rightarrow> 0 | Some at \<Rightarrow> at, 0, 0)"

lemma CxExpandedSize_defined: "\<exists>e. CxExpandedSize src = Some e"
  by (auto simp: CxExpandedSize_def CxIdentify_def cx_read24_def rd_def read32le_Some split: option.splits)

lemma CxDecompress_tokens:
  assumes "CxExpandedSize (Some src) = Some e" "CxIdentify (Some src) = kind" "kind = Lz10 \<or> kind = Lz11"
    and "e \<noteq> 0" "unat e \<le> length dst" "unat e + 65808 < 2 ^ 32"
  obtains r out where "CxDecompress (Some src) (Some dst) = Some (fst r, Some (snd r))"
    "lz_decode (cx_token kind src) (\<lambda>_. True) (unat e) (cx_start src) = Some out" "cx.outcome e dst r out"
proof -
  from assms(2,3) have "4 \<le> length src" by (auto simp: CxIdentify_def Let_def split: if_splits)
  then obtain at where at: "PayloadAt src = Some at" by (auto simp: PayloadAt_def cx_read24_def rd_def)
  have "\<exists>r out. loop (cx_body kind src e)
         \<lparr>c_read = at, c_written = 0, c_flags = 0, c_left = 0, c_dst = dst\<rparr> = Some r \<and>
      lz_decode (cx_token kind src) (\<lambda>_. True) (unat e) (cx_start src) = Some out \<and> cx.outcome e dst r out"
    using assms at by (intro cx.loop_decodes) (simp_all add: cx_view_def cx_start_def)
  with assms at that show thesis
    by (fastforce simp: CxDecompress_def not_less Let_def)
qed

text \<open>CxDecompress never leaves its two buffers and always returns, for any stream, kind and output
  buffer: 0 or the declared size, with what lies behind it left alone. The size has to stay 65808
  (the longest run) below 2^32, since the check of a run against the size is a 32-bit sum.\<close>

theorem CxDecompress_safe:
  assumes "CxExpandedSize src = Some e" and "unat e + 65808 < 2 ^ 32"
  shows "\<exists>n d. CxDecompress src (Some dst) = Some (n, Some d) \<and> (n = 0 \<or> n = e) \<and>
           length d = length dst \<and> drop (unat e) d = drop (unat e) dst"
proof (cases "\<exists>p. src = Some p \<and> (CxIdentify src = Lz10 \<or> CxIdentify src = Lz11) \<and> e \<noteq> 0 \<and> unat e \<le> length dst")
  case True
  then obtain p where p: "src = Some p" "CxIdentify (Some p) = Lz10 \<or> CxIdentify (Some p) = Lz11"
    "e \<noteq> 0" "unat e \<le> length dst" by blast
  obtain r out where "CxDecompress (Some p) (Some dst) = Some (fst r, Some (snd r))"
    "cx.outcome e dst r out"
    using CxDecompress_tokens [of p e _ dst] assms p by metis
  with p show ?thesis by (auto simp: cx.outcome_def split: option.splits)
next
  case False
  with assms show ?thesis
    by (auto simp: CxDecompress_def Let_def not_le split: option.splits)
qed

definition cx_example :: bytes where
  "cx_example = [0x11, 5, 0, 0, 0x40, 0x61, 0x30, 0x00]"

lemma cx_example_size: "CxExpandedSize (Some cx_example) = Some 5" "CxIdentify (Some cx_example) = Lz11"
  by (simp_all add: cx_example_def CxExpandedSize_def CxIdentify_def cx_read24_def rd_def)

lemma cx_example_bytes: "rd cx_example 0 = Some 0x11" "rd cx_example 1 = Some 5" "rd cx_example 2 = Some 0"
   "rd cx_example 3 = Some 0" "rd cx_example 4 = Some 0x40" "rd cx_example 5 = Some 0x61"
  "cx_example ! 6 = 0x30" "cx_example ! 7 = 0x00" "length cx_example = 8"
  by (simp_all add: cx_example_def rd_def)

lemma cx_example_tokens:
  "cx_start cx_example = (4, 0, 0)"
  "cx_token Lz11 cx_example (4, 0, 0) = Some (Lit 0x61, (6, 7, 0x80))"
  "cx_token Lz11 cx_example (6, 7, 0x80) = Some (Ref 1 4, (8, 6, 0))"
proof -
  show "cx_start cx_example = (4, 0, 0)"
  by (simp add: cx_start_def PayloadAt_def cx_read24_def cx_example_bytes del: One_nat_def)
show  "cx_token Lz11 cx_example (4, 0, 0) = Some (Lit 0x61, (6, 7, 0x80))"
  by (simp add: cx_token_fields cx_group_def cx_example_bytes Let_def)
  have "cx_fields Lz11 cx_example 6 = Some (4, 1, 8)"
    by (simp add: cx_fields_def next_byte_def cx_example_bytes Let_def cx_len_nibble_def cx_distance_def)
  then show "cx_token Lz11 cx_example (6, 7, 0x80) = Some (Ref 1 4, (8, 6, 0))"
  by (simp add: cx_token_fields cx_group_def Let_def)
qed

lemma CxDecompress_safe_witness:
  "\<exists>n d. CxDecompress (Some cx_example) (Some [0, 0, 0, 0, 0, 0]) = Some (n, Some d) \<and>
     (n = 0 \<or> n = 5) \<and> length d = length [0, 0, 0, 0, 0, 0 :: u8] \<and> drop 5 d = [0]"
  using CxDecompress_safe [OF cx_example_size(1), of "[0, 0, 0, 0, 0, 0]"] by simp

lemma CxDecompress_iff:
  assumes "CxExpandedSize (Some src) = Some e" "CxIdentify (Some src) = kind" "kind = Lz10 \<or> kind = Lz11"
    and "e \<noteq> 0" "unat e \<le> length dst" "unat e + 65808 < 2 ^ 32"
  shows "CxDecompress (Some src) (Some dst) = Some (e, Some d) \<longleftrightarrow>
     (\<exists>ts q out. parses (cx_token kind src) (cx_start src) ts q \<and> expand (unat e) [] ts = Some out \<and>
        length out = unat e \<and> d = out @ drop (unat e) dst)" (is "?lhs \<longleftrightarrow> ?rhs")
proof -
  obtain r out where run: "CxDecompress (Some src) (Some dst) = Some (fst r, Some (snd r))"
    and dec: "lz_decode (cx_token kind src) (\<lambda>_. True) (unat e) (cx_start src) = Some out"
    and out: "cx.outcome e dst r out"
    using CxDecompress_tokens [OF assms] by metis
  have "?lhs \<longleftrightarrow> fst r = e \<and> snd r = d" using run by auto
  also have "\<dots> \<longleftrightarrow> ?rhs" using cx.outcome_iff [OF dec out assms(4) TrueI] by simp
  finally show ?thesis .
qed

text \<open>C2: For both sliding-window kinds, and every declared size that is not zero, fits the output buffer and stays 65808 (the
  longest run) below 2^32, CxDecompress succeeds with an output exactly when the stream parses into tokens that mean that
  output and fill the declared size; how the bytes of a token spell its run and distance is the format's, not the
  decoder's own reader.\<close>

theorem CxDecompress_correct:
  assumes "CxExpandedSize (Some src) = Some e" "CxIdentify (Some src) = kind" "kind = Lz10 \<or> kind = Lz11"
    and "e \<noteq> 0" "unat e \<le> length dst" "unat e + 65808 < 2 ^ 32"
  shows "CxDecompress (Some src) (Some dst) = Some (e, Some d) \<longleftrightarrow>
     (\<exists>ts q out. parses (cx_token kind src) (cx_start src) ts q \<and> expand (unat e) [] ts = Some out \<and>
        length out = unat e \<and> d = out @ drop (unat e) dst)"
  using assms by (rule CxDecompress_iff)

lemma CxDecompress_correct_witness:
  "CxDecompress (Some cx_example) (Some [0, 0, 0, 0, 0, 0]) =
     Some (5, Some [0x61, 0x61, 0x61, 0x61, 0x61, 0])"
proof (rule iffD2 [OF CxDecompress_correct [OF cx_example_size]])
  show "\<exists>ts q out. parses (cx_token Lz11 cx_example) (cx_start cx_example) ts q \<and>
     expand (unat (5 :: u32)) [] ts = Some out \<and> length out = unat (5 :: u32) \<and>
     [0x61, 0x61, 0x61, 0x61, 0x61, 0] = out @ drop (unat (5 :: u32)) [0, 0, 0, 0, 0, 0]"
    by (intro exI [of _ "[Lit 0x61, Ref 1 4]"] exI [of _ "(8, 6, 0)"] exI [of _ "[0x61, 0x61, 0x61, 0x61, 0x61]"])
       (simp add: cx_example_tokens [simplified])
qed simp_all

section \<open>Streams the decoder accepts\<close>

fun cx_enc :: "CxKind \<Rightarrow> token \<Rightarrow> bytes" where
  "cx_enc kind (Lit b) = [b]"
| "cx_enc kind (Ref d n) =
     (if kind = Lz10 then [of_nat ((n - 3) * 16 + (d - 1) div 256), of_nat (d - 1)]
      else if n \<le> 16 then [of_nat ((n - 1) * 16 + (d - 1) div 256), of_nat (d - 1)]
      else if n \<le> 272 then
        [of_nat ((n - 17) div 16), of_nat (((n - 17) mod 16) * 16 + (d - 1) div 256), of_nat (d - 1)]
      else
        [of_nat (16 + (n - 273) div 4096), of_nat ((n - 273) div 16),
         of_nat (((n - 273) mod 16) * 16 + (d - 1) div 256), of_nat (d - 1)])"

fun cx_enc_ok :: "CxKind \<Rightarrow> token \<Rightarrow> bool" where
  "cx_enc_ok kind (Lit b) = True"
| "cx_enc_ok kind (Ref d n) =
     (1 \<le> d \<and> d \<le> 4096 \<and> 3 \<le> n \<and> n \<le> (if kind = Lz10 then 18 else 65808))"

definition cx_encode :: "CxKind \<Rightarrow> nat \<Rightarrow> token list \<Rightarrow> bytes" where
  "cx_encode kind sz ts =
     [if kind = Lz10 then 0x10 else 0x11, of_nat sz, of_nat (sz div 256), of_nat (sz div 65536)] @
     lz_stream (\<lambda>t. \<not> is_lit t) (cx_enc kind) ts"

lemma unat_of_nat_mod: "unat (of_nat n :: u8) = n mod 256"
  by (simp add: unat_of_nat take_bit_eq_mod)

lemma cx_size_word:
  assumes "n < 2 ^ 24"
  shows "ucast (of_nat n :: u8) OR push_bit 8 (ucast (of_nat (n div 256) :: u8)) OR
        push_bit 16 (ucast (of_nat (n div 65536) :: u8)) = (of_nat n :: u32)"
proof -
  have "\<not> bit n i" if "24 \<le> i" for i
    using assms that by (metis bit_take_bit_iff not_less take_bit_nat_eq_self)
  moreover have "n div 256 = drop_bit 8 n" "n div 65536 = drop_bit 16 n"
    by (simp_all add: drop_bit_eq_div)
  ultimately have h: "\<And>i. 24 \<le> i \<Longrightarrow> \<not> bit n i" "n div 256 = drop_bit 8 n" "n div 65536 = drop_bit 16 n"
    by auto
  show ?thesis unfolding h(2,3)
  proof (rule bit_word_eqI)
    fix i assume "i < LENGTH(32)"
    then consider "i < 8" | "8 \<le> i" "i < 16" | "16 \<le> i" "i < 24" | "24 \<le> i" "i < 32"
      by fastforce
    then show "bit (ucast (of_nat n :: u8) OR push_bit 8 (ucast (of_nat (drop_bit 8 n) :: u8)) OR
        push_bit 16 (ucast (of_nat (drop_bit 16 n) :: u8)) :: u32) i = bit (of_nat n :: u32) i"
      by cases (use h(1) in \<open>auto simp: bit_simps simp del: of_nat_drop_bit\<close>)
  qed
qed

lemma cx_distance_enc:
  assumes "1 \<le> d" "d \<le> 4096" "x < 16"
  shows "unat (cx_distance (of_nat (x * 16 + (d - 1) div 256)) (of_nat (d - 1))) = d"
proof -
  have "(x * 16 + (d - 1) div 256) mod 256 mod 16 = (d - 1) div 256"
    using assms by (simp add: mod_mod_cancel)
  moreover have "(d - 1) div 256 * 256 + (d - 1) mod 256 = d - 1" by (rule div_mult_mod_eq)
  ultimately show ?thesis using assms(1) by (simp only: unat_cx_distance unat_of_nat_mod) simp
qed

lemma indicator_enc:
  assumes "x < 16" "y < 16"
  shows "unat (of_nat (x * 16 + y) :: u8) div 16 = x"
    and "unat (drop_bit 4 (ucast (of_nat (x * 16 + y) :: u8) :: u32)) = x"
  using assms by (simp_all add: unat_drop_bit unat_of_nat_mod del: of_nat_add of_nat_mult)

text \<open>The four spellings, each read back.\<close>

lemma cx_fields_spellings:
  "src = pre @ [a, b] @ post \<Longrightarrow>
     cx_fields Lz10 src (length pre) = Some (cx_len_lz10 a, cx_distance a b, length pre + 2)"
  "kind \<noteq> Lz10 \<Longrightarrow> unat a div 16 \<noteq> 0 \<Longrightarrow> unat a div 16 \<noteq> 1 \<Longrightarrow> src = pre @ [a, b] @ post \<Longrightarrow>
     cx_fields kind src (length pre) = Some (cx_len_nibble a, cx_distance a b, length pre + 2)"
  "kind \<noteq> Lz10 \<Longrightarrow> unat a div 16 = 0 \<Longrightarrow> src = pre @ [a, b, c] @ post \<Longrightarrow>
     cx_fields kind src (length pre) = Some (cx_len_byte a b, cx_distance b c, length pre + 3)"
  "kind \<noteq> Lz10 \<Longrightarrow> unat a div 16 = 1 \<Longrightarrow> src = pre @ [a, b, c, e] @ post \<Longrightarrow>
     cx_fields kind src (length pre) = Some (cx_len_word a b c, cx_distance c e, length pre + 4)"
proof -
  have nib: "drop_bit 4 (ucast a :: u32) = 0 \<longleftrightarrow> unat a div 16 = 0"
    "drop_bit 4 (ucast a :: u32) = 1 \<longleftrightarrow> unat a div 16 = 1"
    by (simp_all add: word_unat_eq_iff unat_drop_bit)
  note d = cx_fields_def next_byte_def nth_append Let_def nib
  show "src = pre @ [a, b] @ post \<Longrightarrow>
     cx_fields Lz10 src (length pre) = Some (cx_len_lz10 a, cx_distance a b, length pre + 2)"
    by (simp add: d)
  show "kind \<noteq> Lz10 \<Longrightarrow> unat a div 16 \<noteq> 0 \<Longrightarrow> unat a div 16 \<noteq> 1 \<Longrightarrow> src = pre @ [a, b] @ post \<Longrightarrow>
     cx_fields kind src (length pre) = Some (cx_len_nibble a, cx_distance a b, length pre + 2)"
    by (simp add: d)
  show "kind \<noteq> Lz10 \<Longrightarrow> unat a div 16 = 0 \<Longrightarrow> src = pre @ [a, b, c] @ post \<Longrightarrow>
     cx_fields kind src (length pre) = Some (cx_len_byte a b, cx_distance b c, length pre + 3)"
    by (simp add: d)
  show "kind \<noteq> Lz10 \<Longrightarrow> unat a div 16 = 1 \<Longrightarrow> src = pre @ [a, b, c, e] @ post \<Longrightarrow>
     cx_fields kind src (length pre) = Some (cx_len_word a b c, cx_distance c e, length pre + 4)"
    by (simp add: d)
qed

lemma cx_fields_enc:
  assumes "cx_enc_ok kind (Ref d n)" "src = pre @ cx_enc kind (Ref d n) @ post"
  shows "\<exists>len distance. cx_fields kind src (length pre) =
      Some (len, distance, length pre + length (cx_enc kind (Ref d n))) \<and> unat len = n \<and> unat distance = d"
proof -
  have dn: "1 \<le> d" "d \<le> 4096" "3 \<le> n" using assms by auto
  have q: "(d - 1) div 256 < 16" using dn by linarith
  note dist = cx_distance_enc [OF dn(1,2)]
  consider "kind = Lz10" "n \<le> 18" | "kind \<noteq> Lz10" "n \<le> 16" | "kind \<noteq> Lz10" "16 < n" "n \<le> 272"
    | "kind \<noteq> Lz10" "272 < n" "n \<le> 65808" using assms by (auto split: if_splits)
  then show ?thesis
  proof cases
    case 1
    let ?a = "of_nat ((n - 3) * 16 + (d - 1) div 256) :: u8"
    have lt: "n - 3 < 16" using 1 by linarith
    have "src = pre @ [?a, of_nat (d - 1)] @ post" using assms 1 by simp
    from cx_fields_spellings(1) [OF this] 1 dn indicator_enc(1) [OF lt q] dist [OF lt] show ?thesis
      by (auto simp: unat_cx_lens simp del: of_nat_add of_nat_mult of_nat_diff)
  next
    case 2
    let ?a = "of_nat ((n - 1) * 16 + (d - 1) div 256) :: u8"
    have lt: "n - 1 < 16" using 2 dn by linarith
    have "src = pre @ [?a, of_nat (d - 1)] @ post" using assms 2 by simp
    moreover have "unat ?a div 16 \<noteq> 0" "unat ?a div 16 \<noteq> 1"
      using indicator_enc(1) [OF lt q] dn by linarith+
    ultimately have "cx_fields kind src (length pre) =
        Some (cx_len_nibble ?a, cx_distance ?a (of_nat (d - 1)), length pre + 2)"
      using cx_fields_spellings(2) [OF 2(1)] by blast
    moreover have "unat (cx_len_nibble ?a) = n"
      using indicator_enc(1) [OF lt q] dn by (simp only: unat_cx_lens(2))
    ultimately show ?thesis using 2 dist [OF lt] by simp
  next
    case 3
    let ?a = "of_nat ((n - 17) div 16) :: u8" and ?b = "of_nat (((n - 17) mod 16) * 16 + (d - 1) div 256) :: u8"
    have a: "unat ?a = (n - 17) div 16" using 3 by (simp add: unat_of_nat_mod del: of_nat_diff)
    have z: "unat ?a div 16 = 0" using a 3 by simp
    have lt: "(n - 17) mod 16 < 16" by simp
    have "(n - 17) div 16 * 16 + (n - 17) mod 16 = n - 17" by (rule div_mult_mod_eq)
    with a indicator_enc(1) [OF lt q] have "unat (cx_len_byte ?a ?b) = (n - 17) + 17"
      by (simp only: unat_cx_lens(3))
    moreover have "src = pre @ [?a, ?b, of_nat (d - 1)] @ post" using assms 3 by simp
    ultimately show ?thesis using cx_fields_spellings(3) [OF 3(1) z] dist [OF lt] 3 by auto
  next
    case 4
    let ?m = "n - 273"
    let ?a = "of_nat (16 + ?m div 4096) :: u8" and ?b = "of_nat (?m div 16) :: u8"
      and ?c = "of_nat ((?m mod 16) * 16 + (d - 1) div 256) :: u8"
    have m: "?m div 4096 < 16" using 4 by linarith
    then have a: "unat ?a = 16 + ?m div 4096" by (simp add: unat_of_nat_mod del: of_nat_add of_nat_diff)
    have z: "unat ?a div 16 = 1" using a m by simp
    have lt: "?m mod 16 < 16" by simp
    have split: "?m div 4096 * 4096 + (?m div 16) mod 256 * 16 + ?m mod 16 = ?m"
    proof -
      have "?m div 4096 * 256 + ?m div 16 mod 256 = ?m div 16"
        using div_mult_mod_eq [of "?m div 16" 256] by (simp add: div_mult2_eq [symmetric])
      then show ?thesis using div_mult_mod_eq [of ?m 16] by linarith
    qed
    have "unat ?a mod 16 = ?m div 4096" using a m by simp
    moreover have "unat ?b = ?m div 16 mod 256" by (simp only: unat_of_nat_mod)
    moreover note indicator_enc(1) [OF lt q]
    ultimately have "unat (cx_len_word ?a ?b ?c) = ?m + 273" by (simp only: unat_cx_lens(4) split)
    then have "unat (cx_len_word ?a ?b ?c) = n" using 4 by simp
    moreover have enc: "cx_enc kind (Ref d n) = [?a, ?b, ?c, of_nat (d - 1)]" using 4 by simp
    have "src = pre @ [?a, ?b, ?c, of_nat (d - 1)] @ post" unfolding assms(2) enc ..
    note cx_fields_spellings(4) [OF 4(1) z this]
    ultimately show ?thesis using dist [OF lt] unfolding enc by auto
  qed
qed

lemma cx_token_enc:
  assumes "cx_enc_ok kind t" "src = pre @ cx_enc kind t @ post" "l \<noteq> 0" "(f AND 0x80 \<noteq> 0) = (\<not> is_lit t)"
  shows "cx_token kind src (length pre, l, f) =
           Some (t, (length pre + length (cx_enc kind t), l - 1, push_bit 1 f AND 0xFF))"
proof (cases t)
  case (Lit b)
  with assms show ?thesis by (simp add: cx_token_fields cx_group_def rd_def Let_def)
next
  case (Ref d n)
  with assms cx_fields_enc [of kind d n src pre post] show ?thesis
    by (auto simp: cx_token_fields cx_group_def Let_def)
qed

lemma bit_shift_FF: "i < 7 \<Longrightarrow> bit (push_bit 1 f AND 0xFF :: u32) (Suc i) = bit f i"
  using bit_mask_iff [of 8 "Suc i", where 'a = u32]
  by (simp only: bit_and_iff bit_push_bit_iff) (simp add: mask_eq_exp_minus_1)

lemma cx_group_parses:
  assumes "length ts \<le> k + 1" "k < 8" "list_all (cx_enc_ok kind) ts"
    "\<And>j. j \<le> k \<Longrightarrow> bit f (7 - k + j) = bit (group_flags (\<lambda>t. \<not> is_lit t) k ts) j"
    "src = pre @ concat (map (cx_enc kind) ts) @ post"
  shows "\<exists>f'. parses (cx_token kind src) (length pre, k + 1, f) ts
           (length pre + length (concat (map (cx_enc kind) ts)), k + 1 - length ts, f')"
  using assms
proof (induction ts arbitrary: k pre f)
  case Nil
  then show ?case by simp
next
  case (Cons t ts)
  let ?f = "push_bit 1 f AND 0xFF"
  have "bit f 7 = (\<not> is_lit t)"
    using Cons.prems(4) [of k] Cons.prems(2) bit_group_flags_head [OF Cons.prems(1,2), of "\<lambda>t. \<not> is_lit t"]
    by (simp del: group_flags.simps)
  then have flag: "(f AND 0x80 \<noteq> 0) = (\<not> is_lit t)"
    using and_exp_eq_0_iff_not_bit [of f 7] by simp
  have tok: "cx_token kind src (length pre, k + 1, f) =
      Some (t, (length pre + length (cx_enc kind t), k, ?f))"
    using cx_token_enc [of kind t src pre "concat (map (cx_enc kind) ts) @ post" "k + 1" f] Cons.prems flag
    by simp
  show ?case
  proof (cases "k = 0")
    case True
    with Cons.prems(1) have "ts = []" by simp
    with tok show ?thesis using True by auto
  next
    case False
    have shift: "bit ?f (7 - (k - 1) + j) = bit (group_flags (\<lambda>t. \<not> is_lit t) (k - 1) ts) j" if "j \<le> k - 1" for j
    proof -
      have "7 - (k - 1) + j = Suc (7 - k + j)" "7 - k + j < 7" using False that Cons.prems(2) by linarith+
      then have "bit ?f (7 - (k - 1) + j) = bit f (7 - k + j)" by (simp only: bit_shift_FF)
      also have "\<dots> = bit (group_flags (\<lambda>t. \<not> is_lit t) k (t # ts)) j"
        using Cons.prems(4) [of j] that by simp
      also have "\<dots> = bit (group_flags (\<lambda>t. \<not> is_lit t) (k - 1) ts) j"
        using that False by (intro bit_group_flags_tail) linarith
      finally show ?thesis .
    qed
    have "\<exists>f'. parses (cx_token kind src) (length (pre @ cx_enc kind t), (k - 1) + 1, ?f) ts
       (length (pre @ cx_enc kind t) + length (concat (map (cx_enc kind) ts)), (k - 1) + 1 - length ts, f')"
      using Cons.prems False shift by (intro Cons.IH) auto
    with tok False show ?thesis by (auto simp: add.assoc)
  qed
qed

lemma cx_stream_parses:
  assumes "list_all (cx_enc_ok kind) ts" "src = pre @ lz_stream (\<lambda>t. \<not> is_lit t) (cx_enc kind) ts"
  shows "\<exists>q. parses (cx_token kind src) (length pre, 0, f) ts q"
  using assms
proof (induction "\<lambda>t. \<not> is_lit t" "cx_enc kind" ts arbitrary: pre f rule: lz_stream.induct)
  case 1
  then show ?case by simp
next
  case (2 t ts)
  let ?P = "\<lambda>t. \<not> is_lit t" and ?g = "take 8 (t # ts)" and ?r = "drop 8 (t # ts)"
  let ?F = "group_flags ?P 7 ?g"
  let ?pre = "pre @ [?F]"
  let ?pos = "length ?pre + length (concat (map (cx_enc kind) ?g))"
  have ok: "list_all (cx_enc_ok kind) ?g" "list_all (cx_enc_ok kind) ?r"
    using 2(2) by (auto simp: list_all_iff dest: in_set_takeD in_set_dropD)
  have src: "src = ?pre @ concat (map (cx_enc kind) ?g) @ lz_stream ?P (cx_enc kind) ?r"
    using 2(3) by (simp add: lz_stream.simps(2))
  obtain f' where grp: "parses (cx_token kind src) (length ?pre, 7 + 1, ucast ?F) ?g
      (?pos, 7 + 1 - length ?g, f')"
    using cx_group_parses [OF _ _ ok(1) _ src, of 7 "ucast ?F"] by (auto simp: bit_ucast_iff simp del: group_flags.simps)
  moreover have "cx_token kind src (length pre, 0, f) = cx_token kind src (length ?pre, 7 + 1, ucast ?F)"
    using src by (simp add: cx_token_fields cx_group_def rd_def nth_append)
  ultimately have start: "parses (cx_token kind src) (length pre, 0, f) ?g (?pos, 7 + 1 - length ?g, f')"
    by simp
  show ?case
  proof (cases "length ?g = 8")
    case True
    have "src = (?pre @ concat (map (cx_enc kind) ?g)) @ lz_stream ?P (cx_enc kind) ?r"
      using src by simp
    from 2(1) [OF ok(2) this, of f'] obtain q where
      "parses (cx_token kind src) (?pos, 0, f') ?r q" unfolding length_append by blast
    moreover have "7 + 1 - length ?g = 0" using True by linarith
    ultimately have "parses (cx_token kind src) (length pre, 0, f) (?g @ ?r) q"
      using start unfolding parses_append by metis
    then show ?thesis by (metis append_take_drop_id)
  next
    case False
    then have "?g = t # ts" by simp
    with start show ?thesis by metis
  qed
qed

text \<open>CxDecompress is the inverse of the encoder, in both kinds and with every one of the four ways
  a length is spelled.\<close>

theorem CxDecompress_encode:
  assumes "kind = Lz10 \<or> kind = Lz11" "list_all (cx_enc_ok kind) ts" "expand n [] ts = Some out" "length out = n"
    and "0 < n" "n < 2 ^ 24" "n \<le> length dst"
  shows "CxDecompress (Some (cx_encode kind n ts)) (Some dst) = Some (of_nat n, Some (out @ drop n dst))"
proof -
  let ?src = "cx_encode kind n ts"
  have n: "unat (of_nat n :: u32) = n" using assms(6) by (intro unat_of_nat_u32) simp
  have sz: "cx_read24 ?src 1 = Some (of_nat n)"
  proof -
    have "ucast (of_nat n :: u8) OR push_bit 8 (ucast (of_nat (n div 256) :: u8)) OR
        push_bit 16 (ucast (of_nat (n div 65536) :: u8)) = (of_nat n :: u32)" (is "?w = _")
      using assms(6) cx_size_word by simp
    then show ?thesis by (simp add: cx_read24_def cx_encode_def rd_def)
  qed
  have kind: "CxIdentify (Some ?src) = kind"
    using assms(1) by (auto simp: CxIdentify_def cx_encode_def)
  moreover have nz: "(of_nat n :: u32) \<noteq> 0" using n assms(5) by (metis less_irrefl unsigned_0)
  ultimately have "CxExpandedSize (Some ?src) = Some (of_nat n)"
    using assms(1) sz by (auto simp: CxExpandedSize_def)
  moreover have "cx_start ?src = (4, 0, 0)" using sz nz by (simp add: cx_start_def PayloadAt_def)
  moreover obtain q where "parses (cx_token kind ?src) (4, 0, 0) ts q"
  proof -
    have "length (take 4 ?src) = 4" by (simp add: cx_encode_def)
    moreover have "\<exists>q. parses (cx_token kind ?src) (length (take 4 ?src), 0, 0) ts q"
      by (rule cx_stream_parses [OF assms(2)]) (simp add: cx_encode_def)
    ultimately show ?thesis using that by metis
  qed
  ultimately show ?thesis
    using assms n nz kind
    by (intro iffD2 [OF CxDecompress_iff] exI [of _ ts] exI [of _ q] exI [of _ out] conjI) simp_all
qed

lemma CxDecompress_encode_witness:
  "CxDecompress (Some (cx_encode Lz11 5 [Lit 0x61, Ref 1 4])) (Some [0, 0, 0, 0, 0, 0]) =
     Some (5, Some [0x61, 0x61, 0x61, 0x61, 0x61, 0])"
  using CxDecompress_encode [of Lz11 "[Lit 0x61, Ref 1 4]" 5 "[0x61, 0x61, 0x61, 0x61, 0x61]" "[0, 0, 0, 0, 0, 0]"]
  by simp

end
