(* ===== verification/Ash.thy ===== *)
theory Ash
  imports Sliding_Window
begin

text \<open>
  src/format/archive/ash.cpp: the bit reader over big-endian words, the tree reader with its
  explicit stack, and the decoder that walks two trees over two bit streams. The buffer a reader
  looks at is an argument of its operations; the rest of the class is the record \<open>bit_reader\<close>.
\<close>

record bit_reader =
  m_at :: nat
  m_word :: u32
  m_used :: u32
  m_failed :: bool

definition Feed :: "bytes \<Rightarrow> bit_reader \<Rightarrow> bit_reader option" where
  "Feed data b =
     (if length data < m_at b + 4 then Some (b\<lparr>m_failed := True, m_word := 0, m_used := 0\<rparr>)
      else do { w \<leftarrow> read32 data (m_at b); Some (b\<lparr>m_word := w, m_used := 0, m_at := m_at b + 4\<rparr>) })"

definition BitReader :: "bytes \<Rightarrow> nat \<Rightarrow> bit_reader option" where
  "BitReader data at = Feed data \<lparr>m_at = at, m_word = 0, m_used = 0, m_failed = False\<rparr>"

definition Bit :: "bytes \<Rightarrow> bit_reader \<Rightarrow> (u32 \<times> bit_reader) option" where
  "Bit data b =
     (if m_failed b then Some (0, b)
      else
        let bit = drop_bit 31 (m_word b) in
        do { b' \<leftarrow> (if m_used b = 31 then Feed data b
                   else Some (b\<lparr>m_used := m_used b + 1, m_word := push_bit 1 (m_word b)\<rparr>));
             Some (bit, b') })"

fun Bits_from :: "bytes \<Rightarrow> nat \<Rightarrow> u32 \<Rightarrow> bit_reader \<Rightarrow> (u32 \<times> bit_reader) option" where
  "Bits_from data 0 v b = Some (v, b)"
| "Bits_from data (Suc n) v b = do { (x, b') \<leftarrow> Bit data b; Bits_from data n (push_bit 1 v OR x) b' }"

definition Bits :: "bytes \<Rightarrow> nat \<Rightarrow> bit_reader \<Rightarrow> (u32 \<times> bit_reader) option" where
  "Bits data n b = Bits_from data n 0 b"

definition kRight :: u32 where "kRight = 0x80000000"
definition kLeft :: u32 where "kLeft = 0x40000000"
definition kIndex :: u32 where "kIndex = 0x3FFFFFFF"

record ash_tree =
  t_left :: "u32 list"
  t_right :: "u32 list"
  t_root :: u32
  t_ok :: bool

text \<open>
  The locals of \<open>ReadTree\<close>: the reader, the tree, the stack (its top first), and the next free
  node. \<open>open\<close> counts the stack.
\<close>

record tree_state =
  w_reader :: bit_reader
  w_tree :: ash_tree
  w_pending :: "u32 list"
  w_next :: u32
  w_symbol :: u32
  w_open :: nat

text \<open>The inner do-while: a finished subtree is hung from the places that wait for it.\<close>

definition ash_attach_body :: "tree_state \<Rightarrow> ((tree_state \<times> bool) + tree_state) option" where
  "ash_attach_body s =
     (case w_pending s of
        [] \<Rightarrow> Some (Inl (s, False))
      | node # pending \<Rightarrow>
          let index = node AND kIndex;
              s = s\<lparr>w_pending := pending, w_open := w_open s - 1\<rparr>
          in if node AND kRight \<noteq> 0 then
               do { right \<leftarrow> wr (t_right (w_tree s)) (unat index) (w_symbol s);
                    let s = s\<lparr>w_tree := (w_tree s)\<lparr>t_right := right\<rparr>, w_symbol := index\<rparr>
                    in Some (if 0 < w_open s then Inr s else Inl (s, True)) }
             else
               do { left \<leftarrow> wr (t_left (w_tree s)) (unat index) (w_symbol s);
                    Some (Inl (s\<lparr>w_tree := (w_tree s)\<lparr>t_left := left\<rparr>\<rparr>, True)) })"

definition ash_read_body ::
  "bytes \<Rightarrow> nat \<Rightarrow> tree_state \<Rightarrow> ((ash_tree \<times> bit_reader) + tree_state) option" where
  "ash_read_body data width s =
     (let leaves = push_bit width (1 :: u32) in
      if m_failed (w_reader s) \<or> 2 * leaves - 1 \<le> w_next s then Some (Inl (w_tree s, w_reader s))
      else do {
        (bit, reader) \<leftarrow> Bit data (w_reader s);
        let s = s\<lparr>w_reader := reader\<rparr> in
        if bit \<noteq> 0 then
          Some (Inr (s\<lparr>w_pending := (w_next s OR kLeft) # (w_next s OR kRight) # w_pending s,
                       w_open := w_open s + 2, w_next := w_next s + 1\<rparr>))
        else do {
          (symbol, reader) \<leftarrow> Bits data width (w_reader s);
          (s, go) \<leftarrow> loop ash_attach_body (s\<lparr>w_reader := reader, w_symbol := symbol\<rparr>);
          Some (if \<not> go then Inl (w_tree s, w_reader s)
                else if 0 < w_open s then Inr s
                else Inl ((w_tree s)\<lparr>t_root := w_symbol s, t_ok := \<not> m_failed (w_reader s)\<rparr>,
                          w_reader s)) } })"

definition ReadTree :: "bytes \<Rightarrow> nat \<Rightarrow> bit_reader \<Rightarrow> (ash_tree \<times> bit_reader) option" where
  "ReadTree data width reader =
     (let leaves = push_bit width (1 :: u32); n = unat (2 * leaves - 1) in
      loop (ash_read_body data width)
        \<lparr>w_reader = reader,
         w_tree = \<lparr>t_left = replicate n 0, t_right = replicate n 0, t_root = 0, t_ok = False\<rparr>,
         w_pending = [], w_next = leaves, w_symbol = 0, w_open = 0\<rparr>)"

definition IsAsh :: "bytes option \<Rightarrow> bool option" where
  "IsAsh data = (case data of None \<Rightarrow> Some False
     | Some p \<Rightarrow> if length p < 12 then Some False
                else do { magic \<leftarrow> read32 p 0; Some (magic = 0x41534830) })"

definition AshExpandedSize :: "bytes option \<Rightarrow> u32 option" where
  "AshExpandedSize data = do { ash \<leftarrow> IsAsh data;
     case data of None \<Rightarrow> Some 0
     | Some p \<Rightarrow> if ash then do { w \<leftarrow> read32 p 4; Some (w AND 0x00FFFFFF) } else Some 0 }"

text \<open>Down one tree: the symbol and the moved reader, or nothing where the decoder gives up.\<close>

definition ash_walk_body ::
  "bytes \<Rightarrow> ash_tree \<Rightarrow> u32 \<Rightarrow> u32 \<times> bit_reader \<Rightarrow> ((u32 \<times> bit_reader) option + u32 \<times> bit_reader) option" where
  "ash_walk_body data tree leaves = (\<lambda>(symbol, reader).
     if leaves \<le> symbol then
       if length (t_left tree) \<le> unat symbol \<or> m_failed reader then Some (Inl None)
       else do { (bit, reader) \<leftarrow> Bit data reader;
                 symbol \<leftarrow> (if bit \<noteq> 0 then rd (t_right tree) (unat symbol) else rd (t_left tree) (unat symbol));
                 Some (Inr (symbol, reader)) }
     else Some (Inl (Some (symbol, reader))))"

definition ash_walk :: "bytes \<Rightarrow> ash_tree \<Rightarrow> u32 \<Rightarrow> bit_reader \<Rightarrow> (u32 \<times> bit_reader) option option" where
  "ash_walk data tree leaves reader = loop (ash_walk_body data tree leaves) (t_root tree, reader)"

record ash =
  a_symbols :: bit_reader
  a_distances :: bit_reader
  a_written :: u32
  a_dst :: bytes

definition ash_body ::
  "bytes \<Rightarrow> ash_tree \<Rightarrow> ash_tree \<Rightarrow> u32 \<Rightarrow> u32 \<Rightarrow> u32 \<Rightarrow> ash \<Rightarrow> ((u32 \<times> bytes) + ash) option" where
  "ash_body src symbol_tree distance_tree symbol_leaves distance_leaves expanded s =
     (if a_written s < expanded then
        do { ws \<leftarrow> ash_walk src symbol_tree symbol_leaves (a_symbols s);
             case ws of None \<Rightarrow> Some (Inl (0, a_dst s))
             | Some (symbol, symbols) \<Rightarrow>
               let s = s\<lparr>a_symbols := symbols\<rparr> in
               if symbol < 0x100 then
                 do { dst \<leftarrow> wr (a_dst s) (unat (a_written s)) (ucast symbol);
                      Some (Inr (s\<lparr>a_dst := dst, a_written := a_written s + 1\<rparr>)) }
               else
                 do { wd \<leftarrow> ash_walk src distance_tree distance_leaves (a_distances s);
                      case wd of None \<Rightarrow> Some (Inl (0, a_dst s))
                      | Some (distance, distances) \<Rightarrow>
                        let s = s\<lparr>a_distances := distances\<rparr>; len = (symbol - 0x100) + 3 in
                        if a_written s < distance + 1 \<or> expanded < a_written s + len
                        then Some (Inl (0, a_dst s))
                        else do { (dst, written) \<leftarrow>
                                    lz_copy (a_dst s) (a_written s - distance - 1) (a_written s) (unat len);
                                  Some (Inr (s\<lparr>a_dst := dst, a_written := written\<rparr>)) } } }
      else Some (Inl (if m_failed (a_symbols s) \<or> m_failed (a_distances s) then 0 else a_written s, a_dst s)))"

definition AshDecompress ::
  "bytes option \<Rightarrow> bytes option \<Rightarrow> int \<Rightarrow> int \<Rightarrow> (u32 \<times> bytes option) option" where
  "AshDecompress src dst symbol_bits distance_bits =
     do { expanded \<leftarrow> AshExpandedSize src;
          case (src, dst) of
            (Some src, Some dst) \<Rightarrow>
              if expanded = 0 \<or> length dst < unat expanded then Some (0, Some dst)
              else if symbol_bits < 1 \<or> 16 < symbol_bits \<or> distance_bits < 1 \<or> 16 < distance_bits
              then Some (0, Some dst)
              else do {
                distance_at \<leftarrow> read32 src 8;
                if length src < unat distance_at + 4 then Some (0, Some dst)
                else do {
                  symbols \<leftarrow> BitReader src 12;
                  distances \<leftarrow> BitReader src (unat distance_at);
                  (symbol_tree, symbols) \<leftarrow> ReadTree src (nat symbol_bits) symbols;
                  (distance_tree, distances) \<leftarrow> ReadTree src (nat distance_bits) distances;
                  if \<not> t_ok symbol_tree \<or> \<not> t_ok distance_tree then Some (0, Some dst)
                  else do {
                    (n, d) \<leftarrow> loop (ash_body src symbol_tree distance_tree (push_bit (nat symbol_bits) 1)
                               (push_bit (nat distance_bits) 1) expanded)
                             \<lparr>a_symbols = symbols, a_distances = distances, a_written = 0, a_dst = dst\<rparr>;
                    Some (n, Some d) } } }
          | _ \<Rightarrow> Some (0, dst) }"

section \<open>The reader is a list of bits\<close>

definition reader_ok :: "bit_reader \<Rightarrow> bool" where
  "reader_ok b \<longleftrightarrow> unat (m_used b) \<le> 31"

fun word_bits :: "nat \<Rightarrow> u32 \<Rightarrow> bool list" where
  "word_bits 0 w = []"
| "word_bits (Suc n) w = (drop_bit 31 w \<noteq> 0) # word_bits n (push_bit 1 w)"

text \<open>The bits of the whole big-endian words from an offset on.\<close>

function word_stream :: "bytes \<Rightarrow> nat \<Rightarrow> bool list" where
  "word_stream data at = (if length data < at + 4 then []
     else word_bits 32 (be32 (data ! at) (data ! (at + 1)) (data ! (at + 2)) (data ! (at + 3))) @
          word_stream data (at + 4))"
  by pat_completeness auto
termination by (relation "measure (\<lambda>(data, at). length data - at)") auto

declare word_stream.simps [simp del]

definition stream :: "bytes \<Rightarrow> bit_reader \<Rightarrow> bool list" where
  "stream data b = (if m_failed b then []
     else word_bits (32 - unat (m_used b)) (m_word b) @ word_stream data (m_at b))"

lemma Feed_stream:
  assumes "\<not> m_failed b"
  shows "\<exists>b'. Feed data b = Some b' \<and> reader_ok b' \<and> stream data b' = word_stream data (m_at b)"
proof (cases "length data < m_at b + 4")
  case True
  then show ?thesis
    by (simp add: Feed_def reader_ok_def stream_def word_stream.simps [of data "m_at b"])
next
  case False
  then show ?thesis
    using assms by (simp add: Feed_def read32_Some reader_ok_def stream_def word_stream.simps [of data "m_at b"])
qed

lemma BitReader_stream:
  "\<exists>b. BitReader data at = Some b \<and> reader_ok b \<and> stream data b = word_stream data at"
  unfolding BitReader_def using Feed_stream [of "\<lparr>m_at = at, m_word = 0, m_used = 0, m_failed = False\<rparr>" data]
  by simp

lemma stream_Nil_iff: "reader_ok b \<Longrightarrow> stream data b = [] \<longleftrightarrow> m_failed b"
proof -
  assume "reader_ok b"
  then have "32 - unat (m_used b) = Suc (31 - unat (m_used b))" by (simp add: reader_ok_def Suc_diff_le)
  then show ?thesis by (simp add: stream_def)
qed

lemma drop_bit_31_cases: "drop_bit 31 (w :: u32) = of_bool (drop_bit 31 w \<noteq> 0)"
proof -
  have "unat (drop_bit 31 w) < 2" using unat_u32 [of w] by (simp add: unat_drop_bit)
  then have "unat (drop_bit 31 w) = 0 \<or> unat (drop_bit 31 w) = 1" by linarith
  then show ?thesis by (auto simp: word_unat_eq_iff)
qed

lemma Bit_stream:
  assumes ok: "reader_ok b"
  shows "\<exists>b'. Bit data b = Some (case stream data b of [] \<Rightarrow> 0 | x # _ \<Rightarrow> of_bool x, b') \<and>
     reader_ok b' \<and> stream data b' = tl (stream data b)"
proof (cases "m_failed b")
  case True
  with ok show ?thesis by (simp add: Bit_def stream_def)
next
  case False
  show ?thesis
  proof (cases "m_used b = 31")
    case True
    have "stream data b = (drop_bit 31 (m_word b) \<noteq> 0) # word_stream data (m_at b)"
      using False True by (simp add: stream_def)
    moreover obtain b' where "Feed data b = Some b'" "reader_ok b'" "stream data b' = word_stream data (m_at b)"
      using Feed_stream [OF False] by blast
    ultimately show ?thesis using False True drop_bit_31_cases [of "m_word b"]
      by (auto simp: Bit_def Let_def)
  next
    case neq: False
    then have "unat (m_used b) \<noteq> 31" by (auto simp: word_unat_eq_iff)
    with ok have lt: "unat (m_used b) < 31" by (simp add: reader_ok_def)
    then have u1: "unat (m_used b + 1) = Suc (unat (m_used b))" by (simp add: unat_word_ariths)
    have n: "32 - unat (m_used b) = Suc (32 - Suc (unat (m_used b)))" using lt by simp
    have "stream data b = (drop_bit 31 (m_word b) \<noteq> 0) #
        word_bits (32 - Suc (unat (m_used b))) (push_bit 1 (m_word b)) @ word_stream data (m_at b)"
      using False by (simp add: stream_def n del: push_bit_Suc One_nat_def)
    then show ?thesis using False neq lt u1 drop_bit_31_cases [of "m_word b"]
      by (auto simp: Bit_def Let_def reader_ok_def stream_def)
  qed
qed

text \<open>The bits of a number, most significant first.\<close>

fun sym_bits :: "nat \<Rightarrow> nat \<Rightarrow> bool list" where
  "sym_bits 0 s = []"
| "sym_bits (Suc n) s = odd (s div 2 ^ n) # sym_bits n s"

lemma length_sym_bits [simp]: "length (sym_bits n s) = n"
  by (induction n) auto

lemma unat_shift_in:
  assumes "2 * unat v + 1 < 2 ^ 32"
  shows "unat (push_bit 1 v OR of_bool x :: u32) = 2 * unat v + of_bool x"
proof -
  have "push_bit 1 v OR of_bool x = 2 * v + of_bool x" by (cases x) (simp_all add: or_one_eq)
  then show ?thesis using assms by (cases x) (simp_all add: unat_word_ariths)
qed

lemma Bits_from_stream:
  assumes "reader_ok b"
  shows "\<exists>v' b'. Bits_from data n v b = Some (v', b') \<and> reader_ok b' \<and>
     stream data b' = drop n (stream data b) \<and>
     (\<forall>s rest. stream data b = sym_bits n s @ rest \<longrightarrow> (unat v + 1) * 2 ^ n \<le> 2 ^ 32 \<longrightarrow>
        unat v' = unat v * 2 ^ n + s mod 2 ^ n)"
  using assms
proof (induction n arbitrary: v b)
  case 0
  then show ?case by simp
next
  case (Suc n)
  let ?x = "(case stream data b of [] \<Rightarrow> 0 | x # _ \<Rightarrow> of_bool x) :: u32"
  obtain b1 where b1: "Bit data b = Some (?x, b1)" "reader_ok b1" "stream data b1 = tl (stream data b)"
    using Bit_stream [OF Suc.prems] by blast
  obtain v' b' where IH: "Bits_from data n (push_bit 1 v OR ?x) b1 = Some (v', b')" "reader_ok b'"
    "stream data b' = drop n (stream data b1)"
    "\<forall>s rest. stream data b1 = sym_bits n s @ rest \<longrightarrow> (unat (push_bit 1 v OR ?x) + 1) * 2 ^ n \<le> 2 ^ 32 \<longrightarrow>
        unat v' = unat (push_bit 1 v OR ?x) * 2 ^ n + s mod 2 ^ n"
    using Suc.IH [OF b1(2), of "push_bit 1 v OR ?x"] by blast
  have "unat v' = unat v * 2 ^ Suc n + s mod 2 ^ Suc n"
    if str: "stream data b = sym_bits (Suc n) s @ rest" and bnd: "(unat v + 1) * 2 ^ Suc n \<le> 2 ^ 32" for s rest
  proof -
    have "(unat v + 1) * 2 \<le> (unat v + 1) * 2 ^ Suc n"
      by (intro mult_le_mono2) (simp add: self_le_power)
    then have "(unat v + 1) * 2 \<le> 2 ^ 32" using bnd by (rule order_trans)
    then have "2 * unat v + 1 < 2 ^ 32" by simp
    then have v1: "unat (push_bit 1 v OR ?x) = 2 * unat v + of_bool (odd (s div 2 ^ n))"
      unfolding str by (simp only: sym_bits.simps append_Cons list.case unat_shift_in)
    have "(unat (push_bit 1 v OR ?x) + 1) * 2 ^ n \<le> (2 * (unat v + 1)) * 2 ^ n"
      unfolding v1 by (intro mult_le_mono1) simp
    also have "\<dots> \<le> 2 ^ 32" using bnd by (simp add: ac_simps)
    finally have "unat v' = unat (push_bit 1 v OR ?x) * 2 ^ n + s mod 2 ^ n"
      using IH(4) b1(3) str by simp
    also have "\<dots> = unat v * 2 ^ Suc n + (2 ^ n * (s div 2 ^ n mod 2) + s mod 2 ^ n)"
      unfolding v1 by (simp add: algebra_simps odd_iff_mod_2_eq_one)
    also have "2 ^ n * (s div 2 ^ n mod 2) + s mod 2 ^ n = s mod 2 ^ Suc n"
      by (simp add: mod_mult2_eq mult.commute [of 2])
    finally show ?thesis .
  qed
  moreover have "Bits_from data (Suc n) v b = Some (v', b')" using b1(1) IH(1) by simp
  moreover have "stream data b' = drop (Suc n) (stream data b)" using b1(3) IH(3) by (simp add: drop_Suc)
  ultimately show ?case using IH(2) by blast
qed

lemma Bits_stream:
  assumes "reader_ok b"
  obtains v b' where "Bits data n b = Some (v, b')" "reader_ok b'" "stream data b' = drop n (stream data b)"
    "\<And>s rest. stream data b = sym_bits n s @ rest \<Longrightarrow> n \<le> 32 \<Longrightarrow> s < 2 ^ n \<Longrightarrow> unat v = s"
proof -
  obtain v b' where b': "Bits data n b = Some (v, b')" "reader_ok b'" "stream data b' = drop n (stream data b)"
    and v: "\<And>s rest. stream data b = sym_bits n s @ rest \<Longrightarrow> 2 ^ n \<le> (2 ^ 32 :: nat) \<Longrightarrow>
        unat v = s mod 2 ^ n"
    using Bits_from_stream [OF assms, of data n 0] unfolding Bits_def by auto
  have "unat v = s" if "stream data b = sym_bits n s @ rest" "n \<le> 32" "s < 2 ^ n" for s rest
    using v [OF that(1)] power_increasing [OF that(2), of "2 :: nat"] that(3) by simp
  with b' show thesis by (rule that)
qed

section \<open>The tree reader\<close>

text \<open>A code, as the file writes it: a branch is a 1 bit, a leaf a 0 bit and its symbol.\<close>

datatype code = Leaf nat | Branch code code

fun code_bits :: "nat \<Rightarrow> code \<Rightarrow> bool list" where
  "code_bits width (Leaf s) = False # sym_bits width s"
| "code_bits width (Branch l r) = True # code_bits width l @ code_bits width r"

fun branches :: "code \<Rightarrow> nat" where
  "branches (Leaf s) = 0"
| "branches (Branch l r) = 1 + branches l + branches r"

fun code_ok :: "nat \<Rightarrow> code \<Rightarrow> bool" where
  "code_ok leaves (Leaf s) = (s < leaves)"
| "code_ok leaves (Branch l r) = (code_ok leaves l \<and> code_ok leaves r)"

text \<open>The two arrays hold the code, its nodes numbered from \<open>k\<close> in the order they are opened.\<close>

fun represents :: "nat \<Rightarrow> u32 list \<Rightarrow> u32 list \<Rightarrow> nat \<Rightarrow> u32 \<Rightarrow> code \<Rightarrow> bool" where
  "represents leaves left right k c (Leaf s) = (unat c = s \<and> s < leaves)"
| "represents leaves left right k c (Branch l r) =
     (unat c = k \<and> leaves \<le> k \<and> k < length left \<and> k < length right \<and>
      represents leaves left right (k + 1) (left ! k) l \<and>
      represents leaves left right (k + 1 + branches l) (right ! k) r)"

lemma represents_frame:
  assumes "represents leaves left right k c t" "length left' = length left" "length right' = length right"
    and "\<And>i. k \<le> i \<Longrightarrow> i < k + branches t \<Longrightarrow> left' ! i = left ! i \<and> right' ! i = right ! i"
  shows "represents leaves left' right' k c t"
  using assms by (induction t arbitrary: k c) auto

lemma pending_words:
  fixes n :: u32
  assumes "unat n < 2 ^ 30"
  shows "(n OR kLeft) AND kIndex = n" "(n OR kRight) AND kIndex = n"
    "(n OR kRight) AND kRight \<noteq> 0" "(n OR kLeft) AND kRight = 0"
proof -
  have n: "n AND mask 30 = n"
    using assms by (simp add: word_unat_eq_iff unat_and_mask del: mask_numeral)
  have k: "kIndex = mask 30" by (simp add: kIndex_def mask_eq_exp_minus_1)
  show "(n OR kLeft) AND kIndex = n"
    unfolding k bit.conj_disj_distrib2 n by (simp add: kLeft_def mask_eq_exp_minus_1)
  show "(n OR kRight) AND kIndex = n"
    unfolding k bit.conj_disj_distrib2 n by (simp add: kRight_def mask_eq_exp_minus_1)
  show "(n OR kRight) AND kRight \<noteq> 0"
  proof
    assume "(n OR kRight) AND kRight = 0"
    then have "kRight = 0" by (metis and.commute bit.conj_disj_distrib and.idem or_eq_0_iff)
    then show False by (simp add: kRight_def)
  qed
  have "mask 30 AND kRight = (0 :: u32)" by (simp add: kRight_def mask_eq_exp_minus_1)
  then have "n AND kRight = 0" using n by (metis and.assoc and_zero_eq)
  then show "(n OR kLeft) AND kRight = 0"
    unfolding bit.conj_disj_distrib2 by (simp add: kLeft_def kRight_def)
qed

text \<open>Where the loop goes once a subtree has its node: it is hung from the stack, or it is the root.\<close>

definition finish_tree :: "tree_state \<Rightarrow> ash_tree \<times> bit_reader" where
  "finish_tree s = ((w_tree s)\<lparr>t_root := w_symbol s, t_ok := \<not> m_failed (w_reader s)\<rparr>, w_reader s)"

definition resume :: "bytes \<Rightarrow> nat \<Rightarrow> tree_state \<Rightarrow> (ash_tree \<times> bit_reader) option" where
  "resume data width s =
     (if w_pending s = [] then Some (finish_tree s)
      else do { (s, go) \<leftarrow> loop ash_attach_body s;
                if \<not> go then Some (w_tree s, w_reader s)
                else if 0 < w_open s then loop (ash_read_body data width) s
                else Some (finish_tree s) })"

definition tree_state_ok :: "nat \<Rightarrow> tree_state \<Rightarrow> bool" where
  "tree_state_ok n s \<longleftrightarrow> w_open s = length (w_pending s) \<and> reader_ok (w_reader s) \<and>
     length (t_left (w_tree s)) = n \<and> length (t_right (w_tree s)) = n"

definition nodes :: "nat \<Rightarrow> nat" where
  "nodes width = 2 * 2 ^ width - 1"

lemma unat_leaves: "width \<le> 16 \<Longrightarrow> unat (push_bit width 1 :: u32) = 2 ^ width"
proof -
  assume "width \<le> 16"
  then have "(2 :: nat) ^ width \<le> 2 ^ 16" by (intro power_increasing) simp_all
  then have "unat (of_nat (2 ^ width) :: u32) = 2 ^ width" by (intro unat_of_nat_u32) simp
  then show ?thesis by simp
qed

lemma unat_nodes: "width \<le> 16 \<Longrightarrow> unat (2 * push_bit width 1 - 1 :: u32) = nodes width"
proof -
  assume w: "width \<le> 16"
  have le: "(2 :: nat) ^ width \<le> 2 ^ 16" using w by (intro power_increasing) simp_all
  have "unat (2 * push_bit width 1 :: u32) = 2 * 2 ^ width"
    using unat_leaves [OF w] le by (subst unat_word_ariths) (simp del: push_bit_of_1)
  moreover have "(1 :: u32) \<le> 2 * push_bit width 1"
    using calculation by (simp add: word_le_nat_alt del: push_bit_of_1)
  ultimately show ?thesis by (simp add: unat_sub nodes_def del: push_bit_of_1)
qed

lemma tree_full_iff:
  "width \<le> 16 \<Longrightarrow> 2 * push_bit width 1 - 1 \<le> (next :: u32) \<longleftrightarrow> nodes width \<le> unat next"
  by (simp only: word_le_nat_alt unat_nodes)

lemma resume_left:
  assumes "w_pending s = (n OR kLeft) # P" "P \<noteq> []" "tree_state_ok (nodes width) s"
    and "unat n < nodes width" "width \<le> 16"
  shows "resume data width s = loop (ash_read_body data width)
    (s\<lparr>w_pending := P, w_open := length P,
       w_tree := (w_tree s)\<lparr>t_left := (t_left (w_tree s))[unat n := w_symbol s]\<rparr>\<rparr>)"
proof -
  have "nodes width \<le> 2 * 2 ^ 16"
    using power_increasing [OF assms(5), of "2 :: nat"] by (simp add: nodes_def)
  then have "unat n < 2 ^ 30" using assms(4) by simp
  note pw = pending_words [OF this]
  have "loop ash_attach_body s = Some (s\<lparr>w_pending := P, w_open := length P,
       w_tree := (w_tree s)\<lparr>t_left := (t_left (w_tree s))[unat n := w_symbol s]\<rparr>\<rparr>, True)"
    using assms pw by (intro loop_Inl) (simp add: ash_attach_body_def tree_state_ok_def wr_def Let_def)
  then show ?thesis using assms(1,2) by (simp add: resume_def)
qed

lemma resume_right:
  assumes "w_pending s = (n OR kRight) # P" "tree_state_ok (nodes width) s"
    and "unat n < nodes width" "width \<le> 16"
  shows "resume data width s = resume data width
    (s\<lparr>w_pending := P, w_open := length P, w_symbol := n,
       w_tree := (w_tree s)\<lparr>t_right := (t_right (w_tree s))[unat n := w_symbol s]\<rparr>\<rparr>)"
    (is "_ = resume data width ?s")
proof -
  have "nodes width \<le> 2 * 2 ^ 16"
    using power_increasing [OF assms(4), of "2 :: nat"] by (simp add: nodes_def)
  then have "unat n < 2 ^ 30" using assms(3) by simp
  note pw = pending_words [OF this]
  have step: "ash_attach_body s = Some (if 0 < length P then Inr ?s else Inl (?s, True))"
    using assms pw by (simp add: ash_attach_body_def tree_state_ok_def wr_def Let_def)
  show ?thesis
  proof (cases "P = []")
    case True
    with step have "loop ash_attach_body s = Some (?s, True)" by (intro loop_Inl) simp
    with True assms(1) show ?thesis by (simp add: resume_def)
  next
    case False
    with step have "loop ash_attach_body s = loop ash_attach_body ?s" by (intro loop_Inr) simp
    with False assms(1) show ?thesis by (simp add: resume_def)
  qed
qed

lemma read_leaf:
  assumes "stream data (w_reader s) = code_bits width (Leaf n) @ rest" "reader_ok (w_reader s)"
    and "unat (w_next s) < nodes width" "width \<le> 16" "n < 2 ^ width" "w_pending s \<noteq> []"
  obtains reader symbol where "stream data reader = rest" "reader_ok reader" "unat symbol = n"
    "loop (ash_read_body data width) s = resume data width (s\<lparr>w_reader := reader, w_symbol := symbol\<rparr>)"
proof -
  have str: "stream data (w_reader s) = False # sym_bits width n @ rest" using assms(1) by simp
  then have nf: "\<not> m_failed (w_reader s)" using stream_Nil_iff [OF assms(2), of data] by auto
  obtain r1 where r1: "Bit data (w_reader s) = Some (0, r1)" "reader_ok r1"
    "stream data r1 = sym_bits width n @ rest"
    using Bit_stream [OF assms(2), of data] str by auto
  obtain v r2 where r2: "Bits data width r1 = Some (v, r2)" "reader_ok r2"
    "stream data r2 = drop width (stream data r1)"
    and v: "\<And>s rest. stream data r1 = sym_bits width s @ rest \<Longrightarrow> width \<le> 32 \<Longrightarrow> s < 2 ^ width \<Longrightarrow> unat v = s"
    using Bits_stream [OF r1(2), of data width] by metis
  have vn: "unat v = n" using v [OF r1(3)] assms(4,5) by simp
  let ?s = "s\<lparr>w_reader := r2, w_symbol := v\<rparr>"
  have "loop (ash_read_body data width) s = resume data width ?s"
    using nf r1 r2 assms(3,4,6)
    by (cases "loop ash_attach_body ?s")
       (auto simp: loop.simps [of _ s] ash_read_body_def Let_def tree_full_iff resume_def finish_tree_def
          simp del: push_bit_of_1 split: prod.splits)
  then show thesis using r2 r1(3) vn by (intro that [of r2 v]) simp_all
qed

lemma read_branch:
  assumes "stream data (w_reader s) = True # bits" "reader_ok (w_reader s)"
    and "unat (w_next s) < nodes width" "width \<le> 16"
  obtains reader where "stream data reader = bits" "reader_ok reader"
    "loop (ash_read_body data width) s = loop (ash_read_body data width)
       (s\<lparr>w_reader := reader, w_pending := (w_next s OR kLeft) # (w_next s OR kRight) # w_pending s,
          w_open := w_open s + 2, w_next := w_next s + 1\<rparr>)"
proof -
  have nf: "\<not> m_failed (w_reader s)" using assms(1) stream_Nil_iff [OF assms(2), of data] by auto
  obtain r1 where r1: "Bit data (w_reader s) = Some (1, r1)" "reader_ok r1" "stream data r1 = bits"
    using Bit_stream [OF assms(2), of data] assms(1) by auto
  have "ash_read_body data width s = Some (Inr
       (s\<lparr>w_reader := r1, w_pending := (w_next s OR kLeft) # (w_next s OR kRight) # w_pending s,
          w_open := w_open s + 2, w_next := w_next s + 1\<rparr>))"
    using nf r1 assms(3,4) by (simp add: ash_read_body_def Let_def tree_full_iff del: push_bit_of_1)
  then show thesis using r1 by (intro that [of r1]) (auto intro: loop_Inr)
qed

text \<open>What reading one subtree does to the locals: its bits are gone, its nodes are filled in.\<close>

definition subtree_done :: "bytes \<Rightarrow> nat \<Rightarrow> code \<Rightarrow> bool list \<Rightarrow> tree_state \<Rightarrow> tree_state \<Rightarrow> bool" where
  "subtree_done data width t rest s s' \<longleftrightarrow>
     (let k = unat (w_next s); left = t_left (w_tree s); right = t_right (w_tree s);
          left' = t_left (w_tree s'); right' = t_right (w_tree s') in
      stream data (w_reader s') = rest \<and> tree_state_ok (nodes width) s' \<and>
      unat (w_next s') = k + branches t \<and> w_pending s' = w_pending s \<and> t_ok (w_tree s') = t_ok (w_tree s) \<and>
      (\<forall>i. i < k \<or> k + branches t \<le> i \<longrightarrow> left' ! i = left ! i \<and> right' ! i = right ! i) \<and>
      represents (2 ^ width) left' right' k (w_symbol s') t)"

lemma read_subtree:
  assumes "width \<le> 16"
    and "stream data (w_reader s) = code_bits width t @ rest" "tree_state_ok (nodes width) s"
    and "2 ^ width \<le> unat (w_next s)" "unat (w_next s) + branches t < nodes width"
    and "code_ok (2 ^ width) t" "w_pending s \<noteq> [] \<or> 0 < branches t"
  shows "\<exists>s'. loop (ash_read_body data width) s = resume data width s' \<and> subtree_done data width t rest s s'"
  using assms(2-)
proof (induction t arbitrary: s rest)
  case (Leaf n)
  have "reader_ok (w_reader s)" using Leaf.prems(2) by (simp add: tree_state_ok_def)
  moreover have "unat (w_next s) < nodes width" "n < 2 ^ width" "w_pending s \<noteq> []" using Leaf.prems by simp_all
  ultimately obtain reader symbol where r: "stream data reader = rest" "reader_ok reader" "unat symbol = n"
    "loop (ash_read_body data width) s = resume data width (s\<lparr>w_reader := reader, w_symbol := symbol\<rparr>)"
    using read_leaf [OF Leaf.prems(1) _ _ assms(1)] by metis
  then show ?case using Leaf.prems
    by (intro exI [of _ "s\<lparr>w_reader := reader, w_symbol := symbol\<rparr>"])
       (simp add: subtree_done_def Let_def tree_state_ok_def)
next
  case (Branch l r)
  let ?n = "w_next s" and ?P = "w_pending s" and ?N = "nodes width"
  have ok: "reader_ok (w_reader s)" "unat ?n < ?N" using Branch.prems by (simp_all add: tree_state_ok_def)
  have "?N < 2 ^ 32"
    using power_increasing [OF assms(1), of "2 :: nat"] by (simp add: nodes_def)
  then have n1: "unat (?n + 1) = unat ?n + 1" using ok(2) by (simp add: unat_word_ariths)
  obtain reader where rd: "stream data reader = code_bits width l @ code_bits width r @ rest" "reader_ok reader"
    and step1: "loop (ash_read_body data width) s = loop (ash_read_body data width)
       (s\<lparr>w_reader := reader, w_pending := (?n OR kLeft) # (?n OR kRight) # ?P,
          w_open := w_open s + 2, w_next := ?n + 1\<rparr>)" (is "_ = loop _ ?s1")
    using read_branch [OF _ ok assms(1), of data "code_bits width l @ code_bits width r @ rest"] Branch.prems(1)
    by auto
  have "\<exists>s'. loop (ash_read_body data width) ?s1 = resume data width s' \<and>
      subtree_done data width l (code_bits width r @ rest) ?s1 s'"
    using Branch.prems rd n1 by (intro Branch.IH(1)) (simp_all add: tree_state_ok_def)
  then obtain s2 where s2: "loop (ash_read_body data width) ?s1 = resume data width s2"
    "subtree_done data width l (code_bits width r @ rest) ?s1 s2" by blast
  note d2 = s2(2) [unfolded subtree_done_def Let_def, simplified, simplified n1]
  define s3 where "s3 = s2\<lparr>w_pending := (?n OR kRight) # ?P, w_open := length ((?n OR kRight) # ?P),
       w_tree := (w_tree s2)\<lparr>t_left := (t_left (w_tree s2))[unat ?n := w_symbol s2]\<rparr>\<rparr>"
  have step2: "resume data width s2 = loop (ash_read_body data width) s3"
    unfolding s3_def using d2 ok(2) assms(1) by (intro resume_left) simp_all
  have "\<exists>s'. loop (ash_read_body data width) s3 = resume data width s' \<and>
      subtree_done data width r rest s3 s'"
    using Branch.prems d2 by (intro Branch.IH(2)) (simp_all add: tree_state_ok_def s3_def)
  then obtain s4 where s4: "loop (ash_read_body data width) s3 = resume data width s4"
    "subtree_done data width r rest s3 s4" by blast
  note d4 = s4(2) [unfolded subtree_done_def Let_def]
  define s5 where "s5 = s4\<lparr>w_pending := ?P, w_open := length ?P, w_symbol := ?n,
       w_tree := (w_tree s4)\<lparr>t_right := (t_right (w_tree s4))[unat ?n := w_symbol s4]\<rparr>\<rparr>"
  have step3: "resume data width s4 = resume data width s5"
    unfolding s5_def using d4 ok(2) assms(1) by (intro resume_right) (simp_all add: s3_def)
  have len: "length (t_left (w_tree s2)) = ?N" "length (t_right (w_tree s2)) = ?N"
    "length (t_left (w_tree s4)) = ?N" "length (t_right (w_tree s4)) = ?N"
    using d2 d4 by (simp_all add: tree_state_ok_def)
  have next3: "unat (w_next s3) = unat ?n + 1 + branches l" using d2 by (simp add: s3_def)
  have same4: "t_left (w_tree s4) ! i = t_left (w_tree s3) ! i \<and> t_right (w_tree s4) ! i = t_right (w_tree s3) ! i"
    if "i < unat ?n + 1 + branches l \<or> unat ?n + 1 + branches l + branches r \<le> i" for i
    using d4 that unfolding next3 by blast
  have same2: "t_left (w_tree s2) ! i = t_left (w_tree s) ! i \<and> t_right (w_tree s2) ! i = t_right (w_tree s) ! i"
    if "i < unat ?n + 1 \<or> unat ?n + 1 + branches l \<le> i" for i
    using d2 that by auto
  have "represents (2 ^ width) (t_left (w_tree s5)) (t_right (w_tree s5)) (unat ?n + 1) (w_symbol s2) l"
    by (rule represents_frame [of _ "t_left (w_tree s2)" "t_right (w_tree s2)"])
       (use d2 len same4 in \<open>auto simp: s5_def s3_def\<close>)
  moreover have "represents (2 ^ width) (t_left (w_tree s5)) (t_right (w_tree s5))
      (unat ?n + 1 + branches l) (w_symbol s4) r"
    by (rule represents_frame [of _ "t_left (w_tree s4)" "t_right (w_tree s4)"])
       (use d4 len next3 in \<open>auto simp: s5_def\<close>)
  ultimately have rep5: "represents (2 ^ width) (t_left (w_tree s5)) (t_right (w_tree s5)) (unat ?n) (w_symbol s5) (Branch l r)"
    using Branch.prems(3) ok(2) len same4 [of "unat ?n"] by (simp add: s5_def s3_def)
  have same5: "\<forall>i. i < unat ?n \<or> unat ?n + branches (Branch l r) \<le> i \<longrightarrow>
      t_left (w_tree s5) ! i = t_left (w_tree s) ! i \<and> t_right (w_tree s5) ! i = t_right (w_tree s) ! i"
    using same4 same2 by (auto simp: s5_def s3_def)
  have "stream data (w_reader s5) = rest" "tree_state_ok (nodes width) s5" "w_pending s5 = ?P"
    "unat (w_next s5) = unat ?n + branches (Branch l r)" "t_ok (w_tree s5) = t_ok (w_tree s)"
    using d2 d4 next3 by (simp_all add: s5_def s3_def tree_state_ok_def)
  with rep5 same5 have "subtree_done data width (Branch l r) rest s s5"
    unfolding subtree_done_def Let_def by blast
  with step1 s2(1) step2 s4(1) step3 show ?case by metis
qed

text \<open>A code with as many nodes as the arrays have room for: the loop gives up before its last leaf.\<close>

lemma read_full:
  assumes "width \<le> 16"
    and "stream data (w_reader s) = code_bits width t @ rest" "tree_state_ok (nodes width) s"
    and "2 ^ width \<le> unat (w_next s)" "nodes width \<le> unat (w_next s) + branches t"
    and "code_ok (2 ^ width) t" "\<not> t_ok (w_tree s)"
  shows "\<exists>tree reader. loop (ash_read_body data width) s = Some (tree, reader) \<and> \<not> t_ok tree"
  using assms(2-)
proof (induction t arbitrary: s rest)
  case (Leaf n)
  then show ?case
    by (intro exI [of _ "w_tree s"] exI [of _ "w_reader s"] conjI loop_Inl)
       (simp_all add: ash_read_body_def Let_def tree_full_iff [OF assms(1)] del: push_bit_of_1)
next
  case (Branch l r)
  let ?n = "w_next s" and ?P = "w_pending s" and ?N = "nodes width"
  show ?case
  proof (cases "?N \<le> unat ?n")
    case True
    with Branch.prems(6) show ?thesis
      by (intro exI [of _ "w_tree s"] exI [of _ "w_reader s"] conjI loop_Inl)
         (simp_all add: ash_read_body_def Let_def tree_full_iff [OF assms(1)] del: push_bit_of_1)
  next
    case False
    then have ok: "reader_ok (w_reader s)" "unat ?n < ?N" using Branch.prems by (simp_all add: tree_state_ok_def)
    have "?N < 2 ^ 32"
      using power_increasing [OF assms(1), of "2 :: nat"] by (simp add: nodes_def)
    then have n1: "unat (?n + 1) = unat ?n + 1" using ok(2) by (simp add: unat_word_ariths)
    obtain reader where rd: "stream data reader = code_bits width l @ code_bits width r @ rest" "reader_ok reader"
      and step1: "loop (ash_read_body data width) s = loop (ash_read_body data width)
         (s\<lparr>w_reader := reader, w_pending := (?n OR kLeft) # (?n OR kRight) # ?P,
            w_open := w_open s + 2, w_next := ?n + 1\<rparr>)" (is "_ = loop _ ?s1")
      using read_branch [OF _ ok assms(1), of data "code_bits width l @ code_bits width r @ rest"] Branch.prems(1)
      by auto
    show ?thesis
    proof (cases "?N \<le> unat ?n + 1 + branches l")
      case True
      have "\<exists>tree reader. loop (ash_read_body data width) ?s1 = Some (tree, reader) \<and> \<not> t_ok tree"
        using Branch.prems rd n1 True
        by (intro Branch.IH(1) [of _ "code_bits width r @ rest"]) (simp_all add: tree_state_ok_def)
      with step1 show ?thesis by simp
    next
      case False
      have "\<exists>s'. loop (ash_read_body data width) ?s1 = resume data width s' \<and>
          subtree_done data width l (code_bits width r @ rest) ?s1 s'"
        using Branch.prems rd n1 False assms(1) by (intro read_subtree) (simp_all add: tree_state_ok_def)
      then obtain s2 where s2: "loop (ash_read_body data width) ?s1 = resume data width s2"
        "subtree_done data width l (code_bits width r @ rest) ?s1 s2" by blast
      note d2 = s2(2) [unfolded subtree_done_def Let_def, simplified, simplified n1]
      define s3 where "s3 = s2\<lparr>w_pending := (?n OR kRight) # ?P, w_open := length ((?n OR kRight) # ?P),
           w_tree := (w_tree s2)\<lparr>t_left := (t_left (w_tree s2))[unat ?n := w_symbol s2]\<rparr>\<rparr>"
      have step2: "resume data width s2 = loop (ash_read_body data width) s3"
        unfolding s3_def using d2 ok(2) assms(1) by (intro resume_left) simp_all
      have "\<exists>tree reader. loop (ash_read_body data width) s3 = Some (tree, reader) \<and> \<not> t_ok tree"
        using Branch.prems d2
        by (intro Branch.IH(2) [of _ rest]) (simp_all add: tree_state_ok_def s3_def)
      with step1 s2(1) step2 show ?thesis by simp
    qed
  qed
qed

lemma ReadTree_start:
  assumes "width \<le> 16" "reader_ok reader"
  obtains s where "ReadTree data width reader = loop (ash_read_body data width) s"
    "tree_state_ok (nodes width) s" "unat (w_next s) = 2 ^ width" "w_pending s = []"
    "w_reader s = reader" "\<not> t_ok (w_tree s)"
  by (rule that, simp only: ReadTree_def Let_def)
     (use assms in \<open>simp_all add: tree_state_ok_def unat_nodes unat_leaves del: push_bit_of_1\<close>)

definition tree_read :: "nat \<Rightarrow> code \<Rightarrow> ash_tree \<Rightarrow> bool" where
  "tree_read width t tree \<longleftrightarrow> t_ok tree \<and> length (t_left tree) = nodes width \<and>
     length (t_right tree) = nodes width \<and>
     represents (2 ^ width) (t_left tree) (t_right tree) (2 ^ width) (t_root tree) t"

lemma ReadTree_reads:
  assumes "width \<le> 16" "reader_ok reader" "stream data reader = code_bits width t @ rest" "rest \<noteq> []"
    and "code_ok (2 ^ width) t" "0 < branches t" "branches t + 1 < 2 ^ width"
  shows "\<exists>tree reader'. ReadTree data width reader = Some (tree, reader') \<and> tree_read width t tree \<and>
           reader_ok reader' \<and> stream data reader' = rest"
proof -
  obtain s where s: "ReadTree data width reader = loop (ash_read_body data width) s"
    "tree_state_ok (nodes width) s" "unat (w_next s) = 2 ^ width" "w_pending s = []"
    "w_reader s = reader" "\<not> t_ok (w_tree s)"
    using ReadTree_start [OF assms(1,2)] by metis
  have "\<exists>s'. loop (ash_read_body data width) s = resume data width s' \<and> subtree_done data width t rest s s'"
    using assms s by (intro read_subtree) (simp_all add: nodes_def)
  then obtain s' where s': "loop (ash_read_body data width) s = resume data width s'"
    "subtree_done data width t rest s s'" by blast
  note d = s'(2) [unfolded subtree_done_def Let_def]
  have "\<not> m_failed (w_reader s')"
    using stream_Nil_iff [of "w_reader s'" data] d assms(4) by (simp add: tree_state_ok_def)
  then show ?thesis using s(1,3,4) s'(1) d
    by (simp add: resume_def finish_tree_def tree_read_def tree_state_ok_def)
qed

text \<open>A complete code is refused: where the stream holds a code with as many leaves as the symbol
  width allows, ReadTree returns a tree that is not valid, because its guard stops at the last
  free node before the closing leaf is read.\<close>

theorem ReadTree_full:
  assumes "width \<le> 16" "reader_ok reader" "stream data reader = code_bits width t @ rest"
    and "code_ok (2 ^ width) t" "2 ^ width \<le> branches t + 1"
  shows "\<exists>tree reader'. ReadTree data width reader = Some (tree, reader') \<and> \<not> t_ok tree"
proof -
  obtain s where s: "ReadTree data width reader = loop (ash_read_body data width) s"
    "tree_state_ok (nodes width) s" "unat (w_next s) = 2 ^ width" "w_pending s = []"
    "w_reader s = reader" "\<not> t_ok (w_tree s)"
    using ReadTree_start [OF assms(1,2)] by metis
  show ?thesis unfolding s(1)
    using assms s by (intro read_full [of _ _ _ t rest]) (simp_all add: nodes_def)
qed

text \<open>So is a code of one leaf, which closes a branch that was never opened.\<close>

lemma ReadTree_leaf:
  assumes "1 \<le> width" "width \<le> 16" "reader_ok reader" "stream data reader = code_bits width (Leaf n) @ rest"
  shows "\<exists>tree reader'. ReadTree data width reader = Some (tree, reader') \<and> \<not> t_ok tree"
proof -
  obtain s where s: "ReadTree data width reader = loop (ash_read_body data width) s"
    "unat (w_next s) = 2 ^ width" "w_pending s = []" "w_reader s = reader" "\<not> t_ok (w_tree s)"
    using ReadTree_start [OF assms(2,3)] by metis
  have nf: "\<not> m_failed reader" using stream_Nil_iff [OF assms(3), of data] assms(4) by auto
  obtain r1 where r1: "Bit data reader = Some (0, r1)" "reader_ok r1"
    using Bit_stream [OF assms(3), of data] assms(4) by auto
  obtain v r2 where r2: "Bits data width r1 = Some (v, r2)" using Bits_stream [OF r1(2), of data width] by metis
  let ?s = "s\<lparr>w_reader := r2, w_symbol := v\<rparr>"
  have "loop ash_attach_body ?s = Some (?s, False)"
    using s(3) by (intro loop_Inl) (simp add: ash_attach_body_def)
  moreover have "\<not> nodes width \<le> unat (w_next s)"
  proof -
    have "(2 :: nat) \<le> 2 ^ width" using power_increasing [OF assms(1), of "2 :: nat"] by simp
    then show ?thesis using s(2) unfolding nodes_def by linarith
  qed
  ultimately have "ash_read_body data width s = Some (Inl (w_tree s, r2))"
    using nf r1 r2 s(4) assms(2) by (simp add: ash_read_body_def Let_def tree_full_iff del: push_bit_of_1)
  then have "loop (ash_read_body data width) s = Some (w_tree s, r2)" by (rule loop_Inl)
  then show ?thesis using s(1,5) by simp
qed

lemma word_bits_numeral [simp]:
  "word_bits (numeral k) w = (drop_bit 31 w \<noteq> 0) # word_bits (pred_numeral k) (push_bit 1 w)"
  by (simp add: numeral_eq_Suc)

lemma sym_bits_numeral [simp]:
  "sym_bits (numeral k) s = odd (s div 2 ^ pred_numeral k) # sym_bits (pred_numeral k) s"
  by (simp add: numeral_eq_Suc)

lemma ReadTree_full_witness:
  "\<exists>tree reader'. ReadTree [0x88, 0, 0, 0] 1 \<lparr>m_at = 4, m_word = 0x88000000, m_used = 0, m_failed = False\<rparr> =
     Some (tree, reader') \<and> \<not> t_ok tree"
proof (rule ReadTree_full)
  show "stream [0x88, 0, 0, 0] \<lparr>m_at = 4, m_word = 0x88000000, m_used = 0, m_failed = False\<rparr> =
      code_bits 1 (Branch (Leaf 0) (Leaf 1)) @ [False, False, False, False, False, False, False, False, False, False, False, False, False, False, False, False, False, False, False, False, False, False, False, False, False, False, False]"
    by (simp add: stream_def word_stream.simps be32_def)
qed (simp_all add: reader_ok_def)

section \<open>Any file: the reader of trees returns\<close>

definition node_index :: "nat \<Rightarrow> u32 \<Rightarrow> bool" where
  "node_index width n \<longleftrightarrow> 2 ^ width \<le> unat n \<and> unat n < nodes width"

definition stack_ok :: "nat \<Rightarrow> u32 list \<Rightarrow> bool" where
  "stack_ok width P \<longleftrightarrow>
     (\<forall>p \<in> set P. \<exists>n. node_index width n \<and> (p = n OR kLeft \<or> p = n OR kRight)) \<and>
     (P \<noteq> [] \<longrightarrow> (\<exists>n. last P = n OR kRight \<and> node_index width n))"

definition reading :: "nat \<Rightarrow> tree_state \<Rightarrow> bool" where
  "reading width s \<longleftrightarrow> tree_state_ok (nodes width) s \<and> stack_ok width (w_pending s) \<and> \<not> t_ok (w_tree s)"

text \<open>A tree the walk can be trusted with, whatever is in its arrays.\<close>

definition tree_sane :: "nat \<Rightarrow> ash_tree \<Rightarrow> bool" where
  "tree_sane width tree \<longleftrightarrow> (t_ok tree \<longrightarrow> length (t_left tree) = nodes width \<and>
     length (t_right tree) = nodes width \<and> 2 ^ width \<le> unat (t_root tree))"

lemma node_index_small: "width \<le> 16 \<Longrightarrow> node_index width n \<Longrightarrow> unat n < 2 ^ 30"
proof -
  assume "width \<le> 16" and n: "node_index width n"
  then have "(2 :: nat) ^ width \<le> 2 ^ 16" by (intro power_increasing) simp_all
  moreover have "unat n < 2 * 2 ^ width" using n unfolding node_index_def nodes_def by linarith
  ultimately show ?thesis by simp
qed

lemma stack_pop:
  assumes "stack_ok width (p # P)" "width \<le> 16"
  obtains n where "node_index width n" "p AND kIndex = n" "stack_ok width P"
    "p AND kRight = 0 \<Longrightarrow> P \<noteq> []"
proof -
  obtain n where n: "node_index width n" "p = n OR kLeft \<or> p = n OR kRight"
    using assms(1) by (auto simp: stack_ok_def)
  note pw = pending_words [OF node_index_small [OF assms(2) n(1)]]
  have "p AND kIndex = n" using n(2) pw by auto
  moreover have "stack_ok width P" using assms(1) by (auto simp: stack_ok_def)
  moreover have "P \<noteq> []" if zero: "p AND kRight = 0"
  proof
    assume "P = []"
    then obtain m where m: "p = m OR kRight" "node_index width m" using assms(1) by (auto simp: stack_ok_def)
    with zero pending_words(3) [OF node_index_small [OF assms(2) m(2)]] show False by simp
  qed
  ultimately show thesis using n(1) that by blast
qed

lemma attach_total:
  assumes "width \<le> 16" "reading width s"
  shows "\<exists>x. loop ash_attach_body s = Some x \<and> reading width (fst x) \<and> w_reader (fst x) = w_reader s \<and>
     w_next (fst x) = w_next s \<and> (snd x \<longrightarrow> w_open (fst x) = 0 \<longrightarrow> node_index width (w_symbol (fst x)))"
proof (rule loop_total [where m = "\<lambda>s. length (w_pending s)" and
      I = "\<lambda>u. reading width u \<and> w_reader u = w_reader s \<and> w_next u = w_next s"])
  fix u assume I: "reading width u \<and> w_reader u = w_reader s \<and> w_next u = w_next s"
  show "(\<exists>x. ash_attach_body u = Some (Inl x) \<and> reading width (fst x) \<and> w_reader (fst x) = w_reader s \<and>
     w_next (fst x) = w_next s \<and> (snd x \<longrightarrow> w_open (fst x) = 0 \<longrightarrow> node_index width (w_symbol (fst x)))) \<or>
    (\<exists>u'. ash_attach_body u = Some (Inr u') \<and>
       (reading width u' \<and> w_reader u' = w_reader s \<and> w_next u' = w_next s) \<and>
       length (w_pending u') < length (w_pending u))"
  proof (cases "w_pending u")
    case Nil
    with I show ?thesis by (simp add: ash_attach_body_def)
  next
    case (Cons p P)
    then obtain n where n: "node_index width n" "p AND kIndex = n" "stack_ok width P"
      "p AND kRight = 0 \<Longrightarrow> P \<noteq> []"
      using stack_pop [of width p P] I assms(1) by (auto simp: reading_def)
    then have lt: "unat n < nodes width" by (simp add: node_index_def)
    show ?thesis
    proof (cases "p AND kRight = 0")
      case True
      with n lt I Cons show ?thesis
        by (auto simp: ash_attach_body_def Let_def reading_def tree_state_ok_def wr_def)
    next
      case False
      with n lt I Cons show ?thesis
        by (cases "P = []") (auto simp: ash_attach_body_def Let_def reading_def tree_state_ok_def wr_def)
    qed
  qed
qed (use assms in auto)

lemma ReadTree_total:
  assumes "width \<le> 16" "reader_ok reader"
  shows "\<exists>tree reader'. ReadTree data width reader = Some (tree, reader') \<and> tree_sane width tree \<and>
           reader_ok reader'"
proof -
  let ?I = "\<lambda>s. reading width s \<and> 2 ^ width \<le> unat (w_next s)"
  let ?Q = "\<lambda>x. tree_sane width (fst x) \<and> reader_ok (snd x)"
  obtain s where s: "ReadTree data width reader = loop (ash_read_body data width) s"
    "tree_state_ok (nodes width) s" "unat (w_next s) = 2 ^ width" "w_pending s = []"
    "w_reader s = reader" "\<not> t_ok (w_tree s)"
    using ReadTree_start [OF assms] by metis
  have "\<exists>x. loop (ash_read_body data width) s = Some x \<and> ?Q x"
  proof (rule loop_total [where I = ?I and m = "\<lambda>s. length (stream data (w_reader s))"])
    show "?I s" using s by (simp add: reading_def stack_ok_def)
  next
    fix u assume I: "?I u"
    then have ok: "reader_ok (w_reader u)" by (simp add: reading_def tree_state_ok_def)
    show "(\<exists>x. ash_read_body data width u = Some (Inl x) \<and> ?Q x) \<or>
      (\<exists>u'. ash_read_body data width u = Some (Inr u') \<and> ?I u' \<and>
         length (stream data (w_reader u')) < length (stream data (w_reader u)))"
    proof (cases "m_failed (w_reader u) \<or> nodes width \<le> unat (w_next u)")
      case True
      with I show ?thesis
        by (simp add: ash_read_body_def Let_def tree_full_iff [OF assms(1)] reading_def tree_sane_def
            tree_state_ok_def del: push_bit_of_1)
    next
      case False
      then obtain x bits where str: "stream data (w_reader u) = x # bits"
        using stream_Nil_iff [OF ok, of data] by (cases "stream data (w_reader u)") auto
      obtain r1 where r1: "Bit data (w_reader u) = Some (of_bool x, r1)" "reader_ok r1" "stream data r1 = bits"
        using Bit_stream [OF ok, of data] str by auto
      note body = False r1(1) tree_full_iff [OF assms(1)]
      show ?thesis
      proof (cases x)
        case True
        have idx: "node_index width (w_next u)" using False I by (simp add: node_index_def)
        have "nodes width < 2 ^ 32"
          using power_increasing [OF assms(1), of "2 :: nat"] by (simp add: nodes_def)
        then have "unat (w_next u + 1) = unat (w_next u) + 1" using False by (simp add: unat_word_ariths)
        with True I r1 idx body str show ?thesis
          by (auto simp: ash_read_body_def Let_def reading_def tree_state_ok_def stack_ok_def
              simp del: push_bit_of_1)
      next
        case False
        obtain v r2 where r2: "Bits data width r1 = Some (v, r2)" "reader_ok r2"
          "stream data r2 = drop width (stream data r1)"
          using Bits_stream [OF r1(2), of data width] by metis
        let ?s = "u\<lparr>w_reader := r2, w_symbol := v\<rparr>"
        have "reading width ?s" using I r2 by (simp add: reading_def tree_state_ok_def)
        then obtain t go where t: "loop ash_attach_body ?s = Some (t, go)" "reading width t"
          "w_reader t = r2" "w_next t = w_next u" "go \<Longrightarrow> w_open t = 0 \<Longrightarrow> node_index width (w_symbol t)"
          using attach_total [OF assms(1), of ?s] by auto
        show ?thesis
        proof (cases "go \<and> 0 < w_open t")
          case True
          with False I r1 r2 t body str show ?thesis
            by (simp add: ash_read_body_def Let_def del: push_bit_of_1)
        next
          case stop: False
          with False r1 r2 t body show ?thesis
            by (cases go) (simp_all add: ash_read_body_def Let_def tree_sane_def reading_def
                tree_state_ok_def node_index_def del: push_bit_of_1)
        qed
      qed
    qed
  qed
  with s(1) show ?thesis by auto
qed

section \<open>The decoder as a sliding-window decoder\<close>

type_synonym ash_cursor = "bit_reader \<times> bit_reader"

definition ash_token ::
  "bytes \<Rightarrow> ash_tree \<Rightarrow> ash_tree \<Rightarrow> u32 \<Rightarrow> u32 \<Rightarrow> ash_cursor \<Rightarrow> (token \<times> ash_cursor) option" where
  "ash_token src st dt sl dl = (\<lambda>(bs, bd).
     case ash_walk src st sl bs of
       Some (Some (symbol, bs')) \<Rightarrow>
         if symbol < 0x100 then Some (Lit (ucast symbol), (bs', bd))
         else (case ash_walk src dt dl bd of
             Some (Some (distance, bd')) \<Rightarrow>
               Some (Ref (unat distance + 1) (unat (symbol - 0x100) + 3), (bs', bd'))
           | _ \<Rightarrow> None)
     | _ \<Rightarrow> None)"

definition ash_view :: "ash \<Rightarrow> ash_cursor \<times> u32 \<times> bytes" where
  "ash_view s = ((a_symbols s, a_distances s), a_written s, a_dst s)"

lemma ash_walk_total:
  assumes "length (t_right tree) = length (t_left tree)" "reader_ok b" "leaves \<le> t_root tree"
  shows "\<exists>x. ash_walk data tree leaves b = Some x \<and> (\<forall>symbol b'. x = Some (symbol, b') \<longrightarrow>
     symbol < leaves \<and> reader_ok b' \<and> length (stream data b') < length (stream data b))"
  unfolding ash_walk_def
proof (rule loop_total [where m = "\<lambda>(c, r). length (stream data r)" and I = "\<lambda>(c, r). reader_ok r \<and>
       length (stream data r) \<le> length (stream data b) \<and>
       (leaves \<le> c \<or> length (stream data r) < length (stream data b))"])
  fix u assume I: "case u of (c, r) \<Rightarrow> reader_ok r \<and> length (stream data r) \<le> length (stream data b) \<and>
       (leaves \<le> c \<or> length (stream data r) < length (stream data b))"
  obtain c r where u: "u = (c, r)" by (cases u)
  show "(\<exists>x. ash_walk_body data tree leaves u = Some (Inl x) \<and> (\<forall>symbol b'. x = Some (symbol, b') \<longrightarrow>
     symbol < leaves \<and> reader_ok b' \<and> length (stream data b') < length (stream data b))) \<or>
    (\<exists>u'. ash_walk_body data tree leaves u = Some (Inr u') \<and>
      (case u' of (c, r) \<Rightarrow> reader_ok r \<and> length (stream data r) \<le> length (stream data b) \<and>
       (leaves \<le> c \<or> length (stream data r) < length (stream data b))) \<and>
      (case u' of (c, r) \<Rightarrow> length (stream data r)) < (case u of (c, r) \<Rightarrow> length (stream data r)))"
  proof (cases "leaves \<le> c \<and> unat c < length (t_left tree) \<and> \<not> m_failed r")
    case False
    with I u show ?thesis by (auto simp: ash_walk_body_def)
  next
    case True
    with I u have ok: "reader_ok r" by simp
    then obtain x bits where str: "stream data r = x # bits"
      using True stream_Nil_iff [OF ok, of data] by (cases "stream data r") auto
    obtain r1 where "Bit data r = Some (of_bool x, r1)" "reader_ok r1" "stream data r1 = bits"
      using Bit_stream [OF ok, of data] str by auto
    with True I u str assms(1) show ?thesis
      by (simp add: ash_walk_body_def rd_def not_le)
  qed
qed (use assms in auto)

lemma ash_distance:
  assumes "unat (distance :: u32) < 2 ^ 16"
  shows "of_nat (unat distance + 1) = distance + 1" "unat (distance + 1) = unat distance + 1"
  using assms by (simp_all add: unat_word_ariths)

lemma ash_length:
  assumes "unat (symbol :: u32) < 2 ^ 16" "\<not> symbol < 0x100"
  shows "of_nat (unat (symbol - 0x100) + 3) = symbol - 0x100 + 3"
    "unat (symbol - 0x100 + 3) = unat (symbol - 0x100) + 3" "unat (symbol - 0x100) + 3 \<le> 65536"
    "unat (symbol - 0x100) = unat symbol - 0x100"
proof -
  have ge: "256 \<le> unat symbol" using assms(2) by (simp add: not_less word_le_nat_alt)
  show sub: "unat (symbol - 0x100) = unat symbol - 0x100"
    using assms(2) by (simp add: unat_sub not_less)
  show "unat (symbol - 0x100 + 3) = unat (symbol - 0x100) + 3"
  proof -
    have "unat (x + 3) = unat x + 3" if "unat x < 2 ^ 16" for x :: u32
      using that by (simp add: unat_word_ariths(1))
    moreover have "unat (symbol - 0x100) < 2 ^ 16" unfolding sub using assms(1) by linarith
    ultimately show ?thesis .
  qed
  show "unat (symbol - 0x100) + 3 \<le> 65536" using assms(1) ge unfolding sub by simp
  show "of_nat (unat (symbol - 0x100) + 3) = symbol - 0x100 + 3" by simp
qed

abbreviation "readers_ok \<equiv> \<lambda>(bs, bd). reader_ok bs \<and> reader_ok bd"
abbreviation "readers_good \<equiv> \<lambda>(bs :: bit_reader, bd :: bit_reader). \<not> m_failed bs \<and> \<not> m_failed bd"

lemma ash_walk_tree:
  assumes "tree_sane width tree" "t_ok tree" "width \<le> 16" "reader_ok b"
  shows "\<exists>x. ash_walk data tree (push_bit width 1) b = Some x \<and> (\<forall>symbol b'. x = Some (symbol, b') \<longrightarrow>
     unat symbol < 2 ^ 16 \<and> reader_ok b' \<and> length (stream data b') < length (stream data b))"
proof -
  have "push_bit width 1 \<le> t_root tree"
    using assms by (simp add: tree_sane_def word_le_nat_alt unat_leaves del: push_bit_of_1)
  then obtain x where x: "ash_walk data tree (push_bit width 1) b = Some x"
    "\<And>symbol b'. x = Some (symbol, b') \<Longrightarrow>
     symbol < push_bit width 1 \<and> reader_ok b' \<and> length (stream data b') < length (stream data b)"
    using ash_walk_total [of tree b "push_bit width 1" data] assms by (auto simp: tree_sane_def simp del: push_bit_of_1)
  moreover have "unat symbol < 2 ^ 16" if "symbol < push_bit width 1" for symbol :: u32
    using that power_increasing [OF assms(3), of "2 :: nat"]
    by (simp add: word_less_nat_alt unat_leaves [OF assms(3)] del: push_bit_of_1)
  ultimately show ?thesis by blast
qed

lemma ash_token_cases:
  assumes "ash_token src st dt sl dl (bs, bd) = Some (t, p')"
  obtains symbol bs' where "ash_walk src st sl bs = Some (Some (symbol, bs'))" "symbol < 0x100"
      "t = Lit (ucast symbol)" "p' = (bs', bd)"
  | symbol bs' distance bd' where "ash_walk src st sl bs = Some (Some (symbol, bs'))" "\<not> symbol < 0x100"
      "ash_walk src dt dl bd = Some (Some (distance, bd'))"
      "t = Ref (unat distance + 1) (unat (symbol - 0x100) + 3)" "p' = (bs', bd')"
  using assms by (auto simp: ash_token_def split: option.splits if_splits)

lemma ash_lz_decoder:
  assumes st: "tree_sane sw st" "t_ok st" "sw \<le> 16" and dt: "tree_sane dw dt" "t_ok dt" "dw \<le> 16"
  shows "lz_decoder (ash_token src st dt (push_bit sw 1) (push_bit dw 1)) readers_ok readers_good
     (\<lambda>(bs, bd). length (stream src bs)) 65536
     (ash_body src st dt (push_bit sw 1) (push_bit dw 1)) ash_view"
    (is "lz_decoder ?token _ _ _ _ ?body _")
proof unfold_locales
  note wst = ash_walk_tree [OF st, of _ src] and wdt = ash_walk_tree [OF dt, of _ src]
  fix p :: ash_cursor
  obtain bs bd where p: "p = (bs, bd)" by (cases p)
  assume "readers_ok p"
  then have ok: "reader_ok bs" "reader_ok bd" by (simp_all add: p)
  { fix t p' assume "?token p = Some (t, p')"
    then have "?token (bs, bd) = Some (t, p')" by (simp only: p)
    then show "readers_ok p' \<and> (case p' of (bs, bd) \<Rightarrow> length (stream src bs)) <
        (case p of (bs, bd) \<Rightarrow> length (stream src bs))"
      by (cases rule: ash_token_cases) (use wst [OF ok(1)] wdt [OF ok(2)] ok in \<open>simp_all add: p del: push_bit_of_1\<close>) }
  { fix d n p' assume "?token p = Some (Ref d n, p')"
    then have "?token (bs, bd) = Some (Ref d n, p')" by (simp only: p)
    then show "1 \<le> d \<and> d < 2 ^ 32 \<and> 1 \<le> n \<and> n \<le> 65536"
    proof (cases rule: ash_token_cases)
      case (2 symbol bs' distance bd')
      then have "unat symbol < 2 ^ 16" "unat distance < 2 ^ 16"
        using wst [OF ok(1)] wdt [OF ok(2)] by (simp_all del: push_bit_of_1)
      with 2 ash_length(3) [of symbol] show ?thesis by simp
    qed simp }
  fix s w dst and e :: u32
  assume "ash_view s = (p, w, dst)"
  then have v: "a_symbols s = bs" "a_distances s = bd" "a_written s = w" "a_dst s = dst"
    by (simp_all add: ash_view_def p)
  { assume "\<not> w < e"
    with v show "?body e s = Some (Inl (if readers_good p then w else 0, dst))"
      by (simp add: ash_body_def p) }
  assume w: "w < e"
  { assume "?token p = None"
    with v w wst [OF ok(1)] wdt [OF ok(2)] show "?body e s = Some (Inl (0, dst))"
      by (auto simp: ash_body_def ash_token_def p Let_def simp del: push_bit_of_1 split: option.splits if_splits) }
  { fix b p' assume tok: "?token p = Some (Lit b, p')" and room: "unat w < length dst"
    from tok have "?token (bs, bd) = Some (Lit b, p')" by (simp only: p)
    then show "\<exists>s'. ?body e s = Some (Inr s') \<and> ash_view s' = (p', w + 1, dst[unat w := b])"
      by (cases rule: ash_token_cases)
         (use v w room in \<open>simp_all add: ash_body_def wr_def ash_view_def Let_def del: push_bit_of_1\<close>) }
  fix d n p' assume "?token p = Some (Ref d n, p')"
  then have tok: "?token (bs, bd) = Some (Ref d n, p')" by (simp only: p)
  then obtain symbol bs' distance bd' where t: "ash_walk src st (push_bit sw 1) bs = Some (Some (symbol, bs'))"
      "\<not> symbol < 0x100" "ash_walk src dt (push_bit dw 1) bd = Some (Some (distance, bd'))"
      "d = unat distance + 1" "n = unat (symbol - 0x100) + 3" "p' = (bs', bd')"
    by (cases rule: ash_token_cases) simp_all
  then have "unat symbol < 2 ^ 16" "unat distance < 2 ^ 16"
    using wst [OF ok(1)] wdt [OF ok(2)] by (simp_all del: push_bit_of_1)
  note dist = ash_distance [OF this(2)] and len = ash_length [OF this(1) t(2)]
  have body: "?body e s = (if w < distance + 1 \<or> e < w + (symbol - 0x100 + 3) then Some (Inl (0, dst))
      else do { (dst', w') \<leftarrow> lz_copy dst (w - distance - 1) w (unat (symbol - 0x100 + 3));
                Some (Inr (s\<lparr>a_symbols := bs', a_distances := bd', a_dst := dst', a_written := w'\<rparr>)) })"
    using t v w by (simp add: ash_body_def Let_def del: push_bit_of_1 diff_add_eq)
  have less: "w < distance + 1 \<longleftrightarrow> unat w < d"
    unfolding t(4) by (simp only: word_less_nat_alt dist(2))
  have n: "of_nat n = symbol - 0x100 + 3" unfolding t(5) by (rule len(1))
  { assume "unat w < d \<or> e < w + of_nat n"
    then show "?body e s = Some (Inl (0, dst))" unfolding body less n by simp }
  fix dst' w'
  assume fit: "d \<le> unat w" "w + of_nat n \<le> e" "lz_copy dst (w - of_nat d) w n = Some (dst', w')"
  have "w - of_nat d = w - distance - 1" unfolding t(4) dist(1) by simp
  with fit(3) have "lz_copy dst (w - distance - 1) w (unat (symbol - 0x100 + 3)) = Some (dst', w')"
    unfolding t(5) len(2) by (simp only:)
  moreover have "\<not> (unat w < d \<or> e < w + (symbol - 0x100 + 3))" using fit(1,2) unfolding n by (simp only: not_less not_le de_Morgan_disj simp_thms)
  ultimately have "?body e s =
      Some (Inr (s\<lparr>a_symbols := bs', a_distances := bd', a_dst := dst', a_written := w'\<rparr>))"
    unfolding body less by (simp only: if_False bind.bind_lunit prod.case)
  then show "\<exists>s'. ?body e s = Some (Inr s') \<and> ash_view s' = (p', w', dst')"
    by (intro exI conjI) (assumption, simp add: t(6) ash_view_def)
qed

section \<open>What the decoder does\<close>

lemma IsAsh_defined: "\<exists>b. IsAsh src = Some b"
  by (auto simp: IsAsh_def read32_Some split: option.splits)

lemma AshExpandedSize_defined:
  "\<exists>e. AshExpandedSize src = Some e \<and> unat e < 2 ^ 24 \<and> (e \<noteq> 0 \<longrightarrow> (\<exists>p. src = Some p \<and> 12 \<le> length p))"
proof (cases src)
  case None
  then show ?thesis by (simp add: AshExpandedSize_def IsAsh_def)
next
  case (Some p)
  have mask: "unat (w AND 0x00FFFFFF :: u32) < 2 ^ 24" for w
    using unat_and_mask_less [of w 24] by (simp add: mask_eq_exp_minus_1)
  obtain b where b: "IsAsh src = Some b" using IsAsh_defined by blast
  show ?thesis
  proof (cases b)
    case True
    with b Some have len: "12 \<le> length p" by (simp add: IsAsh_def split: if_splits)
    then obtain w where "read32 p 4 = Some w" using read32_Some [of 4 p] by auto
    with b True Some len show ?thesis by (simp add: AshExpandedSize_def mask [simplified])
  next
    case False
    with b Some show ?thesis by (simp add: AshExpandedSize_def)
  qed
qed

lemma AshDecompress_refused:
  assumes "AshExpandedSize src = Some e"
    and "e = 0 \<or> length dst < unat e \<or> symbol_bits < 1 \<or> 16 < symbol_bits \<or> distance_bits < 1 \<or> 16 < distance_bits"
  shows "AshDecompress src (Some dst) symbol_bits distance_bits = Some (0, Some dst)"
  using assms by (cases src) (auto simp: AshDecompress_def)

text \<open>Past the checks the two trees are read and the loop runs as its contract says.\<close>

definition readers_at :: "bytes \<Rightarrow> nat \<Rightarrow> bit_reader \<Rightarrow> bool" where
  "readers_at src at b \<longleftrightarrow> BitReader src at = Some b \<and> reader_ok b \<and> stream src b = word_stream src at"

lemma AshDecompress_run:
  assumes e: "AshExpandedSize (Some src) = Some e" "e \<noteq> 0" "unat e \<le> length dst"
    and bits: "1 \<le> sw" "sw \<le> 16" "1 \<le> dw" "dw \<le> 16"
  obtains "AshDecompress (Some src) (Some dst) (int sw) (int dw) = Some (0, Some dst)"
      "\<forall>at. read32 src 8 = Some at \<longrightarrow> length src < unat at + 4"
  | b1 b2 at st bs dt bd where "read32 src 8 = Some at" "unat at + 4 \<le> length src"
      "readers_at src 12 b1" "readers_at src (unat at) b2"
      "ReadTree src sw b1 = Some (st, bs)" "ReadTree src dw b2 = Some (dt, bd)"
      "tree_sane sw st" "tree_sane dw dt" "reader_ok bs" "reader_ok bd"
      "AshDecompress (Some src) (Some dst) (int sw) (int dw) =
         (if \<not> t_ok st \<or> \<not> t_ok dt then Some (0, Some dst)
          else do { (n, d) \<leftarrow> loop (ash_body src st dt (push_bit sw 1) (push_bit dw 1) e)
                      \<lparr>a_symbols = bs, a_distances = bd, a_written = 0, a_dst = dst\<rparr>;
                    Some (n, Some d) })"
proof -
  have len: "12 \<le> length src" using AshExpandedSize_defined [of "Some src"] e by auto
  then obtain at where at: "read32 src 8 = Some at" using read32_Some [of 8 src] by auto
  show thesis
  proof (cases "length src < unat at + 4")
    case True
    with e bits at show thesis
      by (intro that(1)) (simp_all add: AshDecompress_def)
  next
    case False
    obtain b1 where b1: "readers_at src 12 b1" using BitReader_stream [of src 12] by (auto simp: readers_at_def)
    obtain b2 where b2: "readers_at src (unat at) b2"
      using BitReader_stream [of src "unat at"] by (auto simp: readers_at_def)
    obtain st bs where st: "ReadTree src sw b1 = Some (st, bs)" "tree_sane sw st" "reader_ok bs"
      using ReadTree_total [OF bits(2), of b1 src] b1 unfolding readers_at_def by blast
    obtain dt bd where dt: "ReadTree src dw b2 = Some (dt, bd)" "tree_sane dw dt" "reader_ok bd"
      using ReadTree_total [OF bits(4), of b2 src] b2 unfolding readers_at_def by blast
    have "AshDecompress (Some src) (Some dst) (int sw) (int dw) =
         (if \<not> t_ok st \<or> \<not> t_ok dt then Some (0, Some dst)
          else do { (n, d) \<leftarrow> loop (ash_body src st dt (push_bit sw 1) (push_bit dw 1) e)
                      \<lparr>a_symbols = bs, a_distances = bd, a_written = 0, a_dst = dst\<rparr>;
                    Some (n, Some d) })"
      using e bits at False b1 b2 st dt by (simp add: AshDecompress_def readers_at_def not_less del: push_bit_of_1)
    with at False b1 b2 st dt show thesis by (intro that(2)) simp_all
  qed
qed

text \<open>AshDecompress never leaves its buffers and always returns, for any file, any output buffer and
  any two widths: it returns 0 or the declared size, keeps the buffer's length and leaves what lies
  behind the declared size alone.\<close>

theorem AshDecompress_safe:
  "\<exists>n d e. AshDecompress src (Some dst) symbol_bits distance_bits = Some (n, Some d) \<and>
     AshExpandedSize src = Some e \<and> (n = 0 \<or> n = e) \<and> length d = length dst \<and>
     drop (unat e) d = drop (unat e) dst"
proof -
  obtain e where e: "AshExpandedSize src = Some e" "unat e < 2 ^ 24" "e \<noteq> 0 \<Longrightarrow> \<exists>p. src = Some p"
    using AshExpandedSize_defined by metis
  show ?thesis
  proof (cases "e = 0 \<or> length dst < unat e \<or> symbol_bits < 1 \<or> 16 < symbol_bits \<or> distance_bits < 1 \<or> 16 < distance_bits")
    case True
    with AshDecompress_refused [OF e(1) this] e(1) show ?thesis by auto
  next
    case False
    then obtain p where p: "src = Some p" using e(3) by auto
    obtain sw dw where w: "symbol_bits = int sw" "distance_bits = int dw"
      using False by (metis not_less int_ops(2) order_trans zero_le_one zero_le_imp_eq_int)
    have pre: "AshExpandedSize (Some p) = Some e" "e \<noteq> 0" "unat e \<le> length dst"
      "1 \<le> sw" "sw \<le> 16" "1 \<le> dw" "dw \<le> 16" using False e(1) w p by auto
    show ?thesis
    proof (cases rule: AshDecompress_run [OF pre])
      case 1
      with e p w show ?thesis by simp
    next
      case (2 b1 b2 at st bs dt bd)
      show ?thesis
      proof (cases "t_ok st \<and> t_ok dt")
        case False
        with 2 e p w show ?thesis by auto
      next
        case True
        then have lz: "lz_decoder (ash_token p st dt (push_bit sw 1) (push_bit dw 1)) readers_ok readers_good
            (\<lambda>(bs, bd). length (stream p bs)) 65536 (ash_body p st dt (push_bit sw 1) (push_bit dw 1)) ash_view"
          using 2 pre by (intro ash_lz_decoder) simp_all
        have "\<exists>r out. loop (ash_body p st dt (push_bit sw 1) (push_bit dw 1) e)
              \<lparr>a_symbols = bs, a_distances = bd, a_written = 0, a_dst = dst\<rparr> = Some r \<and>
            lz_decode (ash_token p st dt (push_bit sw 1) (push_bit dw 1)) readers_good (unat e) (bs, bd) = Some out \<and>
            lz_decoder.outcome e dst r out"
          using 2 pre e(2) by (intro lz_decoder.loop_decodes [OF lz]) (simp_all add: ash_view_def)
        with True 2 e(1,2) p w pre(3) show ?thesis
          by (auto simp: lz_decoder.outcome_def [OF lz] split: option.splits)
      qed
    qed
  qed
qed

section \<open>Files the decoder accepts\<close>

text \<open>The bits that lead from the root of a code to a symbol, and the two streams of a token list.\<close>

fun path :: "code \<Rightarrow> nat \<Rightarrow> bool list \<Rightarrow> bool" where
  "path (Leaf s) x bs = (bs = [] \<and> s = x)"
| "path (Branch l r) x [] = False"
| "path (Branch l r) x (b # bs) = path (if b then r else l) x bs"

fun encoded :: "code \<Rightarrow> code \<Rightarrow> token list \<Rightarrow> bool list \<Rightarrow> bool list \<Rightarrow> bool" where
  "encoded st dt [] sb db = (sb = [] \<and> db = [])"
| "encoded st dt (Lit b # ts) sb db =
     (\<exists>p sb'. sb = p @ sb' \<and> path st (unat b) p \<and> encoded st dt ts sb' db)"
| "encoded st dt (Ref d n # ts) sb db =
     (\<exists>p sb' q db'. sb = p @ sb' \<and> db = q @ db' \<and> path st (n - 3 + 256) p \<and> path dt (d - 1) q \<and>
        3 \<le> n \<and> 1 \<le> d \<and> encoded st dt ts sb' db')"

lemma walk_path:
  assumes "represents leaves (t_left tree) (t_right tree) k c t" "path t x p" "reader_ok b"
    and "stream data b = p @ rest" "rest \<noteq> []" "unat sl = leaves"
  shows "\<exists>symbol b'. loop (ash_walk_body data tree sl) (c, b) = Some (Some (symbol, b')) \<and>
     unat symbol = x \<and> reader_ok b' \<and> stream data b' = rest"
  using assms
proof (induction t arbitrary: k c b p)
  case (Leaf s)
  then have "ash_walk_body data tree sl (c, b) = Some (Inl (Some (c, b)))"
    by (simp add: ash_walk_body_def word_le_nat_alt)
  with Leaf show ?case by (intro exI [of _ c] exI [of _ b] conjI loop_Inl) auto
next
  case (Branch l r)
  then obtain y p' where p: "p = y # p'" "path (if y then r else l) x p'" by (cases p) auto
  obtain b1 where b1: "Bit data b = Some (of_bool y, b1)" "reader_ok b1" "stream data b1 = p' @ rest"
    using Bit_stream [OF Branch.prems(3), of data] Branch.prems(4) p by auto
  have nf: "\<not> m_failed b" using stream_Nil_iff [OF Branch.prems(3), of data] Branch.prems(4) p by auto
  let ?c = "if y then t_right tree ! k else t_left tree ! k"
  have step: "ash_walk_body data tree sl (c, b) = Some (Inr (?c, b1))"
    using Branch.prems(1,6) b1 nf by (auto simp: ash_walk_body_def word_le_nat_alt rd_def)
  have "\<exists>symbol b'. loop (ash_walk_body data tree sl) (?c, b1) = Some (Some (symbol, b')) \<and>
     unat symbol = x \<and> reader_ok b' \<and> stream data b' = rest"
  proof (cases y)
    case True
    with Branch.prems p b1 show ?thesis
      by (intro Branch.IH(2) [where k = "k + 1 + branches l" and p = p']) simp_all
  next
    case False
    with Branch.prems p b1 show ?thesis
      by (intro Branch.IH(1) [where k = "k + 1" and p = p']) simp_all
  qed
  with step show ?case by (simp add: loop_Inr)
qed

lemma ash_walk_path:
  assumes "tree_read width t tree" "width \<le> 16" "path t x p" "reader_ok b"
    and "stream data b = p @ rest" "rest \<noteq> []"
  shows "\<exists>symbol b'. ash_walk data tree (push_bit width 1) b = Some (Some (symbol, b')) \<and>
     unat symbol = x \<and> reader_ok b' \<and> stream data b' = rest"
  unfolding ash_walk_def using assms
  by (intro walk_path [of "2 ^ width"]) (auto simp: tree_read_def unat_leaves simp del: push_bit_of_1)

lemma encoded_parses:
  assumes trees: "tree_read sw st stree" "sw \<le> 16" "tree_read dw dt dtree" "dw \<le> 16"
    and "encoded st dt ts sb db" "reader_ok bs" "reader_ok bd"
    and "stream src bs = sb @ srest" "srest \<noteq> []" "stream src bd = db @ drest" "drest \<noteq> []"
  shows "\<exists>q. parses (ash_token src stree dtree (push_bit sw 1) (push_bit dw 1)) (bs, bd) ts q \<and> readers_good q"
  using assms(5-)
proof (induction ts arbitrary: sb db bs bd)
  case Nil
  then show ?case using stream_Nil_iff [of bs src] stream_Nil_iff [of bd src] by auto
next
  case (Cons t ts)
  have "\<exists>bs' bd' sb' db'. ash_token src stree dtree (push_bit sw 1) (push_bit dw 1) (bs, bd) = Some (t, (bs', bd')) \<and>
      encoded st dt ts sb' db' \<and> reader_ok bs' \<and> reader_ok bd' \<and>
      stream src bs' = sb' @ srest \<and> stream src bd' = db' @ drest"
  proof (cases t)
    case (Lit b)
    with Cons.prems obtain p sb' where enc: "sb = p @ sb'" "path st (unat b) p" "encoded st dt ts sb' db" by auto
    with Cons.prems obtain symbol bs' where w: "ash_walk src stree (push_bit sw 1) bs = Some (Some (symbol, bs'))"
      "unat symbol = unat b" "reader_ok bs'" "stream src bs' = sb' @ srest"
      using ash_walk_path [OF trees(1,2), of "unat b" p bs src "sb' @ srest"] by auto
    have "symbol < 0x100" using w(2) by (simp add: word_less_nat_alt)
    moreover have "ucast symbol = b"
      using w(2) by (simp add: word_unat_eq_iff unsigned_ucast_eq take_bit_nat_eq_self)
    ultimately show ?thesis using w enc Cons.prems Lit
      by (intro exI [of _ bs'] exI [of _ bd] exI [of _ sb'] exI [of _ db])
         (simp add: ash_token_def del: push_bit_of_1)
  next
    case (Ref d n)
    with Cons.prems obtain p sb' q db' where enc: "sb = p @ sb'" "db = q @ db'" "path st (n - 3 + 256) p"
      "path dt (d - 1) q" "3 \<le> n" "1 \<le> d" "encoded st dt ts sb' db'" by auto
    obtain symbol bs' where w: "ash_walk src stree (push_bit sw 1) bs = Some (Some (symbol, bs'))"
      "unat symbol = n - 3 + 256" "reader_ok bs'" "stream src bs' = sb' @ srest"
      using ash_walk_path [OF trees(1,2) enc(3), of bs src "sb' @ srest"] Cons.prems enc by auto
    obtain distance bd' where w2: "ash_walk src dtree (push_bit dw 1) bd = Some (Some (distance, bd'))"
      "unat distance = d - 1" "reader_ok bd'" "stream src bd' = db' @ drest"
      using ash_walk_path [OF trees(3,4) enc(4), of bd src "db' @ drest"] Cons.prems enc by auto
    have "\<not> symbol < 0x100" using w(2) by (simp add: word_less_nat_alt)
    moreover have "unat (symbol - 0x100) = unat symbol - 256"
      using w(2) by (simp add: unat_sub word_le_nat_alt)
    ultimately show ?thesis using w w2 enc Ref
      by (intro exI [of _ bs'] exI [of _ bd'] exI [of _ sb'] exI [of _ db'])
         (simp add: ash_token_def del: push_bit_of_1)
  qed
  then obtain bs' bd' sb' db' where tok:
      "ash_token src stree dtree (push_bit sw 1) (push_bit dw 1) (bs, bd) = Some (t, (bs', bd'))"
    and *: "encoded st dt ts sb' db'" "reader_ok bs'" "reader_ok bd'"
      "stream src bs' = sb' @ srest" "stream src bd' = db' @ drest" by blast
  from Cons.IH [OF *(1-4) Cons.prems(5) *(5) Cons.prems(7)] tok show ?case by (simp del: push_bit_of_1)
qed

text \<open>
  A file whose two streams hold the codes and then the coded tokens, with bits to spare in each,
  expands to what the tokens mean.
\<close>

definition ash_holds :: "bytes \<Rightarrow> nat \<Rightarrow> nat \<Rightarrow> code \<Rightarrow> code \<Rightarrow> token list \<Rightarrow> bool" where
  "ash_holds src sw dw st dt ts \<longleftrightarrow> (\<exists>at sb db srest drest.
     read32 src 8 = Some at \<and> unat at + 4 \<le> length src \<and>
     word_stream src 12 = code_bits sw st @ sb @ srest \<and> srest \<noteq> [] \<and>
     word_stream src (unat at) = code_bits dw dt @ db @ drest \<and> drest \<noteq> [] \<and> encoded st dt ts sb db)"

definition code_fits :: "nat \<Rightarrow> code \<Rightarrow> bool" where
  "code_fits width t \<longleftrightarrow> code_ok (2 ^ width) t \<and> 0 < branches t \<and> branches t + 1 < 2 ^ width"

lemma ReadTree_refuses:
  assumes "1 \<le> width" "width \<le> 16" "reader_ok reader" "stream data reader = code_bits width t @ rest" "code_ok (2 ^ width) t" "\<not> code_fits width t"
  shows "\<exists>tree reader'. ReadTree data width reader = Some (tree, reader') \<and> \<not> t_ok tree"
proof (cases "branches t = 0")
  case True
  then obtain n where "t = Leaf n" by (cases t) auto
  then show ?thesis using ReadTree_leaf [of width reader data n rest] assms(1-4) by simp
next
  case False
  then show ?thesis using ReadTree_full [OF assms(2-5)] assms(5,6) by (simp add: code_fits_def)
qed

lemma AshDecompress_reads:
  assumes "AshExpandedSize (Some src) = Some e" "e \<noteq> 0" "unat e \<le> length dst"
    and "1 \<le> sw" "sw \<le> 16" "1 \<le> dw" "dw \<le> 16"
    and "ash_holds src sw dw st dt ts" "code_fits sw st" "code_fits dw dt"
    and "expand (unat e) [] ts = Some out" "length out = unat e"
  shows "AshDecompress (Some src) (Some dst) (int sw) (int dw) = Some (e, Some (out @ drop (unat e) dst))"
proof -
  obtain at sb db srest drest where h: "read32 src 8 = Some at" "unat at + 4 \<le> length src"
     "word_stream src 12 = code_bits sw st @ sb @ srest" "srest \<noteq> []"
     "word_stream src (unat at) = code_bits dw dt @ db @ drest" "drest \<noteq> []" "encoded st dt ts sb db"
    using assms(8) by (auto simp: ash_holds_def)
  note fits = assms(9,10) [unfolded code_fits_def]
  have e24: "unat e < 2 ^ 24" using AshExpandedSize_defined [of "Some src"] assms(1) by auto
  show ?thesis
  proof (cases rule: AshDecompress_run [OF assms(1-7)])
    case 1
    with h show ?thesis by simp
  next
    case (2 b1 b2 at' stree bs dtree bd)
    with h have at': "at' = at" by simp
    from 2 at' have b: "reader_ok b1" "stream src b1 = word_stream src 12"
      "reader_ok b2" "stream src b2 = word_stream src (unat at)" by (auto simp: readers_at_def)
    have s: "tree_read sw st stree" "stream src bs = sb @ srest"
      using ReadTree_reads [of sw b1 src st "sb @ srest"] assms(5) b h fits 2(5) by auto
    have d: "tree_read dw dt dtree" "stream src bd = db @ drest"
      using ReadTree_reads [of dw b2 src dt "db @ drest"] assms(7) b h fits 2(6) by auto
    let ?tok = "ash_token src stree dtree (push_bit sw 1) (push_bit dw 1)"
    have lz: "lz_decoder ?tok readers_ok readers_good
        (\<lambda>(bs, bd). length (stream src bs)) 65536 (ash_body src stree dtree (push_bit sw 1) (push_bit dw 1)) ash_view"
      using 2 assms s(1) d(1) by (intro ash_lz_decoder) (simp_all add: tree_read_def)
    have "\<exists>r out. loop (ash_body src stree dtree (push_bit sw 1) (push_bit dw 1) e)
          \<lparr>a_symbols = bs, a_distances = bd, a_written = 0, a_dst = dst\<rparr> = Some r \<and>
        lz_decode ?tok readers_good (unat e) (bs, bd) = Some out \<and> lz_decoder.outcome e dst r out"
      using 2 assms e24 by (intro lz_decoder.loop_decodes [OF lz]) (simp_all add: ash_view_def)
    then obtain r out' where run: "loop (ash_body src stree dtree (push_bit sw 1) (push_bit dw 1) e)
          \<lparr>a_symbols = bs, a_distances = bd, a_written = 0, a_dst = dst\<rparr> = Some r"
        and dec: "lz_decode ?tok readers_good (unat e) (bs, bd) = Some out'"
        and oc: "lz_decoder.outcome e dst r out'" by blast
    obtain q where "parses ?tok (bs, bd) ts q" "readers_good q"
      using encoded_parses [OF s(1) assms(5) d(1) assms(7) h(7) 2(9,10) s(2) h(4) d(2) h(6)] by blast
    then have "fst r = e \<and> snd r = out @ drop (unat e) dst"
      using lz_decoder.outcome_iff [OF lz dec oc assms(2), of "out @ drop (unat e) dst"] 2(9,10) assms(11,12)
      by auto
    with 2(11) run s(1) d(1) show ?thesis by (cases r) (simp add: tree_read_def del: push_bit_of_1)
  qed
qed

text \<open>C3: A file whose two bit streams hold two codes, and behind each the bits of the tokens and at least one more bit,
  expands to what the tokens mean, whatever the widths up to 16, when each code has at least two leaves and fewer than its
  width has symbols; when one of them is a single leaf, or has a leaf for every symbol of its width or more, the file is
  refused and the output left alone.\<close>

theorem AshDecompress_decodes:
  assumes "AshExpandedSize (Some src) = Some e" "e \<noteq> 0" "unat e \<le> length dst"
    and "1 \<le> sw" "sw \<le> 16" "1 \<le> dw" "dw \<le> 16"
    and "ash_holds src sw dw st dt ts" "code_ok (2 ^ sw) st" "code_ok (2 ^ dw) dt"
    and "expand (unat e) [] ts = Some out" "length out = unat e"
  shows "AshDecompress (Some src) (Some dst) (int sw) (int dw) =
     (if code_fits sw st \<and> code_fits dw dt then Some (e, Some (out @ drop (unat e) dst)) else Some (0, Some dst))"
proof (cases "code_fits sw st \<and> code_fits dw dt")
  case True
  then show ?thesis using AshDecompress_reads [OF assms(1-8)] assms(11,12) by simp
next
  case False
  obtain at sb db srest drest where h: "read32 src 8 = Some at" "unat at + 4 \<le> length src"
     "word_stream src 12 = code_bits sw st @ sb @ srest" "word_stream src (unat at) = code_bits dw dt @ db @ drest"
    using assms(8) by (auto simp: ash_holds_def)
  show ?thesis
  proof (cases rule: AshDecompress_run [OF assms(1-7)])
    case 1
    with h show ?thesis by simp
  next
    case (2 b1 b2 at' stree bs dtree bd)
    have "\<not> t_ok stree \<or> \<not> t_ok dtree"
      using False 2 h assms(4-7,9,10) ReadTree_refuses [of sw b1 src st "sb @ srest"] ReadTree_refuses [of dw b2 src dt "db @ drest"]
      by (auto simp: readers_at_def)
    then show ?thesis using 2(11) False by auto
  qed
qed

definition ash_example :: bytes where
  "ash_example = [0x41, 0x53, 0x48, 0x30, 0, 0, 0, 5, 0, 0, 0, 0x10, 0x8C, 0x28, 0x0A, 0, 0x82, 0, 0, 0]"

lemma ash_example_words:
  "AshExpandedSize (Some ash_example) = Some 5" "read32 ash_example 8 = Some 0x10" "length ash_example = 20"
  by (simp_all add: ash_example_def AshExpandedSize_def IsAsh_def read32_def rd_def be32_def)

lemma ash_example_streams:
  "word_stream ash_example 16 = word_bits 32 0x82000000"
  "word_stream ash_example 12 = word_bits 32 0x8C280A00 @ word_stream ash_example 16"
  by (subst word_stream.simps, simp add: ash_example_def be32_def word_stream.simps [of _ 20])+

lemma ash_example_holds:
  "ash_holds ash_example 9 2 (Branch (Leaf 0x61) (Leaf 257)) (Branch (Leaf 0) (Leaf 1)) [Lit 0x61, Ref 1 4]"
proof -
  have "word_stream ash_example 16 = code_bits 2 (Branch (Leaf 0) (Leaf 1)) @ [False] @ [False, False, False, False, False, False, False, False, False, False, False, False, False, False, False, False, False, False, False, False, False, False, False, False]"
    unfolding ash_example_streams by simp
  moreover have "word_stream ash_example 12 = code_bits 9 (Branch (Leaf 0x61) (Leaf 257)) @ [False, True] @
      ([False, False, False, False, False, False, False, False, False] @ word_stream ash_example 16)"
    unfolding ash_example_streams(2) by simp
  moreover have "encoded (Branch (Leaf 0x61) (Leaf 257)) (Branch (Leaf 0) (Leaf 1)) [Lit 0x61, Ref 1 4]
      [False, True] [False]"
    by (simp, intro exI [of _ "[False]"] exI [of _ "[True]"], simp)
  ultimately show ?thesis using ash_example_words
    unfolding ash_holds_def
    by (intro exI [of _ 16] exI [of _ "[False, True]"] exI [of _ "[False]"] 
     exI [of _ "[False, False, False, False, False, False, False, False, False] @ word_stream ash_example 16"] exI [of _ "[False, False, False, False, False, False, False, False, False, False, False, False, False, False, False, False, False, False, False, False, False, False, False, False]"]) simp
qed

lemma AshDecompress_decodes_witness:
  "AshDecompress (Some ash_example) (Some [0, 0, 0, 0, 0, 0]) 9 2 =
     Some (5, Some [0x61, 0x61, 0x61, 0x61, 0x61, 0])"
  using AshDecompress_decodes [OF ash_example_words(1) _ _ _ _ _ _ ash_example_holds,
    of "[0, 0, 0, 0, 0, 0]" "[0x61, 0x61, 0x61, 0x61, 0x61]"]
  by (simp add: code_fits_def)

end
