(* ===== verification/File_Tree.thy ===== *)
theory File_Tree
  imports Prelude
begin

text \<open>
  The table of files that U8 archives (src/format/archive/u8.cpp) and discs
  (src/format/disc/image.cpp) share: a node of twelve bytes for each file and folder, a folder's
  with the number of the node it ends before, walked with a stack of open folders. What becomes of
  a node is the parameter \<open>keep\<close>: an entry, or nothing where the table is refused. A walk is
  \<open>None\<close> where it reads outside the table, \<open>Some None\<close> where it is refused.
\<close>

definition kNodeSize :: nat where
  "kNodeSize = 12"

text \<open>memchr and the string made of what is in front of the zero it found, or of all the bytes.\<close>

primrec c_string :: "bytes \<Rightarrow> nat \<Rightarrow> nat \<Rightarrow> bytes option" where
  "c_string data at 0 = Some []"
| "c_string data at (Suc n) =
     do { c \<leftarrow> rd data at;
          if c = 0 then Some [] else do { s \<leftarrow> c_string data (at + 1) n; Some (c # s) } }"

definition name_at :: "bytes \<Rightarrow> nat \<Rightarrow> nat \<Rightarrow> u32 \<Rightarrow> bytes option" where
  "name_at data names names_size offset =
     (if names_size \<le> unat offset then Some []
      else c_string data (names + unat offset) (names_size - unat offset))"

text \<open>The folders the walk is inside, the innermost first: a name and the node it ends before.\<close>

type_synonym u8_open = "(bytes \<times> u32) list"

definition u8_close :: "u32 \<Rightarrow> u8_open \<Rightarrow> u8_open" where
  "u8_close index = dropWhile (\<lambda>folder. snd folder \<le> index)"

definition u8_prefix :: "u8_open \<Rightarrow> bytes" where
  "u8_prefix opn = concat (map (\<lambda>folder. fst folder @ [0x2F]) (rev opn))"

text \<open>One pass of the for loop: the node at \<open>index\<close>.\<close>

definition tree_node ::
  "(bool \<Rightarrow> bytes \<Rightarrow> u32 \<Rightarrow> u32 \<Rightarrow> 'e option) \<Rightarrow> bytes \<Rightarrow> nat \<Rightarrow> nat \<Rightarrow> nat \<Rightarrow> u32 \<Rightarrow>
     u8_open \<times> 'e list \<Rightarrow> (u8_open \<times> 'e list) option option" where
  "tree_node keep data nodes names names_size index = (\<lambda>(opn, entries).
     do { first \<leftarrow> rd data (nodes + unat index * kNodeSize);
          word \<leftarrow> read32 data (nodes + unat index * kNodeSize);
          second \<leftarrow> read32 data (nodes + unat index * kNodeSize + 4);
          third \<leftarrow> read32 data (nodes + unat index * kNodeSize + 8);
          let opn = u8_close index opn;
          name \<leftarrow> name_at data names names_size (word AND 0x00FFFFFF);
          let path = u8_prefix opn @ name;
          Some (case keep (first \<noteq> 0) path second third of
                  None \<Rightarrow> None
                | Some entry \<Rightarrow> Some (if first \<noteq> 0 then (name, third) # opn else opn, entries @ [entry])) })"

primrec tree_nodes ::
  "(bool \<Rightarrow> bytes \<Rightarrow> u32 \<Rightarrow> u32 \<Rightarrow> 'e option) \<Rightarrow> bytes \<Rightarrow> nat \<Rightarrow> nat \<Rightarrow> nat \<Rightarrow> nat \<Rightarrow> u32 \<Rightarrow>
     u8_open \<times> 'e list \<Rightarrow> 'e list option option" where
  "tree_nodes keep data nodes names names_size 0 index s = Some (Some (snd s))"
| "tree_nodes keep data nodes names names_size (Suc n) index s =
     do { r \<leftarrow> tree_node keep data nodes names names_size index s;
          case r of None \<Rightarrow> Some None
          | Some s \<Rightarrow> tree_nodes keep data nodes names names_size n (index + 1) s }"

section \<open>Bounds\<close>

lemma c_string_total: "at + n \<le> length data \<Longrightarrow> \<exists>s. c_string data at n = Some s"
proof (induction n arbitrary: at)
  case (Suc n)
  then obtain s where "c_string data (at + 1) n = Some s" by force
  with Suc.prems show ?case by (simp add: rd_Some)
qed simp

lemma name_at_total: "names + names_size \<le> length data \<Longrightarrow> \<exists>s. name_at data names names_size offset = Some s"
  by (auto simp: name_at_def intro!: c_string_total)

text \<open>A walk inside the table stays in it, and keeps what \<open>keep\<close> promises of an entry.\<close>

lemma tree_node_total:
  assumes "nodes + unat index * kNodeSize + kNodeSize \<le> length data" "names + names_size \<le> length data"
    and "\<And>dir path second third e. keep dir path second third = Some e \<Longrightarrow> P e" "list_all P entries"
  shows "\<exists>r. tree_node keep data nodes names names_size index (opn, entries) = Some r \<and>
     (\<forall>opn' entries'. r = Some (opn', entries') \<longrightarrow> list_all P entries' \<and> length entries' = length entries + 1)"
proof -
  obtain name where "name_at data names names_size
      (be32 (data ! (nodes + unat index * kNodeSize)) (data ! (nodes + unat index * kNodeSize + 1))
         (data ! (nodes + unat index * kNodeSize + 2)) (data ! (nodes + unat index * kNodeSize + 3))
       AND 0x00FFFFFF) = Some name"
    using name_at_total [OF assms(2)] by metis
  with assms show ?thesis
    by (auto simp: tree_node_def kNodeSize_def read32_Some rd_Some Let_def split: option.splits)
qed

lemma tree_nodes_total:
  assumes "nodes + (unat index + n) * kNodeSize \<le> length data" "names + names_size \<le> length data"
    and keep: "\<And>dir path second third e. keep dir path second third = Some e \<Longrightarrow> P e"
    and "list_all P (snd s)" "unat index + n < 2 ^ 32"
  shows "\<exists>r. tree_nodes keep data nodes names names_size n index s = Some r \<and>
     (\<forall>entries. r = Some entries \<longrightarrow> list_all P entries \<and> length entries = length (snd s) + n)"
  using assms(1,2,4,5)
proof (induction n arbitrary: index s)
  case (Suc n)
  obtain opn entries where s: "s = (opn, entries)" by (cases s)
  have "unat index * kNodeSize + kNodeSize \<le> (unat index + Suc n) * kNodeSize"
    by (simp add: kNodeSize_def)
  with Suc.prems(1) have "nodes + unat index * kNodeSize + kNodeSize \<le> length data" by linarith
  from tree_node_total [where keep = keep and P = P and opn = opn and entries = entries, OF this Suc.prems(2) keep]
    Suc.prems(3) s obtain r where
    r: "tree_node keep data nodes names names_size index s = Some r"
    "\<And>opn' entries'. r = Some (opn', entries') \<Longrightarrow> list_all P entries' \<and> length entries' = length entries + 1"
    by fastforce
  show ?case
  proof (cases r)
    case None
    with r show ?thesis by simp
  next
    case (Some s')
    then have len: "length (snd s') = length entries + 1" using r(2) by (cases s') auto
    have "unat (index + 1) = unat index + 1" using Suc.prems(4) by (simp add: unat_word_ariths)
    with Suc.prems Some r(2) [of "fst s'" "snd s'"]
    have "\<exists>q. tree_nodes keep data nodes names names_size n (index + 1) s' = Some q \<and>
       (\<forall>entries. q = Some entries \<longrightarrow> list_all P entries \<and> length entries = length (snd s') + n)"
      by (intro Suc.IH) (simp_all add: algebra_simps)
    with r Some s len show ?thesis by auto
  qed
qed simp

lemma c_string_numeral [simp]:
  "c_string data at (numeral n) = do { c \<leftarrow> rd data at;
     if c = 0 then Some [] else do { s \<leftarrow> c_string data (at + 1) (pred_numeral n); Some (c # s) } }"
  by (simp add: numeral_eq_Suc)

section \<open>The tree the table describes\<close>

datatype u8_item = File bytes u32 u32 | Folder bytes "u8_item list"

fun node_total :: "u8_item list \<Rightarrow> nat" where
  "node_total [] = 0"
| "node_total (File n f sz # items) = 1 + node_total items"
| "node_total (Folder n inner # items) = 1 + node_total inner + node_total items"

text \<open>The entries of a tree, a folder in front of what is in it, each under its whole path.\<close>

fun tree_listing :: "(bytes \<Rightarrow> (u32 \<times> u32) option \<Rightarrow> 'e) \<Rightarrow> bytes \<Rightarrow> u8_item list \<Rightarrow> 'e list" where
  "tree_listing entry prefix [] = []"
| "tree_listing entry prefix (File n f sz # items) =
     entry (prefix @ n) (Some (f, sz)) # tree_listing entry prefix items"
| "tree_listing entry prefix (Folder n inner # items) =
     entry (prefix @ n) None #
       tree_listing entry (prefix @ n @ [0x2F]) inner @ tree_listing entry prefix items"

type_synonym u8_row = "bool \<times> bytes \<times> u32 \<times> u32"

definition u8_row :: "bytes \<Rightarrow> nat \<Rightarrow> nat \<Rightarrow> nat \<Rightarrow> nat \<Rightarrow> u8_row option" where
  "u8_row data nodes names names_size k =
     do { first \<leftarrow> rd data (nodes + k * kNodeSize);
          word \<leftarrow> read32 data (nodes + k * kNodeSize);
          second \<leftarrow> read32 data (nodes + k * kNodeSize + 4);
          third \<leftarrow> read32 data (nodes + k * kNodeSize + 8);
          name \<leftarrow> name_at data names names_size (word AND 0x00FFFFFF);
          Some (first \<noteq> 0, name, second, third) }"

text \<open>The rows from \<open>k\<close> on are those of the tree, each of its files one that is kept.\<close>

fun stored :: "(nat \<Rightarrow> u8_row option) \<Rightarrow> (u32 \<Rightarrow> u32 \<Rightarrow> bool) \<Rightarrow> nat \<Rightarrow> u8_item list \<Rightarrow> bool" where
  "stored row fits k [] = True"
| "stored row fits k (File n f sz # items) =
     (row k = Some (False, n, f, sz) \<and> fits f sz \<and> stored row fits (k + 1) items)"
| "stored row fits k (Folder n inner # items) =
     ((\<exists>up. row k = Some (True, n, up, of_nat (k + 1 + node_total inner))) \<and>
      stored row fits (k + 1) inner \<and> stored row fits (k + 1 + node_total inner) items)"

text \<open>What \<open>keep\<close> makes of the nodes of a tree.\<close>

definition keeps ::
  "(bool \<Rightarrow> bytes \<Rightarrow> u32 \<Rightarrow> u32 \<Rightarrow> 'e option) \<Rightarrow> (bytes \<Rightarrow> (u32 \<times> u32) option \<Rightarrow> 'e) \<Rightarrow> (u32 \<Rightarrow> u32 \<Rightarrow> bool) \<Rightarrow> bool" where
  "keeps keep entry fits \<longleftrightarrow> (\<forall>path second third. keep True path second third = Some (entry path None) \<and>
     (fits second third \<longrightarrow> keep False path second third = Some (entry path (Some (second, third)))))"

lemma tree_node_row:
  assumes "u8_row data nodes names names_size k = Some (dir, n, second, third)" "unat index = k"
  shows "tree_node keep data nodes names names_size index (opn, entries) = Some (
     let opn = u8_close index opn in
     case keep dir (u8_prefix opn @ n) second third of
       None \<Rightarrow> None
     | Some e \<Rightarrow> Some (if dir then (n, third) # opn else opn, entries @ [e]))"
  using assms by (auto simp: u8_row_def tree_node_def Let_def split: Option.bind_splits option.split)

lemma u8_close_close: "i \<le> j \<Longrightarrow> u8_close j (u8_close i S) = u8_close j S"
  by (induction S) (auto simp: u8_close_def)

lemma u8_close_open: "(\<And>f. f \<in> set S \<Longrightarrow> i < snd f) \<Longrightarrow> u8_close i S = S"
  by (cases S) (fastforce simp: u8_close_def dest: leD)+

lemma of_nat_le_u32: "i \<le> j \<Longrightarrow> j < 2 ^ 32 \<Longrightarrow> (of_nat i :: u32) \<le> of_nat j"
  by (simp add: word_le_nat_alt unat_of_nat_u32)

lemma tree_walk:
  assumes keeps: "keeps keep entry fits"
    and "stored (u8_row data nodes names names_size) fits k items"
    and "u8_close (of_nat k) S = u8_close (of_nat k) S0"
    and "\<And>f. f \<in> set S0 \<Longrightarrow> k + node_total items \<le> unat (snd f)" "k + node_total items < 2 ^ 32"
  shows "\<exists>S'. tree_nodes keep data nodes names names_size (node_total items + m) (of_nat k) (S, entries) =
      tree_nodes keep data nodes names names_size m (of_nat (k + node_total items)) (S', entries @ tree_listing entry (u8_prefix S0) items) \<and>
      u8_close (of_nat (k + node_total items)) S' = u8_close (of_nat (k + node_total items)) S0"
  using assms(2-)
proof (induction items arbitrary: k S S0 entries m rule: node_total.induct)
  case 1
  then show ?case by auto
next
  case (2 n f sz items)
  let ?k = "of_nat k :: u32"
  have k: "unat ?k = k" "?k + 1 = of_nat (k + 1)" using 2(5) by (simp_all add: unat_of_nat_u32)
  have "u8_close ?k S0 = S0"
    using 2(4) k by (intro u8_close_open) (force simp: word_less_nat_alt)
  with 2(2,3) have step: "tree_node keep data nodes names names_size ?k (S, entries) = Some (Some (S0,
      entries @ [entry (u8_prefix S0 @ n) (Some (f, sz))]))"
    using tree_node_row [of data nodes names names_size k False n f sz ?k keep S entries] k keeps by (auto simp: Let_def keeps_def)
  obtain S' where "tree_nodes keep data nodes names names_size (node_total items + m) (of_nat (k + 1)) (S0,
      entries @ [entry (u8_prefix S0 @ n) (Some (f, sz))]) =
     tree_nodes keep data nodes names names_size m (of_nat (k + 1 + node_total items)) (S',
       (entries @ [entry (u8_prefix S0 @ n) (Some (f, sz))]) @
       tree_listing entry (u8_prefix S0) items)"
    "u8_close (of_nat (k + 1 + node_total items)) S' = u8_close (of_nat (k + 1 + node_total items)) S0"
    using 2(1) [of "k + 1" S0 S0 m] 2(2,4,5) by fastforce
  with step k(2) show ?case by (intro exI [of _ S']) (simp add: add.assoc del: of_nat_add of_nat_Suc)
next
  case (3 n inner items)
  let ?k = "of_nat k :: u32" and ?stop = "of_nat (k + 1 + node_total inner) :: u32"
  let ?e = "entry (u8_prefix S0 @ n) None"
  have k: "unat ?k = k" "?k + 1 = of_nat (k + 1)" "unat ?stop = k + 1 + node_total inner"
    using 3(6) unat_of_nat_u32 [of k] unat_of_nat_u32 [of "k + 1 + node_total inner"] by simp_all
  have "u8_close ?k S0 = S0"
    using 3(5) k by (intro u8_close_open) (force simp: word_less_nat_alt)
  with 3(3,4) obtain up where step: "tree_node keep data nodes names names_size ?k (S, entries) =
      Some (Some ((n, ?stop) # S0, entries @ [?e]))"
    using tree_node_row [of data nodes names names_size k True n _ ?stop ?k keep S entries] k keeps
    by (auto simp: Let_def keeps_def simp del: of_nat_add of_nat_Suc)
  obtain S1 where S1: "tree_nodes keep data nodes names names_size (node_total inner + (node_total items + m)) (of_nat (k + 1))
      ((n, ?stop) # S0, entries @ [?e]) =
     tree_nodes keep data nodes names names_size (node_total items + m) (of_nat (k + 1 + node_total inner)) (S1,
       (entries @ [?e]) @ tree_listing entry (u8_prefix ((n, ?stop) # S0)) inner)"
    "u8_close ?stop S1 = u8_close ?stop ((n, ?stop) # S0)"
    using 3(1) [of "k + 1" "(n, ?stop) # S0" "(n, ?stop) # S0" "node_total items + m" "entries @ [?e]"] 3(3,5,6) k(3)
    by (fastforce simp del: of_nat_add of_nat_Suc)
  have "u8_close ?stop S1 = u8_close ?stop S0" using S1(2) by (simp add: u8_close_def)
  then obtain S' where S': "tree_nodes keep data nodes names names_size (node_total items + m) ?stop (S1,
       (entries @ [?e]) @ tree_listing entry (u8_prefix ((n, ?stop) # S0)) inner) =
     tree_nodes keep data nodes names names_size m (of_nat (k + 1 + node_total inner + node_total items)) (S',
       ((entries @ [?e]) @ tree_listing entry (u8_prefix ((n, ?stop) # S0)) inner) @ tree_listing entry (u8_prefix S0) items)"
    "u8_close (of_nat (k + 1 + node_total inner + node_total items)) S' =
     u8_close (of_nat (k + 1 + node_total inner + node_total items)) S0"
    using 3(2) [of "k + 1 + node_total inner" S1 S0 m] 3(3,5,6) by (fastforce simp del: of_nat_add of_nat_Suc)
  have "u8_prefix ((n, ?stop) # S0) = u8_prefix S0 @ n @ [0x2F]" by (simp add: u8_prefix_def)
  with step k(2) S1(1) S' show ?case
    by (intro exI [of _ S']) (simp add: add.assoc add.commute add.left_commute del: of_nat_add of_nat_Suc)
qed

end
