(* ===== verification/U8.thy ===== *)
theory U8
  imports File_Tree
begin

text \<open>
  src/format/archive/u8.cpp: the node table of a U8 archive. A parsed archive is its list of entries;
  \<open>Parse\<close> is \<open>None\<close> where the code reads outside the buffer, \<open>Some None\<close> where it returns nothing.
\<close>

definition kU8Magic :: u32 where
  "kU8Magic = 0x55AA382D"

record U8Entry =
  e_path :: bytes
  e_directory :: bool
  e_offset :: u32
  e_size :: u32

text \<open>The entry of a node; a file that ends behind the archive refuses it.\<close>

definition u8_entry :: "nat \<Rightarrow> bool \<Rightarrow> bytes \<Rightarrow> u32 \<Rightarrow> u32 \<Rightarrow> U8Entry option" where
  "u8_entry room dir path second third =
     (if dir then Some \<lparr>e_path = path, e_directory = True, e_offset = 0, e_size = 0\<rparr>
      else if room < unat second + unat third then None
      else Some \<lparr>e_path = path, e_directory = False, e_offset = second, e_size = third\<rparr>)"

definition U8Parse :: "bytes option \<Rightarrow> U8Entry list option option" where
  "U8Parse data = (case data of None \<Rightarrow> Some None
     | Some data \<Rightarrow>
        if length data < 0x20 then Some None
        else do {
          magic \<leftarrow> read32 data 0;
          if magic \<noteq> kU8Magic then Some None
          else do {
            nodes_at \<leftarrow> read32 data 4;
            tables_size \<leftarrow> read32 data 8;
            if length data < unat nodes_at + kNodeSize \<or> length data < unat (nodes_at + tables_size)
            then Some None
            else do {
              count \<leftarrow> read32 data (unat nodes_at + 8);
              if count = 0 \<or> unat tables_size < unat count * kNodeSize then Some None
              else tree_nodes (u8_entry (length data)) data (unat nodes_at) (unat nodes_at + unat count * kNodeSize)
                     (unat tables_size - unat count * kNodeSize) (unat count - 1) 1 ([], []) } } })"

definition U8Find :: "U8Entry list \<Rightarrow> bytes \<Rightarrow> U8Entry option" where
  "U8Find entries path = List.find (\<lambda>entry. e_path entry = path) entries"

section \<open>Bounds\<close>

definition entry_fits :: "nat \<Rightarrow> U8Entry \<Rightarrow> bool" where
  "entry_fits n entry \<longleftrightarrow> unat (e_offset entry) + unat (e_size entry) \<le> n"

lemma u8_entry_fits: "u8_entry room dir path second third = Some e \<Longrightarrow> entry_fits room e"
  by (auto simp: u8_entry_def entry_fits_def split: if_splits)

text \<open>Where the sum of the table's offset and size does not wrap, Parse reads nothing outside the
  archive, every file of its result lies inside the archive, and the result has one entry per node
  but the root.\<close>

theorem U8Parse_safe:
  assumes "data = Some p" "read32 p 4 = Some nodes_at" "read32 p 8 = Some tables_size"
    and "unat nodes_at + unat tables_size < 2 ^ 32"
  shows "\<exists>r. U8Parse data = Some r \<and> (\<forall>entries. r = Some entries \<longrightarrow>
           list_all (entry_fits (length p)) entries \<and>
           (\<exists>count. read32 p (unat nodes_at + 8) = Some count \<and> length entries + 1 = unat count))"
proof (cases "0x20 \<le> length p \<and> read32 p 0 = Some kU8Magic \<and> unat nodes_at + kNodeSize \<le> length p \<and>
    unat (nodes_at + tables_size) \<le> length p")
  case False
  then show ?thesis using assms(1-3) read32_Some [of 0 p] by (auto simp: U8Parse_def)
next
  case True
  then have sum: "unat nodes_at + unat tables_size \<le> length p"
    using assms(4) by (simp add: unat_word_ariths)
  obtain count where count: "read32 p (unat nodes_at + 8) = Some count"
    using True read32_Some [of "unat nodes_at + 8" p] by (auto simp: kNodeSize_def)
  show ?thesis
  proof (cases "count = 0 \<or> unat tables_size < unat count * kNodeSize")
    case stop: True
    then show ?thesis using True assms(1-3) count by (auto simp: U8Parse_def)
  next
    case False
    then have c: "1 \<le> unat count" "unat count * kNodeSize \<le> unat tables_size"
      by (auto simp: Suc_le_eq unat_gt_0)
    have "\<exists>r. tree_nodes (u8_entry (length p)) p (unat nodes_at) (unat nodes_at + unat count * kNodeSize)
        (unat tables_size - unat count * kNodeSize) (unat count - 1) 1 ([], []) = Some r \<and>
      (\<forall>entries. r = Some entries \<longrightarrow> list_all (entry_fits (length p)) entries \<and>
         length entries = length (snd (([], []) :: u8_open \<times> U8Entry list)) + (unat count - 1))"
      using c sum unat_u32 [of count] by (intro tree_nodes_total) (simp_all add: u8_entry_fits)
    then show ?thesis using True False assms(1-3) count c by (auto simp: U8Parse_def)
  qed
qed

definition example_u8 :: bytes where
  "example_u8 = [0x55, 0xAA, 0x38, 0x2D, 0, 0, 0, 0x10, 0, 0, 0, 41, 0, 0, 0, 0,
     1, 0, 0, 0, 0, 0, 0, 0, 0, 0, 0, 3,
     1, 0, 0, 1, 0, 0, 0, 0, 0, 0, 0, 3,
     0, 0, 0, 3, 0, 0, 0, 8, 0, 0, 0, 4,
     0, 0x64, 0, 0x66, 0]"

lemma example_u8_words:
  "length example_u8 = 57" "read32 example_u8 0 = Some kU8Magic" "read32 example_u8 4 = Some 0x10"
  "read32 example_u8 8 = Some 41" "read32 example_u8 24 = Some 3"
  "rd example_u8 28 = Some 1" "read32 example_u8 28 = Some 0x01000001" "read32 example_u8 32 = Some 0" "read32 example_u8 36 = Some 3"
  "rd example_u8 40 = Some 0" "read32 example_u8 40 = Some 3" "read32 example_u8 44 = Some 8" "read32 example_u8 48 = Some 4"
  by (simp_all add: example_u8_def read32_def rd_def be32_def kU8Magic_def)

lemma example_u8_names:
  "name_at example_u8 52 5 1 = Some [0x64]" "name_at example_u8 52 5 3 = Some [0x66]"
  by (simp_all add: example_u8_def name_at_def rd_def)

lemma U8Parse_safe_witness:
  "\<exists>r. U8Parse (Some example_u8) = Some r \<and> (\<forall>entries. r = Some entries \<longrightarrow>
     list_all (entry_fits 57) entries \<and> length entries + 1 = 3)"
  using U8Parse_safe [OF refl example_u8_words(3,4)] by (simp add: example_u8_words)

section \<open>The tree the table describes\<close>

definition u8_listed :: "bytes \<Rightarrow> (u32 \<times> u32) option \<Rightarrow> U8Entry" where
  "u8_listed path x = (case x of
     None \<Rightarrow> \<lparr>e_path = path, e_directory = True, e_offset = 0, e_size = 0\<rparr>
   | Some (f, sz) \<Rightarrow> \<lparr>e_path = path, e_directory = False, e_offset = f, e_size = sz\<rparr>)"

lemma u8_keeps: "keeps (u8_entry room) u8_listed (\<lambda>f sz. unat f + unat sz \<le> room)"
  by (simp add: keeps_def u8_entry_def u8_listed_def)

text \<open>C4: Parsing a node table that describes a tree of files and folders lists exactly that tree, each
  folder in front of what is in it and every entry under its whole path.\<close>

theorem U8Parse_lists:
  assumes "read32 p 0 = Some kU8Magic" "read32 p 4 = Some nodes_at" "read32 p 8 = Some tables_size"
    and "read32 p (unat nodes_at + 8) = Some count"
    and "0x20 \<le> length p" "unat nodes_at + unat tables_size \<le> length p" "length p < 2 ^ 32"
    and "unat count * kNodeSize \<le> unat tables_size" "unat count = 1 + node_total items"
    and "stored (u8_row p (unat nodes_at) (unat nodes_at + unat count * kNodeSize)
           (unat tables_size - unat count * kNodeSize)) (\<lambda>f sz. unat f + unat sz \<le> length p) 1 items"
  shows "U8Parse (Some p) = Some (Some (tree_listing u8_listed [] items))"
proof -
  have sum: "unat (nodes_at + tables_size) = unat nodes_at + unat tables_size"
    using assms(6,7) by (simp add: unat_word_ariths)
  have count: "count \<noteq> 0" using assms(9) by auto
  have room: "unat nodes_at + kNodeSize \<le> length p" using assms(6,8,9) by (simp add: kNodeSize_def)
  have bound: "1 + node_total items < 2 ^ 32" using unat_u32 [of count] unfolding assms(9) by simp
  obtain S' where "tree_nodes (u8_entry (length p)) p (unat nodes_at) (unat nodes_at + unat count * kNodeSize)
      (unat tables_size - unat count * kNodeSize) (node_total items + 0) (of_nat 1) ([], []) =
     tree_nodes (u8_entry (length p)) p (unat nodes_at) (unat nodes_at + unat count * kNodeSize)
      (unat tables_size - unat count * kNodeSize) 0 (of_nat (1 + node_total items)) (S', [] @ tree_listing u8_listed (u8_prefix []) items)"
    using tree_walk [OF u8_keeps assms(10), of "[]" "[]" 0 "[]"] bound by fastforce
  moreover have "unat count - 1 = node_total items" using assms(9) by simp
  ultimately show ?thesis using assms sum count room
    by (simp add: U8Parse_def not_less u8_prefix_def)
qed

lemma example_u8_stored:
  "stored (u8_row example_u8 16 52 5) (\<lambda>f sz. unat f + unat sz \<le> 57) 1 [Folder [0x64] [File [0x66] 8 4]]"
  by (simp add: u8_row_def kNodeSize_def example_u8_words example_u8_names)

lemma U8Parse_lists_witness:
  "U8Parse (Some example_u8) = Some (Some
     [\<lparr>e_path = [0x64], e_directory = True, e_offset = 0, e_size = 0\<rparr>,
      \<lparr>e_path = [0x64, 0x2F, 0x66], e_directory = False, e_offset = 8, e_size = 4\<rparr>])"
  using U8Parse_lists [OF example_u8_words(2,3,4), of 3 "[Folder [0x64] [File [0x66] 8 4]]"] example_u8_stored
  by (simp add: example_u8_words kNodeSize_def u8_listed_def)

text \<open>What the sum that wraps lets through: a table that is said to end in front of itself.\<close>

definition wrapped_u8 :: bytes where
  "wrapped_u8 = [0x55, 0xAA, 0x38, 0x2D, 0, 0, 0, 0x14, 0xFF, 0xFF, 0xFF, 0xF0, 0, 0, 0, 0,
     0, 0, 0, 0, 0, 0, 0, 0, 0, 0, 0, 0, 0, 0, 0, 3]"

lemma wrapped_u8_words:
  "length wrapped_u8 = 32" "read32 wrapped_u8 0 = Some kU8Magic" "read32 wrapped_u8 4 = Some 0x14"
  "read32 wrapped_u8 8 = Some 0xFFFFFFF0" "read32 wrapped_u8 28 = Some 3" "rd wrapped_u8 32 = None"
  by (simp_all add: wrapped_u8_def read32_def rd_def be32_def kU8Magic_def)

lemma wrapped_u8_nodes: "tree_nodes keep wrapped_u8 20 names names_size 2 1 s = None"
proof -
  have "tree_nodes keep wrapped_u8 20 names names_size (Suc (Suc 0)) 1 s = None"
    using wrapped_u8_words(6) by (cases s) (simp add: tree_node_def kNodeSize_def)
  then show ?thesis by (simp only: numeral_2_eq_2)
qed

text \<open>The bounds check of Parse adds the table's offset and size in 32 bits. A 32-byte archive whose
  sum wraps passes it, and Parse reads its second node past the end of the archive.\<close>

theorem U8Parse_wraps: "length wrapped_u8 = 0x20 \<and> U8Parse (Some wrapped_u8) = None"
  using wrapped_u8_words wrapped_u8_nodes by (simp add: U8Parse_def kNodeSize_def)

end
