(* ===== verification/Disc_Source.thy ===== *)
theory Disc_Source
  imports Prelude
begin

text \<open>
  src/format/disc: where the bytes of a disc come from. A source answers a read of so many bytes at
  an offset, or says that the range is not there (\<open>None\<close>); sizes are naturals, offsets 64-bit.
  The locale \<open>disc_source\<close> is the contract every reader of a source relies on: its reads are
  those of one string of bytes, some of which may not be there.
\<close>

type_synonym source = "u64 \<Rightarrow> nat \<Rightarrow> bytes option"

datatype Console = GameCube | Wii

section \<open>Reading byte by byte\<close>

lemma those_getn: "0 < n \<Longrightarrow> those (map (rd xs) [k..<k + n]) = getn xs k n"
proof (cases "k + n \<le> length xs")
  case True
  then have "map (rd xs) [k..<k + n] = map Some (take n (drop k xs))"
    by (intro nth_equalityI) (auto simp: rd_Some)
  with True show ?thesis by (simp only: those_Some getn_Some)
next
  case False
  moreover assume "0 < n"
  ultimately have "None \<in> set (map (rd xs) [k..<k + n])"
    by (auto simp: rd_def intro!: image_eqI [of _ _ "k + n - 1"])
  with False show ?thesis by (simp only: those_None) (simp add: getn_def)
qed

locale disc_source =
  fixes source :: source and byte :: "nat \<Rightarrow> u8 option"
  assumes read_length: "source offset n = Some xs \<Longrightarrow> length xs = n"
    and read_bytes: "0 < n \<Longrightarrow> unat offset + n < 2 ^ 64 \<Longrightarrow>
    source offset n = those (map byte [unat offset..<unat offset + n])"
begin

text \<open>A read is the reads of its two parts.\<close>

lemma read_split:
  assumes "0 < m" "0 < n" "unat offset + (m + n) < 2 ^ 64"
  shows "source offset (m + n) = do { x \<leftarrow> source offset m; y \<leftarrow> source (offset + of_nat m) n; Some (x @ y) }"
proof -
  have "unat (of_nat m :: u64) = m" using assms by (simp add: unat_of_nat take_bit_nat_eq_self)
  with assms have o: "unat (offset + of_nat m) = unat offset + m" by (simp add: unat_word_ariths)
  have "[unat offset..<unat offset + (m + n)] = [unat offset..<unat offset + m] @ [unat offset + m..<unat offset + m + n]"
    using upt_add_eq_append [of "unat offset" "unat offset + m" n] by (simp add: add.assoc)
  then show ?thesis using assms o
    by (simp add: read_bytes those_append split: option.split)
       (auto simp: map_option_case bind_eq_Some_conv split: option.split)
qed

end

section \<open>A buffer in memory\<close>

text \<open>The sum of offset and size is taken modulo \<open>2 ^ 64\<close>; \<open>None\<close> is a copy from outside the buffer.\<close>

definition ReadMemory :: "bytes \<Rightarrow> u64 \<Rightarrow> nat \<Rightarrow> bytes option option" where
  "ReadMemory data offset n =
     (if length data < unat (offset + of_nat n) then Some None
      else do { x \<leftarrow> getn data (unat offset) n; Some (Some x) })"

text \<open>As a source: the reads that do not leave the buffer.\<close>

definition FromMemory :: "bytes \<Rightarrow> source" where
  "FromMemory data offset n = (case ReadMemory data offset n of None \<Rightarrow> None | Some r \<Rightarrow> r)"

lemma unat_offset: "unat offset + n < 2 ^ 64 \<Longrightarrow> unat (offset + of_nat n :: u64) = unat offset + n"
proof -
  assume a: "unat offset + n < 2 ^ 64"
  then have "unat (of_nat n :: u64) = n" by (simp add: unat_of_nat take_bit_nat_eq_self)
  with a show ?thesis by (simp add: unat_word_ariths)
qed

lemma FromMemory_getn: "unat offset + n < 2 ^ 64 \<Longrightarrow> FromMemory data offset n = getn data (unat offset) n"
  by (auto simp: FromMemory_def ReadMemory_def unat_offset getn_def)

interpretation memory: disc_source "FromMemory data" "rd data" for data
proof
  show "length xs = n" if "FromMemory data offset n = Some xs" for offset n xs
    using that by (auto simp: FromMemory_def ReadMemory_def getn_def split: if_splits)
qed (simp add: FromMemory_getn those_getn)

section \<open>Reads cut at the boundaries of blocks\<close>

text \<open>
  The loop the readers of blocks share: the piece of each block the range touches, in order, with a
  state for the readers that keep the last block. The size of a block is never 0 there.
\<close>

function cut_read ::
  "nat \<Rightarrow> (nat \<Rightarrow> nat \<Rightarrow> nat \<Rightarrow> 's \<Rightarrow> bytes option \<times> 's) \<Rightarrow> u64 \<Rightarrow> nat \<Rightarrow> 's \<Rightarrow> bytes option \<times> 's" where
  "cut_read bs piece offset n s =
     (if n = 0 then (Some [], s)
      else if bs = 0 then (None, s)
      else
        let block = unat offset div bs; within = unat offset mod bs; taken = min n (bs - within) in
        case piece block within taken s of
          (None, s) \<Rightarrow> (None, s)
        | (Some x, s) \<Rightarrow>
            (case cut_read bs piece (offset + of_nat taken) (n - taken) s of
               (None, s) \<Rightarrow> (None, s)
             | (Some y, s) \<Rightarrow> (Some (x @ y), s)))"
  by pat_completeness auto
termination
  by (relation "measure (\<lambda>(bs, piece, offset, n, s). n)") (auto simp: min_def)

declare cut_read.simps [simp del]

lemma cut_read_bytes:
  assumes bs: "0 < bs"
    and piece: "\<And>block within k s. P s \<Longrightarrow> 0 < k \<Longrightarrow> within + k \<le> bs \<Longrightarrow> block * bs + within + k < 2 ^ 64 \<Longrightarrow>
       \<exists>s'. piece block within k s = (those (map byte [block * bs + within..<block * bs + within + k]), s') \<and> P s'"
    and "P s" "unat offset + n < 2 ^ 64"
  shows "\<exists>s'. cut_read bs piece offset n s = (those (map byte [unat offset..<unat offset + n]), s') \<and> P s'"
  using assms(3,4)
proof (induction n arbitrary: offset s rule: less_induct)
  case (less n)
  show ?case
  proof (cases "n = 0")
    case True
    then show ?thesis using less.prems by (simp add: cut_read.simps)
  next
    case False
    let ?b = "unat offset div bs" and ?w = "unat offset mod bs"
    let ?k = "min n (bs - ?w)"
    have w: "?w < bs" "?b * bs + ?w = unat offset" using bs by simp_all
    then have k: "0 < ?k" "?w + ?k \<le> bs" "?k \<le> n" using False by auto
    have "?b * bs + ?w + ?k < 2 ^ 64" unfolding w(2) using less.prems(2) k(3) by linarith
    from piece [OF less.prems(1) k(1,2) this] obtain s' where
      s': "piece ?b ?w ?k s = (those (map byte [unat offset..<unat offset + ?k]), s')" "P s'"
      unfolding w(2) by blast
    have next_offset: "unat (offset + of_nat ?k) = unat offset + ?k"
      using less.prems(2) k(3) by (intro unat_offset) linarith
    have "n - ?k < n" "unat (offset + of_nat ?k) + (n - ?k) < 2 ^ 64"
      using k less.prems(2) unfolding next_offset by linarith+
    from less.IH [OF this(1) s'(2) this(2)] obtain s'' where
      s'': "cut_read bs piece (offset + of_nat ?k) (n - ?k) s' =
         (those (map byte [unat offset + ?k..<unat offset + ?k + (n - ?k)]), s'')" "P s''"
      unfolding next_offset by blast
    have "[unat offset..<unat offset + n] =
        [unat offset..<unat offset + ?k] @ [unat offset + ?k..<unat offset + ?k + (n - ?k)]"
      using upt_add_eq_append [of "unat offset" "unat offset + ?k" "n - ?k"] k(3) by simp
    then show ?thesis
      using s' s'' False bs
      by (subst cut_read.simps) (auto simp: Let_def those_append split: option.split)
  qed
qed

lemma cut_read_length:
  assumes piece: "\<And>block within k s x s'. piece block within k s = (Some x, s') \<Longrightarrow> length x = k"
    and "fst (cut_read bs piece offset n s) = Some x"
  shows "length x = n"
  using assms(2)
proof (induction n arbitrary: offset s x rule: less_induct)
  case (less n)
  show ?case
  proof (cases "n = 0 \<or> bs = 0")
    case True
    then show ?thesis using less.prems by (auto simp: cut_read.simps split: if_splits)
  next
    case False
    let ?k = "min n (bs - unat offset mod bs)"
    have "0 < ?k" using False by simp
    obtain y s1 z where parts: "piece (unat offset div bs) (unat offset mod bs) ?k s = (Some y, s1)"
      "fst (cut_read bs piece (offset + of_nat ?k) (n - ?k) s1) = Some z" "x = y @ z"
      using less.prems False by (subst (asm) cut_read.simps) (auto simp: Let_def split: option.splits prod.splits)
    from less.IH [OF _ parts(2)] piece [OF parts(1)] parts(3) \<open>0 < ?k\<close> False show ?thesis by simp
  qed
qed

text \<open>A read whose offset and size wrap around 64 bits passes the bounds check of a memory source and copies
  from outside the buffer.\<close>

theorem ReadMemory_wraps:
  assumes "length data < 2 ^ 64"
  shows "ReadMemory data (of_nat (2 ^ 64 - 1)) 1 = None"
proof -
  have "unat (of_nat (2 ^ 64 - 1) :: u64) = 2 ^ 64 - 1" by (simp add: unat_of_nat take_bit_nat_eq_self)
  moreover have "(of_nat (2 ^ 64 - 1) + of_nat 1 :: u64) = 0" by simp
  ultimately show ?thesis using assms unfolding ReadMemory_def getn_def by auto
qed

lemma ReadMemory_wraps_witness:
  "ReadMemory [1, 2, 3] 0xFFFFFFFFFFFFFFFF 1 = None"
  using ReadMemory_wraps [of "[1, 2, 3]"] by simp

end
