(* ===== verification/Disc_Container.thy ===== *)
theory Disc_Container
  imports Disc_Source
begin

text \<open>
  src/format/disc/container.cpp: CISO and WBFS files as the image inside them. The file is a source;
  a container that is open answers reads as one. The outer \<open>None\<close> of an opening is undefined
  behaviour, the inner one a file that is refused.
\<close>

datatype ContainerKind = Raw | Ciso | Wbfs | Gcz | Wia | Rvz | Nkit | Unknown

record container =
  mKind :: ContainerKind
  mFile :: source
  mImageSize :: u64
  mBlockSize :: u32
  mBlocks :: "u64 list"

definition kCisoHeaderSize :: nat where "kCisoHeaderSize = 0x8000"
definition kCisoBlocks :: nat where "kCisoBlocks = kCisoHeaderSize - 8"
definition kWiiDiscSize :: nat where "kWiiDiscSize = 0x118240000"

section \<open>Kinds\<close>

definition Identify :: "source \<Rightarrow> ContainerKind" where
  "Identify file =
     (case file 0 8 of
        None \<Rightarrow> Unknown
      | Some magic \<Rightarrow>
          if take 4 magic = [0x43, 0x49, 0x53, 0x4F] then Ciso
          else if take 4 magic = [0x57, 0x42, 0x46, 0x53] then Wbfs
          else if read32 magic 0 = Some 0xB10BC001 then Gcz
          else if take 4 magic = [0x57, 0x49, 0x41, 0x01] then Wia
          else if take 4 magic = [0x52, 0x56, 0x5A, 0x01] then Rvz
          else (case file 0x200 4 of
                  Some marker \<Rightarrow> if marker = [0x4E, 0x4B, 0x49, 0x54] then Nkit else Raw
                | None \<Rightarrow> Raw))"

definition Name :: "ContainerKind \<Rightarrow> string" where
  "Name kind = (case kind of Raw \<Rightarrow> ''a raw image'' | Ciso \<Rightarrow> ''CISO'' | Wbfs \<Rightarrow> ''WBFS'' | Gcz \<Rightarrow> ''GCZ''
     | Wia \<Rightarrow> ''WIA'' | Rvz \<Rightarrow> ''RVZ'' | Nkit \<Rightarrow> ''NKit'' | Unknown \<Rightarrow> ''an unrecognised file'')"

definition Readable :: "ContainerKind \<Rightarrow> bool" where
  "Readable kind \<longleftrightarrow> kind = Raw \<or> kind = Ciso \<or> kind = Wbfs"

section \<open>Opening\<close>

text \<open>Where each block of a CISO sits: its position among the present ones.\<close>

primrec ciso_blocks :: "u32 \<Rightarrow> u64 \<Rightarrow> bytes \<Rightarrow> u64 list" where
  "ciso_blocks block_size at [] = []"
| "ciso_blocks block_size at (flag # flags) =
     (if flag \<noteq> 0 then at # ciso_blocks block_size (at + ucast block_size) flags
      else 0 # ciso_blocks block_size at flags)"

definition OpenCiso :: "container \<Rightarrow> container option option" where
  "OpenCiso c =
     (case mFile c 0 kCisoHeaderSize of
        None \<Rightarrow> Some None
      | Some header \<Rightarrow> do {
          block_size \<leftarrow> read32le header 4;
          if block_size = 0 \<or> 64 * 1024 * 1024 < block_size then Some None
          else do {
            flags \<leftarrow> getn header 8 kCisoBlocks;
            let blocks = ciso_blocks block_size (of_nat kCisoHeaderSize) flags in
            Some (Some (c\<lparr>mBlockSize := block_size, mBlocks := blocks,
              mImageSize := of_nat (length blocks) * ucast block_size\<rparr>)) } })"

primrec wbfs_blocks :: "bytes \<Rightarrow> u32 \<Rightarrow> nat list \<Rightarrow> u64 list option" where
  "wbfs_blocks table sector_size [] = Some []"
| "wbfs_blocks table sector_size (i # is) = do {
     sector \<leftarrow> read16 table (i * 2);
     blocks \<leftarrow> wbfs_blocks table sector_size is;
     Some ((if sector = 0 then 0 else ucast sector * ucast sector_size) # blocks) }"

text \<open>The two shifts are made before the exponents are checked: one of 32 or more is undefined.\<close>

definition shift_one :: "u8 \<Rightarrow> u32 option" where
  "shift_one n = (if 32 \<le> n then None else Some (push_bit (unat n) 1))"

definition OpenWbfs :: "container \<Rightarrow> container option option" where
  "OpenWbfs c =
     (case mFile c 0 12 of
        None \<Rightarrow> Some None
      | Some header \<Rightarrow> do {
          hd \<leftarrow> rd header 8;
          wbfs \<leftarrow> rd header 9;
          hd_sector_size \<leftarrow> shift_one hd;
          wbfs_sector_size \<leftarrow> shift_one wbfs;
          if hd < 9 \<or> wbfs < 12 \<or> 30 < wbfs then Some None
          else
            let count = kWiiDiscSize div unat wbfs_sector_size in
            case mFile c (ucast (hd_sector_size + 0x100)) (count * 2) of
              None \<Rightarrow> Some None
            | Some table \<Rightarrow> do {
                blocks \<leftarrow> wbfs_blocks table wbfs_sector_size [0..<count];
                Some (Some (c\<lparr>mBlockSize := wbfs_sector_size, mBlocks := blocks,
                  mImageSize := of_nat kWiiDiscSize\<rparr>)) } })"

definition Open :: "source \<Rightarrow> container option option" where
  "Open file =
     (let c = \<lparr>mKind = Identify file, mFile = file, mImageSize = 0, mBlockSize = 0, mBlocks = []\<rparr> in
      case mKind c of
        Raw \<Rightarrow> Some (Some c)
      | Ciso \<Rightarrow> OpenCiso c
      | Wbfs \<Rightarrow> OpenWbfs c
      | _ \<Rightarrow> Some None)"

section \<open>Reading\<close>

definition mapped_piece :: "container \<Rightarrow> nat \<Rightarrow> nat \<Rightarrow> nat \<Rightarrow> unit \<Rightarrow> bytes option \<times> unit" where
  "mapped_piece c block within taken s =
     (if length (mBlocks c) \<le> block then (None, s)
      else let at = mBlocks c ! block in
        if at = 0 then (Some (replicate taken 0), s)
        else (mFile c (at + of_nat within) taken, s))"

definition AsSource :: "container \<Rightarrow> source" where
  "AsSource c =
     (if mKind c = Raw then mFile c
      else (\<lambda>offset n. fst (cut_read (unat (mBlockSize c)) (mapped_piece c) offset n ())))"

section \<open>What a container holds\<close>

text \<open>The byte of the image at \<open>i\<close>, given the file's.\<close>

definition image_byte :: "(nat \<Rightarrow> u8 option) \<Rightarrow> nat \<Rightarrow> u64 list \<Rightarrow> nat \<Rightarrow> u8 option" where
  "image_byte byte bs blocks i =
     (if length blocks \<le> i div bs then None
      else if blocks ! (i div bs) = 0 then Some 0
      else byte (unat (blocks ! (i div bs)) + i mod bs))"

text \<open>No block of the file reaches \<open>2 ^ 64\<close>.\<close>

definition blocks_ok :: "nat \<Rightarrow> u64 list \<Rightarrow> bool" where
  "blocks_ok bs blocks \<longleftrightarrow> 0 < bs \<and> (\<forall>at \<in> set blocks. unat at + bs < 2 ^ 64)"

definition container_byte :: "(nat \<Rightarrow> u8 option) \<Rightarrow> container \<Rightarrow> nat \<Rightarrow> u8 option" where
  "container_byte byte c = (if mKind c = Raw then byte else image_byte byte (unat (mBlockSize c)) (mBlocks c))"

definition container_ok :: "container \<Rightarrow> bool" where
  "container_ok c \<longleftrightarrow> (mKind c \<noteq> Raw \<longrightarrow> blocks_ok (unat (mBlockSize c)) (mBlocks c))"

lemma map_upt_shift: "map f [a + k..<a + k + n] = map (\<lambda>i. f (a + i)) [k..<k + n]"
  by (rule nth_equalityI) (simp_all add: add.assoc)

context disc_source
begin

lemma mapped_piece_bytes:
  assumes ok: "blocks_ok bs (mBlocks c)" and k: "0 < k" "within + k \<le> bs" and src: "mFile c = source"
  shows "mapped_piece c block within k s =
     (those (map (image_byte byte bs (mBlocks c)) [block * bs + within..<block * bs + within + k]), s)"
proof -
  let ?f = "\<lambda>i. if length (mBlocks c) \<le> block then None else if mBlocks c ! block = 0 then Some 0
     else byte (unat (mBlocks c ! block) + i)"
  have "image_byte byte bs (mBlocks c) (block * bs + i) = ?f i" if "i \<in> set [within..<within + k]" for i
    using that k(2) by (simp add: image_byte_def)
  then have bytes: "map (image_byte byte bs (mBlocks c)) [block * bs + within..<block * bs + within + k] =
      map ?f [within..<within + k]"
    by (simp add: map_upt_shift cong: map_cong)
  show ?thesis
  proof (cases "block < length (mBlocks c)")
    case False
    then have "None \<in> set (map ?f [within..<within + k])" using k(1) by (auto intro!: image_eqI [of _ _ within])
    then have "those (map ?f [within..<within + k]) = None" by (rule those_None)
    with False bytes show ?thesis by (simp add: mapped_piece_def)
  next
    case True
    let ?at = "mBlocks c ! block"
    show ?thesis
    proof (cases "?at = 0")
      case zero: True
      then have "map ?f [within..<within + k] = map Some (replicate k 0)"
        using True by (intro nth_equalityI) simp_all
      with True zero bytes show ?thesis by (simp only: those_Some) (simp add: mapped_piece_def)
    next
      case False
      have "unat ?at + bs < 2 ^ 64" using ok True by (simp add: blocks_ok_def)
      then have at: "unat (?at + of_nat within) = unat ?at + within" "unat ?at + within + k < 2 ^ 64"
        using k by (simp_all add: unat_offset)
      have "map ?f [within..<within + k] = map byte [unat ?at + within..<unat ?at + within + k]"
        using True False by (simp add: map_upt_shift)
      then show ?thesis
        using True False at k bytes src read_bytes [of k "?at + of_nat within"] by (simp add: mapped_piece_def Let_def)
    qed
  qed
qed

lemma container_source:
  assumes "container_ok c" "mFile c = source"
  shows "disc_source (AsSource c) (container_byte byte c)"
proof
  have piece: "length x = k" if "mapped_piece c block within k s = (Some x, s')" for block within k s x s'
    using that assms(2) read_length by (auto simp: mapped_piece_def Let_def split: if_splits)
  show "length xs = n" if "AsSource c offset n = Some xs" for offset n xs
  proof (cases "mKind c = Raw")
    case True
    with that assms(2) show ?thesis by (simp add: AsSource_def read_length)
  next
    case False
    with that have "fst (cut_read (unat (mBlockSize c)) (mapped_piece c) offset n ()) = Some xs"
      by (simp add: AsSource_def)
    with piece show ?thesis by (rule cut_read_length)
  qed
  fix n and offset :: u64 assume n: "0 < n" "unat offset + n < 2 ^ 64"
  let ?bs = "unat (mBlockSize c)"
  show "AsSource c offset n = those (map (container_byte byte c) [unat offset..<unat offset + n])"
  proof (cases "mKind c = Raw")
    case True
    with n assms(2) show ?thesis by (simp add: AsSource_def container_byte_def read_bytes)
  next
    case False
    then have ok: "blocks_ok ?bs (mBlocks c)" using assms(1) by (simp add: container_ok_def)
    then have "0 < ?bs" by (simp add: blocks_ok_def)
    from cut_read_bytes [OF this, of "\<lambda>_. True" "mapped_piece c" "image_byte byte ?bs (mBlocks c)" "()" offset n]
    have "fst (cut_read ?bs (mapped_piece c) offset n ()) =
        those (map (image_byte byte ?bs (mBlocks c)) [unat offset..<unat offset + n])"
      using mapped_piece_bytes [OF ok _ _ assms(2)] n(2) by auto
    with False show ?thesis by (simp add: AsSource_def container_byte_def)
  qed
qed

end

section \<open>Opening keeps the blocks inside 64 bits\<close>

lemma ciso_blocks_nth:
  assumes "unat at + length flags * unat bs < 2 ^ 64" "k < length flags"
  shows "ciso_blocks bs at flags ! k = (if flags ! k = 0 then 0
     else at + of_nat (length (filter (\<lambda>f. f \<noteq> 0) (take k flags)) * unat bs))"
  using assms
proof (induction flags arbitrary: at k)
  case (Cons flag flags)
  have "unat at + unat bs < 2 ^ 64" using Cons.prems(1) by simp
  then have "unat (at + ucast bs) = unat at + unat bs"
    using unat_offset [of at "unat bs"] by (simp add: unat_ucast_up)
  with Cons show ?case by (cases k) (auto simp: algebra_simps)
qed simp

lemma length_ciso_blocks [simp]: "length (ciso_blocks bs at flags) = length flags"
  by (induction flags arbitrary: at) simp_all


lemma set_ciso_blocks:
  assumes "unat at + length flags * unat bs < 2 ^ 64" "b \<in> set (ciso_blocks bs at flags)"
  shows "b = 0 \<or> unat b + unat bs \<le> unat at + length flags * unat bs"
  using assms
proof (induction flags arbitrary: at)
  case (Cons flag flags)
  have "unat at + unat bs < 2 ^ 64" using Cons.prems(1) by simp
  then have "unat (at + ucast bs) = unat at + unat bs"
    using unat_offset [of at "unat bs"] by (simp add: unat_ucast_up)
  with Cons.IH [of at] Cons.IH [of "at + ucast bs"] Cons.prems show ?case by (fastforce split: if_splits)
qed simp

lemma OpenCiso_ok:
  assumes "OpenCiso c = Some (Some c')"
  shows "blocks_ok (unat (mBlockSize c')) (mBlocks c')" "mFile c' = mFile c" "mKind c' = mKind c"
proof -
  obtain header bs flags where h: "mFile c 0 kCisoHeaderSize = Some header" "read32le header 4 = Some bs"
    "bs \<noteq> 0" "bs \<le> 64 * 1024 * 1024" "getn header 8 kCisoBlocks = Some flags"
    and c': "c' = c\<lparr>mBlockSize := bs, mBlocks := ciso_blocks bs (of_nat kCisoHeaderSize) flags,
      mImageSize := of_nat (length flags) * ucast bs\<rparr>"
    using assms by (auto simp: OpenCiso_def Let_def split: option.splits Option.bind_splits if_splits)
  have bs: "0 < unat bs" "unat bs \<le> 67108864" using h(3,4) by (simp_all add: unat_gt_0 word_le_nat_alt)
  have len: "length flags = kCisoBlocks" using getn_length [OF h(5)] .
  have at: "unat (of_nat kCisoHeaderSize :: u64) = 0x8000" by (simp add: kCisoHeaderSize_def)
  have "length flags * unat bs \<le> 32760 * 67108864" using len bs by (intro mult_le_mono) (simp_all add: kCisoBlocks_def kCisoHeaderSize_def)
  then have far: "unat (of_nat kCisoHeaderSize :: u64) + length flags * unat bs < 2 ^ 62" unfolding at by simp
  show "blocks_ok (unat (mBlockSize c')) (mBlocks c')"
    unfolding blocks_ok_def c'
  proof (intro conjI ballI)
    show "0 < unat (mBlockSize (c\<lparr>mBlockSize := bs, mBlocks := ciso_blocks bs (of_nat kCisoHeaderSize) flags,
      mImageSize := of_nat (length flags) * ucast bs\<rparr>))" using bs by simp
    fix b assume "b \<in> set (mBlocks (c\<lparr>mBlockSize := bs, mBlocks := ciso_blocks bs (of_nat kCisoHeaderSize) flags,
      mImageSize := of_nat (length flags) * ucast bs\<rparr>))"
    then have "b = 0 \<or> unat b + unat bs \<le> unat (of_nat kCisoHeaderSize :: u64) + length flags * unat bs"
      using set_ciso_blocks [of "of_nat kCisoHeaderSize" flags bs b] far by simp
    then show "unat b + unat (mBlockSize (c\<lparr>mBlockSize := bs, mBlocks := ciso_blocks bs (of_nat kCisoHeaderSize) flags,
      mImageSize := of_nat (length flags) * ucast bs\<rparr>)) < 2 ^ 64"
      using far bs by auto
  qed
  show "mFile c' = mFile c" "mKind c' = mKind c" using c' by simp_all
qed

lemma wbfs_blocks_bound:
  assumes "wbfs_blocks table bs is = Some blocks" "at \<in> set blocks"
  shows "unat at < 2 ^ 48"
  using assms
proof (induction "is" arbitrary: blocks)
  case (Cons i "is")
  then obtain sector rest where s: "read16 table (i * 2) = Some sector" "wbfs_blocks table bs is = Some rest"
    "blocks = (if sector = 0 then 0 else ucast sector * ucast bs) # rest"
    by (auto split: Option.bind_splits)
  have "unat sector * unat bs < 2 ^ 16 * 2 ^ 32"
    using unat_u16 [of sector] unat_u32 [of bs] by (intro mult_strict_mono) auto
  then have "unat (ucast sector * ucast bs :: u64) < 2 ^ 48"
    by (simp add: unat_word_ariths unat_ucast_up)
  with Cons s show ?case by (auto split: if_splits)
qed simp

lemma OpenWbfs_parts:
  assumes "OpenWbfs c = Some (Some c')"
  shows "\<exists>table ids. wbfs_blocks table (mBlockSize c') ids = Some (mBlocks c') \<and>
       length ids = kWiiDiscSize div unat (mBlockSize c')"
    "\<exists>k \<le> 30. unat (mBlockSize c') = 2 ^ k"
    "mImageSize c' = of_nat kWiiDiscSize" "mFile c' = mFile c" "mKind c' = mKind c"
proof -
  obtain bs blocks wbfs table where w: "shift_one wbfs = Some bs" "wbfs \<le> 30"
    "wbfs_blocks table bs [0..<kWiiDiscSize div unat bs] = Some blocks"
    and c': "c' = c\<lparr>mBlockSize := bs, mBlocks := blocks, mImageSize := of_nat kWiiDiscSize\<rparr>"
    using assms by (fastforce simp: OpenWbfs_def Let_def not_less split: option.splits Option.bind_splits if_splits)
  have le: "unat wbfs \<le> 30" using w(2) by (simp add: word_le_nat_alt)
  then have "(2 :: nat) ^ unat wbfs < 2 ^ 32" by (intro power_strict_increasing) simp_all
  then have "unat (push_bit (unat wbfs) (1 :: u32)) = unat (1 :: u32) * 2 ^ unat wbfs"
    by (intro unat_push_bit_small) simp
  then have "unat bs = 2 ^ unat wbfs" using w(1)
    by (auto simp: shift_one_def simp del: push_bit_of_1 split: if_splits)
  with le c' show "\<exists>k \<le> 30. unat (mBlockSize c') = 2 ^ k" by auto
  show "\<exists>table ids. wbfs_blocks table (mBlockSize c') ids = Some (mBlocks c') \<and>
       length ids = kWiiDiscSize div unat (mBlockSize c')"
    using w(3) c' by (intro exI [of _ table] exI [of _ "[0..<kWiiDiscSize div unat bs]"]) simp
  show "mImageSize c' = of_nat kWiiDiscSize" "mFile c' = mFile c" "mKind c' = mKind c" using c' by simp_all
qed

lemma OpenWbfs_ok:
  assumes "OpenWbfs c = Some (Some c')"
  shows "blocks_ok (unat (mBlockSize c')) (mBlocks c')" "mFile c' = mFile c" "mKind c' = mKind c"
proof -
  note p = OpenWbfs_parts [OF assms]
  have "unat at + unat (mBlockSize c') < 2 ^ 64" if "at \<in> set (mBlocks c')" for at
    using p(1) wbfs_blocks_bound [OF _ that] unat_u32 [of "mBlockSize c'"] by fastforce
  with p show "blocks_ok (unat (mBlockSize c')) (mBlocks c')" "mFile c' = mFile c" "mKind c' = mKind c"
    by (auto simp: blocks_ok_def)
qed

lemma Open_ok:
  assumes "Open file = Some (Some c)"
  shows "container_ok c" "mFile c = file" "Readable (mKind c)" "mKind c = Identify file"
  using assms OpenCiso_ok [of _ c] OpenWbfs_ok [of _ c]
  by (auto simp: Open_def container_ok_def Readable_def Let_def split: ContainerKind.splits)

text \<open>C27: A container that opens is of a kind the library says it can read, and is a source like any other: over
  a file whose reads are those of one string of bytes, its reads are those of the image, block by
  block where the map says and zeros where it says nothing.\<close>

theorem Open_source:
  assumes "disc_source file byte" "Open file = Some (Some c)"
  shows "Readable (mKind c) \<and> disc_source (AsSource c) (container_byte byte c)"
  using disc_source.container_source [OF assms(1) Open_ok(1) [OF assms(2)] Open_ok(2) [OF assms(2)]]
    Open_ok(3) [OF assms(2)] by simp

section \<open>A CISO holds its image\<close>

definition ciso_file :: "u32 \<Rightarrow> bytes list \<Rightarrow> bytes" where
  "ciso_file bs blocks =
     [0x43, 0x49, 0x53, 0x4F] @ rev (bytes32 bs) @
     map (\<lambda>b. if b = replicate (unat bs) 0 then 0 else 1) blocks @ replicate (kCisoBlocks - length blocks) 0 @
     concat (filter (\<lambda>b. b \<noteq> replicate (unat bs) 0) blocks)"

lemma concat_blocks:
  assumes "\<forall>b \<in> set blocks. length b = bs"
  shows "length (concat blocks) = length blocks * bs"
    "k < length blocks \<Longrightarrow> w < bs \<Longrightarrow> concat blocks ! (k * bs + w) = blocks ! k ! w"
proof -
  show "length (concat blocks) = length blocks * bs" using assms by (induction blocks) simp_all
  show "k < length blocks \<Longrightarrow> w < bs \<Longrightarrow> concat blocks ! (k * bs + w) = blocks ! k ! w"
    using assms by (induction blocks arbitrary: k) (auto simp: nth_append nth_Cons' gr0_conv_Suc split: nat.split)
qed

lemma filter_nth:
  "k < length xs \<Longrightarrow> P (xs ! k) \<Longrightarrow>
     length (filter P (take k xs)) < length (filter P xs) \<and> filter P xs ! length (filter P (take k xs)) = xs ! k"
proof (induction xs arbitrary: k)
  case (Cons x xs)
  then show ?case by (cases k) auto
qed simp

text \<open>The flags of a CISO and the opening of it.\<close>

definition ciso_flags :: "u32 \<Rightarrow> bytes list \<Rightarrow> bytes" where
  "ciso_flags bs blocks = map (\<lambda>b. if b = replicate (unat bs) 0 then 0 else 1) blocks @ replicate (kCisoBlocks - length blocks) 0"

lemma ciso_header:
  assumes "length blocks \<le> kCisoBlocks"
  shows "take kCisoHeaderSize (ciso_file bs blocks) = [0x43, 0x49, 0x53, 0x4F] @ rev (bytes32 bs) @ ciso_flags bs blocks"
    "drop kCisoHeaderSize (ciso_file bs blocks) = concat (filter (\<lambda>b. b \<noteq> replicate (unat bs) 0) blocks)"
    "kCisoHeaderSize \<le> length (ciso_file bs blocks)"
  using assms by (simp_all add: ciso_file_def ciso_flags_def kCisoBlocks_def kCisoHeaderSize_def)

lemma read32le_bytes: "read32le (a # b # c # d # rev (bytes32 w) @ xs) 4 = Some w"
  by (simp add: read32le_def rd_def bytes32_def be32_bytes)

lemma Open_ciso:
  assumes "bs \<noteq> 0" "bs \<le> 64 * 1024 * 1024" "length blocks \<le> kCisoBlocks"
  shows "\<exists>c. Open (FromMemory (ciso_file bs blocks)) = Some (Some c) \<and> mKind c = Ciso \<and> mBlockSize c = bs \<and>
     mBlocks c = ciso_blocks bs 0x8000 (ciso_flags bs blocks)"
proof -
  let ?file = "FromMemory (ciso_file bs blocks)"
  let ?header = "[0x43, 0x49, 0x53, 0x4F] @ rev (bytes32 bs) @ ciso_flags bs blocks"
  note header = ciso_header [OF assms(3), of bs]
  have "?file 0 8 = Some ([0x43, 0x49, 0x53, 0x4F] @ rev (bytes32 bs))"
    by (simp add: FromMemory_getn getn_def ciso_file_def)
  then have kind: "Identify ?file = Ciso" by (simp add: Identify_def)
  have "?file 0 kCisoHeaderSize = Some ?header"
    using header(1,3) by (simp add: FromMemory_getn getn_def kCisoHeaderSize_def)
  moreover have "read32le ?header 4 = Some bs" by (simp add: read32le_bytes)
  moreover have "length (ciso_flags bs blocks) = kCisoBlocks" using assms(3) by (simp add: ciso_flags_def)
  then have "getn ?header 8 kCisoBlocks = Some (ciso_flags bs blocks)" by (simp add: getn_def)
  ultimately show ?thesis
    using kind assms(1,2) by (simp add: Open_def OpenCiso_def Let_def kCisoHeaderSize_def)
qed

lemma ciso_byte:
  assumes bs: "bs \<noteq> 0" "bs \<le> 64 * 1024 * 1024" and few: "length blocks \<le> kCisoBlocks"
    and sizes: "\<forall>b \<in> set blocks. length b = unat bs" and i: "i < length blocks * unat bs"
  shows "image_byte (rd (ciso_file bs blocks)) (unat bs) (ciso_blocks bs 0x8000 (ciso_flags bs blocks)) i =
     rd (concat blocks) i"
proof -
  let ?bs = "unat bs" and ?flags = "ciso_flags bs blocks"
  let ?zero = "\<lambda>b. b \<noteq> replicate ?bs 0"
  let ?k = "i div ?bs" and ?w = "i mod ?bs"
  let ?n = "length (filter ?zero (take ?k blocks))"
  have pos: "0 < ?bs" using bs(1) by (simp add: unat_gt_0)
  then have k: "?k < length blocks" "?w < ?bs" "?k * ?bs + ?w = i" using i by (simp_all add: div_less_iff_less_mult)
  have want: "rd (concat blocks) i = Some (blocks ! ?k ! ?w)"
    using concat_blocks [OF sizes] k i by (metis rd_Some)
  have size: "?bs \<le> 67108864" using bs(2) by (simp add: word_le_nat_alt)
  have flags: "length ?flags = kCisoBlocks" using few by (simp add: ciso_flags_def)
  have far: "unat (0x8000 :: u64) + length ?flags * ?bs < 2 ^ 64"
  proof -
    have "length ?flags * ?bs \<le> 32760 * 67108864"
      using flags size by (intro mult_le_mono) (simp_all add: kCisoBlocks_def kCisoHeaderSize_def)
    then show ?thesis by simp
  qed
  have flag: "?flags ! ?k = (if ?zero (blocks ! ?k) then 1 else 0)" using k(1) by (simp add: ciso_flags_def nth_append)
  have "length (filter (\<lambda>f. f \<noteq> 0) (map (\<lambda>b. if b = replicate ?bs 0 then 0 else (1 :: u8)) bl)) =
      length (filter ?zero bl)" for bl
    by (induction bl) simp_all
  then have count: "length (filter (\<lambda>f. f \<noteq> 0) (take ?k ?flags)) = ?n"
    using k(1) by (simp add: ciso_flags_def take_map del: filter_map)
  have nth: "ciso_blocks bs 0x8000 ?flags ! ?k = (if ?zero (blocks ! ?k) then 0x8000 + of_nat (?n * ?bs) else 0)"
    using ciso_blocks_nth [OF far, of ?k] k(1) few flags flag count by simp
  show ?thesis
  proof (cases "?zero (blocks ! ?k)")
    case False
    then have "blocks ! ?k ! ?w = 0" using k(2) by simp
    with False nth k(1) flags few show ?thesis unfolding want image_byte_def by simp
  next
    case True
    note f = filter_nth [of ?k blocks ?zero, OF k(1) True]
    have "?n * ?bs \<le> length ?flags * ?bs" using flags few k(1)
      by (intro mult_le_mono1) (metis (no_types, lifting) le_trans length_filter_le length_take min.cobounded1)
    then have "unat (0x8000 :: u64) + ?n * ?bs < 2 ^ 64" using far by linarith
    then have at: "unat (0x8000 + of_nat (?n * ?bs) :: u64) = 0x8000 + ?n * ?bs"
      using unat_offset [of "0x8000" "?n * ?bs"] by simp
    then have nz: "(0x8000 + of_nat (?n * ?bs) :: u64) \<noteq> 0" by (metis add_eq_0_iff_both_eq_0 numeral_neq_zero unsigned_0)
    have present: "\<forall>b \<in> set (filter ?zero blocks). length b = ?bs" using sizes by simp
    have "rd (ciso_file bs blocks) (0x8000 + (?n * ?bs + ?w)) = rd (drop kCisoHeaderSize (ciso_file bs blocks)) (?n * ?bs + ?w)"
      using ciso_header(3) [OF few] by (auto simp: rd_def kCisoHeaderSize_def)
    also have "\<dots> = rd (concat (filter ?zero blocks)) (?n * ?bs + ?w)" using ciso_header(2) [OF few] by simp
    also have "\<dots> = Some (blocks ! ?k ! ?w)"
    proof -
      have "(?n + 1) * ?bs \<le> length (filter ?zero blocks) * ?bs" using f by (intro mult_le_mono1) simp
      then have "?n * ?bs + ?w < length (concat (filter ?zero blocks))"
        using concat_blocks(1) [OF present] k(2) by simp
      then show ?thesis using concat_blocks(2) [OF present _ k(2)] f by (simp add: rd_Some)
    qed
    finally show ?thesis using True nth nz k(1) flags few at unfolding want image_byte_def by (simp add: add.assoc)
  qed
qed

text \<open>C28: A CISO holds its image: of any image cut into blocks, the file that keeps only the blocks that are not
  all zeros opens, and every read inside the image gives its bytes.\<close>

theorem ciso_roundtrip:
  assumes "bs \<noteq> 0" "bs \<le> 64 * 1024 * 1024" "length blocks \<le> kCisoBlocks"
    and "\<forall>b \<in> set blocks. length b = unat bs"
  shows "\<exists>c. Open (FromMemory (ciso_file bs blocks)) = Some (Some c) \<and>
     (\<forall>offset n. 0 < n \<and> unat offset + n \<le> length (concat blocks) \<longrightarrow>
        AsSource c offset n = getn (concat blocks) (unat offset) n)"
proof -
  obtain c where c: "Open (FromMemory (ciso_file bs blocks)) = Some (Some c)" "mKind c = Ciso" "mBlockSize c = bs"
    "mBlocks c = ciso_blocks bs 0x8000 (ciso_flags bs blocks)" using Open_ciso [OF assms(1,2,3)] by blast
  have src: "disc_source (AsSource c) (container_byte (rd (ciso_file bs blocks)) c)"
    using memory.container_source Open_ok(1,2) [OF c(1)] .
  have len: "length (concat blocks) = length blocks * unat bs" using concat_blocks(1) [OF assms(4)] .
  have "length blocks * unat bs \<le> 32760 * 67108864"
    using assms(2,3) by (intro mult_le_mono) (simp_all add: kCisoBlocks_def kCisoHeaderSize_def word_le_nat_alt)
  then have far: "length (concat blocks) < 2 ^ 64" unfolding len by simp
  have "AsSource c offset n = getn (concat blocks) (unat offset) n"
    if n: "0 < n" "unat offset + n \<le> length (concat blocks)" for offset n
  proof -
    have "AsSource c offset n = those (map (container_byte (rd (ciso_file bs blocks)) c) [unat offset..<unat offset + n])"
      using disc_source.read_bytes [OF src n(1)] n(2) far by simp
    also have "map (container_byte (rd (ciso_file bs blocks)) c) [unat offset..<unat offset + n] =
        map (rd (concat blocks)) [unat offset..<unat offset + n]"
      using ciso_byte [OF assms] n(2) len c by (intro map_cong refl) (simp add: container_byte_def)
    finally show ?thesis using those_getn [OF n(1)] by simp
  qed
  with c(1) show ?thesis by blast
qed

lemma ciso_roundtrip_witness:
  "\<exists>c. Open (FromMemory (ciso_file 2 [[1, 2], [0, 0], [3, 0]])) = Some (Some c) \<and> AsSource c 1 4 = Some [2, 0, 0, 3]"
  using ciso_roundtrip [of 2 "[[1, 2], [0, 0], [3, 0]]"] 
  by (fastforce simp: kCisoBlocks_def kCisoHeaderSize_def getn_def)

lemma Open_source_witness:
  "\<exists>c. Open (FromMemory (ciso_file 2 [[1, 2]])) = Some (Some c) \<and> Readable (mKind c) \<and>
     disc_source (AsSource c) (container_byte (rd (ciso_file 2 [[1, 2]])) c)"
proof -
  obtain c where "Open (FromMemory (ciso_file 2 [[1, 2]])) = Some (Some c)"
    using Open_ciso [of 2 "[[1, 2]]"] by (auto simp: kCisoBlocks_def kCisoHeaderSize_def)
  with Open_source [OF memory.disc_source_axioms this] show ?thesis by blast
qed

section \<open>WBFS at its edges\<close>

lemma length_wbfs_blocks: "wbfs_blocks table bs ids = Some blocks \<Longrightarrow> length blocks = length ids"
  by (induction ids arbitrary: blocks) (auto split: Option.bind_splits)

text \<open>A WBFS of sectors larger than 256 KB, as every one a loader writes has, is shorter than it says: the disc
  is not a whole number of such sectors, and a read in the part behind the last whole one fails
  though it is inside the size of the image.\<close>

theorem wbfs_tail:
  assumes "Open file = Some (Some c)" "mKind c = Wbfs" "2 ^ 18 < unat (mBlockSize c)" "0 < n"
  shows "\<exists>offset. unat offset < unat (mImageSize c) \<and> AsSource c offset n = None"
proof -
  have w: "OpenWbfs \<lparr>mKind = Wbfs, mFile = file, mImageSize = 0, mBlockSize = 0, mBlocks = []\<rparr> = Some (Some c)"
    using assms(1,2) Open_ok(4) [OF assms(1)] by (simp add: Open_def Let_def)
  let ?bs = "unat (mBlockSize c)"
  note p = OpenWbfs_parts [OF w]
  have len: "length (mBlocks c) = kWiiDiscSize div ?bs" using p(1) length_wbfs_blocks by fastforce
  obtain k where k: "?bs = 2 ^ k" using p(2) by blast
  then have "19 \<le> k" using assms(3) power_strict_increasing_iff [of "2 :: nat" 18 k] by simp
  then have "2 ^ 19 dvd ?bs" unfolding k by (rule le_imp_power_dvd)
  moreover have "\<not> 2 ^ 19 dvd kWiiDiscSize" by (simp add: kWiiDiscSize_def)
  ultimately have "\<not> ?bs dvd kWiiDiscSize" using dvd_trans by blast
  then have tail: "kWiiDiscSize div ?bs * ?bs < kWiiDiscSize"
    by (metis dvd_triv_right le_neq_implies_less times_div_less_eq_dividend mult.commute)
  let ?offset = "of_nat (kWiiDiscSize div ?bs * ?bs) :: u64"
  have "kWiiDiscSize < 2 ^ 64" by (simp add: kWiiDiscSize_def)
  then have u: "unat ?offset = kWiiDiscSize div ?bs * ?bs" "unat (mImageSize c) = kWiiDiscSize"
    using tail p(3) by (simp_all add: unat_of_nat take_bit_nat_eq_self del: of_nat_mult)
  have "AsSource c ?offset n = None"
    using assms(2-4) len u(1)
    by (subst AsSource_def, subst cut_read.simps) (simp add: mapped_piece_def Let_def)
  with u tail show ?thesis by (intro exI [of _ ?offset]) simp
qed

text \<open>The first exponent of a WBFS header has no upper bound: 32 or more is a shift of a 32-bit number by its
  width before anything is checked.\<close>

theorem OpenWbfs_shift:
  assumes "mFile c 0 12 = Some header" "length header = 12" "32 \<le> header ! 8"
  shows "OpenWbfs c = None"
  using assms by (simp add: OpenWbfs_def rd_Some shift_one_def)

definition tiny_wbfs :: source where
  "tiny_wbfs = (\<lambda>offset n. if offset = 0 then Some (take n [0x57, 0x42, 0x46, 0x53, 0, 0, 0, 0, 9, 30, 0, 0])
     else Some (replicate n 0))"

lemma tiny_wbfs_opens:
  "\<exists>c. Open tiny_wbfs = Some (Some c) \<and> mKind c = Wbfs \<and> mBlockSize c = 0x40000000"
proof -
  have "Identify tiny_wbfs = Wbfs" by (simp add: Identify_def tiny_wbfs_def)
  moreover have "kWiiDiscSize div 0x40000000 = 4" by (simp add: kWiiDiscSize_def)
  moreover have "wbfs_blocks (replicate 8 0) bs [0..<4] = Some [0, 0, 0, 0]" for bs
    by (simp add: upt_conv_Cons read16_def rd_def be16_def)
  moreover have "shift_one 9 = Some 0x200" "shift_one 30 = Some 0x40000000"
    by (simp_all add: shift_one_def word_le_nat_alt)
  moreover have "tiny_wbfs 0 12 = Some [0x57, 0x42, 0x46, 0x53, 0, 0, 0, 0, 9, 30, 0, 0]"
    "tiny_wbfs 0x300 8 = Some (replicate 8 0)" by (simp_all add: tiny_wbfs_def)
  ultimately show ?thesis
    by (simp add: Open_def OpenWbfs_def Let_def rd_def word_less_nat_alt)
qed

lemma wbfs_tail_witness:
  "\<exists>c offset. Open tiny_wbfs = Some (Some c) \<and> unat offset < unat (mImageSize c) \<and> AsSource c offset 1 = None"
proof -
  obtain c where c: "Open tiny_wbfs = Some (Some c)" "mKind c = Wbfs" "mBlockSize c = 0x40000000"
    using tiny_wbfs_opens by blast
  from wbfs_tail [OF c(1,2), of 1] c(1,3) show ?thesis by auto
qed

lemma OpenWbfs_shift_witness:
  "OpenWbfs \<lparr>mKind = Wbfs, mFile = (\<lambda>offset n. Some [0x57, 0x42, 0x46, 0x53, 0, 0, 0, 0, 32, 21, 0, 0]),
     mImageSize = 0, mBlockSize = 0, mBlocks = []\<rparr> = None"
  by (rule OpenWbfs_shift [where header = "[0x57, 0x42, 0x46, 0x53, 0, 0, 0, 0, 32, 21, 0, 0]"]) simp_all

end
