(* ===== verification/Disc_Gcz.thy ===== *)
theory Disc_Gcz
  imports Disc_Source
begin

text \<open>
  src/format/disc/gcz.cpp: GCZ files. The decompressor is the caller's: a parameter that takes the
  method, the bytes and the room, and gives how much it wrote and the room's bytes. The block kept
  between reads is the state of a read.
\<close>

type_synonym inflate = "u32 \<Rightarrow> bytes \<Rightarrow> nat \<Rightarrow> nat \<times> bytes"

definition kMagic :: u32 where "kMagic = 0xB10BC001"
definition kStoredPlainly :: u64 where "kStoredPlainly = 0x8000000000000000"
definition kZlib :: u32 where "kZlib = 100"

record gcz =
  g_file :: source
  g_inflate :: "inflate option"
  g_console :: Console
  g_disc_size :: u64
  g_block_size :: u32
  g_blocks :: "u64 list"
  g_data_at :: u64

record gcz_cache =
  mBlockBytes :: bytes
  mBlockIndex :: u64

definition no_block :: gcz_cache where
  "no_block = \<lparr>mBlockBytes = [], mBlockIndex = 0xFFFFFFFFFFFFFFFF\<rparr>"

primrec gcz_table :: "bytes \<Rightarrow> nat list \<Rightarrow> u64 list option" where
  "gcz_table table [] = Some []"
| "gcz_table table (i # is) = do { x \<leftarrow> read64le table (i * 8); xs \<leftarrow> gcz_table table is; Some (x # xs) }"

text \<open>The inner \<open>None\<close> is a file that is refused.\<close>

definition OpenGcz :: "source \<Rightarrow> inflate option \<Rightarrow> gcz option option" where
  "OpenGcz file inflate =
     (case file 0 0x20 of
        None \<Rightarrow> Some None
      | Some header \<Rightarrow> do {
          magic \<leftarrow> read32le header 0;
          if magic \<noteq> kMagic then Some None
          else do {
            kind \<leftarrow> read32le header 4;
            disc_size \<leftarrow> read64le header 0x10;
            block_size \<leftarrow> read32le header 0x18;
            blocks \<leftarrow> read32le header 0x1C;
            if block_size = 0 \<or> blocks = 0 \<or> 8 * 1024 * 1024 < blocks then Some None
            else case file 0x20 (unat blocks * 8) of
                None \<Rightarrow> Some None
              | Some table \<Rightarrow> do {
                  entries \<leftarrow> gcz_table table [0..<unat blocks];
                  Some (Some \<lparr>g_file = file, g_inflate = inflate, g_console = (if kind = 0 then GameCube else Wii),
                    g_disc_size = disc_size, g_block_size = block_size, g_blocks = entries,
                    g_data_at = 0x20 + ucast blocks * 8 + ucast blocks * 4\<rparr>) } } })"

definition block_at :: "gcz \<Rightarrow> nat \<Rightarrow> u64" where
  "block_at g index = g_data_at g + (g_blocks g ! index AND NOT kStoredPlainly)"

definition block_next :: "gcz \<Rightarrow> nat \<Rightarrow> u64" where
  "block_next g index =
     (if index + 1 < length (g_blocks g) then block_at g (index + 1) else block_at g index + ucast (g_block_size g))"

definition ReadBlock :: "gcz \<Rightarrow> nat \<Rightarrow> gcz_cache \<Rightarrow> bytes option \<times> gcz_cache" where
  "ReadBlock g index cache =
     (let bs = unat (g_block_size g) in
      if length (g_blocks g) \<le> index then (None, cache)
      else if mBlockIndex cache = of_nat index \<and> length (mBlockBytes cache) = bs then (Some (mBlockBytes cache), cache)
      else
        let plain = g_blocks g ! index AND kStoredPlainly \<noteq> 0; at = block_at g index; next_at = block_next g index in
        if next_at \<le> at then (None, cache)
        else
          let stored = min (unat (next_at - at)) (bs + 0x1000) in
          case g_file g at stored of
            None \<Rightarrow> (None, cache)
          | Some raw \<Rightarrow>
              (case (if plain then Some (resize bs raw)
                     else case g_inflate g of
                         None \<Rightarrow> None
                       | Some inflate \<Rightarrow>
                           let (written, out) = inflate kZlib raw bs in if written = 0 then None else Some (resize bs out)) of
                 None \<Rightarrow> (None, cache)
               | Some out \<Rightarrow> (Some out, \<lparr>mBlockBytes = out, mBlockIndex = of_nat index\<rparr>)))"

definition gcz_piece :: "gcz \<Rightarrow> nat \<Rightarrow> nat \<Rightarrow> nat \<Rightarrow> gcz_cache \<Rightarrow> bytes option \<times> gcz_cache" where
  "gcz_piece g index within taken cache =
     (case ReadBlock g index cache of
        (None, cache) \<Rightarrow> (None, cache)
      | (Some block, cache) \<Rightarrow>
          if length block \<le> within then (None, cache)
          else let available = min taken (length block - within) in
            (Some (take available (drop within block) @ replicate (taken - available) 0), cache))"

definition ReadThrough :: "gcz \<Rightarrow> u64 \<Rightarrow> nat \<Rightarrow> gcz_cache \<Rightarrow> bytes option \<times> gcz_cache" where
  "ReadThrough g = cut_read (unat (g_block_size g)) (gcz_piece g)"

section \<open>The cache is transparent\<close>

text \<open>A block of the image, read with nothing kept.\<close>

definition gcz_block :: "gcz \<Rightarrow> nat \<Rightarrow> bytes option" where
  "gcz_block g index = fst (ReadBlock g index no_block)"

definition gcz_byte :: "gcz \<Rightarrow> nat \<Rightarrow> u8 option" where
  "gcz_byte g i = do { block \<leftarrow> gcz_block g (i div unat (g_block_size g)); rd block (i mod unat (g_block_size g)) }"

definition gcz_ok :: "gcz \<Rightarrow> bool" where
  "gcz_ok g \<longleftrightarrow> g_block_size g \<noteq> 0 \<and> length (g_blocks g) < 2 ^ 32"

definition cache_ok :: "gcz \<Rightarrow> gcz_cache \<Rightarrow> bool" where
  "cache_ok g cache \<longleftrightarrow>
     (length (mBlockBytes cache) = unat (g_block_size g) \<and> unat (mBlockIndex cache) < length (g_blocks g) \<longrightarrow>
        gcz_block g (unat (mBlockIndex cache)) = Some (mBlockBytes cache))"

lemma unat_index: "k < 2 ^ 32 \<Longrightarrow> unat (of_nat k :: u64) = k"
  by (simp add: unat_of_nat take_bit_nat_eq_self)

lemma cache_ok_none: "gcz_ok g \<Longrightarrow> cache_ok g no_block"
  by (simp add: cache_ok_def no_block_def gcz_ok_def unat_eq_0)

text \<open>What a read of a block that is not kept gives does not depend on what is.\<close>

lemma ReadBlock_miss:
  assumes "\<not> (mBlockIndex cache = of_nat index \<and> length (mBlockBytes cache) = unat (g_block_size g))"
    "\<not> (mBlockIndex cache' = of_nat index \<and> length (mBlockBytes cache') = unat (g_block_size g))"
  shows "fst (ReadBlock g index cache) = fst (ReadBlock g index cache')"
    "snd (ReadBlock g index cache) = (case fst (ReadBlock g index cache) of None \<Rightarrow> cache
       | Some out \<Rightarrow> \<lparr>mBlockBytes = out, mBlockIndex = of_nat index\<rparr>)"
  using assms unfolding ReadBlock_def Let_def
  by (auto split: option.split prod.split)

lemma ReadBlock_ok:
  assumes ok: "gcz_ok g" and cache: "cache_ok g cache"
  shows "fst (ReadBlock g index cache) = gcz_block g index" "cache_ok g (snd (ReadBlock g index cache))"
    "fst (ReadBlock g index cache) = Some block \<Longrightarrow> length block = unat (g_block_size g)"
proof -
  let ?bs = "unat (g_block_size g)"
  have none: "\<not> (mBlockIndex no_block = of_nat index \<and> length (mBlockBytes no_block) = ?bs)"
    using ok by (simp add: no_block_def gcz_ok_def unat_eq_0)
  have size: "length b = ?bs" if "gcz_block g index = Some b" for b
    using that none by (auto simp: gcz_block_def ReadBlock_def Let_def split: option.splits prod.splits if_splits)
  have "fst (ReadBlock g index cache) = gcz_block g index \<and> cache_ok g (snd (ReadBlock g index cache))"
  proof (cases "mBlockIndex cache = of_nat index \<and> length (mBlockBytes cache) = ?bs")
    case True
    show ?thesis
    proof (cases "index < length (g_blocks g)")
      case far: False
      then show ?thesis using cache by (simp add: ReadBlock_def gcz_block_def)
    next
      case near: True
      then have "unat (mBlockIndex cache) = index" using True ok by (simp add: gcz_ok_def unat_index)
      then show ?thesis using True near cache by (simp add: ReadBlock_def cache_ok_def)
    qed
  next
    case False
    note miss = ReadBlock_miss [OF False none]
    show ?thesis
    proof (cases "gcz_block g index")
      case None
      then show ?thesis using miss cache by (simp add: gcz_block_def)
    next
      case (Some b)
      then have "index < length (g_blocks g)" by (auto simp: gcz_block_def ReadBlock_def not_le [symmetric])
      then have "unat (of_nat index :: u64) = index" using ok by (simp add: gcz_ok_def unat_index)
      then show ?thesis using miss Some by (simp add: gcz_block_def cache_ok_def)
    qed
  qed
  then show "fst (ReadBlock g index cache) = gcz_block g index" "cache_ok g (snd (ReadBlock g index cache))"
    "fst (ReadBlock g index cache) = Some block \<Longrightarrow> length block = ?bs"
    using size by auto
qed

lemma gcz_piece_bytes:
  assumes ok: "gcz_ok g" and cache: "cache_ok g cache" and k: "0 < k" "within + k \<le> unat (g_block_size g)"
  shows "\<exists>cache'. gcz_piece g index within k cache =
      (those (map (gcz_byte g) [index * unat (g_block_size g) + within..<index * unat (g_block_size g) + within + k]), cache') \<and>
      cache_ok g cache'"
proof -
  let ?bs = "unat (g_block_size g)"
  obtain r cache' where r: "ReadBlock g index cache = (r, cache')" by (cases "ReadBlock g index cache")
  note b = ReadBlock_ok [OF ok cache, of index, unfolded r fst_conv snd_conv]
  have bytes: "map (gcz_byte g) [index * ?bs + within..<index * ?bs + within + k] =
      map (\<lambda>i. do { block \<leftarrow> r; rd block i }) [within..<within + k]"
    using k(2) b(1) by (intro nth_equalityI) (simp_all add: gcz_byte_def add.assoc)
  show ?thesis
  proof (cases r)
    case None
    then have "None \<in> set (map (\<lambda>i. do { block \<leftarrow> r; rd block i }) [within..<within + k])"
      using k(1) by (auto intro!: image_eqI [of _ _ within])
    then show ?thesis using None r b(2) bytes by (simp only: those_None) (simp add: gcz_piece_def)
  next
    case (Some block)
    have size: "length block = ?bs" using b(3) Some by simp
    have "those (map (rd block) [within..<within + k]) = Some (take k (drop within block))"
      using those_getn [OF k(1), of block within] k(2) size by (simp add: getn_def)
    then show ?thesis using Some r b(2) bytes size k by (simp add: gcz_piece_def Let_def)
  qed
qed

lemma ReadThrough_bytes:
  assumes "gcz_ok g" "cache_ok g cache" "unat offset + n < 2 ^ 64"
  shows "\<exists>cache'. ReadThrough g offset n cache = (those (map (gcz_byte g) [unat offset..<unat offset + n]), cache') \<and>
     cache_ok g cache'"
  unfolding ReadThrough_def
proof (rule cut_read_bytes [where P = "cache_ok g"])
  show "0 < unat (g_block_size g)" using assms(1) by (simp add: gcz_ok_def unat_gt_0)
qed (use assms gcz_piece_bytes in auto)

definition GczSource :: "gcz \<Rightarrow> source" where
  "GczSource g = (\<lambda>offset n. fst (ReadThrough g offset n no_block))"

lemma gcz_source: "gcz_ok g \<Longrightarrow> disc_source (GczSource g) (gcz_byte g)"
proof
  have piece: "length x = k" if "gcz_piece g block within k s = (Some x, s')" for block within k s x s'
    using that by (auto simp: gcz_piece_def Let_def split: option.splits prod.splits if_splits)
  show "length xs = n" if "GczSource g offset n = Some xs" for offset n xs
    using that cut_read_length [of "gcz_piece g", OF piece] by (simp add: GczSource_def ReadThrough_def)
  fix n and offset :: u64 assume "gcz_ok g" "0 < n" "unat offset + n < 2 ^ 64"
  then show "GczSource g offset n = those (map (gcz_byte g) [unat offset..<unat offset + n])"
    using ReadThrough_bytes [of g no_block offset n] cache_ok_none [of g] by (auto simp: GczSource_def)
qed

lemma length_gcz_table: "gcz_table table ids = Some xs \<Longrightarrow> length xs = length ids"
  by (induction ids arbitrary: xs) (auto split: Option.bind_splits)

lemma OpenGcz_ok:
  assumes "OpenGcz file inflate = Some (Some g)"
  shows "gcz_ok g" "g_file g = file" "g_inflate g = inflate"
proof -
  have "(\<exists>table blocks. gcz_table table [0..<unat (blocks :: u32)] = Some (g_blocks g) \<and> blocks \<le> 8 * 1024 * 1024) \<and>
      g_block_size g \<noteq> 0 \<and> g_file g = file \<and> g_inflate g = inflate"
    using assms by (auto simp: OpenGcz_def not_less split: option.splits Option.bind_splits if_splits)
      (rule exI, rule exI, rule conjI, assumption, assumption)+
  then obtain table and blocks :: u32 where t: "gcz_table table [0..<unat blocks] = Some (g_blocks g)" "blocks \<le> 8 * 1024 * 1024"
    and g: "g_block_size g \<noteq> 0" "g_file g = file" "g_inflate g = inflate" by blast
  have "unat blocks \<le> 8388608" using t(2) by (simp add: word_le_nat_alt)
  with length_gcz_table [OF t(1)] g show "gcz_ok g" "g_file g = file" "g_inflate g = inflate"
    by (simp_all add: gcz_ok_def)
qed

text \<open>C32: Keeping the last block changes no read: through any sequence of reads the state stays one in which the
  kept block is the block of that index, every read gives what it gives with nothing kept, and an
  opened GCZ is a source, its bytes those of its blocks.\<close>

theorem Gcz_reads:
  assumes "OpenGcz file inflate = Some (Some g)" "cache_ok g cache" "unat offset + n < 2 ^ 64"
  shows "fst (ReadThrough g offset n cache) = fst (ReadThrough g offset n no_block) \<and>
     cache_ok g (snd (ReadThrough g offset n cache)) \<and> disc_source (GczSource g) (gcz_byte g)"
proof -
  have ok: "gcz_ok g" using OpenGcz_ok [OF assms(1)] by simp
  then show ?thesis
    using ReadThrough_bytes [OF ok assms(2,3)] ReadThrough_bytes [OF ok cache_ok_none [OF ok] assms(3)] gcz_source [OF ok]
    by auto
qed

section \<open>The last block\<close>

text \<open>A disc of one block of 32 bytes, deflated to the four bytes at the end of the file.\<close>

definition small_gcz :: bytes where
  "small_gcz = [0x01, 0xC0, 0x0B, 0xB1, 1, 0, 0, 0, 4, 0, 0, 0, 0, 0, 0, 0, 32, 0, 0, 0, 0, 0, 0, 0, 32, 0, 0, 0, 1, 0, 0, 0,
     0, 0, 0, 0, 0, 0, 0, 0, 0, 0, 0, 0, 0x78, 0x9C, 0x63, 0x60]"

lemma small_gcz_opens:
  "\<exists>g. OpenGcz (FromMemory small_gcz) inflate = Some (Some g) \<and> g_block_size g = 32 \<and> g_blocks g = [0] \<and>
     g_data_at g = 44 \<and> g_file g = FromMemory small_gcz"
proof -
  have reads: "FromMemory small_gcz 0 32 = Some (take 32 small_gcz)" "FromMemory small_gcz 32 8 = Some [0, 0, 0, 0, 0, 0, 0, 0]"
    by (simp_all add: FromMemory_getn getn_def small_gcz_def)
  have fields: "read32le (take 32 small_gcz) 0 = Some 0xB10BC001" "read32le (take 32 small_gcz) 4 = Some 1"
    "read64le (take 32 small_gcz) 16 = Some 32" "read32le (take 32 small_gcz) 24 = Some 32"
    "read32le (take 32 small_gcz) 28 = Some 1"
    by (simp_all add: small_gcz_def read32le_def read64le_def rd_def be32_def be64_def)
  have table: "gcz_table [0, 0, 0, 0, 0, 0, 0, 0] [0..<1] = Some [0]"
    by (simp add: read64le_def read32le_def rd_def be32_def be64_def)
  show ?thesis using reads fields table by (simp add: OpenGcz_def kMagic_def word_less_nat_alt)
qed

text \<open>The last block of a GCZ is asked for a whole block's worth of bytes, whatever it takes in the file: where
  the file ends with it, as it does after the deflated block of any disc, no read of that block
  succeeds, with any decompressor.\<close>

theorem Gcz_last_block:
  assumes "g_file g = FromMemory data" "index + 1 = length (g_blocks g)"
    "length data < unat (block_at g index) + unat (g_block_size g)"
    "unat (block_at g index) + unat (g_block_size g) < 2 ^ 64" "g_block_size g \<noteq> 0"
  shows "gcz_block g index = None"
proof -
  let ?at = "block_at g index" and ?bs = "unat (g_block_size g)"
  have "unat (ucast (g_block_size g) :: u64) = ?bs" by (simp add: unat_ucast_up)
  then have "block_next g index - ?at = ucast (g_block_size g)" using assms(2) by (simp add: block_next_def)
  then have room: "min (unat (block_next g index - ?at)) (?bs + 0x1000) = ?bs" by (simp add: unat_ucast_up)
  have "g_file g ?at ?bs = None" using assms by (simp add: FromMemory_getn getn_def)
  then show ?thesis using assms(2,5) room by (simp add: gcz_block_def ReadBlock_def no_block_def Let_def unat_gt_0)
qed

lemma Gcz_last_block_witness:
  "\<exists>g. OpenGcz (FromMemory small_gcz) None = Some (Some g) \<and> gcz_block g 0 = None"
proof -
  obtain g where g: "OpenGcz (FromMemory small_gcz) None = Some (Some g)" "g_block_size g = 32" "g_blocks g = [0]"
    "g_data_at g = 44" "g_file g = FromMemory small_gcz" using small_gcz_opens by blast
  have "unat (block_at g 0) = 44" using g by (simp add: block_at_def)
  with Gcz_last_block [OF g(5), of 0] g show ?thesis by (simp add: small_gcz_def)
qed

lemma Gcz_reads_witness:
  "\<exists>g. OpenGcz (FromMemory small_gcz) None = Some (Some g) \<and> cache_ok g (snd (ReadThrough g 0 8 no_block)) \<and>
     disc_source (GczSource g) (gcz_byte g)"
proof -
  obtain g where g: "OpenGcz (FromMemory small_gcz) None = Some (Some g)" using small_gcz_opens by blast
  with Gcz_reads [OF g cache_ok_none [OF OpenGcz_ok(1) [OF g]], of 0 8] show ?thesis by auto
qed

end
