(* ===== verification/Disc_Rvz.thy ===== *)
theory Disc_Rvz
  imports Disc_Gcz
begin

text \<open>
  src/format/disc/rvz.cpp: RVZ and WIA files. The decompressor is the caller's, a parameter as for
  GCZ; the group kept between reads is the state of a read. The outer \<open>None\<close> of an opening is a
  read outside a buffer, the inner one a file that is refused.
\<close>

definition kFileHeaderSize :: nat where "kFileHeaderSize = 0x48"
definition kDiscSize :: nat where "kDiscSize = 0xDC"
definition kPartitionEntrySize :: nat where "kPartitionEntrySize = 48"
definition kRawDataEntrySize :: nat where "kRawDataEntrySize = 24"
definition kSector :: nat where "kSector = 0x8000"
definition kClusterStored :: nat where "kClusterStored = 0x7C00"
definition kGroupData :: nat where "kGroupData = 64 * kClusterStored"
definition kListSlack :: nat where "kListSlack = 0x12000"
definition kExceptionEntry :: nat where "kExceptionEntry = 2 + 20"
definition kNoCompression :: u32 where "kNoCompression = 0"
definition kPurge :: u32 where "kPurge = 1"

record rvz_group =
  group_offset :: u64
  group_size :: u32
  compressed :: bool
  packed_size :: u32

record region =
  region_offset :: u64
  region_size :: u64
  first_group :: u32
  groups :: u32
  chunk :: u32
  lists :: u32

record rvz =
  v_file :: source
  v_inflate :: "inflate option"
  mIsRvz :: bool
  v_console :: Console
  mCompression :: u32
  mChunkSize :: u32
  v_disc_size :: u64
  mSupported :: bool
  mGroups :: "rvz_group list"
  mRegions :: "region list"
  mDiscHeader :: bytes

record group_cache =
  mGroupBytes :: bytes
  mGroupIndex :: u32

definition no_group :: group_cache where
  "no_group = \<lparr>mGroupBytes = [], mGroupIndex = 0xFFFFFFFF\<rparr>"

section \<open>Reading a group\<close>

primrec skip_lists :: "bytes \<Rightarrow> bool \<Rightarrow> nat \<Rightarrow> nat list \<Rightarrow> nat \<Rightarrow> nat" where
  "skip_lists data aligned list_total [] at = at"
| "skip_lists data aligned list_total (l # ls) at =
     (if length data < at + 2 then at
      else
        let count = unat (data ! at) * 256 + unat (data ! (at + 1));
            n = 2 + count * kExceptionEntry;
            n = (if aligned \<and> l + 1 = list_total then (at + n + 3) div 4 * 4 - at else n) in
        skip_lists data aligned list_total ls (at + n))"

definition SkipExceptionLists :: "bytes \<Rightarrow> u32 \<Rightarrow> bool \<Rightarrow> nat" where
  "SkipExceptionLists data n aligned = skip_lists data aligned (unat n) [0..<unat n] 0"

text \<open>The runs of an RVZ group: data as it is, and filler as zeros for its length.\<close>

function unpack :: "bytes \<Rightarrow> nat \<Rightarrow> nat \<Rightarrow> bytes" where
  "unpack out limit at =
     (if limit < at + 4 then []
      else
        let field = be32 (out ! at) (out ! (at + 1)) (out ! (at + 2)) (out ! (at + 3));
            n = unat (field AND 0x7FFFFFFF) in
        if field AND 0x80000000 \<noteq> 0 then replicate n 0 @ unpack out limit (at + 4 + 68)
        else take (min n (limit - (at + 4))) (drop (at + 4) out) @ unpack out limit (at + 4 + n))"
  by pat_completeness auto
termination by (relation "measure (\<lambda>(out, limit, at). limit - at)") auto

declare unpack.simps [simp del]

text \<open>What the decompressor leaves of a group: whether it worked, and the buffer either way.\<close>

definition expand_group :: "rvz \<Rightarrow> region \<Rightarrow> bytes \<Rightarrow> bytes \<Rightarrow> bool \<times> bytes" where
  "expand_group r region raw out =
     (case v_inflate r of
        None \<Rightarrow> (False, out)
      | Some inflate \<Rightarrow>
          let (written, buffer) = inflate (mCompression r) raw (unat (chunk region) + unat (lists region) * kListSlack) in
          if written = 0 then (False, buffer) else (True, resize written buffer))"

text \<open>The bytes of a group from what is stored of it.\<close>

definition decode_group :: "rvz \<Rightarrow> rvz_group \<Rightarrow> region \<Rightarrow> bytes \<Rightarrow> bytes \<Rightarrow> bool \<times> bytes" where
  "decode_group r g region raw out =
     (let lists_compressed = (compressed g \<and> mCompression r \<noteq> kPurge);
          raw = (if lists region \<noteq> 0 \<and> \<not> lists_compressed
                 then drop (SkipExceptionLists raw (lists region) True) raw else raw);
          (ok, out) = (if \<not> compressed g then (True, raw) else expand_group r region raw out) in
      if \<not> ok then (False, out)
      else
        let out = (if lists region \<noteq> 0 \<and> lists_compressed
                   then drop (SkipExceptionLists out (lists region) False) out else out) in
        (True, if packed_size g \<noteq> 0 then unpack out (min (length out) (unat (packed_size g))) 0 else out))"

text \<open>Whether the group was read, and the caller's buffer, which a group that cannot be may have changed.\<close>

definition ReadGroup :: "rvz \<Rightarrow> nat \<Rightarrow> region \<Rightarrow> bytes \<Rightarrow> bool \<times> bytes" where
  "ReadGroup r index region out =
     (if length (mGroups r) \<le> index then (False, out)
      else let g = mGroups r ! index in
        if group_size g = 0 then (True, replicate (unat (chunk region)) 0)
        else case v_file r (group_offset g) (unat (group_size g)) of
            None \<Rightarrow> (False, out)
          | Some raw \<Rightarrow> decode_group r g region raw out)"

section \<open>Opening\<close>

definition plain_table :: "rvz \<Rightarrow> u64 \<Rightarrow> u32 \<Rightarrow> nat \<Rightarrow> bytes option" where
  "plain_table r off stored expanded =
     (if stored = 0 then None
      else case v_file r off (unat stored) of
          None \<Rightarrow> None
        | Some raw \<Rightarrow>
            if mCompression r = kNoCompression then (if expanded \<le> length raw then Some raw else None)
            else case v_inflate r of
                None \<Rightarrow> None
              | Some inflate \<Rightarrow>
                  let (written, out) = inflate (mCompression r) raw expanded in
                  if expanded \<le> written then Some out else None)"

primrec group_table :: "bool \<Rightarrow> bytes \<Rightarrow> nat \<Rightarrow> nat list \<Rightarrow> rvz_group list option" where
  "group_table rvz table entry [] = Some []"
| "group_table rvz table entry (i # is) = do {
     at \<leftarrow> read32 table (i * entry);
     n \<leftarrow> read32 table (i * entry + 4);
     g \<leftarrow> (if rvz then do {
             packed \<leftarrow> read32 table (i * entry + 8);
             Some \<lparr>group_offset = push_bit 2 (ucast at), group_size = n AND 0x7FFFFFFF,
               compressed = (n AND 0x80000000 \<noteq> 0), packed_size = packed\<rparr> }
           else Some \<lparr>group_offset = push_bit 2 (ucast at), group_size = n, compressed = True, packed_size = 0\<rparr>);
     gs \<leftarrow> group_table rvz table entry is;
     Some (g # gs) }"

primrec raw_regions :: "u32 \<Rightarrow> bytes \<Rightarrow> nat list \<Rightarrow> region list option" where
  "raw_regions chunk_size table [] = Some []"
| "raw_regions chunk_size table (i # is) = do {
     off \<leftarrow> read64 table (i * kRawDataEntrySize);
     n \<leftarrow> read64 table (i * kRawDataEntrySize + 8);
     first \<leftarrow> read32 table (i * kRawDataEntrySize + 16);
     count \<leftarrow> read32 table (i * kRawDataEntrySize + 20);
     let skipped = off mod of_nat kSector in
     do { rs \<leftarrow> raw_regions chunk_size table is;
          Some (\<lparr>region_offset = off - skipped, region_size = n + skipped, first_group = first, groups = count,
                 chunk = chunk_size, lists = 0\<rparr> # rs) } }"

definition segment_region :: "bytes \<Rightarrow> nat \<Rightarrow> u64 \<Rightarrow> u32 \<Rightarrow> u32 \<Rightarrow> region list option" where
  "segment_region table data first pc lc = do {
     sector \<leftarrow> read32 table data;
     sectors \<leftarrow> read32 table (data + 4);
     group \<leftarrow> read32 table (data + 8);
     count \<leftarrow> read32 table (data + 12);
     let n = ucast sectors * of_nat kClusterStored :: u64 in
     Some (if n \<noteq> 0 then
         [\<lparr>region_offset = first * of_nat kSector + (ucast sector - first) * of_nat kClusterStored, region_size = n,
           first_group = group, groups = count, chunk = pc, lists = lc\<rparr>]
       else []) }"

text \<open>The place of an entry is a product of two 32-bit numbers, in 32 bits.\<close>

primrec partition_regions :: "bytes \<Rightarrow> u32 \<Rightarrow> u32 \<Rightarrow> u32 \<Rightarrow> nat list \<Rightarrow> region list option" where
  "partition_regions table entry pc lc [] = Some []"
| "partition_regions table entry pc lc (i # is) =
     (let at = unat (of_nat i * entry) in
      do {
        first \<leftarrow> read32 table (at + 16);
        a \<leftarrow> segment_region table (at + 16) (ucast first) pc lc;
        b \<leftarrow> segment_region table (at + 32) (ucast first) pc lc;
        rs \<leftarrow> partition_regions table entry pc lc is;
        Some (a @ b @ rs) })"

definition partition_chunk :: "u32 \<Rightarrow> u32" where
  "partition_chunk chunk_size = of_nat (unat chunk_size div kSector * kClusterStored)"

definition list_count :: "u32 \<Rightarrow> u32" where
  "list_count pc = max 1 (of_nat (unat pc div kGroupData))"

definition ReadPartitions :: "rvz \<Rightarrow> u32 \<Rightarrow> u32 \<Rightarrow> u64 \<Rightarrow> region list option option" where
  "ReadPartitions r partitions entry off =
     (if partitions = 0 \<or> unat entry < kPartitionEntrySize then Some (Some [])
      else case v_file r off (unat (partitions * entry)) of
          None \<Rightarrow> Some None
        | Some table \<Rightarrow>
            let pc = partition_chunk (mChunkSize r) in
            do { rs \<leftarrow> partition_regions table entry pc (list_count pc) [0..<unat partitions]; Some (Some rs) })"

definition ReadTables :: "rvz \<Rightarrow> bytes \<Rightarrow> rvz option option" where
  "ReadTables r disc = do {
     kind \<leftarrow> read32 disc 0;
     compression \<leftarrow> read32 disc 0x04;
     chunk_size \<leftarrow> read32 disc 0x0C;
     header \<leftarrow> getn disc 0x10 128;
     let r = r\<lparr>v_console := if kind = 1 then GameCube else Wii, mCompression := compression, mChunkSize := chunk_size,
               mDiscHeader := header\<rparr> in
     if chunk_size = 0 \<or> chunk_size AND (chunk_size - 1) \<noteq> 0 \<or> unat chunk_size < kSector then Some None
     else do {
       partitions \<leftarrow> read32 disc 0x90;
       partition_entry \<leftarrow> read32 disc 0x94;
       partition_offset \<leftarrow> read64 disc 0x98;
       raw_entries \<leftarrow> read32 disc 0xB4;
       raw_offset \<leftarrow> read64 disc 0xB8;
       raw_size \<leftarrow> read32 disc 0xC0;
       group_count \<leftarrow> read32 disc 0xC4;
       groups_offset \<leftarrow> read64 disc 0xC8;
       groups_size \<leftarrow> read32 disc 0xD0;
       let entry = (if mIsRvz r then 12 else 8) in
       case plain_table r groups_offset groups_size (unat group_count * entry) of
         None \<Rightarrow> Some None
       | Some table \<Rightarrow> do {
           gs \<leftarrow> group_table (mIsRvz r) table entry [0..<unat group_count];
           case (if raw_entries = 0 then Some [] else plain_table r raw_offset raw_size (unat raw_entries * kRawDataEntrySize)) of
             None \<Rightarrow> Some None
           | Some raw_table \<Rightarrow> do {
               raws \<leftarrow> raw_regions chunk_size raw_table [0..<unat raw_entries];
               ps \<leftarrow> ReadPartitions r partitions partition_entry partition_offset;
               Some (map_option (\<lambda>ps. r\<lparr>mGroups := gs, mRegions := raws @ ps,
                 mSupported := (compression = kNoCompression \<or> v_inflate r \<noteq> None)\<rparr>) ps) } } } }"

definition OpenRvz :: "source \<Rightarrow> inflate option \<Rightarrow> rvz option option" where
  "OpenRvz file inflate =
     (case file 0 kFileHeaderSize of
        None \<Rightarrow> Some None
      | Some header \<Rightarrow>
          let wia = (take 4 header = [0x57, 0x49, 0x41, 0x01]); rvz = (take 4 header = [0x52, 0x56, 0x5A, 0x01]) in
          if \<not> wia \<and> \<not> rvz then Some None
          else do {
            disc_size \<leftarrow> read64 header 0x24;
            described \<leftarrow> read32 header 0x0C;
            if unat described < kDiscSize then Some None
            else case file (of_nat kFileHeaderSize) (unat described) of
                None \<Rightarrow> Some None
              | Some disc \<Rightarrow>
                  ReadTables \<lparr>v_file = file, v_inflate = inflate, mIsRvz = rvz, v_console = Wii, mCompression = 0,
                    mChunkSize = 0, v_disc_size = disc_size, mSupported = False, mGroups = [], mRegions = [],
                    mDiscHeader = replicate 128 0\<rparr> disc })"

section \<open>Reading\<close>

definition find_region :: "rvz \<Rightarrow> u64 \<Rightarrow> region option" where
  "find_region r off = List.find (\<lambda>g. region_offset g \<le> off \<and> off < region_offset g + region_size g) (mRegions r)"

text \<open>The piece of one group that a read of \<open>n\<close> bytes at \<open>off\<close> starts with; never empty.\<close>

definition rvz_piece :: "rvz \<Rightarrow> region \<Rightarrow> u64 \<Rightarrow> nat \<Rightarrow> group_cache \<Rightarrow> bytes option \<times> group_cache" where
  "rvz_piece r g off n cache =
     (let within = off - region_offset g;
          group = first_group g + of_nat (unat within div unat (chunk g));
          at = unat within mod unat (chunk g) in
      if first_group g + groups g \<le> group then (None, cache)
      else
        let (ok, bytes) = (if mGroupIndex cache \<noteq> group then ReadGroup r (unat group) g (mGroupBytes cache)
                           else (True, mGroupBytes cache)) in
        if \<not> ok then (None, cache\<lparr>mGroupBytes := bytes\<rparr>)
        else
          let cache = \<lparr>mGroupBytes = bytes, mGroupIndex = group\<rparr>;
              left = unat (region_offset g + region_size g - off);
              taken = min n (min left (unat (chunk g) - at)) in
          if taken = 0 then (None, cache)
          else if length bytes \<le> at then (Some (replicate taken 0), cache)
          else (Some (take taken (drop at bytes)), cache))"

lemma rvz_piece_nonempty: "rvz_piece r g off n cache = (Some x, cache') \<Longrightarrow> 0 < length x"
  by (auto simp: rvz_piece_def Let_def split: if_splits prod.splits)

function ReadRvz :: "rvz \<Rightarrow> u64 \<Rightarrow> nat \<Rightarrow> group_cache \<Rightarrow> bytes option \<times> group_cache" where
  "ReadRvz r off n cache =
     (if n = 0 then (Some [], cache)
      else case find_region r off of
          None \<Rightarrow> (Some (replicate n 0), cache)
        | Some g \<Rightarrow>
            (case rvz_piece r g off n cache of
               (None, cache) \<Rightarrow> (None, cache)
             | (Some x, cache) \<Rightarrow>
                 (case ReadRvz r (off + of_nat (length x)) (n - length x) cache of
                     (None, cache) \<Rightarrow> (None, cache)
                   | (Some y, cache) \<Rightarrow> (Some (x @ y), cache))))"
  by pat_completeness auto
termination
  by (relation "measure (\<lambda>(r, off, n, cache). n)") (auto dest: rvz_piece_nonempty [OF sym])

declare ReadRvz.simps [simp del]

definition RvzSource :: "rvz \<Rightarrow> source" where
  "RvzSource r = (\<lambda>off n. fst (ReadRvz r off n no_group))"

section \<open>The group kept between reads\<close>

definition in_region :: "u32 \<Rightarrow> region \<Rightarrow> bool" where
  "in_region grp g \<longleftrightarrow> first_group g \<le> grp \<and> unat grp < unat (first_group g) + unat (groups g)"

text \<open>
  Tables that make sense: regions and runs of groups that do not wrap, a run that covers its region,
  and no group in two regions that would read it differently.
\<close>

definition rvz_ok :: "rvz \<Rightarrow> bool" where
  "rvz_ok r \<longleftrightarrow> (\<forall>g \<in> set (mRegions r). chunk g \<noteq> 0 \<and> unat (first_group g) + unat (groups g) < 2 ^ 32 \<and>
      unat (region_offset g) + unat (region_size g) < 2 ^ 64 \<and> unat (region_size g) \<le> unat (groups g) * unat (chunk g)) \<and>
     (\<forall>g \<in> set (mRegions r). \<forall>h \<in> set (mRegions r). (\<exists>k. in_region k g \<and> in_region k h) \<longrightarrow>
       chunk g = chunk h \<and> lists g = lists h)"

definition coherent :: "rvz \<Rightarrow> group_cache \<Rightarrow> bool" where
  "coherent r cache \<longleftrightarrow> (\<forall>g \<in> set (mRegions r). in_region (mGroupIndex cache) g \<longrightarrow>
     ReadGroup r (unat (mGroupIndex cache)) g [] = (True, mGroupBytes cache))"

lemma expand_group_buffer:
  "fst (expand_group r g raw out) = fst (expand_group r g raw out')"
  "fst (expand_group r g raw out) \<Longrightarrow> snd (expand_group r g raw out) = snd (expand_group r g raw out')"
  by (auto simp: expand_group_def Let_def split: option.splits prod.splits)

lemma decode_group_buffer:
  "fst (decode_group r gr g raw out) = fst (decode_group r gr g raw out')"
  "fst (decode_group r gr g raw out) \<Longrightarrow> snd (decode_group r gr g raw out) = snd (decode_group r gr g raw out')"
  using expand_group_buffer [of r g _ out out']
  by (auto simp: decode_group_def Let_def case_prod_beta)

lemma ReadGroup_buffer:
  "fst (ReadGroup r i g out) = fst (ReadGroup r i g out')"
  "fst (ReadGroup r i g out) \<Longrightarrow> snd (ReadGroup r i g out) = snd (ReadGroup r i g out')"
  using decode_group_buffer [of r "mGroups r ! i" g _ out out']
  by (auto simp: ReadGroup_def Let_def split: option.splits if_splits)

lemma ReadGroup_region:
  assumes "chunk g = chunk h" "lists g = lists h"
  shows "ReadGroup r i g out = ReadGroup r i h out"
  unfolding ReadGroup_def decode_group_def expand_group_def assms by simp

lemma find_region_parts:
  "find_region r off = Some g \<Longrightarrow> g \<in> set (mRegions r) \<and> region_offset g \<le> off \<and> off < region_offset g + region_size g"
  by (auto simp: find_region_def find_Some_iff)

text \<open>The group a byte of a region is in.\<close>

lemma group_in_region:
  assumes "rvz_ok r" "find_region r off = Some g"
  defines "grp \<equiv> first_group g + of_nat (unat (off - region_offset g) div unat (chunk g))"
  shows "in_region grp g" "\<not> first_group g + groups g \<le> grp" "grp \<noteq> 0xFFFFFFFF" "g \<in> set (mRegions r)"
proof -
  note f = find_region_parts [OF assms(2)]
  then show g: "g \<in> set (mRegions r)" by simp
  from assms(1) g have ok: "chunk g \<noteq> 0" "unat (first_group g) + unat (groups g) < 2 ^ 32"
    "unat (region_offset g) + unat (region_size g) < 2 ^ 64" "unat (region_size g) \<le> unat (groups g) * unat (chunk g)"
    by (auto simp: rvz_ok_def)
  let ?q = "unat (off - region_offset g) div unat (chunk g)"
  have "unat (off - region_offset g) = unat off - unat (region_offset g)" using f by (simp add: unat_sub word_le_nat_alt)
  moreover have "unat (region_offset g + region_size g) = unat (region_offset g) + unat (region_size g)"
    using ok(3) by (simp add: unat_word_ariths)
  ultimately have "unat (off - region_offset g) < unat (region_size g)"
    using f unfolding word_le_nat_alt word_less_nat_alt by linarith
  then have "unat (off - region_offset g) < unat (groups g) * unat (chunk g)" using ok(4) by linarith
  then have q: "?q < unat (groups g)" using ok(1) by (simp add: less_mult_imp_div_less)
  then have "unat (of_nat ?q :: u32) = ?q" using unat_u32 [of "groups g"] by (intro unat_of_nat_u32) linarith
  then have grp: "unat grp = unat (first_group g) + ?q"
    using q ok(2) unfolding grp_def by (simp add: unat_word_ariths)
  have last: "unat (first_group g + groups g) = unat (first_group g) + unat (groups g)" using ok(2) by (simp add: unat_word_ariths)
  show "in_region grp g" using grp q by (simp add: in_region_def word_le_nat_alt)
  show "\<not> first_group g + groups g \<le> grp" using grp last q by (simp add: word_le_nat_alt)
  show "grp \<noteq> 0xFFFFFFFF"
  proof
    assume "grp = 0xFFFFFFFF"
    then have "unat grp = 0xFFFFFFFF" by simp
    then show False using grp q ok(2) by simp
  qed
qed

lemma coherent_none: "rvz_ok r \<Longrightarrow> coherent r no_group"
proof -
  assume ok: "rvz_ok r"
  have "\<not> in_region 0xFFFFFFFF g" if "g \<in> set (mRegions r)" for g
  proof -
    have "unat (first_group g) + unat (groups g) < 2 ^ 32" using ok that by (simp add: rvz_ok_def)
    then show ?thesis by (simp add: in_region_def)
  qed
  then show ?thesis by (simp add: coherent_def no_group_def)
qed

lemma rvz_piece_fresh:
  assumes ok: "rvz_ok r" and c: "coherent r cache" and f: "find_region r off = Some g"
  shows "fst (rvz_piece r g off n cache) = fst (rvz_piece r g off n no_group)"
    "fst (rvz_piece r g off n cache) \<noteq> None \<Longrightarrow> coherent r (snd (rvz_piece r g off n cache))"
proof -
  define grp where "grp = first_group g + of_nat (unat (off - region_offset g) div unat (chunk g))"
  note grp = group_in_region [OF ok f, folded grp_def]
  obtain good x where x: "ReadGroup r (unat grp) g [] = (good, x)" by (cases "ReadGroup r (unat grp) g []")
  let ?get = "\<lambda>cache. if mGroupIndex cache \<noteq> grp then ReadGroup r (unat grp) g (mGroupBytes cache) else (True, mGroupBytes cache)"
  have got: "fst (?get cache) = good \<and> (good \<longrightarrow> snd (?get cache) = x)"
  proof (cases "mGroupIndex cache = grp")
    case True
    then have "ReadGroup r (unat grp) g [] = (True, mGroupBytes cache)" using c grp(1,4) unfolding coherent_def by blast
    with x True show ?thesis by simp
  next
    case False
    then show ?thesis using ReadGroup_buffer [of r "unat grp" g "mGroupBytes cache" "[]"] x by simp
  qed
  have fresh: "?get no_group = (good, x)" using x grp(3) by (simp add: no_group_def)
  have keep: "coherent r \<lparr>mGroupBytes = x, mGroupIndex = grp\<rparr>" if "good"
    unfolding coherent_def
  proof (intro ballI impI)
    fix h assume h: "h \<in> set (mRegions r)" "in_region (mGroupIndex \<lparr>mGroupBytes = x, mGroupIndex = grp\<rparr>) h"
    then have "chunk g = chunk h" "lists g = lists h" using ok grp(1,4) by (auto simp: rvz_ok_def)
    then show "ReadGroup r (unat (mGroupIndex \<lparr>mGroupBytes = x, mGroupIndex = grp\<rparr>)) h [] =
        (True, mGroupBytes \<lparr>mGroupBytes = x, mGroupIndex = grp\<rparr>)"
      using x that ReadGroup_region [of h g r "unat grp" "[]"] by simp
  qed
  obtain a b where get: "?get cache = (a, b)" by (cases "?get cache")
  then have ab: "a = good" "good \<Longrightarrow> b = x" using got by auto
  have piece: "rvz_piece r g off n c = (let (ok, bytes) = ?get c; at = unat (off - region_offset g) mod unat (chunk g) in
      if \<not> ok then (None, c\<lparr>mGroupBytes := bytes\<rparr>)
      else
        let c = \<lparr>mGroupBytes = bytes, mGroupIndex = grp\<rparr>;
            left = unat (region_offset g + region_size g - off);
            taken = min n (min left (unat (chunk g) - at)) in
        if taken = 0 then (None, c)
        else if length bytes \<le> at then (Some (replicate taken 0), c)
        else (Some (take taken (drop at bytes)), c))" for c
    using grp(2) unfolding rvz_piece_def grp_def [symmetric] Let_def by simp
  show "fst (rvz_piece r g off n cache) = fst (rvz_piece r g off n no_group)"
    unfolding piece get fresh using ab by (cases good) (simp_all add: Let_def)
  show "fst (rvz_piece r g off n cache) \<noteq> None \<Longrightarrow> coherent r (snd (rvz_piece r g off n cache))"
    unfolding piece get using ab keep by (auto simp: Let_def split: if_splits)
qed

lemma ReadRvz_coherent:
  assumes ok: "rvz_ok r" and "coherent r c" "coherent r d"
  shows "fst (ReadRvz r off n c) = fst (ReadRvz r off n d) \<and>
     (fst (ReadRvz r off n c) \<noteq> None \<longrightarrow> coherent r (snd (ReadRvz r off n c)))"
  using assms(2,3)
proof (induction n arbitrary: off c d rule: less_induct)
  case (less n)
  show ?case
  proof (cases "n = 0 \<or> find_region r off = None")
    case True
    then show ?thesis using less.prems by (auto simp: ReadRvz.simps)
  next
    case False
    then obtain g where g: "n \<noteq> 0" "find_region r off = Some g" by auto
    obtain p c1 q d1 where p: "rvz_piece r g off n c = (p, c1)" "rvz_piece r g off n d = (q, d1)"
      by (cases "rvz_piece r g off n c", cases "rvz_piece r g off n d")
    have pq: "p = q" "p \<noteq> None \<Longrightarrow> coherent r c1" "q \<noteq> None \<Longrightarrow> coherent r d1"
      using rvz_piece_fresh [OF ok less.prems(1) g(2), of n] rvz_piece_fresh [OF ok less.prems(2) g(2), of n] p by simp_all
    show ?thesis
    proof (cases p)
      case None
      then show ?thesis using g p pq by (simp add: ReadRvz.simps [of r off n])
    next
      case (Some x)
      then have "0 < length x" using rvz_piece_nonempty p(1) by blast
      then have "n - length x < n" using g(1) by simp
      from less.IH [OF this, of c1 d1 "off + of_nat (length x)"] pq Some g p show ?thesis
        by (auto simp: ReadRvz.simps [of r off n] split: prod.split option.split)
    qed
  qed
qed

text \<open>C33: Keeping the last group changes no read, as long as every group could be read: over tables that make sense,
  a read from a state where the kept group is the group of its number gives what it gives with
  nothing kept, and one that succeeds leaves such a state.\<close>

theorem Rvz_reads:
  assumes "rvz_ok r" "coherent r cache"
  shows "fst (ReadRvz r off n cache) = RvzSource r off n \<and>
     (RvzSource r off n \<noteq> None \<longrightarrow> coherent r (snd (ReadRvz r off n cache)))"
  using ReadRvz_coherent [OF assms coherent_none [OF assms(1)], of off n] by (simp add: RvzSource_def)

text \<open>Two groups, the second one that the decompressor refuses.\<close>

definition two_groups :: rvz where
  "two_groups = \<lparr>v_file = FromMemory [1, 2, 3, 4], v_inflate = Some (\<lambda>m raw n. (0, replicate n 0)), mIsRvz = True,
     v_console = GameCube, mCompression = 5, mChunkSize = 0x8000, v_disc_size = 0x10000, mSupported = True,
     mGroups = [\<lparr>group_offset = 0, group_size = 4, compressed = False, packed_size = 0\<rparr>,
       \<lparr>group_offset = 0, group_size = 4, compressed = True, packed_size = 0\<rparr>],
     mRegions = [\<lparr>region_offset = 0, region_size = 0x10000, first_group = 0, groups = 2, chunk = 0x8000, lists = 0\<rparr>],
     mDiscHeader = []\<rparr>"

lemma two_groups_ok: "rvz_ok two_groups"
  by (simp add: rvz_ok_def two_groups_def)

lemma two_groups_read:
  "ReadGroup two_groups 0 g out = (True, [1, 2, 3, 4])" if "lists g = 0" for g out
  using that by (simp add: ReadGroup_def decode_group_def two_groups_def FromMemory_getn getn_def Let_def)

lemma two_groups_refused:
  "ReadGroup two_groups 1 g out = (False, replicate (unat (chunk g)) 0)" if "lists g = 0" for g out
  using that by (simp add: ReadGroup_def decode_group_def expand_group_def two_groups_def FromMemory_getn getn_def kPurge_def Let_def)

lemma two_groups_region:
  "off < 0x10000 \<Longrightarrow> find_region two_groups off =
     Some \<lparr>region_offset = 0, region_size = 0x10000, first_group = 0, groups = 2, chunk = 0x8000, lists = 0\<rparr>"
  by (simp add: find_region_def two_groups_def)

lemma ReadRvz_one_piece:
  assumes "find_region r off = Some g" "0 < n"
  shows "rvz_piece r g off n c = (Some x, c') \<Longrightarrow> length x = n \<Longrightarrow> ReadRvz r off n c = (Some x, c')"
    "rvz_piece r g off n c = (None, c') \<Longrightarrow> ReadRvz r off n c = (None, c')"
  using assms by (simp_all add: ReadRvz.simps [of r off] ReadRvz.simps [of r _ 0])

lemma two_groups_reads:
  "ReadRvz two_groups 0 4 no_group = (Some [1, 2, 3, 4], \<lparr>mGroupBytes = [1, 2, 3, 4], mGroupIndex = 0\<rparr>)"
  "ReadRvz two_groups 0x8000 4 \<lparr>mGroupBytes = [1, 2, 3, 4], mGroupIndex = 0\<rparr> =
     (None, \<lparr>mGroupBytes = replicate 0x8000 0, mGroupIndex = 0\<rparr>)"
  "fst (ReadRvz two_groups 0 4 \<lparr>mGroupBytes = replicate 0x8000 0, mGroupIndex = 0\<rparr>) = Some [0, 0, 0, 0]"
proof -
  let ?g = "\<lparr>region_offset = 0, region_size = 0x10000, first_group = 0, groups = 2, chunk = 0x8000, lists = 0\<rparr>"
  have four: "replicate 4 (0 :: u8) = [0, 0, 0, 0]" by (simp add: numeral_eq_Suc)
  have r: "find_region two_groups 0 = Some ?g" "find_region two_groups 0x8000 = Some ?g"
    by (simp_all add: two_groups_region)
  have "rvz_piece two_groups ?g 0 4 no_group = (Some [1, 2, 3, 4], \<lparr>mGroupBytes = [1, 2, 3, 4], mGroupIndex = 0\<rparr>)"
    by (simp add: rvz_piece_def two_groups_read no_group_def)
  then show "ReadRvz two_groups 0 4 no_group = (Some [1, 2, 3, 4], \<lparr>mGroupBytes = [1, 2, 3, 4], mGroupIndex = 0\<rparr>)"
    by (intro ReadRvz_one_piece(1) [OF r(1)]) simp_all
  have "rvz_piece two_groups ?g 0x8000 4 \<lparr>mGroupBytes = [1, 2, 3, 4], mGroupIndex = 0\<rparr> =
     (None, \<lparr>mGroupBytes = replicate 0x8000 0, mGroupIndex = 0\<rparr>)"
    using two_groups_refused [of ?g] by (simp add: rvz_piece_def word_le_nat_alt)
  then show "ReadRvz two_groups 0x8000 4 \<lparr>mGroupBytes = [1, 2, 3, 4], mGroupIndex = 0\<rparr> =
     (None, \<lparr>mGroupBytes = replicate 0x8000 0, mGroupIndex = 0\<rparr>)"
    by (intro ReadRvz_one_piece(2) [OF r(2)]) simp_all
  have "rvz_piece two_groups ?g 0 4 \<lparr>mGroupBytes = replicate 0x8000 0, mGroupIndex = 0\<rparr> =
     (Some [0, 0, 0, 0], \<lparr>mGroupBytes = replicate 0x8000 0, mGroupIndex = 0\<rparr>)"
    by (simp add: rvz_piece_def four)
  then have "ReadRvz two_groups 0 4 \<lparr>mGroupBytes = replicate 0x8000 0, mGroupIndex = 0\<rparr> =
     (Some [0, 0, 0, 0], \<lparr>mGroupBytes = replicate 0x8000 0, mGroupIndex = 0\<rparr>)"
    by (intro ReadRvz_one_piece(1) [OF r(1)]) simp_all
  then show "fst (ReadRvz two_groups 0 4 \<lparr>mGroupBytes = replicate 0x8000 0, mGroupIndex = 0\<rparr>) = Some [0, 0, 0, 0]" by simp
qed

text \<open>A group that cannot be read leaves the buffer of the kept one overwritten under its old number: after the
  decompressor has refused the second group, reading the first one again, which gave its bytes
  before, gives zeros.\<close>

theorem Rvz_stale:
  "rvz_ok two_groups \<and> (case ReadRvz two_groups 0 4 no_group of (before, kept) \<Rightarrow> before = Some [1, 2, 3, 4] \<and>
     (case ReadRvz two_groups 0x8000 4 kept of (refused, kept) \<Rightarrow> refused = None \<and>
        fst (ReadRvz two_groups 0 4 kept) = Some [0, 0, 0, 0]))"
  using two_groups_reads two_groups_ok by simp

lemma Rvz_reads_witness:
  "fst (ReadRvz two_groups 0 4 \<lparr>mGroupBytes = [1, 2, 3, 4], mGroupIndex = 0\<rparr>) = RvzSource two_groups 0 4"
proof -
  have "coherent two_groups \<lparr>mGroupBytes = [1, 2, 3, 4], mGroupIndex = 0\<rparr>"
    using two_groups_read by (simp add: coherent_def two_groups_def)
  from Rvz_reads [OF two_groups_ok this] show ?thesis by simp
qed

section \<open>Opening stays inside its buffers\<close>

text \<open>The caller's decompressor fills the room it is given.\<close>

definition fills :: "inflate option \<Rightarrow> bool" where
  "fills inflate \<longleftrightarrow> (\<forall>f m raw n. inflate = Some f \<longrightarrow> length (snd (f m raw n)) = n)"

lemma mult_row: "i < n \<Longrightarrow> n * w \<le> len \<Longrightarrow> k + 4 \<le> w \<Longrightarrow> i * w + k + 4 \<le> (len :: nat)"
proof -
  assume "i < n" "n * w \<le> len" "k + 4 \<le> w"
  moreover from this have "(i + 1) * w \<le> n * w" by (intro mult_le_mono1) simp
  ultimately show ?thesis by (simp add: algebra_simps)
qed

lemma group_table_total:
  assumes "n * entry \<le> length table" "(if rvz then 12 else 8) \<le> entry" "\<forall>i \<in> set ids. i < n"
  shows "\<exists>gs. group_table rvz table entry ids = Some gs"
  using assms(3)
proof (induction ids)
  case (Cons i ids)
  have "i * entry + k + 4 \<le> length table" if "k + 4 \<le> (if rvz then 12 else 8)" for k
    using that Cons.prems assms(1,2) by (intro mult_row [of _ n]) auto
  from this [of 0] this [of 4] this [of 8] Cons show ?case by (auto simp: read32_Some)
qed simp

lemma raw_regions_total:
  assumes "n * kRawDataEntrySize \<le> length table" "\<forall>i \<in> set ids. i < n"
  shows "\<exists>rs. raw_regions chunk_size table ids = Some rs"
  using assms(2)
proof (induction ids)
  case (Cons i ids)
  have "i * kRawDataEntrySize + k + 4 \<le> length table" if "k + 4 \<le> 24" for k
    using that Cons.prems assms(1) by (intro mult_row [of _ n]) (auto simp: kRawDataEntrySize_def)
  from this [of 4] this [of 12] this [of 16] this [of 20] Cons show ?case
    by (auto simp: read32_Some read64_def Let_def)
qed simp

lemma partition_regions_total:
  assumes "n * unat entry \<le> length table" "48 \<le> unat entry" "n * unat entry < 2 ^ 32" "\<forall>i \<in> set ids. i < n"
  shows "\<exists>rs. partition_regions table entry pc lc ids = Some rs"
  using assms(4)
proof (induction ids)
  case (Cons i ids)
  have row: "i * unat entry + k + 4 \<le> length table" if "k + 4 \<le> 48" for k
    using that Cons.prems assms(1,2) by (intro mult_row [of _ n]) auto
  have "i * unat entry \<le> n * unat entry" using Cons.prems by (intro mult_le_mono1) simp
  then have "i * unat entry < 2 ^ 32" using assms(3) by linarith
  then have "unat (of_nat i * entry) = i * unat entry"
    by (simp add: unat_word_ariths unat_of_nat mod_mult_left_eq)
  then show ?case
    using Cons row [of 16] row [of 20] row [of 24] row [of 28] row [of 32] row [of 36] row [of 40] row [of 44]
    by (auto simp: segment_region_def read32_Some Let_def)
qed simp

lemma plain_table_length:
  assumes "\<forall>off n x. v_file r off n = Some x \<longrightarrow> length x = n" "fills (v_inflate r)" "plain_table r off stored n = Some table"
  shows "n \<le> length table"
  using assms(3) assms(2) unfolding plain_table_def fills_def
  by (auto split: if_splits option.splits prod.splits) (metis order_refl snd_conv)

lemma ReadPartitions_total:
  assumes "\<forall>off n x. v_file r off n = Some x \<longrightarrow> length x = n" "unat p * unat e < 2 ^ 32"
  shows "\<exists>x. ReadPartitions r p e off = Some x"
proof (cases "p = 0 \<or> unat e < kPartitionEntrySize \<or> v_file r off (unat (p * e)) = None")
  case False
  then obtain table where table: "v_file r off (unat (p * e)) = Some table" by auto
  moreover have "unat (p * e) = unat p * unat e" using assms(2) by (simp add: unat_word_ariths)
  ultimately have "unat p * unat e \<le> length table" using assms(1) by fastforce
  moreover have "48 \<le> unat e" using False by (simp add: kPartitionEntrySize_def)
  ultimately obtain rs where "partition_regions table e (partition_chunk (mChunkSize r)) (list_count (partition_chunk (mChunkSize r)))
      [0..<unat p] = Some rs"
    using partition_regions_total [of "unat p" e table "[0..<unat p]"] assms(2) by fastforce
  with False table show ?thesis by (simp add: ReadPartitions_def Let_def)
qed (auto simp: ReadPartitions_def)

text \<open>Reading the tables of a file reads nothing outside a buffer, whatever the file says of its groups and
  regions, where the table of partitions has a size of 32 bits and the decompressor fills the room
  it is given: it ends with the tables or refuses the file.\<close>

theorem ReadTables_safe:
  assumes "kDiscSize \<le> length disc" "\<forall>off n x. v_file r off n = Some x \<longrightarrow> length x = n" "fills (v_inflate r)"
    and "\<forall>p e. read32 disc 0x90 = Some p \<longrightarrow> read32 disc 0x94 = Some e \<longrightarrow> unat p * unat e < 2 ^ 32"
  shows "\<exists>opened. ReadTables r disc = Some opened"
proof -
  have in_disc: "\<exists>w. read32 disc k = Some w" if "k + 4 \<le> 0xDC" for k
    using that assms(1) by (auto simp: read32_Some kDiscSize_def)
  have in_disc64: "\<exists>w. read64 disc k = Some w" if "k + 8 \<le> 0xDC" for k
    using that in_disc [of k] in_disc [of "k + 4"] by (auto simp: read64_def)
  obtain header where header: "getn disc 0x10 128 = Some header" using assms(1) by (simp add: getn_def kDiscSize_def)
  obtain w0 w4 wC p e po re ro rz gc go gz where w: "read32 disc 0 = Some w0" "read32 disc 0x04 = Some w4"
    "read32 disc 0x0C = Some wC" "read32 disc 0x90 = Some p" "read32 disc 0x94 = Some e" "read64 disc 0x98 = Some po"
    "read32 disc 0xB4 = Some re" "read64 disc 0xB8 = Some ro" "read32 disc 0xC0 = Some rz" "read32 disc 0xC4 = Some gc"
    "read64 disc 0xC8 = Some go" "read32 disc 0xD0 = Some gz"
    using in_disc [of 0] in_disc [of 4] in_disc [of "0x0C"] in_disc [of "0x90"] in_disc [of "0x94"] in_disc64 [of "0x98"]
      in_disc [of "0xB4"] in_disc64 [of "0xB8"] in_disc [of "0xC0"] in_disc [of "0xC4"] in_disc64 [of "0xC8"] in_disc [of "0xD0"]
    by force
  define q where "q = r\<lparr>v_console := if w0 = 1 then GameCube else Wii, mCompression := w4, mChunkSize := wC, mDiscHeader := header\<rparr>"
  have q: "v_file q = v_file r" "v_inflate q = v_inflate r" "mIsRvz q = mIsRvz r" by (simp_all add: q_def)
  obtain ps where ps: "ReadPartitions q p e po = Some ps"
    using ReadPartitions_total [of q p e po] assms(2,4) w q by auto
  have gs: "\<exists>gs. group_table (mIsRvz q) table (if mIsRvz q then 12 else 8) [0..<unat gc] = Some gs"
    if "plain_table q go gz (unat gc * (if mIsRvz q then 12 else 8)) = Some table" for table
    using plain_table_length [of q go gz _ table] that assms(2,3) q by (intro group_table_total [of "unat gc"]) auto
  have rs: "\<exists>rs. raw_regions wC table [0..<unat re] = Some rs"
    if "(if re = 0 then Some [] else plain_table q ro rz (unat re * kRawDataEntrySize)) = Some table" for table
  proof (cases "re = 0")
    case False
    then show ?thesis using that plain_table_length [of q ro rz _ table] assms(2,3) q
      by (intro raw_regions_total [of "unat re"]) auto
  qed simp
  show ?thesis
    unfolding ReadTables_def
    using gs rs ps
    by (simp only: w header bind.bind_lunit Let_def q_def [symmetric] option.case) (auto split: option.split)
qed

lemma ReadTables_safe_witness: "\<exists>opened. ReadTables two_groups (replicate 0xDC 0) = Some opened"
proof -
  have zero: "read32 (replicate 0xDC 0) 0x90 = Some 0" by (simp add: read32_def rd_def be32_def)
  have "length x = n" if "v_file two_groups off n = Some x" for off n x
    using that memory.read_length by (auto simp: two_groups_def)
  moreover have "fills (v_inflate two_groups)" by (simp add: fills_def two_groups_def)
  ultimately show ?thesis by (intro ReadTables_safe) (simp_all add: kDiscSize_def zero)
qed

lemma partition_regions_empty: "partition_regions [] entry pc lc (i # ids) = None"
  by (simp add: read32_def rd_def Let_def)

text \<open>Where the number of partitions times the size of an entry passes 32 bits the table that is read is too
  short, here empty, and the entries are read from behind it.\<close>

theorem ReadPartitions_wraps:
  assumes "v_file r off 0 = Some []"
  shows "ReadPartitions r 0x10000 0x10000 off = None"
proof -
  have n: "unat (0x10000 :: u32) = Suc 0xFFFF" by simp
  have "(0x10000 * 0x10000 :: u32) = 0" by simp
  then have "unat (0x10000 * 0x10000 :: u32) = 0" by (simp only: unat_0)
  then have "ReadPartitions r 0x10000 0x10000 off = (let pc = partition_chunk (mChunkSize r) in
      do { rs \<leftarrow> partition_regions [] 0x10000 pc (list_count pc) [0..<Suc 0xFFFF]; Some (Some rs) })"
    unfolding ReadPartitions_def n by (simp only: assms option.case kPartitionEntrySize_def) simp
  then show ?thesis by (simp only: upt_conv_Cons [OF zero_less_Suc] partition_regions_empty Let_def bind.bind_lzero)
qed

lemma ReadPartitions_wraps_witness:
  "ReadPartitions two_groups 0x10000 0x10000 0 = None"
  by (rule ReadPartitions_wraps) (simp add: two_groups_def FromMemory_def ReadMemory_def getn_def)

end
