(* ===== verification/Disc_Image.thy ===== *)
theory Disc_Image
  imports Disc_Source File_Tree
begin

text \<open>
  src/format/disc/image.cpp: GameCube and Wii discs. The source and the cipher are the caller's:
  parameters of the image. The last cluster decrypted is the state of a read, apart from the image.
  The outer \<open>None\<close> is a read outside a buffer, the inner one a disc or a file that is refused.
\<close>

definition kWiiMagic :: u32 where "kWiiMagic = 0x5D1C9EA3"
definition kGameCubeMagic :: u32 where "kGameCubeMagic = 0xC2339F3D"
definition kPartitionTableOffset :: u64 where "kPartitionTableOffset = 0x40000"
definition kClusterSize :: nat where "kClusterSize = 0x8000"
definition kClusterHashSize :: nat where "kClusterHashSize = 0x400"
definition kClusterDataSize :: nat where "kClusterDataSize = kClusterSize - kClusterHashSize"

record Cipher =
  cbc_decrypt :: "(bytes \<Rightarrow> bytes \<Rightarrow> bytes \<Rightarrow> bytes) option"
  common_key :: "(u8 \<Rightarrow> bytes option) option"

record Header =
  h_console :: Console
  h_id :: bytes
  h_name :: bytes
  h_disc :: u8
  h_version :: u8
  executable_offset :: u32
  fst_offset :: u32
  fst_size :: u32

record Entry =
  path :: bytes
  directory :: bool
  offset :: u64
  size32 :: u32

record Partition =
  partition_group :: u32
  partition_type :: u32
  partition_offset :: u64

record image =
  mSource :: source
  mCipher :: Cipher
  mPlainPartitions :: bool
  mHeader :: Header
  mPartitions :: "Partition list"
  mFiles :: "Entry list"
  mEncrypted :: bool
  mDataOffset :: u64
  mTitleKey :: bytes

record cluster_cache =
  mCluster :: bytes
  mClusterIndex :: u64

definition no_cluster :: cluster_cache where
  "no_cluster = \<lparr>mCluster = [], mClusterIndex = 0xFFFFFFFFFFFFFFFF\<rparr>"

definition Text :: "bytes \<Rightarrow> nat \<Rightarrow> nat \<Rightarrow> bytes option" where
  "Text data at n = c_string data at n"

section \<open>Reading data\<close>

definition ReadCluster :: "image \<Rightarrow> nat \<Rightarrow> cluster_cache \<Rightarrow> bytes option \<times> cluster_cache" where
  "ReadCluster img cluster cache =
     (if mClusterIndex cache = of_nat cluster \<and> length (mCluster cache) = kClusterDataSize then (Some (mCluster cache), cache)
      else case mSource img (mDataOffset img + of_nat cluster * of_nat kClusterSize) kClusterSize of
          None \<Rightarrow> (None, cache)
        | Some raw \<Rightarrow>
            let hashes = take kClusterHashSize raw; data = drop kClusterHashSize raw;
                out = (case cbc_decrypt (mCipher img) of
                    Some decrypt \<Rightarrow>
                      if mEncrypted img then
                        decrypt (mTitleKey img) (take 16 (drop 0x3D0 (decrypt (mTitleKey img) (replicate 16 0) hashes))) data
                      else data
                  | None \<Rightarrow> data) in
            (Some out, \<lparr>mCluster = out, mClusterIndex = of_nat cluster\<rparr>))"

definition cluster_piece :: "image \<Rightarrow> nat \<Rightarrow> nat \<Rightarrow> nat \<Rightarrow> cluster_cache \<Rightarrow> bytes option \<times> cluster_cache" where
  "cluster_piece img cluster within taken cache =
     (case ReadCluster img cluster cache of
        (None, cache) \<Rightarrow> (None, cache)
      | (Some data, cache) \<Rightarrow> (Some (take taken (drop within data)), cache))"

definition ReadData :: "image \<Rightarrow> u64 \<Rightarrow> nat \<Rightarrow> cluster_cache \<Rightarrow> bytes option \<times> cluster_cache" where
  "ReadData img off n cache =
     (if h_console (mHeader img) = GameCube then (mSource img off n, cache)
      else if mPlainPartitions img then (mSource img (mDataOffset img + off) n, cache)
      else if cbc_decrypt (mCipher img) = None \<and> mEncrypted img then (None, cache)
      else cut_read kClusterDataSize (cluster_piece img) off n cache)"

section \<open>Opening\<close>

text \<open>The entries of one group; nothing where one cannot be read.\<close>

primrec group_entries :: "source \<Rightarrow> u32 \<Rightarrow> u64 \<Rightarrow> nat list \<Rightarrow> Partition list option option" where
  "group_entries source g entries [] = Some (Some [])"
| "group_entries source g entries (i # is) =
     (case source (entries + of_nat (i * 8)) 8 of
        None \<Rightarrow> Some None
      | Some entry \<Rightarrow> do {
          at \<leftarrow> read32 entry 0;
          type \<leftarrow> read32 entry 4;
          rest \<leftarrow> group_entries source g entries is;
          Some (map_option (\<lambda>ps. \<lparr>partition_group = g, partition_type = type,
            partition_offset = push_bit 2 (ucast at)\<rparr> # ps) rest) })"

primrec partition_groups :: "source \<Rightarrow> bytes \<Rightarrow> nat list \<Rightarrow> Partition list option option" where
  "partition_groups source table [] = Some (Some [])"
| "partition_groups source table (g # gs) = do {
     count \<leftarrow> read32 table (g * 8);
     at \<leftarrow> read32 table (g * 8 + 4);
     let entries = push_bit 2 (ucast at) in
     do {
       ps \<leftarrow> (if count = 0 \<or> 32 < count \<or> entries = 0 then Some (Some [])
             else group_entries source (of_nat g) entries [0..<unat count]);
       case ps of
         None \<Rightarrow> Some None
       | Some ps \<Rightarrow> do {
           rest \<leftarrow> partition_groups source table gs;
           Some (map_option (\<lambda>qs. ps @ qs) rest) } } }"

definition header_fields :: "bytes \<Rightarrow> Header \<Rightarrow> Header option" where
  "header_fields head h = do {
     executable \<leftarrow> read32 head 0x420;
     fst_at \<leftarrow> read32 head 0x424;
     fst_len \<leftarrow> read32 head 0x428;
     Some (h\<lparr>executable_offset := executable, fst_offset := fst_at, fst_size := fst_len\<rparr>) }"

text \<open>The key of the game's partition, unwrapped where the caller has the common key.\<close>

definition title_key :: "bytes \<Rightarrow> image \<Rightarrow> image option" where
  "title_key ticket img = do {
     wrapped \<leftarrow> getn ticket 0x1BF 16;
     key_index \<leftarrow> rd ticket 0x1F1;
     title_id \<leftarrow> getn ticket 0x1DC 8;
     Some (case (if mPlainPartitions img then None else cbc_decrypt (mCipher img), common_key (mCipher img)) of
         (Some decrypt, Some key) \<Rightarrow>
           (case key key_index of
              Some common \<Rightarrow> img\<lparr>mTitleKey := decrypt common (title_id @ replicate 8 0) wrapped, mEncrypted := True\<rparr>
            | None \<Rightarrow> img\<lparr>mTitleKey := wrapped\<rparr>)
       | _ \<Rightarrow> img\<lparr>mTitleKey := wrapped\<rparr>) }"

definition OpenGamePartition :: "image \<Rightarrow> cluster_cache \<Rightarrow> (image \<times> cluster_cache) option option" where
  "OpenGamePartition img cache =
     (case mSource img kPartitionTableOffset 0x20 of
        None \<Rightarrow> Some None
      | Some table \<Rightarrow> do {
          ps \<leftarrow> partition_groups (mSource img) table [0..<4];
          case ps of
            None \<Rightarrow> Some None
          | Some ps \<Rightarrow>
              (case List.find (\<lambda>p. partition_type p = 0) ps of
                 None \<Rightarrow> Some None
               | Some game \<Rightarrow>
                   (case mSource img (partition_offset game) 0x2C0 of
                      None \<Rightarrow> Some None
                    | Some ticket \<Rightarrow> do {
                        words \<leftarrow> read32 ticket 0x2B8;
                        img \<leftarrow> title_key ticket
                          (img\<lparr>mPartitions := ps, mDataOffset := partition_offset game + push_bit 2 (ucast words)\<rparr>);
                        let (head, cache) = ReadData img 0 0x460 cache in
                        case head of
                          None \<Rightarrow> Some None
                        | Some head \<Rightarrow> do {
                            h \<leftarrow> header_fields head (mHeader img);
                            Some (Some (img\<lparr>mHeader := h\<rparr>, cache)) } })) })"

definition OpenImage :: "source \<Rightarrow> Cipher \<Rightarrow> bool \<Rightarrow> (image \<times> cluster_cache) option option" where
  "OpenImage source cipher plain =
     (case source 0 0x460 of
        None \<Rightarrow> Some None
      | Some head \<Rightarrow> do {
          wii \<leftarrow> read32 head 0x18;
          gamecube \<leftarrow> read32 head 0x1C;
          if wii \<noteq> kWiiMagic \<and> gamecube \<noteq> kGameCubeMagic then Some None
          else do {
            ident \<leftarrow> Text head 0 6;
            disc \<leftarrow> rd head 6;
            version \<leftarrow> rd head 7;
            name \<leftarrow> Text head 0x20 0x40;
            h \<leftarrow> header_fields head \<lparr>h_console = if wii = kWiiMagic then Wii else GameCube, h_id = ident, h_name = name,
              h_disc = disc, h_version = version, executable_offset = 0, fst_offset = 0, fst_size = 0\<rparr>;
            let img = \<lparr>mSource = source, mCipher = cipher, mPlainPartitions = plain, mHeader = h, mPartitions = [],
              mFiles = [], mEncrypted = False, mDataOffset = 0, mTitleKey = replicate 16 0\<rparr> in
            if h_console h = Wii then OpenGamePartition img no_cluster else Some (Some (img, no_cluster)) } })"

section \<open>Files\<close>

definition fst_entry :: "bool \<Rightarrow> bool \<Rightarrow> bytes \<Rightarrow> u32 \<Rightarrow> u32 \<Rightarrow> Entry option" where
  "fst_entry wii dir name second third =
     Some (if dir then \<lparr>path = name, directory = True, offset = 0, size32 = 0\<rparr>
           else \<lparr>path = name, directory = False, offset = (if wii then push_bit 2 (ucast second) else ucast second),
                 size32 = third\<rparr>)"

text \<open>Where the table is and how long, in bytes.\<close>

definition fst_at :: "image \<Rightarrow> u64" where
  "fst_at img = (if h_console (mHeader img) = Wii then push_bit 2 (ucast (fst_offset (mHeader img)))
     else ucast (fst_offset (mHeader img)))"

definition fst_len :: "image \<Rightarrow> nat" where
  "fst_len img = (if h_console (mHeader img) = Wii then unat (fst_size (mHeader img)) * 4
     else unat (fst_size (mHeader img)))"

definition list_files :: "bool \<Rightarrow> bytes \<Rightarrow> nat \<Rightarrow> Entry list option option" where
  "list_files wii table n =
     (if n < kNodeSize then Some None
      else do {
        count \<leftarrow> read32 table 8;
        let names = unat count * kNodeSize in
        if count = 0 \<or> n < names then Some None
        else tree_nodes (fst_entry wii) table 0 names (n - names) (unat count - 1) 1 ([], []) })"

text \<open>Whether the table was read, the image with its files, and the cluster kept.\<close>

definition ReadFileTable :: "image \<Rightarrow> cluster_cache \<Rightarrow> (bool \<times> image \<times> cluster_cache) option" where
  "ReadFileTable img cache =
     (let img = img\<lparr>mFiles := []\<rparr> in
      if fst_size (mHeader img) = 0 \<or> 16 * 1024 * 1024 < fst_size (mHeader img) then Some (False, img, cache)
      else
        let (table, cache) = ReadData img (fst_at img) (fst_len img) cache in
        case table of
          None \<Rightarrow> Some (False, img, cache)
        | Some table \<Rightarrow> do {
            files \<leftarrow> list_files (h_console (mHeader img) = Wii) table (fst_len img);
            Some (case files of
                None \<Rightarrow> (False, img, cache)
              | Some files \<Rightarrow> (True, img\<lparr>mFiles := files\<rparr>, cache)) })"

definition Find :: "image \<Rightarrow> bytes \<Rightarrow> Entry option" where
  "Find img name = List.find (\<lambda>e. path e = name) (mFiles img)"

definition ReadFile :: "image \<Rightarrow> bytes \<Rightarrow> cluster_cache \<Rightarrow> bytes option \<times> cluster_cache" where
  "ReadFile img name cache =
     (case Find img name of
        None \<Rightarrow> (None, cache)
      | Some e \<Rightarrow>
          if directory e then (None, cache)
          else if size32 e = 0 then (Some [], cache)
          else ReadData img (offset e) (unat (size32 e)) cache)"

text \<open>Where the sections of a DOL end, in 32 bits.\<close>

primrec dol_end :: "bytes \<Rightarrow> nat list \<Rightarrow> u32 \<Rightarrow> u32 option" where
  "dol_end head [] stop = Some stop"
| "dol_end head (section # ss) stop = do {
     at \<leftarrow> read32 head (section * 4);
     n \<leftarrow> read32 head (0x90 + section * 4);
     dol_end head ss (if at \<noteq> 0 \<and> stop < at + n then at + n else stop) }"

definition ReadExecutable :: "image \<Rightarrow> cluster_cache \<Rightarrow> (bytes option \<times> cluster_cache) option" where
  "ReadExecutable img cache =
     (let h = mHeader img;
          off = (if h_console h = Wii then push_bit 2 (ucast (executable_offset h)) else ucast (executable_offset h));
          (head, cache) = ReadData img off 0x100 cache in
      case head of
        None \<Rightarrow> Some (None, cache)
      | Some head \<Rightarrow> do {
          stop \<leftarrow> dol_end head [0..<18] 0;
          if stop = 0 \<or> 64 * 1024 * 1024 < stop then Some (None, cache)
          else Some (ReadData img off (unat stop) cache) })"

section \<open>What a disc holds\<close>

text \<open>The caller's cipher keeps lengths.\<close>

definition decrypts :: "Cipher \<Rightarrow> bool" where
  "decrypts c \<longleftrightarrow> (\<forall>decrypt key iv xs. cbc_decrypt c = Some decrypt \<longrightarrow> length (decrypt key iv xs) = length xs)"

text \<open>A cluster read with nothing kept, and the byte of the game's data at \<open>i\<close>.\<close>

definition cluster :: "image \<Rightarrow> nat \<Rightarrow> bytes option" where
  "cluster img k = fst (ReadCluster img k no_cluster)"

definition cluster_byte :: "image \<Rightarrow> nat \<Rightarrow> u8 option" where
  "cluster_byte img i = do { data \<leftarrow> cluster img (i div kClusterDataSize); rd data (i mod kClusterDataSize) }"

definition data_byte :: "image \<Rightarrow> (nat \<Rightarrow> u8 option) \<Rightarrow> nat \<Rightarrow> u8 option" where
  "data_byte img byte i =
     (if h_console (mHeader img) = GameCube then byte i
      else if mPlainPartitions img then byte (unat (mDataOffset img) + i)
      else if cbc_decrypt (mCipher img) = None \<and> mEncrypted img then None
      else cluster_byte img i)"

definition cluster_ok :: "image \<Rightarrow> cluster_cache \<Rightarrow> bool" where
  "cluster_ok img cache \<longleftrightarrow>
     (length (mCluster cache) = kClusterDataSize \<longrightarrow> cluster img (unat (mClusterIndex cache)) = Some (mCluster cache))"

lemma cluster_ok_none [simp]: "cluster_ok img no_cluster"
  by (simp add: cluster_ok_def no_cluster_def kClusterDataSize_def kClusterSize_def kClusterHashSize_def)

lemma cluster_size: "kClusterDataSize = 31744"
  by (simp add: kClusterDataSize_def kClusterSize_def kClusterHashSize_def)

lemma ReadCluster_miss:
  assumes "\<not> (mClusterIndex cache = of_nat k \<and> length (mCluster cache) = kClusterDataSize)"
    "\<not> (mClusterIndex cache' = of_nat k \<and> length (mCluster cache') = kClusterDataSize)"
  shows "fst (ReadCluster img k cache) = fst (ReadCluster img k cache')"
    "snd (ReadCluster img k cache) = (case fst (ReadCluster img k cache) of None \<Rightarrow> cache
       | Some out \<Rightarrow> \<lparr>mCluster = out, mClusterIndex = of_nat k\<rparr>)"
  using assms unfolding ReadCluster_def Let_def by (auto split: option.split)

lemma ReadCluster_ok:
  assumes cache: "cluster_ok img cache" and k: "k < 2 ^ 64"
  shows "fst (ReadCluster img k cache) = cluster img k" "cluster_ok img (snd (ReadCluster img k cache))"
proof -
  have u: "unat (of_nat k :: u64) = k" using k by (simp add: unat_of_nat take_bit_nat_eq_self)
  have none: "\<not> (mClusterIndex no_cluster = of_nat k \<and> length (mCluster no_cluster) = kClusterDataSize)"
    by (simp add: no_cluster_def cluster_size)
  have "fst (ReadCluster img k cache) = cluster img k \<and> cluster_ok img (snd (ReadCluster img k cache))"
  proof (cases "mClusterIndex cache = of_nat k \<and> length (mCluster cache) = kClusterDataSize")
    case True
    then show ?thesis using cache u by (simp add: ReadCluster_def cluster_ok_def)
  next
    case False
    note miss = ReadCluster_miss [OF False none, of img]
    then show ?thesis using cache u
      by (cases "cluster img k") (simp_all add: cluster_def cluster_ok_def)
  qed
  then show "fst (ReadCluster img k cache) = cluster img k" "cluster_ok img (snd (ReadCluster img k cache))" by simp_all
qed

context disc_source
begin

lemma cluster_length:
  assumes "mSource img = source" "decrypts (mCipher img)" "cluster img k = Some data"
  shows "length data = kClusterDataSize"
proof -
  have "length raw = kClusterSize" if "source off kClusterSize = Some raw" for off raw using that by (rule read_length)
  with assms show ?thesis
    by (auto simp: cluster_def ReadCluster_def decrypts_def Let_def kClusterDataSize_def
        split: option.splits if_splits)
qed

lemma cluster_piece_bytes:
  assumes img: "mSource img = source" "decrypts (mCipher img)" and cache: "cluster_ok img cache"
    and k: "0 < k" "within + k \<le> kClusterDataSize" "n < 2 ^ 64"
  shows "\<exists>cache'. cluster_piece img n within k cache =
      (those (map (cluster_byte img) [n * kClusterDataSize + within..<n * kClusterDataSize + within + k]), cache') \<and>
      cluster_ok img cache'"
proof -
  obtain r cache' where r: "ReadCluster img n cache = (r, cache')" by (cases "ReadCluster img n cache")
  note c = ReadCluster_ok [OF cache k(3), unfolded r fst_conv snd_conv]
  have bytes: "map (cluster_byte img) [n * kClusterDataSize + within..<n * kClusterDataSize + within + k] =
      map (\<lambda>i. do { data \<leftarrow> r; rd data i }) [within..<within + k]"
    using k(2) c(1) by (intro nth_equalityI) (simp_all add: cluster_byte_def add.assoc)
  show ?thesis
  proof (cases r)
    case None
    then have "None \<in> set (map (\<lambda>i. do { data \<leftarrow> r; rd data i }) [within..<within + k])"
      using k(1) by (auto intro!: image_eqI [of _ _ within])
    then show ?thesis using None r c(2) bytes by (simp only: those_None) (simp add: cluster_piece_def)
  next
    case (Some data)
    have size: "length data = kClusterDataSize" using cluster_length [OF img] c(1) Some by simp
    have "those (map (rd data) [within..<within + k]) = Some (take k (drop within data))"
      using those_getn [OF k(1), of data within] k(2) size by (simp add: getn_def)
    then show ?thesis using Some r c(2) bytes by (simp add: cluster_piece_def)
  qed
qed

lemma ReadData_bytes:
  assumes img: "mSource img = source" "decrypts (mCipher img)" and cache: "cluster_ok img cache"
    and n: "0 < n" "unat (mDataOffset img) + unat off + n < 2 ^ 64"
  shows "\<exists>cache'. ReadData img off n cache = (those (map (data_byte img byte) [unat off..<unat off + n]), cache') \<and>
     cluster_ok img cache'"
proof -
  have plain: "source (mDataOffset img + off) n = those (map (\<lambda>i. byte (unat (mDataOffset img) + i)) [unat off..<unat off + n])"
  proof -
    have "unat (mDataOffset img + off) = unat (mDataOffset img) + unat off" using n by (simp add: unat_word_ariths)
    moreover have "map byte [unat (mDataOffset img) + unat off..<unat (mDataOffset img) + unat off + n] =
        map (\<lambda>i. byte (unat (mDataOffset img) + i)) [unat off..<unat off + n]"
      by (rule nth_equalityI) (simp_all add: add.assoc)
    ultimately show ?thesis using read_bytes [of n "mDataOffset img + off"] n by simp
  qed
  have direct: "source off n = those (map byte [unat off..<unat off + n])" using read_bytes [of n off] n by simp
  have none: "those (map (\<lambda>i. None :: u8 option) [unat off..<unat off + n]) = None"
    using n(1) by (intro those_None) (auto intro!: image_eqI [of _ _ "unat off"])
  have small: "m < 2 ^ 64" if "m * kClusterDataSize + within + k < 2 ^ 64" for m within k
  proof -
    have "m \<le> m * kClusterDataSize" by (simp add: cluster_size)
    with that show ?thesis by linarith
  qed
  have "\<exists>cache'. cut_read kClusterDataSize (cluster_piece img) off n cache =
      (those (map (cluster_byte img) [unat off..<unat off + n]), cache') \<and> cluster_ok img cache'"
    using cluster_piece_bytes [OF img] small cache n(2)
    by (intro cut_read_bytes [where P = "cluster_ok img"]) (auto simp: cluster_size)
  then show ?thesis
    using plain direct none cache img(1)
    by (cases "h_console (mHeader img) = GameCube"; cases "mPlainPartitions img";
        cases "cbc_decrypt (mCipher img) = None \<and> mEncrypted img") (auto simp: ReadData_def data_byte_def [abs_def])
qed

end

section \<open>Opening and the table of files stay inside their buffers\<close>

definition image_ok :: "image \<Rightarrow> bool" where
  "image_ok img \<longleftrightarrow> decrypts (mCipher img) \<and> unat (mDataOffset img) < 2 ^ 36"

lemma cluster_ok_header [simp]:
  "cluster_ok (img\<lparr>mHeader := h\<rparr>) = cluster_ok img" "cluster_ok (img\<lparr>mFiles := files\<rparr>) = cluster_ok img"
proof -
  have "ReadCluster (img\<lparr>mHeader := h\<rparr>) = ReadCluster img" "ReadCluster (img\<lparr>mFiles := files\<rparr>) = ReadCluster img"
    by (simp_all add: ReadCluster_def fun_eq_iff Let_def split: option.split)
  then show "cluster_ok (img\<lparr>mHeader := h\<rparr>) = cluster_ok img" "cluster_ok (img\<lparr>mFiles := files\<rparr>) = cluster_ok img"
    by (simp_all add: cluster_ok_def cluster_def fun_eq_iff)
qed

lemma Text_total: "at + n \<le> length data \<Longrightarrow> \<exists>s. Text data at n = Some s"
  by (simp add: Text_def c_string_total)

lemma header_fields_total:
  "length head = 0x460 \<Longrightarrow> \<exists>a b c. header_fields head h = Some (h\<lparr>executable_offset := a, fst_offset := b, fst_size := c\<rparr>)"
  by (auto simp: header_fields_def read32_Some)

lemma unat_words: "unat (push_bit 2 (ucast (w :: u32)) :: u64) = unat w * 4"
proof -
  have "unat (ucast w :: u64) = unat w" by (simp add: unat_ucast_up)
  then show ?thesis using unat_push_bit_small [of "ucast w :: u64" 2] unat_u32 [of w] by simp
qed

lemma title_key_total:
  assumes "length ticket = 0x2C0"
  shows "\<exists>img'. title_key ticket img = Some img' \<and> mSource img' = mSource img \<and> mCipher img' = mCipher img \<and>
     mDataOffset img' = mDataOffset img \<and> mHeader img' = mHeader img"
  using assms by (auto simp: title_key_def getn_Some rd_Some split: option.split)

context disc_source
begin

lemma ReadData_total:
  assumes "mSource img = source" "image_ok img" "cluster_ok img cache" "0 < n" "unat off + n < 2 ^ 40"
  shows "\<exists>r cache'. ReadData img off n cache = (r, cache') \<and> cluster_ok img cache' \<and> (\<forall>x. r = Some x \<longrightarrow> length x = n)"
proof -
  have "unat (mDataOffset img) + unat off + n < 2 ^ 64" using assms(2,5) by (simp add: image_ok_def)
  with ReadData_bytes [OF assms(1) _ assms(3,4) this] assms(2) those_length show ?thesis
    by (fastforce simp: image_ok_def)
qed

lemma group_entries_total:
  "\<exists>r. group_entries source g entries ids = Some r \<and> (\<forall>ps p. r = Some ps \<and> p \<in> set ps \<longrightarrow> unat (partition_offset p) < 2 ^ 34)"
proof (induction ids)
  case (Cons i ids)
  then obtain r where r: "group_entries source g entries ids = Some r"
    "\<And>ps p. r = Some ps \<Longrightarrow> p \<in> set ps \<Longrightarrow> unat (partition_offset p) < 2 ^ 34" by blast
  show ?case
  proof (cases "source (entries + of_nat (i * 8)) 8")
    case (Some entry)
    then have "length entry = 8" by (rule read_length)
    moreover have "unat w * 4 < 2 ^ 34" for w :: u32 using unat_u32 [of w] by simp
    ultimately show ?thesis using Some r by (cases r) (auto simp: read32_Some unat_words simp del: of_nat_mult)
  qed simp
qed simp

lemma partition_groups_total:
  assumes "length table = 0x20" "\<forall>g \<in> set gs. g < 4"
  shows "\<exists>r. partition_groups source table gs = Some r \<and> (\<forall>ps p. r = Some ps \<and> p \<in> set ps \<longrightarrow> unat (partition_offset p) < 2 ^ 34)"
  using assms(2)
proof (induction gs)
  case (Cons g gs)
  then obtain r where r: "partition_groups source table gs = Some r"
    "\<And>ps p. r = Some ps \<Longrightarrow> p \<in> set ps \<Longrightarrow> unat (partition_offset p) < 2 ^ 34" by fastforce
  have room: "g * 8 + 4 + 4 \<le> length table" using Cons.prems assms(1) by auto
  obtain count at where f: "read32 table (g * 8) = Some count" "read32 table (g * 8 + 4) = Some at"
    using room by (simp add: read32_Some)
  have "\<exists>q. (if count = 0 \<or> 32 < count \<or> push_bit 2 (ucast at :: u64) = 0 then Some (Some [])
      else group_entries source (of_nat g) (push_bit 2 (ucast at)) [0..<unat count]) = Some q \<and>
      (\<forall>ps p. q = Some ps \<and> p \<in> set ps \<longrightarrow> unat (partition_offset p) < 2 ^ 34)"
    by (cases "count = 0 \<or> 32 < count \<or> push_bit 2 (ucast at :: u64) = 0")
       (simp_all only: if_True if_False group_entries_total, simp)
  then obtain q where q: "(if count = 0 \<or> 32 < count \<or> push_bit 2 (ucast at :: u64) = 0 then Some (Some [])
      else group_entries source (of_nat g) (push_bit 2 (ucast at)) [0..<unat count]) = Some q"
    "\<And>ps p. q = Some ps \<Longrightarrow> p \<in> set ps \<Longrightarrow> unat (partition_offset p) < 2 ^ 34"
    by blast
  show ?case
  proof (cases q)
    case None
    then show ?thesis using f q(1) by (simp add: Let_def)
  next
    case (Some ps)
    then show ?thesis using f q r by (cases r) (auto simp: Let_def)
  qed
qed simp

lemma OpenGamePartition_total:
  assumes "mSource img = source" "decrypts (mCipher img)"
  shows "\<exists>r. OpenGamePartition img no_cluster = Some r \<and>
     (\<forall>img' cache. r = Some (img', cache) \<longrightarrow> image_ok img' \<and> cluster_ok img' cache \<and> mSource img' = source)"
proof (cases "source kPartitionTableOffset 0x20")
  case None
  with assms show ?thesis by (simp add: OpenGamePartition_def)
next
  case (Some table)
  then have "length table = 0x20" by (rule read_length)
  then obtain q where q: "partition_groups source table [0..<4] = Some q"
    "\<And>ps p. q = Some ps \<Longrightarrow> p \<in> set ps \<Longrightarrow> unat (partition_offset p) < 2 ^ 34"
    using partition_groups_total [of table "[0..<4]"] by auto
  show ?thesis
  proof (cases "\<exists>ps game ticket. q = Some ps \<and> List.find (\<lambda>p. partition_type p = 0) ps = Some game \<and>
      source (partition_offset game) 0x2C0 = Some ticket")
    case False
    then show ?thesis using assms Some q(1)
      by (auto simp: OpenGamePartition_def split: option.split)
  next
    case True
    then obtain ps game ticket where g: "q = Some ps" "List.find (\<lambda>p. partition_type p = 0) ps = Some game"
      "source (partition_offset game) 0x2C0 = Some ticket" by blast
    then have "length ticket = 0x2C0" using read_length by blast
    moreover from this obtain words where w: "read32 ticket 0x2B8 = Some words" by (simp add: read32_Some)
    ultimately obtain img1 where img1: "title_key ticket (img\<lparr>mPartitions := ps,
        mDataOffset := partition_offset game + push_bit 2 (ucast words)\<rparr>) = Some img1"
      "mSource img1 = source" "mCipher img1 = mCipher img"
      "mDataOffset img1 = partition_offset game + push_bit 2 (ucast words)" "mHeader img1 = mHeader img"
      using title_key_total [of ticket "img\<lparr>mPartitions := ps, mDataOffset := partition_offset game + push_bit 2 (ucast words)\<rparr>"]
        assms(1) by auto
    have "game \<in> set ps" using g(2) by (auto simp: find_Some_iff)
    then have "unat (partition_offset game) < 2 ^ 34" using q(2) g(1) by blast
    moreover have "unat (push_bit 2 (ucast words) :: u64) < 2 ^ 34" using unat_u32 [of words] by (simp add: unat_words)
    ultimately have "unat (mDataOffset img1) < 2 ^ 36" unfolding img1(4) by (simp add: unat_word_ariths)
    then have ok: "image_ok img1" using assms(2) img1(3) by (simp add: image_ok_def)
    from ReadData_total [OF img1(2) ok cluster_ok_none, of "0x460" 0] obtain r cache where
      r: "ReadData img1 0 0x460 no_cluster = (r, cache)" "cluster_ok img1 cache" "\<And>x. r = Some x \<Longrightarrow> length x = 0x460"
      by auto
    show ?thesis
    proof (cases r)
      case None
      then show ?thesis using assms Some q(1) g w img1(1) r(1) by (simp add: OpenGamePartition_def)
    next
      case head: (Some head)
      obtain a b c where "header_fields head (mHeader img1) =
          Some ((mHeader img1)\<lparr>executable_offset := a, fst_offset := b, fst_size := c\<rparr>)"
        using header_fields_total r(3) [OF head] by blast
      then show ?thesis using assms Some q(1) g w img1 r head ok
        by (simp add: OpenGamePartition_def image_ok_def)
    qed
  qed
qed

lemma OpenImage_total:
  assumes "decrypts cipher"
  shows "\<exists>r. OpenImage source cipher plain = Some r \<and>
     (\<forall>img cache. r = Some (img, cache) \<longrightarrow> image_ok img \<and> cluster_ok img cache \<and> mSource img = source)"
proof (cases "source 0 0x460")
  case None
  then show ?thesis by (simp add: OpenImage_def)
next
  case (Some head)
  then have len: "length head = 0x460" by (rule read_length)
  obtain wii gamecube where w: "read32 head 0x18 = Some wii" "read32 head 0x1C = Some gamecube"
    using len by (simp add: read32_Some)
  obtain ident name where t: "Text head 0 6 = Some ident" "Text head 0x20 0x40 = Some name"
    using Text_total [of 0 6 head] Text_total [of "0x20" "0x40" head] len by auto
  obtain disc version where d: "rd head 6 = Some disc" "rd head 7 = Some version" using len by (simp add: rd_Some)
  define con where "con = (if wii = kWiiMagic then Wii else GameCube)"
  let ?h = "\<lparr>h_console = con, h_id = ident, h_name = name,
     h_disc = disc, h_version = version, executable_offset = 0, fst_offset = 0, fst_size = 0\<rparr>"
  obtain a b c where h: "header_fields head ?h = Some (?h\<lparr>executable_offset := a, fst_offset := b, fst_size := c\<rparr>)"
    using header_fields_total [OF len] by blast
  let ?img = "\<lparr>mSource = source, mCipher = cipher, mPlainPartitions = plain,
     mHeader = ?h\<lparr>executable_offset := a, fst_offset := b, fst_size := c\<rparr>, mPartitions = [],
     mFiles = [], mEncrypted = False, mDataOffset = 0, mTitleKey = replicate 16 0\<rparr>"
  have open_: "OpenImage source cipher plain = (if wii \<noteq> kWiiMagic \<and> gamecube \<noteq> kGameCubeMagic then Some None
     else if con = Wii then OpenGamePartition ?img no_cluster else Some (Some (?img, no_cluster)))"
    by (simp only: OpenImage_def Some option.case w t d bind.bind_lunit con_def [symmetric] h Let_def) simp
  show ?thesis
    using OpenGamePartition_total [of ?img] assms unfolding open_ by (auto simp: image_ok_def)
qed

lemma fst_room:
  assumes "fst_size (mHeader img) \<noteq> 0" "fst_size (mHeader img) \<le> 16 * 1024 * 1024"
  shows "0 < fst_len img" "unat (fst_at img) + fst_len img < 2 ^ 40"
proof -
  have "0 < unat (fst_size (mHeader img))" "unat (fst_size (mHeader img)) \<le> 16777216"
    using assms by (simp_all add: unat_gt_0 word_le_nat_alt)
  then show "0 < fst_len img" "unat (fst_at img) + fst_len img < 2 ^ 40"
    using unat_u32 [of "fst_offset (mHeader img)"] by (simp_all add: fst_at_def fst_len_def unat_words unat_ucast_up)
qed

lemma list_files_total:
  assumes "length table = n"
  shows "\<exists>r. list_files wii table n = Some r"
proof (cases "n < kNodeSize")
  case True
  then show ?thesis by (simp add: list_files_def)
next
  case False
  then obtain count where count: "read32 table 8 = Some count" using assms by (simp add: kNodeSize_def read32_Some)
  let ?names = "unat count * kNodeSize"
  show ?thesis
  proof (cases "count = 0 \<or> n < ?names")
    case True
    then show ?thesis using count False by (auto simp: list_files_def Let_def)
  next
    case fits: False
    then have c: "1 \<le> unat count" "?names \<le> length table" using assms by (auto simp: Suc_le_eq unat_gt_0)
    then have "0 + (unat (1 :: u32) + (unat count - 1)) * kNodeSize \<le> length table" by simp
    moreover have "?names + (n - ?names) \<le> length table" using fits assms by simp
    ultimately obtain files where
      "tree_nodes (fst_entry wii) table 0 ?names (n - ?names) (unat count - 1) 1 ([], []) = Some files"
      using tree_nodes_total [of 0 1 "unat count - 1" table ?names "n - ?names" "fst_entry wii" "\<lambda>_. True" "([], [])"]
        unat_u32 [of count] c(1) by auto
    then show ?thesis using count False fits by (simp add: list_files_def Let_def)
  qed
qed

lemma ReadFileTable_total:
  assumes "mSource img = source" "image_ok img" "cluster_ok img cache"
  shows "\<exists>r img' cache'. ReadFileTable img cache = Some (r, img', cache') \<and> image_ok img' \<and> cluster_ok img' cache' \<and>
     mSource img' = source"
proof -
  let ?img = "img\<lparr>mFiles := []\<rparr>"
  have ok: "image_ok (img\<lparr>mFiles := files\<rparr>)" for files using assms(2) by (simp add: image_ok_def)
  show ?thesis
  proof (cases "fst_size (mHeader img) = 0 \<or> 16 * 1024 * 1024 < fst_size (mHeader img)")
    case True
    then show ?thesis using assms ok by (intro exI [of _ False]) (simp add: ReadFileTable_def Let_def)
  next
    case False
    then have len: "0 < fst_len ?img" "unat (fst_at ?img) + fst_len ?img < 2 ^ 40" using fst_room [of ?img] by (simp_all add: not_less)
    obtain r cache' where r: "ReadData ?img (fst_at ?img) (fst_len ?img) cache = (r, cache')" "cluster_ok ?img cache'"
      "\<And>x. r = Some x \<Longrightarrow> length x = fst_len ?img"
      using ReadData_total [of ?img cache "fst_len ?img" "fst_at ?img"] assms ok len by auto
    show ?thesis
    proof (cases r)
      case None
      then show ?thesis using False r assms ok by (intro exI [of _ False]) (simp add: ReadFileTable_def Let_def)
    next
      case (Some table)
      obtain files where "list_files (h_console (mHeader img) = Wii) table (fst_len ?img) = Some files"
        using list_files_total [OF r(3) [OF Some]] by blast
      then show ?thesis using False r(1,2) assms(1) ok Some by (cases files) (auto simp: ReadFileTable_def Let_def)
    qed
  qed
qed

text \<open>Where nothing is encrypted the clusters are the disc's, their blocks of hashes left out.\<close>

lemma cluster_byte_plain:
  assumes "mSource img = source" "\<not> mEncrypted img" "unat (mDataOffset img) < 2 ^ 36" "i < 2 ^ 40"
  shows "cluster img (i div kClusterDataSize) = None \<or>
     cluster_byte img i = byte (unat (mDataOffset img) + i div kClusterDataSize * kClusterSize + kClusterHashSize + i mod kClusterDataSize)"
proof (cases "cluster img (i div kClusterDataSize)")
  case (Some data)
  let ?k = "i div kClusterDataSize" and ?w = "i mod kClusterDataSize"
  let ?off = "mDataOffset img + of_nat ?k * of_nat kClusterSize"
  have k: "?k * kClusterSize < 2 ^ 56"
  proof -
    have "?k \<le> 2 ^ 40" using div_le_dividend [of i kClusterDataSize] assms(4) by linarith
    then have "?k * kClusterSize \<le> 2 ^ 40 * 0x8000" by (intro mult_le_mono) (simp_all add: kClusterSize_def)
    then show ?thesis by simp
  qed
  then have far: "unat (mDataOffset img) + ?k * kClusterSize + kClusterSize < 2 ^ 64" using assms(3) by (simp add: kClusterSize_def)
  then have off: "unat ?off = unat (mDataOffset img) + ?k * kClusterSize"
    using unat_offset [of "mDataOffset img" "?k * kClusterSize"] by simp
  obtain raw where raw: "source ?off kClusterSize = Some raw" "data = drop kClusterHashSize raw"
    using Some assms(1,2) by (auto simp: cluster_def ReadCluster_def no_cluster_def cluster_size Let_def split: option.splits)
  have "0 < kClusterSize" by (simp add: kClusterSize_def)
  then have all: "those (map byte [unat ?off..<unat ?off + kClusterSize]) = Some raw"
    using raw(1) read_bytes [of kClusterSize ?off] far off by simp
  have nth: "those xs = Some ys \<Longrightarrow> j < length xs \<Longrightarrow> xs ! j = Some (ys ! j)" for xs :: "u8 option list" and ys j
    by (induction xs arbitrary: ys j) (auto split: option.splits simp: nth_Cons')
  have w: "kClusterHashSize + ?w < kClusterSize" by (simp add: cluster_size kClusterHashSize_def kClusterSize_def)
  from nth [OF all, of "kClusterHashSize + ?w"] w
  have "byte (unat ?off + (kClusterHashSize + ?w)) = Some (raw ! (kClusterHashSize + ?w))" by simp
  moreover have "length raw = kClusterSize" using raw(1) by (rule read_length)
  ultimately have "rd data ?w = byte (unat ?off + (kClusterHashSize + ?w))" using raw(2) w by (simp add: rd_def)
  then show ?thesis using Some off by (simp add: cluster_byte_def add.assoc)
qed simp

end

text \<open>C29: Opening a disc and reading its table of files never reads outside a buffer, whatever the bytes of the
  source: an image that opens holds its invariant, and the table is read or refused.\<close>

theorem disc_safe:
  assumes "disc_source source byte" "decrypts cipher"
  shows "\<exists>r. OpenImage source cipher plain = Some r \<and> (\<forall>img cache. r = Some (img, cache) \<longrightarrow>
     image_ok img \<and> cluster_ok img cache \<and>
     (\<exists>ok img' cache'. ReadFileTable img cache = Some (ok, img', cache') \<and> image_ok img' \<and> cluster_ok img' cache'))"
  using disc_source.OpenImage_total [OF assms] disc_source.ReadFileTable_total [OF assms(1)] by metis

text \<open>C30: A file of a disc is its bytes: whatever cluster is kept from an earlier read, reading a file by its path
  gives the bytes of the game's data at the entry's place, all of them or nothing, and what is kept
  after it is again the cluster of its number.\<close>

theorem ReadFile_bytes:
  assumes "disc_source source byte" "mSource img = source" "image_ok img" "cluster_ok img cache"
    and "Find img name = Some e" "unat (offset e) < 2 ^ 36"
  shows "fst (ReadFile img name cache) =
       (if directory e then None
        else those (map (data_byte img byte) [unat (offset e)..<unat (offset e) + unat (size32 e)])) \<and>
     cluster_ok img (snd (ReadFile img name cache))"
proof (cases "directory e \<or> size32 e = 0")
  case True
  then show ?thesis using assms by (auto simp: ReadFile_def)
next
  case False
  then have "0 < unat (size32 e)" by (simp add: unat_gt_0)
  moreover have "unat (mDataOffset img) + unat (offset e) + unat (size32 e) < 2 ^ 64"
    using assms(3,6) unat_u32 [of "size32 e"] by (simp add: image_ok_def)
  ultimately show ?thesis
    using disc_source.ReadData_bytes [OF assms(1,2) _ assms(4), of "unat (size32 e)" "offset e"] assms(3,5) False
    by (auto simp: ReadFile_def image_ok_def)
qed

definition fst_listed :: "bool \<Rightarrow> bytes \<Rightarrow> (u32 \<times> u32) option \<Rightarrow> Entry" where
  "fst_listed wii name x = (case x of
     None \<Rightarrow> \<lparr>path = name, directory = True, offset = 0, size32 = 0\<rparr>
   | Some (f, n) \<Rightarrow> \<lparr>path = name, directory = False, offset = of_nat (if wii then unat f * 4 else unat f), size32 = n\<rparr>)"

lemma fst_keeps: "keeps (fst_entry wii) (fst_listed wii) (\<lambda>_ _. True)"
proof -
  have "push_bit 2 (ucast f :: u64) = of_nat (unat f * 4)" for f :: u32
  proof -
    have "unat (of_nat (unat f * 4) :: u64) = unat f * 4"
      using unat_u32 [of f] by (simp only: unat_of_nat) (simp add: take_bit_nat_eq_self)
    then show ?thesis using unat_words [of f] by (simp only: word_unat_eq_iff)
  qed
  then show ?thesis by (simp add: keeps_def fst_entry_def fst_listed_def del: of_nat_mult)
qed

text \<open>C31: Reading a table that describes a tree of files and folders lists exactly that tree, each folder in
  front of what is in it and every entry under its whole path; on a Wii disc with the places in the
  table's units of four bytes.\<close>

theorem ReadFileTable_lists:
  assumes "ReadData (img\<lparr>mFiles := []\<rparr>) (fst_at img) (fst_len img) cache = (Some table, cache')"
    and "fst_size (mHeader img) \<noteq> 0" "fst_size (mHeader img) \<le> 16 * 1024 * 1024"
    and "read32 table 8 = Some count" "unat count * kNodeSize \<le> fst_len img" "unat count = 1 + node_total items"
    and "stored (u8_row table 0 (unat count * kNodeSize) (fst_len img - unat count * kNodeSize)) (\<lambda>_ _. True) 1 items"
  shows "ReadFileTable img cache =
     Some (True, img\<lparr>mFiles := tree_listing (fst_listed (h_console (mHeader img) = Wii)) [] items\<rparr>, cache')"
proof -
  let ?wii = "h_console (mHeader img) = Wii" and ?names = "unat count * kNodeSize"
  have count: "count \<noteq> 0" "unat count - 1 = node_total items" using assms(6) by auto
  have "?names = kNodeSize + node_total items * kNodeSize" unfolding assms(6) by simp
  then have room: "kNodeSize \<le> fst_len img" using assms(5) by linarith
  have bound: "1 + node_total items < 2 ^ 32" using unat_u32 [of count] unfolding assms(6) by simp
  obtain S' where "tree_nodes (fst_entry ?wii) table 0 ?names (fst_len img - ?names) (node_total items + 0) (of_nat 1) ([], []) =
     tree_nodes (fst_entry ?wii) table 0 ?names (fst_len img - ?names) 0
      (of_nat (1 + node_total items)) (S', [] @ tree_listing (fst_listed ?wii) (u8_prefix []) items)"
    using tree_walk [OF fst_keeps assms(7), of "[]" "[]" ?wii 0 "[]"] bound by fastforce
  then have "list_files ?wii table (fst_len img) = Some (Some (tree_listing (fst_listed ?wii) [] items))"
    using count assms(4,5) room by (simp add: list_files_def u8_prefix_def not_less Let_def)
  moreover have "fst_at (img\<lparr>mFiles := []\<rparr>) = fst_at img" "fst_len (img\<lparr>mFiles := []\<rparr>) = fst_len img"
    by (simp_all add: fst_at_def fst_len_def)
  ultimately show ?thesis using assms(1-3) by (simp add: ReadFileTable_def Let_def not_less)
qed

section \<open>A disc\<close>

text \<open>A GameCube disc of one file.\<close>

definition small_head :: bytes where
  "small_head = replicate 0x1C 0 @ [0xC2, 0x33, 0x9F, 0x3D] @ replicate 0x404 0 @ [0, 0, 4, 0x60, 0, 0, 0, 26] @ replicate 0x34 0"

definition small_table :: bytes where
  "small_table = [1, 0, 0, 0, 0, 0, 0, 0, 0, 0, 0, 2, 0, 0, 0, 0, 0, 0, 0, 8, 0, 0, 0, 4, 0x61, 0]"

definition small_disc :: source where
  "small_disc = FromMemory (small_head @ small_table)"

definition no_cipher :: Cipher where
  "no_cipher = \<lparr>cbc_decrypt = None, common_key = None\<rparr>"

definition small_image :: image where
  "small_image = \<lparr>mSource = small_disc, mCipher = no_cipher, mPlainPartitions = False,
     mHeader = \<lparr>h_console = GameCube, h_id = [], h_name = [], h_disc = 0, h_version = 0, executable_offset = 0,
       fst_offset = 0x460, fst_size = 26\<rparr>,
     mPartitions = [], mFiles = [], mEncrypted = False, mDataOffset = 0, mTitleKey = replicate 16 0\<rparr>"

lemma small_reads:
  "small_disc 0 0x460 = Some small_head" "small_disc 0x460 26 = Some small_table"
  by (simp_all add: small_disc_def FromMemory_getn getn_def small_head_def small_table_def)

lemma small_fields:
  "rd small_head 0 = Some 0" "rd small_head 6 = Some 0" "rd small_head 7 = Some 0" "rd small_head 32 = Some 0"
  "read32 small_head 24 = Some 0" "read32 small_head 28 = Some 0xC2339F3D" "read32 small_head 1056 = Some 0"
  "read32 small_head 1060 = Some 0x460" "read32 small_head 1064 = Some 26"
  by (simp_all add: small_head_def read32_def rd_def be32_def nth_append)

lemma small_opens: "OpenImage small_disc no_cipher False = Some (Some (small_image, no_cluster))"
proof -
  have "Text small_head 0 6 = Some []" "Text small_head 0x20 0x40 = Some []"
    using small_fields by (simp_all add: Text_def)
  then show ?thesis using small_reads(1) small_fields
    by (simp add: OpenImage_def header_fields_def kWiiMagic_def kGameCubeMagic_def small_image_def)
qed

lemma small_decrypts: "decrypts no_cipher"
  by (simp add: decrypts_def no_cipher_def)

lemma disc_safe_witness:
  "\<exists>ok img' cache'. ReadFileTable small_image no_cluster = Some (ok, img', cache') \<and> image_ok img'"
proof -
  have "disc_source small_disc (rd (small_head @ small_table))"
    unfolding small_disc_def by (rule memory.disc_source_axioms)
  from disc_safe [OF this small_decrypts, of False] small_opens show ?thesis by auto
qed

lemma ReadFileTable_lists_witness:
  "ReadFileTable small_image no_cluster = Some (True,
     small_image\<lparr>mFiles := [\<lparr>path = [0x61], directory = False, offset = 8, size32 = 4\<rparr>]\<rparr>, no_cluster)"
proof -
  have img: "fst_at small_image = 0x460" "fst_len small_image = 26" "fst_size (mHeader small_image) = 26"
    "h_console (mHeader small_image) = GameCube"
    by (simp_all add: small_image_def fst_at_def fst_len_def)
  have read: "ReadData (small_image\<lparr>mFiles := []\<rparr>) (fst_at small_image) (fst_len small_image) no_cluster = (Some small_table, no_cluster)"
    using small_reads(2) img by (simp add: ReadData_def small_image_def)
  have count: "read32 small_table 8 = Some 2" by (simp add: small_table_def read32_def rd_def be32_def)
  have "rd small_table 12 = Some 0" "read32 small_table 12 = Some 0" "read32 small_table 16 = Some 8" "read32 small_table 20 = Some 4"
    "name_at small_table 24 2 0 = Some [0x61]"
    by (simp_all add: small_table_def read32_def rd_def be32_def name_at_def)
  then have rows: "stored (u8_row small_table 0 24 2) (\<lambda>_ _. True) 1 [File [0x61] 8 4]"
    by (simp add: u8_row_def kNodeSize_def)
  show ?thesis
    using ReadFileTable_lists [OF read _ _ count, of "[File [0x61] 8 4]"] rows img
    by (simp add: kNodeSize_def fst_listed_def word_le_nat_alt)
qed

lemma ReadFile_bytes_witness:
  "fst (ReadFile (small_image\<lparr>mFiles := [\<lparr>path = [0x61], directory = False, offset = 0x1C, size32 = 4\<rparr>]\<rparr>) [0x61] no_cluster) =
     Some [0xC2, 0x33, 0x9F, 0x3D]"
proof -
  let ?img = "small_image\<lparr>mFiles := [\<lparr>path = [0x61], directory = False, offset = 0x1C, size32 = 4\<rparr>]\<rparr>"
  let ?e = "\<lparr>path = [0x61], directory = False, offset = 0x1C, size32 = 4\<rparr>"
  have "disc_source small_disc (rd (small_head @ small_table))"
    unfolding small_disc_def by (rule memory.disc_source_axioms)
  moreover have "mSource ?img = small_disc" "image_ok ?img" "Find ?img [0x61] = Some ?e"
    using small_decrypts by (simp_all add: small_image_def image_ok_def Find_def)
  ultimately have "fst (ReadFile ?img [0x61] no_cluster) = those (map (data_byte ?img (rd (small_head @ small_table))) [28..<32])"
    using ReadFile_bytes [of small_disc "rd (small_head @ small_table)" ?img no_cluster "[0x61]" ?e] by simp
  also have "data_byte ?img (rd (small_head @ small_table)) = rd (small_head @ small_table)"
    by (simp add: data_byte_def fun_eq_iff small_image_def)
  also have "those (map (rd (small_head @ small_table)) [28..<32]) = getn (small_head @ small_table) 28 4"
    using those_getn [of 4 "small_head @ small_table" 28] by simp
  finally show ?thesis by (simp add: getn_def small_head_def)
qed

section \<open>The size of an executable\<close>

lemma dol_end_max:
  assumes "dol_end head ss stop = Some e"
    and "\<And>s at n. s \<in> set ss \<Longrightarrow> read32 head (s * 4) = Some at \<Longrightarrow> read32 head (0x90 + s * 4) = Some n \<Longrightarrow> unat at + unat n < 2 ^ 32"
  shows "stop \<le> e \<and> (\<forall>s \<in> set ss. \<exists>at n. read32 head (s * 4) = Some at \<and> read32 head (0x90 + s * 4) = Some n \<and>
     (at \<noteq> 0 \<longrightarrow> unat at + unat n \<le> unat e))"
  using assms
proof (induction ss arbitrary: stop)
  case (Cons s ss)
  then obtain at n where f: "read32 head (s * 4) = Some at" "read32 head (0x90 + s * 4) = Some n"
    "dol_end head ss (if at \<noteq> 0 \<and> stop < at + n then at + n else stop) = Some e"
    by (auto split: Option.bind_splits)
  then have "unat (at + n) = unat at + unat n" using Cons.prems(2) [of s at n] by (simp add: unat_word_ariths)
  with Cons.IH [OF f(3)] Cons.prems(2) f(1,2) show ?case
    by (fastforce simp: word_le_nat_alt word_less_nat_alt split: if_splits)
qed simp

definition wrapped_dol :: bytes where
  "wrapped_dol = [0, 0, 1, 0] @ replicate 0x8C 0 @ [0xFF, 0xFF, 0xFF, 0xF0] @ replicate 0x6C 0"

text \<open>The size of an executable covers every section of it, as long as no section's place and size add up to
  4 GB.\<close>

theorem dol_end_sections:
  assumes "dol_end head [0..<18] 0 = Some stop"
    and "\<forall>s < 18. \<forall>at n. read32 head (s * 4) = Some at \<and> read32 head (0x90 + s * 4) = Some n \<longrightarrow> unat at + unat n < 2 ^ 32"
  shows "\<forall>s < 18. \<exists>at n. read32 head (s * 4) = Some at \<and> read32 head (0x90 + s * 4) = Some n \<and>
     (at \<noteq> 0 \<longrightarrow> unat at + unat n \<le> unat stop)"
  using dol_end_max [OF assms(1)] assms(2) by auto

lemma dol_end_zero:
  assumes "\<forall>s \<in> set ss. read32 head (s * 4) = Some 0 \<and> (\<exists>n. read32 head (0x90 + s * 4) = Some n)"
  shows "dol_end head ss stop = Some stop"
  using assms by (induction ss) auto

lemma wrapped_dol_words:
  "read32 wrapped_dol 0 = Some 0x100" "read32 wrapped_dol 0x90 = Some 0xFFFFFFF0"
  "s \<in> {1..<18} \<Longrightarrow> read32 wrapped_dol (s * 4) = Some 0 \<and> read32 wrapped_dol (0x90 + s * 4) = Some 0"
proof -
  show "read32 wrapped_dol 0 = Some 0x100" "read32 wrapped_dol 0x90 = Some 0xFFFFFFF0"
    by (simp_all add: wrapped_dol_def read32_def rd_def nth_append be32_def)
  have zero: "rd wrapped_dol k = Some 0" if "4 \<le> k" "k < 0x90 \<or> 0x94 \<le> k" "k < 0x100" for k
  proof (cases "k < 0x90")
    case True
    with that show ?thesis by (auto simp: wrapped_dol_def rd_def nth_append nth_Cons')
  next
    case False
    with that show ?thesis by (auto simp: wrapped_dol_def rd_def nth_append nth_Cons')
  qed
  show "s \<in> {1..<18} \<Longrightarrow> read32 wrapped_dol (s * 4) = Some 0 \<and> read32 wrapped_dol (0x90 + s * 4) = Some 0"
    by (simp add: read32_def zero be32_def)
qed

lemma dol_end_sections_witness:
  "\<exists>at n. read32 (replicate 0x100 0) (17 * 4) = Some at \<and> read32 (replicate 0x100 0) (0x90 + 17 * 4) = Some n \<and>
     (at \<noteq> 0 \<longrightarrow> unat at + unat n \<le> unat (0 :: u32))"
proof -
  have z: "read32 (replicate 0x100 0) (s * 4) = Some 0 \<and> read32 (replicate 0x100 0) (0x90 + s * 4) = Some 0"
    if "s < 18" for s using that by (simp add: read32_def rd_def be32_def)
  have "dol_end (replicate 0x100 0) [0..<18] 0 = Some 0" using z by (intro dol_end_zero) auto
  from dol_end_sections [OF this] z have "\<forall>s < 18. \<exists>at n. read32 (replicate 0x100 0) (s * 4) = Some at \<and>
      read32 (replicate 0x100 0) (0x90 + s * 4) = Some n \<and> (at \<noteq> 0 \<longrightarrow> unat at + unat n \<le> unat (0 :: u32))"
    by auto
  from spec [OF this, of 17] show ?thesis by simp
qed

text \<open>Where a section's place and size add up to 4 GB the sum wraps: an executable whose one section is said
  to be almost 4 GB long passes the limit of 64 MB and is taken to be 240 bytes.\<close>

theorem dol_end_wraps: "dol_end wrapped_dol [0..<18] 0 = Some 0xF0"
proof -
  have "dol_end wrapped_dol [1..<18] 0xF0 = Some 0xF0"
    using wrapped_dol_words(3) by (intro dol_end_zero) auto
  moreover have "[0..<18] = 0 # [1..<18 :: nat]" by (simp add: upt_conv_Cons)
  moreover have "(0x100 :: u32) + 0xFFFFFFF0 = 0xF0" by simp
  then have "dol_end wrapped_dol (0 # ss) 0 = dol_end wrapped_dol ss 0xF0" for ss
    by (simp only: dol_end.simps mult_0 add_0_right wrapped_dol_words(1,2) bind.bind_lunit) simp
  ultimately show ?thesis by simp
qed

end
