(* ===== verification/Gx_State.thy ===== *)
theory Gx_State
  imports Prelude
begin

text \<open>
  src/format/gx/state.cpp with the types of tev.hpp, vertex.hpp, pixel.hpp and state.hpp: the GX
  state and the SDK's setters. A C++ enumeration field is kept as its byte, because the setters
  cast any number into it; its enumerators are the constants below. A float is its IEEE-754
  binary32 bit pattern.
\<close>

section \<open>Numbers\<close>

text \<open>An update inside an array; outside it the result is anything at all, as it is in C++.\<close>

definition upd :: "nat \<Rightarrow> ('a \<Rightarrow> 'a) \<Rightarrow> 'a list \<Rightarrow> 'a list" where
  "upd i f xs = (if i < length xs then xs[i := f (xs ! i)] else undefined)"

lemma length_upd [simp]: "i < length xs \<Longrightarrow> length (upd i f xs) = length xs"
  by (simp add: upd_def)

lemma nth_upd: "i < length xs \<Longrightarrow> upd i f xs ! j = (if i = j then f (xs ! i) else xs ! j)"
  by (simp add: upd_def nth_list_update)

definition Bits :: "u32 \<Rightarrow> nat \<Rightarrow> nat \<Rightarrow> u32" where
  "Bits v width shift = drop_bit shift v AND (push_bit width 1 - 1)"

abbreviation byte_of :: "u32 \<Rightarrow> u8" where
  "byte_of \<equiv> ucast"

type_synonym f32 = u32

text \<open>The division of two integers a float holds exactly, rounded to nearest, ties to even.\<close>

fun bit_len :: "nat \<Rightarrow> nat" where
  "bit_len n = (if n = 0 then 0 else 1 + bit_len (n div 2))"

declare bit_len.simps [simp del]

definition round_div :: "nat \<Rightarrow> nat \<Rightarrow> nat" where
  "round_div p q = (let f = p div q; r = p mod q in
     if 2 * r < q \<or> 2 * r = q \<and> even f then f else f + 1)"

definition f32_ratio :: "int \<Rightarrow> nat \<Rightarrow> f32" where
  "f32_ratio n d =
     (if n = 0 then 0
      else let a = nat \<bar>n\<bar>;
               e = int (bit_len a) - int (bit_len d);
               e = (if a * 2 ^ nat (- e) < d * 2 ^ nat e then e - 1 else e);
               m = round_div (a * 2 ^ nat (23 - e)) (d * 2 ^ nat (e - 23)) in
           (if n < 0 then 0x80000000 else 0) + of_nat (nat (e + 126) * 2 ^ 23 + m))"

abbreviation f32_div255 :: "int \<Rightarrow> f32" where
  "f32_div255 n \<equiv> f32_ratio n 255"

abbreviation f32_one :: f32 where "f32_one \<equiv> 0x3F800000"
abbreviation f32_minus_one :: f32 where "f32_minus_one \<equiv> 0xBF800000"

section \<open>Types\<close>

record tev_combiner =
  k_a :: u8
  k_b :: u8
  k_c :: u8
  k_d :: u8
  k_op :: u8
  k_bias :: u8
  k_scale :: u8
  k_clamp :: bool
  k_out :: u8

record tev_stage =
  s_color :: tev_combiner
  s_alpha :: tev_combiner
  s_kcolorSel :: u8
  s_kalphaSel :: u8
  s_texCoord :: u8
  s_texMap :: u8
  s_channel :: u8
  s_rasSwap :: u8
  s_texSwap :: u8
  s_ind :: u32

record ind_stage =
  i_texCoord :: u8
  i_texMap :: u8
  i_scaleS :: u8
  i_scaleT :: u8

record tev_swap =
  sw_r :: u8
  sw_g :: u8
  sw_b :: u8
  sw_a :: u8

record tev_config =
  t_stageCount :: u8
  t_stages :: "tev_stage list"
  t_swapTable :: "tev_swap list"
  t_texCoordCount :: u8
  t_alphaComp0 :: u8
  t_alphaRef0 :: u8
  t_alphaOp :: u8
  t_alphaComp1 :: u8
  t_alphaRef1 :: u8
  t_fogType :: u8
  t_dstAlpha :: bool
  t_indStageCount :: u8
  t_indStages :: "ind_stage list"

record color_channel =
  c_material :: u8
  c_ambient :: u8
  c_lighting :: bool
  c_lightMask :: u8
  c_diffuse :: u8
  c_attenuation :: u8

record tex_gen =
  g_type :: u8
  g_source :: u8
  g_matrix :: u8
  g_normalize :: bool
  g_postMatrix :: u8

record vertex_config =
  v_hasNormal :: bool
  v_hasColor0 :: bool
  v_hasColor1 :: bool
  v_texCoords :: u8
  v_indexedPosMtx :: bool
  v_channelCount :: u8
  v_channels :: "color_channel list"
  v_texGenCount :: u8
  v_texGens :: "tex_gen list"
  v_dualTexture :: bool

record pixel_state =
  p_blendMode :: u8
  p_srcFactor :: u8
  p_dstFactor :: u8
  p_logicOp :: u8
  p_depthTest :: bool
  p_depthCompare :: u8
  p_depthWrite :: bool
  p_cull :: u8
  p_colorWrite :: bool
  p_alphaWrite :: bool
  p_efbAlpha :: bool

record color8 =
  col_r :: u8
  col_g :: u8
  col_b :: u8
  col_a :: u8

record light =
  l_pos :: "f32 list"
  l_dir :: "f32 list"
  l_color :: color8
  l_cosAtt :: "f32 list"
  l_distAtt :: "f32 list"

record tlut_load =
  tl_address :: u32
  tl_entries :: u32

record tex_map =
  m_address :: u32
  m_width :: u16
  m_height :: u16
  m_format :: u32
  m_mips :: u8
  m_wrapS :: u8
  m_wrapT :: u8
  m_magLinear :: bool
  m_minFilter :: u8
  m_lodBias :: f32
  m_minLod :: f32
  m_maxLod :: f32
  m_tlutFormat :: u32
  m_tlutTmem :: u32

record gx_state =
  mTev :: tev_config
  mVertex :: vertex_config
  mPixel :: pixel_state
  mTevRegs :: "f32 list list"
  mKColors :: "f32 list list"
  mFogColor :: "f32 list"
  mFogA :: f32
  mFogC :: f32
  mFogBMagnitude :: u32
  mFogBShift :: u32
  mChanAmb :: "color8 list"
  mChanMat :: "color8 list"
  mLights :: "light list"
  mPosRows :: "f32 list list"
  mNrmRows :: "f32 list list"
  mTexRows :: "f32 list list"
  mPostRows :: "f32 list list"
  mProj :: "f32 list list"
  mCurrentPosRow :: u32
  mVtxDesc :: "u8 list"
  mBpRegs :: "u32 list"
  mBpMask :: u32
  mPeControlWrites :: u32
  mTexInvalidations :: u32
  mBpWritten :: "u64 list"
  mXfRaw :: "u32 list"
  mXfWritten :: "u8 list"
  mViewport :: "f32 list"
  mProjParams :: "f32 list"
  mProjOrtho :: bool
  mTluts :: "tlut_load list"
  mGeneration :: u64
  mDirty :: u32

definition kDirtyShader :: u32 where "kDirtyShader = 1"
definition kDirtyPixel :: u32 where "kDirtyPixel = 2"
definition kDirtyTevUniforms :: u32 where "kDirtyTevUniforms = 4"
definition kDirtyXfUniforms :: u32 where "kDirtyXfUniforms = 8"
definition kDirtyTextures :: u32 where "kDirtyTextures = 16"
definition kDirtyAll :: u32 where "kDirtyAll = 0x1F"

definition kTexDisable :: u32 where "kTexDisable = 0x100"
definition kTexNull :: u8 where "kTexNull = 0xFF"
definition kIdentity :: u8 where "kIdentity = 0xFF"
definition kTexMtx0 :: u32 where "kTexMtx0 = 30"
definition kPtTexMtx0 :: u32 where "kPtTexMtx0 = 64"
definition kIdentityMtx :: u32 where "kIdentityMtx = 60"
definition kPtIdentity :: u32 where "kPtIdentity = 125"
definition kXfShadow :: nat where "kXfShadow = 0x1100"

section \<open>Helpers\<close>

definition ChannelOf :: "u8 \<Rightarrow> u8" where
  "ChannelOf ident = (if ident = 0 \<or> ident = 2 \<or> ident = 4 then 0
     else if ident = 1 \<or> ident = 3 \<or> ident = 5 then 1
     else if ident = 0xFF then 0xFF else 6)"

definition BpDirty :: "u32 \<Rightarrow> u32" where
  "BpDirty reg =
    (if reg = 0x00 then kDirtyShader OR kDirtyPixel
     else if 0x06 \<le> reg \<and> reg \<le> 0x0E then kDirtyTevUniforms
     else if 0x0F \<le> reg \<and> reg \<le> 0x1F then kDirtyShader
     else if reg = 0x20 \<or> reg = 0x21 \<or> reg = 0x59 then 0
     else if 0x22 \<le> reg \<and> reg \<le> 0x2F then kDirtyShader
     else if 0x40 \<le> reg \<and> reg \<le> 0x41 then kDirtyPixel
     else if reg = 0x42 then kDirtyPixel OR kDirtyShader OR kDirtyTevUniforms
     else if reg = 0x43 then kDirtyPixel
     else if 0x44 \<le> reg \<and> reg \<le> 0x58 then 0
     else if reg = 0x64 \<or> reg = 0x65 then kDirtyTextures
     else if 0x80 \<le> reg \<and> reg \<le> 0xBB then kDirtyTextures
     else if 0xC0 \<le> reg \<and> reg \<le> 0xDF then kDirtyShader
     else if 0xE0 \<le> reg \<and> reg \<le> 0xE7 then kDirtyTevUniforms
     else if 0xE8 \<le> reg \<and> reg \<le> 0xF2 then kDirtyShader OR kDirtyTevUniforms
     else if 0xF3 \<le> reg \<and> reg \<le> 0xFD then kDirtyShader
     else if reg = 0xFE then 0
     else kDirtyAll)"

definition XfRegisterDirty :: "u32 \<Rightarrow> u32" where
  "XfRegisterDirty reg =
    (if reg = 0x08 \<or> reg = 0x09 \<or> reg = 0x12 then kDirtyShader
     else if 0x0A \<le> reg \<and> reg \<le> 0x0D then kDirtyXfUniforms
     else if 0x0E \<le> reg \<and> reg \<le> 0x11 then kDirtyShader
     else if reg = 0x18 \<or> reg = 0x19 then kDirtyXfUniforms
     else if 0x1A \<le> reg \<and> reg \<le> 0x1F then 0
     else if 0x20 \<le> reg \<and> reg \<le> 0x26 then kDirtyXfUniforms
     else if reg = 0x3F \<or> 0x40 \<le> reg \<and> reg < 0x48 \<or> 0x50 \<le> reg \<and> reg < 0x58 then kDirtyShader
     else kDirtyAll)"

text \<open>How every setter begins: a new generation, and everything to be looked at again.\<close>

definition touch :: "u32 \<Rightarrow> gx_state \<Rightarrow> gx_state" where
  "touch bits s = s\<lparr>mGeneration := mGeneration s + 1, mDirty := mDirty s OR bits\<rparr>"

definition on_stage :: "nat \<Rightarrow> (tev_stage \<Rightarrow> tev_stage) \<Rightarrow> gx_state \<Rightarrow> gx_state" where
  "on_stage i f s = s\<lparr>mTev := (mTev s)\<lparr>t_stages := upd i f (t_stages (mTev s))\<rparr>\<rparr>"

definition on_texgen :: "nat \<Rightarrow> (tex_gen \<Rightarrow> tex_gen) \<Rightarrow> gx_state \<Rightarrow> gx_state" where
  "on_texgen i f s = s\<lparr>mVertex := (mVertex s)\<lparr>v_texGens := upd i f (v_texGens (mVertex s))\<rparr>\<rparr>"

section \<open>TEV\<close>

definition SetNumTevStages :: "u8 \<Rightarrow> gx_state \<Rightarrow> gx_state" where
  "SetNumTevStages count s = (let s = touch kDirtyAll s in
     s\<lparr>mTev := (mTev s)\<lparr>t_stageCount := if count < 1 then 1 else if 16 < count then 16 else count\<rparr>\<rparr>)"

definition SetTevOrder :: "u8 \<Rightarrow> u8 \<Rightarrow> u32 \<Rightarrow> u8 \<Rightarrow> gx_state \<Rightarrow> gx_state" where
  "SetTevOrder stage coord tex channel s = (let s = touch kDirtyAll s in
     if 16 \<le> stage then s
     else on_stage (unat stage) (\<lambda>t. t\<lparr>s_texCoord := coord,
            s_texMap := if tex AND kTexDisable \<noteq> 0 \<or> 8 \<le> tex AND 0xFF then kTexNull else byte_of (tex AND 0xFF),
            s_channel := ChannelOf channel\<rparr>) s)"

definition SetTevColorIn :: "u8 \<Rightarrow> u8 \<Rightarrow> u8 \<Rightarrow> u8 \<Rightarrow> u8 \<Rightarrow> gx_state \<Rightarrow> gx_state" where
  "SetTevColorIn stage a b c d s = (let s = touch kDirtyAll s in
     if stage < 16 then on_stage (unat stage)
       (\<lambda>t. t\<lparr>s_color := (s_color t)\<lparr>k_a := a, k_b := b, k_c := c, k_d := d\<rparr>\<rparr>) s else s)"

definition SetTevAlphaIn :: "u8 \<Rightarrow> u8 \<Rightarrow> u8 \<Rightarrow> u8 \<Rightarrow> u8 \<Rightarrow> gx_state \<Rightarrow> gx_state" where
  "SetTevAlphaIn stage a b c d s = (let s = touch kDirtyAll s in
     if stage < 16 then on_stage (unat stage)
       (\<lambda>t. t\<lparr>s_alpha := (s_alpha t)\<lparr>k_a := a, k_b := b, k_c := c, k_d := d\<rparr>\<rparr>) s else s)"

definition SetOp :: "u8 \<Rightarrow> u8 \<Rightarrow> u8 \<Rightarrow> bool \<Rightarrow> u8 \<Rightarrow> tev_combiner \<Rightarrow> tev_combiner" where
  "SetOp opn bias scale clamp outReg k =
     k\<lparr>k_op := opn, k_bias := bias, k_scale := scale, k_clamp := clamp, k_out := outReg AND 3\<rparr>"

definition SetTevColorOp :: "u8 \<Rightarrow> u8 \<Rightarrow> u8 \<Rightarrow> u8 \<Rightarrow> bool \<Rightarrow> u8 \<Rightarrow> gx_state \<Rightarrow> gx_state" where
  "SetTevColorOp stage opn bias scale clamp outReg s = (let s = touch kDirtyAll s in
     if stage < 16 then on_stage (unat stage)
       (\<lambda>t. t\<lparr>s_color := SetOp opn bias scale clamp outReg (s_color t)\<rparr>) s else s)"

definition SetTevAlphaOp :: "u8 \<Rightarrow> u8 \<Rightarrow> u8 \<Rightarrow> u8 \<Rightarrow> bool \<Rightarrow> u8 \<Rightarrow> gx_state \<Rightarrow> gx_state" where
  "SetTevAlphaOp stage opn bias scale clamp outReg s = (let s = touch kDirtyAll s in
     if stage < 16 then on_stage (unat stage)
       (\<lambda>t. t\<lparr>s_alpha := SetOp opn bias scale clamp outReg (s_alpha t)\<rparr>) s else s)"

datatype TevMode = Modulate | Decal | Blend | Replace | PassClr

text \<open>The arguments: CPrev 0, TexC 8, TexA 9, RasC 10, One 12, Zero 15; for the alpha APrev 0, TexA 4,
  RasA 5, Zero 7.\<close>

definition SetTevOp :: "u8 \<Rightarrow> TevMode \<Rightarrow> gx_state \<Rightarrow> gx_state" where
  "SetTevOp stage mode s =
     (let s = touch kDirtyAll s;
          carg = (if stage = 0 then 10 else 0); aarg = (if stage = 0 then 5 else 0);
          s = (case mode of
                 Modulate \<Rightarrow> SetTevAlphaIn stage 7 4 aarg 7 (SetTevColorIn stage 15 8 carg 15 s)
               | Decal \<Rightarrow> SetTevAlphaIn stage 7 7 7 aarg (SetTevColorIn stage carg 8 9 15 s)
               | Blend \<Rightarrow> SetTevAlphaIn stage 7 4 aarg 7 (SetTevColorIn stage carg 12 8 15 s)
               | Replace \<Rightarrow> SetTevAlphaIn stage 7 7 7 4 (SetTevColorIn stage 15 15 15 8 s)
               | PassClr \<Rightarrow> SetTevAlphaIn stage 7 7 7 aarg (SetTevColorIn stage 15 15 15 carg s))
      in SetTevAlphaOp stage 0 0 0 True 0 (SetTevColorOp stage 0 0 0 True 0 s))"

definition SetTevKColorSel :: "u8 \<Rightarrow> u8 \<Rightarrow> gx_state \<Rightarrow> gx_state" where
  "SetTevKColorSel stage sel s = (let s = touch kDirtyAll s in
     if stage < 16 then on_stage (unat stage) (\<lambda>t. t\<lparr>s_kcolorSel := sel\<rparr>) s else s)"

definition SetTevKAlphaSel :: "u8 \<Rightarrow> u8 \<Rightarrow> gx_state \<Rightarrow> gx_state" where
  "SetTevKAlphaSel stage sel s = (let s = touch kDirtyAll s in
     if stage < 16 then on_stage (unat stage) (\<lambda>t. t\<lparr>s_kalphaSel := sel\<rparr>) s else s)"

definition SetTevSwapMode :: "u8 \<Rightarrow> u8 \<Rightarrow> u8 \<Rightarrow> gx_state \<Rightarrow> gx_state" where
  "SetTevSwapMode stage rasSel texSel s = (let s = touch kDirtyAll s in
     if stage < 16 then on_stage (unat stage) (\<lambda>t. t\<lparr>s_rasSwap := rasSel AND 3, s_texSwap := texSel AND 3\<rparr>) s
     else s)"

definition SetTevSwapModeTable :: "u8 \<Rightarrow> u8 \<Rightarrow> u8 \<Rightarrow> u8 \<Rightarrow> u8 \<Rightarrow> gx_state \<Rightarrow> gx_state" where
  "SetTevSwapModeTable table r g b a s = (let s = touch kDirtyAll s in
     s\<lparr>mTev := (mTev s)\<lparr>t_swapTable := upd (unat (table AND 3))
        (\<lambda>_. \<lparr>sw_r = r AND 3, sw_g = g AND 3, sw_b = b AND 3, sw_a = a AND 3\<rparr>) (t_swapTable (mTev s))\<rparr>\<rparr>)"

definition SetAlphaCompare :: "u8 \<Rightarrow> u8 \<Rightarrow> u8 \<Rightarrow> u8 \<Rightarrow> u8 \<Rightarrow> gx_state \<Rightarrow> gx_state" where
  "SetAlphaCompare comp0 ref0 opn comp1 ref1 s = (let s = touch kDirtyAll s in
     s\<lparr>mTev := (mTev s)\<lparr>t_alphaComp0 := comp0 AND 7, t_alphaRef0 := ref0, t_alphaOp := opn AND 3,
        t_alphaComp1 := comp1 AND 7, t_alphaRef1 := ref1\<rparr>\<rparr>)"

definition color_floats :: "color8 \<Rightarrow> f32 list" where
  "color_floats c = [f32_div255 (uint (col_r c)), f32_div255 (uint (col_g c)),
     f32_div255 (uint (col_b c)), f32_div255 (uint (col_a c))]"

definition SetTevColor :: "u8 \<Rightarrow> color8 \<Rightarrow> gx_state \<Rightarrow> gx_state" where
  "SetTevColor reg color s = (let s = touch kDirtyAll s in
     s\<lparr>mTevRegs := upd (unat (reg AND 3)) (\<lambda>_. color_floats color) (mTevRegs s)\<rparr>)"

definition SetTevColorS10 :: "u8 \<Rightarrow> 16 word list \<Rightarrow> gx_state \<Rightarrow> gx_state" where
  "SetTevColorS10 reg rgba s = (let s = touch kDirtyAll s in
     s\<lparr>mTevRegs := upd (unat (reg AND 3)) (\<lambda>_. map (\<lambda>i. f32_div255 (sint (rgba ! i))) [0..<4]) (mTevRegs s)\<rparr>)"

definition SetTevKColor :: "u8 \<Rightarrow> color8 \<Rightarrow> gx_state \<Rightarrow> gx_state" where
  "SetTevKColor ident color s = (let s = touch kDirtyAll s in
     s\<lparr>mKColors := upd (unat (ident AND 3)) (\<lambda>_. color_floats color) (mKColors s)\<rparr>)"

section \<open>Channels, lights, texture coordinates\<close>

definition SetNumChans :: "u8 \<Rightarrow> gx_state \<Rightarrow> gx_state" where
  "SetNumChans count s = (let s = touch kDirtyAll s in
     s\<lparr>mVertex := (mVertex s)\<lparr>v_channelCount := if 2 < count then 2 else count\<rparr>\<rparr>)"

definition SetChanCtrl ::
  "u8 \<Rightarrow> bool \<Rightarrow> u8 \<Rightarrow> u8 \<Rightarrow> u32 \<Rightarrow> u8 \<Rightarrow> u8 \<Rightarrow> gx_state \<Rightarrow> gx_state" where
  "SetChanCtrl channel enable ambSrc matSrc lightMask diffFn attnFn s =
     (let s = touch kDirtyAll s;
          cc = \<lparr>c_material = matSrc AND 1, c_ambient = ambSrc AND 1, c_lighting = enable,
                c_lightMask = byte_of lightMask, c_diffuse = if 2 < diffFn then 0 else diffFn,
                c_attenuation = if 2 < attnFn then 2 else attnFn\<rparr>;
          put = (\<lambda>i s. s\<lparr>mVertex := (mVertex s)\<lparr>v_channels := upd i (\<lambda>_. cc) (v_channels (mVertex s))\<rparr>\<rparr>) in
      if channel = 4 \<or> channel = 5 then put (unat (channel - 2)) (put (unat (channel - 4)) s)
      else if channel < 4 then put (unat channel) s
      else s)"

definition chan_color :: "u8 \<Rightarrow> color8 \<Rightarrow> color8 \<Rightarrow> color8" where
  "chan_color channel color c =
     (let c = (if channel = 0 \<or> channel = 1 \<or> 4 \<le> channel
               then c\<lparr>col_r := col_r color, col_g := col_g color, col_b := col_b color\<rparr> else c) in
      if 2 \<le> channel then c\<lparr>col_a := col_a color\<rparr> else c)"

definition SetChanAmbColor :: "u8 \<Rightarrow> color8 \<Rightarrow> gx_state \<Rightarrow> gx_state" where
  "SetChanAmbColor channel color s = (let s = touch kDirtyAll s in
     s\<lparr>mChanAmb := upd (unat (channel AND 1)) (chan_color channel color) (mChanAmb s)\<rparr>)"

definition SetChanMatColor :: "u8 \<Rightarrow> color8 \<Rightarrow> gx_state \<Rightarrow> gx_state" where
  "SetChanMatColor channel color s = (let s = touch kDirtyAll s in
     s\<lparr>mChanMat := upd (unat (channel AND 1)) (chan_color channel color) (mChanMat s)\<rparr>)"

definition LoadLight :: "u32 \<Rightarrow> light \<Rightarrow> gx_state \<Rightarrow> gx_state" where
  "LoadLight lightMask light s = (let s = touch kDirtyAll s in
     case List.find (\<lambda>i. lightMask AND push_bit i 1 \<noteq> 0) [0..<8] of
       None \<Rightarrow> s
     | Some i \<Rightarrow> s\<lparr>mLights := upd i (\<lambda>_. light) (mLights s)\<rparr>)"

definition SetNumTexGens :: "u8 \<Rightarrow> gx_state \<Rightarrow> gx_state" where
  "SetNumTexGens count s = (let s = touch kDirtyAll s in
     s\<lparr>mVertex := (mVertex s)\<lparr>v_texGenCount := if 8 < count then 8 else count\<rparr>\<rparr>)"

definition SetTexCoordGen2 :: "u8 \<Rightarrow> u8 \<Rightarrow> u8 \<Rightarrow> u32 \<Rightarrow> bool \<Rightarrow> u32 \<Rightarrow> gx_state \<Rightarrow> gx_state" where
  "SetTexCoordGen2 dst type src mtx norm postMtx s = (let s = touch kDirtyAll s in
     if 8 \<le> dst then s
     else on_texgen (unat dst) (\<lambda>tg. tg\<lparr>g_type := type, g_source := src,
       g_matrix := if kTexMtx0 \<le> mtx \<and> mtx < kTexMtx0 + 30 then byte_of ((mtx - kTexMtx0) div 3) else kIdentity,
       g_normalize := norm,
       g_postMatrix := if kPtTexMtx0 \<le> postMtx \<and> postMtx < kPtTexMtx0 + 60
         then byte_of ((postMtx - kPtTexMtx0) div 3) else kIdentity\<rparr>) s)"

section \<open>Matrices\<close>

text \<open>
  A row range \<open>ident, ident + 1, ...\<close> of a matrix memory; \<open>None\<close> where a row lies outside it. The guards of
  the loaders are sums of 32 bits.
\<close>

primrec put_rows :: "f32 list list \<Rightarrow> u32 \<Rightarrow> f32 list list \<Rightarrow> f32 list list option" where
  "put_rows [] ident rows = Some rows"
| "put_rows (r # rs) ident rows = do { rows \<leftarrow> wr rows (unat ident) r; put_rows rs (ident + 1) rows }"

definition LoadPosMtx :: "f32 list list \<Rightarrow> u32 \<Rightarrow> gx_state \<Rightarrow> gx_state option" where
  "LoadPosMtx mtx ident s = (let s = touch kDirtyAll s in
     if length (mPosRows s) < unat (ident + 3) then Some s
     else do { rows \<leftarrow> put_rows (map (take 4) (take 3 mtx)) ident (mPosRows s); Some (s\<lparr>mPosRows := rows\<rparr>) })"

definition LoadNrmMtx :: "f32 list list \<Rightarrow> u32 \<Rightarrow> gx_state \<Rightarrow> gx_state option" where
  "LoadNrmMtx mtx ident s = (let s = touch kDirtyAll s in
     if length (mNrmRows s) < unat (ident + 3) then Some s
     else do { rows \<leftarrow> put_rows (map (\<lambda>r. take 3 r @ [0]) (take 3 mtx)) ident (mNrmRows s);
               Some (s\<lparr>mNrmRows := rows\<rparr>) })"

definition LoadTexMtx :: "f32 list list \<Rightarrow> u32 \<Rightarrow> bool \<Rightarrow> gx_state \<Rightarrow> gx_state option" where
  "LoadTexMtx mtx ident twoRows s = (let s = touch kDirtyAll s; rows = map (take 4) (take (if twoRows then 2 else 3) mtx) in
     if kTexMtx0 \<le> ident \<and> ident + 3 \<le> kTexMtx0 + 30
     then do { tex \<leftarrow> put_rows rows (ident - kTexMtx0) (mTexRows s); Some (s\<lparr>mTexRows := tex\<rparr>) }
     else if kPtTexMtx0 \<le> ident \<and> ident + 3 \<le> kPtTexMtx0 + 60
     then do { post \<leftarrow> put_rows rows (ident - kPtTexMtx0) (mPostRows s); Some (s\<lparr>mPostRows := post\<rparr>) }
     else Some s)"

definition SetCurrentMtx :: "u32 \<Rightarrow> gx_state \<Rightarrow> gx_state" where
  "SetCurrentMtx ident s = (let s = touch kDirtyAll s in
     if unat (ident + 3) \<le> length (mPosRows s) then s\<lparr>mCurrentPosRow := ident\<rparr> else s)"

definition SetProjection :: "f32 list list \<Rightarrow> gx_state \<Rightarrow> gx_state" where
  "SetProjection mtx s = (touch kDirtyAll s)\<lparr>mProj := map (take 4) (take 4 mtx)\<rparr>"

section \<open>The pixel engine and the vertex descriptor\<close>

definition SetBlendMode :: "u8 \<Rightarrow> u8 \<Rightarrow> u8 \<Rightarrow> u8 \<Rightarrow> gx_state \<Rightarrow> gx_state" where
  "SetBlendMode type src dst logicOp s = (let s = touch kDirtyAll s in
     s\<lparr>mPixel := (mPixel s)\<lparr>p_blendMode := type AND 3, p_srcFactor := src AND 7, p_dstFactor := dst AND 7,
        p_logicOp := logicOp AND 15\<rparr>\<rparr>)"

definition SetZMode :: "bool \<Rightarrow> u8 \<Rightarrow> bool \<Rightarrow> gx_state \<Rightarrow> gx_state" where
  "SetZMode enable func update s = (let s = touch kDirtyAll s in
     s\<lparr>mPixel := (mPixel s)\<lparr>p_depthTest := enable, p_depthCompare := func AND 7, p_depthWrite := update\<rparr>\<rparr>)"

definition SetCullMode :: "u8 \<Rightarrow> gx_state \<Rightarrow> gx_state" where
  "SetCullMode mode s = (let s = touch kDirtyAll s in s\<lparr>mPixel := (mPixel s)\<lparr>p_cull := mode AND 3\<rparr>\<rparr>)"

definition SetColorUpdate :: "bool \<Rightarrow> gx_state \<Rightarrow> gx_state" where
  "SetColorUpdate update s = (let s = touch kDirtyAll s in s\<lparr>mPixel := (mPixel s)\<lparr>p_colorWrite := update\<rparr>\<rparr>)"

definition SetAlphaUpdate :: "bool \<Rightarrow> gx_state \<Rightarrow> gx_state" where
  "SetAlphaUpdate update s = (let s = touch kDirtyAll s in s\<lparr>mPixel := (mPixel s)\<lparr>p_alphaWrite := update\<rparr>\<rparr>)"

definition ClearVtxDesc :: "gx_state \<Rightarrow> gx_state" where
  "ClearVtxDesc s = (touch kDirtyShader s)\<lparr>mVtxDesc := replicate 21 0\<rparr>"

definition SetVtxDesc :: "u8 \<Rightarrow> u8 \<Rightarrow> gx_state \<Rightarrow> gx_state" where
  "SetVtxDesc attr type s =
     (let s = touch kDirtyShader s; attr = (if attr = 25 then 10 else attr) in
      if unat attr < length (mVtxDesc s) then s\<lparr>mVtxDesc := upd (unat attr) (\<lambda>_. type) (mVtxDesc s)\<rparr> else s)"

definition SetDualTexture :: "bool \<Rightarrow> gx_state \<Rightarrow> gx_state" where
  "SetDualTexture enable s = (let s = touch kDirtyAll s in
     s\<lparr>mVertex := (mVertex s)\<lparr>v_dualTexture := enable\<rparr>\<rparr>)"

section \<open>GXInit's defaults\<close>

definition tev_combiner_init :: "u8 \<Rightarrow> tev_combiner" where
  "tev_combiner_init zero = \<lparr>k_a = zero, k_b = zero, k_c = zero, k_d = zero, k_op = 0, k_bias = 0, k_scale = 0,
     k_clamp = True, k_out = 0\<rparr>"

definition tev_stage_init :: tev_stage where
  "tev_stage_init = \<lparr>s_color = tev_combiner_init 15, s_alpha = tev_combiner_init 7, s_kcolorSel = 0, s_kalphaSel = 0,
     s_texCoord = kTexNull, s_texMap = kTexNull, s_channel = 0xFF, s_rasSwap = 0, s_texSwap = 0, s_ind = 0\<rparr>"

definition swap_init :: "u8 \<Rightarrow> u8 \<Rightarrow> u8 \<Rightarrow> u8 \<Rightarrow> tev_swap" where
  "swap_init r g b a = \<lparr>sw_r = r, sw_g = g, sw_b = b, sw_a = a\<rparr>"

definition light_init :: light where
  "light_init = \<lparr>l_pos = [0, 0, 0], l_dir = [0, 0, 0], l_color = \<lparr>col_r = 0, col_g = 0, col_b = 0, col_a = 0\<rparr>,
     l_cosAtt = [f32_one, 0, 0], l_distAtt = [f32_one, 0, 0]\<rparr>"

text \<open>The members before the constructor's body: their own initialisers, zeroes where they have none.\<close>

definition gx_members :: gx_state where
  "gx_members = \<lparr>
     mTev = \<lparr>t_stageCount = 1, t_stages = replicate 16 tev_stage_init, t_swapTable = replicate 4 (swap_init 0 1 2 3),
       t_texCoordCount = 0, t_alphaComp0 = 7, t_alphaRef0 = 0, t_alphaOp = 0, t_alphaComp1 = 7, t_alphaRef1 = 0,
       t_fogType = 0, t_dstAlpha = False, t_indStageCount = 0,
       t_indStages = replicate 4 \<lparr>i_texCoord = 0, i_texMap = 0, i_scaleS = 0, i_scaleT = 0\<rparr>\<rparr>,
     mVertex = \<lparr>v_hasNormal = False, v_hasColor0 = False, v_hasColor1 = False, v_texCoords = 0,
       v_indexedPosMtx = False, v_channelCount = 0,
       v_channels = replicate 4 \<lparr>c_material = 0, c_ambient = 0, c_lighting = False, c_lightMask = 0,
         c_diffuse = 0, c_attenuation = 2\<rparr>,
       v_texGenCount = 0,
       v_texGens = replicate 8 \<lparr>g_type = 1, g_source = 4, g_matrix = kIdentity, g_normalize = False,
         g_postMatrix = kIdentity\<rparr>,
       v_dualTexture = False\<rparr>,
     mPixel = \<lparr>p_blendMode = 0, p_srcFactor = 1, p_dstFactor = 0, p_logicOp = 3, p_depthTest = True,
       p_depthCompare = 3, p_depthWrite = True, p_cull = 2, p_colorWrite = True, p_alphaWrite = False,
       p_efbAlpha = False\<rparr>,
     mTevRegs = replicate 4 [0, 0, 0, 0], mKColors = replicate 4 [0, 0, 0, 0], mFogColor = [0, 0, 0, 0],
     mFogA = 0, mFogC = 0, mFogBMagnitude = 0, mFogBShift = 0,
     mChanAmb = replicate 2 \<lparr>col_r = 0, col_g = 0, col_b = 0, col_a = 0\<rparr>,
     mChanMat = replicate 2 \<lparr>col_r = 0, col_g = 0, col_b = 0, col_a = 0\<rparr>,
     mLights = replicate 8 light_init,
     mPosRows = replicate 30 [0, 0, 0, 0], mNrmRows = replicate 30 [0, 0, 0, 0],
     mTexRows = replicate 30 [0, 0, 0, 0], mPostRows = replicate 60 [0, 0, 0, 0], mProj = replicate 4 [0, 0, 0, 0],
     mCurrentPosRow = 0, mVtxDesc = replicate 21 0, mBpRegs = replicate 256 0, mBpMask = 0x00FFFFFF,
     mPeControlWrites = 0, mTexInvalidations = 0, mBpWritten = replicate 4 0,
     mXfRaw = replicate kXfShadow 0, mXfWritten = replicate kXfShadow 0,
     mViewport = replicate 6 0, mProjParams = replicate 6 0, mProjOrtho = False,
     mTluts = replicate 1024 \<lparr>tl_address = 0, tl_entries = 0\<rparr>,
     mGeneration = 0, mDirty = kDirtyAll\<rparr>"

definition identity_rows :: "nat \<Rightarrow> f32 list list \<Rightarrow> f32 list list" where
  "identity_rows n rows = fold (\<lambda>r. upd r (\<lambda>row. row[r := f32_one])) [0..<n] rows"

definition State :: gx_state where
  "State =
     (let s = fold (\<lambda>i s. SetTevOp (of_nat i) Replace
                (SetTevOrder (of_nat i) (if i < 8 then of_nat i else 0xFF) (if i < 8 then of_nat i else 0xFF) 4 s))
              [0..<16] gx_members;
          s = SetNumTevStages 1 s;
          s = s\<lparr>mTev := (mTev s)\<lparr>t_swapTable :=
                [swap_init 0 1 2 3, swap_init 0 0 0 3, swap_init 1 1 1 3, swap_init 2 2 2 3]\<rparr>\<rparr>;
          s = fold (\<lambda>i. SetTexCoordGen2 (of_nat i) 1 (of_nat (4 + i)) kIdentityMtx False kPtIdentity) [0..<8] s;
          s = SetNumChans 0 (SetNumTexGens 1 s);
          s = fold (\<lambda>c. SetChanCtrl (of_nat c) False 0 1 0 0 2) [0..<4] s
      in s\<lparr>mPosRows := identity_rows 3 (mPosRows s), mNrmRows := identity_rows 3 (mNrmRows s),
           mProj := identity_rows 4 (mProj s), mPixel := (mPixel gx_members)\<lparr>p_alphaWrite := True\<rparr>\<rparr>)"

end
