(* ===== verification/Gx_Registers.thy ===== *)
theory Gx_Registers
  imports Gx_State
begin

text \<open>
  src/format/gx/state.cpp, the hardware's registers: the BP and XF writes of a command stream, the
  tests that let a repeated write be skipped, and what a draw takes out of the state. The uniform
  blocks are lists of 32-bit words; the offsets of the code, in bytes, are divided by four.
\<close>

section \<open>Decoding a BP register\<close>

definition Signed11 :: "u32 \<Rightarrow> 16 word" where
  "Signed11 v = ucast (if v AND 0x400 \<noteq> 0 then v OR NOT 0x7FF else v)"

definition ChannelFromHardware :: "u32 \<Rightarrow> u8" where
  "ChannelFromHardware hw = (if hw < 8 then [4, 5, 4, 5, 4, 7, 8, 6] ! unat hw else 0xFF)"

definition PartialFloat :: "u32 \<Rightarrow> f32" where
  "PartialFloat v = push_bit 31 (Bits v 1 19) OR push_bit 23 (Bits v 8 11) OR push_bit 12 (Bits v 11 0)"

definition ColorFromXF :: "u32 \<Rightarrow> color8" where
  "ColorFromXF v = \<lparr>col_r = byte_of (drop_bit 24 v), col_g = byte_of (drop_bit 16 v),
     col_b = byte_of (drop_bit 8 v), col_a = byte_of v\<rparr>"

definition TexGenSourceFromRow :: "u32 \<Rightarrow> u8" where
  "TexGenSourceFromRow row = (if row < 13 then [0, 1, 19, 2, 3, 4, 5, 6, 7, 8, 9, 10, 11] ! unat row else 4)"

definition TexMtxSlotFromRow :: "u32 \<Rightarrow> u8" where
  "TexMtxSlotFromRow row =
     (if kTexMtx0 \<le> row \<and> row < kTexMtx0 + 30 then byte_of ((row - kTexMtx0) div 3) else kIdentity)"

text \<open>The half of a combiner both kinds share: clamping, the output, and the operation or compare.\<close>

definition combiner_op :: "u32 \<Rightarrow> tev_combiner \<Rightarrow> tev_combiner" where
  "combiner_op v k =
     (let k = k\<lparr>k_clamp := Bits v 1 19 \<noteq> 0, k_out := byte_of (Bits v 2 22)\<rparr> in
      if Bits v 2 16 = 3
      then k\<lparr>k_op := byte_of (8 + (Bits v 1 18 OR push_bit 1 (Bits v 2 20))), k_bias := 0, k_scale := 0\<rparr>
      else k\<lparr>k_op := byte_of (Bits v 1 18), k_bias := byte_of (Bits v 2 16), k_scale := byte_of (Bits v 2 20)\<rparr>)"

definition bp_combiner :: "u32 \<Rightarrow> u32 \<Rightarrow> gx_state \<Rightarrow> gx_state" where
  "bp_combiner reg v = on_stage (unat ((reg - 0xC0) div 2)) (\<lambda>t.
     if reg AND 1 \<noteq> 0 then
       t\<lparr>s_rasSwap := byte_of (Bits v 2 0), s_texSwap := byte_of (Bits v 2 2),
         s_alpha := combiner_op v ((s_alpha t)\<lparr>k_d := byte_of (Bits v 3 4), k_c := byte_of (Bits v 3 7),
            k_b := byte_of (Bits v 3 10), k_a := byte_of (Bits v 3 13)\<rparr>)\<rparr>
     else
       t\<lparr>s_color := combiner_op v ((s_color t)\<lparr>k_d := byte_of (Bits v 4 0), k_c := byte_of (Bits v 4 4),
            k_b := byte_of (Bits v 4 8), k_a := byte_of (Bits v 4 12)\<rparr>)\<rparr>)"

definition bp_order :: "u32 \<Rightarrow> u32 \<Rightarrow> gx_state \<Rightarrow> gx_state" where
  "bp_order reg v s = fold (\<lambda>half.
     let shift = half * 12 in
     SetTevOrder (byte_of ((reg - 0x28) * 2 + of_nat half)) (byte_of (Bits v 3 (shift + 3)))
       (if Bits v 1 (shift + 6) \<noteq> 0 then Bits v 3 shift else 0xFF)
       (ChannelFromHardware (Bits v 3 (shift + 7)))) [0, 1] s"

definition bp_ksel :: "u32 \<Rightarrow> u32 \<Rightarrow> gx_state \<Rightarrow> gx_state" where
  "bp_ksel reg v s =
     (let index = unat (reg - 0xF6);
          s = s\<lparr>mTev := (mTev s)\<lparr>t_swapTable := upd (index div 2) (\<lambda>w.
                 if odd index then w\<lparr>sw_b := byte_of (Bits v 2 0), sw_a := byte_of (Bits v 2 2)\<rparr>
                 else w\<lparr>sw_r := byte_of (Bits v 2 0), sw_g := byte_of (Bits v 2 2)\<rparr>) (t_swapTable (mTev s))\<rparr>\<rparr>;
          s = on_stage (index * 2) (\<lambda>t. t\<lparr>s_kcolorSel := byte_of (Bits v 5 4),
                 s_kalphaSel := byte_of (Bits v 5 9)\<rparr>) s
      in on_stage (index * 2 + 1) (\<lambda>t. t\<lparr>s_kcolorSel := byte_of (Bits v 5 14),
                 s_kalphaSel := byte_of (Bits v 5 19)\<rparr>) s)"

definition bp_color :: "u32 \<Rightarrow> u32 \<Rightarrow> gx_state \<Rightarrow> gx_state" where
  "bp_color reg v s =
     (let index = unat ((reg - 0xE0) div 2); ra = (reg AND 1 = 0);
          put = (\<lambda>x y. upd index (\<lambda>row. upd (if ra then 3 else 1) (\<lambda>_. y) (upd (if ra then 0 else 2) (\<lambda>_. x) row))) in
      if Bits v 1 23 \<noteq> 0
      then s\<lparr>mKColors := put (f32_div255 (uint (Bits v 8 0))) (f32_div255 (uint (Bits v 8 12))) (mKColors s)\<rparr>
      else s\<lparr>mTevRegs := put (f32_div255 (sint (Signed11 (Bits v 11 0))))
                          (f32_div255 (sint (Signed11 (Bits v 11 12)))) (mTevRegs s)\<rparr>)"

definition bp_genmode :: "u32 \<Rightarrow> gx_state \<Rightarrow> gx_state" where
  "bp_genmode v s =
     (let s = SetNumTexGens (byte_of (Bits v 4 0)) s;
          s = SetNumChans (byte_of (Bits v 3 4)) s;
          s = SetNumTevStages (byte_of (Bits v 4 10 + 1)) s;
          cull = Bits v 2 14
      in SetCullMode (byte_of (if cull = 1 then 2 else if cull = 2 then 1 else cull)) s)"

definition bp_blend :: "u32 \<Rightarrow> gx_state \<Rightarrow> gx_state" where
  "bp_blend v s =
     (let type = (if Bits v 1 11 \<noteq> 0 then 3 else if Bits v 1 0 \<noteq> 0 then 1 else if Bits v 1 1 \<noteq> 0 then 2 else 0);
          s = SetBlendMode type (byte_of (Bits v 3 8)) (byte_of (Bits v 3 5)) (byte_of (Bits v 4 12)) s;
          s = SetColorUpdate (Bits v 1 3 \<noteq> 0) s
      in SetAlphaUpdate (Bits v 1 4 \<noteq> 0) s)"

text \<open>The switch over the remaining registers.\<close>

definition bp_switch :: "u32 \<Rightarrow> u32 \<Rightarrow> gx_state \<Rightarrow> gx_state" where
  "bp_switch reg v s =
    (if reg = 0x65 then
       s\<lparr>mTluts := upd (unat (Bits v 10 0)) (\<lambda>_. \<lparr>tl_address = push_bit 5 (mBpRegs s ! 0x64 AND 0x00FFFFFF),
            tl_entries = Bits v 11 10 * 16\<rparr>) (mTluts s)\<rparr>
     else if reg = 0x00 then bp_genmode v s
     else if reg = 0x40 then SetZMode (Bits v 1 0 \<noteq> 0) (byte_of (Bits v 3 1)) (Bits v 1 4 \<noteq> 0) s
     else if reg = 0x66 then s\<lparr>mTexInvalidations := mTexInvalidations s + 1\<rparr>
     else if reg = 0x43 then
       s\<lparr>mPixel := (mPixel s)\<lparr>p_efbAlpha := Bits v 3 0 = 1\<rparr>, mPeControlWrites := mPeControlWrites s + 1\<rparr>
     else if reg = 0x41 then bp_blend v s
     else if reg = 0xEE then s\<lparr>mFogA := PartialFloat v\<rparr>
     else if reg = 0xEF then s\<lparr>mFogBMagnitude := Bits v 24 0\<rparr>
     else if reg = 0xF0 then s\<lparr>mFogBShift := Bits v 5 0\<rparr>
     else if reg = 0xF1 then
       s\<lparr>mFogC := PartialFloat v, mTev := (mTev s)\<lparr>t_fogType := byte_of (Bits v 3 21 OR push_bit 3 (Bits v 1 20))\<rparr>\<rparr>
     else if reg = 0xF2 then
       s\<lparr>mFogColor := [f32_div255 (uint (Bits v 8 16)), f32_div255 (uint (Bits v 8 8)),
           f32_div255 (uint (Bits v 8 0)), mFogColor s ! 3]\<rparr>
     else if reg = 0x42 then
       s\<lparr>mFogColor := upd 3 (\<lambda>_. f32_div255 (uint (Bits v 8 0))) (mFogColor s),
         mTev := (mTev s)\<lparr>t_dstAlpha := Bits v 1 8 \<noteq> 0\<rparr>\<rparr>
     else if reg = 0xF3 then
       SetAlphaCompare (byte_of (Bits v 3 16)) (byte_of (Bits v 8 0)) (byte_of (Bits v 2 22))
         (byte_of (Bits v 3 19)) (byte_of (Bits v 8 8)) s
     else s)"

definition bp_decode :: "u32 \<Rightarrow> u32 \<Rightarrow> gx_state \<Rightarrow> gx_state" where
  "bp_decode reg v s =
    (if 0xC0 \<le> reg \<and> reg \<le> 0xDF then bp_combiner reg v s
     else if 0x28 \<le> reg \<and> reg \<le> 0x2F then bp_order reg v s
     else if 0xF6 \<le> reg \<and> reg \<le> 0xFD then bp_ksel reg v s
     else if 0xE0 \<le> reg \<and> reg \<le> 0xE7 then bp_color reg v s
     else bp_switch reg v s)"

text \<open>What one write does to the register file: \<open>merged\<close> is what the mask lets through.\<close>

definition bp_merged :: "gx_state \<Rightarrow> u32 \<Rightarrow> u32" where
  "bp_merged s value = (mBpRegs s ! unat (drop_bit 24 value) AND NOT (mBpMask s)) OR
     (value AND mBpMask s AND 0x00FFFFFF)"

definition ApplyBP :: "u32 \<Rightarrow> gx_state \<Rightarrow> gx_state" where
  "ApplyBP value s =
     (let reg = drop_bit 24 value;
          s = s\<lparr>mGeneration := mGeneration s + 1,
                mBpWritten := upd (unat (reg div 64)) (\<lambda>w. w OR push_bit (unat (reg mod 64)) 1) (mBpWritten s)\<rparr>;
          saved = mDirty s;
          s = (if reg = 0xFE then s\<lparr>mBpMask := value AND 0x00FFFFFF\<rparr>
               else let merged = bp_merged s value in
                 bp_decode reg merged
                   (s\<lparr>mBpMask := 0x00FFFFFF, mBpRegs := upd (unat reg) (\<lambda>_. merged) (mBpRegs s)\<rparr>))
      in s\<lparr>mDirty := saved OR BpDirty reg\<rparr>)"

definition bp_written :: "gx_state \<Rightarrow> u32 \<Rightarrow> bool" where
  "bp_written s reg \<longleftrightarrow> drop_bit (unat (reg mod 64)) (mBpWritten s ! unat (reg div 64)) AND 1 \<noteq> 0"

definition BpUnchanged :: "gx_state \<Rightarrow> u32 \<Rightarrow> bool" where
  "BpUnchanged s value =
     (let reg = drop_bit 24 value in
      if mBpMask s \<noteq> 0x00FFFFFF \<or> reg = 0xFE \<or> 0x44 \<le> reg \<and> reg \<le> 0x58 \<or> 0x60 \<le> reg \<and> reg \<le> 0x6F \<or>
         \<not> bp_written s reg
      then False
      else mBpRegs s ! unat reg AND 0x00FFFFFF = value AND 0x00FFFFFF)"

section \<open>XF memory and registers\<close>

definition RebuildProjection :: "gx_state \<Rightarrow> gx_state" where
  "RebuildProjection s =
     (let p = mProjParams s in
      s\<lparr>mProj := (if mProjOrtho s
         then [[p ! 0, 0, 0, p ! 1], [0, p ! 2, 0, p ! 3], [0, 0, p ! 4, p ! 5], [0, 0, 0, f32_one]]
         else [[p ! 0, 0, p ! 1, 0], [0, p ! 2, p ! 3, 0], [0, 0, p ! 4, p ! 5], [0, 0, f32_minus_one, 0]])\<rparr>)"

text \<open>The loops of registers 0x18 and 0x19: a slot that moves makes the shader dirty.\<close>

definition set_slot :: "u32 \<Rightarrow> nat \<Rightarrow> nat \<Rightarrow> u32 \<times> gx_state \<Rightarrow> u32 \<times> gx_state" where
  "set_slot v i shift = (\<lambda>(bits, s).
     let slot = TexMtxSlotFromRow (Bits v 6 shift) in
     if g_matrix (v_texGens (mVertex s) ! i) \<noteq> slot
     then (bits OR kDirtyShader, on_texgen i (\<lambda>tg. tg\<lparr>g_matrix := slot\<rparr>) s) else (bits, s))"

definition xf_texgen :: "u32 \<Rightarrow> tex_gen \<Rightarrow> tex_gen" where
  "xf_texgen v tg =
     (let type = Bits v 3 4 in
      tg\<lparr>g_type := if type = 0 then (if Bits v 1 1 \<noteq> 0 then 0 else 1)
                  else if type = 1 then byte_of (2 + Bits v 3 15) else 10,
         g_source := TexGenSourceFromRow (Bits v 5 7)\<rparr>)"

definition xf_switch :: "u32 \<Rightarrow> u32 \<Rightarrow> u32 \<times> gx_state \<Rightarrow> u32 \<times> gx_state" where
  "xf_switch reg v = (\<lambda>(bits, s).
     if reg = 0x09 then (bits, SetNumChans (byte_of v) s)
     else if reg = 0x0A \<or> reg = 0x0B then (bits, SetChanAmbColor (byte_of (4 + reg - 0x0A)) (ColorFromXF v) s)
     else if reg = 0x0C \<or> reg = 0x0D then (bits, SetChanMatColor (byte_of (4 + reg - 0x0C)) (ColorFromXF v) s)
     else if 0x0E \<le> reg \<and> reg \<le> 0x11 then
       (let attn = Bits v 2 9 in
        (bits, SetChanCtrl (byte_of (reg - 0x0E)) (Bits v 1 1 \<noteq> 0) (byte_of (Bits v 1 6)) (byte_of (Bits v 1 0))
           (Bits v 4 2 OR push_bit 4 (Bits v 4 11)) (byte_of (Bits v 2 7))
           (if attn = 1 then 0 else if attn = 3 then 1 else 2) s))
     else if reg = 0x12 then (bits, SetDualTexture (v \<noteq> 0) s)
     else if reg = 0x18 then
       fold (\<lambda>t. set_slot v t (6 + t * 6)) [0..<4] (bits, SetCurrentMtx (Bits v 6 0) s)
     else if reg = 0x19 then fold (\<lambda>t. set_slot v (4 + t) (t * 6)) [0..<4] (bits, s)
     else if reg = 0x3F then (bits, SetNumTexGens (byte_of v) s)
     else if 0x1A \<le> reg \<and> reg \<le> 0x1F then (bits, s\<lparr>mViewport := upd (unat (reg - 0x1A)) (\<lambda>_. v) (mViewport s)\<rparr>)
     else if 0x20 \<le> reg \<and> reg \<le> 0x25 then
       (bits, RebuildProjection (s\<lparr>mProjParams := upd (unat (reg - 0x20)) (\<lambda>_. v) (mProjParams s)\<rparr>))
     else if reg = 0x26 then (bits, RebuildProjection (s\<lparr>mProjOrtho := v \<noteq> 0\<rparr>))
     else if 0x40 \<le> reg \<and> reg < 0x48 then (bits, on_texgen (unat (reg - 0x40)) (xf_texgen v) s)
     else if 0x50 \<le> reg \<and> reg < 0x58 then
       (let row = Bits v 6 0 in
        (bits, on_texgen (unat (reg - 0x50)) (\<lambda>tg. tg\<lparr>g_postMatrix := if row = 61 then kIdentity else byte_of (row div 3),
           g_normalize := Bits v 1 8 \<noteq> 0\<rparr>) s))
     else (bits, s))"

definition ApplyXFRegister :: "u32 \<Rightarrow> u32 \<Rightarrow> gx_state \<Rightarrow> gx_state" where
  "ApplyXFRegister reg v s =
     (let s = s\<lparr>mGeneration := mGeneration s + 1\<rparr>; saved = mDirty s;
          (bits, s) = xf_switch reg v (XfRegisterDirty reg, s)
      in s\<lparr>mDirty := saved OR bits\<rparr>)"

definition xf_light :: "nat \<Rightarrow> u32 \<Rightarrow> light \<Rightarrow> light" where
  "xf_light k w l =
    (if k = 3 then l\<lparr>l_color := ColorFromXF w\<rparr>
     else if 4 \<le> k \<and> k \<le> 6 then l\<lparr>l_cosAtt := upd (k - 4) (\<lambda>_. w) (l_cosAtt l)\<rparr>
     else if 7 \<le> k \<and> k \<le> 9 then l\<lparr>l_distAtt := upd (k - 7) (\<lambda>_. w) (l_distAtt l)\<rparr>
     else if 10 \<le> k \<and> k \<le> 12 then l\<lparr>l_pos := upd (k - 10) (\<lambda>_. w) (l_pos l)\<rparr>
     else if 13 \<le> k \<and> k \<le> 15 then l\<lparr>l_dir := upd (k - 13) (\<lambda>_. w) (l_dir l)\<rparr>
     else l)"

text \<open>One word at the address \<open>a\<close>: a float's bits are the word.\<close>

definition xf_word :: "u32 \<Rightarrow> u32 \<Rightarrow> gx_state \<Rightarrow> gx_state" where
  "xf_word a w s =
    (if a < 0x100 then
       (let row = unat (a div 4); col = unat (a mod 4) in
        if row < 30 then s\<lparr>mPosRows := upd row (upd col (\<lambda>_. w)) (mPosRows s)\<rparr>
        else if row < 60 then s\<lparr>mTexRows := upd (row - 30) (upd col (\<lambda>_. w)) (mTexRows s)\<rparr>
        else s)
     else if 0x400 \<le> a \<and> a < 0x460 then
       (let row = unat ((a - 0x400) div 3); col = unat ((a - 0x400) mod 3) in
        if row < length (mNrmRows s) then s\<lparr>mNrmRows := upd row (upd col (\<lambda>_. w)) (mNrmRows s)\<rparr> else s)
     else if 0x500 \<le> a \<and> a < 0x600 then
       (let row = unat ((a - 0x500) div 4); col = unat ((a - 0x500) mod 4) in
        if row < length (mPostRows s) then s\<lparr>mPostRows := upd row (upd col (\<lambda>_. w)) (mPostRows s)\<rparr> else s)
     else if 0x600 \<le> a \<and> a < 0x680 then
       s\<lparr>mLights := upd (unat ((a - 0x600) div 16)) (xf_light (unat ((a - 0x600) mod 16)) w) (mLights s)\<rparr>
     else if 0x1000 \<le> a then ApplyXFRegister (a - 0x1000) w s
     else s)"

primrec xf_shadow :: "u32 list \<Rightarrow> u32 \<Rightarrow> gx_state \<Rightarrow> gx_state" where
  "xf_shadow [] a s = s"
| "xf_shadow (w # ws) a s =
     (if unat a < kXfShadow
      then xf_shadow ws (a + 1) (s\<lparr>mXfRaw := upd (unat a) (\<lambda>_. w) (mXfRaw s),
                                   mXfWritten := upd (unat a) (\<lambda>_. 1) (mXfWritten s)\<rparr>)
      else s)"

primrec xf_words :: "u32 list \<Rightarrow> u32 \<Rightarrow> gx_state \<Rightarrow> gx_state" where
  "xf_words [] a s = s"
| "xf_words (w # ws) a s = xf_words ws (a + 1) (xf_word a w s)"

definition ApplyXF :: "u32 \<Rightarrow> u32 list \<Rightarrow> gx_state \<Rightarrow> gx_state" where
  "ApplyXF address words s =
     (let s = xf_shadow words address (s\<lparr>mGeneration := mGeneration s + 1\<rparr>);
          s = (if address < 0x1000 then s\<lparr>mDirty := mDirty s OR kDirtyXfUniforms\<rparr> else s)
      in xf_words words address s)"

definition XfUnchanged :: "gx_state \<Rightarrow> u32 \<Rightarrow> u32 list \<Rightarrow> bool" where
  "XfUnchanged s address words =
     (if kXfShadow < unat (address + of_nat (length words)) then False
      else list_all (\<lambda>i. mXfWritten s ! unat (address + of_nat i) \<noteq> 0 \<and>
                         mXfRaw s ! unat (address + of_nat i) = words ! i) [0..<length words])"

section \<open>What a draw takes\<close>

definition Texture :: "gx_state \<Rightarrow> u8 \<Rightarrow> tex_map" where
  "Texture s tex =
     (let base = (if tex < 4 then 0x80 + unat tex else 0xA0 + (unat tex - 4));
          mode0 = mBpRegs s ! base; mode1 = mBpRegs s ! (base + 4);
          image0 = mBpRegs s ! (base + 8); image3 = mBpRegs s ! (base + 0x14);
          tlut = mBpRegs s ! (base + 0x18);
          minFilter = byte_of (Bits mode0 3 5);
          mipmapped = (minFilter \<noteq> 0 \<and> minFilter \<noteq> 4) in
      \<lparr>m_address = push_bit 5 (image3 AND 0x00FFFFFF),
       m_width = ucast (Bits image0 10 0 + 1), m_height = ucast (Bits image0 10 10 + 1),
       m_format = Bits image0 4 20,
       m_mips = (if mipmapped then byte_of (Bits mode1 8 8 div 16) + 1 else 1),
       m_wrapS = byte_of (Bits mode0 2 0), m_wrapT = byte_of (Bits mode0 2 2),
       m_magLinear = Bits mode0 1 4 \<noteq> 0, m_minFilter = minFilter,
       m_lodBias = f32_ratio (sint (byte_of (Bits mode0 8 9))) 32,
       m_minLod = f32_ratio (uint (Bits mode1 8 0)) 16, m_maxLod = f32_ratio (uint (Bits mode1 8 8)) 16,
       m_tlutFormat = Bits tlut 2 10, m_tlutTmem = push_bit 9 (Bits tlut 10 0)\<rparr>)"

definition Tlut :: "gx_state \<Rightarrow> u32 \<Rightarrow> tlut_load" where
  "Tlut s tmem = mTluts s ! unat (drop_bit 9 tmem AND 1023)"

definition CopyClearColor :: "gx_state \<Rightarrow> f32 list" where
  "CopyClearColor s = (let ar = mBpRegs s ! 0x4F; gb = mBpRegs s ! 0x50 in
     [f32_div255 (uint (Bits ar 8 0)), f32_div255 (uint (Bits gb 8 8)),
      f32_div255 (uint (Bits gb 8 0)), f32_div255 (uint (Bits ar 8 8))])"

definition CopyClearDepth :: "gx_state \<Rightarrow> f32" where
  "CopyClearDepth s = f32_ratio (uint (Bits (mBpRegs s ! 0x51) 24 0)) 16777215"

definition ind_stage_of :: "gx_state \<Rightarrow> nat \<Rightarrow> ind_stage" where
  "ind_stage_of s i =
     (let iref = mBpRegs s ! 0x27 AND 0x00FFFFFF;
          ss = drop_bit ((i mod 2) * 8) (mBpRegs s ! (if i < 2 then 0x25 else 0x26)) in
      \<lparr>i_texCoord = byte_of (drop_bit (6 * i + 3) iref AND 7), i_texMap = byte_of (drop_bit (6 * i) iref AND 7),
       i_scaleS = byte_of (ss AND 0xF), i_scaleT = byte_of (drop_bit 4 ss AND 0xF)\<rparr>)"

definition Tev :: "gx_state \<Rightarrow> tev_config" where
  "Tev s = (mTev s)\<lparr>t_texCoordCount := v_texGenCount (mVertex s),
     t_indStageCount := byte_of (drop_bit 16 (mBpRegs s ! 0) AND 7),
     t_indStages := map (ind_stage_of s) [0..<4],
     t_stages := map (\<lambda>n. (t_stages (mTev s) ! n)\<lparr>s_ind := mBpRegs s ! (0x10 + n) AND 0x001FFFFF\<rparr>) [0..<16]\<rparr>"

definition Vertex :: "gx_state \<Rightarrow> vertex_config" where
  "Vertex s = (mVertex s)\<lparr>v_hasNormal := mVtxDesc s ! 10 \<noteq> 0, v_hasColor0 := mVtxDesc s ! 11 \<noteq> 0,
     v_hasColor1 := mVtxDesc s ! 12 \<noteq> 0, v_indexedPosMtx := mVtxDesc s ! 0 \<noteq> 0,
     v_texCoords := fold (\<lambda>t c. if mVtxDesc s ! (13 + t) \<noteq> 0 then c OR push_bit t 1 else c) [0..<8] 0\<rparr>"

definition Put :: "nat \<Rightarrow> u32 list \<Rightarrow> u32 list \<Rightarrow> u32 list option" where
  "Put offset v out = putn out (offset div 4) v"

primrec PutRows :: "nat \<Rightarrow> f32 list list \<Rightarrow> u32 list \<Rightarrow> u32 list option" where
  "PutRows offset [] out = Some out"
| "PutRows offset (r # rows) out = do { out \<leftarrow> Put offset (take 4 r) out; PutRows (offset + 16) rows out }"

definition PutColor :: "nat \<Rightarrow> color8 \<Rightarrow> u32 list \<Rightarrow> u32 list option" where
  "PutColor offset c out = Put offset (color_floats c) out"

definition sext11 :: "u32 \<Rightarrow> u32" where
  "sext11 v = signed_drop_bit 21 (push_bit 21 v)"

definition ind_matrix :: "gx_state \<Rightarrow> nat \<Rightarrow> u32 list" where
  "ind_matrix s m =
     (let a = mBpRegs s ! (0x06 + 3 * m); b = mBpRegs s ! (0x07 + 3 * m); c = mBpRegs s ! (0x08 + 3 * m);
          scale = (drop_bit 22 a AND 3) OR push_bit 2 (drop_bit 22 b AND 3) OR push_bit 4 (drop_bit 22 c AND 3) in
      [sext11 a, sext11 b, sext11 c, 17 - scale,
       sext11 (drop_bit 11 a), sext11 (drop_bit 11 b), sext11 (drop_bit 11 c), 17 - scale])"

definition TevUniforms :: "gx_state \<Rightarrow> u32 list option" where
  "TevUniforms s =
     do { out \<leftarrow> PutRows 0 (take 4 (mTevRegs s)) (replicate 64 0);
          out \<leftarrow> PutRows 64 (take 4 (mKColors s)) out;
          out \<leftarrow> Put 128 (take 4 (mFogColor s)) out;
          out \<leftarrow> Put 144 [mFogA s, mFogC s, f32_ratio (uint (mFogBMagnitude s)) 1, f32_ratio (uint (mFogBShift s)) 1] out;
          out \<leftarrow> Put 160 (ind_matrix s 0) out;
          out \<leftarrow> Put 192 (ind_matrix s 1) out;
          Put 224 (ind_matrix s 2) out }"

definition put_light :: "nat \<Rightarrow> light \<Rightarrow> u32 list \<Rightarrow> u32 list option" where
  "put_light base l out =
     do { out \<leftarrow> Put base (take 3 (l_pos l) @ [0]) out;
          out \<leftarrow> Put (base + 16) (take 3 (l_dir l) @ [0]) out;
          out \<leftarrow> PutColor (base + 32) (l_color l) out;
          out \<leftarrow> Put (base + 48) (take 3 (l_cosAtt l) @ [0]) out;
          Put (base + 64) (take 3 (l_distAtt l) @ [0]) out }"

primrec put_lights :: "nat \<Rightarrow> light list \<Rightarrow> u32 list \<Rightarrow> u32 list option" where
  "put_lights base [] out = Some out"
| "put_lights base (l # ls) out = do { out \<leftarrow> put_light base l out; put_lights (base + 80) ls out }"

definition XfUniforms :: "gx_state \<Rightarrow> u32 list option" where
  "XfUniforms s =
     do { out \<leftarrow> PutRows 0 (take 30 (mPosRows s)) (replicate 796 0);
          out \<leftarrow> PutRows 480 (take 30 (mNrmRows s)) out;
          out \<leftarrow> PutRows 960 (take 30 (mTexRows s)) out;
          out \<leftarrow> PutRows 1440 (take 60 (mPostRows s)) out;
          out \<leftarrow> PutRows 2400 (take 4 (mProj s)) out;
          out \<leftarrow> PutColor 2464 (mChanAmb s ! 0) out;
          out \<leftarrow> PutColor 2496 (mChanMat s ! 0) out;
          out \<leftarrow> PutColor 2480 (mChanAmb s ! 1) out;
          out \<leftarrow> PutColor 2512 (mChanMat s ! 1) out;
          out \<leftarrow> put_lights 2528 (take 8 (mLights s)) out;
          Put 3168 [mCurrentPosRow s, 0, 0, 0] out }"

end
