(* ===== verification/Gx_Invariant.thy ===== *)
theory Gx_Invariant
  imports Gx_Registers
begin

text \<open>
  The shape of the GX state: every array keeps its size and the counts stay in range, through the
  setters and through any command stream. An update outside an array has no known result (\<open>upd\<close>),
  so a proof that the shape is kept is a proof that no index leaves its array.
\<close>

definition light_ok :: "light \<Rightarrow> bool" where
  "light_ok l \<longleftrightarrow> length (l_pos l) = 3 \<and> length (l_dir l) = 3 \<and> length (l_cosAtt l) = 3 \<and> length (l_distAtt l) = 3"

definition rows_ok :: "nat \<Rightarrow> f32 list list \<Rightarrow> bool" where
  "rows_ok n rows \<longleftrightarrow> length rows = n \<and> list_all (\<lambda>r. length r = 4) rows"

definition stage_ok :: "tev_stage \<Rightarrow> bool" where
  "stage_ok t \<longleftrightarrow> s_rasSwap t < 4 \<and> s_texSwap t < 4"

definition swap_ok :: "tev_swap \<Rightarrow> bool" where
  "swap_ok w \<longleftrightarrow> sw_r w < 4 \<and> sw_g w < 4 \<and> sw_b w < 4 \<and> sw_a w < 4"

definition tev_ok :: "tev_config \<Rightarrow> bool" where
  "tev_ok t \<longleftrightarrow> length (t_stages t) = 16 \<and> list_all stage_ok (t_stages t) \<and> length (t_swapTable t) = 4 \<and> list_all swap_ok (t_swapTable t) \<and>
     t_stageCount t \<noteq> 0 \<and> t_stageCount t \<le> 16"

definition vertex_ok :: "vertex_config \<Rightarrow> bool" where
  "vertex_ok v \<longleftrightarrow> length (v_channels v) = 4 \<and> length (v_texGens v) = 8 \<and>
     v_channelCount v \<le> 2 \<and> v_texGenCount v \<le> 8"

definition gx_ok :: "gx_state \<Rightarrow> bool" where
  "gx_ok s \<longleftrightarrow> tev_ok (mTev s) \<and> vertex_ok (mVertex s) \<and>
     rows_ok 4 (mTevRegs s) \<and> rows_ok 4 (mKColors s) \<and> length (mFogColor s) = 4 \<and>
     length (mChanAmb s) = 2 \<and> length (mChanMat s) = 2 \<and>
     length (mLights s) = 8 \<and> list_all light_ok (mLights s) \<and>
     rows_ok 30 (mPosRows s) \<and> rows_ok 30 (mNrmRows s) \<and> rows_ok 30 (mTexRows s) \<and>
     rows_ok 60 (mPostRows s) \<and> rows_ok 4 (mProj s) \<and> unat (mCurrentPosRow s) + 3 \<le> 30 \<and>
     length (mVtxDesc s) = 21 \<and> length (mBpRegs s) = 256 \<and> length (mBpWritten s) = 4 \<and>
     length (mXfRaw s) = kXfShadow \<and> length (mXfWritten s) = kXfShadow \<and>
     length (mViewport s) = 6 \<and> length (mProjParams s) = 6 \<and> length (mTluts s) = 1024"

lemma list_all_upd: "i < length xs \<Longrightarrow> list_all P xs \<Longrightarrow> P (f (xs ! i)) \<Longrightarrow> list_all P (upd i f xs)"
  by (auto simp: list_all_length upd_def nth_list_update)

lemma list_all_upd_keeps: "i < length xs \<Longrightarrow> list_all P xs \<Longrightarrow> (\<And>x. P x \<Longrightarrow> P (f x)) \<Longrightarrow> list_all P (upd i f xs)"
  by (auto simp: list_all_length upd_def nth_list_update)

lemma rows_ok_upd:
  assumes "rows_ok n rows" "i < n" "length (rows ! i) = 4 \<Longrightarrow> length (f (rows ! i)) = 4"
  shows "rows_ok n (upd i f rows)"
proof -
  have "length (rows ! i) = 4" using assms(1,2) by (auto simp: rows_ok_def list_all_length)
  then show ?thesis using assms by (simp add: rows_ok_def list_all_upd)
qed

lemma Bits_mask: "Bits v width shift = drop_bit shift v AND mask width"
  by (simp add: Bits_def mask_eq_exp_minus_1)

lemma unat_Bits: "unat (Bits v width shift) < 2 ^ width"
  unfolding Bits_mask by (rule unat_and_mask_less)

lemma unat_and_le: "unat (x AND y :: 'a::len word) \<le> unat y"
  by (metis and.commute word_and_le1 word_le_nat_alt)

lemma unat_and_3: "unat (x AND 3 :: u8) < 4"
  using unat_and_le [of x 3] by simp

lemma unat_and_1: "unat (x AND 1 :: u8) < 2"
  using unat_and_le [of x 1] by simp

lemma ok_touch [simp]: "gx_ok (touch bits s) = gx_ok s"
  by (simp add: gx_ok_def touch_def)

lemma ok_on_stage: "gx_ok s \<Longrightarrow> i < 16 \<Longrightarrow> (\<And>t. stage_ok t \<Longrightarrow> stage_ok (f t)) \<Longrightarrow> gx_ok (on_stage i f s)"
  by (simp add: gx_ok_def on_stage_def tev_ok_def list_all_upd_keeps)

lemma two_bits: "byte_of (Bits v 2 shift) < 4" "(x :: u8) AND 3 < 4"
proof -
  have "unat (byte_of (Bits v 2 shift)) \<le> unat (Bits v 2 shift)" by (simp add: unsigned_ucast_eq)
  then show "byte_of (Bits v 2 shift) < 4" using unat_Bits [of v 2 shift] by (simp add: word_less_nat_alt)
  show "x AND 3 < 4" using unat_and_le [of x 3] by (simp add: word_less_nat_alt)
qed

lemma ok_on_texgen: "gx_ok s \<Longrightarrow> i < 8 \<Longrightarrow> gx_ok (on_texgen i f s)"
  by (simp add: gx_ok_def on_texgen_def vertex_ok_def)

lemma unat_less_u8: "(x :: u8) < y \<Longrightarrow> unat x < unat y"
  by (simp add: word_less_nat_alt)

lemma ok_SetNumTevStages: "gx_ok s \<Longrightarrow> gx_ok (SetNumTevStages n s)"
  by (simp add: SetNumTevStages_def Let_def gx_ok_def touch_def tev_ok_def not_less)

lemma ok_stage_setters:
  assumes "gx_ok s"
  shows "gx_ok (SetTevOrder stage coord tex channel s)" "gx_ok (SetTevColorIn stage a b c d s)"
    "gx_ok (SetTevAlphaIn stage a b c d s)" "gx_ok (SetTevColorOp stage opn bias scale clamp outReg s)"
    "gx_ok (SetTevAlphaOp stage opn bias scale clamp outReg s)" "gx_ok (SetTevKColorSel stage sel s)"
    "gx_ok (SetTevKAlphaSel stage sel s)" "gx_ok (SetTevSwapMode stage rasSel texSel s)"
  using assms unat_less_u8 [of stage 16]
  by (auto simp: SetTevOrder_def SetTevColorIn_def SetTevAlphaIn_def SetTevColorOp_def SetTevAlphaOp_def
      SetTevKColorSel_def SetTevKAlphaSel_def SetTevSwapMode_def Let_def stage_ok_def two_bits not_le intro!: ok_on_stage)

lemma ok_SetTevOp: "gx_ok s \<Longrightarrow> gx_ok (SetTevOp stage mode s)"
  by (cases mode) (simp_all add: SetTevOp_def Let_def ok_stage_setters)

lemma ok_tev_tables:
  assumes "gx_ok s"
  shows "gx_ok (SetTevSwapModeTable table r g b a s)" "gx_ok (SetAlphaCompare c0 r0 opn c1 r1 s)"
    "gx_ok (SetTevColor reg color s)" "gx_ok (SetTevColorS10 reg rgba s)" "gx_ok (SetTevKColor reg color s)"
  using assms unat_and_3 [of table] unat_and_3 [of reg]
  by (simp_all add: SetTevSwapModeTable_def SetAlphaCompare_def SetTevColor_def SetTevColorS10_def SetTevKColor_def
      Let_def gx_ok_def touch_def tev_ok_def rows_ok_upd color_floats_def list_all_upd swap_ok_def two_bits)

lemma ok_channels:
  assumes "gx_ok s"
  shows "gx_ok (SetNumChans n s)" "gx_ok (SetNumTexGens n s)" "gx_ok (SetChanAmbColor channel color s)"
    "gx_ok (SetChanMatColor channel color s)" "gx_ok (SetDualTexture enable s)"
  using assms unat_and_1 [of channel]
  by (simp_all add: SetNumChans_def SetNumTexGens_def SetChanAmbColor_def SetChanMatColor_def SetDualTexture_def
      Let_def gx_ok_def touch_def vertex_ok_def not_less)

lemma ok_SetChanCtrl: "gx_ok s \<Longrightarrow> gx_ok (SetChanCtrl channel en amb mat lights diff attn s)"
  using unat_less_u8 [of channel 4]
  by (auto simp: SetChanCtrl_def Let_def gx_ok_def touch_def vertex_ok_def)

lemma ok_SetTexCoordGen2: "gx_ok s \<Longrightarrow> gx_ok (SetTexCoordGen2 dst type src mtx norm post s)"
  using unat_less_u8 [of dst 8] by (simp add: SetTexCoordGen2_def Let_def ok_on_texgen not_le)

lemma ok_LoadLight: "gx_ok s \<Longrightarrow> light_ok light \<Longrightarrow> gx_ok (LoadLight bits light s)"
  by (auto simp: LoadLight_def Let_def gx_ok_def touch_def list_all_upd find_Some_iff split: option.splits)

lemma ok_pixel:
  assumes "gx_ok s"
  shows "gx_ok (SetBlendMode type src dst logicOp s)" "gx_ok (SetZMode enable func up s)" "gx_ok (SetCullMode mode s)"
    "gx_ok (SetColorUpdate up s)" "gx_ok (SetAlphaUpdate up s)" "gx_ok (ClearVtxDesc s)" "gx_ok (SetVtxDesc attr ty s)"
  using assms
  by (simp_all add: SetBlendMode_def SetZMode_def SetCullMode_def SetColorUpdate_def SetAlphaUpdate_def
      ClearVtxDesc_def SetVtxDesc_def Let_def gx_ok_def touch_def)

lemma ok_SetCurrentMtx: "gx_ok s \<Longrightarrow> unat ident < 2 ^ 31 \<Longrightarrow> gx_ok (SetCurrentMtx ident s)"
  by (auto simp: SetCurrentMtx_def Let_def gx_ok_def touch_def rows_ok_def unat_word_ariths)

lemmas ok_setters = ok_SetNumTevStages ok_stage_setters ok_SetTevOp ok_tev_tables ok_channels ok_SetChanCtrl
  ok_SetTexCoordGen2 ok_pixel

section \<open>BP writes\<close>

lemma reg_index:
  fixes reg :: u32
  assumes "lo \<le> reg" "reg \<le> hi"
  shows "unat (reg - lo) = unat reg - unat lo" "unat reg - unat lo \<le> unat hi - unat lo"
    "unat ((reg - lo) div 2) = (unat reg - unat lo) div 2"
  using assms by (simp_all add: word_le_nat_alt unat_sub unat_div diff_le_mono)

lemma ok_bp_combiner:
  assumes "gx_ok s" "0xC0 \<le> reg" "reg \<le> 0xDF"
  shows "gx_ok (bp_combiner reg v s)"
proof -
  have "unat ((reg - 0xC0) div 2) < 16" using reg_index [OF assms(2,3)] by simp
  with assms(1) show ?thesis unfolding bp_combiner_def by (rule ok_on_stage) (simp add: stage_ok_def two_bits)
qed

lemma ok_bp_order: "gx_ok s \<Longrightarrow> gx_ok (bp_order reg v s)"
  by (simp add: bp_order_def Let_def ok_stage_setters)

lemma ok_bp_ksel:
  assumes "gx_ok s" "0xF6 \<le> reg" "reg \<le> 0xFD"
  shows "gx_ok (bp_ksel reg v s)"
proof -
  have i: "unat (reg - 0xF6) \<le> 7" using reg_index [OF assms(2,3)] by simp
  then have table: "gx_ok (s\<lparr>mTev := (mTev s)\<lparr>t_swapTable := upd (unat (reg - 0xF6) div 2) f (t_swapTable (mTev s))\<rparr>\<rparr>)" if "\<And>w. swap_ok w \<Longrightarrow> swap_ok (f w)" for f
    using assms(1) i that by (simp add: gx_ok_def tev_ok_def list_all_upd_keeps)
  show ?thesis unfolding bp_ksel_def Let_def
    by (intro ok_on_stage table) (use i in \<open>auto simp: stage_ok_def swap_ok_def two_bits\<close>)
qed

lemma ok_bp_color:
  assumes "gx_ok s" "0xE0 \<le> reg" "reg \<le> 0xE7"
  shows "gx_ok (bp_color reg v s)"
proof -
  have "unat ((reg - 0xE0) div 2) < 4" using reg_index [OF assms(2,3)] by simp
  with assms(1) show ?thesis by (auto simp: bp_color_def Let_def gx_ok_def intro!: rows_ok_upd)
qed

lemma ok_bp_switch: "gx_ok s \<Longrightarrow> gx_ok (bp_switch reg v s)"
  using unat_Bits [of v 10 0]
  by (simp add: bp_switch_def bp_genmode_def bp_blend_def Let_def ok_setters)
     (simp add: gx_ok_def tev_ok_def)

lemma ok_bp_decode: "gx_ok s \<Longrightarrow> gx_ok (bp_decode reg v s)"
  by (simp add: bp_decode_def ok_bp_combiner ok_bp_order ok_bp_ksel ok_bp_color ok_bp_switch)

lemma unat_top_byte: "unat (drop_bit 24 val :: u32) < 256"
  using unat_u32 [of val] by (simp add: unat_drop_bit)

lemma ok_ApplyBP:
  assumes "gx_ok s"
  shows "gx_ok (ApplyBP val s)"
proof -
  let ?reg = "drop_bit 24 val :: u32"
  have reg: "unat ?reg < 256" "unat (?reg div 64) < 4"
    using unat_top_byte [of val] by (simp_all add: unat_div)
  have "gx_ok (s\<lparr>mGeneration := g, mBpWritten := upd i f (mBpWritten s), mBpMask := m\<rparr>)"
    and "gx_ok (s\<lparr>mGeneration := g, mBpWritten := upd i f (mBpWritten s), mBpMask := m,
       mBpRegs := upd j h (mBpRegs s)\<rparr>)" if "i < 4" "j < 256" for g f m h i j
    using assms that by (simp_all add: gx_ok_def)
  moreover have "gx_ok (s\<lparr>mDirty := d\<rparr>) = gx_ok s" for s d by (simp add: gx_ok_def)
  ultimately show ?thesis using reg by (simp add: ApplyBP_def Let_def ok_bp_decode)
qed

section \<open>XF writes\<close>

lemma upt_4: "[0..<4] = [0, 1, 2, 3 :: nat]"
  by (simp add: upt_rec)

lemma ok_set_slot: "gx_ok (snd p) \<Longrightarrow> i < 8 \<Longrightarrow> gx_ok (snd (set_slot v i shift p))"
  by (cases p) (simp add: set_slot_def Let_def ok_on_texgen)

lemma ok_Rebuild: "gx_ok s \<Longrightarrow> gx_ok (RebuildProjection s)"
  by (simp add: RebuildProjection_def Let_def gx_ok_def rows_ok_def)

lemma ok_xf_switch:
  assumes "gx_ok s"
  shows "gx_ok (snd (xf_switch reg v (bits, s)))"
proof -
  have "unat (Bits v 6 0) < 2 ^ 31" using unat_Bits [of v 6 0] by simp
  note mtx = ok_SetCurrentMtx [OF assms this]
  have view: "gx_ok (s\<lparr>mViewport := upd (unat (reg - 0x1A)) (\<lambda>_. v) (mViewport s)\<rparr>)" if "0x1A \<le> reg" "reg \<le> 0x1F"
    using reg_index [OF that] assms by (simp add: gx_ok_def)
  have proj: "gx_ok (s\<lparr>mProjParams := upd (unat (reg - 0x20)) (\<lambda>_. v) (mProjParams s)\<rparr>)" if "0x20 \<le> reg" "reg \<le> 0x25"
    using reg_index [OF that] assms by (simp add: gx_ok_def)
  have ortho: "gx_ok (s\<lparr>mProjOrtho := b\<rparr>)" for b using assms by (simp add: gx_ok_def)
  have gen: "gx_ok (on_texgen (unat (reg - lo)) f s)" if "lo \<le> reg" "reg < lo + 8" "unat lo < 2 ^ 31" for lo f
  proof -
    have "unat (lo + 8) = unat lo + 8" using that(3) by (simp add: unat_word_ariths)
    then have "unat (reg - lo) < 8" using that by (simp add: word_le_nat_alt word_less_nat_alt unat_sub)
    then show ?thesis by (rule ok_on_texgen [OF assms])
  qed
  show ?thesis
    using assms mtx view proj ortho gen [where lo = "0x40"] gen [where lo = "0x50"]
    by (simp add: xf_switch_def Let_def ok_channels ok_SetChanCtrl ok_set_slot ok_Rebuild upt_4)
qed

lemma ok_ApplyXFRegister:
  assumes "gx_ok s"
  shows "gx_ok (ApplyXFRegister reg v s)"
proof -
  have "gx_ok (s\<lparr>mGeneration := g\<rparr>)" for g using assms by (simp add: gx_ok_def)
  then have "gx_ok (snd (xf_switch reg v (bits, s\<lparr>mGeneration := mGeneration s + 1\<rparr>)))" for bits
    by (rule ok_xf_switch)
  moreover have "gx_ok (s\<lparr>mDirty := d\<rparr>) = gx_ok s" for s d by (simp add: gx_ok_def)
  ultimately show ?thesis by (simp add: ApplyXFRegister_def Let_def split: prod.splits)
       (metis snd_conv)
qed

lemma ok_xf_word:
  assumes "gx_ok s"
  shows "gx_ok (xf_word a w s)"
proof -
  have fields: "rows_ok 30 (mPosRows s)" "rows_ok 30 (mTexRows s)" "length (mNrmRows s) = 30" "rows_ok 30 (mNrmRows s)"
    "length (mPostRows s) = 60" "rows_ok 60 (mPostRows s)" "length (mLights s) = 8" "list_all light_ok (mLights s)"
    using assms by (simp_all add: gx_ok_def rows_ok_def)
  have up: "rows_ok n (upd i (upd j f) rows)" if "rows_ok n rows" "i < n" "j < 4" for n i j rows and f :: "u32 \<Rightarrow> u32"
    using that by (intro rows_ok_upd) simp_all
  have col: "unat (b mod 4) < 4" "unat (b mod 3) < 4" "unat (b mod 16) < 16" for b :: u32
    by (simp_all add: unat_mod order.strict_trans [OF mod_less_divisor, of 3])
  have light: "light_ok (xf_light k w l)" if "k < 16" "light_ok l" for k l
    using that by (simp add: xf_light_def light_ok_def)
  have lights: "list_all light_ok (upd (unat ((a - 0x600) div 16)) (xf_light (unat ((a - 0x600) mod 16)) w) (mLights s))"
    "unat ((a - 0x600) div 16) < 8" if "0x600 \<le> a" "a < 0x680"
  proof -
    show i: "unat ((a - 0x600) div 16) < 8"
      using that by (simp add: unat_div unat_sub word_le_nat_alt word_less_nat_alt)
    then have "light_ok (mLights s ! unat ((a - 0x600) div 16))"
      using fields(7,8) by (simp add: list_all_length)
    then show "list_all light_ok (upd (unat ((a - 0x600) div 16)) (xf_light (unat ((a - 0x600) mod 16)) w) (mLights s))"
      using i fields(7,8) light col(3) by (intro list_all_upd) simp_all
  qed
  have put: "gx_ok (s\<lparr>mPosRows := r\<rparr>)" "gx_ok (s\<lparr>mTexRows := r\<rparr>)" "gx_ok (s\<lparr>mNrmRows := r\<rparr>)" if "rows_ok 30 r" for r
    using that assms by (simp_all add: gx_ok_def)
  have put60: "gx_ok (s\<lparr>mPostRows := r\<rparr>)" if "rows_ok 60 r" for r using that assms by (simp add: gx_ok_def)
  have putl: "gx_ok (s\<lparr>mLights := r\<rparr>)" if "list_all light_ok r" "length r = 8" for r
    using that assms by (simp add: gx_ok_def)
  have sub: "row - 30 < 30" if "row < 60" "\<not> row < 30" for row :: nat using that by simp
  have matrix: "gx_ok (xf_word a w s)" if "a < 0x100"
  proof -
    let ?row = "unat (a div 4)"
    have "?row - 30 < 30" if "?row < 60" "\<not> ?row < 30" using that by linarith
    with that show ?thesis
      by (auto simp: xf_word_def Let_def assms intro!: put up fields col)
  qed
  have normal: "gx_ok (xf_word a w s)" if "0x400 \<le> a" "a < 0x460"
    using that by (auto simp: xf_word_def Let_def assms fields(3) word_le_nat_alt word_less_nat_alt
        intro!: put up fields col)
  have post: "gx_ok (xf_word a w s)" if "0x500 \<le> a" "a < 0x600"
    using that by (auto simp: xf_word_def Let_def assms fields(5) word_le_nat_alt word_less_nat_alt
        intro!: put60 up fields col)
  have lit: "gx_ok (xf_word a w s)" if "0x600 \<le> a" "a < 0x680"
    using that putl [OF lights(1) [OF that]] lights(2) [OF that] fields(7)
    by (auto simp: xf_word_def word_le_nat_alt word_less_nat_alt)
  have rest: "gx_ok (xf_word a w s)"
    if "\<not> a < 0x100" "\<not> (0x400 \<le> a \<and> a < 0x460)" "\<not> (0x500 \<le> a \<and> a < 0x600)" "\<not> (0x600 \<le> a \<and> a < 0x680)"
    unfolding xf_word_def if_not_P [OF that(1)] if_not_P [OF that(2)] if_not_P [OF that(3)] if_not_P [OF that(4)]
    by (simp add: assms ok_ApplyXFRegister)
  from matrix normal post lit rest show ?thesis by blast
qed

lemma ok_xf_words: "gx_ok s \<Longrightarrow> gx_ok (xf_words ws a s)"
  by (induction ws arbitrary: a s) (simp_all add: ok_xf_word)

lemma ok_xf_shadow: "gx_ok s \<Longrightarrow> gx_ok (xf_shadow ws a s)"
  by (induction ws arbitrary: a s) (simp_all add: gx_ok_def)

lemma ok_ApplyXF:
  assumes "gx_ok s"
  shows "gx_ok (ApplyXF address ws s)"
proof -
  have "gx_ok (s\<lparr>mGeneration := g\<rparr>)" for g using assms by (simp add: gx_ok_def)
  moreover have "gx_ok (s\<lparr>mDirty := d\<rparr>) = gx_ok s" for s d by (simp add: gx_ok_def)
  ultimately show ?thesis by (simp add: ApplyXF_def Let_def ok_xf_words ok_xf_shadow)
qed

section \<open>The initial state\<close>

lemma ok_members: "gx_ok gx_members"
  by (simp add: gx_ok_def gx_members_def tev_ok_def vertex_ok_def rows_ok_def light_ok_def light_init_def stage_ok_def tev_stage_init_def swap_ok_def swap_init_def list_all_iff)

lemma ok_fold: "gx_ok s \<Longrightarrow> (\<And>i s. i \<in> set xs \<Longrightarrow> gx_ok s \<Longrightarrow> gx_ok (f i s)) \<Longrightarrow> gx_ok (fold f xs s)"
  by (induction xs arbitrary: s) simp_all

lemma rows_ok_identity: "rows_ok n rows \<Longrightarrow> k \<le> n \<Longrightarrow> rows_ok n (identity_rows k rows)"
proof -
  have "set xs \<subseteq> {..<n} \<Longrightarrow> rows_ok n rows \<Longrightarrow>
      rows_ok n (fold (\<lambda>r. upd r (\<lambda>row. row[r := f32_one])) xs rows)" for xs
    by (induction xs arbitrary: rows) (simp_all add: rows_ok_upd)
  then show "rows_ok n rows \<Longrightarrow> k \<le> n \<Longrightarrow> ?thesis" by (simp add: identity_rows_def subset_iff)
qed

lemma ok_State: "gx_ok State"
proof -
  define s1 where "s1 = fold (\<lambda>i s. SetTevOp (of_nat i) Replace
                (SetTevOrder (of_nat i) (if i < 8 then of_nat i else 0xFF) (if i < 8 then of_nat i else 0xFF) 4 s))
              [0..<16] gx_members"
  define s2 where "s2 = (SetNumTevStages 1 s1)\<lparr>mTev := (mTev (SetNumTevStages 1 s1))\<lparr>t_swapTable :=
                [swap_init 0 1 2 3, swap_init 0 0 0 3, swap_init 1 1 1 3, swap_init 2 2 2 3]\<rparr>\<rparr>"
  define s3 where "s3 = fold (\<lambda>i. SetTexCoordGen2 (of_nat i) 1 (of_nat (4 + i)) kIdentityMtx False kPtIdentity) [0..<8] s2"
  define s4 where "s4 = fold (\<lambda>c. SetChanCtrl (of_nat c) False 0 1 0 0 2) [0..<4] (SetNumChans 0 (SetNumTexGens 1 s3))"
  have "gx_ok s1" unfolding s1_def by (intro ok_fold ok_members) (simp add: ok_setters)
  then have "gx_ok (SetNumTevStages 1 s1)" by (rule ok_SetNumTevStages)
  then have "gx_ok s2" by (simp add: s2_def gx_ok_def tev_ok_def swap_ok_def swap_init_def)
  then have "gx_ok s3" unfolding s3_def by (intro ok_fold) (simp_all add: ok_setters)
  then have s4: "gx_ok s4" unfolding s4_def by (intro ok_fold) (simp_all add: ok_setters)
  have eq: "State = s4\<lparr>mPosRows := identity_rows 3 (mPosRows s4), mNrmRows := identity_rows 3 (mNrmRows s4),
           mProj := identity_rows 4 (mProj s4), mPixel := (mPixel gx_members)\<lparr>p_alphaWrite := True\<rparr>\<rparr>"
    by (simp add: State_def s4_def s3_def s2_def s1_def Let_def)
  show ?thesis unfolding eq using s4 by (simp add: gx_ok_def rows_ok_identity)
qed

text \<open>The states a stream of register writes reaches from \<open>GXInit\<close>'s.\<close>

datatype gx_write = BP u32 | XF u32 "u32 list"

fun gx_apply :: "gx_write \<Rightarrow> gx_state \<Rightarrow> gx_state" where
  "gx_apply (BP w) s = ApplyBP w s"
| "gx_apply (XF a ws) s = ApplyXF a ws s"

definition gx_run :: "gx_write list \<Rightarrow> gx_state" where
  "gx_run ws = fold gx_apply ws State"

lemma gx_run_snoc: "gx_run (ws @ [w]) = gx_apply w (gx_run ws)"
  by (simp add: gx_run_def)

lemma gx_run_keeps_ok: "gx_ok (gx_run ws)"
proof (induction ws rule: rev_induct)
  case Nil
  then show ?case by (simp add: gx_run_def ok_State)
next
  case (snoc w ws)
  then show ?case by (cases w) (simp_all add: gx_run_snoc ok_ApplyBP ok_ApplyXF)
qed

text \<open>C6: Whatever BP and XF registers a stream writes, in whatever order and with whatever values, from
  the state GXInit leaves every array of the GX state keeps its length, so no write of ApplyBP or ApplyXF ever leaves
  its array; there are 1 to 16 combiner stages, at most 2 colour channels and at most 8 texture coordinates, the current
  position matrix lies within the 30 rows, and every swap table a stage names, and every component the tables name, is
  one of the four. Nothing is said of the matrices of texture coordinates: XF may name one behind the last.\<close>

theorem gx_run_ok: "gx_ok (gx_run ws)"
  by (rule gx_run_keeps_ok)

end
