(* ===== verification/Vertex_Stream.thy ===== *)
theory Vertex_Stream
  imports Gx_State
begin

text \<open>
  src/format/gx/vertex_stream.cpp: packed vertex records and their conversion to the shader's
  floats. The scale of a fixed-point component is a power of two and is kept as its exponent; the
  product of a 16-bit integer with it is exact. The two enumerations of component and colour types
  are the numbers a vertex table holds.
\<close>

definition VaPnMtxIdx :: u8 where "VaPnMtxIdx = 0"
definition VaPos :: u8 where "VaPos = 9"
definition VaNrm :: u8 where "VaNrm = 10"
definition VaClr0 :: u8 where "VaClr0 = 11"
definition VaClr1 :: u8 where "VaClr1 = 12"
definition VaTex0 :: u8 where "VaTex0 = 13"
definition VaCount :: nat where "VaCount = 21"
definition kVertexFloats :: nat where "kVertexFloats = 32"

lemmas va_defs = VaPnMtxIdx_def VaPos_def VaNrm_def VaClr0_def VaClr1_def VaTex0_def VaCount_def kVertexFloats_def

record AttrFormat =
  f_count :: u8
  f_type :: u8
  f_frac :: u8

record VertexFormat =
  present :: "bool list"
  format :: "AttrFormat list"

definition CompSize :: "u8 \<Rightarrow> nat" where
  "CompSize type = (if type \<le> 1 then 1 else if type \<le> 3 then 2 else if type = 4 then 4 else 0)"

definition ColorSize :: "u8 \<Rightarrow> nat" where
  "ColorSize type = (if type = 0 \<or> type = 3 then 2 else if type = 1 \<or> type = 4 then 3
     else if type = 2 \<or> type = 5 then 4 else 0)"

definition Components :: "u8 \<Rightarrow> u8 \<Rightarrow> nat" where
  "Components attr count = (if attr = VaPos then (if count \<noteq> 0 then 3 else 2)
     else if attr = VaNrm then (if count \<noteq> 0 then 9 else 3)
     else if count \<noteq> 0 then 2 else 1)"

definition AttrSize :: "u8 \<Rightarrow> AttrFormat \<Rightarrow> nat" where
  "AttrSize attr f =
     (if attr \<le> 8 then 1
      else if attr = VaClr0 \<or> attr = VaClr1 then (if f_type f \<le> 5 then ColorSize (f_type f) else 0)
      else if 4 < f_type f then 0
      else Components attr (f_count f) * CompSize (f_type f))"

definition PackedAttrSize :: "u8 \<Rightarrow> AttrFormat \<Rightarrow> nat" where
  "PackedAttrSize attr f = AttrSize attr f"

text \<open>The sum over the present attributes, abandoned at the first whose format is invalid.\<close>

primrec packed_size :: "VertexFormat \<Rightarrow> nat list \<Rightarrow> nat \<Rightarrow> nat" where
  "packed_size fmt [] acc = acc"
| "packed_size fmt (attr # attrs) acc =
     (if \<not> present fmt ! attr then packed_size fmt attrs acc
      else let bytes = AttrSize (of_nat attr) (format fmt ! attr) in
        if bytes = 0 then 0 else packed_size fmt attrs (acc + bytes))"

definition PackedVertexSize :: "VertexFormat \<Rightarrow> nat" where
  "PackedVertexSize fmt = packed_size fmt [0..<VaCount] 0"

section \<open>Reading components\<close>

text \<open>\<open>shift\<close> is the exponent of the scale: the component times \<open>2\<^bsup>-shift\<^esup>\<close>.\<close>

definition ReadComp :: "bytes \<Rightarrow> nat \<Rightarrow> u8 \<Rightarrow> nat \<Rightarrow> f32 option" where
  "ReadComp src at type shift =
     (if type = 0 then do { b \<leftarrow> rd src at; Some (f32_ratio (uint b) (2 ^ shift)) }
      else if type = 1 then do { b \<leftarrow> rd src at; Some (f32_ratio (sint b) (2 ^ shift)) }
      else if type = 2 then do { w \<leftarrow> read16 src at; Some (f32_ratio (uint w) (2 ^ shift)) }
      else if type = 3 then do { w \<leftarrow> read16 src at; Some (f32_ratio (sint w) (2 ^ shift)) }
      else if type = 4 then read32 src at
      else Some 0)"

definition ReadColor :: "bytes \<Rightarrow> nat \<Rightarrow> u8 \<Rightarrow> f32 list option" where
  "ReadColor src at type =
     do { (r, g, b, a) \<leftarrow>
            (if type = 0 then do { w \<leftarrow> read16 src at; let v = unat w in
               Some (v div 2 ^ 11 mod 32 * 255 div 31, v div 2 ^ 5 mod 64 * 255 div 63, v mod 32 * 255 div 31, 255) }
             else if type = 1 \<or> type = 2 then do { r \<leftarrow> rd src at; g \<leftarrow> rd src (at + 1); b \<leftarrow> rd src (at + 2);
               Some (unat r, unat g, unat b, 255) }
             else if type = 3 then do { w \<leftarrow> read16 src at; let v = unat w in
               Some (v div 2 ^ 12 mod 16 * 17, v div 2 ^ 8 mod 16 * 17, v div 2 ^ 4 mod 16 * 17, v mod 16 * 17) }
             else if type = 4 then do { x \<leftarrow> rd src at; y \<leftarrow> rd src (at + 1); z \<leftarrow> rd src (at + 2);
               let v = unat x * 2 ^ 16 + unat y * 2 ^ 8 + unat z in
               Some (v div 2 ^ 18 mod 64 * 255 div 63, v div 2 ^ 12 mod 64 * 255 div 63,
                     v div 2 ^ 6 mod 64 * 255 div 63, v mod 64 * 255 div 63) }
             else if type = 5 then do { r \<leftarrow> rd src at; g \<leftarrow> rd src (at + 1); b \<leftarrow> rd src (at + 2); a \<leftarrow> rd src (at + 3);
               Some (unat r, unat g, unat b, unat a) }
             else Some (0, 0, 0, 255));
          Some [f32_div255 (int r), f32_div255 (int g), f32_div255 (int b), f32_div255 (int a)] }"

section \<open>The conversion\<close>

datatype step_kind = kMtxIdx | kSkip | kColor | kComp

record step =
  st_kind :: step_kind
  st_type :: u8
  st_comp :: nat
  st_n :: nat
  st_keep :: nat
  st_target :: nat
  st_offset :: nat
  st_shift :: nat

text \<open>The scale of a normal is fixed: 7, 6, 15, 14 fractional bits, none for a float.\<close>

definition normal_shift :: "u8 \<Rightarrow> nat" where
  "normal_shift type = (if type = 0 then 7 else if type = 1 then 6 else if type = 2 then 15 else if type = 3 then 14 else 0)"

definition step_of :: "u8 \<Rightarrow> AttrFormat \<Rightarrow> nat \<Rightarrow> step" where
  "step_of attr f offset =
     (let s = \<lparr>st_kind = kSkip, st_type = f_type f, st_comp = 0, st_n = 0, st_keep = 0, st_target = 0,
               st_offset = offset, st_shift = 0\<rparr> in
      if attr = VaPnMtxIdx then s\<lparr>st_kind := kMtxIdx\<rparr>
      else if attr \<le> 8 then s
      else if attr = VaClr0 \<or> attr = VaClr1 then s\<lparr>st_kind := kColor, st_target := if attr = VaClr0 then 6 else 10\<rparr>
      else let n = Components attr (f_count f) in
        s\<lparr>st_kind := kComp, st_comp := CompSize (f_type f),
          st_shift := if attr = VaNrm then normal_shift (f_type f) else unat (f_frac f AND 31),
          st_n := n, st_keep := if attr = VaNrm then 3 else n,
          st_target := if attr = VaPos then 0 else if attr = VaNrm then 3 else 14 + unat (attr - VaTex0) * 2\<rparr>)"

text \<open>The steps of a record and its stride; nothing where a format is invalid.\<close>

primrec make_steps :: "VertexFormat \<Rightarrow> nat list \<Rightarrow> step list \<times> nat \<Rightarrow> (step list \<times> nat) option" where
  "make_steps fmt [] acc = Some acc"
| "make_steps fmt (attr # attrs) acc =
     (if \<not> present fmt ! attr then make_steps fmt attrs acc
      else let bytes = AttrSize (of_nat attr) (format fmt ! attr);
               s = step_of (of_nat attr) (format fmt ! attr) (snd acc) in
        if bytes = 0 then None
        else make_steps fmt attrs (if st_kind s \<noteq> kSkip then fst acc @ [s] else fst acc, snd acc + bytes))"

primrec run_comps :: "bytes \<Rightarrow> step \<Rightarrow> nat \<Rightarrow> nat \<Rightarrow> nat list \<Rightarrow> f32 list \<Rightarrow> f32 list option" where
  "run_comps src s at v [] out = Some out"
| "run_comps src s at v (c # cs) out =
     do { x \<leftarrow> ReadComp src (at + c * st_comp s) (st_type s) (st_shift s);
          out \<leftarrow> wr out (v + st_target s + c) x;
          run_comps src s at v cs out }"

definition run_step :: "bytes \<Rightarrow> nat \<Rightarrow> nat \<Rightarrow> step \<Rightarrow> f32 list \<Rightarrow> f32 list option" where
  "run_step src p v s out =
     (case st_kind s of
        kComp \<Rightarrow> run_comps src s (p + st_offset s) v [0..<st_keep s] out
      | kColor \<Rightarrow> do { rgba \<leftarrow> ReadColor src (p + st_offset s) (st_type s); putn out (v + st_target s) rgba }
      | _ \<Rightarrow> do { b \<leftarrow> rd src (p + st_offset s); wr out (v + 30) (f32_ratio (uint (b AND 0x3F)) 1) })"

primrec run_steps :: "bytes \<Rightarrow> nat \<Rightarrow> nat \<Rightarrow> step list \<Rightarrow> f32 list \<Rightarrow> f32 list option" where
  "run_steps src p v [] out = Some out"
| "run_steps src p v (s # steps) out = do { out \<leftarrow> run_step src p v s out; run_steps src p v steps out }"

definition convert_one :: "bytes \<Rightarrow> step list \<Rightarrow> bool \<Rightarrow> bool \<Rightarrow> nat \<Rightarrow> nat \<Rightarrow> f32 list \<Rightarrow> f32 list option" where
  "convert_one src steps white0 white1 p v out =
     do { out \<leftarrow> putn out v (replicate kVertexFloats 0);
          out \<leftarrow> run_steps src p v steps out;
          out \<leftarrow> (if white0 then putn out (v + 6) (replicate 4 f32_one) else Some out);
          if white1 then putn out (v + 10) (replicate 4 f32_one) else Some out }"

definition convert_body ::
  "bytes \<Rightarrow> step list \<Rightarrow> nat \<Rightarrow> bool \<Rightarrow> bool \<Rightarrow> nat \<Rightarrow> nat \<times> f32 list \<Rightarrow> ((nat \<times> f32 list) + nat \<times> f32 list) option" where
  "convert_body src steps stride white0 white1 count = (\<lambda>(dn, out).
     if dn < count \<and> (dn + 1) * stride \<le> length src
     then do { out \<leftarrow> convert_one src steps white0 white1 (dn * stride) (dn * kVertexFloats) out;
               Some (Inr (dn + 1, out)) }
     else Some (Inl (dn, out)))"

definition ConvertVertices ::
  "VertexFormat \<Rightarrow> bytes option \<Rightarrow> nat \<Rightarrow> f32 list option \<Rightarrow> (nat \<times> f32 list option) option" where
  "ConvertVertices fmt src count out =
     (case make_steps fmt [0..<VaCount] ([], 0) of
        None \<Rightarrow> Some (0, out)
      | Some (steps, stride) \<Rightarrow>
          (case (src, out) of
             (Some src, Some out) \<Rightarrow>
               if stride = 0 then Some (0, Some out)
               else do { (n, out) \<leftarrow> loop (convert_body src steps stride (\<not> present fmt ! unat VaClr0)
                                       (\<not> present fmt ! unat VaClr1) count) (0, out);
                         Some (n, Some out) }
           | _ \<Rightarrow> Some (0, out)))"

section \<open>Sizes\<close>

text \<open>What a component's reader and a step touch.\<close>

definition step_size :: "step \<Rightarrow> nat" where
  "step_size s = (case st_kind s of kComp \<Rightarrow> st_keep s * st_comp s | kColor \<Rightarrow> ColorSize (st_type s) | _ \<Rightarrow> 1)"

definition step_ok :: "nat \<Rightarrow> step \<Rightarrow> bool" where
  "step_ok stride s \<longleftrightarrow> st_offset s + step_size s \<le> stride \<and>
     (case st_kind s of
        kComp \<Rightarrow> st_type s \<le> 4 \<and> st_comp s = CompSize (st_type s) \<and> st_target s + st_keep s \<le> kVertexFloats
      | kColor \<Rightarrow> st_type s \<le> 5 \<and> st_target s + 4 \<le> kVertexFloats
      | _ \<Rightarrow> True)"

lemma step_ok_mono: "step_ok n s \<Longrightarrow> n \<le> m \<Longrightarrow> step_ok m s"
  by (auto simp: step_ok_def)

lemma step_of_ok:
  assumes "attr < 21" "AttrSize (of_nat attr) f \<noteq> 0"
  shows "step_ok (offset + AttrSize (of_nat attr) f) (step_of (of_nat attr) f offset)"
proof -
  have a: "unat (of_nat attr :: u8) = attr" using assms(1) by (intro unat_of_nat_u8) simp
  have v: "(of_nat attr :: u8) = w \<longleftrightarrow> attr = unat w" "(of_nat attr :: u8) \<le> 8 \<longleftrightarrow> attr \<le> 8" for w
    using a by (auto simp: word_unat_eq_iff word_le_nat_alt)
  have tex: "unat (of_nat attr - 13 :: u8) = attr - 13" if "13 \<le> attr"
    using that a by (simp add: unat_sub word_le_nat_alt)
  consider "attr = 0" | "0 < attr" "attr \<le> 8" | "attr = 9" | "attr = 10" | "attr = 11" | "attr = 12" | "13 \<le> attr"
    by linarith
  then show ?thesis
  proof cases
    case 7
    then have "14 + (attr - 13) * 2 + 2 \<le> 32" using assms(1) by simp
    with 7 assms show ?thesis
      by (auto simp: step_of_def step_ok_def step_size_def AttrSize_def v tex va_defs Components_def Let_def
          split: if_splits)
  qed (use assms in \<open>auto simp: step_of_def step_ok_def step_size_def AttrSize_def v va_defs Components_def Let_def
         split: if_splits\<close>)
qed

lemma make_steps_ok:
  assumes "make_steps fmt attrs (steps0, stride0) = Some (steps, stride)"
    and "list_all (step_ok stride0) steps0" "\<forall>a \<in> set attrs. a < 21"
  shows "list_all (step_ok stride) steps \<and> stride0 \<le> stride"
  using assms
proof (induction attrs arbitrary: steps0 stride0)
  case (Cons a attrs)
  show ?case
  proof (cases "present fmt ! a")
    case False
    with Cons show ?thesis by simp
  next
    case True
    let ?bytes = "AttrSize (of_nat a) (format fmt ! a)" and ?s = "step_of (of_nat a) (format fmt ! a) stride0"
    from True Cons.prems(1) have b: "?bytes \<noteq> 0" and
      m: "make_steps fmt attrs (if st_kind ?s \<noteq> kSkip then steps0 @ [?s] else steps0, stride0 + ?bytes) = Some (steps, stride)"
      by (auto simp: Let_def split: if_splits)
    have "step_ok (stride0 + ?bytes) ?s" using Cons.prems(3) b by (intro step_of_ok) auto
    moreover have "list_all (step_ok (stride0 + ?bytes)) steps0"
      using Cons.prems(2) by (auto simp: list_all_iff intro: step_ok_mono)
    ultimately have "list_all (step_ok (stride0 + ?bytes)) (if st_kind ?s \<noteq> kSkip then steps0 @ [?s] else steps0)"
      by simp
    from Cons.IH [OF m this] Cons.prems(3) show ?thesis by auto
  qed
qed simp

text \<open>The stride of the steps is the packed size, 0 standing for an invalid format in both.\<close>

lemma make_steps_size:
  "packed_size fmt attrs n = (case make_steps fmt attrs (steps, n) of None \<Rightarrow> 0 | Some (_, stride) \<Rightarrow> stride)"
proof (induction attrs arbitrary: steps n)
  case (Cons a attrs)
  show ?case
  proof (cases "present fmt ! a \<and> AttrSize (of_nat a) (format fmt ! a) \<noteq> 0")
    case True
    then show ?thesis using Cons.IH by (simp add: Let_def)
  next
    case False
    then show ?thesis using Cons.IH by (auto simp: Let_def)
  qed
qed simp

section \<open>A record at a time\<close>

lemma rd_slice: "p + n \<le> length xs \<Longrightarrow> i < n \<Longrightarrow> rd (take n (drop p xs)) i = rd xs (p + i)"
  by (simp add: rd_def)

lemma read16_slice: "p + n \<le> length xs \<Longrightarrow> i + 2 \<le> n \<Longrightarrow> read16 (take n (drop p xs)) i = read16 xs (p + i)"
  by (simp add: read16_def rd_slice)

lemma read32_slice: "p + n \<le> length xs \<Longrightarrow> i + 4 \<le> n \<Longrightarrow> read32 (take n (drop p xs)) i = read32 xs (p + i)"
  by (simp add: read32_def rd_slice add.assoc)

lemma CompSize_simps:
  "CompSize 0 = 1" "CompSize 1 = 1" "CompSize 2 = 2" "CompSize 3 = 2" "CompSize 4 = 4"
  by (simp_all add: CompSize_def word_le_nat_alt)

lemma ReadComp_slice:
  assumes "p + n \<le> length src" "i + CompSize type \<le> n" "type \<le> 4"
  shows "ReadComp (take n (drop p src)) i type shift = ReadComp src (p + i) type shift"
    and "\<exists>x. ReadComp src (p + i) type shift = Some x"
proof -
  have "type = 0 \<or> type = 1 \<or> type = 2 \<or> type = 3 \<or> type = 4"
    using assms(3) unat_of_nat_u8 by (auto simp: word_le_nat_alt word_unat_eq_iff)
  then show "ReadComp (take n (drop p src)) i type shift = ReadComp src (p + i) type shift"
    "\<exists>x. ReadComp src (p + i) type shift = Some x"
    using assms by (auto simp: ReadComp_def CompSize_simps rd_slice read16_slice read32_slice rd_Some read16_Some read32_Some add.assoc)
qed

lemma ReadColor_slice:
  assumes "p + n \<le> length src" "i + ColorSize type \<le> n" "type \<le> 5"
  shows "ReadColor (take n (drop p src)) i type = ReadColor src (p + i) type"
    and "\<exists>x. ReadColor src (p + i) type = Some x \<and> length x = 4"
proof -
  have "type = 0 \<or> type = 1 \<or> type = 2 \<or> type = 3 \<or> type = 4 \<or> type = 5"
    using assms(3) by (auto simp: word_le_nat_alt word_unat_eq_iff)
  then show "ReadColor (take n (drop p src)) i type = ReadColor src (p + i) type"
    "\<exists>x. ReadColor src (p + i) type = Some x \<and> length x = 4"
    using assms by (elim disjE; simp add: ReadColor_def ColorSize_def rd_slice read16_slice rd_Some read16_Some
        Let_def add.assoc)+
qed

text \<open>Writes inside the window \<open>R\<close> of a buffer.\<close>

lemma wr_window: "k < length R \<Longrightarrow> wr (A @ R @ B) (length A + k) x = map_option (\<lambda>R. A @ R @ B) (wr R k x)"
  by (simp add: wr_def list_update_append)

lemma putn_window:
  "k + length xs \<le> length R \<Longrightarrow> putn (A @ R @ B) (length A + k) xs = map_option (\<lambda>R. A @ R @ B) (putn R k xs)"
  by (simp add: putn_def)

lemma run_comps_window:
  assumes "p + n \<le> length src" "\<forall>c \<in> set cs. i + c * st_comp s + CompSize (st_type s) \<le> n" "st_type s \<le> 4"
    and "\<forall>c \<in> set cs. st_target s + c < length R"
  shows "\<exists>R'. run_comps (take n (drop p src)) s i 0 cs R = Some R' \<and> length R' = length R \<and>
     run_comps src s (p + i) (length A) cs (A @ R @ B) = Some (A @ R' @ B)"
  using assms
proof (induction cs arbitrary: R)
  case (Cons c cs)
  have c: "i + c * st_comp s + CompSize (st_type s) \<le> n" "st_target s + c < length R" using Cons.prems by simp_all
  obtain x where x: "ReadComp src (p + (i + c * st_comp s)) (st_type s) (st_shift s) = Some x"
    "ReadComp (take n (drop p src)) (i + c * st_comp s) (st_type s) (st_shift s) = Some x"
    using ReadComp_slice [OF Cons.prems(1) c(1) Cons.prems(3)] by metis
  obtain R' where "run_comps (take n (drop p src)) s i 0 cs (R[st_target s + c := x]) = Some R'" "length R' = length R"
    "run_comps src s (p + i) (length A) cs (A @ R[st_target s + c := x] @ B) = Some (A @ R' @ B)"
    using Cons.IH [of "R[st_target s + c := x]"] Cons.prems by auto
  with x c(2) show ?case
    using wr_window [of "st_target s + c" R A B x] by (simp add: wr_Some add.assoc)
qed simp

lemma run_step_window:
  assumes "p + n \<le> length src" "step_ok n s" "length R = kVertexFloats"
  shows "\<exists>R'. run_step (take n (drop p src)) 0 0 s R = Some R' \<and> length R' = kVertexFloats \<and>
     run_step src p (length A) s (A @ R @ B) = Some (A @ R' @ B)"
proof (cases "st_kind s = kComp")
  case True
  with assms(2) have k: "st_offset s + st_keep s * st_comp s \<le> n" "st_type s \<le> 4" "st_comp s = CompSize (st_type s)"
    "st_target s + st_keep s \<le> kVertexFloats" by (auto simp: step_ok_def step_size_def)
  have "st_offset s + c * st_comp s + CompSize (st_type s) \<le> n" if "c < st_keep s" for c
  proof -
    have "(c + 1) * st_comp s \<le> st_keep s * st_comp s" using that by (intro mult_le_mono1) simp
    with k(1,3) show ?thesis by simp
  qed
  then show ?thesis
    using run_comps_window [OF assms(1), of "[0..<st_keep s]" "st_offset s" s R A B] k True assms(3)
    by (auto simp: run_step_def)
next
  case notComp: False
  show ?thesis
  proof (cases "st_kind s = kColor")
    case True
    with assms(2) have k: "st_offset s + ColorSize (st_type s) \<le> n" "st_type s \<le> 5" "st_target s + 4 \<le> kVertexFloats"
      by (auto simp: step_ok_def step_size_def)
    obtain x where x: "ReadColor src (p + st_offset s) (st_type s) = Some x" "length x = 4"
      "ReadColor (take n (drop p src)) (st_offset s) (st_type s) = Some x"
      using ReadColor_slice [OF assms(1) k(1,2)] by metis
    then show ?thesis using True k(3) assms(3) putn_window [of "st_target s" x R A B]
      by (simp add: run_step_def putn_Some)
  next
    case False
    with notComp assms(2) have k: "st_offset s < n" by (cases "st_kind s") (auto simp: step_ok_def step_size_def)
    then show ?thesis using False notComp assms rd_slice [OF assms(1) k] wr_window [of 30 R A B]
      by (cases "st_kind s") (auto simp: run_step_def rd_Some wr_Some kVertexFloats_def)
  qed
qed

lemma run_steps_window:
  assumes "p + n \<le> length src" "list_all (step_ok n) steps" "length R = kVertexFloats"
  shows "\<exists>R'. run_steps (take n (drop p src)) 0 0 steps R = Some R' \<and> length R' = kVertexFloats \<and>
     run_steps src p (length A) steps (A @ R @ B) = Some (A @ R' @ B)"
  using assms
proof (induction steps arbitrary: R)
  case (Cons s steps)
  then obtain R1 where "run_step (take n (drop p src)) 0 0 s R = Some R1" "length R1 = kVertexFloats"
     "run_step src p (length A) s (A @ R @ B) = Some (A @ R1 @ B)"
    using run_step_window [OF Cons.prems(1), of s R A B] by auto
  with Cons.IH [of R1] Cons.prems show ?case by auto
qed simp

text \<open>The record a slice of the stream becomes.\<close>

definition vertex_record :: "step list \<Rightarrow> bool \<Rightarrow> bool \<Rightarrow> bytes \<Rightarrow> f32 list option" where
  "vertex_record steps white0 white1 packed = convert_one packed steps white0 white1 0 0 (replicate kVertexFloats 0)"

lemma convert_one_window:
  assumes "p + n \<le> length src" "list_all (step_ok n) steps" "length R = kVertexFloats"
  shows "\<exists>R'. vertex_record steps white0 white1 (take n (drop p src)) = Some R' \<and> length R' = kVertexFloats \<and>
     convert_one src steps white0 white1 p (length A) (A @ R @ B) = Some (A @ R' @ B)"
proof -
  let ?Z = "replicate kVertexFloats (0 :: f32)"
  have z: "putn (A @ R @ B) (length A) ?Z = Some (A @ ?Z @ B)"
    using putn_window [of 0 ?Z R A B] assms(3) by (simp add: putn_Some)
  have z0: "putn ?Z 0 ?Z = Some ?Z" by (simp add: putn_Some)
  obtain R1 where R1: "run_steps (take n (drop p src)) 0 0 steps ?Z = Some R1" "length R1 = kVertexFloats"
     "run_steps src p (length A) steps (A @ ?Z @ B) = Some (A @ R1 @ B)"
    using run_steps_window [OF assms(1,2), of ?Z A B] by auto
  have w: "\<exists>S. (if b then putn (A @ R @ B) (length A + k) (replicate 4 f32_one) else Some (A @ R @ B)) = Some (A @ S @ B) \<and>
     (if b then putn R k (replicate 4 f32_one) else Some R) = Some S \<and> length S = kVertexFloats"
    if "length R = kVertexFloats" "k + 4 \<le> kVertexFloats" for b k R
    using that putn_window [of k "replicate 4 f32_one" R A B] by (auto simp: putn_Some)
  obtain R2 where R2: "(if white0 then putn (A @ R1 @ B) (length A + 6) (replicate 4 f32_one) else Some (A @ R1 @ B)) = Some (A @ R2 @ B)"
     "(if white0 then putn R1 6 (replicate 4 f32_one) else Some R1) = Some R2" "length R2 = kVertexFloats"
    using w [OF R1(2), of 6 white0] by (auto simp: kVertexFloats_def)
  obtain R3 where R3: "(if white1 then putn (A @ R2 @ B) (length A + 10) (replicate 4 f32_one) else Some (A @ R2 @ B)) = Some (A @ R3 @ B)"
     "(if white1 then putn R2 10 (replicate 4 f32_one) else Some R2) = Some R3" "length R3 = kVertexFloats"
    using w [OF R2(3), of 10 white1] by (auto simp: kVertexFloats_def)
  have "convert_one src steps white0 white1 p (length A) (A @ R @ B) = Some (A @ R3 @ B)"
    unfolding convert_one_def by (simp only: z R1(3) R2(1) R3(1) bind.bind_lunit)
  moreover have "vertex_record steps white0 white1 (take n (drop p src)) = Some R3"
    unfolding vertex_record_def convert_one_def by (simp only: z0 R1(1) R2(2) R3(2) bind.bind_lunit add_0)
  ultimately show ?thesis using R3(3) by blast
qed

definition converted :: "step list \<Rightarrow> nat \<Rightarrow> bool \<Rightarrow> bool \<Rightarrow> bytes \<Rightarrow> nat \<Rightarrow> f32 list option" where
  "converted steps stride white0 white1 src i = vertex_record steps white0 white1 (take stride (drop (i * stride) src))"

lemma convert_loop:
  fixes src :: bytes and count stride :: nat
  assumes steps: "list_all (step_ok stride) steps" and stride: "0 < stride"
    and room: "count * kVertexFloats \<le> length out0"
  defines "n \<equiv> min count (length src div stride)"
  shows "\<exists>r. loop (convert_body src steps stride white0 white1 count) (0, out0) = Some r \<and>
     fst r = n \<and> length (snd r) = length out0 \<and> drop (n * kVertexFloats) (snd r) = drop (n * kVertexFloats) out0 \<and>
     (\<forall>i < n. converted steps stride white0 white1 src i = getn (snd r) (i * kVertexFloats) kVertexFloats)"
proof (rule loop_total [where m = "\<lambda>(k, out). count - k" and I = "\<lambda>(k, out). k \<le> n \<and> length out = length out0 \<and>
      drop (k * kVertexFloats) out = drop (k * kVertexFloats) out0 \<and>
      (\<forall>i < k. converted steps stride white0 white1 src i = getn out (i * kVertexFloats) kVertexFloats)"])
  fix u assume I: "case u of (k, out) \<Rightarrow> k \<le> n \<and> length out = length out0 \<and>
      drop (k * kVertexFloats) out = drop (k * kVertexFloats) out0 \<and>
      (\<forall>i < k. converted steps stride white0 white1 src i = getn out (i * kVertexFloats) kVertexFloats)"
  obtain k out where u: "u = (k, out)" by (cases u)
  with I have k: "k \<le> n" "length out = length out0" "drop (k * kVertexFloats) out = drop (k * kVertexFloats) out0"
    and done_: "\<And>i. i < k \<Longrightarrow> converted steps stride white0 white1 src i = getn out (i * kVertexFloats) kVertexFloats"
    by simp_all
  have fits: "(k + 1) * stride \<le> length src \<longleftrightarrow> k < length src div stride" 
    using stride by (simp add: less_eq_div_iff_mult_less_eq Suc_le_eq [symmetric])
  show "(\<exists>r. convert_body src steps stride white0 white1 count u = Some (Inl r) \<and>
      (fst r = n \<and> length (snd r) = length out0 \<and> drop (n * kVertexFloats) (snd r) = drop (n * kVertexFloats) out0 \<and>
       (\<forall>i < n. converted steps stride white0 white1 src i = getn (snd r) (i * kVertexFloats) kVertexFloats))) \<or>
    (\<exists>u'. convert_body src steps stride white0 white1 count u = Some (Inr u') \<and>
      (case u' of (k, out) \<Rightarrow> k \<le> n \<and> length out = length out0 \<and>
        drop (k * kVertexFloats) out = drop (k * kVertexFloats) out0 \<and>
        (\<forall>i < k. converted steps stride white0 white1 src i = getn out (i * kVertexFloats) kVertexFloats)) \<and>
      (case u' of (k, out) \<Rightarrow> count - k) < (case u of (k, out) \<Rightarrow> count - k))"
  proof (cases "k < count \<and> k < length src div stride")
    case False
    then have "k = n" using k(1) by (auto simp: n_def min_def)
    with False fits k done_ show ?thesis by (auto simp: convert_body_def u)
  next
    case True
    then have kn: "k < n" by (simp add: n_def)
    let ?A = "take (k * kVertexFloats) out" and ?B = "drop ((k + 1) * kVertexFloats) out"
    let ?R = "take kVertexFloats (drop (k * kVertexFloats) out)"
    have len: "(k + 1) * kVertexFloats \<le> length out"
    proof -
      have "(k + 1) * kVertexFloats \<le> count * kVertexFloats" using True by (intro mult_le_mono1) simp
      then show ?thesis using room k(2) by simp
    qed
    then have parts: "length ?A = k * kVertexFloats" "length ?R = kVertexFloats" "?A @ ?R @ ?B = out"
      by (simp_all add: kVertexFloats_def add.commute drop_drop [symmetric] del: drop_drop)
    have "k * stride + stride \<le> length src" using True fits by simp
    from convert_one_window [OF this steps parts(2), of white0 white1 ?A ?B] parts
    obtain R' where R': "converted steps stride white0 white1 src k = Some R'" "length R' = kVertexFloats"
      "convert_one src steps white0 white1 (k * stride) (k * kVertexFloats) out = Some (?A @ R' @ ?B)"
      by (auto simp: converted_def)
    let ?out = "?A @ R' @ ?B"
    have step: "convert_body src steps stride white0 white1 count u = Some (Inr (k + 1, ?out))"
      using True fits R'(3) by (simp add: convert_body_def u)
    have "length ?out = length out0" using len R'(2) k(2) by (simp add: kVertexFloats_def)
    moreover have "drop ((k + 1) * kVertexFloats) ?out = drop ((k + 1) * kVertexFloats) out0"
    proof -
      have "drop ((k + 1) * kVertexFloats) ?out = drop kVertexFloats (drop (k * kVertexFloats) out)"
        using parts(1) R'(2) by (simp add: kVertexFloats_def add.commute)
      then show ?thesis unfolding k(3) by (simp add: kVertexFloats_def add.commute)
    qed
    moreover have "converted steps stride white0 white1 src i = getn ?out (i * kVertexFloats) kVertexFloats"
      if "i < k + 1" for i
    proof (cases "i = k")
      case True
      then show ?thesis using R' parts(1) getn_middle [of R' kVertexFloats ?A ?B] by simp
    next
      case False
      with that have i: "i < k" by simp
      then have "(i + 1) * kVertexFloats \<le> k * kVertexFloats" by (intro mult_le_mono1) simp
      then have "getn ?out (i * kVertexFloats) kVertexFloats = getn out (i * kVertexFloats) kVertexFloats"
        using len parts(1) by (auto simp: getn_def kVertexFloats_def take_drop min_def)
      then show ?thesis using done_ [OF i] by simp
    qed
    ultimately have inv: "case (k + 1, ?out) of (k, out) \<Rightarrow> k \<le> n \<and> length out = length out0 \<and>
        drop (k * kVertexFloats) out = drop (k * kVertexFloats) out0 \<and>
        (\<forall>i < k. converted steps stride white0 white1 src i = getn out (i * kVertexFloats) kVertexFloats)"
      using kn by simp
    have "(case (k + 1, ?out) of (k, out) \<Rightarrow> count - k) < (case u of (k, out) \<Rightarrow> count - k)"
      using True by (simp add: u diff_less_mono2)
    with step inv show ?thesis by blast
  qed
qed simp

text \<open>C5: With room for the records, ConvertVertices returns as many records as there are whole ones in
  the source, each made of its own bytes alone, and writes nothing past them.\<close>

theorem ConvertVertices_records:
  assumes "make_steps fmt [0..<VaCount] ([], 0) = Some (steps, stride)" "0 < stride"
    and "count * kVertexFloats \<le> length out"
  shows "\<exists>n out'. ConvertVertices fmt (Some src) count (Some out) = Some (n, Some out') \<and>
     n = min count (length src div PackedVertexSize fmt) \<and> length out' = length out \<and>
     drop (n * kVertexFloats) out' = drop (n * kVertexFloats) out \<and>
     (\<forall>i < n. converted steps stride (\<not> present fmt ! unat VaClr0) (\<not> present fmt ! unat VaClr1) src i =
        getn out' (i * kVertexFloats) kVertexFloats)"
proof -
  have "list_all (step_ok stride) steps"
    using make_steps_ok [OF assms(1)] by (auto simp: VaCount_def)
  moreover have "PackedVertexSize fmt = stride"
    using make_steps_size [of fmt "[0..<VaCount]" 0 "[]"] assms(1) by (simp add: PackedVertexSize_def)
  ultimately show ?thesis
    using convert_loop [of stride steps count out src "\<not> present fmt ! unat VaClr0" "\<not> present fmt ! unat VaClr1"] assms
    by (fastforce simp: ConvertVertices_def)
qed

lemma attributes: "[0..<VaCount] = [0, 1, 2, 3, 4, 5, 6, 7, 8, 9, 10, 11, 12, 13, 14, 15, 16, 17, 18, 19, 20]"
  by (simp add: VaCount_def upt_conv_Cons)

definition xy_bytes :: VertexFormat where
  "xy_bytes = \<lparr>present = (replicate 21 False)[9 := True], format = replicate 21 \<lparr>f_count = 0, f_type = 0, f_frac = 0\<rparr>\<rparr>"

lemma xy_bytes_steps:
  "make_steps xy_bytes [0..<VaCount] ([], 0) = Some ([\<lparr>st_kind = kComp, st_type = 0, st_comp = 1, st_n = 2,
     st_keep = 2, st_target = 0, st_offset = 0, st_shift = 0\<rparr>], 2)"
  unfolding attributes by (simp add: xy_bytes_def va_defs step_of_def AttrSize_def Components_def CompSize_def nth_list_update Let_def)

lemma ConvertVertices_records_witness:
  "\<exists>n out'. ConvertVertices xy_bytes (Some [1, 2, 3, 4, 5]) 3 (Some (replicate 96 0)) = Some (n, Some out') \<and> n = 2 \<and>
     drop (n * kVertexFloats) out' = drop (n * kVertexFloats) (replicate 96 0)"
proof -
  have "PackedVertexSize xy_bytes = 2"
    using make_steps_size [of xy_bytes "[0..<VaCount]" 0 "[]"] xy_bytes_steps by (simp add: PackedVertexSize_def)
  then show ?thesis
    using ConvertVertices_records [OF xy_bytes_steps, of 3 "replicate 96 0" "[1, 2, 3, 4, 5]"]
    by (auto simp: kVertexFloats_def)
qed

end
