(* ===== verification/Gx_Command.thy ===== *)
theory Gx_Command
  imports Gx_Invariant Vertex_Stream
begin

text \<open>
  src/format/gx/command.cpp: the command processor. Guest memory is the parameter \<open>mem\<close>: the bytes
  at an address, or nothing. The two callbacks are recorded as the list of events they are called
  with; a draw carries its records as bytes. The scratch vectors kept between loads are the lists
  of the load that uses them. \<open>None\<close> is a read outside a buffer.
\<close>

type_synonym memory = "u32 \<Rightarrow> u32 \<Rightarrow> bytes option"

definition kNone :: u8 where "kNone = 0"
definition kDirect :: u8 where "kDirect = 1"
definition kIndex8 :: u8 where "kIndex8 = 2"
definition kIndex16 :: u8 where "kIndex16 = 3"
definition kMaxDepth :: nat where "kMaxDepth = 4"

lemmas attr_type_defs = kNone_def kDirect_def kIndex8_def kIndex16_def

record Draw =
  d_primitive :: u8
  d_table :: u8
  d_count :: u16
  d_format :: VertexFormat
  d_records :: bytes

datatype event = Changed u32 | Drawn Draw

record cp =
  mState :: gx_state
  mVcdLo :: u32
  mVcdHi :: u32
  mVcdSet :: bool
  mVatA :: "u32 list"
  mVatB :: "u32 list"
  mVatC :: "u32 list"
  mArrayBase :: "u32 list"
  mArrayStride :: "u32 list"
  mDepth :: nat
  mFormats :: "VertexFormat list"
  mFormatValid :: u8
  mChangeCause :: u32
  events :: "event list"

definition no_format :: VertexFormat where
  "no_format = \<lparr>present = replicate VaCount False, format = replicate VaCount \<lparr>f_count = 1, f_type = 0, f_frac = 0\<rparr>\<rparr>"

definition CommandProcessor :: "gx_state \<Rightarrow> cp" where
  "CommandProcessor s = \<lparr>mState = s, mVcdLo = 0, mVcdHi = 0, mVcdSet = False, mVatA = replicate 8 0,
     mVatB = replicate 8 0, mVatC = replicate 8 0, mArrayBase = replicate 16 0, mArrayStride = replicate 16 0,
     mDepth = 0, mFormats = replicate 8 no_format, mFormatValid = 0, mChangeCause = 0, events = []\<rparr>"

definition BeforeChange :: "u32 \<Rightarrow> cp \<Rightarrow> cp" where
  "BeforeChange cause c = c\<lparr>mChangeCause := cause, events := events c @ [Changed cause]\<rparr>"

section \<open>The vertex format of a draw\<close>

definition AttrType :: "cp \<Rightarrow> u8 \<Rightarrow> u8" where
  "AttrType c attr =
     (if attr = VaPnMtxIdx then (if Bits (mVcdLo c) 1 0 \<noteq> 0 then kDirect else kNone)
      else if attr \<le> 8 then (if Bits (mVcdLo c) 1 (unat attr) \<noteq> 0 then kDirect else kNone)
      else if attr \<le> VaClr1 then byte_of (Bits (mVcdLo c) 2 (9 + (unat attr - 9) * 2))
      else byte_of (Bits (mVcdHi c) 2 ((unat attr - 13) * 2)))"

definition attr_format :: "u32 \<Rightarrow> u32 \<Rightarrow> u32 \<Rightarrow> AttrFormat" where
  "attr_format count type frac = \<lparr>f_count = byte_of count, f_type = byte_of type, f_frac = byte_of frac\<rparr>"

definition Format :: "cp \<Rightarrow> u8 \<Rightarrow> u8 \<Rightarrow> AttrFormat" where
  "Format c table attr =
     (let t = unat (table AND 7); a = mVatA c ! t; b = mVatB c ! t; v = mVatC c ! t in
      if attr = VaPos then attr_format (Bits a 1 0) (Bits a 3 1) (Bits a 5 4)
      else if attr = VaNrm then attr_format (Bits a 1 9) (Bits a 3 10) 0
      else if attr = VaClr0 then attr_format (Bits a 1 13) (Bits a 3 14) 0
      else if attr = VaClr1 then attr_format (Bits a 1 17) (Bits a 3 18) 0
      else if attr = VaTex0 then attr_format (Bits a 1 21) (Bits a 3 22) (Bits a 5 25)
      else if attr = VaTex0 + 1 then attr_format (Bits b 1 0) (Bits b 3 1) (Bits b 5 4)
      else if attr = VaTex0 + 2 then attr_format (Bits b 1 9) (Bits b 3 10) (Bits b 5 13)
      else if attr = VaTex0 + 3 then attr_format (Bits b 1 18) (Bits b 3 19) (Bits b 5 22)
      else if attr = VaTex0 + 4 then attr_format (Bits b 1 27) (Bits b 3 28) (Bits v 5 0)
      else if attr = VaTex0 + 5 then attr_format (Bits v 1 5) (Bits v 3 6) (Bits v 5 9)
      else if attr = VaTex0 + 6 then attr_format (Bits v 1 14) (Bits v 3 15) (Bits v 5 18)
      else if attr = VaTex0 + 7 then attr_format (Bits v 1 23) (Bits v 3 24) (Bits v 5 27)
      else \<lparr>f_count = 1, f_type = 0, f_frac = 0\<rparr>)"

definition compute_format :: "cp \<Rightarrow> u8 \<Rightarrow> VertexFormat" where
  "compute_format c table =
     \<lparr>present = map (\<lambda>attr. AttrType c (of_nat attr) \<noteq> kNone) [0..<VaCount],
      format = map (\<lambda>attr. Format c table (of_nat attr)) [0..<VaCount]\<rparr>"

definition DirectFormat :: "u8 \<Rightarrow> cp \<Rightarrow> VertexFormat \<times> cp" where
  "DirectFormat table c =
     (let table = table AND 7; t = unat table in
      if mFormatValid c AND push_bit t 1 \<noteq> 0 then (mFormats c ! t, c)
      else let f = compute_format c table in
        (f, c\<lparr>mFormats := upd t (\<lambda>_. f) (mFormats c), mFormatValid := mFormatValid c OR push_bit t 1\<rparr>))"

section \<open>CP registers and indexed XF loads\<close>

definition cp_store :: "u8 \<Rightarrow> u32 \<Rightarrow> cp \<Rightarrow> cp option" where
  "cp_store reg v c =
     (if reg = 0x50 then Some (c\<lparr>mVcdLo := v\<rparr>)
      else if reg = 0x60 then Some (c\<lparr>mVcdHi := v\<rparr>)
      else if 0x70 \<le> reg \<and> reg < 0x78 then Some (c\<lparr>mVatA := upd (unat (reg - 0x70)) (\<lambda>_. v) (mVatA c)\<rparr>)
      else if 0x80 \<le> reg \<and> reg < 0x88 then Some (c\<lparr>mVatB := upd (unat (reg - 0x80)) (\<lambda>_. v) (mVatB c)\<rparr>)
      else if 0x90 \<le> reg \<and> reg < 0x98 then Some (c\<lparr>mVatC := upd (unat (reg - 0x90)) (\<lambda>_. v) (mVatC c)\<rparr>)
      else if 0xA0 \<le> reg \<and> reg < 0xB0 then
        Some (c\<lparr>mArrayBase := upd (unat (reg - 0xA0)) (\<lambda>_. v AND 0x3FFFFFFF) (mArrayBase c)\<rparr>)
      else if 0xB0 \<le> reg \<and> reg < 0xC0 then
        Some (c\<lparr>mArrayStride := upd (unat (reg - 0xB0)) (\<lambda>_. v AND 0xFF) (mArrayStride c)\<rparr>)
      else None)"

definition LoadCP :: "u8 \<Rightarrow> u32 \<Rightarrow> cp \<Rightarrow> cp" where
  "LoadCP reg v c =
     (if reg = 0x50 \<and> v = mVcdLo c \<and> mVcdSet c \<or> reg = 0x60 \<and> v = mVcdHi c \<and> mVcdSet c then c
      else case cp_store reg v c of
        None \<Rightarrow> c
      | Some c \<Rightarrow>
          let c = (if reg < 0xA0 then c\<lparr>mFormatValid := 0\<rparr> else c) in
          if reg = 0x50 \<or> reg = 0x60 then
            let c = BeforeChange (push_bit 16 3 OR ucast reg) (c\<lparr>mVcdSet := True\<rparr>) in
            c\<lparr>mState := fold (\<lambda>attr. SetVtxDesc (of_nat attr) (AttrType c (of_nat attr))) [0..<VaCount]
                 (ClearVtxDesc (mState c))\<rparr>
          else c)"

primrec be_words :: "bytes \<Rightarrow> nat \<Rightarrow> nat \<Rightarrow> u32 list option" where
  "be_words p at 0 = Some []"
| "be_words p at (Suc n) = do { w \<leftarrow> read32 p at; ws \<leftarrow> be_words p (at + 4) n; Some (w # ws) }"

text \<open>An XF load that changes something is announced and applied.\<close>

definition load_xf :: "u32 \<Rightarrow> u32 \<Rightarrow> u32 list \<Rightarrow> cp \<Rightarrow> cp" where
  "load_xf cause address ws c =
     (if XfUnchanged (mState c) address ws then c
      else let c = BeforeChange cause c in c\<lparr>mState := ApplyXF address ws (mState c)\<rparr>)"

definition LoadIndexed :: "memory \<Rightarrow> u8 \<Rightarrow> u32 \<Rightarrow> cp \<Rightarrow> cp option" where
  "LoadIndexed mem cmd v c =
     (let array = 12 + unat ((cmd - 0x20) div 8);
          index = drop_bit 16 v;
          count = Bits v 4 12 + 1;
          address = Bits v 12 0 in
      case mem (mArrayBase c ! array + index * mArrayStride c ! array) (count * 4) of
        None \<Rightarrow> Some c
      | Some src \<Rightarrow> do { ws \<leftarrow> be_words src 0 (unat count);
                        Some (load_xf (push_bit 16 4 OR of_nat array) address ws c) })"

section \<open>Draws\<close>

record Attr =
  a_attr :: u8
  a_type :: u8
  a_size :: nat
  a_offset :: nat
  a_base :: "bytes option"

record draw_plan =
  p_attrs :: "Attr list"
  p_stream :: nat
  p_direct :: nat
  p_indexed :: bool

text \<open>The attributes of a record in order; nothing where a format is invalid.\<close>

primrec plan_attrs :: "cp \<Rightarrow> VertexFormat \<Rightarrow> nat list \<Rightarrow> draw_plan \<Rightarrow> draw_plan option" where
  "plan_attrs c fmt [] p = Some p"
| "plan_attrs c fmt (attr # attrs) p =
     (let type = AttrType c (of_nat attr); bytes = PackedAttrSize (of_nat attr) (format fmt ! attr) in
      if type = kNone then plan_attrs c fmt attrs p
      else if bytes = 0 then None
      else plan_attrs c fmt attrs
        \<lparr>p_attrs = p_attrs p @ [\<lparr>a_attr = of_nat attr, a_type = type, a_size = bytes, a_offset = p_stream p, a_base = None\<rparr>],
         p_stream = p_stream p + (if type = kDirect then bytes else if type = kIndex8 then 1 else 2),
         p_direct = p_direct p + bytes,
         p_indexed = (p_indexed p \<or> type \<noteq> kDirect)\<rparr>)"

definition indexAt :: "bytes \<Rightarrow> nat \<Rightarrow> Attr \<Rightarrow> u32 option" where
  "indexAt data rec a =
     (if a_type a = kIndex8 then do { b \<leftarrow> rd data (rec + a_offset a); Some (ucast b) }
      else do { w \<leftarrow> read16 data (rec + a_offset a); Some (ucast w) })"

primrec highest_index :: "bytes \<Rightarrow> nat \<Rightarrow> nat \<Rightarrow> Attr \<Rightarrow> nat list \<Rightarrow> u32 \<Rightarrow> u32 option" where
  "highest_index data start stride a [] highest = Some highest"
| "highest_index data start stride a (v # vs) highest =
     do { index \<leftarrow> indexAt data (start + v * stride) a;
          highest_index data start stride a vs (if highest < index then index else highest) }"

text \<open>Each indexed array as one window up to the highest index the draw reads.\<close>

definition find_base :: "memory \<Rightarrow> cp \<Rightarrow> bytes \<Rightarrow> nat \<Rightarrow> nat \<Rightarrow> nat \<Rightarrow> Attr \<Rightarrow> Attr option" where
  "find_base mem c data start stride count a =
     (if a_type a = kDirect then Some a
      else do { highest \<leftarrow> highest_index data start stride a [0..<count] 0;
                let array = unat (a_attr a - VaPos) in
                Some (a\<lparr>a_base := mem (mArrayBase c ! array) (highest * mArrayStride c ! array + of_nat (a_size a))\<rparr>) })"

primrec find_bases :: "memory \<Rightarrow> cp \<Rightarrow> bytes \<Rightarrow> nat \<Rightarrow> nat \<Rightarrow> nat \<Rightarrow> Attr list \<Rightarrow> Attr list option" where
  "find_bases mem c data start stride count [] = Some []"
| "find_bases mem c data start stride count (a # as) =
     do { a \<leftarrow> find_base mem c data start stride count a;
          as \<leftarrow> find_bases mem c data start stride count as; Some (a # as) }"

text \<open>The bytes an attribute of one record stands for; zeroes where its array is not there.\<close>

definition fetch_attr :: "memory \<Rightarrow> cp \<Rightarrow> bytes \<Rightarrow> nat \<Rightarrow> Attr \<Rightarrow> bytes option" where
  "fetch_attr mem c data rec a =
     (if a_type a = kDirect then getn data (rec + a_offset a) (a_size a)
      else do {
        index \<leftarrow> indexAt data rec a;
        let array = unat (a_attr a - VaPos); offset = index * mArrayStride c ! array in
        case a_base a of
          Some base \<Rightarrow> getn base (unat offset) (a_size a)
        | None \<Rightarrow> (case mem (mArrayBase c ! array + offset) (of_nat (a_size a)) of
                     Some src \<Rightarrow> getn src 0 (a_size a)
                   | None \<Rightarrow> Some (replicate (a_size a) 0)) })"

primrec fetch_attrs :: "memory \<Rightarrow> cp \<Rightarrow> bytes \<Rightarrow> nat \<Rightarrow> Attr list \<Rightarrow> bytes option" where
  "fetch_attrs mem c data rec [] = Some []"
| "fetch_attrs mem c data rec (a # as) =
     do { x \<leftarrow> fetch_attr mem c data rec a; xs \<leftarrow> fetch_attrs mem c data rec as; Some (x @ xs) }"

primrec fetch_records :: "memory \<Rightarrow> cp \<Rightarrow> bytes \<Rightarrow> nat \<Rightarrow> nat \<Rightarrow> Attr list \<Rightarrow> nat list \<Rightarrow> bytes option" where
  "fetch_records mem c data start stride as [] = Some []"
| "fetch_records mem c data start stride as (v # vs) =
     do { x \<leftarrow> fetch_attrs mem c data (start + v * stride) as;
          xs \<leftarrow> fetch_records mem c data start stride as vs; Some (x @ xs) }"

text \<open>The whole of \<open>RunDraw\<close>: whether the draw was there, the new position, the new state.\<close>

definition RunDraw :: "memory \<Rightarrow> u8 \<Rightarrow> bytes \<Rightarrow> nat \<Rightarrow> cp \<Rightarrow> (bool \<times> nat \<times> cp) option" where
  "RunDraw mem cmd data pos c =
     (if length data - pos < 2 then Some (False, pos, c)
      else do {
        count \<leftarrow> read16 data pos;
        let table = cmd AND 7; (fmt, c) = DirectFormat table c; pos = pos + 2; n = unat count in
        case plan_attrs c fmt [0..<VaCount] \<lparr>p_attrs = [], p_stream = 0, p_direct = 0, p_indexed = False\<rparr> of
          None \<Rightarrow> Some (False, pos, c)
        | Some plan \<Rightarrow>
            if p_direct plan = 0 \<and> n \<noteq> 0 then Some (False, pos, c)
            else if length data - pos < p_stream plan * n then Some (False, pos, c)
            else do {
              records \<leftarrow> (if \<not> p_indexed plan then getn data pos (p_stream plan * n)
                          else do { as \<leftarrow> find_bases mem c data pos (p_stream plan) n (p_attrs plan);
                                    fetch_records mem c data pos (p_stream plan) as [0..<n] });
              Some (True, pos + p_stream plan * n,
                c\<lparr>events := events c @ [Drawn \<lparr>d_primitive = cmd AND 0xF8, d_table = table, d_count = count,
                     d_format = fmt, d_records = records\<rparr>]\<rparr>) } })"

section \<open>The stream\<close>

text \<open>
  One iteration of \<open>Run\<close>, a definition for each command: \<open>Inl\<close> is its return, with the bytes it
  ran. \<open>pos\<close> is behind the command's byte at \<open>start\<close>; \<open>call\<close> runs a display list.
\<close>

type_synonym run_result = "((nat \<times> cp) + nat \<times> cp) option"

definition run_draw :: "memory \<Rightarrow> u8 \<Rightarrow> bytes \<Rightarrow> nat \<Rightarrow> cp \<Rightarrow> run_result" where
  "run_draw mem cmd data start c =
     do { (ok, pos, c) \<leftarrow> RunDraw mem cmd data (start + 1) c;
          Some (if ok then Inr (pos, c) else Inl (start, c)) }"

definition run_cp :: "bytes \<Rightarrow> nat \<Rightarrow> cp \<Rightarrow> run_result" where
  "run_cp data start c =
     (let pos = start + 1 in
      if length data - pos < 5 then Some (Inl (start, c))
      else do { reg \<leftarrow> rd data pos; v \<leftarrow> read32 data (pos + 1); Some (Inr (pos + 5, LoadCP reg v c)) })"

definition run_xf :: "bytes \<Rightarrow> nat \<Rightarrow> cp \<Rightarrow> run_result" where
  "run_xf data start c =
     (let pos = start + 1 in
      if length data - pos < 4 then Some (Inl (start, c))
      else do {
        header \<leftarrow> read32 data pos;
        let count = unat (drop_bit 16 header) + 1; address = header AND 0xFFFF in
        if length data - pos - 4 < count * 4 then Some (Inl (start, c))
        else do { ws \<leftarrow> be_words data (pos + 4) count;
                  Some (Inr (pos + 4 + count * 4, load_xf (push_bit 16 2 OR address) address ws c)) } })"

definition run_indexed :: "memory \<Rightarrow> u8 \<Rightarrow> bytes \<Rightarrow> nat \<Rightarrow> cp \<Rightarrow> run_result" where
  "run_indexed mem cmd data start c =
     (let pos = start + 1 in
      if length data - pos < 4 then Some (Inl (start, c))
      else do { v \<leftarrow> read32 data pos; c \<leftarrow> LoadIndexed mem cmd v c; Some (Inr (pos + 4, c)) })"

definition run_list ::
  "memory \<Rightarrow> (bytes \<Rightarrow> cp \<Rightarrow> (nat \<times> cp) option) \<Rightarrow> bytes \<Rightarrow> nat \<Rightarrow> cp \<Rightarrow> run_result" where
  "run_list mem call data start c =
     (let pos = start + 1 in
      if length data - pos < 8 then Some (Inl (start, c))
      else do {
        address \<leftarrow> read32 data pos;
        bytes \<leftarrow> read32 data (pos + 4);
        case mem (address AND 0x3FFFFFFF) bytes of
          None \<Rightarrow> Some (Inr (pos + 8, c))
        | Some commands \<Rightarrow>
            if mDepth c < kMaxDepth then do {
              commands \<leftarrow> getn commands 0 (unat bytes);
              (n, c) \<leftarrow> call commands (c\<lparr>mDepth := mDepth c + 1\<rparr>);
              Some (Inr (pos + 8, c\<lparr>mDepth := mDepth c - 1\<rparr>)) }
            else Some (Inr (pos + 8, c)) })"

definition run_bp :: "bytes \<Rightarrow> nat \<Rightarrow> cp \<Rightarrow> run_result" where
  "run_bp data start c =
     (let pos = start + 1 in
      if length data - pos < 4 then Some (Inl (start, c))
      else do {
        v \<leftarrow> read32 data pos;
        reg \<leftarrow> rd data pos;
        Some (Inr (pos + 4, if BpUnchanged (mState c) v then c
           else let c = BeforeChange (push_bit 16 1 OR ucast reg) c in c\<lparr>mState := ApplyBP v (mState c)\<rparr>)) })"

definition run_body ::
  "memory \<Rightarrow> (bytes \<Rightarrow> cp \<Rightarrow> (nat \<times> cp) option) \<Rightarrow> bytes \<Rightarrow> nat \<times> cp \<Rightarrow> run_result" where
  "run_body mem call data = (\<lambda>(start, c).
     if \<not> start < length data then Some (Inl (start, c))
     else do {
       cmd \<leftarrow> rd data start;
       if 0x80 \<le> cmd \<and> cmd \<le> 0xBF then run_draw mem cmd data start c
       else if cmd = 0x00 \<or> cmd = 0x48 then Some (Inr (start + 1, c))
       else if cmd = 0x08 then run_cp data start c
       else if cmd = 0x10 then run_xf data start c
       else if cmd = 0x20 \<or> cmd = 0x28 \<or> cmd = 0x30 \<or> cmd = 0x38 then run_indexed mem cmd data start c
       else if cmd = 0x40 then run_list mem call data start c
       else if cmd = 0x61 then run_bp data start c
       else Some (Inl (start, c)) })"

text \<open>\<open>Run\<close> with so many calls of display lists still to go; the guard on the depth leaves none unmade.\<close>

primrec Run_at :: "memory \<Rightarrow> nat \<Rightarrow> bytes \<Rightarrow> cp \<Rightarrow> (nat \<times> cp) option" where
  "Run_at mem 0 data c = loop (run_body mem (\<lambda>_ _. None) data) (0, c)"
| "Run_at mem (Suc n) data c = loop (run_body mem (Run_at mem n) data) (0, c)"

definition Run :: "memory \<Rightarrow> bytes \<Rightarrow> cp \<Rightarrow> (nat \<times> cp) option" where
  "Run mem data c = Run_at mem (kMaxDepth - mDepth c) data c"

end
