(* ===== verification/Gx_Stream.thy ===== *)
theory Gx_Stream
  imports Gx_Command
begin

text \<open>
  The command processor of Gx_Command on any bytes: what guest memory promises (the locale
  \<open>guest_memory\<close>) and its interpretation on MEM1, the invariant of the processor and its preservation
  by the cached formats, the CP registers and the XF loads.
\<close>

section \<open>Guest memory\<close>

text \<open>
  The accessor's contract: the bytes are all there, and a window inside a window shows the same
  bytes.
\<close>

locale guest_memory =
  fixes mem :: memory
  assumes mem_size: "mem a n = Some bs \<Longrightarrow> unat n \<le> length bs"
    and mem_window: "mem a n = Some bs \<Longrightarrow> unat k + unat m \<le> unat n \<Longrightarrow> 0 < unat m \<Longrightarrow>
          \<exists>bs'. mem (a + k) m = Some bs' \<and> take (unat m) bs' = take (unat m) (drop (unat k) bs)"
begin

lemma window_bytes:
  assumes "mem a n = Some bs" "unat k + sz \<le> unat n" "0 < sz" "sz < 2 ^ 32"
  shows "\<exists>bs'. mem (a + k) (of_nat sz) = Some bs' \<and> getn bs' 0 sz = getn bs (unat k) sz \<and>
     getn bs (unat k) sz = Some (take sz (drop (unat k) bs))"
proof -
  have sz: "unat (of_nat sz :: u32) = sz" using assms(4) by (intro unat_of_nat_u32) simp
  obtain bs' where "mem (a + k) (of_nat sz) = Some bs'" "take sz bs' = take sz (drop (unat k) bs)"
    using mem_window [OF assms(1), of k "of_nat sz"] assms(2,3) sz by auto
  moreover have "sz \<le> length bs'" using mem_size [OF calculation(1)] sz by simp
  moreover have "unat k + sz \<le> length bs" using mem_size [OF assms(1)] assms(2) by simp
  ultimately show ?thesis by (auto simp: getn_def)
qed

end

text \<open>
  src/cpu/memory.cpp and gx_native_switch.cpp: the regions, and the accessor the renderer gives the
  processor. A probe of no bytes at the very end of a region, on which \<open>GetPointer\<close> traps, counts
  as not there.
\<close>

record Region =
  r_base :: u32
  r_storage :: bytes

definition TryResolveRegion :: "Region list \<Rightarrow> u32 \<Rightarrow> nat \<Rightarrow> Region option" where
  "TryResolveRegion regions address n = List.find (\<lambda>r.
     r_base r \<le> address \<and> unat address + n \<le> unat (r_base r) + length (r_storage r)) regions"

definition Contains :: "Region list \<Rightarrow> u32 \<Rightarrow> nat \<Rightarrow> bool" where
  "Contains regions address n \<longleftrightarrow> TryResolveRegion regions address n \<noteq> None"

definition GetPointer :: "Region list \<Rightarrow> u32 \<Rightarrow> bytes option" where
  "GetPointer regions address = map_option (\<lambda>r. drop (unat (address - r_base r)) (r_storage r))
     (TryResolveRegion regions address 1)"

definition guest_bytes :: "Region list \<Rightarrow> memory" where
  "guest_bytes regions address n =
     (let physical = address AND 0x1FFFFFFF in
      case List.find (\<lambda>base. physical \<noteq> 0 \<and> Contains regions (physical OR base) (unat n)) [0x80000000, 0xC0000000, 0] of
        None \<Rightarrow> None
      | Some base \<Rightarrow> GetPointer regions (physical OR base))"

text \<open>A console with MEM1 alone, 24 MB at 0x80000000.\<close>

definition mem1 :: "bytes \<Rightarrow> Region list" where
  "mem1 ram = [\<lparr>r_base = 0x80000000, r_storage = take 0x1800000 ram\<rparr>]"

lemma unat_physical: "unat (address AND 0x1FFFFFFF :: u32) < 2 ^ 29"
  using unat_and_mask_less [of address 29] by (simp add: mask_eq_exp_minus_1)

lemma unat_cached: "unat ((address AND 0x1FFFFFFF) OR 0x80000000 :: u32) = unat (address AND 0x1FFFFFFF) + 2 ^ 31"
proof -
  have "(address AND 0x1FFFFFFF) AND 0x80000000 = (0 :: u32)" by (simp add: and.assoc)
  from unat_or_disjoint [OF this] show ?thesis by simp
qed

lemma guest_bytes_mem1:
  "guest_bytes (mem1 ram) address n = (let p = unat (address AND 0x1FFFFFFF); m = take 0x1800000 ram in
     if 0 < p \<and> p + unat n \<le> length m \<and> p < length m then Some (drop p m) else None)"
proof -
  let ?p = "address AND 0x1FFFFFFF" and ?m = "take 0x1800000 ram"
  have p: "unat ?p < 2 ^ 29" by (rule unat_physical)
  have c: "unat (?p OR 0x80000000) = unat ?p + 2 ^ 31" by (rule unat_cached)
  have ge: "0x80000000 \<le> ?p OR 0x80000000" using c by (simp add: word_le_nat_alt)
  have high: "Contains (mem1 ram) (?p OR 0x80000000) k \<longleftrightarrow> unat ?p + k \<le> length ?m" for k
    using ge c by (simp add: Contains_def TryResolveRegion_def mem1_def)
  have ptr: "GetPointer (mem1 ram) (?p OR 0x80000000) = (if unat ?p < length ?m then Some (drop (unat ?p) ?m) else None)"
    using ge c by (simp add: GetPointer_def TryResolveRegion_def mem1_def unat_sub Suc_le_eq)
  have "?p AND 0xC0000000 = 0" by (simp add: and.assoc)
  from unat_or_disjoint [OF this] have cc: "unat (?p OR 0xC0000000) = unat ?p + 0xC0000000" by simp
  then have mid: "\<not> Contains (mem1 ram) (?p OR 0xC0000000) k" for k
    by (simp add: Contains_def TryResolveRegion_def mem1_def)
  have low: "\<not> Contains (mem1 ram) ?p k" for k
    using p by (simp add: Contains_def TryResolveRegion_def mem1_def word_le_nat_alt)
  have nz: "?p \<noteq> 0 \<longleftrightarrow> 0 < unat ?p" by (simp add: unat_gt_0)
  show ?thesis
    using high [of "unat n"] ptr mid [of "unat n"] low [of "unat n"] nz
    by (simp add: guest_bytes_def Let_def)
qed

interpretation mem1: guest_memory "guest_bytes (mem1 ram)" for ram
proof
  fix a n k m :: u32 and bs
  assume some: "guest_bytes (mem1 ram) a n = Some bs"
  let ?p = "unat (a AND 0x1FFFFFFF)" and ?m = "take 0x1800000 ram"
  have p: "0 < ?p" "?p + unat n \<le> length ?m" "bs = drop ?p ?m"
    using some by (auto simp: guest_bytes_mem1 Let_def split: if_splits)
  show "unat n \<le> length bs" using p(2) unfolding p(3) length_drop by linarith
  assume fits: "unat k + unat m \<le> unat n" and m: "0 < unat m"
  have "?p + unat k < 2 ^ 29" using p(2) fits by simp
  moreover have "unat ((a + k) AND 0x1FFFFFFF) = unat (a + k) mod 2 ^ 29"
    using unat_and_mask [of "a + k" 29] by (simp add: mask_eq_exp_minus_1)
  moreover have "?p = unat a mod 2 ^ 29" using unat_and_mask [of a 29] by (simp add: mask_eq_exp_minus_1)
  moreover have "unat (a + k) mod 2 ^ 29 = (unat a + unat k) mod 2 ^ 29"
    by (simp add: unat_word_ariths mod_mod_cancel)
  moreover have "(unat a + unat k) mod 2 ^ 29 = (unat a mod 2 ^ 29 + unat k) mod 2 ^ 29" by (simp add: mod_add_left_eq)
  ultimately have "unat ((a + k) AND 0x1FFFFFFF) = ?p + unat k" by simp
  then show "\<exists>bs'. guest_bytes (mem1 ram) (a + k) m = Some bs' \<and> take (unat m) bs' = take (unat m) (drop (unat k) bs)"
    using p fits m by (auto simp: guest_bytes_mem1 Let_def add.commute)
qed

section \<open>The processor's invariant\<close>

definition formats_ok :: "cp \<Rightarrow> bool" where
  "formats_ok c \<longleftrightarrow> (\<forall>t < 8. mFormatValid c AND push_bit t 1 \<noteq> 0 \<longrightarrow> mFormats c ! t = compute_format c (of_nat t))"

definition draw_ok :: "event \<Rightarrow> bool" where
  "draw_ok e = (case e of Changed _ \<Rightarrow> True
     | Drawn d \<Rightarrow> length (d_records d) = unat (d_count d) * PackedVertexSize (d_format d) \<and>
         (PackedVertexSize (d_format d) = 0 \<longrightarrow> d_count d = 0))"

definition cp_ok :: "cp \<Rightarrow> bool" where
  "cp_ok c \<longleftrightarrow> gx_ok (mState c) \<and> length (mVatA c) = 8 \<and> length (mVatB c) = 8 \<and> length (mVatC c) = 8 \<and>
     length (mArrayBase c) = 16 \<and> length (mArrayStride c) = 16 \<and> list_all (\<lambda>s. unat s \<le> 255) (mArrayStride c) \<and>
     length (mFormats c) = 8 \<and> formats_ok c \<and> list_all draw_ok (events c)"

lemma cp_ok_init: "gx_ok s \<Longrightarrow> cp_ok (CommandProcessor s)"
  by (simp add: cp_ok_def CommandProcessor_def formats_ok_def list_all_iff)

text \<open>A format depends on the descriptor and the tables alone.\<close>

lemma AttrType_cong: "mVcdLo c = mVcdLo c' \<Longrightarrow> mVcdHi c = mVcdHi c' \<Longrightarrow> AttrType c attr = AttrType c' attr"
  by (simp add: AttrType_def)

lemma compute_format_cong:
  "mVcdLo c = mVcdLo c' \<Longrightarrow> mVcdHi c = mVcdHi c' \<Longrightarrow> mVatA c = mVatA c' \<Longrightarrow> mVatB c = mVatB c' \<Longrightarrow>
     mVatC c = mVatC c' \<Longrightarrow> compute_format c t = compute_format c' t"
  by (simp add: compute_format_def Format_def AttrType_cong [of c c'])

lemma compute_format_table: "compute_format c (table AND 7) = compute_format c table"
  by (simp add: compute_format_def Format_def and.assoc)

lemma cp_ok_cong:
  assumes "cp_ok c" "gx_ok (mState c')" "list_all draw_ok (events c')" "mVcdLo c' = mVcdLo c" "mVcdHi c' = mVcdHi c"
    "mVatA c' = mVatA c" "mVatB c' = mVatB c" "mVatC c' = mVatC c" "mArrayBase c' = mArrayBase c"
    "mArrayStride c' = mArrayStride c" "mFormats c' = mFormats c" "mFormatValid c' = mFormatValid c"
  shows "cp_ok c'"
  using assms compute_format_cong [of c' c] by (simp add: cp_ok_def formats_ok_def)

lemma cp_ok_depth: "cp_ok (c\<lparr>mDepth := n\<rparr>) = cp_ok c"
  using compute_format_cong [of "c\<lparr>mDepth := n\<rparr>" c] by (simp add: cp_ok_def formats_ok_def)

section \<open>The cached formats\<close>

lemma unat_and_7: "unat (x AND 7 :: u8) < 8"
  using unat_and_le [of x 7] by simp

lemma bit_or_push:
  fixes v :: u8
  assumes "t < 8" "i < 8"
  shows "((v OR push_bit t 1) AND push_bit i 1 \<noteq> 0) = (i = t \<or> v AND push_bit i 1 \<noteq> 0)"
  using assms by (simp add: and_exp_eq_0_iff_not_bit bit_simps) auto

lemma DirectFormat_ok:
  assumes "cp_ok c" "DirectFormat table c = (fmt, c')"
  shows "fmt = compute_format c table" "cp_ok c'" "DirectFormat table c' = (fmt, c')"
    "\<exists>fs v. c' = c\<lparr>mFormats := fs, mFormatValid := v\<rparr>"
proof -
  let ?t = "unat (table AND 7)"
  have t: "?t < 8" "of_nat ?t = table AND 7" using unat_and_7 by simp_all
  have f: "\<And>t. t < 8 \<Longrightarrow> mFormatValid c AND push_bit t 1 \<noteq> 0 \<Longrightarrow> mFormats c ! t = compute_format c (of_nat t)"
    "length (mFormats c) = 8"
    using assms(1) by (simp_all add: cp_ok_def formats_ok_def del: push_bit_of_1)
  have "fmt = compute_format c table \<and> cp_ok c' \<and> DirectFormat table c' = (fmt, c') \<and>
    (\<exists>fs v. c' = c\<lparr>mFormats := fs, mFormatValid := v\<rparr>)"
  proof (cases "mFormatValid c AND push_bit ?t 1 \<noteq> 0")
    case True
    then have "c' = c" "fmt = mFormats c ! ?t" using assms(2) by (auto simp: DirectFormat_def Let_def simp del: push_bit_of_1)
    moreover have "fmt = compute_format c table" using f(1) [OF t(1) True] calculation t(2) by (simp add: compute_format_table)
    moreover have "\<exists>fs v. c = c\<lparr>mFormats := fs, mFormatValid := v\<rparr>"
      by (intro exI [of _ "mFormats c"] exI [of _ "mFormatValid c"]) simp
    ultimately show ?thesis using assms by simp
  next
    case False
    let ?f = "compute_format c table"
    have c': "fmt = ?f" "c' = c\<lparr>mFormats := upd ?t (\<lambda>_. ?f) (mFormats c),
        mFormatValid := mFormatValid c OR push_bit ?t 1\<rparr>"
      using assms(2) False by (auto simp: DirectFormat_def Let_def compute_format_table simp del: push_bit_of_1)
    have "formats_ok c'"
      unfolding formats_ok_def
    proof (intro allI impI)
      fix i assume i: "i < 8" "mFormatValid c' AND push_bit i 1 \<noteq> 0"
      then have "i = ?t \<or> mFormatValid c AND push_bit i 1 \<noteq> 0"
        using t(1) bit_or_push [of ?t i "mFormatValid c"] by (simp add: c'(2) del: push_bit_of_1)
      moreover have "compute_format c' (of_nat i) = compute_format c (of_nat i)"
        by (rule compute_format_cong) (simp_all add: c'(2))
      ultimately show "mFormats c' ! i = compute_format c' (of_nat i)"
        using f t i(1) by (auto simp: c'(2) nth_upd compute_format_table simp del: push_bit_of_1)
    qed
    moreover have "mFormatValid c' AND push_bit ?t 1 \<noteq> 0"
      using bit_or_push [OF t(1) t(1), of "mFormatValid c"] by (simp add: c'(2) del: push_bit_of_1)
    moreover have "\<exists>fs v. c' = c\<lparr>mFormats := fs, mFormatValid := v\<rparr>" using c'(2) by blast
    moreover have "length (mFormats c') = 8" "mFormats c' ! ?t = fmt" using t(1) f(2) by (simp_all add: c' nth_upd)
    moreover have "cp_ok c'" using calculation assms(1) unfolding c'(2) by (simp add: cp_ok_def)
    ultimately show ?thesis using c'(1) by (simp add: DirectFormat_def Let_def del: push_bit_of_1)
  qed
  then show "fmt = compute_format c table" "cp_ok c'" "DirectFormat table c' = (fmt, c')"
    "\<exists>fs v. c' = c\<lparr>mFormats := fs, mFormatValid := v\<rparr>" by simp_all
qed

section \<open>Loads\<close>

lemma ok_descriptor: "gx_ok s \<Longrightarrow> gx_ok (fold (\<lambda>attr. SetVtxDesc (of_nat attr) (f attr)) xs (ClearVtxDesc s))"
  by (rule ok_fold) (simp_all add: ok_pixel)

lemma u8_index:
  fixes reg :: u8
  assumes "lo \<le> reg" "reg < hi"
  shows "unat (reg - lo) < unat hi - unat lo"
  using assms by (auto simp: word_le_nat_alt word_less_nat_alt unat_sub)

lemma cp_store_ok:
  assumes "cp_ok c" "cp_store reg v c = Some c'"
  shows "cp_ok (if reg < 0xA0 then c'\<lparr>mFormatValid := 0\<rparr> else c')"
proof -
  have stride: "list_all (\<lambda>s. unat s \<le> 255) (upd i (\<lambda>_. v AND 0xFF) (mArrayStride c))" if "i < 16" for i
    using assms(1) that unat_and_le [of v "0xFF"] by (intro list_all_upd) (simp_all add: cp_ok_def)
  have fmt: "compute_format (c\<lparr>mArrayBase := b, mArrayStride := s\<rparr>) t = compute_format c t" for b s t
    by (rule compute_format_cong) simp_all
  have fmts: "compute_format (c\<lparr>mArrayBase := b\<rparr>) t = compute_format c t"
    "compute_format (c\<lparr>mArrayStride := s\<rparr>) t = compute_format c t" for b s t
    by (rule compute_format_cong; simp)+
  consider "reg = 0x50 \<or> reg = 0x60" | "0x70 \<le> reg" "reg < 0x78" | "0x80 \<le> reg" "reg < 0x88"
    | "0x90 \<le> reg" "reg < 0x98" | "0xA0 \<le> reg" "reg < 0xB0" | "0xB0 \<le> reg" "reg < 0xC0"
    using assms(2) by (auto simp: cp_store_def split: if_splits)
  then show ?thesis
  proof cases
    case 1
    then show ?thesis using assms by (auto simp: cp_store_def cp_ok_def formats_ok_def)
  next
    case 2
    then show ?thesis using assms u8_index [OF 2]
      by (auto simp: cp_store_def cp_ok_def formats_ok_def word_le_nat_alt word_less_nat_alt split: if_splits)
  next
    case 3
    then show ?thesis using assms u8_index [OF 3]
      by (auto simp: cp_store_def cp_ok_def formats_ok_def word_le_nat_alt word_less_nat_alt split: if_splits)
  next
    case 4
    then show ?thesis using assms u8_index [OF 4]
      by (auto simp: cp_store_def cp_ok_def formats_ok_def word_le_nat_alt word_less_nat_alt split: if_splits)
  next
    case 5
    then show ?thesis using assms u8_index [OF 5]
      by (auto simp: cp_store_def cp_ok_def formats_ok_def fmts word_le_nat_alt word_less_nat_alt split: if_splits)
  next
    case 6
    then show ?thesis using assms u8_index [OF 6] stride
      by (auto simp: cp_store_def cp_ok_def formats_ok_def fmts word_le_nat_alt word_less_nat_alt split: if_splits)
  qed
qed

lemma cp_ok_change:
  assumes "cp_ok c" "gx_ok s"
  shows "cp_ok ((BeforeChange cause c)\<lparr>mState := s\<rparr>)" "cp_ok (c\<lparr>mVcdSet := b\<rparr>)"
  by (rule cp_ok_cong [OF assms(1)]; use assms in \<open>simp add: BeforeChange_def cp_ok_def draw_ok_def\<close>)+

lemma LoadCP_ok:
  assumes "cp_ok c"
  shows "cp_ok (LoadCP reg v c)"
proof (cases "cp_store reg v c")
  case None
  then show ?thesis using assms by (simp add: LoadCP_def)
next
  case (Some c')
  define d where "d = (if reg < 0xA0 then c'\<lparr>mFormatValid := 0\<rparr> else c')"
  define e where "e = BeforeChange (push_bit 16 3 OR ucast reg) (d\<lparr>mVcdSet := True\<rparr>)"
  have d: "cp_ok d" unfolding d_def by (rule cp_store_ok [OF assms Some])
  then have g: "gx_ok (mState d)" by (simp add: cp_ok_def)
  have "mState e = mState d" by (simp add: e_def BeforeChange_def)
  then have "gx_ok (fold (\<lambda>attr. SetVtxDesc (of_nat attr) (AttrType e (of_nat attr))) [0..<VaCount] (ClearVtxDesc (mState e)))"
    using g by (simp add: ok_descriptor)
  then have "cp_ok (e\<lparr>mState := fold (\<lambda>attr. SetVtxDesc (of_nat attr) (AttrType e (of_nat attr))) [0..<VaCount]
      (ClearVtxDesc (mState e))\<rparr>)"
    unfolding e_def by (rule cp_ok_change(1) [OF cp_ok_change(2) [OF d g]])
  moreover have "LoadCP reg v c = c \<or> LoadCP reg v c = d \<or>
     LoadCP reg v c = e\<lparr>mState := fold (\<lambda>attr. SetVtxDesc (of_nat attr) (AttrType e (of_nat attr))) [0..<VaCount]
      (ClearVtxDesc (mState e))\<rparr>"
    using Some by (simp add: LoadCP_def Let_def d_def e_def)
  ultimately show ?thesis using assms d by metis
qed

lemma be_words_total: "at + 4 * n \<le> length p \<Longrightarrow> \<exists>ws. be_words p at n = Some ws \<and> length ws = n"
proof (induction n arbitrary: at)
  case (Suc n)
  then have "at + 4 + 4 * n \<le> length p" "at + 4 \<le> length p" by simp_all
  moreover obtain ws where "be_words p (at + 4) n = Some ws" "length ws = n" using Suc.IH [OF calculation(1)] by blast
  ultimately show ?case by (simp add: read32_Some)
qed simp

lemma load_xf_ok: "cp_ok c \<Longrightarrow> cp_ok (load_xf cause address ws c)"
  by (simp add: load_xf_def Let_def BeforeChange_def)
     (metis BeforeChange_def cp_ok_change(1) cp_ok_def ok_ApplyXF)

lemma load_xf_depth [simp]: "mDepth (load_xf cause address ws c) = mDepth c"
  by (simp add: load_xf_def Let_def BeforeChange_def)

lemma LoadCP_depth [simp]: "mDepth (LoadCP reg v c) = mDepth c"
  by (simp add: LoadCP_def cp_store_def Let_def BeforeChange_def split: option.split)

lemma DirectFormat_depth: "DirectFormat table c = (fmt, c') \<Longrightarrow> mDepth c' = mDepth c"
  by (auto simp: DirectFormat_def Let_def split: if_splits)

end
