(* ===== verification/Gx_Draw.thy ===== *)
theory Gx_Draw
  imports Gx_Stream
begin

text \<open>
  A draw of the command processor: what the plan of its attributes guarantees, the windows on the
  indexed arrays against a lookup per vertex, and its bounds.
\<close>

section \<open>A draw's attributes\<close>

definition attr_width :: "Attr \<Rightarrow> nat" where
  "attr_width a = (if a_type a = kDirect then a_size a else if a_type a = kIndex8 then 1 else 2)"

definition attr_ok :: "nat \<Rightarrow> Attr \<Rightarrow> bool" where
  "attr_ok stride a \<longleftrightarrow> 0 < a_size a \<and> a_size a \<le> 36 \<and> a_offset a + attr_width a \<le> stride \<and> a_base a = None \<and>
     (a_type a \<noteq> kDirect \<longrightarrow> unat (a_attr a - VaPos) < 16)"

definition plan_ok :: "draw_plan \<Rightarrow> bool" where
  "plan_ok p \<longleftrightarrow> list_all (attr_ok (p_stream p)) (p_attrs p) \<and>
     p_direct p = sum_list (map a_size (p_attrs p)) \<and> (\<not> p_indexed p \<longrightarrow> p_stream p = p_direct p)"

lemma attr_ok_mono: "attr_ok n a \<Longrightarrow> n \<le> m \<Longrightarrow> attr_ok m a"
  by (auto simp: attr_ok_def)

lemma AttrType_direct:
  assumes "AttrType c attr \<noteq> kNone" "AttrType c attr \<noteq> kDirect"
  shows "9 \<le> attr"
  using assms by (auto simp: AttrType_def VaPnMtxIdx_def word_le_nat_alt split: if_splits)

lemma AttrSize_le: "AttrSize attr f \<le> 36"
  by (simp add: AttrSize_def ColorSize_def Components_def CompSize_def)

lemma plan_attrs_ok:
  assumes "plan_attrs c fmt attrs p = Some p'" "plan_ok p" "\<forall>a \<in> set attrs. a < 21"
  shows "plan_ok p'"
  using assms
proof (induction attrs arbitrary: p)
  case (Cons attr attrs)
  let ?t = "AttrType c (of_nat attr)" and ?n = "PackedAttrSize (of_nat attr) (format fmt ! attr)"
  show ?case
  proof (cases "?t = kNone")
    case True
    with Cons show ?thesis by simp
  next
    case False
    let ?a = "\<lparr>a_attr = of_nat attr, a_type = ?t, a_size = ?n, a_offset = p_stream p, a_base = None\<rparr>"
    let ?q = "\<lparr>p_attrs = p_attrs p @ [?a],
         p_stream = p_stream p + (if ?t = kDirect then ?n else if ?t = kIndex8 then 1 else 2),
         p_direct = p_direct p + ?n, p_indexed = (p_indexed p \<or> ?t \<noteq> kDirect)\<rparr>"
    from False Cons.prems(1) have n: "0 < ?n" and q: "plan_attrs c fmt attrs ?q = Some p'"
      by (auto simp: Let_def split: if_splits)
    have "unat (of_nat attr - VaPos :: u8) < 16" if "?t \<noteq> kDirect"
    proof -
      have "attr < 21" using Cons.prems(3) by simp
      have "unat (of_nat attr :: u8) = attr" using \<open>attr < 21\<close> by (intro unat_of_nat_u8) simp
      moreover have "9 \<le> (of_nat attr :: u8)" by (rule AttrType_direct [OF False that])
      ultimately show ?thesis using \<open>attr < 21\<close> by (simp add: VaPos_def unat_sub)
    qed
    then have "attr_ok (p_stream ?q) ?a"
      using n AttrSize_le [of "of_nat attr" "format fmt ! attr"]
      by (simp add: attr_ok_def attr_width_def PackedAttrSize_def)
    moreover have "list_all (attr_ok (p_stream ?q)) (p_attrs p)"
      using Cons.prems(2) by (auto simp: plan_ok_def list_all_iff intro: attr_ok_mono)
    ultimately have "plan_ok ?q" using Cons.prems(2) by (simp add: plan_ok_def)
    with Cons.IH [OF q] Cons.prems(3) show ?thesis by simp
  qed
qed simp

lemma plan_attrs_size:
  assumes "\<forall>a \<in> set attrs. present fmt ! a = (AttrType c (of_nat a) \<noteq> kNone)"
  shows "packed_size fmt attrs (p_direct p) = (case plan_attrs c fmt attrs p of None \<Rightarrow> 0 | Some p' \<Rightarrow> p_direct p')"
  using assms
proof (induction attrs arbitrary: p)
  case (Cons attr attrs)
  let ?n = "PackedAttrSize (of_nat attr) (format fmt ! attr)"
  from Cons.prems have pr: "present fmt ! attr = (AttrType c (of_nat attr) \<noteq> kNone)" by simp
  show ?case
  proof (cases "AttrType c (of_nat attr) = kNone \<or> ?n = 0")
    case True
    with Cons pr show ?thesis by (auto simp: PackedAttrSize_def Let_def)
  next
    case False
    with pr have "plan_attrs c fmt (attr # attrs) p = plan_attrs c fmt attrs
        \<lparr>p_attrs = p_attrs p @ [\<lparr>a_attr = of_nat attr, a_type = AttrType c (of_nat attr), a_size = ?n, a_offset = p_stream p, a_base = None\<rparr>],
         p_stream = p_stream p + (if AttrType c (of_nat attr) = kDirect then ?n else if AttrType c (of_nat attr) = kIndex8 then 1 else 2),
         p_direct = p_direct p + ?n, p_indexed = (p_indexed p \<or> AttrType c (of_nat attr) \<noteq> kDirect)\<rparr>" (is "_ = plan_attrs _ _ _ ?q")
      by (simp add: Let_def)
    moreover have "packed_size fmt (attr # attrs) (p_direct p) = packed_size fmt attrs (p_direct ?q)"
      using False pr by (simp add: PackedAttrSize_def Let_def)
    ultimately show ?thesis using Cons.IH [of ?q] Cons.prems by simp
  qed
qed simp

definition plan_start :: draw_plan where
  "plan_start = \<lparr>p_attrs = [], p_stream = 0, p_direct = 0, p_indexed = False\<rparr>"

lemma draw_plan:
  assumes "plan_attrs c (compute_format c t) [0..<VaCount] plan_start = Some p"
  shows "plan_ok p" "PackedVertexSize (compute_format c t) = p_direct p"
proof -
  show "plan_ok p"
    by (rule plan_attrs_ok [OF assms]) (simp_all add: plan_ok_def plan_start_def VaCount_def)
  have "packed_size (compute_format c t) [0..<VaCount] (p_direct plan_start) = p_direct p"
    using plan_attrs_size [of "[0..<VaCount]" "compute_format c t" c plan_start] assms
    by (simp add: compute_format_def)
  then show "PackedVertexSize (compute_format c t) = p_direct p"
    by (simp add: PackedVertexSize_def plan_start_def)
qed

section \<open>Fetching a vertex\<close>

lemma indexAt_total:
  assumes "attr_ok stride a" "a_type a \<noteq> kDirect" "rec + stride \<le> length data"
  shows "\<exists>i. indexAt data rec a = Some i \<and> unat i < 2 ^ 16"
proof (cases "a_type a = kIndex8")
  case True
  then have "rec + a_offset a < length data" using assms by (simp add: attr_ok_def attr_width_def kIndex8_def kDirect_def)
  then show ?thesis using True unat_u8 [of "data ! (rec + a_offset a)"] by (simp add: indexAt_def rd_Some)
next
  case False
  then have "rec + a_offset a + 2 \<le> length data" using assms by (simp add: attr_ok_def attr_width_def)
  then show ?thesis using False unat_u16 [of "be16 (data ! (rec + a_offset a)) (data ! (rec + a_offset a + 1))"]
    by (auto simp: indexAt_def read16_Some unat_ucast_up)
qed

lemma highest_index_total:
  assumes "attr_ok stride a" "a_type a \<noteq> kDirect" "\<forall>v \<in> set vs. start + v * stride + stride \<le> length data"
    and "unat h0 < 2 ^ 16"
  shows "\<exists>h. highest_index data start stride a vs h0 = Some h \<and> unat h < 2 ^ 16 \<and> h0 \<le> h \<and>
     (\<forall>v \<in> set vs. \<exists>i. indexAt data (start + v * stride) a = Some i \<and> i \<le> h)"
  using assms(3,4)
proof (induction vs arbitrary: h0)
  case (Cons v vs)
  obtain i where i: "indexAt data (start + v * stride) a = Some i" "unat i < 2 ^ 16"
    using indexAt_total [OF assms(1,2), of "start + v * stride" data] Cons.prems(1) by auto
  let ?h = "if h0 < i then i else h0"
  have "\<forall>v \<in> set vs. start + v * stride + stride \<le> length data" "unat ?h < 2 ^ 16" using Cons.prems i by simp_all
  from Cons.IH [OF this] obtain h where h: "highest_index data start stride a vs ?h = Some h"
    "unat h < 2 ^ 16" "?h \<le> h" "\<forall>v \<in> set vs. \<exists>i. indexAt data (start + v * stride) a = Some i \<and> i \<le> h" by blast
  have "i \<le> h" "h0 \<le> h" using h(3) by (auto split: if_splits)
  with i h show ?case by auto
qed simp

text \<open>A record without any window: each indexed attribute looked up by itself.\<close>

context guest_memory
begin

lemma fetch_attr_single:
  assumes "attr_ok stride a" "rec + stride \<le> length data"
  shows "\<exists>x. fetch_attr mem c data rec a = Some x \<and> length x = a_size a"
proof (cases "a_type a = kDirect")
  case True
  then show ?thesis using assms by (auto simp: fetch_attr_def attr_ok_def attr_width_def getn_def)
next
  case False
  obtain i where i: "indexAt data rec a = Some i" using indexAt_total [OF assms(1) False assms(2)] by blast
  have a: "a_base a = None" "a_size a \<le> 36" using assms(1) by (simp_all add: attr_ok_def)
  then have sz: "unat (of_nat (a_size a) :: u32) = a_size a" by (intro unat_of_nat_u32) simp
  show ?thesis
  proof (cases "mem (mArrayBase c ! unat (a_attr a - VaPos) + i * mArrayStride c ! unat (a_attr a - VaPos)) (of_nat (a_size a))")
    case None
    then show ?thesis using False i a by (simp add: fetch_attr_def Let_def)
  next
    case (Some src)
    then have "a_size a \<le> length src" using mem_size [OF Some] sz by simp
    then show ?thesis using False i a Some by (simp add: fetch_attr_def Let_def getn_def)
  qed
qed

lemma fetch_attrs_single:
  assumes "list_all (attr_ok stride) as" "rec + stride \<le> length data"
  shows "\<exists>x. fetch_attrs mem c data rec as = Some x \<and> length x = sum_list (map a_size as)"
  using assms(1)
proof (induction as)
  case (Cons a as)
  then show ?case using fetch_attr_single [of stride a rec data c] assms(2) by auto
qed simp

lemma fetch_records_single:
  assumes "list_all (attr_ok stride) as" "\<forall>v \<in> set vs. start + v * stride + stride \<le> length data"
  shows "\<exists>x. fetch_records mem c data start stride as vs = Some x \<and> length x = length vs * sum_list (map a_size as)"
  using assms(2)
proof (induction vs)
  case (Cons v vs)
  then show ?case using fetch_attrs_single [OF assms(1), of "start + v * stride" data c] by auto
qed simp

text \<open>A window as long as the highest index asks for shows each vertex what its own lookup shows.\<close>

lemma fetch_attr_window:
  assumes a: "attr_ok stride a" and s: "unat (mArrayStride c ! unat (a_attr a - VaPos)) \<le> 255"
    and room: "\<forall>v < n. start + v * stride + stride \<le> length data"
  shows "\<exists>b. find_base mem c data start stride n a = Some b \<and> a_size b = a_size a \<and>
     (\<forall>v < n. fetch_attr mem c data (start + v * stride) b = fetch_attr mem c data (start + v * stride) a)"
proof (cases "a_type a = kDirect")
  case True
  then show ?thesis by (simp add: find_base_def)
next
  case False
  let ?k = "unat (a_attr a - VaPos)" and ?n = "of_nat (a_size a) :: u32"
  obtain h where h: "highest_index data start stride a [0..<n] 0 = Some h" "unat h < 2 ^ 16"
    "\<And>v. v < n \<Longrightarrow> \<exists>i. indexAt data (start + v * stride) a = Some i \<and> i \<le> h"
    using highest_index_total [OF a False, of "[0..<n]" start data 0] room by auto
  let ?m = "mem (mArrayBase c ! ?k) (h * mArrayStride c ! ?k + ?n)"
  have b: "find_base mem c data start stride n a = Some (a\<lparr>a_base := ?m\<rparr>)"
    using False h(1) by (simp add: find_base_def Let_def)
  have sz: "0 < a_size a" "a_size a \<le> 36" "a_base a = None" using a by (simp_all add: attr_ok_def)
  then have n: "unat ?n = a_size a" by (intro unat_of_nat_u32) simp
  have prod: "unat (i * mArrayStride c ! ?k) = unat i * unat (mArrayStride c ! ?k)" "unat i * unat (mArrayStride c ! ?k) \<le> 2 ^ 16 * 255"
    if "i \<le> h" for i
  proof -
    have "unat i \<le> 2 ^ 16" using that h(2) by (simp add: word_le_nat_alt)
    then show le: "unat i * unat (mArrayStride c ! ?k) \<le> 2 ^ 16 * 255" using s by (rule mult_le_mono)
    then show "unat (i * mArrayStride c ! ?k) = unat i * unat (mArrayStride c ! ?k)"
      by (simp add: unat_word_ariths)
  qed
  have len: "unat (h * mArrayStride c ! ?k + ?n) = unat h * unat (mArrayStride c ! ?k) + a_size a"
    using prod(2) [OF order_refl] sz n unfolding unat_word_ariths(1) prod(1) [OF order_refl] by simp
  have "fetch_attr mem c data (start + v * stride) (a\<lparr>a_base := ?m\<rparr>) = fetch_attr mem c data (start + v * stride) a"
    if v: "v < n" for v
  proof -
    obtain i where i: "indexAt data (start + v * stride) a = Some i" "i \<le> h" using h(3) [OF v] by blast
    have "indexAt data (start + v * stride) (a\<lparr>a_base := ?m\<rparr>) = indexAt data (start + v * stride) a"
      by (simp add: indexAt_def)
    then have ib: "indexAt data (start + v * stride) (a\<lparr>a_base := ?m\<rparr>) = Some i" using i(1) by simp
    show ?thesis
    proof (cases ?m)
      case None
      then show ?thesis using False i(1) ib sz(3)
        by (simp add: fetch_attr_def Let_def split: option.split)
    next
      case (Some bs)
      have "unat i * unat (mArrayStride c ! ?k) \<le> unat h * unat (mArrayStride c ! ?k)"
        using i(2) by (intro mult_le_mono1) (simp add: word_le_nat_alt)
      then have "unat (i * mArrayStride c ! ?k) + a_size a \<le> unat (h * mArrayStride c ! ?k + ?n)"
        unfolding len prod(1) [OF i(2)] by simp
      from window_bytes [OF Some this sz(1)] sz(2) obtain bs' where
        "mem (mArrayBase c ! ?k + i * mArrayStride c ! ?k) ?n = Some bs'"
        "getn bs' 0 (a_size a) = getn bs (unat (i * mArrayStride c ! ?k)) (a_size a)" by auto
      then show ?thesis using False i(1) ib sz(3) Some by (simp add: fetch_attr_def Let_def)
    qed
  qed
  with b show ?thesis by auto
qed

lemma fetch_attrs_window:
  assumes "list_all (attr_ok stride) as" "list_all (\<lambda>s. unat s \<le> 255) (mArrayStride c)" "length (mArrayStride c) = 16"
    and "\<forall>v < n. start + v * stride + stride \<le> length data"
  shows "\<exists>bs. find_bases mem c data start stride n as = Some bs \<and>
     (\<forall>v < n. fetch_attrs mem c data (start + v * stride) bs = fetch_attrs mem c data (start + v * stride) as)"
  using assms(1)
proof (induction as)
  case (Cons a as)
  then have a: "attr_ok stride a" and as: "list_all (attr_ok stride) as" by simp_all
  obtain bs where bs: "find_bases mem c data start stride n as = Some bs"
    "\<forall>v < n. fetch_attrs mem c data (start + v * stride) bs = fetch_attrs mem c data (start + v * stride) as"
    using Cons.IH [OF as] by blast
  have "\<exists>b. find_base mem c data start stride n a = Some b \<and> a_size b = a_size a \<and>
     (\<forall>v < n. fetch_attr mem c data (start + v * stride) b = fetch_attr mem c data (start + v * stride) a)"
  proof (cases "a_type a = kDirect")
    case True
    then show ?thesis by (simp add: find_base_def)
  next
    case False
    then have "unat (a_attr a - VaPos) < 16" using a by (simp add: attr_ok_def)
    then have "unat (mArrayStride c ! unat (a_attr a - VaPos)) \<le> 255"
      using assms(2,3) by (simp add: list_all_length)
    from fetch_attr_window [OF a this assms(4)] show ?thesis .
  qed
  then obtain b where b: "find_base mem c data start stride n a = Some b"
    "\<forall>v < n. fetch_attr mem c data (start + v * stride) b = fetch_attr mem c data (start + v * stride) a" by blast
  from b bs show ?case by simp
qed simp

lemma fetch_records_window:
  assumes "list_all (attr_ok stride) as" "list_all (\<lambda>s. unat s \<le> 255) (mArrayStride c)" "length (mArrayStride c) = 16"
    and "\<forall>v < n. start + v * stride + stride \<le> length data"
  shows "\<exists>bs. find_bases mem c data start stride n as = Some bs \<and>
     fetch_records mem c data start stride bs [0..<n] = fetch_records mem c data start stride as [0..<n]"
proof -
  obtain bs where bs: "find_bases mem c data start stride n as = Some bs"
    "\<And>v. v < n \<Longrightarrow> fetch_attrs mem c data (start + v * stride) bs = fetch_attrs mem c data (start + v * stride) as"
    using fetch_attrs_window [OF assms] by blast
  have "fetch_records mem c data start stride bs vs = fetch_records mem c data start stride as vs" if "\<forall>v \<in> set vs. v < n" for vs
    using that by (induction vs) (simp_all add: bs(2))
  from this [of "[0..<n]"] bs(1) show ?thesis by simp
qed

end

section \<open>A draw\<close>

text \<open>The draw whose every indexed attribute is looked up by itself, without a window.\<close>

definition RunDraw_each :: "memory \<Rightarrow> u8 \<Rightarrow> bytes \<Rightarrow> nat \<Rightarrow> cp \<Rightarrow> (bool \<times> nat \<times> cp) option" where
  "RunDraw_each mem cmd data pos c =
     (if length data - pos < 2 then Some (False, pos, c)
      else do {
        count \<leftarrow> read16 data pos;
        let (fmt, c) = DirectFormat (cmd AND 7) c; n = unat count in
        case plan_attrs c fmt [0..<VaCount] plan_start of
          None \<Rightarrow> Some (False, pos + 2, c)
        | Some plan \<Rightarrow>
            if p_direct plan = 0 \<and> n \<noteq> 0 \<or> length data - (pos + 2) < p_stream plan * n then Some (False, pos + 2, c)
            else do {
              records \<leftarrow> (if p_indexed plan then fetch_records mem c data (pos + 2) (p_stream plan) (p_attrs plan) [0..<n]
                          else getn data (pos + 2) (p_stream plan * n));
              Some (True, pos + 2 + p_stream plan * n,
                c\<lparr>events := events c @ [Drawn \<lparr>d_primitive = cmd AND 0xF8, d_table = cmd AND 7, d_count = count,
                     d_format = fmt, d_records = records\<rparr>]\<rparr>) } })"

lemma record_room:
  assumes "start \<le> length data" "stride * n \<le> length data - start" "v < (n :: nat)"
  shows "start + v * stride + stride \<le> length data"
proof -
  have "(v + 1) * stride \<le> n * stride" using assms(3) by (intro mult_le_mono1) simp
  then show ?thesis using assms(1,2) by (simp add: mult.commute)
qed

lemma cp_ok_drawn:
  assumes "cp_ok c" "length (d_records d) = unat (d_count d) * PackedVertexSize (d_format d)"
    and "PackedVertexSize (d_format d) = 0 \<longrightarrow> d_count d = 0"
  shows "cp_ok (c\<lparr>events := events c @ [Drawn d]\<rparr>)"
  by (rule cp_ok_cong [OF assms(1)]) (use assms in \<open>simp_all add: cp_ok_def draw_ok_def\<close>)

context guest_memory
begin

lemma RunDraw_windows:
  assumes "cp_ok c" "pos \<le> length data"
  shows "RunDraw mem cmd data pos c = RunDraw_each mem cmd data pos c"
proof (cases "length data - pos < 2")
  case True
  then show ?thesis by (simp add: RunDraw_def RunDraw_each_def)
next
  case False
  obtain fmt c' where d: "DirectFormat (cmd AND 7) c = (fmt, c')" by (cases "DirectFormat (cmd AND 7) c")
  note f = DirectFormat_ok [OF assms(1) d]
  have r: "read16 data pos = Some (be16 (data ! pos) (data ! (pos + 1)))"
    using False by (intro read16_Some) simp
  let ?n = "unat (be16 (data ! pos) (data ! (pos + 1)))"
  show ?thesis
  proof (cases "plan_attrs c' fmt [0..<VaCount] plan_start")
    case None
    then show ?thesis using False r d by (simp add: RunDraw_def RunDraw_each_def plan_start_def Let_def)
  next
    case (Some plan)
    have "compute_format c (cmd AND 7) = compute_format c' (cmd AND 7)" using f(4) by (auto intro: compute_format_cong)
    with Some f(1) have p: "plan_ok plan" using draw_plan(1) by metis
    show ?thesis
    proof (cases "p_direct plan = 0 \<and> ?n \<noteq> 0 \<or> length data - (pos + 2) < p_stream plan * ?n")
      case True
      then show ?thesis using False r d Some by (auto simp: RunDraw_def RunDraw_each_def plan_start_def Let_def)
    next
      case go: False
      have "\<forall>v < ?n. pos + 2 + v * p_stream plan + p_stream plan \<le> length data"
        using False go by (intro allI impI record_room [where n = ?n]) simp_all
      moreover have "list_all (attr_ok (p_stream plan)) (p_attrs plan)" using p by (simp add: plan_ok_def)
      moreover have "list_all (\<lambda>s. unat s \<le> 255) (mArrayStride c')" "length (mArrayStride c') = 16"
        using f(2) by (simp_all add: cp_ok_def)
      ultimately obtain bs where "find_bases mem c' data (pos + 2) (p_stream plan) ?n (p_attrs plan) = Some bs"
        "fetch_records mem c' data (pos + 2) (p_stream plan) bs [0..<?n] =
         fetch_records mem c' data (pos + 2) (p_stream plan) (p_attrs plan) [0..<?n]"
        using fetch_records_window by metis
      then show ?thesis using False r d Some go by (auto simp: RunDraw_def RunDraw_each_def plan_start_def Let_def)
    qed
  qed
qed

lemma RunDraw_ok:
  assumes "cp_ok c" "pos \<le> length data"
  shows "\<exists>ok pos' c'. RunDraw mem cmd data pos c = Some (ok, pos', c') \<and> pos' \<le> length data \<and> pos \<le> pos' \<and>
     cp_ok c' \<and> mDepth c' = mDepth c"
  unfolding RunDraw_windows [OF assms]
proof (cases "length data - pos < 2")
  case True
  then show "\<exists>ok pos' c'. RunDraw_each mem cmd data pos c = Some (ok, pos', c') \<and> pos' \<le> length data \<and> pos \<le> pos' \<and>
     cp_ok c' \<and> mDepth c' = mDepth c" using assms by (intro exI [of _ False]) (simp add: RunDraw_each_def)
next
  case False
  obtain fmt c' where d: "DirectFormat (cmd AND 7) c = (fmt, c')" by (cases "DirectFormat (cmd AND 7) c")
  note f = DirectFormat_ok [OF assms(1) d] and depth = DirectFormat_depth [OF d]
  have r: "read16 data pos = Some (be16 (data ! pos) (data ! (pos + 1)))"
    using False by (intro read16_Some) simp
  let ?n = "unat (be16 (data ! pos) (data ! (pos + 1)))"
  show "\<exists>ok pos' c'. RunDraw_each mem cmd data pos c = Some (ok, pos', c') \<and> pos' \<le> length data \<and> pos \<le> pos' \<and>
     cp_ok c' \<and> mDepth c' = mDepth c"
  proof (cases "plan_attrs c' fmt [0..<VaCount] plan_start")
    case None
    then show ?thesis using False r d f depth by (intro exI [of _ False]) (simp add: RunDraw_each_def Let_def)
  next
    case (Some plan)
    have "compute_format c (cmd AND 7) = compute_format c' (cmd AND 7)" using f(4) by (auto intro: compute_format_cong)
    with Some f(1) have p: "plan_ok plan" "PackedVertexSize fmt = p_direct plan" using draw_plan by metis+
    show ?thesis
    proof (cases "p_direct plan = 0 \<and> ?n \<noteq> 0 \<or> length data - (pos + 2) < p_stream plan * ?n")
      case True
      then show ?thesis using False r d Some f depth by (intro exI [of _ False]) (auto simp: RunDraw_each_def Let_def)
    next
      case go: False
      let ?R = "if p_indexed plan then fetch_records mem c' data (pos + 2) (p_stream plan) (p_attrs plan) [0..<?n]
                          else getn data (pos + 2) (p_stream plan * ?n)"
      have room: "\<forall>v \<in> set [0..<?n]. pos + 2 + v * p_stream plan + p_stream plan \<le> length data"
        using False go by (intro ballI record_room [where n = ?n]) simp_all
      have "\<exists>x. ?R = Some x \<and> length x = ?n * p_direct plan"
      proof (cases "p_indexed plan")
        case True
        then show ?thesis
          using fetch_records_single [of "p_stream plan" "p_attrs plan" "[0..<?n]" "pos + 2" data c'] room p(1)
          by (simp add: plan_ok_def)
      next
        case False
        then show ?thesis using go \<open>\<not> length data - pos < 2\<close> p(1)
          by (auto simp: plan_ok_def getn_def mult.commute)
      qed
      then obtain x where x: "?R = Some x" "length x = ?n * p_direct plan" by blast
      let ?d = "\<lparr>d_primitive = cmd AND 0xF8, d_table = cmd AND 7, d_count = be16 (data ! pos) (data ! (pos + 1)),
                 d_format = fmt, d_records = x\<rparr>"
      have "cp_ok (c'\<lparr>events := events c' @ [Drawn ?d]\<rparr>)"
        using f(2) x(2) p(2) go by (intro cp_ok_drawn) (auto simp: unsigned_eq_0_iff)
      then show ?thesis using False r d Some go x(1) depth
        by (intro exI [of _ True]) (auto simp: RunDraw_each_def Let_def)
    qed
  qed
qed

end

end
