(* ===== verification/Gx_Run.thy ===== *)
theory Gx_Run
  imports Gx_Draw
begin

text \<open>
  The command stream as a whole: that it returns, inside its buffers, and that running it in pieces
  is running it in one.
\<close>

section \<open>A stream returns\<close>

definition steps_ok :: "bytes \<Rightarrow> nat \<Rightarrow> cp \<Rightarrow> run_result \<Rightarrow> bool" where
  "steps_ok data start c r \<longleftrightarrow> (\<exists>x. r = Some x \<and>
     (case x of Inl (n, c') \<Rightarrow> n = start \<and> cp_ok c' \<and> mDepth c' = mDepth c
      | Inr (pos, c') \<Rightarrow> start < pos \<and> pos \<le> length data \<and> cp_ok c' \<and> mDepth c' = mDepth c))"

lemma run_cp_ok: "cp_ok c \<Longrightarrow> steps_ok data start c (run_cp data start c)"
  by (auto simp: steps_ok_def run_cp_def Let_def rd_Some read32_Some LoadCP_ok)

lemma run_xf_ok:
  assumes "cp_ok c"
  shows "steps_ok data start c (run_xf data start c)"
proof (cases "length data - (start + 1) < 4")
  case True
  with assms show ?thesis by (simp add: steps_ok_def run_xf_def)
next
  case False
  then obtain header where h: "read32 data (start + 1) = Some header" by (simp add: read32_Some)
  let ?n = "unat (drop_bit 16 header) + 1"
  show ?thesis
  proof (cases "length data - (start + 1) - 4 < ?n * 4")
    case True
    with False h assms show ?thesis by (simp add: steps_ok_def run_xf_def Let_def)
  next
    case room: False
    have fits: "start + 1 + 4 + 4 * ?n \<le> length data" using False room by linarith
    then obtain ws where "be_words data (start + 1 + 4) ?n = Some ws" using be_words_total by blast
    with False room h fits assms show ?thesis by (simp add: steps_ok_def run_xf_def Let_def load_xf_ok)
  qed
qed

lemma run_bp_ok:
  assumes "cp_ok c"
  shows "steps_ok data start c (run_bp data start c)"
proof -
  have "cp_ok ((BeforeChange cause c)\<lparr>mState := ApplyBP v (mState c)\<rparr>)" for cause v
    using assms by (intro cp_ok_change) (simp_all add: cp_ok_def ok_ApplyBP)
  with assms show ?thesis
    by (auto simp: steps_ok_def run_bp_def Let_def rd_Some read32_Some BeforeChange_def)
qed

definition list_runs :: "(bytes \<Rightarrow> cp \<Rightarrow> (nat \<times> cp) option) \<Rightarrow> nat \<Rightarrow> bool" where
  "list_runs call d \<longleftrightarrow> (\<forall>p c. cp_ok c \<longrightarrow> mDepth c = d \<longrightarrow>
     (\<exists>n c'. call p c = Some (n, c') \<and> n \<le> length p \<and> cp_ok c' \<and> mDepth c' = d))"

context guest_memory
begin

lemma LoadIndexed_ok:
  assumes "cp_ok c"
  shows "\<exists>c'. LoadIndexed mem cmd v c = Some c' \<and> cp_ok c' \<and> mDepth c' = mDepth c"
proof -
  let ?n = "Bits v 4 12 + 1" and ?k = "12 + unat ((cmd - 0x20) div 8)"
  let ?m = "mem (mArrayBase c ! ?k + drop_bit 16 v * mArrayStride c ! ?k) (?n * 4)"
  have n: "unat ?n \<le> 16" "unat ?n * 4 = unat (?n * 4)"
  proof -
    have "unat (Bits v 4 12) < 16" using unat_Bits [of v 4 12] by simp
    then have "unat ?n = unat (Bits v 4 12) + 1" by (simp add: unat_word_ariths)
    with \<open>unat (Bits v 4 12) < 16\<close> show le: "unat ?n \<le> 16" by simp
    then show "unat ?n * 4 = unat (?n * 4)" unfolding unat_word_ariths(2) by simp
  qed
  show ?thesis
  proof (cases ?m)
    case None
    with assms show ?thesis by (simp add: LoadIndexed_def Let_def)
  next
    case (Some src)
    have "0 + 4 * unat ?n \<le> length src" using mem_size [OF Some] n(2) by simp
    from be_words_total [OF this] obtain ws where "be_words src 0 (unat ?n) = Some ws" by blast
    with Some assms show ?thesis by (simp add: LoadIndexed_def Let_def load_xf_ok)
  qed
qed

lemma run_indexed_ok: "cp_ok c \<Longrightarrow> steps_ok data start c (run_indexed mem cmd data start c)"
  using LoadIndexed_ok [of c cmd "be32 (data ! (start + 1)) (data ! (start + 2)) (data ! (start + 3)) (data ! (start + 4))"]
  by (auto simp: steps_ok_def run_indexed_def Let_def read32_Some numeral_eq_Suc)

lemma run_draw_ok: "cp_ok c \<Longrightarrow> start < length data \<Longrightarrow> steps_ok data start c (run_draw mem cmd data start c)"
  using RunDraw_ok [of c "start + 1" data cmd] by (auto simp: steps_ok_def run_draw_def)

lemma run_list_ok:
  assumes "cp_ok c" "mDepth c < kMaxDepth \<longrightarrow> list_runs call (mDepth c + 1)"
  shows "steps_ok data start c (run_list mem call data start c)"
proof (cases "length data - (start + 1) < 8")
  case True
  with assms show ?thesis by (simp add: steps_ok_def run_list_def)
next
  case False
  then obtain address bytes where r: "read32 data (start + 1) = Some address" "read32 data (start + 1 + 4) = Some bytes"
    by (simp add: read32_Some)
  show ?thesis
  proof (cases "mem (address AND 0x3FFFFFFF) bytes")
    case None
    with False r assms show ?thesis by (simp add: steps_ok_def run_list_def Let_def)
  next
    case (Some commands)
    have g: "getn commands 0 (unat bytes) = Some (take (unat bytes) commands)"
      using mem_size [OF Some] by (simp add: getn_def)
    show ?thesis
    proof (cases "mDepth c < kMaxDepth")
      case True
      with assms obtain n c' where "call (take (unat bytes) commands) (c\<lparr>mDepth := mDepth c + 1\<rparr>) = Some (n, c')"
        "cp_ok c'" "mDepth c' = mDepth c + 1"
        unfolding list_runs_def using cp_ok_depth [of "mDepth c + 1" c] by fastforce
      with False r Some g True show ?thesis by (simp add: steps_ok_def run_list_def Let_def cp_ok_depth)
    next
      case no: False
      with False r Some assms show ?thesis by (simp add: steps_ok_def run_list_def Let_def)
    qed
  qed
qed

lemma run_body_ok:
  assumes "cp_ok c" "start < length data" "mDepth c < kMaxDepth \<longrightarrow> list_runs call (mDepth c + 1)"
  shows "steps_ok data start c (run_body mem call data (start, c))"
proof -
  have "steps_ok data start c (Some (Inl (start, c)))" "steps_ok data start c (Some (Inr (start + 1, c)))"
    using assms(1,2) by (simp_all add: steps_ok_def)
  with assms run_draw_ok [OF assms(1,2)] run_cp_ok run_xf_ok run_indexed_ok run_list_ok [OF assms(1,3)] run_bp_ok
  show ?thesis by (simp add: run_body_def rd_Some)
qed

lemma run_loop_ok:
  assumes "cp_ok c" "start \<le> length data" "mDepth c < kMaxDepth \<longrightarrow> list_runs call (mDepth c + 1)"
  shows "\<exists>r. loop (run_body mem call data) (start, c) = Some r \<and>
     (case r of (n, c') \<Rightarrow> n \<le> length data \<and> cp_ok c' \<and> mDepth c' = mDepth c)"
proof (rule loop_total [where I = "\<lambda>(pos, c'). pos \<le> length data \<and> cp_ok c' \<and> mDepth c' = mDepth c"
      and m = "\<lambda>(pos, c'). length data - pos"])
  show "case (start, c) of (pos, c') \<Rightarrow> pos \<le> length data \<and> cp_ok c' \<and> mDepth c' = mDepth c" using assms by simp
  fix s assume I: "case s of (pos, c') \<Rightarrow> pos \<le> length data \<and> cp_ok c' \<and> mDepth c' = mDepth c"
  obtain pos c' where s: "s = (pos, c')" by (cases s)
  with I have i: "pos \<le> length data" "cp_ok c'" "mDepth c' = mDepth c" by simp_all
  show "(\<exists>r. run_body mem call data s = Some (Inl r) \<and>
       (case r of (n, c') \<Rightarrow> n \<le> length data \<and> cp_ok c' \<and> mDepth c' = mDepth c)) \<or>
     (\<exists>s'. run_body mem call data s = Some (Inr s') \<and>
       (case s' of (pos, c') \<Rightarrow> pos \<le> length data \<and> cp_ok c' \<and> mDepth c' = mDepth c) \<and>
       (case s' of (pos, c') \<Rightarrow> length data - pos) < (case s of (pos, c') \<Rightarrow> length data - pos))"
  proof (cases "pos < length data")
    case True
    with i assms(3) have "steps_ok data pos c' (run_body mem call data (pos, c'))" by (intro run_body_ok) simp_all
    then obtain x where "run_body mem call data (pos, c') = Some x"
      "case x of Inl (n, d) \<Rightarrow> n = pos \<and> cp_ok d \<and> mDepth d = mDepth c'
       | Inr (q, d) \<Rightarrow> pos < q \<and> q \<le> length data \<and> cp_ok d \<and> mDepth d = mDepth c'"
      by (auto simp: steps_ok_def)
    then show ?thesis using s i True by (cases x) auto
  next
    case False
    then show ?thesis using s i by (simp add: run_body_def)
  qed
qed

lemma Run_at_ok:
  assumes "cp_ok c" "n = kMaxDepth - mDepth c"
  shows "\<exists>r. Run_at mem n data c = Some r \<and> (case r of (m, c') \<Rightarrow> m \<le> length data \<and> cp_ok c' \<and> mDepth c' = mDepth c)"
  using assms
proof (induction n arbitrary: data c)
  case 0
  then show ?case using run_loop_ok [of c 0 data "\<lambda>_ _. None"] by simp
next
  case (Suc n)
  have "list_runs (Run_at mem n) (mDepth c + 1)"
    unfolding list_runs_def
  proof (intro allI impI)
    fix p c' assume c': "cp_ok c'" "mDepth c' = mDepth c + 1"
    with Suc.prems(2) have "n = kMaxDepth - mDepth c'" by simp
    from Suc.IH [OF c'(1) this, of p] c'(2)
    show "\<exists>m c''. Run_at mem n p c' = Some (m, c'') \<and> m \<le> length p \<and> cp_ok c'' \<and> mDepth c'' = mDepth c + 1"
      by auto
  qed
  then show ?case unfolding Run_at.simps using Suc.prems by (intro run_loop_ok) simp_all
qed

end

lemma Run_top: "mDepth c = 0 \<Longrightarrow> Run mem data c = loop (run_body mem (Run_at mem 3) data) (0, c)"
  by (simp add: Run_def kMaxDepth_def eval_nat_numeral)

section \<open>A stream in pieces\<close>

text \<open>Reading behind the first \<open>k\<close> bytes.\<close>

lemma rd_drop [simp]: "rd (drop k p) i = rd p (k + i)"
  by (simp add: rd_def less_diff_conv add.commute)

lemma read_drop [simp]: "read16 (drop k p) i = read16 p (k + i)" "read32 (drop k p) i = read32 p (k + i)"
  by (simp_all add: read16_def read32_def add.assoc)

lemma getn_drop [simp]: "k \<le> length p \<Longrightarrow> getn (drop k p) i n = getn p (k + i) n"
  by (auto simp: getn_def add.commute)

lemma be_words_drop [simp]: "be_words (drop k p) i n = be_words p (k + i) n"
  by (induction n arbitrary: i) (simp_all add: add.assoc)

lemma indexAt_drop: "indexAt (drop k p) rec a = indexAt p (k + rec) a"
  by (simp add: indexAt_def add.assoc)

lemma fetch_drop:
  assumes "k \<le> length p"
  shows "fetch_records mem c (drop k p) start stride as vs = fetch_records mem c p (k + start) stride as vs"
proof -
  have "fetch_attr mem c (drop k p) rec a = fetch_attr mem c p (k + rec) a" for rec a
    using assms by (simp add: fetch_attr_def indexAt_drop add.assoc)
  then have "fetch_attrs mem c (drop k p) rec as = fetch_attrs mem c p (k + rec) as" for rec
    by (induction as) simp_all
  then show ?thesis by (induction vs) (simp_all add: add.assoc)
qed

definition shift_draw :: "nat \<Rightarrow> bool \<times> nat \<times> cp \<Rightarrow> bool \<times> nat \<times> cp" where
  "shift_draw k = (\<lambda>(ok, pos, c). (ok, k + pos, c))"

lemma RunDraw_each_drop:
  assumes "k \<le> length p"
  shows "RunDraw_each mem cmd p (k + pos) c = map_option (shift_draw k) (RunDraw_each mem cmd (drop k p) pos c)"
proof -
  have l: "length (drop k p) - i = length p - (k + i)" for i by simp
  obtain fmt c' where d: "DirectFormat (cmd AND 7) c = (fmt, c')" by (cases "DirectFormat (cmd AND 7) c")
  show ?thesis unfolding RunDraw_each_def l read_drop fetch_drop [OF assms] getn_drop [OF assms] d
    by (cases "read16 p (k + pos)"; cases "plan_attrs c' fmt [0..<VaCount] plan_start")
       (simp_all add: shift_draw_def Let_def add.assoc option.map_comp comp_def map_option_bind
          split: Option.bind_split)
qed

lemma be_words_more: "be_words p i n = Some x \<Longrightarrow> be_words (p @ q) i n = Some x"
  by (induction n arbitrary: i x) (auto simp: read32_more split: Option.bind_splits)

lemma fetch_more:
  assumes "fetch_records mem c p start stride as vs = Some x"
  shows "fetch_records mem c (p @ q) start stride as vs = Some x"
proof -
  have i: "indexAt (p @ q) rec a = Some i" if "indexAt p rec a = Some i" for rec a i
    using that by (auto simp: indexAt_def rd_more read16_more split: if_splits Option.bind_splits)
  have a: "fetch_attr mem c (p @ q) rec a = Some y" if "fetch_attr mem c p rec a = Some y" for rec a y
    using that by (auto simp: fetch_attr_def getn_more i split: if_splits Option.bind_splits)
  have as: "fetch_attrs mem c (p @ q) rec as = Some y" if "fetch_attrs mem c p rec as = Some y" for rec as y
    using that by (induction as arbitrary: y) (auto simp: a split: Option.bind_splits)
  show ?thesis using assms by (induction vs arbitrary: x) (auto simp: as split: Option.bind_splits)
qed

definition shift_run :: "nat \<Rightarrow> (nat \<times> cp) + nat \<times> cp \<Rightarrow> (nat \<times> cp) + nat \<times> cp" where
  "shift_run k = map_sum (\<lambda>(n, c). (k + n, c)) (\<lambda>(n, c). (k + n, c))"

lemma shift_run_simps [simp]:
  "shift_run k (Inl (n, c)) = Inl (k + n, c)" "shift_run k (Inr (n, c)) = Inr (k + n, c)"
  by (simp_all add: shift_run_def)

lemma length_left: "length (drop k p) - i = length p - (k + i)"
  by simp

lemmas run_defs = run_draw_def run_cp_def run_xf_def run_indexed_def run_list_def run_bp_def

lemma run_cp_drop: "run_cp p (k + start) c = map_option (shift_run k) (run_cp (drop k p) start c)"
  by (simp add: run_cp_def Let_def length_left map_option_bind comp_def ac_simps del: length_drop
      split: Option.bind_split)

lemma run_xf_drop: "run_xf p (k + start) c = map_option (shift_run k) (run_xf (drop k p) start c)"
  by (cases "read32 p (k + (start + 1))")
     (simp_all add: run_xf_def Let_def length_left map_option_bind comp_def ac_simps del: length_drop
      split: Option.bind_split)

lemma run_indexed_drop: "run_indexed mem cmd p (k + start) c = map_option (shift_run k) (run_indexed mem cmd (drop k p) start c)"
  by (simp add: run_indexed_def Let_def length_left map_option_bind comp_def ac_simps del: length_drop
      split: Option.bind_split)

lemma run_list_drop: "run_list mem call p (k + start) c = map_option (shift_run k) (run_list mem call (drop k p) start c)"
  by (cases "read32 p (k + (start + 1))"; cases "read32 p (k + (start + 1 + 4))")
     (simp_all add: run_list_def Let_def length_left map_option_bind comp_def ac_simps del: length_drop
      split: Option.bind_split option.split prod.split)

lemma run_bp_drop: "run_bp p (k + start) c = map_option (shift_run k) (run_bp (drop k p) start c)"
  by (simp add: run_bp_def Let_def length_left map_option_bind comp_def ac_simps del: length_drop
      split: Option.bind_split)

context guest_memory
begin

lemma run_draw_drop:
  assumes "cp_ok c" "k + start < length p"
  shows "run_draw mem cmd p (k + start) c = map_option (shift_run k) (run_draw mem cmd (drop k p) start c)"
proof -
  have "RunDraw mem cmd p (k + (start + 1)) c = map_option (shift_draw k) (RunDraw mem cmd (drop k p) (start + 1) c)"
    using assms RunDraw_each_drop [of k p mem cmd "start + 1" c] by (simp add: RunDraw_windows)
  then show ?thesis
    by (cases "RunDraw mem cmd (drop k p) (start + 1) c")
       (auto simp: run_draw_def shift_draw_def add.assoc)
qed

lemma run_body_drop:
  assumes "cp_ok c" "k \<le> length p"
  shows "run_body mem call p (k + start, c) = map_option (shift_run k) (run_body mem call (drop k p) (start, c))"
proof (cases "k + start < length p")
  case True
  then have c: "rd p (k + start) = Some (p ! (k + start))" "start < length (drop k p)" by (simp_all add: rd_Some less_diff_conv add.commute)
  show ?thesis
    using True c run_cp_drop run_xf_drop run_indexed_drop run_list_drop run_bp_drop run_draw_drop [OF assms(1) True]
    by (simp add: run_body_def)
next
  case False
  then show ?thesis using assms(2) by (auto simp: run_body_def)
qed

end

lemma run_more:
  "run_cp p start c = Some (Inr x) \<Longrightarrow> run_cp (p @ q) start c = Some (Inr x)"
  "run_xf p start c = Some (Inr x) \<Longrightarrow> run_xf (p @ q) start c = Some (Inr x)"
  "run_indexed mem cmd p start c = Some (Inr x) \<Longrightarrow> run_indexed mem cmd (p @ q) start c = Some (Inr x)"
  "run_list mem call p start c = Some (Inr x) \<Longrightarrow> run_list mem call (p @ q) start c = Some (Inr x)"
  "run_bp p start c = Some (Inr x) \<Longrightarrow> run_bp (p @ q) start c = Some (Inr x)"
  by (auto simp: run_cp_def run_xf_def run_indexed_def run_list_def run_bp_def Let_def read32_more be_words_more rd_more 
     split: if_splits Option.bind_splits)

lemma RunDraw_each_more:
  assumes "cp_ok c" "RunDraw_each mem cmd p pos c = Some (ok, pos', c')"
  shows "RunDraw_each mem cmd (p @ q) pos c = (if ok then Some (ok, pos', c') else RunDraw_each mem cmd (p @ q) pos c')"
proof (cases "length p - pos < 2")
  case True
  with assms(2) show ?thesis by (simp add: RunDraw_each_def)
next
  case False
  obtain fmt d where d: "DirectFormat (cmd AND 7) c = (fmt, d)" by (cases "DirectFormat (cmd AND 7) c")
  note same = DirectFormat_ok(3) [OF assms(1) d]
  from False assms(2) obtain w where w: "read16 p pos = Some w"
    by (auto simp: RunDraw_each_def split: Option.bind_splits)
  have q: "\<not> length (p @ q) - pos < 2" using False by simp
  note eqs = RunDraw_each_def w read16_more [OF w] d same
  show ?thesis
  proof (cases "plan_attrs d fmt [0..<VaCount] plan_start")
    case None
    with False assms(2) have "\<not> ok" "c' = d" by (auto simp: eqs Let_def)
    with q show ?thesis by (auto simp: eqs Let_def)
  next
    case (Some plan)
    show ?thesis
    proof (cases "p_direct plan = 0 \<and> unat w \<noteq> 0 \<or> length p - (pos + 2) < p_stream plan * unat w")
      case True
      with False assms(2) Some have "\<not> ok" "c' = d" by (auto simp: eqs Let_def)
      with q show ?thesis by (auto simp: eqs Let_def)
    next
      case go: False
      let ?R = "\<lambda>p. if p_indexed plan then fetch_records mem d p (pos + 2) (p_stream plan) (p_attrs plan) [0..<unat w]
                    else getn p (pos + 2) (p_stream plan * unat w)"
      from False assms(2) Some go obtain x where x: "?R p = Some x"
        by (auto simp: eqs Let_def split: Option.bind_splits if_splits)
      then have x': "?R (p @ q) = Some x" by (simp add: fetch_more getn_more split: if_splits)
      have go': "\<not> (p_direct plan = 0 \<and> unat w \<noteq> 0 \<or> length (p @ q) - (pos + 2) < p_stream plan * unat w)"
        using go False by auto
      have "RunDraw_each mem cmd p pos c = Some (True, pos + 2 + p_stream plan * unat w,
         d\<lparr>events := events d @ [Drawn \<lparr>d_primitive = cmd AND 0xF8, d_table = cmd AND 7, d_count = w,
            d_format = fmt, d_records = x\<rparr>]\<rparr>)"
        unfolding RunDraw_each_def using False go x Some by (simp add: w d Let_def)
      moreover have "RunDraw_each mem cmd (p @ q) pos c = Some (True, pos + 2 + p_stream plan * unat w,
         d\<lparr>events := events d @ [Drawn \<lparr>d_primitive = cmd AND 0xF8, d_table = cmd AND 7, d_count = w,
            d_format = fmt, d_records = x\<rparr>]\<rparr>)"
        unfolding RunDraw_each_def using q go' x' Some by (simp add: read16_more [OF w] d Let_def)
      ultimately show ?thesis using assms(2) by simp
    qed
  qed
qed

context guest_memory
begin

lemma run_draw_more:
  assumes "cp_ok c" "start < length p"
  shows "run_draw mem cmd p start c = Some (Inr x) \<Longrightarrow> run_draw mem cmd (p @ q) start c = Some (Inr x)"
    "run_draw mem cmd p start c = Some (Inl (n, c')) \<Longrightarrow> run_draw mem cmd (p @ q) start c = run_draw mem cmd (p @ q) start c'"
proof -
  obtain ok pos' d where r: "RunDraw mem cmd p (start + 1) c = Some (ok, pos', d)" "cp_ok d"
    using RunDraw_ok [OF assms(1), of "start + 1" p cmd] assms(2) by auto
  have w: "RunDraw mem cmd p (start + 1) c = RunDraw_each mem cmd p (start + 1) c"
    "RunDraw mem cmd (p @ q) (start + 1) c = RunDraw_each mem cmd (p @ q) (start + 1) c"
    "RunDraw mem cmd (p @ q) (start + 1) d = RunDraw_each mem cmd (p @ q) (start + 1) d"
    using assms r(2) by (simp_all add: RunDraw_windows)
  have m: "RunDraw mem cmd (p @ q) (start + 1) c =
      (if ok then Some (ok, pos', d) else RunDraw mem cmd (p @ q) (start + 1) d)"
    unfolding w using RunDraw_each_more [OF assms(1), of mem cmd p "start + 1" ok pos' d q] r(1) w(1) by simp
  show "run_draw mem cmd p start c = Some (Inr x) \<Longrightarrow> run_draw mem cmd (p @ q) start c = Some (Inr x)"
    using r(1) m by (auto simp: run_draw_def split: if_splits)
  show "run_draw mem cmd p start c = Some (Inl (n, c')) \<Longrightarrow> run_draw mem cmd (p @ q) start c = run_draw mem cmd (p @ q) start c'"
    using r(1) m by (auto simp: run_draw_def split: if_splits)
qed

lemma run_body_more:
  assumes "cp_ok c" "start < length p"
  shows "run_body mem call p (start, c) = Some (Inr x) \<Longrightarrow> run_body mem call (p @ q) (start, c) = Some (Inr x)"
    "run_body mem call p (start, c) = Some (Inl (n, c')) \<Longrightarrow>
       n = start \<and> run_body mem call (p @ q) (start, c) = run_body mem call (p @ q) (start, c')"
proof -
  have c: "rd p start = Some (p ! start)" "rd (p @ q) start = Some (p ! start)" using assms(2) by (simp_all add: rd_def nth_append)
  show "run_body mem call p (start, c) = Some (Inr x) \<Longrightarrow> run_body mem call (p @ q) (start, c) = Some (Inr x)"
    using assms(2) run_draw_more(1) [OF assms] by (auto simp: run_body_def c run_more split: if_splits)
  have same: "n = start \<and> c' = c" if
    "run_cp p start c = Some (Inl (n, c')) \<or> run_xf p start c = Some (Inl (n, c')) \<or>
     run_indexed mem (p ! start) p start c = Some (Inl (n, c')) \<or> run_list mem call p start c = Some (Inl (n, c')) \<or>
     run_bp p start c = Some (Inl (n, c')) \<or> Some (Inl (start, c)) = Some (Inl (n, c') :: (nat \<times> cp) + nat \<times> cp)"
    using that by (auto simp: run_cp_def run_xf_def run_indexed_def run_list_def run_bp_def Let_def
        split: if_splits Option.bind_splits option.splits)
  assume r: "run_body mem call p (start, c) = Some (Inl (n, c'))"
  show "n = start \<and> run_body mem call (p @ q) (start, c) = run_body mem call (p @ q) (start, c')"
  proof (cases "0x80 \<le> p ! start \<and> p ! start \<le> 0xBF")
    case True
    with r assms(2) have "run_draw mem (p ! start) p start c = Some (Inl (n, c'))" by (simp add: run_body_def c)
    moreover from this have "n = start" by (auto simp: run_draw_def split: Option.bind_splits if_splits)
    ultimately show ?thesis using True assms(2) run_draw_more(2) [OF assms] by (simp add: run_body_def c)
  next
    case False
    with r assms(2) have "n = start \<and> c' = c" by (intro same) (auto simp: run_body_def c split: if_splits)
    then show ?thesis by simp
  qed
qed

text \<open>Where a piece stops, the whole stream goes on: nothing is run twice and nothing is lost.\<close>

lemma loop_more:
  assumes "cp_ok c" "start \<le> length p" "mDepth c < kMaxDepth \<longrightarrow> list_runs call (mDepth c + 1)"
    and "loop (run_body mem call p) (start, c) = Some (n, c')"
  shows "loop (run_body mem call (p @ q)) (start, c) = loop (run_body mem call (p @ q)) (n, c')"
  using assms
proof (induction "length p - start" arbitrary: start c rule: less_induct)
  case less
  have unfold: "loop f s = (case f s of None \<Rightarrow> None | Some (Inl r) \<Rightarrow> Some r | Some (Inr s') \<Rightarrow> loop f s')"
    for f and s :: "nat \<times> cp" by (rule loop.simps)
  show ?case
  proof (cases "start < length p")
    case False
    with less.prems(4) show ?thesis by (subst (asm) unfold) (simp add: run_body_def)
  next
    case True
    with less.prems have "steps_ok p start c (run_body mem call p (start, c))" by (intro run_body_ok) simp_all
    then obtain x where x: "run_body mem call p (start, c) = Some x"
      "case x of Inl (n, d) \<Rightarrow> n = start \<and> cp_ok d \<and> mDepth d = mDepth c
       | Inr (pos, d) \<Rightarrow> start < pos \<and> pos \<le> length p \<and> cp_ok d \<and> mDepth d = mDepth c"
      by (auto simp: steps_ok_def)
    show ?thesis
    proof (cases x)
      case (Inl r)
      with x(1) less.prems(4) have "r = (n, c')" by (simp add: loop_Inl)
      with x(1) Inl have b: "run_body mem call p (start, c) = Some (Inl (n, c'))" by simp
      note m = run_body_more(2) [OF less.prems(1) True b, of q]
      show ?thesis using m by (subst (1 2) unfold) simp
    next
      case (Inr s)
      obtain pos d where s: "s = (pos, d)" by (cases s)
      with x Inr have d: "start < pos" "pos \<le> length p" "cp_ok d" "mDepth d = mDepth c"
        and b: "run_body mem call p (start, c) = Some (Inr (pos, d))" by simp_all
      have p: "loop (run_body mem call p) (pos, d) = Some (n, c')" using less.prems(4) b by (simp add: loop_Inr)
      have "loop (run_body mem call (p @ q)) (start, c) = loop (run_body mem call (p @ q)) (pos, d)"
        using run_body_more(1) [OF less.prems(1) True b, of q] by (simp add: loop_Inr)
      also have "\<dots> = loop (run_body mem call (p @ q)) (n, c')"
        using less.hyps [OF _ d(3,2) _ p] d True less.prems(3) by simp
      finally show ?thesis .
    qed
  qed
qed

lemma loop_drop:
  assumes "cp_ok c" "k + start \<le> length p" "mDepth c < kMaxDepth \<longrightarrow> list_runs call (mDepth c + 1)"
  shows "\<exists>n c'. loop (run_body mem call p) (k + start, c) = Some (k + n, c') \<and>
     loop (run_body mem call (drop k p)) (start, c) = Some (n, c')"
proof -
  let ?R = "\<lambda>(i, d) (j, e). i = k + j \<and> d = e \<and> i \<le> length p \<and> cp_ok d \<and> mDepth d = mDepth c"
  have "\<exists>r r'. loop (run_body mem call p) (k + start, c) = Some r \<and> loop (run_body mem call (drop k p)) (start, c) = Some r' \<and>
     (case (r, r') of ((n, d), (n', d')) \<Rightarrow> n = k + n' \<and> d = d')"
  proof (rule loop_refine [where R = ?R and m = "\<lambda>(i, d). length p - i"])
    show "?R (k + start, c) (start, c)" using assms by simp
    fix s t assume R: "?R s t"
    obtain i d where s: "s = (i, d)" by (cases s)
    with R obtain j where t: "t = (j, d)" and i: "i = k + j" "i \<le> length p" "cp_ok d" "mDepth d = mDepth c" by (cases t) auto
    have eq: "run_body mem call p s = map_option (shift_run k) (run_body mem call (drop k p) t)"
      unfolding s t i(1) using i by (intro run_body_drop) simp_all
    show "(\<exists>r r'. run_body mem call p s = Some (Inl r) \<and> run_body mem call (drop k p) t = Some (Inl r') \<and>
         (case (r, r') of ((n, d), (n', d')) \<Rightarrow> n = k + n' \<and> d = d')) \<or>
      (\<exists>s' t'. run_body mem call p s = Some (Inr s') \<and> run_body mem call (drop k p) t = Some (Inr t') \<and> ?R s' t' \<and>
         (case s' of (i, d) \<Rightarrow> length p - i) < (case s of (i, d) \<Rightarrow> length p - i))"
    proof (cases "i < length p")
      case False
      with i have "\<not> j < length p - k" by simp
      then show ?thesis using False s t i by (simp add: run_body_def)
    next
      case True
      have "steps_ok p i d (run_body mem call p (i, d))" using i assms(3) True by (intro run_body_ok) simp_all
      then obtain x where x: "run_body mem call p s = Some x"
        "case x of Inl (n, e) \<Rightarrow> n = i \<and> cp_ok e \<and> mDepth e = mDepth d
         | Inr (pos, e) \<Rightarrow> i < pos \<and> pos \<le> length p \<and> cp_ok e \<and> mDepth e = mDepth d"
        by (auto simp: steps_ok_def s)
      with eq obtain y where y: "run_body mem call (drop k p) t = Some y" "x = shift_run k y"
        by (cases "run_body mem call (drop k p) t") auto
      show ?thesis using x y i s
        by (cases y) (auto simp: shift_run_def intro!: diff_less_mono2)
    qed
  qed
  then show ?thesis by auto
qed

lemma Run_resume:
  assumes "cp_ok c" "mDepth c = 0" "Run mem p c = Some (n, c')"
  shows "Run mem (p @ q) c = map_option (\<lambda>(m, d). (n + m, d)) (Run mem (drop n p @ q) c')"
proof -
  let ?call = "Run_at mem 3"
  have runs: "list_runs ?call 1"
    unfolding list_runs_def using Run_at_ok [where n = 3] by (fastforce simp: kMaxDepth_def)
  have c': "n \<le> length p" "cp_ok c'" "mDepth c' = 0"
    using Run_at_ok [OF assms(1) refl, of p] assms(2,3) by (simp_all add: Run_def)
  have "Run mem (p @ q) c = loop (run_body mem ?call (p @ q)) (n, c')"
    unfolding Run_top [OF assms(2)]
    by (rule loop_more) (use assms runs in \<open>simp_all add: Run_top\<close>)
  moreover obtain m d where "loop (run_body mem ?call (p @ q)) (n + 0, c') = Some (n + m, d)"
    "loop (run_body mem ?call (drop n (p @ q))) (0, c') = Some (m, d)"
    using loop_drop [OF c'(2), of n 0 "p @ q" ?call] c' runs by auto
  moreover have "drop n (p @ q) = drop n p @ q" using c'(1) by simp
  ultimately show ?thesis by (simp add: Run_top c'(3))
qed

end

section \<open>The processor on MEM1\<close>

primrec run_all :: "memory \<Rightarrow> bytes list \<Rightarrow> cp \<Rightarrow> cp option" where
  "run_all mem [] c = Some c"
| "run_all mem (data # ds) c = do { (n, c) \<leftarrow> Run mem data c; run_all mem ds c }"

lemma cp_ok_start: "cp_ok (CommandProcessor (gx_run ws))" "mDepth (CommandProcessor s) = 0"
  by (rule cp_ok_init, rule gx_run_keeps_ok) (simp add: CommandProcessor_def)

lemma run_all_ok:
  assumes "cp_ok c" "mDepth c = 0"
  shows "\<exists>c'. run_all (guest_bytes (mem1 ram)) ds c = Some c' \<and> cp_ok c' \<and> mDepth c' = 0"
  using assms
proof (induction ds arbitrary: c)
  case (Cons data ds)
  obtain n c' where "Run (guest_bytes (mem1 ram)) data c = Some (n, c')" "cp_ok c'" "mDepth c' = 0"
    using mem1.Run_at_ok [OF Cons.prems(1) refl, of ram data] Cons.prems(2) by (auto simp: Run_def)
  with Cons.IH show ?case by simp
qed simp

text \<open>C23: From any GX state a stream of register writes reaches, the command processor runs any streams of
  bytes whatever, with any contents of MEM1 behind its arrays and display lists: each Run returns
  without reading outside a buffer, the nesting of display lists unwinds, the state keeps its
  invariant, and every draw handed on carries exactly the bytes of its vertex count.\<close>

theorem Run_returns:
  "\<exists>c. run_all (guest_bytes (mem1 ram)) streams (CommandProcessor (gx_run ws)) = Some c \<and> cp_ok c \<and> mDepth c = 0"
  by (rule run_all_ok) (rule cp_ok_start)+

text \<open>Running a stream whose end has not arrived and then, behind what was left of it, the rest is running
  the whole at once: the same bytes are run, the same events happen in the same order and the
  processor ends in the same state, wherever the stream was cut.\<close>

theorem Run_resumes:
  assumes "cp_ok c" "mDepth c = 0" "Run (guest_bytes (mem1 ram)) p c = Some (n, c')"
  shows "Run (guest_bytes (mem1 ram)) (p @ q) c =
    map_option (\<lambda>(m, d). (n + m, d)) (Run (guest_bytes (mem1 ram)) (drop n p @ q) c')"
  by (rule mem1.Run_resume [OF assms])

lemma Run_resumes_witness:
  "Run (guest_bytes (mem1 [])) ([0x00, 0x61] @ [1, 2, 3, 4]) (CommandProcessor (gx_run [])) =
    map_option (\<lambda>(m, d). (1 + m, d))
      (Run (guest_bytes (mem1 [])) (drop 1 [0x00, 0x61] @ [1, 2, 3, 4]) (CommandProcessor (gx_run [])))"
proof (rule Run_resumes [OF cp_ok_start])
  let ?c = "CommandProcessor (gx_run [])"
  have body: "run_body mem call [0x00, 0x61] (0, ?c) = Some (Inr (1, ?c))"
    "run_body mem call [0x00, 0x61] (1, ?c) = Some (Inl (1, ?c))" for mem call
    by (simp_all add: run_body_def run_bp_def rd_def)
  then have "loop (run_body mem call [0x00, 0x61]) (0, ?c) = Some (1, ?c)" for mem call
    by (simp add: loop_Inr loop_Inl)
  then show "Run (guest_bytes (mem1 [])) [0x00, 0x61] ?c = Some (1, ?c)"
    by (simp add: Run_top cp_ok_start(2))
qed

text \<open>Resolving each indexed array of a draw once, as one window up to the highest index the draw reads,
  gives exactly the records that looking every vertex up by itself gives, including the arrays that
  are not all in memory.\<close>

theorem RunDraw_windowed:
  assumes "cp_ok c" "pos \<le> length data"
  shows "RunDraw (guest_bytes (mem1 ram)) cmd data pos c = RunDraw_each (guest_bytes (mem1 ram)) cmd data pos c"
  by (rule mem1.RunDraw_windows [OF assms])

lemma RunDraw_windowed_witness:
  "RunDraw (guest_bytes (mem1 [])) 0x90 [0, 3, 7] 0 (CommandProcessor (gx_run [])) =
     RunDraw_each (guest_bytes (mem1 [])) 0x90 [0, 3, 7] 0 (CommandProcessor (gx_run []))"
  by (rule RunDraw_windowed [OF cp_ok_start(1)]) simp

end
