(* ===== verification/Gx_Fifo.thy ===== *)
theory Gx_Fifo
  imports Gx_Run
begin

text \<open>
  src/platform/gpu/gx_native_switch.cpp: the gather pipe's bytes, buffered and run in batches.
  The clocks and the renderer's own members are not part of the record.
\<close>

definition kRunBatch :: nat where "kRunBatch = 16 * 1024"
definition kStallLimit :: nat where "kStallLimit = 256 * 1024"

record fifo =
  f_processor :: cp
  f_pending :: bytes
  f_stalled :: u32

definition flush_now :: "memory \<Rightarrow> fifo \<Rightarrow> fifo option" where
  "flush_now mem r =
     (if f_pending r = [] then Some r
      else do {
        (ran, c) \<leftarrow> Run mem (f_pending r) (f_processor r);
        let r = r\<lparr>f_processor := c, f_pending := drop ran (f_pending r)\<rparr> in
        if kStallLimit < length (f_pending r)
        then Some (r\<lparr>f_stalled := f_stalled r + of_nat (length (f_pending r)), f_pending := []\<rparr>)
        else Some r })"

definition write_now :: "memory \<Rightarrow> bytes \<Rightarrow> fifo \<Rightarrow> fifo option" where
  "write_now mem data r =
     (let r = r\<lparr>f_pending := f_pending r @ data\<rparr> in
      if kRunBatch \<le> length (f_pending r) then flush_now mem r else Some r)"

definition call_list_now :: "memory \<Rightarrow> u32 \<Rightarrow> u32 \<Rightarrow> fifo \<Rightarrow> fifo option" where
  "call_list_now mem address bytes r = do {
     r \<leftarrow> flush_now mem r;
     case mem address bytes of
       None \<Rightarrow> Some r
     | Some commands \<Rightarrow> do {
         commands \<leftarrow> getn commands 0 (unat bytes);
         (ran, c) \<leftarrow> Run mem commands (f_processor r);
         Some (r\<lparr>f_processor := c\<rparr>) } }"

primrec write_all :: "memory \<Rightarrow> bytes list \<Rightarrow> fifo \<Rightarrow> fifo option" where
  "write_all mem [] r = flush_now mem r"
| "write_all mem (data # ds) r = do { r \<leftarrow> write_now mem data r; write_all mem ds r }"

definition fifo_start :: "cp \<Rightarrow> fifo" where
  "fifo_start c = \<lparr>f_processor = c, f_pending = [], f_stalled = 0\<rparr>"

section \<open>What the batches do to the stream\<close>

definition fifo_ok :: "fifo \<Rightarrow> bool" where
  "fifo_ok r \<longleftrightarrow> cp_ok (f_processor r) \<and> mDepth (f_processor r) = 0"

text \<open>
  Nothing was let go, and after the bytes \<open>bs\<close> the pipe stands where running them at once would, for
  whatever follows; or something was, and the counter says so.
\<close>

definition fifo_holds :: "memory \<Rightarrow> cp \<Rightarrow> bytes \<Rightarrow> fifo \<Rightarrow> bool" where
  "fifo_holds mem c0 bs r \<longleftrightarrow> (if f_stalled r = 0
     then \<exists>k. k + length (f_pending r) = length bs \<and> f_pending r = drop k bs \<and>
        (\<forall>q. Run mem (bs @ q) c0 = map_option (\<lambda>(m, d). (k + m, d)) (Run mem (f_pending r @ q) (f_processor r)))
     else kStallLimit < length bs \<and> unat (f_stalled r) + length (f_pending r) \<le> length bs)"

lemma Run_Nil: "Run mem [] c = Some (0, c)"
  by (cases "kMaxDepth - mDepth c") (simp_all add: Run_def loop_Inl run_body_def)

lemma fifo_holds_append:
  assumes "fifo_holds mem c0 bs r"
  shows "fifo_holds mem c0 (bs @ data) (r\<lparr>f_pending := f_pending r @ data\<rparr>)"
proof (cases "f_stalled r = 0")
  case True
  with assms obtain k where k: "k + length (f_pending r) = length bs" "f_pending r = drop k bs"
    "\<And>q. Run mem (bs @ q) c0 = map_option (\<lambda>(m, d). (k + m, d)) (Run mem (f_pending r @ q) (f_processor r))"
    by (auto simp: fifo_holds_def)
  have "k \<le> length bs" using k(1) by simp
  then have "f_pending r @ data = drop k (bs @ data)" using k(2) by simp
  moreover have "Run mem ((bs @ data) @ q) c0 =
      map_option (\<lambda>(m, d). (k + m, d)) (Run mem ((f_pending r @ data) @ q) (f_processor r))" for q
    using k(3) [of "data @ q"] by simp
  ultimately show ?thesis using True k(1) by (auto simp: fifo_holds_def intro!: exI [of _ k])
next
  case False
  with assms show ?thesis by (simp add: fifo_holds_def)
qed

context guest_memory
begin

lemma flush_ok:
  assumes ok: "fifo_ok r" and h: "fifo_holds mem c0 bs r" and len: "length bs < 2 ^ 32"
  shows "\<exists>r'. flush_now mem r = Some r' \<and> fifo_ok r' \<and> fifo_holds mem c0 bs r' \<and>
     (f_stalled r' = 0 \<longrightarrow> Run mem bs c0 = Some (length bs - length (f_pending r'), f_processor r'))"
proof -
  obtain n c where run: "Run mem (f_pending r) (f_processor r) = Some (n, c)" "n \<le> length (f_pending r)"
    "cp_ok c" "mDepth c = 0"
    using Run_at_ok [of "f_processor r" _ "f_pending r"] ok by (fastforce simp: Run_def fifo_ok_def)
  let ?left = "drop n (f_pending r)"
  let ?r = "r\<lparr>f_processor := c, f_pending := ?left\<rparr>"
  have flush: "flush_now mem r = Some (if kStallLimit < length ?left
       then ?r\<lparr>f_stalled := f_stalled r + of_nat (length ?left), f_pending := []\<rparr> else ?r)"
  proof (cases "f_pending r = []")
    case True
    with run(1) have "n = 0" "c = f_processor r" by (simp_all add: Run_Nil)
    with True show ?thesis by (cases r) (simp add: flush_now_def)
  next
    case False
    with run(1) show ?thesis by (simp add: flush_now_def Let_def)
  qed
  show ?thesis
  proof (cases "f_stalled r = 0")
    case True
    with h obtain k where k: "k + length (f_pending r) = length bs" "f_pending r = drop k bs"
      "\<And>q. Run mem (bs @ q) c0 = map_option (\<lambda>(m, d). (k + m, d)) (Run mem (f_pending r @ q) (f_processor r))"
      by (auto simp: fifo_holds_def)
    show ?thesis
    proof (cases "kStallLimit < length ?left")
      case stall: True
      have "length ?left \<le> length bs" using k(1) by simp
      then have "unat (of_nat (length ?left) :: u32) = length ?left" using len by (intro unat_of_nat_u32) simp
      moreover from this stall have "(of_nat (length ?left) :: u32) \<noteq> 0" by (metis less_nat_zero_code unsigned_0)
      ultimately show ?thesis using flush True stall run(3,4) \<open>length ?left \<le> length bs\<close>
        by (simp add: fifo_ok_def fifo_holds_def)
    next
      case False
      have res: "Run mem (bs @ q) c0 = map_option (\<lambda>(m, d). (k + n + m, d)) (Run mem (?left @ q) c)" for q
        using k(3) [of q] Run_resume [of "f_processor r" "f_pending r" n c q] run(1) ok
        by (cases "Run mem (?left @ q) c") (auto simp: fifo_ok_def)
      have "k + n + length ?left = length bs" "?left = drop (k + n) bs" using k(1,2) run(2) by (simp_all add: add.commute)
      then have "\<exists>k. k + length ?left = length bs \<and> ?left = drop k bs \<and>
          (\<forall>q. Run mem (bs @ q) c0 = map_option (\<lambda>(m, d). (k + m, d)) (Run mem (?left @ q) c))"
        using res by blast
      then have "fifo_holds mem c0 bs ?r" using True by (simp add: fifo_holds_def)
      moreover have "Run mem bs c0 = Some (k + n, c)" using k(3) [of "[]"] run(1) by simp
      moreover have "k + n = length bs - length ?left" using k(1) run(2) by simp
      ultimately show ?thesis using flush False run(3,4) by (simp add: fifo_ok_def)
    qed
  next
    case False
    with h have le: "unat (f_stalled r) + length (f_pending r) \<le> length bs" and far: "kStallLimit < length bs"
      by (simp_all add: fifo_holds_def)
    have left: "length ?left \<le> length (f_pending r)" by simp
    have "length ?left < 2 ^ 32" using le left len by linarith
    then have "unat (of_nat (length ?left) :: u32) = length ?left" by (intro unat_of_nat_u32) simp
    then have sum: "unat (f_stalled r + of_nat (length ?left)) = unat (f_stalled r) + length ?left"
      using le left len by (subst unat_word_ariths) simp
    moreover have "0 < unat (f_stalled r)" using False by (simp add: unat_gt_0)
    ultimately have "f_stalled r + of_nat (length ?left) \<noteq> 0" by (metis add_gr_0 less_irrefl unsigned_0)
    moreover have "unat (f_stalled r) + length ?left \<le> length bs" "unat (f_stalled r) + 0 \<le> length bs"
      using le left by linarith+
    ultimately show ?thesis using flush False sum far run(3,4)
      by (simp add: fifo_ok_def fifo_holds_def del: of_nat_diff length_drop)
  qed
qed

lemma write_ok:
  assumes "fifo_ok r" "fifo_holds mem c0 bs r" "length (bs @ data) < 2 ^ 32"
  shows "\<exists>r'. write_now mem data r = Some r' \<and> fifo_ok r' \<and> fifo_holds mem c0 (bs @ data) r'"
proof -
  let ?r = "r\<lparr>f_pending := f_pending r @ data\<rparr>"
  have r: "fifo_ok ?r" "fifo_holds mem c0 (bs @ data) ?r"
    using assms(1,2) by (simp_all add: fifo_ok_def fifo_holds_append)
  with flush_ok [OF r assms(3)] show ?thesis by (auto simp: write_now_def Let_def)
qed

lemma write_all_ok:
  assumes "fifo_ok r" "fifo_holds mem c0 bs r" "length (bs @ concat ds) < 2 ^ 32"
  shows "\<exists>r'. write_all mem ds r = Some r' \<and> fifo_ok r' \<and> fifo_holds mem c0 (bs @ concat ds) r' \<and>
     (f_stalled r' = 0 \<longrightarrow>
        Run mem (bs @ concat ds) c0 = Some (length (bs @ concat ds) - length (f_pending r'), f_processor r'))"
  using assms
proof (induction ds arbitrary: bs r)
  case Nil
  then show ?case using flush_ok [of r c0 bs] by simp
next
  case (Cons data ds)
  have len: "length (bs @ data) < 2 ^ 32" using Cons.prems(3) by simp
  obtain r1 where r1: "write_now mem data r = Some r1" "fifo_ok r1" "fifo_holds mem c0 (bs @ data) r1"
    using write_ok [OF Cons.prems(1,2) len] by blast
  from Cons.IH [OF r1(2,3)] Cons.prems(3) r1(1) show ?case by simp
qed

end

lemma fifo_start_ok:
  assumes "cp_ok c" "mDepth c = 0"
  shows "fifo_ok (fifo_start c)" "fifo_holds mem c [] (fifo_start c)"
  using assms by (simp_all add: fifo_ok_def fifo_start_def fifo_holds_def option.map_ident option.map_id case_prod_beta)

text \<open>C24: However a stream is chopped into the writes of the gather pipe, batching them changes nothing: as long
  as the pipe never lets bytes go (its counter of stalled bytes is still zero), writing the pieces
  and flushing leaves the processor exactly as running the whole stream at once does, with the bytes
  that one run leaves still pending; and bytes are never let go of a stream of at most 256 KB.\<close>

theorem fifo_lossless:
  assumes "cp_ok c" "mDepth c = 0" "length (concat ds) < 2 ^ 32"
  shows "\<exists>r. write_all (guest_bytes (mem1 ram)) ds (fifo_start c) = Some r \<and>
     (length (concat ds) \<le> kStallLimit \<longrightarrow> f_stalled r = 0) \<and>
     (f_stalled r = 0 \<longrightarrow>
        Run (guest_bytes (mem1 ram)) (concat ds) c = Some (length (concat ds) - length (f_pending r), f_processor r) \<and>
        f_pending r = drop (length (concat ds) - length (f_pending r)) (concat ds))"
proof -
  obtain r where r: "write_all (guest_bytes (mem1 ram)) ds (fifo_start c) = Some r"
    "fifo_holds (guest_bytes (mem1 ram)) c ([] @ concat ds) r"
    "f_stalled r = 0 \<longrightarrow> Run (guest_bytes (mem1 ram)) ([] @ concat ds) c =
       Some (length ([] @ concat ds) - length (f_pending r), f_processor r)"
    using mem1.write_all_ok [OF fifo_start_ok(1) [OF assms(1,2)] fifo_start_ok(2) [OF assms(1,2)], where ds = ds and ram = ram]
      assms(3) by auto
  moreover have "f_pending r = drop (length (concat ds) - length (f_pending r)) (concat ds)" if z: "f_stalled r = 0"
  proof -
    from r(2) z obtain k where "k + length (f_pending r) = length (concat ds)" "f_pending r = drop k (concat ds)"
      by (auto simp: fifo_holds_def)
    moreover from this have "length (concat ds) - length (f_pending r) = k" by linarith
    ultimately show ?thesis by simp
  qed
  moreover have "f_stalled r = 0" if "length (concat ds) \<le> kStallLimit"
    using r(2) that by (simp add: fifo_holds_def split: if_splits)
  ultimately show ?thesis by auto
qed

lemma fifo_lossless_witness:
  "\<exists>r. write_all (guest_bytes (mem1 [])) [[0x00], [0x48, 0x61]] (fifo_start (CommandProcessor (gx_run []))) = Some r \<and>
     f_stalled r = 0 \<and>
     Run (guest_bytes (mem1 [])) [0x00, 0x48, 0x61] (CommandProcessor (gx_run [])) = Some (3 - length (f_pending r), f_processor r)"
  using fifo_lossless [OF cp_ok_start(1) [of "[]"] cp_ok_start(2), of "[[0x00], [0x48, 0x61]]" "[]"]
  by (auto simp: kStallLimit_def)

section \<open>A packet longer than the limit\<close>

text \<open>Positions of three floats: the only attribute of the descriptor and the first table.\<close>

definition xyz_cp :: cp where
  "xyz_cp = (CommandProcessor (gx_run []))\<lparr>mVcdLo := 0x200, mVatA := [9, 0, 0, 0, 0, 0, 0, 0]\<rparr>"

definition long_packet :: "nat \<Rightarrow> bytes" where
  "long_packet n = 0x90 # 0xFF # 0xFF # replicate n 0"

lemma xyz_types:
  assumes "mVcdLo c = 0x200" "mVcdHi c = 0"
  shows "AttrType c 9 = 1" "list_all (\<lambda>a. AttrType c (of_nat a) = 0) [0, 1, 2, 3, 4, 5, 6, 7, 8, 10, 11, 12, 13, 14, 15, 16, 17, 18, 19, 20]"
  using assms by (simp_all add: AttrType_def Bits_def va_defs attr_type_defs)

lemma xyz_plan:
  assumes "mVcdLo c = 0x200" "mVcdHi c = 0" "format fmt ! 9 = \<lparr>f_count = 1, f_type = 4, f_frac = 0\<rparr>"
  shows "plan_attrs c fmt [0..<VaCount] plan_start = Some
     \<lparr>p_attrs = [\<lparr>a_attr = 9, a_type = 1, a_size = 12, a_offset = 0, a_base = None\<rparr>],
      p_stream = 12, p_direct = 12, p_indexed = False\<rparr>"
  unfolding attributes using xyz_types [OF assms(1,2)] assms(3)
  by (simp add: plan_start_def kNone_def kDirect_def PackedAttrSize_def AttrSize_def Components_def CompSize_def va_defs Let_def
      word_le_nat_alt)

lemma xyz_draw:
  assumes "cp_ok c" "c = xyz_cp"
  shows "\<exists>c'. n < 786420 \<longrightarrow> RunDraw mem 0x90 (long_packet n) 1 c = Some (False, 3, c')"
    "\<exists>c'. RunDraw mem 0x90 (long_packet 786420) 1 c = Some (True, 786423, c')"
proof -
  obtain fmt d where d: "DirectFormat 0 c = (fmt, d)" by (cases "DirectFormat 0 c")
  note f = DirectFormat_ok [OF assms(1) d]
  have "format fmt ! 9 = Format c 0 9" using f(1) by (simp add: compute_format_def VaCount_def)
  also have "Format c 0 9 = \<lparr>f_count = 1, f_type = 4, f_frac = 0\<rparr>"
    using assms(2) by (simp add: xyz_cp_def Format_def va_defs attr_format_def Bits_def)
  finally have fmt: "format fmt ! 9 = \<lparr>f_count = 1, f_type = 4, f_frac = 0\<rparr>" .
  have "mVcdLo d = 0x200" "mVcdHi d = 0" using f(4) assms(2) by (auto simp: xyz_cp_def CommandProcessor_def)
  note plan = xyz_plan [OF this fmt, unfolded plan_start_def]
  have r: "read16 (long_packet n) (Suc 0) = Some 0xFFFF" for n
    by (simp add: long_packet_def read16_def rd_def be16_def)
  have len: "length (long_packet n) = n + 3" for n by (simp add: long_packet_def)
  have "RunDraw mem 0x90 (long_packet n) 1 c = Some (False, 3, d)" if "n < 786420"
    using that by (simp add: RunDraw_def r d plan len Let_def)
  then show "\<exists>c'. n < 786420 \<longrightarrow> RunDraw mem 0x90 (long_packet n) 1 c = Some (False, 3, c')" by blast
  show "\<exists>c'. RunDraw mem 0x90 (long_packet 786420) 1 c = Some (True, 786423, c')"
    by (simp add: RunDraw_def r d plan len Let_def getn_def)
qed

lemma xyz_cp_ok: "cp_ok xyz_cp" "mDepth xyz_cp = 0"
proof -
  have "cp_ok ((CommandProcessor (gx_run []))\<lparr>mVcdLo := 0x200, mVatA := [9, 0, 0, 0, 0, 0, 0, 0]\<rparr>)"
    using cp_ok_start(1) [of "[]"] by (simp add: cp_ok_def CommandProcessor_def formats_ok_def)
  then show "cp_ok xyz_cp" "mDepth xyz_cp = 0" by (simp_all add: xyz_cp_def CommandProcessor_def)
qed

lemma xyz_runs:
  "n < 786420 \<Longrightarrow> \<exists>c'. Run mem (long_packet n) xyz_cp = Some (0, c')"
  "\<exists>c'. Run mem (long_packet 786420) xyz_cp = Some (786423, c')"
proof -
  have len: "length (long_packet n) = n + 3" for n by (simp add: long_packet_def)
  have cmd: "rd (long_packet n) 0 = Some 0x90" for n by (simp add: long_packet_def rd_def)
  have body: "run_body mem call (long_packet n) (0, xyz_cp) = run_draw mem 0x90 (long_packet n) 0 xyz_cp" for call n
    by (simp add: run_body_def cmd len)
  { assume "n < 786420"
    then obtain c' where "RunDraw mem 0x90 (long_packet n) 1 xyz_cp = Some (False, 3, c')"
      using xyz_draw(1) [OF xyz_cp_ok(1) refl] by blast
    then have "loop (run_body mem call (long_packet n)) (0, xyz_cp) = Some (0, c')" for call
      by (simp add: loop_Inl body run_draw_def)
    then show "\<exists>c'. Run mem (long_packet n) xyz_cp = Some (0, c')"
      by (simp add: Run_top xyz_cp_ok(2)) }
  obtain c' where "RunDraw mem 0x90 (long_packet 786420) 1 xyz_cp = Some (True, 786423, c')"
    using xyz_draw(2) [OF xyz_cp_ok(1) refl] by blast
  then have "run_body mem call (long_packet 786420) (0, xyz_cp) = Some (Inr (786423, c'))" for call
    by (simp add: body run_draw_def)
  moreover have "run_body mem call (long_packet 786420) (786423, c') = Some (Inl (786423, c'))" for call
    by (simp add: run_body_def len)
  ultimately have "loop (run_body mem call (long_packet 786420)) (0, xyz_cp) = Some (786423, c')" for call
    by (simp add: loop_Inr loop_Inl)
  then show "\<exists>c'. Run mem (long_packet 786420) xyz_cp = Some (786423, c')"
    by (simp add: Run_top xyz_cp_ok(2))
qed

text \<open>The limit at which unparsed bytes are taken for rubbish is within reach of a draw. With positions of
  three floats a draw of 65535 vertices is a packet of 786423 bytes, which the processor runs whole;
  but when 256 KB and a byte of it have arrived the pipe lets them go.\<close>

theorem fifo_lets_go:
  "(\<exists>c. Run mem (long_packet 786420) xyz_cp = Some (786423, c)) \<and>
   (\<exists>r. write_all mem [long_packet 262142] (fifo_start xyz_cp) = Some r \<and> f_pending r = [] \<and> f_stalled r = 262145)"
proof -
  obtain c where c: "Run mem (long_packet 262142) xyz_cp = Some (0, c)" using xyz_runs(1) [of 262142 mem] by auto
  have len: "length (long_packet 262142) = 262145" by (simp add: long_packet_def)
  then have "long_packet 262142 \<noteq> []" by auto
  then show ?thesis using xyz_runs(2) [of mem] c len
    by (simp add: fifo_start_def write_now_def flush_now_def kRunBatch_def kStallLimit_def Let_def)
qed

end
