(* ===== verification/Gx_Batch.thy ===== *)
theory Gx_Batch
  imports Gx_Run
begin

text \<open>
  src/platform/gpu/gx_native_switch.cpp: draws merged into one indexed list until the state is about
  to change. The renderer's record keeps the batch, the counters and, as a list, the arguments of the
  draws that were sent to the GPU; whether the GPU took one, and whether a pass could be opened for
  the first draw, are parameters. The diagnosis (traces, snapshots, clocks) is not modelled.
\<close>

record batch =
  b_vertices :: "f32 list"
  b_indices :: "u32 list"
  b_count :: u32
  b_primitive :: u8
  b_generation :: u64

record sent =
  s_primitive :: u8
  s_vertices :: "f32 list"
  s_count :: u32
  s_indices :: "u32 list"

record counts =
  c_draws :: u32
  c_batches :: u32
  c_refused :: u32
  c_dropped :: u32
  c_alone :: u32
  c_split :: u32

record renderer =
  r_batch :: batch
  passOpen :: bool
  r_counts :: counts
  splits :: "u32 list"
  r_sent :: "sent list"

section \<open>Primitives as lists\<close>

definition list_of :: "u8 \<Rightarrow> u8" where
  "list_of primitive =
     (if primitive AND 0xF8 \<in> {0x80, 0x88, 0x90, 0x98, 0xA0} then 0x90
      else if primitive AND 0xF8 \<in> {0xA8, 0xB0} then 0xA8
      else 0xB8)"

text \<open>The values of \<open>for (i = first; i + ahead < n; i += step)\<close>.\<close>

function loop_values :: "nat \<Rightarrow> nat \<Rightarrow> nat \<Rightarrow> nat \<Rightarrow> nat list" where
  "loop_values ahead step n i = (if 0 < step \<and> i + ahead < n then i # loop_values ahead step n (i + step) else [])"
  by pat_completeness auto
termination by (relation "measure (\<lambda>(ahead, step, n, i). n - i)") auto

declare loop_values.simps [simp del]

definition add_indices :: "u8 \<Rightarrow> u32 \<Rightarrow> nat \<Rightarrow> u32 list" where
  "add_indices primitive base n =
     (let p = primitive AND 0xF8; v = (\<lambda>i. base + of_nat i) in
      if p = 0x80 \<or> p = 0x88 then
        concat (map (\<lambda>q. [v q, v (q + 1), v (q + 2), v q, v (q + 2), v (q + 3)]) (loop_values 3 4 n 0))
      else if p = 0x90 then concat (map (\<lambda>i. [v i, v (i + 1), v (i + 2)]) (loop_values 2 3 n 0))
      else if p = 0x98 then
        concat (map (\<lambda>i. if odd i then [v (i + 1), v i, v (i + 2)] else [v i, v (i + 1), v (i + 2)]) (loop_values 2 1 n 0))
      else if p = 0xA0 then concat (map (\<lambda>i. [base, v i, v (i + 1)]) (loop_values 1 1 n 1))
      else if p = 0xA8 then concat (map (\<lambda>i. [v i, v (i + 1)]) (loop_values 1 2 n 0))
      else if p = 0xB0 then concat (map (\<lambda>i. [v i, v (i + 1)]) (loop_values 1 1 n 0))
      else map v (loop_values 0 1 n 0))"

section \<open>Sending and drawing\<close>

definition send_batch :: "(sent \<Rightarrow> bool) \<Rightarrow> renderer \<Rightarrow> renderer" where
  "send_batch draw_converted r =
     (let b = r_batch r;
          s = \<lparr>s_primitive = b_primitive b, s_vertices = b_vertices b, s_count = b_count b, s_indices = b_indices b\<rparr> in
      if b_count b = 0 then r
      else
        let r = (if b_indices b = [] then r
                 else r\<lparr>r_sent := r_sent r @ [s],
                       r_counts := (if draw_converted s then (r_counts r)\<lparr>c_batches := c_batches (r_counts r) + 1\<rparr>
                                    else (r_counts r)\<lparr>c_refused := c_refused (r_counts r) + 1\<rparr>)\<rparr>) in
        r\<lparr>r_batch := b\<lparr>b_count := 0, b_indices := []\<rparr>\<rparr>)"

definition kSplitXf :: nat where "kSplitXf = 256 + 256 + 16"

definition split_slot :: "u32 \<Rightarrow> nat" where
  "split_slot cause =
     (let kind = drop_bit 16 cause; n = cause AND 0xFFFF in
      if kind = 1 then unat (n AND 0xFF)
      else if kind = 3 then 256 + unat (n AND 0xFF)
      else if kind = 4 then 512 + unat (n AND 0xF)
      else kSplitXf + (if n < 0x1100 then unat n else 0x10FF))"

definition split_cause :: "u32 \<Rightarrow> u32" where
  "split_cause slot =
     (if slot < 256 then push_bit 16 1 OR slot
      else if slot < 512 then push_bit 16 3 OR (slot - 256)
      else if slot < of_nat kSplitXf then push_bit 16 4 OR (slot - 512)
      else push_bit 16 2 OR (slot - of_nat kSplitXf))"

definition count_split :: "u32 \<Rightarrow> renderer \<Rightarrow> renderer option" where
  "count_split cause r =
     do { k \<leftarrow> rd (splits r) (split_slot cause);
          ss \<leftarrow> wr (splits r) (split_slot cause) (k + 1);
          Some (r\<lparr>r_counts := (r_counts r)\<lparr>c_split := c_split (r_counts r) + 1\<rparr>, splits := ss\<rparr>) }"

text \<open>Room for the new vertices: the buffer at least doubles when it grows.\<close>

definition grow :: "nat \<Rightarrow> f32 list \<Rightarrow> f32 list" where
  "grow need vs =
     (if length vs < need
      then vs @ replicate ((if length vs * 2 < need then need else length vs * 2) - length vs) 0
      else vs)"

text \<open>A draw's vertices and indices behind those the batch has.\<close>

definition stage :: "u64 \<Rightarrow> Draw \<Rightarrow> renderer \<Rightarrow> renderer option" where
  "stage generation d r =
     (let b = r_batch r;
          at = unat (b_count b) * kVertexFloats;
          need = at + unat (d_count d) * kVertexFloats;
          vs = grow need (b_vertices b) in
      do {
        (n, out) \<leftarrow> ConvertVertices (d_format d) (Some (d_records d)) (unat (d_count d)) (Some (drop at vs));
        let r = r\<lparr>r_batch := b\<lparr>b_vertices := take at vs @ the out\<rparr>\<rparr> in
        if n \<noteq> unat (d_count d)
        then Some (r\<lparr>r_counts := (r_counts r)\<lparr>c_refused := c_refused (r_counts r) + 1\<rparr>\<rparr>)
        else
          let r = (if d_primitive d AND 0xF8 = 0x98 \<or> d_primitive d AND 0xF8 = 0xA0
                   then r\<lparr>r_counts := (r_counts r)\<lparr>c_alone := c_alone (r_counts r) + 1\<rparr>\<rparr> else r);
              b = r_batch r in
          Some (r\<lparr>r_batch := b\<lparr>b_indices := b_indices b @ add_indices (d_primitive d) (b_count b) (unat (d_count d)),
              b_count := b_count b + ucast (d_count d), b_primitive := list_of (d_primitive d),
              b_generation := generation\<rparr>\<rparr>) })"

definition draw :: "(sent \<Rightarrow> bool) \<Rightarrow> bool \<Rightarrow> u64 \<Rightarrow> Draw \<Rightarrow> renderer \<Rightarrow> renderer option" where
  "draw draw_converted opens generation d r =
     (let r = (if \<not> passOpen r then r\<lparr>passOpen := opens\<rparr> else r) in
      if \<not> passOpen r then Some (r\<lparr>r_counts := (r_counts r)\<lparr>c_dropped := c_dropped (r_counts r) + 1\<rparr>\<rparr>)
      else
        let r = r\<lparr>r_counts := (r_counts r)\<lparr>c_draws := c_draws (r_counts r) + 1\<rparr>\<rparr>; b = r_batch r in
        stage generation d
          (if b_count b \<noteq> 0 \<and> (b_primitive b \<noteq> list_of (d_primitive d) \<or> b_generation b \<noteq> generation)
           then send_batch draw_converted r else r))"

text \<open>The hook the command processor calls before a change.\<close>

definition before_change :: "(sent \<Rightarrow> bool) \<Rightarrow> u32 \<Rightarrow> renderer \<Rightarrow> renderer option" where
  "before_change draw_converted cause r =
     do { r \<leftarrow> (if b_count (r_batch r) \<noteq> 0 then count_split cause r else Some r);
          Some (send_batch draw_converted r) }"

text \<open>The callbacks of a stream; each draw with the state's generation at the time.\<close>

primrec render :: "(sent \<Rightarrow> bool) \<Rightarrow> (event \<times> u64) list \<Rightarrow> renderer \<Rightarrow> renderer option" where
  "render draw_converted [] r = Some r"
| "render draw_converted (e # es) r =
     do { r \<leftarrow> (case fst e of Changed cause \<Rightarrow> before_change draw_converted cause r
                | Drawn d \<Rightarrow> draw draw_converted True (snd e) d r);
          render draw_converted es r }"

section \<open>The shapes\<close>

lemma loop_values_closed:
  assumes "0 < step"
  shows "loop_values ahead step n i = map (\<lambda>k. i + k * step) [0..<(n - i - ahead + step - 1) div step]"
  using assms
proof (induction ahead step n i rule: loop_values.induct)
  case (1 ahead step n i)
  show ?case
  proof (cases "0 < step \<and> i + ahead < n")
    case False
    with 1 show ?thesis by (auto simp: loop_values.simps [of ahead step n i])
  next
    case True
    have "(n - i - ahead + step - 1) div step = Suc ((n - (i + step) - ahead + step - 1) div step)"
    proof (cases "i + step + ahead \<le> n")
      case le: True
      then have eq: "n - i - ahead + step - 1 = (n - (i + step) - ahead + step - 1) + step" using True by linarith
      show ?thesis unfolding eq using True by (subst div_add_self2) simp_all
    next
      case False
      then have "(n - i - ahead + step - 1) div step = Suc 0"
        using True by (intro div_nat_eqI) auto
      moreover from False have "(n - (i + step) - ahead + step - 1) div step = 0" using True by simp
      ultimately show ?thesis by simp
    qed
    moreover have "map (\<lambda>k. i + k * step) [0..<Suc m] = i # map (\<lambda>k. i + step + k * step) [0..<m]" for m
      by (simp add: upt_conv_Cons map_Suc_upt [symmetric] o_def add.assoc del: upt_Suc)
    ultimately show ?thesis using True 1 by (simp add: loop_values.simps [of ahead step n i])
  qed
qed

text \<open>The primitives of a draw of \<open>n\<close> vertices, numbered from 0.\<close>

definition shape :: "u8 \<Rightarrow> nat \<Rightarrow> nat list list" where
  "shape primitive n =
     (let p = primitive AND 0xF8 in
      if p = 0x80 \<or> p = 0x88 then concat (map (\<lambda>k. [[4 * k, 4 * k + 1, 4 * k + 2], [4 * k, 4 * k + 2, 4 * k + 3]]) [0..<n div 4])
      else if p = 0x90 then map (\<lambda>k. [3 * k, 3 * k + 1, 3 * k + 2]) [0..<n div 3]
      else if p = 0x98 then map (\<lambda>k. if even k then [k, k + 1, k + 2] else [k + 1, k, k + 2]) [0..<n - 2]
      else if p = 0xA0 then map (\<lambda>k. [0, k + 1, k + 2]) [0..<n - 2]
      else if p = 0xA8 then map (\<lambda>k. [2 * k, 2 * k + 1]) [0..<n div 2]
      else if p = 0xB0 then map (\<lambda>k. [k, k + 1]) [0..<n - 1]
      else map (\<lambda>k. [k]) [0..<n])"

lemma loop_values_shapes:
  "loop_values 3 4 n 0 = map (\<lambda>k. 4 * k) [0..<n div 4]"
  "loop_values 2 3 n 0 = map (\<lambda>k. 3 * k) [0..<n div 3]"
  "loop_values 2 (Suc 0) n 0 = [0..<n - 2]"
  "loop_values (Suc 0) (Suc 0) n (Suc 0) = map Suc [0..<n - 2]"
  "loop_values (Suc 0) 2 n 0 = map (\<lambda>k. 2 * k) [0..<n div 2]"
  "loop_values (Suc 0) (Suc 0) n 0 = [0..<n - 1]"
  "loop_values 0 (Suc 0) n 0 = [0..<n]"
proof -
  have "(3 + (n - 3)) div 4 = n div 4" "(n - 2 + 2) div 3 = n div 3" "(n - 1 + 1) div 2 = n div 2"
    by auto
  then show "loop_values 3 4 n 0 = map (\<lambda>k. 4 * k) [0..<n div 4]"
    "loop_values 2 3 n 0 = map (\<lambda>k. 3 * k) [0..<n div 3]"
    "loop_values (Suc 0) 2 n 0 = map (\<lambda>k. 2 * k) [0..<n div 2]"
    by (simp_all add: loop_values_closed mult.commute)
qed (simp_all add: loop_values_closed numeral_2_eq_2)

lemma add_indices_shape:
  "add_indices primitive base n = map (\<lambda>i. base + of_nat i) (concat (shape primitive n))"
proof -
  have quads: "map v (concat (concat (map (\<lambda>x. [[a x, b x, c x], [d x, e x, f x]]) xs))) =
      concat (map (\<lambda>x. [v (a x), v (b x), v (c x), v (d x), v (e x), v (f x)]) xs)"
    for v :: "nat \<Rightarrow> u32" and a b c d e f :: "nat \<Rightarrow> nat" and xs
    by (induction xs) simp_all
  have strip: "map v (concat (map (\<lambda>k. if even k then [a k, b k, c k] else [b k, a k, c k]) xs)) =
      concat (map (\<lambda>i. if odd i then [v (b i), v (a i), v (c i)] else [v (a i), v (b i), v (c i)]) xs)"
    for v :: "nat \<Rightarrow> u32" and a b c :: "nat \<Rightarrow> nat" and xs
    by (induction xs) simp_all
  have three: "map v (concat (map (\<lambda>k. [a k, b k, c k]) xs)) = concat (map (\<lambda>k. [v (a k), v (b k), v (c k)]) xs)"
    for v :: "nat \<Rightarrow> u32" and a b c :: "nat \<Rightarrow> nat" and xs
    by (induction xs) simp_all
  have two: "map v (concat (map (\<lambda>k. [a k, b k]) xs)) = concat (map (\<lambda>k. [v (a k), v (b k)]) xs)"
    for v :: "nat \<Rightarrow> u32" and a b :: "nat \<Rightarrow> nat" and xs
    by (induction xs) simp_all
  consider "primitive AND 0xF8 \<in> {0x80, 0x88}" | "primitive AND 0xF8 = 0x90" | "primitive AND 0xF8 = 0x98"
    | "primitive AND 0xF8 = 0xA0" | "primitive AND 0xF8 = 0xA8" | "primitive AND 0xF8 = 0xB0"
    | "primitive AND 0xF8 \<notin> {0x80, 0x88, 0x90, 0x98, 0xA0, 0xA8, 0xB0}"
    by blast
  then show ?thesis
    by cases (auto simp: add_indices_def shape_def loop_values_shapes quads strip three two o_def concat_map_singleton Let_def
        simp del: of_nat_Suc of_nat_add)
qed

section \<open>What a batch draws\<close>

definition vertex_at :: "f32 list \<Rightarrow> nat \<Rightarrow> f32 list option" where
  "vertex_at vs i = getn vs (i * kVertexFloats) kVertexFloats"

definition expand :: "sent \<Rightarrow> (u8 \<times> f32 list option) list" where
  "expand s = map (\<lambda>i. (s_primitive s, vertex_at (s_vertices s) (unat i))) (s_indices s)"

text \<open>What a draw asks for: the vertices of its primitives, each made of its own record alone.\<close>

definition record_vertex :: "Draw \<Rightarrow> nat \<Rightarrow> f32 list option" where
  "record_vertex d i = do {
     (steps, stride) \<leftarrow> make_steps (d_format d) [0..<VaCount] ([], 0);
     converted steps stride (\<not> present (d_format d) ! unat VaClr0) (\<not> present (d_format d) ! unat VaClr1) (d_records d) i }"

definition draw_vertices :: "Draw \<Rightarrow> (u8 \<times> f32 list option) list" where
  "draw_vertices d = map (\<lambda>i. (list_of (d_primitive d), record_vertex d i))
     (concat (shape (d_primitive d) (unat (d_count d))))"

definition draws_of :: "(event \<times> u64) list \<Rightarrow> Draw list" where
  "draws_of es = concat (map (\<lambda>e. case fst e of Drawn d \<Rightarrow> [d] | _ \<Rightarrow> []) es)"

definition pending :: "batch \<Rightarrow> sent" where
  "pending b = \<lparr>s_primitive = b_primitive b, s_vertices = b_vertices b, s_count = b_count b, s_indices = b_indices b\<rparr>"

definition sent_ok :: "sent \<Rightarrow> bool" where
  "sent_ok s \<longleftrightarrow> (\<forall>i \<in> set (s_indices s). i < s_count s) \<and> unat (s_count s) * kVertexFloats \<le> length (s_vertices s)"

definition merged :: "renderer \<Rightarrow> Draw list \<Rightarrow> bool" where
  "merged r ds \<longleftrightarrow> length (splits r) = kSplitXf + 0x1100 \<and> list_all sent_ok (r_sent r) \<and>
     sent_ok (pending (r_batch r)) \<and> unat (b_count (r_batch r)) \<le> sum_list (map (unat \<circ> d_count) ds) \<and>
     concat (map expand (r_sent r)) @ expand (pending (r_batch r)) = concat (map draw_vertices ds)"

lemma shape_less: "is \<in> set (shape primitive n) \<Longrightarrow> i \<in> set is \<Longrightarrow> i < n"
  by (auto simp: shape_def Let_def split: if_splits)

lemma vertex_at_append:
  "i * kVertexFloats + kVertexFloats \<le> length vs \<Longrightarrow> vertex_at (vs @ ws) i = vertex_at vs i"
  by (simp add: vertex_at_def getn_def)

lemma vertex_at_offset: "length vs = k * kVertexFloats \<Longrightarrow> vertex_at (vs @ ws) (k + i) = vertex_at ws i"
  by (simp add: vertex_at_def getn_def add_mult_distrib)

lemma convert_draw:
  assumes "draw_ok (Drawn d)" "unat (d_count d) * kVertexFloats \<le> length out"
  shows "\<exists>out'. ConvertVertices (d_format d) (Some (d_records d)) (unat (d_count d)) (Some out) = Some (unat (d_count d), Some out') \<and>
     length out' = length out \<and> (\<forall>i < unat (d_count d). record_vertex d i = vertex_at out' i)"
proof (cases "make_steps (d_format d) [0..<VaCount] ([], 0)")
  case None
  then have "PackedVertexSize (d_format d) = 0"
    using make_steps_size [of "d_format d" "[0..<VaCount]" 0 "[]"] by (simp add: PackedVertexSize_def)
  with assms None show ?thesis by (simp add: draw_ok_def ConvertVertices_def)
next
  case (Some m)
  obtain steps stride where m: "m = (steps, stride)" by (cases m)
  then have size: "PackedVertexSize (d_format d) = stride"
    using make_steps_size [of "d_format d" "[0..<VaCount]" 0 "[]"] Some by (simp add: PackedVertexSize_def)
  show ?thesis
  proof (cases "stride = 0")
    case True
    with assms size Some m show ?thesis by (simp add: draw_ok_def ConvertVertices_def)
  next
    case False
    have "list_all (step_ok stride) steps" using make_steps_ok [OF Some [unfolded m]] by (auto simp: VaCount_def)
    moreover have "min (unat (d_count d)) (length (d_records d) div stride) = unat (d_count d)"
      using assms(1) size False by (simp add: draw_ok_def)
    ultimately show ?thesis
      using convert_loop [of stride steps "unat (d_count d)" out "d_records d" "\<not> present (d_format d) ! unat VaClr0"
          "\<not> present (d_format d) ! unat VaClr1"] False Some m assms(2)
      by (fastforce simp: ConvertVertices_def record_vertex_def vertex_at_def)
  qed
qed

lemma grow_props: "\<exists>zs. grow need vs = vs @ zs" "need \<le> length (grow need vs)"
  by (auto simp: grow_def)

text \<open>The vertices of a draw staged behind those of a batch.\<close>

lemma staged:
  assumes b: "sent_ok (pending b)" and d: "draw_ok (Drawn d)"
    and room: "unat (b_count b) + unat (d_count d) < 2 ^ 32"
    and same: "b_count b \<noteq> 0 \<longrightarrow> b_primitive b = list_of (d_primitive d)"
  defines "vs \<equiv> grow (unat (b_count b) * kVertexFloats + unat (d_count d) * kVertexFloats) (b_vertices b)"
  shows "\<exists>out. ConvertVertices (d_format d) (Some (d_records d)) (unat (d_count d)) (Some (drop (unat (b_count b) * kVertexFloats) vs)) =
      Some (unat (d_count d), Some out) \<and>
    (let b' = b\<lparr>b_vertices := take (unat (b_count b) * kVertexFloats) vs @ out,
        b_indices := b_indices b @ add_indices (d_primitive d) (b_count b) (unat (d_count d)),
        b_count := b_count b + ucast (d_count d), b_primitive := list_of (d_primitive d), b_generation := g\<rparr> in
     sent_ok (pending b') \<and> expand (pending b') = expand (pending b) @ draw_vertices d)"
proof -
  let ?c = "unat (b_count b)" and ?n = "unat (d_count d)"
  let ?at = "?c * kVertexFloats"
  obtain zs where vs: "vs = b_vertices b @ zs" using grow_props(1) by (auto simp: vs_def)
  have len: "?at + ?n * kVertexFloats \<le> length vs" using grow_props(2) by (simp add: vs_def)
  then have "?n * kVertexFloats \<le> length (drop ?at vs)" by simp
  from convert_draw [OF d this] obtain out where out:
    "ConvertVertices (d_format d) (Some (d_records d)) ?n (Some (drop ?at vs)) = Some (?n, Some out)"
    "length out = length (drop ?at vs)" "\<And>i. i < ?n \<Longrightarrow> record_vertex d i = vertex_at out i" by blast
  let ?V = "take ?at vs @ out"
  have old: "vertex_at ?V i = vertex_at (b_vertices b) i" if "i < ?c" for i
  proof -
    have "(i + 1) * kVertexFloats \<le> ?at" using that by (intro mult_le_mono1) simp
    moreover have "?at \<le> length (b_vertices b)" using b by (simp add: sent_ok_def pending_def)
    ultimately show ?thesis using vs len by (simp add: vertex_at_append) (simp add: vertex_at_def getn_def take_drop min_def)
  qed
  have new: "vertex_at ?V (?c + i) = record_vertex d i" if "i < ?n" for i
    using that out(3) len by (subst vertex_at_offset) auto
  have sum: "unat (b_count b + ucast (d_count d)) = ?c + ?n"
    using room by (simp add: unat_word_ariths unat_ucast_up)
  have add: "unat (b_count b + of_nat i) = ?c + i" if "i < ?n" for i
  proof -
    have "unat (of_nat i :: u32) = i" using that room by (intro unat_of_nat_u32) simp
    then show ?thesis using that room by (simp add: unat_word_ariths)
  qed
  have idx: "\<forall>i \<in> set (b_indices b). i < b_count b" using b by (simp add: sent_ok_def pending_def)
  have less: "i < ?n" if "i \<in> set (concat (shape (d_primitive d) ?n))" for i
    using that shape_less by auto
  let ?new = "add_indices (d_primitive d) (b_count b) ?n"
  have "\<forall>i \<in> set ?new. unat i < ?c + ?n" using less add by (auto simp: add_indices_shape simp del: set_concat)
  moreover have "\<forall>i \<in> set (b_indices b). unat i < ?c + ?n" using idx by (auto simp: word_less_nat_alt)
  ultimately have bound: "\<forall>i \<in> set (b_indices b @ ?new). i < b_count b + ucast (d_count d)"
    using sum by (auto simp: word_less_nat_alt)
  have wide: "(?c + ?n) * kVertexFloats \<le> length ?V" using out(2) len by (simp add: add_mult_distrib)
  have "map (\<lambda>i. (list_of (d_primitive d), vertex_at ?V (unat i))) (b_indices b) = expand (pending b)"
  proof (cases "b_count b = 0")
    case True
    with idx have "b_indices b = []" by (cases "b_indices b") auto
    then show ?thesis by (simp add: expand_def pending_def)
  next
    case False
    with idx same old show ?thesis by (simp add: expand_def pending_def word_less_nat_alt)
  qed
  moreover have "map (\<lambda>i. (list_of (d_primitive d), vertex_at ?V (unat i))) ?new = draw_vertices d"
    using less add new by (simp add: add_indices_shape draw_vertices_def o_def del: set_concat)
  ultimately show ?thesis using out(1) bound wide sum
    by (simp add: sent_ok_def pending_def expand_def Let_def)
qed

text \<open>Every operation keeps the merge.\<close>

lemma send_merged: "merged r ds \<Longrightarrow> merged (send_batch dc r) ds"
  by (cases "b_indices (r_batch r) = []")
    (auto simp: merged_def send_batch_def pending_def expand_def sent_ok_def Let_def)

lemma send_count: "b_count (r_batch (send_batch dc r)) = 0"
  by (simp add: send_batch_def Let_def)

lemma split_slot_less: "split_slot cause < kSplitXf + 0x1100"
proof -
  have less: "unat (x AND 0xFF) < 256" "unat (x AND 0xF) < 16" for x :: u32
    by (simp_all add: unat_and_FF unat_and_F)
  have "unat ((cause AND 0xFFFF) AND 0xFF) < 4000" "unat ((cause AND 0xFFFF) AND 0xF) < 4000"
    using less [of "cause AND 0xFFFF"] by linarith+
  moreover have "unat (cause AND 0xFFFF) < 0x1100" if "cause AND 0xFFFF < 0x1100"
    using that by (simp add: word_less_nat_alt)
  ultimately show ?thesis by (auto simp: split_slot_def kSplitXf_def Let_def)
qed

lemma before_change_merged:
  assumes "merged r ds"
  shows "\<exists>r'. before_change dc cause r = Some r' \<and> merged r' ds \<and> b_count (r_batch r') = 0"
proof -
  have "\<exists>r1. (if b_count (r_batch r) \<noteq> 0 then count_split cause r else Some r) = Some r1 \<and> merged r1 ds"
    using assms split_slot_less [of cause] by (auto simp: count_split_def rd_Some wr_Some merged_def)
  then show ?thesis using send_merged send_count by (auto simp: before_change_def)
qed

lemma stage_merged:
  assumes r: "merged r ds" and d: "draw_ok (Drawn d)"
    and room: "sum_list (map (unat \<circ> d_count) ds) + unat (d_count d) < 2 ^ 32"
    and same: "b_count (r_batch r) \<noteq> 0 \<longrightarrow> b_primitive (r_batch r) = list_of (d_primitive d)"
  shows "\<exists>r'. stage g d r = Some r' \<and> merged r' (ds @ [d])"
proof -
  let ?b = "r_batch r"
  have fits: "unat (b_count ?b) + unat (d_count d) < 2 ^ 32" using r room by (simp add: merged_def)
  then have sum: "unat (b_count ?b + ucast (d_count d)) = unat (b_count ?b) + unat (d_count d)"
    by (simp add: unat_word_ariths unat_ucast_up)
  have "sent_ok (pending ?b)" using r by (simp add: merged_def)
  from staged [OF this d fits same, of g] r sum show ?thesis
    by (auto simp: stage_def merged_def Let_def)
qed

lemma draw_merged:
  assumes r: "merged r ds" and d: "draw_ok (Drawn d)"
    and room: "sum_list (map (unat \<circ> d_count) ds) + unat (d_count d) < 2 ^ 32"
  shows "\<exists>r'. draw dc True g d r = Some r' \<and> merged r' (ds @ [d])"
proof -
  let ?r = "r\<lparr>passOpen := True, r_counts := (r_counts r)\<lparr>c_draws := c_draws (r_counts r) + 1\<rparr>\<rparr>"
  have m: "merged ?r ds" using r by (simp add: merged_def)
  have "draw dc True g d r = stage g d (if b_count (r_batch ?r) \<noteq> 0 \<and>
      (b_primitive (r_batch ?r) \<noteq> list_of (d_primitive d) \<or> b_generation (r_batch ?r) \<noteq> g) then send_batch dc ?r else ?r)"
    by (cases "passOpen r"; cases r) (simp_all add: draw_def Let_def)
  then show ?thesis
    using stage_merged [OF m d room, of g] stage_merged [OF send_merged [OF m] d room, of dc g] send_count [of dc ?r] by auto
qed

lemma render_merged:
  assumes "merged r ds" "list_all (draw_ok \<circ> fst) es"
    and "sum_list (map (unat \<circ> d_count) (ds @ draws_of es)) < 2 ^ 32"
  shows "\<exists>r'. render dc es r = Some r' \<and> merged r' (ds @ draws_of es)"
  using assms
proof (induction es arbitrary: r ds)
  case Nil
  then show ?case by (simp add: draws_of_def)
next
  case (Cons e es)
  show ?case
  proof (cases "fst e")
    case (Changed cause)
    obtain r1 where r1: "before_change dc cause r = Some r1" "merged r1 ds"
      using before_change_merged [OF Cons.prems(1)] by blast
    with Cons.IH [OF r1(2)] Cons.prems Changed show ?thesis by (simp add: draws_of_def)
  next
    case (Drawn d)
    then have "sum_list (map (unat \<circ> d_count) ds) + unat (d_count d) < 2 ^ 32" "draw_ok (Drawn d)"
      using Cons.prems(2,3) by (simp_all add: draws_of_def o_def)
    then obtain r1 where r1: "draw dc True (snd e) d r = Some r1" "merged r1 (ds @ [d])"
      using draw_merged [OF Cons.prems(1)] by blast
    with Cons.IH [OF r1(2)] Cons.prems Drawn show ?thesis by (simp add: draws_of_def)
  qed
qed

definition renderer_start :: renderer where
  "renderer_start = \<lparr>r_batch = \<lparr>b_vertices = [], b_indices = [], b_count = 0, b_primitive = 0, b_generation = 0\<rparr>,
     passOpen = False, r_counts = \<lparr>c_draws = 0, c_batches = 0, c_refused = 0, c_dropped = 0, c_alone = 0, c_split = 0\<rparr>,
     splits = replicate (kSplitXf + 0x1100) 0, r_sent = []\<rparr>"

lemma merged_start: "merged renderer_start []"
  by (simp add: merged_def renderer_start_def sent_ok_def pending_def expand_def)

lemma render_change:
  assumes "list_all (draw_ok \<circ> fst) es" "sum_list (map (unat \<circ> d_count) (draws_of es)) < 2 ^ 32"
  shows "\<exists>r. render dc (es @ [(Changed cause, g)]) renderer_start = Some r \<and> b_count (r_batch r) = 0 \<and>
     list_all sent_ok (r_sent r) \<and> concat (map expand (r_sent r)) = concat (map draw_vertices (draws_of es))"
proof -
  have split: "render dc (es @ es') r = do { r \<leftarrow> render dc es r; render dc es' r }" for es' r
    by (induction es arbitrary: r) (simp_all)
  obtain r where r: "render dc es renderer_start = Some r" "merged r (draws_of es)"
    using render_merged [OF merged_start assms(1)] assms(2) by auto
  from before_change_merged [OF r(2), of dc cause] obtain r' where r': "before_change dc cause r = Some r'"
    "merged r' (draws_of es)" "b_count (r_batch r') = 0" by blast
  then have "b_indices (r_batch r') = []"
    by (cases "b_indices (r_batch r')") (auto simp: merged_def sent_ok_def pending_def)
  then have "expand (pending (r_batch r')) = []" by (simp add: expand_def pending_def)
  with r(1) r' split show ?thesis by (simp add: merged_def)
qed

text \<open>C25: Merging draws changes nothing that is drawn. For the draws of a stream, which carry whole records, when
  the processor announces a change of state everything drawn before it has been sent, nothing is
  left in the batch, every index sent is of a vertex of its batch, and the vertices the indices pick,
  with the list they are drawn as, are in order those of the primitives of each draw, converted from
  its own records alone.\<close>

theorem render_merges:
  assumes "list_all (draw_ok \<circ> fst) es" "sum_list (map (unat \<circ> d_count) (draws_of es)) < 2 ^ 32"
  shows "\<exists>r. render draw_converted (es @ [(Changed cause, g)]) renderer_start = Some r \<and> b_count (r_batch r) = 0 \<and>
     list_all sent_ok (r_sent r) \<and> concat (map expand (r_sent r)) = concat (map draw_vertices (draws_of es))"
  using render_change [OF assms] .

definition two_points :: Draw where
  "two_points = \<lparr>d_primitive = 0xB8, d_table = 0, d_count = 2, d_format = xy_bytes, d_records = [1, 2, 3, 4]\<rparr>"

lemma two_points_ok: "draw_ok (Drawn two_points)"
proof -
  have "PackedVertexSize xy_bytes = 2"
    using make_steps_size [of xy_bytes "[0..<VaCount]" 0 "[]"] xy_bytes_steps by (simp add: PackedVertexSize_def)
  then show ?thesis by (simp add: two_points_def draw_ok_def)
qed

lemma render_merges_witness:
  "\<exists>r. render (\<lambda>_. True) ([(Drawn two_points, 1), (Drawn two_points, 1)] @ [(Changed 0x10000, 2)]) renderer_start = Some r \<and>
     list_all sent_ok (r_sent r) \<and> concat (map expand (r_sent r)) = concat (map draw_vertices [two_points, two_points])"
proof -
  have "list_all (draw_ok \<circ> fst) [(Drawn two_points, 1), (Drawn two_points, 1)]" using two_points_ok by simp
  moreover have "draws_of [(Drawn two_points, 1), (Drawn two_points, 1)] = [two_points, two_points]" by (simp add: draws_of_def)
  moreover have "sum_list (map (unat \<circ> d_count) [two_points, two_points]) < 2 ^ 32" by (simp add: two_points_def)
  ultimately show ?thesis
    using render_merges [of "[(Drawn two_points, 1), (Drawn two_points, 1)]", where draw_converted = "\<lambda>_. True" and cause = "0x10000" and g = 2] by auto
qed

section \<open>The indices and the counters\<close>

lemma length_shape:
  "length (shape primitive n) =
     (let p = primitive AND 0xF8 in if p = 0x80 \<or> p = 0x88 then 2 * (n div 4) else if p = 0x90 then n div 3
      else if p = 0x98 \<or> p = 0xA0 then n - 2 else if p = 0xA8 then n div 2 else if p = 0xB0 then n - 1 else n)"
proof -
  have "length (concat (map (\<lambda>k. [f k, g k]) xs)) = 2 * length xs" for f g :: "nat \<Rightarrow> nat list" and xs :: "nat list"
    by (induction xs) simp_all
  then show ?thesis by (simp add: shape_def Let_def)
qed

lemma shape_corners: "is \<in> set (shape primitive n) \<Longrightarrow>
   length is = (if list_of primitive = 0x90 then 3 else if list_of primitive = 0xA8 then 2 else 1)"
  by (auto simp: shape_def list_of_def Let_def split: if_splits)

text \<open>The indices of a draw of n vertices behind base others are, for triangles, strips, fans and quads, whole
  triangles, for lines whole lines, of its own vertices: three or two to each, and as many as the
  primitive has.\<close>

theorem add_indices_whole:
  assumes "unat base + n < 2 ^ 32"
  shows "(\<forall>i \<in> set (add_indices primitive base n). base \<le> i \<and> unat i < unat base + n) \<and>
     length (add_indices primitive base n) =
       (if list_of primitive = 0x90 then 3 else if list_of primitive = 0xA8 then 2 else 1) *
       (let p = primitive AND 0xF8 in if p = 0x80 \<or> p = 0x88 then 2 * (n div 4) else if p = 0x90 then n div 3
        else if p = 0x98 \<or> p = 0xA0 then n - 2 else if p = 0xA8 then n div 2 else if p = 0xB0 then n - 1 else n)"
proof
  have "unat (base + of_nat i) = unat base + i" if "i < n" for i
  proof -
    have "unat (of_nat i :: u32) = i" using that assms by (intro unat_of_nat_u32) simp
    then show ?thesis using that assms by (simp add: unat_word_ariths)
  qed
  then show "\<forall>i \<in> set (add_indices primitive base n). base \<le> i \<and> unat i < unat base + n"
    using shape_less by (fastforce simp: add_indices_shape word_le_nat_alt)
  let ?k = "if list_of primitive = 0x90 then 3 else if list_of primitive = 0xA8 then 2 else 1"
  have "length (concat xs) = k * length xs" if "\<forall>x \<in> set xs. length x = k" for xs :: "nat list list" and k
    using that by (induction xs) simp_all
  from this [of "shape primitive n" ?k] show "length (add_indices primitive base n) = ?k *
       (let p = primitive AND 0xF8 in if p = 0x80 \<or> p = 0x88 then 2 * (n div 4) else if p = 0x90 then n div 3
        else if p = 0x98 \<or> p = 0xA0 then n - 2 else if p = 0xA8 then n div 2 else if p = 0xB0 then n - 1 else n)"
    using shape_corners [of _ primitive n] by (simp only: add_indices_shape length_map length_shape) blast
qed

lemma add_indices_whole_witness:
  "list_all (\<lambda>i. 7 \<le> i \<and> unat i < 12) (add_indices 0x98 7 5) \<and> length (add_indices 0x98 7 5) = 9"
  using add_indices_whole [where base = 7 and n = 5 and primitive = "0x98"] by (simp add: list_of_def list_all_iff)

lemma split_parts:
  assumes "unat x < 0x10000" "k \<in> {1, 2, 3, 4}"
  shows "drop_bit 16 (push_bit 16 k OR x) = (k :: u32)" "unat ((push_bit 16 k OR x) AND 0xFFFF) = unat x"
proof -
  have "unat (push_bit 16 k OR x) = unat k * 2 ^ 16 + unat x"
    using assms by (intro unat_shift_or) auto
  moreover have "unat (c AND 0xFFFF) = unat c mod 0x10000" for c :: u32
    using unat_and_mask [of c 16] by (simp add: mask_eq_exp_minus_1)
  moreover from calculation have "unat (drop_bit 16 (push_bit 16 k OR x)) = unat k"
    unfolding unat_drop_bit using assms(1) by simp
  ultimately show "drop_bit 16 (push_bit 16 k OR x) = k" "unat ((push_bit 16 k OR x) AND 0xFFFF) = unat x"
    using assms(1) by (simp_all add: word_unat_eq_iff del: push_bit_numeral drop_bit_or)
qed

lemma split_slot_kinds:
  assumes "unat x < 0x10000"
  shows "split_slot (push_bit 16 1 OR x) = unat x mod 256" "split_slot (push_bit 16 3 OR x) = 256 + unat x mod 256"
    "split_slot (push_bit 16 4 OR x) = 512 + unat x mod 16"
    "split_slot (push_bit 16 2 OR x) = kSplitXf + (if unat x < 0x1100 then unat x else 0x10FF)"
  using split_parts [OF assms, of 1] split_parts [OF assms, of 2] split_parts [OF assms, of 3] split_parts [OF assms, of 4]
  by (simp_all add: split_slot_def Let_def unat_and_FF unat_and_F word_less_nat_alt del: push_bit_numeral push_bit_of_1)

text \<open>Every cause of a change counts into a slot of the table, and a slot's cause counts into that slot.\<close>

theorem split_slot_cause:
  "split_slot cause < length (splits renderer_start) \<and>
   (unat slot < length (splits renderer_start) \<longrightarrow> split_slot (split_cause slot) = unat slot)"
proof (intro conjI impI)
  show "split_slot cause < length (splits renderer_start)"
    using split_slot_less by (simp add: renderer_start_def)
  assume less: "unat slot < length (splits renderer_start)"
  then have less: "unat slot < kSplitXf + 0x1100" by (simp add: renderer_start_def)
  consider "unat slot < 256" | "256 \<le> unat slot" "unat slot < 512" | "512 \<le> unat slot" "unat slot < kSplitXf"
    | "kSplitXf \<le> unat slot" by linarith
  then show "split_slot (split_cause slot) = unat slot"
  proof cases
    case 1
    then have "split_cause slot = push_bit 16 1 OR slot" by (simp add: split_cause_def word_less_nat_alt)
    with 1 split_slot_kinds(1) [of slot] show ?thesis by (simp del: push_bit_of_1)
  next
    case 2
    then have "split_cause slot = push_bit 16 3 OR (slot - 256)" "unat (slot - 256) = unat slot - 256"
      by (simp_all add: split_cause_def word_less_nat_alt word_le_nat_alt unat_sub)
    with 2 split_slot_kinds(2) [of "slot - 256"] show ?thesis by (simp del: push_bit_numeral)
  next
    case 3
    then have "split_cause slot = push_bit 16 4 OR (slot - 512)" "unat (slot - 512) = unat slot - 512"
      by (simp_all add: split_cause_def word_less_nat_alt word_le_nat_alt unat_sub kSplitXf_def)
    with 3 split_slot_kinds(3) [of "slot - 512"] show ?thesis by (simp add: kSplitXf_def del: push_bit_numeral)
  next
    case 4
    then have "split_cause slot = push_bit 16 2 OR (slot - 528)" "unat (slot - 528) = unat slot - 528"
      by (simp_all add: split_cause_def word_less_nat_alt word_le_nat_alt unat_sub kSplitXf_def)
    moreover have "unat slot - 528 < 0x1100" using less 4 by (simp add: kSplitXf_def)
    ultimately show ?thesis using 4 split_slot_kinds(4) [of "slot - 528"] by (simp add: kSplitXf_def del: push_bit_numeral)
  qed
qed

lemma split_slot_cause_witness:
  "split_slot (split_cause 600) = 600"
  using split_slot_cause [of 0 600] by (simp add: renderer_start_def kSplitXf_def)

end
