(* ===== verification/Gx_Frame.thy ===== *)
theory Gx_Frame
  imports Gx_Batch
begin

text \<open>
  The stream and the GPU together: the command processor announces every change of the state before
  it happens, so what the renderer merges is drawn with the state it was drawn in; and what the renderer counts.
\<close>

section \<open>Every change is announced\<close>

definition announced :: "cp \<Rightarrow> cp \<Rightarrow> bool" where
  "announced c c' \<longleftrightarrow> (\<exists>es. events c' = events c @ es \<and> ((\<forall>cause. Changed cause \<notin> set es) \<longrightarrow> mState c' = mState c))"

lemma announced_refl [simp]: "announced c c"
  by (simp add: announced_def)

lemma announced_trans: "announced c c' \<Longrightarrow> announced c' c'' \<Longrightarrow> announced c c''"
  unfolding announced_def by (elim exE conjE) (rule exI, rule conjI, simp, auto)

lemma announced_state:
  "announced c (c'\<lparr>mDepth := d\<rparr>) = announced c c'" "announced (c\<lparr>mDepth := d\<rparr>) c' = announced c c'"
  by (simp_all add: announced_def)

lemma announced_change: "announced c ((BeforeChange cause c)\<lparr>mState := s\<rparr>)"
  by (auto simp: announced_def BeforeChange_def)

lemma announced_DirectFormat: "DirectFormat t c = (fmt, c') \<Longrightarrow> announced c c'"
  by (auto simp: DirectFormat_def announced_def Let_def split: if_splits)

lemma announced_LoadCP: "announced c (LoadCP reg v c)"
proof -
  have "events c' = events c" "mState c' = mState c" if "cp_store reg v c = Some c'" for c'
    using that by (auto simp: cp_store_def split: if_splits)
  note stored = this
  show ?thesis
  proof (cases "cp_store reg v c")
    case None
    then have "LoadCP reg v c = c" unfolding LoadCP_def by simp
    then show ?thesis by simp
  next
    case (Some x)
    define y where "y = (if reg < 0xA0 then x\<lparr>mFormatValid := 0\<rparr> else x)"
    have y: "events y = events c" "mState y = mState c" using stored [OF Some] by (simp_all add: y_def)
    have "announced c ((BeforeChange k (y\<lparr>mVcdSet := True\<rparr>))\<lparr>mState := t\<rparr>)" for k t
      unfolding announced_def using y(1) by (intro exI [of _ "[Changed k]"]) (simp add: BeforeChange_def)
    moreover have "announced c y" unfolding announced_def using y by (intro exI [of _ "[]"]) simp
    ultimately show ?thesis
      unfolding LoadCP_def Some option.case y_def [symmetric] Let_def by (simp only: announced_refl split: if_split) blast
  qed
qed

lemma announced_load_xf: "announced c (load_xf cause address ws c)"
  by (simp add: load_xf_def announced_change Let_def)

lemma announced_LoadIndexed: "LoadIndexed mem cmd v c = Some c' \<Longrightarrow> announced c c'"
  by (auto simp: LoadIndexed_def announced_load_xf Let_def split: option.splits Option.bind_splits)

lemma announced_RunDraw:
  assumes "RunDraw mem cmd data pos c = Some (ok, p, c')"
  shows "announced c c'"
proof -
  obtain fmt d where d: "DirectFormat (cmd AND 7) c = (fmt, d)" by (cases "DirectFormat (cmd AND 7) c")
  have "announced d (d\<lparr>events := events d @ [Drawn x]\<rparr>)" for x by (simp add: announced_def)
  then have "announced d c' \<or> c' = c"
    using assms d by (auto simp: RunDraw_def Let_def split: if_splits option.splits Option.bind_splits)
  with announced_DirectFormat [OF d] show ?thesis by (auto intro: announced_trans)
qed

definition step_announced :: "cp \<Rightarrow> run_result \<Rightarrow> bool" where
  "step_announced c r \<longleftrightarrow> (\<forall>n c'. r = Some (Inl (n, c')) \<or> r = Some (Inr (n, c')) \<longrightarrow> announced c c')"

lemma step_announced_body:
  assumes call: "\<And>p c n c'. call p c = Some (n, c') \<Longrightarrow> announced c c'"
  shows "step_announced c (run_body mem call data (start, c))"
proof -
  have 1: "step_announced c (run_draw mem cmd data start c)" for cmd
    by (auto simp: step_announced_def run_draw_def dest: announced_RunDraw split: Option.bind_splits if_splits)
  have 2: "step_announced c (run_cp data start c)"
    by (auto simp: step_announced_def run_cp_def announced_LoadCP Let_def split: Option.bind_splits if_splits)
  have 3: "step_announced c (run_xf data start c)"
    by (auto simp: step_announced_def run_xf_def announced_load_xf Let_def split: Option.bind_splits if_splits)
  have 4: "step_announced c (run_indexed mem cmd data start c)" for cmd
    by (auto simp: step_announced_def run_indexed_def Let_def dest: announced_LoadIndexed split: Option.bind_splits if_splits)
  have 5: "step_announced c (run_list mem call data start c)"
    by (auto simp: step_announced_def run_list_def Let_def announced_state dest!: call
        split: Option.bind_splits if_splits option.splits)
  have 6: "step_announced c (run_bp data start c)"
    by (auto simp: step_announced_def run_bp_def announced_change Let_def split: Option.bind_splits if_splits)
  have "step_announced c (Some (Inl (n, c)))" "step_announced c (Some (Inr (n, c)))" for n
    by (simp_all add: step_announced_def)
  with 1 2 3 4 5 6 show ?thesis
    by (cases "rd data start") (simp_all add: run_body_def, simp add: step_announced_def)
qed

lemma loop_announced:
  assumes call: "\<And>p c n c'. call p c = Some (n, c') \<Longrightarrow> announced c c'"
    and run: "loop (run_body mem call data) (start, c) = Some (n, c')"
  shows "announced c c'"
proof -
  have step: "run_body mem call data (pos, d) = Some (Inl (m, d')) \<Longrightarrow> announced d d'"
    "run_body mem call data (pos, d) = Some (Inr (m, d')) \<Longrightarrow> announced d d'" for pos d m d'
    using step_announced_body [OF call, where c = d and mem = mem and data = data and start = pos]
    by (auto simp: step_announced_def)
  have "announced c (snd (n, c'))"
  proof (rule loop_invariant [OF run, where I = "\<lambda>s. announced c (snd s)"])
    fix s s' assume I: "announced c (snd s)" and "run_body mem call data s = Some (Inr s')"
    then show "announced c (snd s')"
      using step(2) [of "fst s" "snd s" "fst s'" "snd s'"] announced_trans [OF I] by simp
  next
    fix s s' assume I: "announced c (snd s)" and "run_body mem call data s = Some (Inl s')"
    then show "announced c (snd s')"
      using step(1) [of "fst s" "snd s" "fst s'" "snd s'"] announced_trans [OF I] by simp
  qed simp
  then show ?thesis by simp
qed

lemma Run_at_announced: "Run_at mem k data c = Some (n, c') \<Longrightarrow> announced c c'"
proof (induction k arbitrary: data c n c')
  case 0
  then show ?case using loop_announced [of "\<lambda>_ _. None" mem data 0 c n c'] by simp
next
  case (Suc k)
  then show ?case using loop_announced [of "Run_at mem k" mem data 0 c n c'] by simp
qed

text \<open>The command processor announces every change: it only adds to the events, and when it adds no
  announcement the graphics state is what it was.\<close>

theorem Run_announces:
  assumes "Run mem data c = Some (n, c')"
  shows "\<exists>es. events c' = events c @ es \<and> ((\<forall>cause. Changed cause \<notin> set es) \<longrightarrow> mState c' = mState c)"
  using Run_at_announced [of mem "kMaxDepth - mDepth c" data c n c'] assms by (simp add: Run_def announced_def)

lemma Run_announces_witness:
  "\<exists>es. events (CommandProcessor (gx_run [])) = [] @ es \<and> ((\<forall>cause. Changed cause \<notin> set es) \<longrightarrow>
     mState (CommandProcessor (gx_run [])) = gx_run [])"
  using Run_announces [of "guest_bytes (mem1 [])" "[]" "CommandProcessor (gx_run [])" 0 "CommandProcessor (gx_run [])"]
  by (simp add: CommandProcessor_def Run_top loop_Inl run_body_def)

section \<open>What is counted\<close>

text \<open>No draw is dropped, and none is refused but as part of a batch the GPU does not take.\<close>

definition accounted :: "(sent \<Rightarrow> bool) \<Rightarrow> renderer \<Rightarrow> nat \<Rightarrow> bool" where
  "accounted dc r k \<longleftrightarrow> c_draws (r_counts r) = of_nat k \<and> c_dropped (r_counts r) = 0 \<and>
     c_batches (r_counts r) = of_nat (length (filter dc (r_sent r))) \<and>
     c_refused (r_counts r) = of_nat (length (filter (\<lambda>s. \<not> dc s) (r_sent r)))"

lemma accounted_send: "accounted dc r k \<Longrightarrow> accounted dc (send_batch dc r) k"
  by (simp add: accounted_def send_batch_def Let_def)

lemma accounted_change: "accounted dc r k \<Longrightarrow> before_change dc cause r = Some r' \<Longrightarrow> accounted dc r' k"
  by (auto simp: before_change_def count_split_def split: if_splits Option.bind_splits intro!: accounted_send) (simp_all add: accounted_def)

lemma accounted_stage:
  assumes r: "merged r ds" "accounted dc r k" and d: "draw_ok (Drawn d)"
    and room: "sum_list (map (unat \<circ> d_count) ds) + unat (d_count d) < 2 ^ 32"
    and same: "b_count (r_batch r) \<noteq> 0 \<longrightarrow> b_primitive (r_batch r) = list_of (d_primitive d)" and run: "stage g d r = Some r'"
  shows "accounted dc r' k"
proof -
  have "unat (b_count (r_batch r)) + unat (d_count d) < 2 ^ 32" "sent_ok (pending (r_batch r))"
    using r(1) room by (simp_all add: merged_def)
  from staged [OF this(2) d this(1) same, of g] run r(2) show ?thesis
    by (auto simp: stage_def accounted_def Let_def split: if_splits)
qed

lemma accounted_draw:
  assumes r: "merged r ds" "accounted dc r k" and d: "draw_ok (Drawn d)"
    and room: "sum_list (map (unat \<circ> d_count) ds) + unat (d_count d) < 2 ^ 32" and run: "draw dc True g d r = Some r'"
  shows "accounted dc r' (Suc k)"
proof -
  let ?r = "r\<lparr>passOpen := True, r_counts := (r_counts r)\<lparr>c_draws := c_draws (r_counts r) + 1\<rparr>\<rparr>"
  have m: "merged ?r ds" "accounted dc ?r (Suc k)" using r by (simp_all add: merged_def accounted_def)
  have "draw dc True g d r = stage g d (if b_count (r_batch ?r) \<noteq> 0 \<and>
      (b_primitive (r_batch ?r) \<noteq> list_of (d_primitive d) \<or> b_generation (r_batch ?r) \<noteq> g) then send_batch dc ?r else ?r)"
    by (cases "passOpen r"; cases r) (simp_all add: draw_def Let_def)
  then show ?thesis
    using run accounted_stage [OF m d room] accounted_stage [OF send_merged [OF m(1)] accounted_send [OF m(2)] d room] send_count [of dc ?r]
    by (auto split: if_splits)
qed

lemma render_accounted:
  assumes "merged r ds" "accounted dc r k" "list_all (draw_ok \<circ> fst) es"
    and "sum_list (map (unat \<circ> d_count) (ds @ draws_of es)) < 2 ^ 32" "render dc es r = Some r'"
  shows "accounted dc r' (k + length (draws_of es))"
  using assms
proof (induction es arbitrary: r ds k)
  case Nil
  then show ?case by (simp add: draws_of_def)
next
  case (Cons e es)
  show ?case
  proof (cases "fst e")
    case (Changed cause)
    obtain r1 where r1: "before_change dc cause r = Some r1" "merged r1 ds"
      using before_change_merged [OF Cons.prems(1)] by blast
    with Cons.IH [OF r1(2) accounted_change [OF Cons.prems(2) r1(1)]] Cons.prems Changed show ?thesis by (simp add: draws_of_def)
  next
    case (Drawn d)
    then have d: "sum_list (map (unat \<circ> d_count) ds) + unat (d_count d) < 2 ^ 32" "draw_ok (Drawn d)"
      using Cons.prems(3,4) by (simp_all add: draws_of_def o_def)
    then obtain r1 where r1: "draw dc True (snd e) d r = Some r1" "merged r1 (ds @ [d])"
      using draw_merged [OF Cons.prems(1)] by blast
    with Cons.IH [OF r1(2) accounted_draw [OF Cons.prems(1,2) d(2,1) r1(1)]] Cons.prems Drawn show ?thesis by (simp add: draws_of_def)
  qed
qed

section \<open>A frame\<close>

definition count_vertices :: "event list \<Rightarrow> nat" where
  "count_vertices es = sum_list (map (\<lambda>e. case e of Drawn d \<Rightarrow> unat (d_count d) | _ \<Rightarrow> 0) es)"

lemma count_vertices_draws: "count_vertices (map fst es) = sum_list (map (unat \<circ> d_count) (draws_of es))"
  by (induction es) (auto simp: count_vertices_def draws_of_def split: event.split)

lemma render_announced:
  assumes "list_all (draw_ok \<circ> fst) es" "count_vertices (map fst es) < 2 ^ 32"
  shows "\<exists>r. render dc (es @ [(Changed cause, g)]) renderer_start = Some r \<and> b_count (r_batch r) = 0 \<and> list_all sent_ok (r_sent r) \<and>
     accounted dc r (length (draws_of es)) \<and> concat (map expand (r_sent r)) = concat (map draw_vertices (draws_of es))"
proof -
  have few: "sum_list (map (unat \<circ> d_count) (draws_of es)) < 2 ^ 32" using assms(2) by (simp only: count_vertices_draws)
  obtain r where r: "render dc (es @ [(Changed cause, g)]) renderer_start = Some r" "b_count (r_batch r) = 0"
    "list_all sent_ok (r_sent r)" "concat (map expand (r_sent r)) = concat (map draw_vertices (draws_of es))"
    using render_change [OF assms(1) few] by blast
  have all: "draws_of (es @ [(Changed cause, g)]) = draws_of es" "list_all (draw_ok \<circ> fst) (es @ [(Changed cause, g)])"
    using assms(1) by (simp_all add: draws_of_def draw_ok_def)
  have "accounted dc renderer_start 0" by (simp add: accounted_def renderer_start_def)
  from render_accounted [OF merged_start this all(2) _ r(1)] few have "accounted dc r (length (draws_of es))" by (simp add: all(1))
  with r show ?thesis by blast
qed

text \<open>C26: A stream run from a processor that holds its invariant ends on the GPU whole. Whatever the stream, the
  processor returns; and at every change it announces, and one announced behind its end, if fewer than 2^32 vertices were
  drawn before it, the renderer, which can open a pass, has taken every draw before it: each is counted and none dropped, and what is counted
  as refused is only the batches the GPU did not take, so the conversion has refused none. The batch is empty
  then, every index sent is of a vertex of its batch, and the vertices sent are those of the draws before it, in their
  order, each made of its own record.\<close>

theorem stream_renders:
  assumes "cp_ok c" "mDepth c = 0" "events c = []"
  shows "\<exists>n c'. Run (guest_bytes (mem1 ram)) data c = Some (n, c') \<and>
     (\<forall>es k g rest. map fst es @ Changed k # rest = events c' @ [Changed cause] \<and> count_vertices (map fst es) < 2 ^ 32 \<longrightarrow>
      (\<exists>r. render draw_converted (es @ [(Changed k, g)]) renderer_start = Some r \<and>
        b_count (r_batch r) = 0 \<and> list_all sent_ok (r_sent r) \<and>
        c_draws (r_counts r) = of_nat (length (draws_of es)) \<and> c_dropped (r_counts r) = 0 \<and>
        c_refused (r_counts r) = of_nat (length (filter (\<lambda>s. \<not> draw_converted s) (r_sent r))) \<and>
        concat (map expand (r_sent r)) = concat (map draw_vertices (draws_of es))))"
proof -
  obtain n c' where run: "Run (guest_bytes (mem1 ram)) data c = Some (n, c')" "cp_ok c'"
    using mem1.Run_at_ok [of c _ ram data, OF assms(1) refl] by (auto simp: Run_def)
  have "list_all draw_ok (events c' @ [Changed cause])" using run(2) by (simp add: cp_ok_def draw_ok_def)
  then have ok: "list_all (draw_ok \<circ> fst) es" if "map fst es @ Changed k # rest = events c' @ [Changed cause]" for es k rest
    unfolding that [symmetric] by (simp add: list_all_iff)
  show ?thesis
    using run(1) render_announced [OF ok] unfolding accounted_def by blast
qed

text \<open>A stream that describes a vertex and draws two points.\<close>

definition points_stream :: bytes where
  "points_stream = [0x08, 0x50, 0, 0, 2, 0, 0xB8, 0, 2, 1, 2, 3, 4]"

definition points_cp :: cp where
  "points_cp = LoadCP 0x50 0x200 (CommandProcessor (gx_run []))"

lemma points_cp_fields:
  "mVcdLo points_cp = 0x200" "mVcdHi points_cp = 0" "mVatA points_cp = replicate 8 0" "mVatB points_cp = replicate 8 0"
  "mVatC points_cp = replicate 8 0" "mFormatValid points_cp = 0" "events points_cp = [Changed 0x30050]"
  by (simp_all add: points_cp_def LoadCP_def cp_store_def CommandProcessor_def BeforeChange_def Let_def)

lemmas attr_types = AttrType_def va_defs Bits_def kDirect_def kNone_def

definition points :: Draw where
  "points = \<lparr>d_primitive = 0xB8, d_table = 0, d_count = 2, d_format = compute_format points_cp 0, d_records = [1, 2, 3, 4]\<rparr>"

lemma points_load: "run_body mem call points_stream (0, CommandProcessor (gx_run [])) = Some (Inr (6, points_cp))"
  by (simp add: run_body_def points_stream_def rd_def run_cp_def read32_def points_cp_def be32_def)

definition points_end :: cp where
  "points_end = (snd (DirectFormat 0 points_cp))\<lparr>events := [Changed 0x30050, Drawn points]\<rparr>"

lemma points_plan:
  "plan_attrs (snd (DirectFormat 0 points_cp)) (compute_format points_cp 0) [0..<VaCount]
       \<lparr>p_attrs = [], p_stream = 0, p_direct = 0, p_indexed = False\<rparr> =
     Some \<lparr>p_attrs = [\<lparr>a_attr = 9, a_type = kDirect, a_size = 2, a_offset = 0, a_base = None\<rparr>], p_stream = 2, p_direct = 2, p_indexed = False\<rparr>"
  by (simp add: DirectFormat_def points_cp_fields attr_types upt_conv_Cons compute_format_def Format_def attr_format_def
      PackedAttrSize_def AttrSize_def Components_def CompSize_def Let_def)

lemma points_draw: "run_body mem call points_stream (6, points_cp) = Some (Inr (13, points_end))"
proof -
  have format: "DirectFormat 0 points_cp = (compute_format points_cp 0, snd (DirectFormat 0 points_cp))"
    by (simp add: DirectFormat_def points_cp_fields Let_def)
  have events: "events (snd (DirectFormat 0 points_cp)) = [Changed 0x30050]"
    by (simp add: DirectFormat_def points_cp_fields Let_def)
  have n: "unat (2 :: u16) = 2" by simp
  have "RunDraw mem 0xB8 points_stream 7 points_cp = Some (True, 13, points_end)"
    using points_plan events
    by (simp add: RunDraw_def points_stream_def read16_def rd_def be16_def getn_def points_end_def points_def Let_def n
        split_beta DirectFormat_def points_cp_fields)
  then show ?thesis by (simp add: run_body_def points_stream_def rd_def run_draw_def)
qed

lemma points_run: "Run mem points_stream (CommandProcessor (gx_run [])) = Some (13, points_end)"
proof -
  have "loop (run_body mem call points_stream) (0, CommandProcessor (gx_run [])) = Some (13, points_end)" for call
  proof -
    have "loop (run_body mem call points_stream) (0, CommandProcessor (gx_run [])) = loop (run_body mem call points_stream) (6, points_cp)"
      by (rule loop_Inr) (rule points_load)
    also have "\<dots> = loop (run_body mem call points_stream) (13, points_end)" by (rule loop_Inr) (rule points_draw)
    also have "\<dots> = Some (13, points_end)" by (rule loop_Inl) (simp add: run_body_def points_stream_def)
    finally show ?thesis .
  qed
  then show ?thesis by (simp add: Run_top cp_ok_start(2))
qed

theorem stream_renders_witness:
  "\<exists>n c' r. Run (guest_bytes (mem1 [])) points_stream (CommandProcessor (gx_run [])) = Some (n, c') \<and> n = length points_stream \<and>
     events c' = [Changed 0x30050, Drawn points] \<and>
     render (\<lambda>_. True) [(Changed 0x30050, 1), (Drawn points, 2), (Changed 0x10000, 3)] renderer_start = Some r \<and>
     c_draws (r_counts r) = 1 \<and> c_refused (r_counts r) = 0 \<and> concat (map expand (r_sent r)) = draw_vertices points \<and>
     length (draw_vertices points) = 2"
proof -
  have "events (CommandProcessor (gx_run [])) = []" by (simp add: CommandProcessor_def)
  from stream_renders [OF cp_ok_start this, of "[]" points_stream "0x10000" "\<lambda>_. True"] obtain r where
    "render (\<lambda>_. True) ([(Changed 0x30050, 1), (Drawn points, 2)] @ [(Changed 0x10000, 3)]) renderer_start = Some r"
    "c_draws (r_counts r) = of_nat (length (draws_of [(Changed 0x30050, 1), (Drawn points, 2)]))"
    "c_refused (r_counts r) = of_nat (length (filter (\<lambda>s. \<not> True) (r_sent r)))"
    "concat (map expand (r_sent r)) = concat (map draw_vertices (draws_of [(Changed 0x30050, 1), (Drawn points, 2)]))"
    unfolding points_run
    by (fastforce simp: points_end_def count_vertices_def points_def dest: spec [of _ "[(Changed 0x30050, 1), (Drawn points, 2)]"])
  moreover have "length (draw_vertices points) = 2" by (simp add: draw_vertices_def points_def shape_def)
  ultimately show ?thesis using points_run by (simp add: draws_of_def points_end_def points_stream_def)
qed

end
