(* ===== verification/Mip_Levels.thy ===== *)
theory Mip_Levels
  imports Prelude
begin

text \<open>
  What the texture decoders of src/format/gx/texture.cpp share: loops over indices that may stop, writes to places of a
  buffer, and the levels of a texture, each half the size of the one before. \<open>level_decoder\<close> is what a decoder of
  one level promises; every level of a texture is right when it keeps that promise.
\<close>

section \<open>Loops and writes\<close>

primrec each :: "('a \<Rightarrow> 's \<Rightarrow> 's option) \<Rightarrow> 'a list \<Rightarrow> 's \<Rightarrow> 's option" where
  "each f [] s = Some s"
| "each f (x # xs) s = do { s \<leftarrow> f x s; each f xs s }"

definition puts :: "(nat \<times> 'a) list \<Rightarrow> 'a list \<Rightarrow> 'a list" where
  "puts ws out = fold (\<lambda>(p, v) out. out[p := v]) ws out"

lemma each_append: "each f (xs @ ys) s = do { s \<leftarrow> each f xs s; each f ys s }"
  by (induction xs arbitrary: s) (simp_all split: Option.bind_split)

lemma puts_simps [simp]: "puts [] out = out" "puts ((p, v) # ws) out = puts ws (out[p := v])" "puts (ws @ vs) out = puts vs (puts ws out)"
  by (simp_all add: puts_def)

lemma length_puts [simp]: "length (puts ws out) = length out"
  by (induction ws arbitrary: out) (simp_all add: puts_def split_beta)

lemma puts_other: "p \<notin> fst ` set ws \<Longrightarrow> puts ws out ! p = out ! p"
  by (induction ws arbitrary: out) (simp_all add: puts_def split_beta)

lemma puts_at:
  assumes "(p, v) \<in> set ws" "\<And>v'. (p, v') \<in> set ws \<Longrightarrow> v' = v" "p < length out"
  shows "puts ws out ! p = v"
  using assms
proof (induction ws arbitrary: out)
  case (Cons a ws)
  obtain q u where a: "a = (q, u)" by (cases a)
  have other: "v' = v" if "(p, v') \<in> set ws" for v' by (rule Cons.prems(2)) (simp add: that)
  show ?case
  proof (cases "(p, v) \<in> set ws")
    case True
    have "p < length (out[q := u])" using \<open>p < length out\<close> by simp
    with Cons.IH True other have "puts ws (out[q := u]) ! p = v" by blast
    then show ?thesis using a by simp
  next
    case False
    then have qu: "q = p" "u = v" using Cons.prems(1) a by auto
    have "p \<notin> fst ` set ws"
    proof
      assume "p \<in> fst ` set ws"
      then obtain v' where "(p, v') \<in> set ws" by (metis imageE prod.collapse)
      then show False using other [of v'] False by simp
    qed
    then have "puts ws (out[p := v]) ! p = out[p := v] ! p" by (rule puts_other)
    then show ?thesis using a qu Cons.prems(3) by simp
  qed
qed simp

text \<open>A loop whose body moves on by a fixed step and writes what it writes whatever is there.\<close>

lemma each_state:
  assumes body: "\<And>i out. i < n \<Longrightarrow> length out = N \<Longrightarrow> f i (g i, out) = Some (g (Suc i), puts (ws i) out)" and N: "length out = N"
  shows "each f [0..<n] (g 0, out) = Some (g n, puts (concat (map ws [0..<n])) out)"
  using body
proof (induction n)
  case (Suc n)
  then have "each f [0..<n] (g 0, out) = Some (g n, puts (concat (map ws [0..<n])) out)" by simp
  then show ?case using Suc.prems [of n "puts (concat (map ws [0..<n])) out"] N by (simp add: each_append)
qed simp

lemma each_upt:
  assumes body: "\<And>i out. i < n \<Longrightarrow> length out = N \<Longrightarrow> f i (at + step * i, out) = Some (at + step * Suc i, puts (ws i) out)"
    and N: "length out = N"
  shows "each f [0..<n] (at, out) = Some (at + step * n, puts (concat (map ws [0..<n])) out)"
  using each_state [where g = "\<lambda>i. at + step * i", OF body N] by simp

lemma each_upt_out:
  assumes body: "\<And>i out. i < n \<Longrightarrow> length out = N \<Longrightarrow> f i out = Some (puts (ws i) out)" and N: "length out = N"
  shows "each f [0..<n] out = Some (puts (concat (map ws [0..<n])) out)"
  using body
proof (induction n)
  case (Suc n)
  then have "each f [0..<n] out = Some (puts (concat (map ws [0..<n])) out)" by simp
  then show ?case using Suc.prems [of n "puts (concat (map ws [0..<n])) out"] N by (simp add: each_append)
qed simp

lemma in_concat_upt: "e \<in> set (concat (map f [0..<n])) \<longleftrightarrow> (\<exists>i<n. e \<in> set (f i))"
  by auto

text \<open>A loop over tiles, row by row.\<close>

lemma tile_rows:
  assumes body: "\<And>ty tx at out. ty < th \<Longrightarrow> tx < tw \<Longrightarrow> at + step \<le> L \<Longrightarrow> length out = N \<Longrightarrow> f ty tx (at, out) = Some (at + step, puts (ws ty tx at) out)"
    and at: "at + step * tw * th \<le> L" and N: "length out = N"
  shows "each (\<lambda>ty s. each (\<lambda>tx s. f ty tx s) [0..<tw] s) [0..<th] (at, out) = Some (at + step * tw * th,
    puts (concat (map (\<lambda>ty. concat (map (\<lambda>tx. ws ty tx (at + step * tw * ty + step * tx)) [0..<tw])) [0..<th])) out)"
proof (rule each_upt [OF _ N])
  fix ty and o1 :: "'a list"
  assume ty: "ty < th" and o1: "length o1 = N"
  have "each (\<lambda>tx s. f ty tx s) [0..<tw] (at + step * tw * ty, o1) = Some (at + step * tw * ty + step * tw,
      puts (concat (map (\<lambda>tx. ws ty tx (at + step * tw * ty + step * tx)) [0..<tw])) o1)"
  proof (rule each_upt [OF _ o1])
    fix tx and o2 :: "'a list"
    assume tx: "tx < tw" and o2: "length o2 = N"
    have "step * Suc tx \<le> step * tw" using tx by (intro mult_le_mono2) simp
    moreover have "step * tw * Suc ty \<le> step * tw * th" using ty by (intro mult_le_mono2) simp
    ultimately have "at + step * tw * ty + step * tx + step \<le> L" using at by simp
    then show "f ty tx (at + step * tw * ty + step * tx, o2) = Some (at + step * tw * ty + step * Suc tx, puts (ws ty tx (at + step * tw * ty + step * tx)) o2)"
      using body [OF ty tx _ o2] by (simp add: add.assoc add.commute)
  qed
  then show "each (\<lambda>tx s. f ty tx s) [0..<tw] (at + step * tw * ty, o1) = Some (at + step * tw * Suc ty,
      puts (concat (map (\<lambda>tx. ws ty tx (at + step * tw * ty + step * tx)) [0..<tw])) o1)"
    by (simp add: add.assoc add.commute)
qed

text \<open>A plane of w by h cells at l, every one of them written with what it should be.\<close>

lemma plane_place:
  assumes "(X :: nat) < w" "X' < w" "Y * w + X = Y' * w + X'"
  shows "X = X'" "Y = Y'"
proof -
  have "(X + w * Y) mod w = (X' + w * Y') mod w" "(X + w * Y) div w = (X' + w * Y') div w" using assms(3) by (simp_all add: ac_simps)
  then show "X = X'" "Y = Y'" using assms(1,2) by simp_all
qed

lemma plane_below: "(X :: nat) < w \<Longrightarrow> Y < h \<Longrightarrow> Y * w + X < w * h"
proof -
  assume a: "X < w" "Y < h"
  then have "Y * w + X < Suc Y * w" by simp
  also have "\<dots> \<le> h * w" using a by (intro mult_le_mono1) simp
  finally show ?thesis by (simp add: mult.commute)
qed

lemma puts_plane:
  assumes ws: "set ws = {(l + (Y * w + X), F X Y) |X Y. X < w \<and> Y < h}" and room: "l + w * h \<le> length out"
  shows "X < w \<Longrightarrow> Y < h \<Longrightarrow> puts ws out ! (l + (Y * w + X)) = F X Y"
    "p < l \<or> l + w * h \<le> p \<Longrightarrow> puts ws out ! p = out ! p"
proof -
  assume at: "X < w" "Y < h"
  show "puts ws out ! (l + (Y * w + X)) = F X Y"
  proof (rule puts_at)
    show "(l + (Y * w + X), F X Y) \<in> set ws" using ws at by blast
    show "v' = F X Y" if v': "(l + (Y * w + X), v') \<in> set ws" for v'
    proof -
      obtain X' Y' where "Y * w + X = Y' * w + X'" "v' = F X' Y'" "X' < w" using v' unfolding ws by auto
      then show ?thesis using plane_place [OF at(1), of X' Y Y'] by simp
    qed
    show "l + (Y * w + X) < length out" using plane_below [OF at] room by simp
  qed
next
  assume p: "p < l \<or> l + w * h \<le> p"
  have "p \<notin> fst ` set ws"
  proof
    assume "p \<in> fst ` set ws"
    then obtain X Y where "p = l + (Y * w + X)" "X < w" "Y < h" using ws by auto
    then show False using plane_below [of X w Y h] p by simp
  qed
  then show "puts ws out ! p = out ! p" by (rule puts_other)
qed

lemma plane_cells:
  assumes ws: "set ws = {(l + (Y * w + X), F X Y) |X Y. X < w \<and> Y < h}" and room: "l + w * h \<le> length out"
  shows "\<forall>X<w. \<forall>Y<h. take 1 (drop (1 * (l + (Y * w + X))) (puts ws out)) = [F X Y]"
    "\<forall>p. p < 1 * l \<or> 1 * (l + w * h) \<le> p \<longrightarrow> puts ws out ! p = out ! p"
proof -
  have "take 1 (drop (1 * (l + (Y * w + X))) (puts ws out)) = [F X Y]" if "X < w" "Y < h" for X Y
  proof -
    have "l + (Y * w + X) < length (puts ws out)" using plane_below [OF that] room by simp
    then show ?thesis using puts_plane(1) [OF ws room that] by (simp add: take_Suc hd_drop_conv_nth)
  qed
  then show "\<forall>X<w. \<forall>Y<h. take 1 (drop (1 * (l + (Y * w + X))) (puts ws out)) = [F X Y]" by blast
  show "\<forall>p. p < 1 * l \<or> 1 * (l + w * h) \<le> p \<longrightarrow> puts ws out ! p = out ! p"
    using puts_plane(2) [OF ws room] by simp
qed

section \<open>Levels\<close>

definition half :: "nat \<Rightarrow> nat" where
  "half n = max (n div 2) 1"

definition mip :: "nat \<Rightarrow> nat \<Rightarrow> nat" where
  "mip m n = (half ^^ m) n"

lemma mip_simps [simp]: "mip 0 n = n" "mip (Suc m) n = mip m (half n)"
  by (simp_all add: mip_def funpow_swap1)

lemma half_pos [simp]: "0 < half n" and half_le: "0 < n \<Longrightarrow> half n \<le> n"
  by (simp_all add: half_def)

lemma mip_eq: "0 < n \<Longrightarrow> mip m n = max (n div 2 ^ m) 1"
proof (induction m arbitrary: n)
  case (Suc m)
  have "mip m (half n) = max (half n div 2 ^ m) 1" by (rule Suc.IH) simp
  also have "\<dots> = max (n div 2 div 2 ^ m) 1" by (cases "n div 2") (simp_all add: half_def max_def)
  finally show ?case by (simp add: div_mult2_eq)
qed simp

text \<open>One level after another: the width and height, the place of the level among the texels.\<close>

primrec each_level :: "nat \<Rightarrow> (nat \<Rightarrow> nat \<Rightarrow> nat \<Rightarrow> 's \<Rightarrow> 's option) \<Rightarrow> nat \<Rightarrow> nat \<Rightarrow> nat \<Rightarrow> 's \<Rightarrow> 's option" where
  "each_level 0 f w h level s = Some s"
| "each_level (Suc n) f w h level s = do { s \<leftarrow> f w h level s; each_level n f (half w) (half h) (level + w * h) s }"

text \<open>What is in front of a level.\<close>

primrec before :: "(nat \<Rightarrow> nat \<Rightarrow> nat) \<Rightarrow> nat \<Rightarrow> nat \<Rightarrow> nat \<Rightarrow> nat" where
  "before size_of 0 w h = 0"
| "before size_of (Suc m) w h = size_of w h + before size_of m (half w) (half h)"

lemma before_mono: "m \<le> n \<Longrightarrow> before size_of m w h \<le> before size_of n w h"
proof (induction m arbitrary: n w h)
  case (Suc m)
  then show ?case by (cases n) simp_all
qed simp

lemma before_Suc: "before size_of (Suc m) w h = before size_of m w h + size_of (mip m w) (mip m h)"
  by (induction m arbitrary: w h) simp_all

locale level_decoder =
  fixes data :: bytes and f :: "nat \<Rightarrow> nat \<Rightarrow> nat \<Rightarrow> nat \<times> 'a list \<Rightarrow> (nat \<times> 'a list) option" and k lim :: nat
    and size_of :: "nat \<Rightarrow> nat \<Rightarrow> nat" and texel :: "nat \<Rightarrow> nat \<Rightarrow> nat \<Rightarrow> nat \<Rightarrow> 'a list"
  assumes level: "0 < w \<Longrightarrow> 0 < h \<Longrightarrow> w < lim \<Longrightarrow> h < lim \<Longrightarrow> at + size_of w h \<le> length data \<Longrightarrow> k * (l + w * h) \<le> length out \<Longrightarrow>
    \<exists>out'. f w h l (at, out) = Some (at + size_of w h, out') \<and> length out' = length out \<and>
      (\<forall>X<w. \<forall>Y<h. take k (drop (k * (l + (Y * w + X))) out') = texel at w X Y) \<and>
      (\<forall>p. p < k * l \<or> k * (l + w * h) \<le> p \<longrightarrow> out' ! p = out ! p)"
begin

lemma levels:
  assumes "0 < w" "0 < h" "w < lim" "h < lim" "at + before size_of n w h \<le> length data" "k * (l + before (*) n w h) \<le> length out"
  shows "\<exists>out'. each_level n f w h l (at, out) = Some (at + before size_of n w h, out') \<and> length out' = length out \<and>
    (\<forall>m<n. \<forall>X<mip m w. \<forall>Y<mip m h.
       take k (drop (k * (l + before (*) m w h + (Y * mip m w + X))) out') = texel (at + before size_of m w h) (mip m w) X Y) \<and>
    (\<forall>p. p < k * l \<longrightarrow> out' ! p = out ! p)"
  using assms
proof (induction n arbitrary: w h at l out)
  case (Suc n)
  obtain o1 where o1: "f w h l (at, out) = Some (at + size_of w h, o1)" "length o1 = length out"
      "\<forall>X<w. \<forall>Y<h. take k (drop (k * (l + (Y * w + X))) o1) = texel at w X Y"
      "\<forall>p. p < k * l \<or> k * (l + w * h) \<le> p \<longrightarrow> o1 ! p = out ! p"
    using level [of w h at l out] Suc.prems by (auto simp: algebra_simps)
  have "half w < lim" "half h < lim" using half_le [OF Suc.prems(1)] half_le [OF Suc.prems(2)] Suc.prems(3,4) by simp_all
  then obtain o2 where o2: "each_level n f (half w) (half h) (l + w * h) (at + size_of w h, o1) =
        Some (at + size_of w h + before size_of n (half w) (half h), o2)" "length o2 = length o1"
      "\<forall>m<n. \<forall>X<mip m (half w). \<forall>Y<mip m (half h).
       take k (drop (k * (l + w * h + before (*) m (half w) (half h) + (Y * mip m (half w) + X))) o2) =
       texel (at + size_of w h + before size_of m (half w) (half h)) (mip m (half w)) X Y"
      "\<forall>p. p < k * (l + w * h) \<longrightarrow> o2 ! p = o1 ! p"
    using Suc.IH [of "half w" "half h" "at + size_of w h" "l + w * h" o1] Suc.prems(5,6) o1(2) by (auto simp: add.assoc)
  have first: "take k (drop (k * (l + (Y * w + X))) o2) = texel at w X Y" if at: "X < w" "Y < h" for X Y
  proof -
    let ?p = "k * (l + (Y * w + X))"
    have "Suc (Y * w + X) \<le> w * h" using plane_below [OF at] by simp
    then have "k * (l + Suc (Y * w + X)) \<le> k * (l + w * h)" by (intro mult_le_mono2) simp
    then have below: "?p + k \<le> k * (l + w * h)" by (simp add: algebra_simps)
    have "k * (l + w * h) \<le> length o1" using Suc.prems(6) o1(2) by (simp add: algebra_simps)
    then have "take k (drop ?p o2) = take k (drop ?p o1)"
      using below o2(2,4) by (intro nth_equalityI) auto
    then show ?thesis using o1(3) at by simp
  qed
  have "take k (drop (k * (l + before (*) m w h + (Y * mip m w + X))) o2) = texel (at + before size_of m w h) (mip m w) X Y"
    if m: "m < Suc n" "X < mip m w" "Y < mip m h" for m X Y
  proof (cases m)
    case 0
    then show ?thesis using first m by simp
  next
    case (Suc m')
    then show ?thesis using o2(3) m by (simp add: add.assoc)
  qed
  moreover have "o2 ! p = out ! p" if "p < k * l" for p
  proof -
    have "p < k * (l + w * h)" using that by (simp add: algebra_simps)
    then show ?thesis using that o1(4) o2(4) by simp
  qed
  ultimately show ?case using o1(1,2) o2(1,2) by (simp add: add.assoc)
qed simp

end

end
