(* ===== verification/Gx_Texture.thy ===== *)
theory Gx_Texture
  imports Mip_Levels
begin

text \<open>
  GX textures decoded to RGBA8 (src/format/gx/texture.cpp): the texel of each format, the tiles texels are stored in,
  and the three decoders. The input is a pointer in the code and an index into \<open>data\<close> here, and every access to a
  buffer is checked; widths and heights are below \<open>2 ^ 32 - 7\<close>, so that the loops over tiles, which count texels in
  32 bits, end. A vector of texels is a list, and
  \<open>Bytes\<close> the bytes it is made of.
\<close>

datatype TexFormat = I4 | I8 | IA4 | IA8 | RGB565 | RGB5A3 | RGBA8 | C4 | C8 | C14X2 | CMPR | Z8 | Z16 | Z24X8 | UnknownTexFormat u32

datatype TlutFormat = TlutIA8 | TlutRGB565 | TlutRGB5A3 | UnknownTlutFormat u32

datatype rgba8 = Rgba (red: u8) (green: u8) (blue: u8) (alpha: u8)

section \<open>Colours\<close>

definition ExpandTo8 :: "nat \<Rightarrow> u8 \<Rightarrow> u8" where
  "ExpandTo8 bits n = (if bits = 3 then push_bit 5 n OR push_bit 2 n OR drop_bit 1 n
     else push_bit (8 - bits) n OR drop_bit (bits * 2 - 8) n)"

definition S3TCBlend :: "u8 \<Rightarrow> u8 \<Rightarrow> u8" where
  "S3TCBlend a b = (let a = ucast a :: u32; b = ucast b :: u32 in
     ucast (drop_bit 3 ((push_bit 1 a + a) + (push_bit 2 b + b))))"

definition HalfBlend :: "u8 \<Rightarrow> u8 \<Rightarrow> u8" where
  "HalfBlend a b = ucast (drop_bit 1 (ucast a + ucast b :: u32))"

definition Be16 :: "bytes \<Rightarrow> nat \<Rightarrow> u16 option" where
  "Be16 data p = do { a \<leftarrow> rd data p; b \<leftarrow> rd data (p + 1); Some (be16 a b) }"

definition rgb565_colour :: "u16 \<Rightarrow> rgba8" where
  "rgb565_colour v = Rgba (ExpandTo8 5 (ucast (drop_bit 11 v AND 0x1F))) (ExpandTo8 6 (ucast (drop_bit 5 v AND 0x3F)))
     (ExpandTo8 5 (ucast (v AND 0x1F))) 0xFF"

definition rgb5a3_colour :: "u16 \<Rightarrow> rgba8" where
  "rgb5a3_colour v =
     (if v AND 0x8000 \<noteq> 0 then
        Rgba (ExpandTo8 5 (ucast (drop_bit 10 v AND 0x1F))) (ExpandTo8 5 (ucast (drop_bit 5 v AND 0x1F)))
          (ExpandTo8 5 (ucast (v AND 0x1F))) 0xFF
      else
        Rgba (ExpandTo8 4 (ucast (drop_bit 8 v AND 0xF))) (ExpandTo8 4 (ucast (drop_bit 4 v AND 0xF)))
          (ExpandTo8 4 (ucast (v AND 0xF))) (ExpandTo8 3 (ucast (drop_bit 12 v AND 0x7))))"

section \<open>Formats of single texels\<close>

text \<open>
  A tile is so many texels wide and high; each of its rows takes a fixed number of bytes. The texel of a row at an
  index, and for two formats the whole row of eight at once.
\<close>

record 'a decoder =
  BlockWidth :: nat
  BlockHeight :: nat
  Frac :: nat
  SourceBytes :: nat
  Texel :: "bytes \<Rightarrow> nat \<Rightarrow> nat \<Rightarrow> 'a option"
  Row :: "(bytes \<Rightarrow> nat \<Rightarrow> 'a list option) option"

definition row_bytes :: "'a decoder \<Rightarrow> nat" where
  "row_bytes d = BlockWidth d div Frac d * SourceBytes d"

definition nibble :: "bytes \<Rightarrow> nat \<Rightarrow> nat \<Rightarrow> u8 option" where
  "nibble data at x = do { b \<leftarrow> rd data (at + x div 2); Some (drop_bit (if x mod 2 = 1 then 0 else 4) b AND 0xF) }"

definition grey :: "u8 \<Rightarrow> rgba8" where
  "grey i = Rgba i i i i"

text \<open>The vector instructions of the rows: two vectors interleaved, the lower half of it.\<close>

definition vzip_low :: "bytes \<Rightarrow> bytes \<Rightarrow> bytes" where
  "vzip_low a b = concat (map2 (\<lambda>x y. [x, y]) (take 4 a) (take 4 b))"

definition RowI4 :: "bytes \<Rightarrow> nat \<Rightarrow> rgba8 list option" where
  "RowI4 data at = do {
     w \<leftarrow> getn data at 4;
     let packed = w @ w;
     let zipped = vzip_low (map (drop_bit 4) packed) (map (\<lambda>b. b AND 0x0F) packed);
     Some (map (\<lambda>z. grey (push_bit 4 z OR z)) zipped) }"

definition RowI8 :: "bytes \<Rightarrow> nat \<Rightarrow> rgba8 list option" where
  "RowI8 data at = do { i \<leftarrow> getn data at 8; Some (map grey i) }"

definition DecodeI4 :: "rgba8 decoder" where
  "DecodeI4 = \<lparr>BlockWidth = 8, BlockHeight = 8, Frac = 2, SourceBytes = 1,
     Texel = (\<lambda>data at x. do { n \<leftarrow> nibble data at x; Some (grey (ExpandTo8 4 n)) }), Row = Some RowI4\<rparr>"

definition DecodeI8 :: "rgba8 decoder" where
  "DecodeI8 = \<lparr>BlockWidth = 8, BlockHeight = 4, Frac = 1, SourceBytes = 1,
     Texel = (\<lambda>data at x. do { i \<leftarrow> rd data (at + x); Some (grey i) }), Row = Some RowI8\<rparr>"

definition DecodeIA4 :: "rgba8 decoder" where
  "DecodeIA4 = \<lparr>BlockWidth = 8, BlockHeight = 4, Frac = 1, SourceBytes = 1,
     Texel = (\<lambda>data at x. do {
       b \<leftarrow> rd data (at + x);
       let i = ExpandTo8 4 (b AND 0xF);
       Some (Rgba i i i (ExpandTo8 4 (drop_bit 4 b))) }), Row = None\<rparr>"

definition TexelIA8 :: "bytes \<Rightarrow> nat \<Rightarrow> nat \<Rightarrow> rgba8 option" where
  "TexelIA8 data at x = do { i \<leftarrow> rd data (at + x * 2 + 1); a \<leftarrow> rd data (at + x * 2); Some (Rgba i i i a) }"

definition TexelRGB565 :: "bytes \<Rightarrow> nat \<Rightarrow> nat \<Rightarrow> rgba8 option" where
  "TexelRGB565 data at x = do { v \<leftarrow> Be16 data (at + x * 2); Some (rgb565_colour v) }"

definition TexelRGB5A3 :: "bytes \<Rightarrow> nat \<Rightarrow> nat \<Rightarrow> rgba8 option" where
  "TexelRGB5A3 data at x = do { v \<leftarrow> Be16 data (at + x * 2); Some (rgb5a3_colour v) }"

definition DecodeIA8 :: "rgba8 decoder" where
  "DecodeIA8 = \<lparr>BlockWidth = 4, BlockHeight = 4, Frac = 1, SourceBytes = 2, Texel = TexelIA8, Row = None\<rparr>"

definition DecodeRGB565 :: "rgba8 decoder" where
  "DecodeRGB565 = \<lparr>BlockWidth = 4, BlockHeight = 4, Frac = 1, SourceBytes = 2, Texel = TexelRGB565, Row = None\<rparr>"

definition DecodeRGB5A3 :: "rgba8 decoder" where
  "DecodeRGB5A3 = \<lparr>BlockWidth = 4, BlockHeight = 4, Frac = 1, SourceBytes = 2, Texel = TexelRGB5A3, Row = None\<rparr>"

definition DecodeC4 :: "u16 decoder" where
  "DecodeC4 = \<lparr>BlockWidth = 8, BlockHeight = 8, Frac = 2, SourceBytes = 1,
     Texel = (\<lambda>data at x. do { n \<leftarrow> nibble data at x; Some (ucast n) }), Row = None\<rparr>"

definition DecodeC8 :: "u16 decoder" where
  "DecodeC8 = \<lparr>BlockWidth = 8, BlockHeight = 4, Frac = 1, SourceBytes = 1,
     Texel = (\<lambda>data at x. do { b \<leftarrow> rd data (at + x); Some (ucast b) }), Row = None\<rparr>"

definition DecodeC14X2 :: "u16 decoder" where
  "DecodeC14X2 = \<lparr>BlockWidth = 4, BlockHeight = 4, Frac = 1, SourceBytes = 2,
     Texel = (\<lambda>data at x. do { v \<leftarrow> Be16 data (at + x * 2); Some (v AND 0x3FFF) }), Row = None\<rparr>"

section \<open>Tiles\<close>

definition tile_row :: "'a decoder \<Rightarrow> bytes \<Rightarrow> nat \<Rightarrow> nat \<Rightarrow> nat \<Rightarrow> 'a list \<Rightarrow> 'a list option" where
  "tile_row d data at target n out =
     (case Row d of
        Some row \<Rightarrow>
          if n = 8 then do { ts \<leftarrow> row data at; putn out target ts }
          else each (\<lambda>x out. do { t \<leftarrow> Texel d data at x; wr out (target + x) t }) [0..<n] out
      | None \<Rightarrow> each (\<lambda>x out. do { t \<leftarrow> Texel d data at x; wr out (target + x) t }) [0..<n] out)"

definition tile :: "'a decoder \<Rightarrow> bytes \<Rightarrow> nat \<Rightarrow> nat \<Rightarrow> nat \<Rightarrow> nat \<Rightarrow> nat \<Rightarrow> nat \<times> 'a list \<Rightarrow> (nat \<times> 'a list) option" where
  "tile d data w h level ty tx s = (
     let baseY = ty * BlockHeight d; rows = min (h - baseY) (BlockHeight d);
         baseX = tx * BlockWidth d; n = min (w - baseX) (BlockWidth d) in do {
       (at, out) \<leftarrow> each (\<lambda>y (at, out). do {
           out \<leftarrow> tile_row d data at (level + (baseY + y) * w + baseX) n out;
           Some (at + row_bytes d, out) }) [0..<rows] s;
       Some (at + row_bytes d * (BlockHeight d - rows), out) })"

definition tiles :: "nat \<Rightarrow> nat \<Rightarrow> nat" where
  "tiles n block = (n + block - 1) mod 2 ^ 32 div block"

definition tiled_level :: "'a decoder \<Rightarrow> bytes \<Rightarrow> nat \<Rightarrow> nat \<Rightarrow> nat \<Rightarrow> nat \<times> 'a list \<Rightarrow> (nat \<times> 'a list) option" where
  "tiled_level d data w h level s =
     each (\<lambda>ty s. each (\<lambda>tx s. tile d data w h level ty tx s) [0..<tiles w (BlockWidth d)] s) [0..<tiles h (BlockHeight d)] s"

primrec mipped_texels :: "nat \<Rightarrow> nat \<Rightarrow> nat \<Rightarrow> nat \<Rightarrow> nat" where
  "mipped_texels 0 w h n = n"
| "mipped_texels (Suc i) w h n = mipped_texels i (half w) (half h) (n + half w * half h)"

definition MippedTexels :: "nat \<Rightarrow> nat \<Rightarrow> nat \<Rightarrow> nat" where
  "MippedTexels w h mips = mipped_texels (mips - 1) w h (w * h)"

definition DecodeTiled :: "'a decoder \<Rightarrow> 'a \<Rightarrow> nat \<Rightarrow> nat \<Rightarrow> nat \<Rightarrow> bytes \<Rightarrow> 'a list option" where
  "DecodeTiled d zero width height mips data = do {
     (at, out) \<leftarrow> each_level mips (tiled_level d data) width height 0 (0, replicate (MippedTexels width height mips) zero);
     Some out }"

section \<open>RGBA8\<close>

text \<open>The bytes of the texels, four of them each: the first half of a tile holds alpha and red, the second green and blue.\<close>

definition rgba8_texel :: "bytes \<Rightarrow> nat \<Rightarrow> nat \<Rightarrow> nat \<Rightarrow> nat \<Rightarrow> bytes \<Rightarrow> bytes option" where
  "rgba8_texel data part at x t out = do {
     a \<leftarrow> rd data (at + x * 2);
     out \<leftarrow> wr out (4 * t + (if part = 0 then 3 else 1)) a;
     b \<leftarrow> rd data (at + x * 2 + 1);
     wr out (4 * t + (if part = 0 then 0 else 2)) b }"

definition rgba8_tile :: "bytes \<Rightarrow> nat \<Rightarrow> nat \<Rightarrow> nat \<Rightarrow> nat \<Rightarrow> nat \<Rightarrow> nat \<times> bytes \<Rightarrow> (nat \<times> bytes) option" where
  "rgba8_tile data w h level baseY baseX s =
     each (\<lambda>part s. each (\<lambda>y (at, out). do {
         out \<leftarrow> each (\<lambda>x out.
           if w \<le> baseX + x \<or> h \<le> baseY + y then Some out
           else rgba8_texel data part at x (level + (baseY + y) * w + baseX + x) out) [0..<4] out;
         Some (at + 8, out) }) [0..<4] s) [0..<2] s"

definition rgba8_level :: "bytes \<Rightarrow> nat \<Rightarrow> nat \<Rightarrow> nat \<Rightarrow> nat \<times> bytes \<Rightarrow> (nat \<times> bytes) option" where
  "rgba8_level data w h level s =
     each (\<lambda>ty s. each (\<lambda>tx s. rgba8_tile data w h level (4 * ty) (4 * tx) s) [0..<(w + 3) div 4] s) [0..<(h + 3) div 4] s"

definition DecodeRGBA8 :: "nat \<Rightarrow> nat \<Rightarrow> nat \<Rightarrow> bytes \<Rightarrow> bytes option" where
  "DecodeRGBA8 width height mips data = do {
     (at, out) \<leftarrow> each_level mips (rgba8_level data) width height 0 (0, replicate (4 * MippedTexels width height mips) 0);
     Some out }"

section \<open>CMPR\<close>

definition blend :: "(u8 \<Rightarrow> u8 \<Rightarrow> u8) \<Rightarrow> rgba8 \<Rightarrow> rgba8 \<Rightarrow> u8 \<Rightarrow> rgba8" where
  "blend f a b opacity = Rgba (f (red a) (red b)) (f (green a) (green b)) (f (blue a) (blue b)) opacity"

definition cmpr_colors :: "u16 \<Rightarrow> u16 \<Rightarrow> rgba8 list" where
  "cmpr_colors c1 c2 = (let a = rgb565_colour c1; b = rgb565_colour c2 in
     if c2 < c1 then [a, b, blend S3TCBlend b a 0xFF, blend S3TCBlend a b 0xFF]
     else [a, b, blend HalfBlend a b 0xFF, blend HalfBlend a b 0])"

definition cmpr_row :: "nat \<Rightarrow> nat \<Rightarrow> nat \<Rightarrow> nat \<Rightarrow> nat \<Rightarrow> rgba8 list \<Rightarrow> u8 \<Rightarrow> rgba8 list \<Rightarrow> rgba8 list option" where
  "cmpr_row w h level y x0 colors bits out = do {
     (bits, out) \<leftarrow> each (\<lambda>x (bits, out). do {
       out \<leftarrow> (if x0 + x < w \<and> y < h then do {
           c \<leftarrow> rd colors (unat (drop_bit 6 bits AND 3));
           wr out (level + y * w + x0 + x) c }
         else Some out);
       Some (push_bit 2 bits, out) }) [0..<4] (bits, out);
     Some out }"

definition cmpr_block :: "bytes \<Rightarrow> nat \<Rightarrow> nat \<Rightarrow> nat \<Rightarrow> nat \<Rightarrow> nat \<Rightarrow> nat \<times> rgba8 list \<Rightarrow> (nat \<times> rgba8 list) option" where
  "cmpr_block data w h level y0 x0 = (\<lambda>(at, out). do {
     c1 \<leftarrow> Be16 data at;
     c2 \<leftarrow> Be16 data (at + 2);
     let colors = cmpr_colors c1 c2;
     out \<leftarrow> each (\<lambda>y out. do {
       bits \<leftarrow> rd data (at + 4 + y);
       cmpr_row w h level (y0 + y) x0 colors bits out }) [0..<4] out;
     Some (at + 8, out) })"

definition cmpr_level :: "bytes \<Rightarrow> nat \<Rightarrow> nat \<Rightarrow> nat \<Rightarrow> nat \<times> rgba8 list \<Rightarrow> (nat \<times> rgba8 list) option" where
  "cmpr_level data w h level s =
     each (\<lambda>ty s. each (\<lambda>tx s. each (\<lambda>yb s. each (\<lambda>xb s.
         cmpr_block data w h level (8 * ty + 4 * yb) (8 * tx + 4 * xb) s) [0..<2] s) [0..<2] s)
       [0..<(w + 7) div 8] s) [0..<(h + 7) div 8] s"

definition DecodeCMPR :: "nat \<Rightarrow> nat \<Rightarrow> nat \<Rightarrow> bytes \<Rightarrow> rgba8 list option" where
  "DecodeCMPR width height mips data = do {
     (at, out) \<leftarrow> each_level mips (cmpr_level data) width height 0 (0, replicate (MippedTexels width height mips) (Rgba 0 0 0 0));
     Some out }"

section \<open>Textures and palettes\<close>

definition TilingOf :: "TexFormat \<Rightarrow> (nat \<times> nat \<times> nat) option" where
  "TilingOf format = (case format of
     I4 \<Rightarrow> Some (8, 8, 32) | C4 \<Rightarrow> Some (8, 8, 32) | CMPR \<Rightarrow> Some (8, 8, 32)
   | I8 \<Rightarrow> Some (8, 4, 32) | IA4 \<Rightarrow> Some (8, 4, 32) | C8 \<Rightarrow> Some (8, 4, 32) | Z8 \<Rightarrow> Some (8, 4, 32)
   | IA8 \<Rightarrow> Some (4, 4, 32) | RGB565 \<Rightarrow> Some (4, 4, 32) | RGB5A3 \<Rightarrow> Some (4, 4, 32) | C14X2 \<Rightarrow> Some (4, 4, 32) | Z16 \<Rightarrow> Some (4, 4, 32)
   | RGBA8 \<Rightarrow> Some (4, 4, 64) | Z24X8 \<Rightarrow> Some (4, 4, 64)
   | UnknownTexFormat v \<Rightarrow> None)"

definition IsKnown :: "TexFormat \<Rightarrow> bool" where
  "IsKnown format \<longleftrightarrow> TilingOf format \<noteq> None"

definition IsPaletted :: "TexFormat \<Rightarrow> bool" where
  "IsPaletted format \<longleftrightarrow> format = C4 \<or> format = C8 \<or> format = C14X2"

primrec data_size :: "nat \<Rightarrow> nat \<times> nat \<times> nat \<Rightarrow> nat \<Rightarrow> nat \<Rightarrow> nat \<Rightarrow> nat" where
  "data_size 0 t w h acc = acc"
| "data_size (Suc n) t w h acc = (let (bw, bh, bytes) = t; wide = (w + bw - 1) div bw; high = (h + bh - 1) div bh in
     if ((2 ^ 64 - 1) - acc) div bytes < wide * high then 0
     else data_size n t (half w) (half h) (acc + wide * high * bytes))"

definition TextureDataSize :: "TexFormat \<Rightarrow> nat \<Rightarrow> nat \<Rightarrow> nat \<Rightarrow> nat" where
  "TextureDataSize format width height mips =
     (if width = 0 \<or> height = 0 \<or> mips = 0 then 0
      else case TilingOf format of None \<Rightarrow> 0 | Some t \<Rightarrow> data_size mips t width height 0)"

definition rgba_bytes :: "rgba8 \<Rightarrow> bytes" where
  "rgba_bytes t = [red t, green t, blue t, alpha t]"

definition Bytes :: "rgba8 list \<Rightarrow> bytes" where
  "Bytes ts = concat (map rgba_bytes ts)"

text \<open>The texels of one level are \<open>None\<close> where the code leaves a buffer, which it does not.\<close>

definition DecodeTexture :: "TexFormat \<Rightarrow> nat \<Rightarrow> nat \<Rightarrow> nat \<Rightarrow> bytes \<Rightarrow> bytes option" where
  "DecodeTexture format width height mips data = (
     let needed = TextureDataSize format width height mips; black = Rgba 0 0 0 0;
         tiled = (\<lambda>d. map_option Bytes (DecodeTiled d black width height mips data)) in
     if needed = 0 \<or> length data < needed \<or> IsPaletted format then Some []
     else case format of
       I4 \<Rightarrow> tiled DecodeI4
     | I8 \<Rightarrow> tiled DecodeI8 | Z8 \<Rightarrow> tiled DecodeI8
     | IA4 \<Rightarrow> tiled DecodeIA4
     | IA8 \<Rightarrow> tiled DecodeIA8 | Z16 \<Rightarrow> tiled DecodeIA8
     | RGB565 \<Rightarrow> tiled DecodeRGB565
     | RGB5A3 \<Rightarrow> tiled DecodeRGB5A3
     | RGBA8 \<Rightarrow> DecodeRGBA8 width height mips data | Z24X8 \<Rightarrow> DecodeRGBA8 width height mips data
     | CMPR \<Rightarrow> map_option Bytes (DecodeCMPR width height mips data)
     | _ \<Rightarrow> Some [])"

definition DecodeTextureIndices :: "TexFormat \<Rightarrow> nat \<Rightarrow> nat \<Rightarrow> nat \<Rightarrow> bytes \<Rightarrow> u16 list option" where
  "DecodeTextureIndices format width height mips data = (
     let needed = TextureDataSize format width height mips in
     if needed = 0 \<or> length data < needed then Some []
     else case format of
       C4 \<Rightarrow> DecodeTiled DecodeC4 0 width height mips data
     | C8 \<Rightarrow> DecodeTiled DecodeC8 0 width height mips data
     | C14X2 \<Rightarrow> DecodeTiled DecodeC14X2 0 width height mips data
     | _ \<Rightarrow> Some [])"

definition tlut_texel :: "TlutFormat \<Rightarrow> (bytes \<Rightarrow> nat \<Rightarrow> nat \<Rightarrow> rgba8 option) option" where
  "tlut_texel format = (case format of TlutIA8 \<Rightarrow> Some TexelIA8 | TlutRGB565 \<Rightarrow> Some TexelRGB565 | TlutRGB5A3 \<Rightarrow> Some TexelRGB5A3
     | UnknownTlutFormat v \<Rightarrow> None)"

text \<open>The format is looked at for each entry, so one of none at all does not matter.\<close>

definition DecodeTlut :: "TlutFormat \<Rightarrow> nat \<Rightarrow> bytes \<Rightarrow> bytes option" where
  "DecodeTlut format entries data =
     (if length data < entries * 2 then Some []
      else case tlut_texel format of
        None \<Rightarrow> Some []
      | Some texel \<Rightarrow> map_option Bytes (those (map (texel data 0) [0..<entries])))"

definition DecodeTexturePalette :: "TexFormat \<Rightarrow> nat \<Rightarrow> nat \<Rightarrow> nat \<Rightarrow> bytes \<Rightarrow> TlutFormat \<Rightarrow> nat \<Rightarrow> bytes \<Rightarrow> bytes option" where
  "DecodeTexturePalette format width height mips data tlut_format entries tlut = do {
     indices \<leftarrow> DecodeTextureIndices format width height mips data;
     palette \<leftarrow> DecodeTlut tlut_format entries tlut;
     if indices = [] \<or> palette = [] then Some []
     else do {
       (n, out) \<leftarrow> each (\<lambda>k (i, out).
           if unat k < entries then do {
             colour \<leftarrow> getn palette (unat k * 4) 4;
             out \<leftarrow> putn out (i * 4) colour;
             Some (i + 1, out) }
           else Some (i + 1, out)) indices (0, replicate (length indices * 4) 0);
       Some out } }"

end
