(* ===== verification/Gx_Tiles.thy ===== *)
theory Gx_Tiles
  imports Gx_Texture
begin

text \<open>
  One level of a tiled texture: \<open>tile_decoder\<close> is what a format's texels promise, the formats of the code keep it,
  and so each texel of a level is the one its tile holds for it.
\<close>

section \<open>Counting tiles\<close>

definition blocks :: "nat \<Rightarrow> nat \<Rightarrow> nat" where
  "blocks n b = (n + b - 1) div b"

lemma tiles_blocks: "n + 7 < 2 ^ 32 \<Longrightarrow> b \<le> 8 \<Longrightarrow> tiles n b = blocks n b"
  by (simp add: tiles_def blocks_def)

lemma blocks_less: "0 < b \<Longrightarrow> i < blocks n b \<longleftrightarrow> i * b < n"
proof -
  assume b: "0 < b"
  have "i < blocks n b \<longleftrightarrow> Suc i * b \<le> n + b - 1" unfolding blocks_def Suc_le_eq [symmetric] using b by (rule less_eq_div_iff_mult_less_eq)
  also have "\<dots> \<longleftrightarrow> i * b < n" using b by auto
  finally show ?thesis .
qed

lemma blocks_div: "0 < b \<Longrightarrow> X div b < blocks n b \<longleftrightarrow> X < n \<or> X div b * b < n"
  by (simp add: blocks_less) (meson div_times_less_eq_dividend le_less_trans)

lemma block_of: "0 < b \<Longrightarrow> X < n \<Longrightarrow> X div b < blocks n b"
  by (simp add: blocks_div)

lemma blocks_up: "(w + 3) div 4 = blocks w 4" "(w + 7) div 8 = blocks w 8"
  by (simp_all add: blocks_def)

section \<open>Writes of a row\<close>

lemma puts_putn:
  assumes "target + length ts \<le> length out"
  shows "putn out target ts = Some (puts (map (\<lambda>i. (target + i, ts ! i)) [0..<length ts]) out)"
proof -
  let ?ws = "map (\<lambda>i. (target + i, ts ! i)) [0..<length ts]"
  have "take target out @ ts @ drop (target + length ts) out = puts ?ws out"
  proof (rule nth_equalityI)
    fix p
    assume "p < length (take target out @ ts @ drop (target + length ts) out)"
    then have p: "p < length out" using assms by simp
    show "(take target out @ ts @ drop (target + length ts) out) ! p = puts ?ws out ! p"
    proof (cases "target \<le> p \<and> p < target + length ts")
      case True
      then have "puts ?ws out ! p = ts ! (p - target)"
        using p by (intro puts_at) (auto intro!: image_eqI [of _ _ "p - target"])
      moreover have "p - target < length ts" using True by arith
      ultimately show ?thesis using True assms by (simp add: nth_append)
    next
      case False
      then have "puts ?ws out ! p = out ! p" by (intro puts_other) auto
      then show ?thesis using False assms p by (auto simp: nth_append)
    qed
  qed (use assms in simp)
  then show ?thesis using assms by (simp add: putn_def)
qed

definition tile_bytes :: "'a decoder \<Rightarrow> nat" where
  "tile_bytes d = row_bytes d * BlockHeight d"

definition row_writes :: "'a decoder \<Rightarrow> bytes \<Rightarrow> nat \<Rightarrow> nat \<Rightarrow> nat \<Rightarrow> (nat \<times> 'a) list" where
  "row_writes d data at target n = map (\<lambda>x. (target + x, the (Texel d data at x))) [0..<n]"

definition tile_writes :: "'a decoder \<Rightarrow> bytes \<Rightarrow> nat \<Rightarrow> nat \<Rightarrow> nat \<Rightarrow> nat \<Rightarrow> nat \<Rightarrow> nat \<Rightarrow> (nat \<times> 'a) list" where
  "tile_writes d data w h level ty tx at = concat (map (\<lambda>y.
     row_writes d data (at + row_bytes d * y) (level + (ty * BlockHeight d + y) * w + tx * BlockWidth d) (min (w - tx * BlockWidth d) (BlockWidth d)))
     [0..<min (h - ty * BlockHeight d) (BlockHeight d)])"

definition level_writes :: "'a decoder \<Rightarrow> bytes \<Rightarrow> nat \<Rightarrow> nat \<Rightarrow> nat \<Rightarrow> nat \<Rightarrow> (nat \<times> 'a) list" where
  "level_writes d data w h level at = concat (map (\<lambda>ty. concat (map (\<lambda>tx.
     tile_writes d data w h level ty tx (at + tile_bytes d * blocks w (BlockWidth d) * ty + tile_bytes d * tx)) [0..<blocks w (BlockWidth d)]))
     [0..<blocks h (BlockHeight d)])"

text \<open>The texel at a place, in the tile it lies in.\<close>

definition texel_at :: "'a decoder \<Rightarrow> bytes \<Rightarrow> nat \<Rightarrow> nat \<Rightarrow> nat \<Rightarrow> nat \<Rightarrow> 'a" where
  "texel_at d data at w X Y = the (Texel d data
     (at + tile_bytes d * (blocks w (BlockWidth d) * (Y div BlockHeight d) + X div BlockWidth d) + row_bytes d * (Y mod BlockHeight d))
     (X mod BlockWidth d))"

locale tile_decoder =
  fixes d :: "'a decoder"
  assumes block: "0 < BlockWidth d" "BlockWidth d \<le> 8" "0 < BlockHeight d" "BlockHeight d \<le> 8"
    and texel: "x < BlockWidth d \<Longrightarrow> at + row_bytes d \<le> length data \<Longrightarrow> \<exists>t. Texel d data at x = Some t"
    and row: "Row d = Some row \<Longrightarrow> at + row_bytes d \<le> length data \<Longrightarrow>
      \<exists>ts. row data at = Some ts \<and> length ts = 8 \<and> (\<forall>x<8. Texel d data at x = Some (ts ! x))"
begin

lemma each_texel:
  assumes "n \<le> BlockWidth d" "at + row_bytes d \<le> length data" "target + n \<le> length out"
  shows "each (\<lambda>x out. do { t \<leftarrow> Texel d data at x; wr out (target + x) t }) [0..<n] out = Some (puts (row_writes d data at target n) out)"
proof -
  have "each (\<lambda>x out. do { t \<leftarrow> Texel d data at x; wr out (target + x) t }) [0..<n] out =
      Some (puts (concat (map (\<lambda>x. [(target + x, the (Texel d data at x))]) [0..<n])) out)"
  proof (rule each_upt_out [where N = "length out"])
    fix x :: nat and o' :: "'a list"
    assume "x < n" "length o' = length out"
    then show "do { t \<leftarrow> Texel d data at x; wr o' (target + x) t } = Some (puts [(target + x, the (Texel d data at x))] o')"
      using texel [of x at data] assms by (auto simp: wr_Some)
  qed simp
  moreover have "concat (map (\<lambda>x. [(target + x, the (Texel d data at x))]) [0..<n]) = row_writes d data at target n"
    by (simp add: row_writes_def)
  ultimately show ?thesis by simp
qed

lemma tile_row_writes:
  assumes "n \<le> BlockWidth d" "at + row_bytes d \<le> length data" "target + n \<le> length out"
  shows "tile_row d data at target n out = Some (puts (row_writes d data at target n) out)"
proof (cases "Row d")
  case None
  then show ?thesis using each_texel [OF assms] by (simp add: tile_row_def)
next
  case (Some f)
  show ?thesis
  proof (cases "n = 8")
    case True
    obtain ts where ts: "f data at = Some ts" "length ts = 8" "\<forall>x<8. Texel d data at x = Some (ts ! x)"
      using row [OF Some assms(2)] by blast
    have "map (\<lambda>i. (target + i, ts ! i)) [0..<8] = row_writes d data at target 8"
      unfolding row_writes_def using ts(3) by (intro map_cong) auto
    then show ?thesis using Some True ts(1,2) puts_putn [of target ts out] assms(3) by (simp add: tile_row_def)
  next
    case False
    then show ?thesis using Some each_texel [OF assms] by (simp add: tile_row_def)
  qed
qed

lemma tile_puts:
  assumes at: "at + tile_bytes d \<le> length data" and room: "level + w * h \<le> length out"
    and inside: "ty * BlockHeight d < h" "tx * BlockWidth d < w"
  shows "tile d data w h level ty tx (at, out) = Some (at + tile_bytes d, puts (tile_writes d data w h level ty tx at) out)"
proof -
  define rows where "rows = min (h - ty * BlockHeight d) (BlockHeight d)"
  define n where "n = min (w - tx * BlockWidth d) (BlockWidth d)"
  have "each (\<lambda>y (at, out). do {
           out \<leftarrow> tile_row d data at (level + (ty * BlockHeight d + y) * w + tx * BlockWidth d) n out;
           Some (at + row_bytes d, out) }) [0..<rows] (at, out) =
      Some (at + row_bytes d * rows, puts (tile_writes d data w h level ty tx at) out)"
    unfolding tile_writes_def rows_def [symmetric] n_def [symmetric]
  proof (rule each_upt [where N = "length out"])
    fix y and o' :: "'a list"
    assume y: "y < rows" and o': "length o' = length out"
    then have "row_bytes d * Suc y \<le> tile_bytes d" unfolding rows_def tile_bytes_def by (intro mult_le_mono2) simp
    then have a: "at + row_bytes d * y + row_bytes d \<le> length data" using at by simp
    have "(ty * BlockHeight d + y) * w + (tx * BlockWidth d + (n - 1)) < w * h"
      using y inside block(1) unfolding rows_def n_def by (intro plane_below; simp; arith)
    then have "level + (ty * BlockHeight d + y) * w + tx * BlockWidth d + n \<le> length o'"
      using room o' inside block(1) unfolding n_def by (auto simp: min_def)
    then show "(case (at + row_bytes d * y, o') of (at, out) \<Rightarrow> do {
           out \<leftarrow> tile_row d data at (level + (ty * BlockHeight d + y) * w + tx * BlockWidth d) n out;
           Some (at + row_bytes d, out) }) = Some (at + row_bytes d * Suc y,
          puts (row_writes d data (at + row_bytes d * y) (level + (ty * BlockHeight d + y) * w + tx * BlockWidth d) n) o')"
      using tile_row_writes [OF _ a, of n] by (simp add: n_def)
  qed simp
  moreover have "row_bytes d * rows + row_bytes d * (BlockHeight d - rows) = tile_bytes d"
    unfolding rows_def tile_bytes_def by (simp flip: add_mult_distrib2)
  ultimately show ?thesis by (simp add: tile_def Let_def rows_def n_def add.assoc)
qed

lemma level_puts:
  assumes w: "w + 7 < 2 ^ 32" and h: "h + 7 < 2 ^ 32"
    and at: "at + tile_bytes d * blocks w (BlockWidth d) * blocks h (BlockHeight d) \<le> length data" and room: "level + w * h \<le> length out"
  shows "tiled_level d data w h level (at, out) =
    Some (at + tile_bytes d * blocks w (BlockWidth d) * blocks h (BlockHeight d), puts (level_writes d data w h level at) out)"
  unfolding tiled_level_def level_writes_def tiles_blocks [OF w block(2)] tiles_blocks [OF h block(4)]
proof (rule tile_rows [OF _ at, where N = "length out"])
  fix ty tx i and o' :: "'a list"
  assume "ty < blocks h (BlockHeight d)" "tx < blocks w (BlockWidth d)" "i + tile_bytes d \<le> length data" "length o' = length out"
  then show "tile d data w h level ty tx (i, o') = Some (i + tile_bytes d, puts (tile_writes d data w h level ty tx i) o')"
    using room block(1,3) by (intro tile_puts) (simp_all add: blocks_less)
qed simp

lemma set_level_writes:
  "set (level_writes d data w h level at) = {(level + (Y * w + X), texel_at d data at w X Y) |X Y. X < w \<and> Y < h}" (is "?L = ?R")
proof
  show "?L \<subseteq> ?R"
  proof
    fix e
    assume "e \<in> ?L"
    then obtain ty tx y x where i: "tx < blocks w (BlockWidth d)" "ty < blocks h (BlockHeight d)"
      "y < min (h - ty * BlockHeight d) (BlockHeight d)" "x < min (w - tx * BlockWidth d) (BlockWidth d)"
      and e: "e = (level + (ty * BlockHeight d + y) * w + tx * BlockWidth d + x,
        the (Texel d data (at + tile_bytes d * blocks w (BlockWidth d) * ty + tile_bytes d * tx + row_bytes d * y) x))"
      by (auto simp: level_writes_def tile_writes_def row_writes_def)
    have "e = (level + ((ty * BlockHeight d + y) * w + (tx * BlockWidth d + x)), texel_at d data at w (tx * BlockWidth d + x) (ty * BlockHeight d + y))"
      using i(3,4) by (simp add: e texel_at_def div_add1_eq algebra_simps)
    moreover have "tx * BlockWidth d + x < w" "ty * BlockHeight d + y < h" using i(3,4) by auto
    ultimately show "e \<in> ?R" by blast
  qed
  show "?R \<subseteq> ?L"
  proof
    fix e
    assume "e \<in> ?R"
    then obtain X Y where XY: "X < w" "Y < h" and e: "e = (level + (Y * w + X), texel_at d data at w X Y)" by blast
    let ?tx = "X div BlockWidth d" and ?ty = "Y div BlockHeight d"
    have t: "?tx < blocks w (BlockWidth d)" "?ty < blocks h (BlockHeight d)" using XY block by (simp_all add: block_of)
    have sum: "?tx * BlockWidth d + X mod BlockWidth d = X" "?ty * BlockHeight d + Y mod BlockHeight d = Y" by simp_all
    have "X mod BlockWidth d < min (w - ?tx * BlockWidth d) (BlockWidth d)" "Y mod BlockHeight d < min (h - ?ty * BlockHeight d) (BlockHeight d)"
      using XY sum block(1,3) mod_less_divisor by (auto simp del: div_mod_decomp simp: less_diff_conv add.commute)
    moreover have "e = (level + (?ty * BlockHeight d + Y mod BlockHeight d) * w + ?tx * BlockWidth d + X mod BlockWidth d,
        the (Texel d data (at + tile_bytes d * blocks w (BlockWidth d) * ?ty + tile_bytes d * ?tx + row_bytes d * (Y mod BlockHeight d)) (X mod BlockWidth d)))"
      unfolding e sum(2) texel_at_def using sum(1) by (simp add: algebra_simps)
    ultimately show "e \<in> ?L" using t unfolding level_writes_def tile_writes_def row_writes_def by force
  qed
qed

lemma tiled_level_decodes:
  "level_decoder data (tiled_level d data) 1 (2 ^ 32 - 7) (\<lambda>w h. tile_bytes d * blocks w (BlockWidth d) * blocks h (BlockHeight d))
     (\<lambda>at w X Y. [texel_at d data at w X Y])"
proof
  fix w h at l :: nat and out :: "'a list"
  assume lim: "w < 2 ^ 32 - 7" "h < 2 ^ 32 - 7" and at: "at + tile_bytes d * blocks w (BlockWidth d) * blocks h (BlockHeight d) \<le> length data"
    and room: "1 * (l + w * h) \<le> length out"
  have room': "l + w * h \<le> length out" using room by simp
  show "\<exists>out'. tiled_level d data w h l (at, out) = Some (at + tile_bytes d * blocks w (BlockWidth d) * blocks h (BlockHeight d), out') \<and>
      length out' = length out \<and> (\<forall>X<w. \<forall>Y<h. take 1 (drop (1 * (l + (Y * w + X))) out') = [texel_at d data at w X Y]) \<and>
      (\<forall>p. p < 1 * l \<or> 1 * (l + w * h) \<le> p \<longrightarrow> out' ! p = out ! p)"
    using level_puts [of w h at data l out] lim at room' plane_cells [OF set_level_writes room'] by auto
qed

end

sublocale tile_decoder \<subseteq> tiled: level_decoder data "tiled_level d data" 1 "2 ^ 32 - 7"
  "\<lambda>w h. tile_bytes d * blocks w (BlockWidth d) * blocks h (BlockHeight d)" "\<lambda>at w X Y. [texel_at d data at w X Y]" for data
  by (rule tiled_level_decodes)

end
