(* ===== verification/Gx_Cmpr.thy ===== *)
theory Gx_Cmpr
  imports Gx_Tiles
begin

text \<open>One level of a CMPR texture: tiles of two by two blocks of four by four texels, each of them one of the block's four colours.\<close>

definition block_colors :: "bytes \<Rightarrow> nat \<Rightarrow> rgba8 list" where
  "block_colors data at = cmpr_colors (be16 (data ! at) (data ! (at + 1))) (be16 (data ! (at + 2)) (data ! (at + 3)))"

definition pick_color :: "rgba8 list \<Rightarrow> u8 \<Rightarrow> nat \<Rightarrow> rgba8" where
  "pick_color colors bits x = colors ! unat (drop_bit 6 (push_bit (2 * x) bits) AND 3)"

definition cmpr_at :: "bytes \<Rightarrow> nat \<Rightarrow> nat \<Rightarrow> nat \<Rightarrow> nat \<Rightarrow> rgba8" where
  "cmpr_at data at w X Y = (let p = at + 32 * (blocks w 8 * (Y div 8) + X div 8) + 16 * (Y mod 8 div 4) + 8 * (X mod 8 div 4) in
     pick_color (block_colors data p) (data ! (p + 4 + Y mod 4)) (X mod 4))"

definition cmpr_row_writes :: "nat \<Rightarrow> nat \<Rightarrow> nat \<Rightarrow> nat \<Rightarrow> nat \<Rightarrow> rgba8 list \<Rightarrow> u8 \<Rightarrow> (nat \<times> rgba8) list" where
  "cmpr_row_writes w h level y x0 colors bits = concat (map (\<lambda>x.
     if x0 + x < w \<and> y < h then [(level + y * w + x0 + x, pick_color colors bits x)] else []) [0..<4])"

definition cmpr_block_writes :: "bytes \<Rightarrow> nat \<Rightarrow> nat \<Rightarrow> nat \<Rightarrow> nat \<Rightarrow> nat \<Rightarrow> nat \<Rightarrow> (nat \<times> rgba8) list" where
  "cmpr_block_writes data w h level y0 x0 at = concat (map (\<lambda>y.
     cmpr_row_writes w h level (y0 + y) x0 (block_colors data at) (data ! (at + 4 + y))) [0..<4])"

definition cmpr_tile_writes :: "bytes \<Rightarrow> nat \<Rightarrow> nat \<Rightarrow> nat \<Rightarrow> nat \<Rightarrow> nat \<Rightarrow> nat \<Rightarrow> (nat \<times> rgba8) list" where
  "cmpr_tile_writes data w h level ty tx at = concat (map (\<lambda>yb. concat (map (\<lambda>xb.
     cmpr_block_writes data w h level (8 * ty + 4 * yb) (8 * tx + 4 * xb) (at + 8 * 2 * yb + 8 * xb)) [0..<2])) [0..<2])"

definition cmpr_level_writes :: "bytes \<Rightarrow> nat \<Rightarrow> nat \<Rightarrow> nat \<Rightarrow> nat \<Rightarrow> (nat \<times> rgba8) list" where
  "cmpr_level_writes data w h level at = concat (map (\<lambda>ty. concat (map (\<lambda>tx.
     cmpr_tile_writes data w h level ty tx (at + 32 * blocks w 8 * ty + 32 * tx)) [0..<blocks w 8])) [0..<blocks h 8])"

lemma length_cmpr_colors [simp]: "length (cmpr_colors c1 c2) = 4" "length (block_colors data at) = 4"
  by (simp_all add: cmpr_colors_def block_colors_def Let_def)

lemma cmpr_row_puts:
  assumes colors: "length colors = 4" and room: "level + w * h \<le> length out"
  shows "cmpr_row w h level y x0 colors bits out = Some (puts (cmpr_row_writes w h level y x0 colors bits) out)"
proof -
  have "each (\<lambda>x (bits, out). do {
       out \<leftarrow> (if x0 + x < w \<and> y < h then do {
           c \<leftarrow> rd colors (unat (drop_bit 6 bits AND 3));
           wr out (level + y * w + x0 + x) c }
         else Some out);
       Some (push_bit 2 bits, out) }) [0..<4] (push_bit (2 * 0) bits, out) =
    Some (push_bit (2 * 4) bits, puts (cmpr_row_writes w h level y x0 colors bits) out)"
    unfolding cmpr_row_writes_def
  proof (rule each_state [where g = "\<lambda>i. push_bit (2 * i) bits" and N = "length out"])
    fix x :: nat and o' :: "rgba8 list"
    assume "x < 4" and o': "length o' = length out"
    have next_bits: "push_bit 2 (push_bit (2 * x) bits) = push_bit (2 * Suc x) bits" by (simp add: push_bit_push_bit)
    have "unat (drop_bit 6 (push_bit (2 * x) bits) AND 3) < 4"
      using unat_and_mask_less [of "drop_bit 6 (push_bit (2 * x) bits)" 2] by (simp add: mask_eq_exp_minus_1)
    moreover have "level + y * w + x0 + x < length o'" if "x0 + x < w" "y < h"
      using plane_below [OF that] room o' by simp
    ultimately show "(case (push_bit (2 * x) bits, o') of (bits, out) \<Rightarrow> do {
       out \<leftarrow> (if x0 + x < w \<and> y < h then do {
           c \<leftarrow> rd colors (unat (drop_bit 6 bits AND 3));
           wr out (level + y * w + x0 + x) c }
         else Some out);
       Some (push_bit 2 bits, out) }) = Some (push_bit (2 * Suc x) bits,
         puts (if x0 + x < w \<and> y < h then [(level + y * w + x0 + x, pick_color colors bits x)] else []) o')"
      using colors unfolding next_bits [symmetric] by (simp add: rd_def wr_def pick_color_def)
  qed simp
  then show ?thesis by (simp add: cmpr_row_def)
qed

lemma cmpr_block_puts:
  assumes at: "at + 8 \<le> length data" and room: "level + w * h \<le> length out"
  shows "cmpr_block data w h level y0 x0 (at, out) = Some (at + 8, puts (cmpr_block_writes data w h level y0 x0 at) out)"
proof -
  have "each (\<lambda>y out. do { bits \<leftarrow> rd data (at + 4 + y); cmpr_row w h level (y0 + y) x0 (block_colors data at) bits out }) [0..<4] out =
     Some (puts (cmpr_block_writes data w h level y0 x0 at) out)"
    unfolding cmpr_block_writes_def
    by (rule each_upt_out [where N = "length out"]) (use at room in \<open>simp_all add: rd_def cmpr_row_puts\<close>)
  then show ?thesis using at by (simp add: cmpr_block_def Be16_def rd_def block_colors_def Let_def add.commute numeral_3_eq_3)
qed

lemma cmpr_level_puts:
  assumes at: "at + 32 * blocks w 8 * blocks h 8 \<le> length data" and room: "level + w * h \<le> length out"
  shows "cmpr_level data w h level (at, out) = Some (at + 32 * blocks w 8 * blocks h 8, puts (cmpr_level_writes data w h level at) out)"
  unfolding cmpr_level_def cmpr_level_writes_def blocks_up
proof (rule tile_rows [OF _ at, where N = "length out"])
  fix ty tx i and o' :: "rgba8 list"
  assume i: "i + 32 \<le> length data" and o': "length o' = length out"
  have "each (\<lambda>yb s. each (\<lambda>xb s. cmpr_block data w h level (8 * ty + 4 * yb) (8 * tx + 4 * xb) s) [0..<2] s) [0..<2] (i, o') =
      Some (i + 8 * 2 * 2, puts (cmpr_tile_writes data w h level ty tx i) o')"
    unfolding cmpr_tile_writes_def
    by (rule tile_rows [where N = "length out"]) (use i o' room in \<open>simp_all add: cmpr_block_puts\<close>)
  then show "each (\<lambda>yb s. each (\<lambda>xb s. cmpr_block data w h level (8 * ty + 4 * yb) (8 * tx + 4 * xb) s) [0..<2] s) [0..<2] (i, o') =
      Some (i + 32, puts (cmpr_tile_writes data w h level ty tx i) o')" by simp
qed simp

lemma in_cmpr_tile:
  assumes "yb < 2" "xb < 2" "y < 4" "x < 4" "8 * tx + 4 * xb + x < w" "8 * ty + 4 * yb + y < h"
  shows "(level + (8 * ty + 4 * yb + y) * w + (8 * tx + 4 * xb) + x, pick_color (block_colors data (at + 16 * yb + 8 * xb)) (data ! (at + 16 * yb + 8 * xb + 4 + y)) x)
     \<in> set (cmpr_tile_writes data w h level ty tx at)"
proof -
  have "(level + (8 * ty + 4 * yb + y) * w + (8 * tx + 4 * xb) + x, pick_color (block_colors data (at + 16 * yb + 8 * xb)) (data ! (at + 16 * yb + 8 * xb + 4 + y)) x)
     \<in> set (cmpr_row_writes w h level (8 * ty + 4 * yb + y) (8 * tx + 4 * xb) (block_colors data (at + 16 * yb + 8 * xb)) (data ! (at + 16 * yb + 8 * xb + 4 + y)))"
    unfolding cmpr_row_writes_def in_concat_upt by (rule exI [of _ x]) (use assms in simp)
  then have "(level + (8 * ty + 4 * yb + y) * w + (8 * tx + 4 * xb) + x, pick_color (block_colors data (at + 16 * yb + 8 * xb)) (data ! (at + 16 * yb + 8 * xb + 4 + y)) x)
     \<in> set (cmpr_block_writes data w h level (8 * ty + 4 * yb) (8 * tx + 4 * xb) (at + 16 * yb + 8 * xb))"
    unfolding cmpr_block_writes_def in_concat_upt using assms(3) by blast
  then show ?thesis unfolding cmpr_tile_writes_def in_concat_upt using assms(1,2) by auto
qed

lemma tile_sum: "8 * (Z div 8) + 4 * (Z mod 8 div 4) + Z mod 4 = (Z :: nat)"
proof -
  have "Z mod 8 mod 4 = Z mod 4" by (simp add: mod_mod_cancel)
  then have "4 * (Z mod 8 div 4) + Z mod 4 = Z mod 8" by (metis mult_div_mod_eq)
  moreover have "8 * (Z div 8) + Z mod 8 = Z" by simp
  ultimately show ?thesis by linarith
qed

lemma tile_split:
  assumes "b < 2" "x < 4"
  shows "(8 * t + 4 * b + x) div 8 = t" "(8 * t + 4 * b + x) mod 8 div 4 = b" "(8 * t + 4 * b + x) mod 4 = (x :: nat)"
proof -
  have "b = 0 \<or> b = 1" using assms(1) by auto
  moreover have "(8 * t + (4 + x)) mod 4 = x" using assms(2) by presburger
  moreover have "(8 * t + x) mod 4 = x" using assms(2) by presburger
  ultimately show "(8 * t + 4 * b + x) div 8 = t" "(8 * t + 4 * b + x) mod 8 div 4 = b" "(8 * t + 4 * b + x) mod 4 = x"
    using assms(2) by (auto simp: add.assoc)
qed

lemma set_cmpr_level_writes:
  "set (cmpr_level_writes data w h level at) = {(level + (Y * w + X), cmpr_at data at w X Y) |X Y. X < w \<and> Y < h}" (is "?L = ?R")
proof
  show "?L \<subseteq> ?R"
  proof
    fix e
    assume "e \<in> ?L"
    then obtain ty tx where "e \<in> set (cmpr_tile_writes data w h level ty tx (at + 32 * blocks w 8 * ty + 32 * tx))"
      unfolding cmpr_level_writes_def in_concat_upt by blast
    then obtain yb xb where b: "yb < 2" "xb < 2" and
      "e \<in> set (cmpr_block_writes data w h level (8 * ty + 4 * yb) (8 * tx + 4 * xb) (at + 32 * blocks w 8 * ty + 32 * tx + 8 * 2 * yb + 8 * xb))"
      unfolding cmpr_tile_writes_def in_concat_upt by blast
    moreover define p where "p = at + 32 * blocks w 8 * ty + 32 * tx + 8 * 2 * yb + 8 * xb"
    ultimately obtain y x where yx: "y < 4" "x < 4" and
      "e \<in> set (if 8 * tx + 4 * xb + x < w \<and> 8 * ty + 4 * yb + y < h
         then [(level + (8 * ty + 4 * yb + y) * w + (8 * tx + 4 * xb) + x, pick_color (block_colors data p) (data ! (p + 4 + y)) x)] else [])"
      unfolding cmpr_block_writes_def cmpr_row_writes_def in_concat_upt by blast
    moreover define X where "X = 8 * tx + 4 * xb + x"
    moreover define Y where "Y = 8 * ty + 4 * yb + y"
    ultimately have inside: "X < w" "Y < h" and e: "e = (level + (Y * w + X), pick_color (block_colors data p) (data ! (p + 4 + y)) x)"
      by (auto split: if_splits)
    note split = tile_split [OF b(2) yx(2), of tx, folded X_def] tile_split [OF b(1) yx(1), of ty, folded Y_def]
    have "cmpr_at data at w X Y = pick_color (block_colors data p) (data ! (p + 4 + y)) x"
      by (simp add: cmpr_at_def Let_def p_def split algebra_simps)
    then have "e = (level + (Y * w + X), cmpr_at data at w X Y)" using e by simp
    then show "e \<in> ?R" using inside by blast
  qed
  show "?R \<subseteq> ?L"
  proof
    fix e
    assume "e \<in> ?R"
    then obtain X Y where XY: "X < w" "Y < h" and e: "e = (level + (Y * w + X), cmpr_at data at w X Y)" by blast
    have split: "8 * (Z div 8) + 4 * (Z mod 8 div 4) + Z mod 4 = Z" for Z :: nat by (rule tile_sum)
    have t: "X div 8 < blocks w 8" "Y div 8 < blocks h 8" using XY by (simp_all add: block_of)
    let ?p = "at + 32 * (blocks w 8 * (Y div 8) + X div 8) + 16 * (Y mod 8 div 4) + 8 * (X mod 8 div 4)"
    have "(level + (8 * (Y div 8) + 4 * (Y mod 8 div 4) + Y mod 4) * w + (8 * (X div 8) + 4 * (X mod 8 div 4)) + X mod 4,
        pick_color (block_colors data (at + 32 * blocks w 8 * (Y div 8) + 32 * (X div 8) + 16 * (Y mod 8 div 4) + 8 * (X mod 8 div 4)))
          (data ! (at + 32 * blocks w 8 * (Y div 8) + 32 * (X div 8) + 16 * (Y mod 8 div 4) + 8 * (X mod 8 div 4) + 4 + Y mod 4)) (X mod 4))
       \<in> set (cmpr_tile_writes data w h level (Y div 8) (X div 8) (at + 32 * blocks w 8 * (Y div 8) + 32 * (X div 8)))"
    proof (rule in_cmpr_tile)
      show "Y mod 8 div 4 < 2" "X mod 8 div 4 < 2" "Y mod 4 < 4" "X mod 4 < 4" by (simp_all add: less_mult_imp_div_less)
      show "8 * (X div 8) + 4 * (X mod 8 div 4) + X mod 4 < w" "8 * (Y div 8) + 4 * (Y mod 8 div 4) + Y mod 4 < h"
        unfolding split using XY .
    qed
    moreover have "level + Y * w + (8 * (X div 8) + 4 * (X mod 8 div 4)) + X mod 4 = level + (Y * w + X)" using split [of X] by simp
    ultimately have "e \<in> set (cmpr_tile_writes data w h level (Y div 8) (X div 8) (at + 32 * blocks w 8 * (Y div 8) + 32 * (X div 8)))"
      unfolding e cmpr_at_def Let_def split by (simp add: algebra_simps)
    then show "e \<in> ?L" using t unfolding cmpr_level_writes_def in_concat_upt by blast
  qed
qed

lemma cmpr_level_decodes:
  "level_decoder data (cmpr_level data) 1 (2 ^ 32 - 7) (\<lambda>w h. 32 * blocks w 8 * blocks h 8) (\<lambda>at w X Y. [cmpr_at data at w X Y])"
proof
  fix w h at l :: nat and out :: "rgba8 list"
  assume at: "at + 32 * blocks w 8 * blocks h 8 \<le> length data" and "1 * (l + w * h) \<le> length out"
  then have room: "l + w * h \<le> length out" by simp
  show "\<exists>out'. cmpr_level data w h l (at, out) = Some (at + 32 * blocks w 8 * blocks h 8, out') \<and> length out' = length out \<and>
      (\<forall>X<w. \<forall>Y<h. take 1 (drop (1 * (l + (Y * w + X))) out') = [cmpr_at data at w X Y]) \<and>
      (\<forall>p. p < 1 * l \<or> 1 * (l + w * h) \<le> p \<longrightarrow> out' ! p = out ! p)"
    using cmpr_level_puts [OF at room] plane_cells [OF set_cmpr_level_writes room] by auto
qed

interpretation cmpr: level_decoder data "cmpr_level data" 1 "2 ^ 32 - 7" "\<lambda>w h. 32 * blocks w 8 * blocks h 8" "\<lambda>at w X Y. [cmpr_at data at w X Y]" for data
  by (rule cmpr_level_decodes)

end
