(* ===== verification/Gx_Blocks.thy ===== *)
theory Gx_Blocks
  imports Gx_Cmpr
begin

text \<open>One level of an RGBA8 texture, whose tiles are two halves: alpha and red, then green and blue.\<close>

section \<open>RGBA8\<close>

definition rgba8_at :: "bytes \<Rightarrow> nat \<Rightarrow> nat \<Rightarrow> nat \<Rightarrow> nat \<Rightarrow> bytes" where
  "rgba8_at data at w X Y = (let p = at + 64 * (blocks w 4 * (Y div 4) + X div 4) + 8 * (Y mod 4) + 2 * (X mod 4) in
     [data ! (p + 1), data ! (p + 32), data ! (p + 33), data ! p])"

definition rgba8_writes :: "bytes \<Rightarrow> nat \<Rightarrow> nat \<Rightarrow> nat \<Rightarrow> nat \<Rightarrow> (nat \<times> u8) list" where
  "rgba8_writes data part at x t = [(4 * t + (if part = 0 then 3 else 1), data ! (at + x * 2)), (4 * t + (if part = 0 then 0 else 2), data ! (at + x * 2 + 1))]"

definition rgba8_tile_writes :: "bytes \<Rightarrow> nat \<Rightarrow> nat \<Rightarrow> nat \<Rightarrow> nat \<Rightarrow> nat \<Rightarrow> nat \<Rightarrow> (nat \<times> u8) list" where
  "rgba8_tile_writes data w h level baseY baseX at = concat (map (\<lambda>part. concat (map (\<lambda>y. concat (map (\<lambda>x.
     if w \<le> baseX + x \<or> h \<le> baseY + y then [] else rgba8_writes data part (at + 32 * part + 8 * y) x (level + (baseY + y) * w + baseX + x))
     [0..<4])) [0..<4])) [0..<2])"

definition rgba8_level_writes :: "bytes \<Rightarrow> nat \<Rightarrow> nat \<Rightarrow> nat \<Rightarrow> nat \<Rightarrow> (nat \<times> u8) list" where
  "rgba8_level_writes data w h level at = concat (map (\<lambda>ty. concat (map (\<lambda>tx.
     rgba8_tile_writes data w h level (4 * ty) (4 * tx) (at + 64 * blocks w 4 * ty + 64 * tx)) [0..<blocks w 4])) [0..<blocks h 4])"

lemma rgba8_tile_puts:
  assumes at: "at + 64 \<le> length data" and room: "4 * (level + w * h) \<le> length out"
  shows "rgba8_tile data w h level baseY baseX (at, out) = Some (at + 64, puts (rgba8_tile_writes data w h level baseY baseX at) out)"
proof -
  have "rgba8_tile data w h level baseY baseX (at, out) = Some (at + 32 * 2, puts (rgba8_tile_writes data w h level baseY baseX at) out)"
    unfolding rgba8_tile_def rgba8_tile_writes_def
  proof (rule each_upt [where N = "length out"])
    fix part :: nat and o1 :: bytes
    assume part: "part < 2" and o1: "length o1 = length out"
    let ?at = "at + 32 * part"
    have "each (\<lambda>y (at, out). do {
         out \<leftarrow> each (\<lambda>x out.
           if w \<le> baseX + x \<or> h \<le> baseY + y then Some out
           else rgba8_texel data part at x (level + (baseY + y) * w + baseX + x) out) [0..<4] out;
         Some (at + 8, out) }) [0..<4] (?at, o1) = Some (?at + 8 * 4, puts (concat (map (\<lambda>y. concat (map (\<lambda>x.
         if w \<le> baseX + x \<or> h \<le> baseY + y then [] else rgba8_writes data part (?at + 8 * y) x (level + (baseY + y) * w + baseX + x))
         [0..<4])) [0..<4])) o1)"
    proof (rule each_upt [where N = "length out"])
      fix y :: nat and o2 :: bytes
      assume y: "y < 4" and o2: "length o2 = length out"
      have "each (\<lambda>x out. if w \<le> baseX + x \<or> h \<le> baseY + y then Some out
           else rgba8_texel data part (?at + 8 * y) x (level + (baseY + y) * w + baseX + x) out) [0..<4] o2 =
         Some (puts (concat (map (\<lambda>x.
         if w \<le> baseX + x \<or> h \<le> baseY + y then [] else rgba8_writes data part (?at + 8 * y) x (level + (baseY + y) * w + baseX + x))
         [0..<4])) o2)"
      proof (rule each_upt_out [where N = "length out"])
        fix x :: nat and o3 :: bytes
        assume x: "x < 4" and o3: "length o3 = length out"
        show "(if w \<le> baseX + x \<or> h \<le> baseY + y then Some o3
             else rgba8_texel data part (?at + 8 * y) x (level + (baseY + y) * w + baseX + x) o3) =
           Some (puts (if w \<le> baseX + x \<or> h \<le> baseY + y then [] else rgba8_writes data part (?at + 8 * y) x (level + (baseY + y) * w + baseX + x)) o3)"
        proof (cases "w \<le> baseX + x \<or> h \<le> baseY + y")
          case False
          then have "(baseY + y) * w + (baseX + x) < w * h" by (intro plane_below) simp_all
          then have "4 * (level + (baseY + y) * w + baseX + x) + 3 < length o3" using room o3 by simp
          moreover have "?at + 8 * y + x * 2 + 1 < length data" using at part x y by simp
          ultimately show ?thesis
            using False by (simp add: rgba8_texel_def rgba8_writes_def rd_def wr_def del: mult_Suc)
        qed simp
      qed (rule o2)
      then show "(case (?at + 8 * y, o2) of (at, out) \<Rightarrow> do {
         out \<leftarrow> each (\<lambda>x out.
           if w \<le> baseX + x \<or> h \<le> baseY + y then Some out
           else rgba8_texel data part at x (level + (baseY + y) * w + baseX + x) out) [0..<4] out;
         Some (at + 8, out) }) = Some (?at + 8 * Suc y, puts (concat (map (\<lambda>x.
         if w \<le> baseX + x \<or> h \<le> baseY + y then [] else rgba8_writes data part (?at + 8 * y) x (level + (baseY + y) * w + baseX + x))
         [0..<4])) o2)"
        by simp
    qed (rule o1)
    then show "each (\<lambda>y (at, out). do {
         out \<leftarrow> each (\<lambda>x out.
           if w \<le> baseX + x \<or> h \<le> baseY + y then Some out
           else rgba8_texel data part at x (level + (baseY + y) * w + baseX + x) out) [0..<4] out;
         Some (at + 8, out) }) [0..<4] (?at, o1) = Some (at + 32 * Suc part, puts (concat (map (\<lambda>y. concat (map (\<lambda>x.
         if w \<le> baseX + x \<or> h \<le> baseY + y then [] else rgba8_writes data part (?at + 8 * y) x (level + (baseY + y) * w + baseX + x))
         [0..<4])) [0..<4])) o1)"
      by simp
  qed simp
  then show ?thesis by simp
qed

lemma rgba8_level_puts:
  assumes "at + 64 * blocks w 4 * blocks h 4 \<le> length data" "4 * (level + w * h) \<le> length out"
  shows "rgba8_level data w h level (at, out) = Some (at + 64 * blocks w 4 * blocks h 4, puts (rgba8_level_writes data w h level at) out)"
  unfolding rgba8_level_def rgba8_level_writes_def blocks_up
  by (rule tile_rows [OF _ assms(1), where N = "length out"]) (use rgba8_tile_puts assms(2) in simp_all)

lemma rgba8_tile_writesI:
  assumes "part < 2" "y < 4" "x < 4" "baseX + x < w" "baseY + y < h"
    "e \<in> set (rgba8_writes data part (at + 32 * part + 8 * y) x (level + (baseY + y) * w + baseX + x))"
  shows "e \<in> set (rgba8_tile_writes data w h level baseY baseX at)"
  unfolding rgba8_tile_writes_def in_concat_upt
  by (rule exI [of _ part], rule conjI, rule assms(1), rule exI [of _ y], rule conjI, rule assms(2), rule exI [of _ x])
    (use assms in simp)

lemma set_rgba8_level_writes:
  "set (rgba8_level_writes data w h level at) = {(4 * level + (Y * (4 * w) + X), rgba8_at data at w (X div 4) Y ! (X mod 4)) |X Y. X < 4 * w \<and> Y < h}"
    (is "?L = ?R")
proof
  show "?L \<subseteq> ?R"
  proof
    fix e
    assume "e \<in> ?L"
    then obtain ty tx where
      "e \<in> set (rgba8_tile_writes data w h level (4 * ty) (4 * tx) (at + 64 * blocks w 4 * ty + 64 * tx))"
      unfolding rgba8_level_writes_def by auto
    then obtain part y x where "part < 2" "y < 4" "x < 4" and
      "e \<in> set (if w \<le> 4 * tx + x \<or> h \<le> 4 * ty + y then [] else
        rgba8_writes data part (at + 64 * blocks w 4 * ty + 64 * tx + 32 * part + 8 * y) x (level + (4 * ty + y) * w + 4 * tx + x))"
      unfolding rgba8_tile_writes_def in_concat_upt by blast
    then have i: "part < 2" "y < 4" "x < 4" "4 * tx + x < w" "4 * ty + y < h" and
      e: "e \<in> set (rgba8_writes data part (at + 64 * blocks w 4 * ty + 64 * tx + 32 * part + 8 * y) x (level + (4 * ty + y) * w + 4 * tx + x))"
      by (auto split: if_splits)
    let ?X = "4 * tx + x" and ?Y = "4 * ty + y"
    let ?p = "at + 64 * blocks w 4 * ty + 64 * tx + 8 * y + 2 * x"
    have part: "part = 0 \<or> part = 1" using i(1) by auto
    have bytes: "rgba8_at data at w ?X ?Y = [data ! (?p + 1), data ! (?p + 32), data ! (?p + 33), data ! ?p]"
      using i(2,3) by (simp add: rgba8_at_def Let_def algebra_simps)
    have place: "4 * level + (?Y * (4 * w) + (4 * ?X + c)) = 4 * (level + ?Y * w + 4 * tx + x) + c" for c by (simp add: algebra_simps)
    have "\<exists>c<4. e = (4 * (level + ?Y * w + 4 * tx + x) + c, rgba8_at data at w ?X ?Y ! c)"
      using part e unfolding bytes rgba8_writes_def
      by (auto simp: ac_simps intro: exI [of _ 0] exI [of _ 1] exI [of _ 2] exI [of _ 3])
    then obtain c where "c < 4" "e = (4 * level + (?Y * (4 * w) + (4 * ?X + c)), rgba8_at data at w ?X ?Y ! c)"
      unfolding place by blast
    moreover have "\<exists>X' Y'. (4 * level + (Y * (4 * w) + (4 * X + c)), rgba8_at data at w X Y ! c) =
        (4 * level + (Y' * (4 * w) + X'), rgba8_at data at w (X' div 4) Y' ! (X' mod 4)) \<and> X' < 4 * w \<and> Y' < h"
      if "c < 4" "X < w" "Y < h" for c X Y
      using that by (intro exI [of _ "4 * X + c"] exI [of _ Y]) simp
    ultimately show "e \<in> ?R" using i(4,5) by blast
  qed
  show "?R \<subseteq> ?L"
  proof
    fix e
    assume "e \<in> ?R"
    then obtain X Y where XY: "X < 4 * w" "Y < h" and e: "e = (4 * level + (Y * (4 * w) + X), rgba8_at data at w (X div 4) Y ! (X mod 4))" by blast
    define Z where "Z = X div 4"
    define c where "c = X mod 4"
    have Z: "Z < w" "X = 4 * Z + c" "c < 4" using XY(1) by (simp_all add: Z_def c_def)
    let ?tx = "Z div 4" and ?ty = "Y div 4" and ?x = "Z mod 4" and ?y = "Y mod 4"
    let ?part = "if c = 0 \<or> c = 3 then 0 else 1 :: nat"
    have sum: "4 * ?tx + ?x = Z" "4 * ?ty + ?y = Y" by simp_all
    have t: "?tx < blocks w 4" "?ty < blocks h 4" using Z(1) XY(2) by (simp_all add: block_of)
    have "e \<in> set (rgba8_writes data ?part (at + 64 * blocks w 4 * ?ty + 64 * ?tx + 32 * ?part + 8 * ?y) ?x (level + (4 * ?ty + ?y) * w + 4 * ?tx + ?x))"
    proof -
      have cases: "c = 0 \<or> c = 1 \<or> c = 2 \<or> c = 3" using Z(3) by auto
      have place: "4 * level + (Y * (4 * w) + (4 * Z + c)) = 4 * (level + Y * w + Z) + c" by (simp add: algebra_simps)
      have "level + (4 * ?ty + ?y) * w + 4 * ?tx + ?x = level + Y * w + Z" using sum by (simp add: add.assoc)
      then show ?thesis
        unfolding e Z(2) place using cases Z(3)
        by (auto simp: rgba8_writes_def rgba8_at_def Let_def algebra_simps)
    qed
    then have "e \<in> set (rgba8_tile_writes data w h level (4 * ?ty) (4 * ?tx) (at + 64 * blocks w 4 * ?ty + 64 * ?tx))"
      by (rule rgba8_tile_writesI [rotated -1]) (use sum Z(1) XY(2) in simp_all)
    then show "e \<in> ?L" using t unfolding rgba8_level_writes_def in_concat_upt by blast
  qed
qed

lemma rgba8_level_decodes:
  "level_decoder data (rgba8_level data) 4 (2 ^ 32 - 7) (\<lambda>w h. 64 * blocks w 4 * blocks h 4) (rgba8_at data)"
proof
  fix w h at l :: nat and out :: bytes
  assume at: "at + 64 * blocks w 4 * blocks h 4 \<le> length data" and room: "4 * (l + w * h) \<le> length out"
  define out' where "out' = puts (rgba8_level_writes data w h l at) out"
  have room': "4 * l + 4 * w * h \<le> length out" using room by (simp add: algebra_simps)
  have len: "length out' = length out" by (simp add: out'_def)
  have "take 4 (drop (4 * (l + (Y * w + X))) out') = rgba8_at data at w X Y" if "X < w" "Y < h" for X Y
  proof -
    have "Suc (Y * w + X) \<le> w * h" using plane_below [OF that] by simp
    then have inside: "4 * (l + (Y * w + X)) + 4 \<le> length out'" using room len by simp
    have cell: "out' ! (4 * (l + (Y * w + X)) + c) = rgba8_at data at w X Y ! c" if "c < 4" for c
      using puts_plane(1) [OF set_rgba8_level_writes, of l w h out "4 * X + c" Y data at] room' \<open>X < w\<close> \<open>Y < h\<close> that
      by (simp add: out'_def algebra_simps)
    show ?thesis
    proof (rule nth_equalityI)
      show "length (take 4 (drop (4 * (l + (Y * w + X))) out')) = length (rgba8_at data at w X Y)" using inside by (simp add: rgba8_at_def Let_def)
      show "take 4 (drop (4 * (l + (Y * w + X))) out') ! i = rgba8_at data at w X Y ! i"
        if "i < length (take 4 (drop (4 * (l + (Y * w + X))) out'))" for i
        using that cell [of i] inside by simp
    qed
  qed
  moreover have "out' ! p = out ! p" if "p < 4 * l \<or> 4 * (l + w * h) \<le> p" for p
    unfolding out'_def by (rule puts_plane(2) [OF set_rgba8_level_writes room']) (use that in \<open>auto simp: algebra_simps\<close>)
  ultimately show "\<exists>out'. rgba8_level data w h l (at, out) = Some (at + 64 * blocks w 4 * blocks h 4, out') \<and>
      length out' = length out \<and> (\<forall>X<w. \<forall>Y<h. take 4 (drop (4 * (l + (Y * w + X))) out') = rgba8_at data at w X Y) \<and>
      (\<forall>p. p < 4 * l \<or> 4 * (l + w * h) \<le> p \<longrightarrow> out' ! p = out ! p)"
    using rgba8_level_puts [OF at room] len unfolding out'_def by blast
qed

interpretation rgba8: level_decoder data "rgba8_level data" 4 "2 ^ 32 - 7" "\<lambda>w h. 64 * blocks w 4 * blocks h 4" "rgba8_at data" for data
  by (rule rgba8_level_decodes)

end
