(* ===== verification/Gx_Decode.thy ===== *)
theory Gx_Decode
  imports Gx_Blocks
begin

text \<open>
  Whole textures: the formats of the code keep the promises of \<open>tile_decoder\<close>, so every texel of every level is the
  one its tile holds for it, and a paletted texture is its indices looked up in its palette.
\<close>

section \<open>The decoders of the code\<close>

lemmas decoders = DecodeI4_def DecodeI8_def DecodeIA4_def DecodeIA8_def DecodeRGB565_def DecodeRGB5A3_def DecodeC4_def DecodeC8_def DecodeC14X2_def
  TexelIA8_def TexelRGB565_def TexelRGB5A3_def row_bytes_def

lemma nibble_reads: "x < 8 \<Longrightarrow> at + 4 \<le> length data \<Longrightarrow> \<exists>n. nibble data at x = Some n"
  by (auto simp: nibble_def rd_def)

lemma Be16_reads: "at + 2 \<le> length data \<Longrightarrow> \<exists>v. Be16 data at = Some v"
  by (simp add: Be16_def rd_def)

text \<open>Eight texels at once, with two vectors of eight bytes, and one after the other.\<close>

lemma RowI4_texels:
  assumes "at + 4 \<le> length data"
  shows "\<exists>ts. RowI4 data at = Some ts \<and> length ts = 8 \<and> (\<forall>x<8. Texel DecodeI4 data at x = Some (ts ! x))"
proof -
  have four: "take 4 (drop at data) = [data ! at, data ! (at + 1), data ! (at + 2), data ! (at + 3)]"
    using assms by (intro nth_equalityI) (auto simp: less_Suc_eq numeral_eq_Suc nth_Cons split: nat.split)
  have even: "drop_bit 4 b AND 0xF = drop_bit 4 b" for b :: u8
  proof -
    have mask: "(0xF :: u8) = mask 4" by (simp add: mask_eq_exp_minus_1)
    show ?thesis unfolding mask by (rule bit_word_eqI) (auto simp: bit_simps dest: bit_imp_le_length)
  qed
  have zip: "vzip_low (map (drop_bit 4) ([a, b, c, e] @ [a, b, c, e])) (map (\<lambda>b. b AND 0x0F) ([a, b, c, e] @ [a, b, c, e])) =
      [drop_bit 4 a, a AND 0x0F, drop_bit 4 b, b AND 0x0F, drop_bit 4 c, c AND 0x0F, drop_bit 4 e, e AND 0x0F]" for a b c e :: u8
    by (simp add: vzip_low_def)
  have row: "RowI4 data at = Some (map (\<lambda>z. grey (push_bit 4 z OR z))
      [drop_bit 4 (data ! at), data ! at AND 0x0F, drop_bit 4 (data ! (at + 1)), data ! (at + 1) AND 0x0F,
       drop_bit 4 (data ! (at + 2)), data ! (at + 2) AND 0x0F, drop_bit 4 (data ! (at + 3)), data ! (at + 3) AND 0x0F])"
    using assms unfolding RowI4_def getn_def Let_def by (simp only: if_True four zip bind.bind_lunit)
  have high: "Texel DecodeI4 data at (2 * i) = Some (grey (push_bit 4 (drop_bit 4 (data ! (at + i))) OR drop_bit 4 (data ! (at + i))))"
    and low: "Texel DecodeI4 data at (2 * i + 1) = Some (grey (push_bit 4 (data ! (at + i) AND 0xF) OR (data ! (at + i) AND 0xF)))" if "i < 4" for i
  proof -
    have "nibble data at (2 * i) = Some (drop_bit 4 (data ! (at + i)))" "nibble data at (2 * i + 1) = Some (data ! (at + i) AND 0xF)"
      using assms that by (simp_all add: nibble_def rd_def even)
    moreover have "ExpandTo8 4 n = push_bit 4 n OR n" for n by (simp add: ExpandTo8_def)
    ultimately show "Texel DecodeI4 data at (2 * i) = Some (grey (push_bit 4 (drop_bit 4 (data ! (at + i))) OR drop_bit 4 (data ! (at + i))))"
      "Texel DecodeI4 data at (2 * i + 1) = Some (grey (push_bit 4 (data ! (at + i) AND 0xF) OR (data ! (at + i) AND 0xF)))"
      by (simp_all only: DecodeI4_def decoder.simps bind.bind_lunit)
  qed
  have "x = 2 * 0 \<or> x = 2 * 0 + 1 \<or> x = 2 * 1 \<or> x = 2 * 1 + 1 \<or> x = 2 * 2 \<or> x = 2 * 2 + 1 \<or> x = 2 * 3 \<or> x = 2 * 3 + 1" if "x < 8" for x :: nat
    using that by arith
  then have "Texel DecodeI4 data at x = Some (map (\<lambda>z. grey (push_bit 4 z OR z))
      [drop_bit 4 (data ! at), data ! at AND 0x0F, drop_bit 4 (data ! (at + 1)), data ! (at + 1) AND 0x0F,
       drop_bit 4 (data ! (at + 2)), data ! (at + 2) AND 0x0F, drop_bit 4 (data ! (at + 3)), data ! (at + 3) AND 0x0F] ! x)" if "x < 8" for x
    using that high [of 0] high [of 1] high [of 2] high [of 3] low [of 0] low [of 1] low [of 2] low [of 3] by fastforce
  then show ?thesis unfolding row by simp
qed

interpretation i4: tile_decoder DecodeI4
proof
  show "\<exists>t. Texel DecodeI4 data at x = Some t" if "x < BlockWidth DecodeI4" "at + row_bytes DecodeI4 \<le> length data" for x at data
    using nibble_reads [of x at data] that by (auto simp: decoders)
  show "\<exists>ts. f data at = Some ts \<and> length ts = 8 \<and> (\<forall>x<8. Texel DecodeI4 data at x = Some (ts ! x))"
    if "Row DecodeI4 = Some f" "at + row_bytes DecodeI4 \<le> length data" for f at data
    using RowI4_texels [of at data] that by (simp add: DecodeI4_def row_bytes_def)
qed (simp_all add: DecodeI4_def)

interpretation i8: tile_decoder DecodeI8
proof
  show "\<exists>ts. f data at = Some ts \<and> length ts = 8 \<and> (\<forall>x<8. Texel DecodeI8 data at x = Some (ts ! x))"
    if "Row DecodeI8 = Some f" "at + row_bytes DecodeI8 \<le> length data" for f at data
    using that by (auto simp: decoders RowI8_def getn_def rd_def)
qed (auto simp: decoders rd_def)

interpretation ia4: tile_decoder DecodeIA4
  by unfold_locales (auto simp: decoders rd_def Let_def)

interpretation ia8: tile_decoder DecodeIA8
  by unfold_locales (auto simp: decoders rd_def)

interpretation rgb565: tile_decoder DecodeRGB565
  by unfold_locales (auto simp: decoders Be16_def rd_def)

interpretation rgb5a3: tile_decoder DecodeRGB5A3
  by unfold_locales (auto simp: decoders Be16_def rd_def)

interpretation c8: tile_decoder DecodeC8
  by unfold_locales (auto simp: decoders rd_def)

interpretation c14x2: tile_decoder DecodeC14X2
  by unfold_locales (auto simp: decoders Be16_def rd_def)

interpretation c4: tile_decoder DecodeC4
proof
  show "\<exists>t. Texel DecodeC4 data at x = Some t" if "x < BlockWidth DecodeC4" "at + row_bytes DecodeC4 \<le> length data" for x at data
    using nibble_reads [of x at data] that by (auto simp: decoders)
qed (simp_all add: DecodeC4_def)

section \<open>Sizes\<close>

definition level_bytes :: "nat \<times> nat \<times> nat \<Rightarrow> nat \<Rightarrow> nat \<Rightarrow> nat" where
  "level_bytes t w h = (let (bw, bh, bytes) = t in blocks w bw * blocks h bh * bytes)"

lemma data_size_before: "data_size n t w h acc = 0 \<or> data_size n t w h acc = acc + before (level_bytes t) n w h"
proof (induction n arbitrary: w h acc)
  case (Suc n)
  obtain bw bh b where t: "t = (bw, bh, b)" by (cases t)
  show ?case
    using Suc [of "half w" "half h" "acc + blocks w bw * blocks h bh * b"]
    by (auto simp: t level_bytes_def blocks_def Let_def add.assoc)
qed simp

lemma TextureDataSize_before:
  assumes "TextureDataSize format w h mips \<noteq> 0"
  obtains t where "TilingOf format = Some t" "TextureDataSize format w h mips = before (level_bytes t) mips w h" "0 < w" "0 < h" "0 < mips"
proof -
  obtain t where t: "TilingOf format = Some t" "TextureDataSize format w h mips = data_size mips t w h 0" "0 < w" "0 < h" "0 < mips"
    using assms by (auto simp: TextureDataSize_def split: if_splits option.splits)
  then have "TextureDataSize format w h mips = before (level_bytes t) mips w h" using assms data_size_before [of mips t w h 0] by auto
  then show thesis using that t by blast
qed

lemma mipped_before: "mipped_texels i w h n = n + before (*) i (half w) (half h)"
  by (induction i arbitrary: w h n) simp_all

lemma MippedTexels_before: "0 < mips \<Longrightarrow> MippedTexels w h mips = before (*) mips w h"
  by (cases mips) (simp_all add: MippedTexels_def mipped_before)

lemma texel_index: "m < mips \<Longrightarrow> X < mip m w \<Longrightarrow> Y < mip m h \<Longrightarrow> before (*) m w h + (Y * mip m w + X) < before (*) mips w h"
proof -
  assume a: "m < mips" "X < mip m w" "Y < mip m h"
  have "before (*) m w h + (Y * mip m w + X) < before (*) (Suc m) w h" using plane_below [OF a(2,3)] by (simp add: before_Suc del: before.simps)
  also have "\<dots> \<le> before (*) mips w h" using a(1) by (intro before_mono) simp
  finally show ?thesis .
qed

section \<open>Tiled textures\<close>

context tile_decoder
begin

lemma DecodeTiled_texels:
  assumes w: "0 < w" "w + 7 < 2 ^ 32" and h: "0 < h" "h + 7 < 2 ^ 32" and mips: "0 < mips"
    and data: "before (level_bytes (BlockWidth d, BlockHeight d, tile_bytes d)) mips w h \<le> length data"
  shows "\<exists>out. DecodeTiled d zero w h mips data = Some out \<and> length out = MippedTexels w h mips \<and>
    (\<forall>m<mips. \<forall>X<mip m w. \<forall>Y<mip m h. out ! (before (*) m w h + (Y * mip m w + X)) =
       texel_at d data (before (level_bytes (BlockWidth d, BlockHeight d, tile_bytes d)) m w h) (mip m w) X Y)"
proof -
  have sizes: "(\<lambda>w h. tile_bytes d * blocks w (BlockWidth d) * blocks h (BlockHeight d)) = level_bytes (BlockWidth d, BlockHeight d, tile_bytes d)"
    by (simp add: level_bytes_def fun_eq_iff ac_simps)
  note levels = tiled.levels [unfolded sizes, of w h 0 mips data 0 "replicate (MippedTexels w h mips) zero"]
  obtain out where out: "each_level mips (tiled_level d data) w h 0 (0, replicate (MippedTexels w h mips) zero) =
       Some (before (level_bytes (BlockWidth d, BlockHeight d, tile_bytes d)) mips w h, out)" "length out = MippedTexels w h mips"
    "\<forall>m<mips. \<forall>X<mip m w. \<forall>Y<mip m h. take 1 (drop (before (*) m w h + (Y * mip m w + X)) out) =
       [texel_at d data (before (level_bytes (BlockWidth d, BlockHeight d, tile_bytes d)) m w h) (mip m w) X Y]"
    using levels assms by (auto simp: MippedTexels_before)
  have "out ! (before (*) m w h + (Y * mip m w + X)) =
      texel_at d data (before (level_bytes (BlockWidth d, BlockHeight d, tile_bytes d)) m w h) (mip m w) X Y"
    if "m < mips" "X < mip m w" "Y < mip m h" for m X Y
  proof -
    have "take 1 (drop (before (*) m w h + (Y * mip m w + X)) out) = [out ! (before (*) m w h + (Y * mip m w + X))]"
      using texel_index [OF that] out(2) mips by (simp add: take_Suc hd_drop_conv_nth MippedTexels_before)
    then show ?thesis using out(3) that by (metis list.inject)
  qed
  then show ?thesis using out(1,2) by (simp add: DecodeTiled_def)
qed

end

text \<open>The bytes of a list of texels.\<close>

lemma Bytes_simps [simp]: "Bytes [] = []" "Bytes (t # ts) = rgba_bytes t @ Bytes ts"
  by (simp_all add: Bytes_def)

lemma length_rgba_bytes [simp]: "length (rgba_bytes t) = 4"
  by (simp add: rgba_bytes_def)

lemma length_Bytes [simp]: "length (Bytes ts) = 4 * length ts"
  by (induction ts) simp_all

lemma Bytes_nth: "i < length ts \<Longrightarrow> take 4 (drop (4 * i) (Bytes ts)) = rgba_bytes (ts ! i)"
proof (induction ts arbitrary: i)
  case (Cons t ts)
  then show ?case by (cases i) simp_all
qed simp

end
