(* ===== verification/Gx_Textures.thy ===== *)
theory Gx_Textures
  imports Gx_Decode
begin

text \<open>
  What the entry points of src/format/gx/texture.cpp give: the texels of a texture in every format, through a palette or
  without. The place of a texel among the tiles is the specification; the decoders go through the input once, from front
  to back, and never leave it.
\<close>

text \<open>The four bytes of a texel of a level that starts at a place of the data.\<close>

definition texel_bytes :: "TexFormat \<Rightarrow> bytes \<Rightarrow> nat \<Rightarrow> nat \<Rightarrow> nat \<Rightarrow> nat \<Rightarrow> bytes" where
  "texel_bytes format data at w X Y = (case format of
     I4 \<Rightarrow> rgba_bytes (texel_at DecodeI4 data at w X Y)
   | I8 \<Rightarrow> rgba_bytes (texel_at DecodeI8 data at w X Y) | Z8 \<Rightarrow> rgba_bytes (texel_at DecodeI8 data at w X Y)
   | IA4 \<Rightarrow> rgba_bytes (texel_at DecodeIA4 data at w X Y)
   | IA8 \<Rightarrow> rgba_bytes (texel_at DecodeIA8 data at w X Y) | Z16 \<Rightarrow> rgba_bytes (texel_at DecodeIA8 data at w X Y)
   | RGB565 \<Rightarrow> rgba_bytes (texel_at DecodeRGB565 data at w X Y)
   | RGB5A3 \<Rightarrow> rgba_bytes (texel_at DecodeRGB5A3 data at w X Y)
   | RGBA8 \<Rightarrow> rgba8_at data at w X Y | Z24X8 \<Rightarrow> rgba8_at data at w X Y
   | CMPR \<Rightarrow> rgba_bytes (cmpr_at data at w X Y)
   | _ \<Rightarrow> [])"

lemma texel_fun: "texel_bytes format data = (case format of
     I4 \<Rightarrow> (\<lambda>at w X Y. rgba_bytes (texel_at DecodeI4 data at w X Y))
   | I8 \<Rightarrow> (\<lambda>at w X Y. rgba_bytes (texel_at DecodeI8 data at w X Y)) | Z8 \<Rightarrow> (\<lambda>at w X Y. rgba_bytes (texel_at DecodeI8 data at w X Y))
   | IA4 \<Rightarrow> (\<lambda>at w X Y. rgba_bytes (texel_at DecodeIA4 data at w X Y))
   | IA8 \<Rightarrow> (\<lambda>at w X Y. rgba_bytes (texel_at DecodeIA8 data at w X Y)) | Z16 \<Rightarrow> (\<lambda>at w X Y. rgba_bytes (texel_at DecodeIA8 data at w X Y))
   | RGB565 \<Rightarrow> (\<lambda>at w X Y. rgba_bytes (texel_at DecodeRGB565 data at w X Y))
   | RGB5A3 \<Rightarrow> (\<lambda>at w X Y. rgba_bytes (texel_at DecodeRGB5A3 data at w X Y))
   | RGBA8 \<Rightarrow> rgba8_at data | Z24X8 \<Rightarrow> rgba8_at data
   | CMPR \<Rightarrow> (\<lambda>at w X Y. rgba_bytes (cmpr_at data at w X Y))
   | _ \<Rightarrow> (\<lambda>at w X Y. []))"
  by (cases format) (simp_all add: texel_bytes_def fun_eq_iff)

text \<open>A whole texture, as bytes: every level where it belongs.\<close>

definition texture_ok :: "(nat \<Rightarrow> nat \<Rightarrow> nat \<Rightarrow> nat \<Rightarrow> bytes) \<Rightarrow> (nat \<Rightarrow> nat \<Rightarrow> nat) \<Rightarrow> nat \<Rightarrow> nat \<Rightarrow> nat \<Rightarrow> bytes \<Rightarrow> bool" where
  "texture_ok texel size_of w h mips out \<longleftrightarrow> length out = 4 * MippedTexels w h mips \<and>
     (\<forall>m<mips. \<forall>X<mip m w. \<forall>Y<mip m h.
        take 4 (drop (4 * (before (*) m w h + (Y * mip m w + X))) out) = texel (before size_of m w h) (mip m w) X Y)"

lemma Bytes_texture:
  assumes out: "length out = MippedTexels w h mips" "0 < mips"
    and texels: "\<forall>m<mips. \<forall>X<mip m w. \<forall>Y<mip m h. out ! (before (*) m w h + (Y * mip m w + X)) = texel (before size_of m w h) (mip m w) X Y"
  shows "texture_ok (\<lambda>at w X Y. rgba_bytes (texel at w X Y)) size_of w h mips (Bytes out)"
proof -
  have "take 4 (drop (4 * (before (*) m w h + (Y * mip m w + X))) (Bytes out)) = rgba_bytes (texel (before size_of m w h) (mip m w) X Y)"
    if "m < mips" "X < mip m w" "Y < mip m h" for m X Y
    using Bytes_nth [of "before (*) m w h + (Y * mip m w + X)" out] texel_index [OF that] out texels that by (simp add: MippedTexels_before)
  then show ?thesis using out(1) by (simp add: texture_ok_def)
qed

lemma cmpr_texture:
  assumes "0 < w" "w + 7 < 2 ^ 32" "0 < h" "h + 7 < 2 ^ 32" "0 < mips" "before (level_bytes (8, 8, 32)) mips w h \<le> length data"
  shows "\<exists>out. DecodeCMPR w h mips data = Some out \<and> texture_ok (\<lambda>at w X Y. rgba_bytes (cmpr_at data at w X Y)) (level_bytes (8, 8, 32)) w h mips (Bytes out)"
proof -
  have sizes: "(\<lambda>w h. 32 * blocks w 8 * blocks h 8) = level_bytes (8, 8, 32)" by (simp add: level_bytes_def fun_eq_iff)
  obtain out where out: "each_level mips (cmpr_level data) w h 0 (0, replicate (MippedTexels w h mips) (Rgba 0 0 0 0)) =
      Some (before (level_bytes (8, 8, 32)) mips w h, out)" "length out = MippedTexels w h mips"
    "\<forall>m<mips. \<forall>X<mip m w. \<forall>Y<mip m h. take 1 (drop (before (*) m w h + (Y * mip m w + X)) out) =
       [cmpr_at data (before (level_bytes (8, 8, 32)) m w h) (mip m w) X Y]"
    using cmpr.levels [unfolded sizes, of w h 0 mips data 0 "replicate (MippedTexels w h mips) (Rgba 0 0 0 0)"] assms
    by (auto simp: MippedTexels_before)
  have "out ! (before (*) m w h + (Y * mip m w + X)) = cmpr_at data (before (level_bytes (8, 8, 32)) m w h) (mip m w) X Y"
    if "m < mips" "X < mip m w" "Y < mip m h" for m X Y
  proof -
    have "take 1 (drop (before (*) m w h + (Y * mip m w + X)) out) = [out ! (before (*) m w h + (Y * mip m w + X))]"
      using texel_index [OF that] out(2) assms(5) by (simp add: take_Suc hd_drop_conv_nth MippedTexels_before)
    then show ?thesis using out(3) that by (metis list.inject)
  qed
  then have "texture_ok (\<lambda>at w X Y. rgba_bytes (cmpr_at data at w X Y)) (level_bytes (8, 8, 32)) w h mips (Bytes out)"
    using out(2) assms(5) by (intro Bytes_texture) auto
  then show ?thesis using out(1) by (simp add: DecodeCMPR_def)
qed

lemma rgba8_texture:
  assumes "0 < w" "w + 7 < 2 ^ 32" "0 < h" "h + 7 < 2 ^ 32" "0 < mips" "before (level_bytes (4, 4, 64)) mips w h \<le> length data"
  shows "\<exists>out. DecodeRGBA8 w h mips data = Some out \<and> texture_ok (rgba8_at data) (level_bytes (4, 4, 64)) w h mips out"
proof -
  have sizes: "(\<lambda>w h. 64 * blocks w 4 * blocks h 4) = level_bytes (4, 4, 64)" by (simp add: level_bytes_def fun_eq_iff)
  obtain out where "each_level mips (rgba8_level data) w h 0 (0, replicate (4 * MippedTexels w h mips) 0) =
      Some (before (level_bytes (4, 4, 64)) mips w h, out)" "length out = 4 * MippedTexels w h mips"
    "\<forall>m<mips. \<forall>X<mip m w. \<forall>Y<mip m h. take 4 (drop (4 * (before (*) m w h + (Y * mip m w + X))) out) =
       rgba8_at data (before (level_bytes (4, 4, 64)) m w h) (mip m w) X Y"
    using rgba8.levels [unfolded sizes, of w h 0 mips data 0 "replicate (4 * MippedTexels w h mips) 0"] assms
    by (auto simp: MippedTexels_before)
  then show ?thesis by (simp add: DecodeRGBA8_def texture_ok_def)
qed

lemma tiling_sizes:
  "level_bytes (BlockWidth DecodeI4, BlockHeight DecodeI4, tile_bytes DecodeI4) = level_bytes (8, 8, 32)"
  "level_bytes (BlockWidth DecodeI8, BlockHeight DecodeI8, tile_bytes DecodeI8) = level_bytes (8, 4, 32)"
  "level_bytes (BlockWidth DecodeIA4, BlockHeight DecodeIA4, tile_bytes DecodeIA4) = level_bytes (8, 4, 32)"
  "level_bytes (BlockWidth DecodeIA8, BlockHeight DecodeIA8, tile_bytes DecodeIA8) = level_bytes (4, 4, 32)"
  "level_bytes (BlockWidth DecodeRGB565, BlockHeight DecodeRGB565, tile_bytes DecodeRGB565) = level_bytes (4, 4, 32)"
  "level_bytes (BlockWidth DecodeRGB5A3, BlockHeight DecodeRGB5A3, tile_bytes DecodeRGB5A3) = level_bytes (4, 4, 32)"
  "level_bytes (BlockWidth DecodeC4, BlockHeight DecodeC4, tile_bytes DecodeC4) = level_bytes (8, 8, 32)"
  "level_bytes (BlockWidth DecodeC8, BlockHeight DecodeC8, tile_bytes DecodeC8) = level_bytes (8, 4, 32)"
  "level_bytes (BlockWidth DecodeC14X2, BlockHeight DecodeC14X2, tile_bytes DecodeC14X2) = level_bytes (4, 4, 32)"
  by (simp_all add: decoders tile_bytes_def)

lemma map_Bytes_texture:
  assumes "\<exists>out. D = Some out \<and> length out = MippedTexels w h mips \<and>
    (\<forall>m<mips. \<forall>X<mip m w. \<forall>Y<mip m h. out ! (before (*) m w h + (Y * mip m w + X)) = texel (before size_of m w h) (mip m w) X Y)" "0 < mips"
  shows "\<exists>out. map_option Bytes D = Some out \<and> texture_ok (\<lambda>at w X Y. rgba_bytes (texel at w X Y)) size_of w h mips out"
  using assms Bytes_texture [of _ w h mips texel size_of] by auto

lemma DecodeTexture_RGB5A3:
  assumes data: "TextureDataSize RGB5A3 w h 1 \<noteq> 0" "TextureDataSize RGB5A3 w h 1 \<le> length data" and "w + 7 < 2 ^ 32" "h + 7 < 2 ^ 32"
  shows "\<exists>out. DecodeTexture RGB5A3 w h 1 data = Some out \<and> length out = 4 * (w * h) \<and>
    (\<forall>X<w. \<forall>Y<h. take 4 (drop (4 * (Y * w + X)) out) = rgba_bytes (texel_at DecodeRGB5A3 data 0 w X Y))"
proof -
  obtain t where t: "TilingOf RGB5A3 = Some t" "TextureDataSize RGB5A3 w h 1 = before (level_bytes t) 1 w h" "0 < w" "0 < h"
    using TextureDataSize_before [OF data(1)] by metis
  have "before (level_bytes (4, 4, 32)) 1 w h \<le> length data" using t(1,2) data(2) by (simp add: TilingOf_def)
  with map_Bytes_texture [OF rgb5a3.DecodeTiled_texels [where data = data and zero = "Rgba 0 0 0 0" and mips = 1, unfolded tiling_sizes, OF t(3) assms(3) t(4) assms(4)]]
  have "\<exists>out. DecodeTexture RGB5A3 w h 1 data = Some out \<and>
      texture_ok (\<lambda>at w X Y. rgba_bytes (texel_at DecodeRGB5A3 data at w X Y)) (level_bytes (4, 4, 32)) w h 1 out"
    using data by (simp add: DecodeTexture_def IsPaletted_def del: map_option_eq_Some)
  then show ?thesis by (auto simp: texture_ok_def MippedTexels_def)
qed

text \<open>C19: A texture that is long enough decodes, in each of the formats without a palette, without a read outside the data:
  the result holds every texel of every level, at its place, with the colour that the tile it lies in has for it, the
  levels one after the other in the data and in the result.\<close>

lemma DecodeTexture_texels:
  assumes "TextureDataSize format w h mips \<noteq> 0" "TextureDataSize format w h mips \<le> length data" "\<not> IsPaletted format"
    "w + 7 < 2 ^ 32" "h + 7 < 2 ^ 32" "TilingOf format = Some t"
  shows "\<exists>out. DecodeTexture format w h mips data = Some out \<and> length out = 4 * MippedTexels w h mips \<and>
    (\<forall>m<mips. \<forall>X<mip m w. \<forall>Y<mip m h. take 4 (drop (4 * (before (*) m w h + (Y * mip m w + X))) out) =
       texel_bytes format data (before (level_bytes t) m w h) (mip m w) X Y)"
proof -
  from TextureDataSize_before [OF assms(1)] assms(6) have sizes: "TextureDataSize format w h mips = before (level_bytes t) mips w h"
    "0 < w" "0 < h" "0 < mips" by (metis option.inject)+
  note args = sizes(2) assms(4) sizes(3) assms(5) sizes(4)
  have long: "before (level_bytes t) mips w h \<le> length data" using assms(2) sizes(1) by simp
  note tiled = map_Bytes_texture [OF i4.DecodeTiled_texels [where data = data and zero = "Rgba 0 0 0 0", unfolded tiling_sizes, OF args] sizes(4)]
    map_Bytes_texture [OF i8.DecodeTiled_texels [where data = data and zero = "Rgba 0 0 0 0", unfolded tiling_sizes, OF args] sizes(4)]
    map_Bytes_texture [OF ia4.DecodeTiled_texels [where data = data and zero = "Rgba 0 0 0 0", unfolded tiling_sizes, OF args] sizes(4)]
    map_Bytes_texture [OF ia8.DecodeTiled_texels [where data = data and zero = "Rgba 0 0 0 0", unfolded tiling_sizes, OF args] sizes(4)]
    map_Bytes_texture [OF rgb565.DecodeTiled_texels [where data = data and zero = "Rgba 0 0 0 0", unfolded tiling_sizes, OF args] sizes(4)]
    map_Bytes_texture [OF rgb5a3.DecodeTiled_texels [where data = data and zero = "Rgba 0 0 0 0", unfolded tiling_sizes, OF args] sizes(4)]
  have "\<exists>out. DecodeTexture format w h mips data = Some out \<and> texture_ok (texel_bytes format data) (level_bytes t) w h mips out"
  proof (cases "IsPaletted format \<or> TilingOf format = None")
    case False
    then show ?thesis
      using assms(1,2,6) tiled cmpr_texture [OF args, of data] rgba8_texture [OF args, of data] long unfolding DecodeTexture_def Let_def texel_fun
      by (cases format) (simp_all add: TilingOf_def IsPaletted_def del: map_option_eq_Some, (elim exE conjE, simp)+)
  qed (use assms(3,6) in auto)
  then show ?thesis by (simp add: texture_ok_def)
qed

theorem DecodeTexture_texels_witness:
  "\<exists>out. DecodeTexture RGB565 1 1 1 (0xF8 # 0x00 # replicate 30 0) = Some out \<and> take 4 out = [0xFF, 0, 0, 0xFF]"
proof -
  let ?data = "0xF8 # 0x00 # replicate 30 0 :: bytes"
  have "TextureDataSize RGB565 1 1 1 = 32" by (simp add: TextureDataSize_def TilingOf_def Let_def half_def)
  then obtain out where out: "DecodeTexture RGB565 1 1 1 ?data = Some out"
    "take 4 (drop (4 * (before (*) 0 1 1 + (0 * mip 0 1 + 0))) out) = texel_bytes RGB565 ?data (before (level_bytes (4, 4, 32)) 0 1 1) (mip 0 1) 0 0"
    using DecodeTexture_texels [of RGB565 1 1 1 ?data "(4, 4, 32)"] by (auto simp: TilingOf_def IsPaletted_def)
  have "texel_bytes RGB565 ?data 0 1 0 0 = [0xFF, 0, 0, 0xFF]"
    by (simp add: texel_bytes_def texel_at_def decoders Be16_def rd_def be16_def rgba_bytes_def rgb565_colour_def ExpandTo8_def)
  then show ?thesis using out by simp
qed

section \<open>Palettes\<close>

definition index_at :: "TexFormat \<Rightarrow> bytes \<Rightarrow> nat \<Rightarrow> nat \<Rightarrow> nat \<Rightarrow> nat \<Rightarrow> u16" where
  "index_at format data at w X Y = (case format of
     C4 \<Rightarrow> texel_at DecodeC4 data at w X Y | C8 \<Rightarrow> texel_at DecodeC8 data at w X Y | C14X2 \<Rightarrow> texel_at DecodeC14X2 data at w X Y | _ \<Rightarrow> 0)"

lemma DecodeTextureIndices_texels:
  assumes "TextureDataSize format w h mips \<noteq> 0" "TextureDataSize format w h mips \<le> length data" "IsPaletted format"
    "w + 7 < 2 ^ 32" "h + 7 < 2 ^ 32" "TilingOf format = Some t"
  shows "\<exists>out. DecodeTextureIndices format w h mips data = Some out \<and> length out = MippedTexels w h mips \<and>
    (\<forall>m<mips. \<forall>X<mip m w. \<forall>Y<mip m h. out ! (before (*) m w h + (Y * mip m w + X)) =
       index_at format data (before (level_bytes t) m w h) (mip m w) X Y)"
proof -
  from TextureDataSize_before [OF assms(1)] assms(6) have sizes: "TextureDataSize format w h mips = before (level_bytes t) mips w h"
    "0 < w" "0 < h" "0 < mips" by (metis option.inject)+
  note args = sizes(2) assms(4) sizes(3) assms(5) sizes(4)
  have long: "before (level_bytes t) mips w h \<le> length data" using assms(2) sizes(1) by simp
  have "format = C4 \<and> t = (8, 8, 32) \<or> format = C8 \<and> t = (8, 4, 32) \<or> format = C14X2 \<and> t = (4, 4, 32)"
    using assms(3,6) by (auto simp: IsPaletted_def TilingOf_def)
  then show ?thesis
    using assms(1,2) long c4.DecodeTiled_texels [where data = data and zero = 0, unfolded tiling_sizes, OF args]
      c8.DecodeTiled_texels [where data = data and zero = 0, unfolded tiling_sizes, OF args]
      c14x2.DecodeTiled_texels [where data = data and zero = 0, unfolded tiling_sizes, OF args]
    by (elim disjE conjE) (simp_all add: DecodeTextureIndices_def index_at_def)
qed

lemma tlut_reads: "tlut_texel format = Some texel \<Longrightarrow> i < entries \<Longrightarrow> entries * 2 \<le> length tlut \<Longrightarrow> \<exists>c. texel tlut 0 i = Some c"
  by (cases format) (auto simp: tlut_texel_def TexelIA8_def TexelRGB565_def TexelRGB5A3_def Be16_def rd_def)

lemma DecodeTlut_colours:
  assumes "tlut_texel format = Some texel" "entries * 2 \<le> length tlut"
  shows "DecodeTlut format entries tlut = Some (Bytes (map (\<lambda>i. the (texel tlut 0 i)) [0..<entries]))"
proof -
  have "map (texel tlut 0) [0..<entries] = map Some (map (\<lambda>i. the (texel tlut 0 i)) [0..<entries])"
    using tlut_reads [OF assms(1) _ assms(2)] by (simp add: option.expand)
  then show ?thesis using assms by (simp add: DecodeTlut_def those_Some del: map_map)
qed

lemma each_colour:
  fixes palette pre :: bytes
  assumes colour: "\<And>k. unat k < entries \<Longrightarrow> getn palette (unat k * 4) 4 = Some (colour k)" "\<And>k. \<not> unat k < entries \<Longrightarrow> colour k = [0, 0, 0, 0]"
    and "length pre = 4 * i"
  shows "each (\<lambda>k (i, out).
           if unat k < entries then do {
             c \<leftarrow> getn palette (unat k * 4) 4;
             out \<leftarrow> putn out (i * 4) c;
             Some (i + 1, out) }
           else Some (i + 1, out)) ks (i, pre @ replicate (length ks * 4) 0) = Some (i + length ks, pre @ concat (map colour ks))"
  using assms(3)
proof (induction ks arbitrary: i pre)
  case (Cons k ks)
  have zeros: "replicate (4 + length ks * 4) (0 :: u8) = 0 # 0 # 0 # 0 # replicate (length ks * 4) 0" by (simp add: numeral_eq_Suc)
  have len: "length (colour k) = 4" using colour [of k] by (cases "unat k < entries") (auto simp: getn_length)
  let ?f = "\<lambda>k (i, out). if unat k < entries then do {
             c \<leftarrow> getn palette (unat k * 4) 4;
             out \<leftarrow> putn out (i * 4) c;
             Some (i + 1, out) }
           else Some (i + 1, out)"
  have step: "?f k (i, pre @ replicate (length (k # ks) * 4) 0) = Some (i + 1, (pre @ colour k) @ replicate (length ks * 4) 0)"
    using colour [of k] len Cons.prems by (simp add: putn_def mult.commute zeros)
  have "each ?f (k # ks) (i, pre @ replicate (length (k # ks) * 4) 0) = each ?f ks (i + 1, (pre @ colour k) @ replicate (length ks * 4) 0)"
    unfolding each.simps step bind.bind_lunit ..
  also have "\<dots> = Some (i + 1 + length ks, (pre @ colour k) @ concat (map colour ks))"
    by (rule Cons.IH) (use len Cons.prems in simp)
  finally show ?case by simp
qed simp

lemma concat_nth4: "(\<And>x. x \<in> set xs \<Longrightarrow> length (f x) = 4) \<Longrightarrow> i < length xs \<Longrightarrow> take 4 (drop (4 * i) (concat (map f xs))) = f (xs ! i)"
proof (induction xs arbitrary: i)
  case (Cons x xs)
  then show ?case by (cases i) simp_all
qed simp

lemma length_concat4: "(\<And>x. x \<in> set xs \<Longrightarrow> length (f x) = 4) \<Longrightarrow> length (concat (map f xs)) = 4 * length xs"
  by (induction xs) simp_all

text \<open>C20: A paletted texture is, texel for texel, the colour its palette has for the texel's index, and transparent black
  where the index is past the end of the palette; neither the data nor the palette is read outside.\<close>

lemma DecodeTexturePalette_texels:
  assumes "TextureDataSize format w h mips \<noteq> 0" "TextureDataSize format w h mips \<le> length data" "IsPaletted format"
    "w + 7 < 2 ^ 32" "h + 7 < 2 ^ 32" "TilingOf format = Some t" "tlut_texel tlut_format = Some texel" "0 < entries" "entries * 2 \<le> length tlut"
  shows "\<exists>out. DecodeTexturePalette format w h mips data tlut_format entries tlut = Some out \<and> length out = 4 * MippedTexels w h mips \<and>
    (\<forall>m<mips. \<forall>X<mip m w. \<forall>Y<mip m h. take 4 (drop (4 * (before (*) m w h + (Y * mip m w + X))) out) =
       (let k = unat (index_at format data (before (level_bytes t) m w h) (mip m w) X Y) in
        if k < entries then rgba_bytes (the (texel tlut 0 k)) else [0, 0, 0, 0]))"
proof -
  obtain ix where ix: "DecodeTextureIndices format w h mips data = Some ix" "length ix = MippedTexels w h mips"
      "\<forall>m<mips. \<forall>X<mip m w. \<forall>Y<mip m h. ix ! (before (*) m w h + (Y * mip m w + X)) = index_at format data (before (level_bytes t) m w h) (mip m w) X Y"
    using DecodeTextureIndices_texels [OF assms(1-6)] by blast
  have pos: "0 < w" "0 < h" "0 < mips" using TextureDataSize_before [OF assms(1)] by blast+
  define ts where "ts = map (\<lambda>i. the (texel tlut 0 i)) [0..<entries]"
  define colour where "colour k = (if unat k < entries then rgba_bytes (the (texel tlut 0 (unat k))) else [0, 0, 0, 0])" for k :: u16
  have palette: "DecodeTlut tlut_format entries tlut = Some (Bytes ts)" unfolding ts_def by (rule DecodeTlut_colours [OF assms(7,9)])
  have get: "getn (Bytes ts) (unat k * 4) 4 = Some (colour k)" if "unat k < entries" for k :: u16
    using Bytes_nth [of "unat k" ts] that by (simp add: getn_def ts_def colour_def mult.commute)
  have "0 < w * h" using pos by simp
  then have "0 < MippedTexels w h mips" using pos(3) by (cases mips) (simp_all add: MippedTexels_def mipped_before)
  then have some: "ix \<noteq> []" "Bytes ts \<noteq> []" using ix(2) assms(8) length_Bytes [of ts] by (auto simp: ts_def simp del: length_Bytes)
  have len: "length (colour k) = 4" for k by (simp add: colour_def)
  have "DecodeTexturePalette format w h mips data tlut_format entries tlut = Some (concat (map colour ix))"
    using each_colour [of entries "Bytes ts" colour "[]" 0 ix, OF get] some ix(1) palette by (simp add: DecodeTexturePalette_def colour_def)
  moreover have "take 4 (drop (4 * (before (*) m w h + (Y * mip m w + X))) (concat (map colour ix))) =
      colour (index_at format data (before (level_bytes t) m w h) (mip m w) X Y)" if "m < mips" "X < mip m w" "Y < mip m h" for m X Y
    using concat_nth4 [of ix colour "before (*) m w h + (Y * mip m w + X)"] len texel_index [OF that] ix(2,3) that pos(3) by (simp add: MippedTexels_before)
  ultimately show ?thesis using ix(2) length_concat4 [of ix colour] len by (auto simp: colour_def Let_def)
qed

theorem DecodeTexturePalette_texels_witness:
  "\<exists>out. DecodeTexturePalette C8 2 1 1 (1 # 7 # replicate 30 0) TlutRGB565 2 [0, 0, 0xF8, 0] = Some out \<and>
     take 4 out = [0xFF, 0, 0, 0xFF] \<and> take 4 (drop 4 out) = [0, 0, 0, 0]"
proof -
  let ?data = "1 # 7 # replicate 30 0 :: bytes"
  have size: "TextureDataSize C8 2 1 1 = 32" by (simp add: TextureDataSize_def TilingOf_def Let_def half_def)
  obtain out where out: "DecodeTexturePalette C8 2 1 1 ?data TlutRGB565 2 [0, 0, 0xF8, 0] = Some out"
    "\<forall>m<1. \<forall>X<mip m 2. \<forall>Y<mip m 1. take 4 (drop (4 * (before (*) m 2 1 + (Y * mip m 2 + X))) out) =
       (let k = unat (index_at C8 ?data (before (level_bytes (8, 4, 32)) m 2 1) (mip m 2) X Y) in
        if k < 2 then rgba_bytes (the (TexelRGB565 [0, 0, 0xF8, 0] 0 k)) else [0, 0, 0, 0])"
    using DecodeTexturePalette_texels [of C8 2 1 1 ?data "(8, 4, 32)" TlutRGB565 TexelRGB565 2 "[0, 0, 0xF8, 0]"] size
    by (auto simp: TilingOf_def IsPaletted_def tlut_texel_def)
  have "index_at C8 ?data 0 2 0 0 = 1" "index_at C8 ?data 0 2 1 0 = 7" by (simp_all add: index_at_def texel_at_def decoders rd_def)
  moreover have "rgba_bytes (the (TexelRGB565 [0, 0, 0xF8, 0] 0 1)) = [0xFF, 0, 0, 0xFF]"
    by (simp add: decoders Be16_def rd_def be16_def rgba_bytes_def rgb565_colour_def ExpandTo8_def)
  ultimately show ?thesis
    using out(1) out(2) [rule_format, of 0 0 0] out(2) [rule_format, of 0 1 0] by (simp add: Let_def)
qed

end
