(* ===== verification/Nand_Paths.thy ===== *)
theory Nand_Paths
  imports Prelude
begin

text \<open>
  src/format/nand/isfs.cpp: title identifiers, the places files have in the console's memory, and the
  keystream of \<open>setting.txt\<close>. Strings are bytes, as \<open>std::string\<close> has them.
\<close>

definition ascii :: "string \<Rightarrow> bytes" where
  "ascii s = map of_char s"

definition hex_digit :: "u32 \<Rightarrow> u8" where
  "hex_digit n = (if n < 10 then 0x30 + ucast n else 0x57 + ucast n)"

definition Hex8 :: "u32 \<Rightarrow> bytes" where
  "Hex8 v = map (\<lambda>i. hex_digit (drop_bit (28 - 4 * i) v AND 0xF)) [0..<8]"

definition kSettingSeed :: u32 where "kSettingSeed = 0x73B5DBFA"

section \<open>Titles\<close>

definition High :: "u64 \<Rightarrow> u32" where "High ident = ucast (drop_bit 32 ident)"
definition Low :: "u64 \<Rightarrow> u32" where "Low ident = ucast ident"

definition HighHex :: "u64 \<Rightarrow> bytes" where "HighHex ident = Hex8 (High ident)"
definition LowHex :: "u64 \<Rightarrow> bytes" where "LowHex ident = Hex8 (Low ident)"

definition Code :: "u64 \<Rightarrow> bytes" where
  "Code ident =
     (let code = map (\<lambda>i. ucast (drop_bit (24 - i * 8) (Low ident))) [0..<4] :: bytes in
      if list_ex (\<lambda>character. character < 0x20 \<or> 0x7E < character) code then [] else code)"

definition TitlePath :: "u64 \<Rightarrow> bytes" where
  "TitlePath ident = ascii ''/title/'' @ HighHex ident @ ascii ''/'' @ LowHex ident"

definition ContentPath :: "u64 \<Rightarrow> bytes" where
  "ContentPath ident = TitlePath ident @ ascii ''/content''"

definition DataPath :: "u64 \<Rightarrow> bytes" where
  "DataPath ident = TitlePath ident @ ascii ''/data''"

definition TmdPath :: "u64 \<Rightarrow> bytes" where
  "TmdPath ident = ContentPath ident @ ascii ''/title.tmd''"

definition ContentFilePath :: "u64 \<Rightarrow> u32 \<Rightarrow> bytes" where
  "ContentFilePath ident content_id = ContentPath ident @ ascii ''/'' @ Hex8 content_id @ ascii ''.app''"

definition TicketPath :: "u64 \<Rightarrow> bytes" where
  "TicketPath ident = ascii ''/ticket/'' @ HighHex ident @ ascii ''/'' @ LowHex ident @ ascii ''.tik''"

section \<open>Settings\<close>

definition next_key :: "u32 \<Rightarrow> u32" where
  "next_key key = push_bit 1 key OR drop_bit 31 key"

primrec keystream :: "u32 \<Rightarrow> bytes \<Rightarrow> bytes" where
  "keystream key [] = []"
| "keystream key (b # bs) = (b XOR ucast (key AND 0xFF)) # keystream (next_key key) bs"

definition ScrambleSetting :: "bytes \<Rightarrow> bytes" where
  "ScrambleSetting txt = keystream kSettingSeed txt"

definition UnscrambleSetting :: "bytes \<Rightarrow> bytes" where
  "UnscrambleSetting data = takeWhile (\<lambda>b. b \<noteq> 0) (keystream kSettingSeed data)"

section \<open>What the names are\<close>

lemma length_ascii [simp]: "length (ascii s) = length s"
  by (simp add: ascii_def)

lemma length_Hex8 [simp]: "length (Hex8 v) = 8"
  by (simp add: Hex8_def)

lemma hex_digits_table:
  "list_all (\<lambda>n. unat (hex_digit (word_of_nat n)) = (if n < 10 then 0x30 + n else 0x57 + n)) [0..<16]"
  by (simp add: hex_digit_def upt_rec)

lemma unat_hex_digit: "n < 16 \<Longrightarrow> unat (hex_digit (word_of_nat n)) = (if n < 10 then 0x30 + n else 0x57 + n)"
  using hex_digits_table by (auto simp: list_all_iff)

lemma hex_values:
  "(if a < 10 then 0x30 + a else 0x57 + a) = (if b < 10 then 0x30 + b else 0x57 + b) \<Longrightarrow> a < 16 \<Longrightarrow> b < 16 \<Longrightarrow> a = (b :: nat)"
  by (simp split: if_splits)

lemma hex_digit_inj: "hex_digit (v AND 0xF) = hex_digit (w AND 0xF) \<Longrightarrow> v AND 0xF = w AND 0xF"
proof -
  assume eq: "hex_digit (v AND 0xF) = hex_digit (w AND 0xF)"
  have small: "unat (x AND 0xF) < 16" for x :: u32 using unat_and_F [of x] by simp
  have "unat (hex_digit (x AND 0xF)) = (if unat (x AND 0xF) < 10 then 0x30 + unat (x AND 0xF) else 0x57 + unat (x AND 0xF))" for x :: u32
    using unat_hex_digit [OF small [of x]] by simp
  with eq have "unat (v AND 0xF) = unat (w AND 0xF)"
    using small [of v] small [of w] by (metis hex_values)
  then show ?thesis by (rule unsigned_word_eqI)
qed

lemma Hex8_inj: "Hex8 v = Hex8 w \<longleftrightarrow> v = w"
proof
  assume eq: "Hex8 v = Hex8 w"
  show "v = w"
  proof (rule bit_word_eqI)
    fix n assume n: "n < LENGTH(32)"
    have "hex_digit (drop_bit (28 - 4 * i) v AND 0xF) = hex_digit (drop_bit (28 - 4 * i) w AND 0xF)" if "i < 8" for i
      using eq that by (simp add: Hex8_def)
    from this [of "7 - n div 4"] n have "drop_bit (4 * (n div 4)) v AND 0xF = drop_bit (4 * (n div 4)) w AND 0xF"
      by (intro hex_digit_inj) (auto simp: right_diff_distrib')
    then have "bit (drop_bit (4 * (n div 4)) v AND mask 4) (n mod 4) = bit (drop_bit (4 * (n div 4)) w AND mask 4) (n mod 4)"
      by (simp add: mask_eq_exp_minus_1)
    moreover have "n mod 4 < 32" by (rule less_trans [of _ 4]) simp_all
    ultimately show "bit v n = bit w n" by (simp add: bit_simps)
  qed
qed simp

lemma High_Low: "High a = High b \<Longrightarrow> Low a = Low b \<Longrightarrow> a = b"
  by (metis High_def Low_def be64_words)

lemma path_lengths [simp]:
  "length (HighHex ident) = 8" "length (LowHex ident) = 8" "length (TitlePath ident) = 24"
  "length (ContentPath ident) = 32" "length (TmdPath ident) = 42" "length (ContentFilePath ident c) = 45"
  "length (TicketPath ident) = 29"
  by (simp_all add: HighHex_def LowHex_def TitlePath_def ContentPath_def TmdPath_def ContentFilePath_def TicketPath_def)

lemma path_inj [simp]:
  "TitlePath a = TitlePath b \<longleftrightarrow> a = b" "TmdPath a = TmdPath b \<longleftrightarrow> a = b" "TicketPath a = TicketPath b \<longleftrightarrow> a = b"
  "ContentFilePath a c = ContentFilePath b d \<longleftrightarrow> a = b \<and> c = d"
  using High_Low [of a b]
  by (auto simp: TitlePath_def TmdPath_def ContentPath_def TicketPath_def ContentFilePath_def HighHex_def LowHex_def Hex8_inj)

lemma paths_apart [simp]:
  "TmdPath a \<noteq> TicketPath b" "TicketPath b \<noteq> TmdPath a" "TmdPath a \<noteq> ContentFilePath b c" "ContentFilePath b c \<noteq> TmdPath a"
  "TicketPath a \<noteq> ContentFilePath b c" "ContentFilePath b c \<noteq> TicketPath a"
  by (rule notI, drule arg_cong [of _ _ length], simp)+

section \<open>Settings come back\<close>

lemma length_keystream [simp]: "length (keystream key bs) = length bs"
  by (induction bs arbitrary: key) simp_all

lemma keystream_again: "keystream key (keystream key bs) = bs"
  by (induction bs arbitrary: key) (simp_all add: xor.assoc)

text \<open>A setting.txt that was scrambled comes back as its text, up to the first byte that is not text: every text
  without a zero byte comes back whole, and nothing that follows a zero does.\<close>

theorem setting_roundtrip:
  "UnscrambleSetting (ScrambleSetting txt) = takeWhile (\<lambda>b. b \<noteq> 0) txt"
  by (simp add: UnscrambleSetting_def ScrambleSetting_def keystream_again)

end
