(* ===== verification/Nand_Title.thy ===== *)
theory Nand_Title
  imports Nand_Paths
begin

text \<open>
  src/format/nand/title.cpp: tickets and TMDs, what a title is. The outer \<open>None\<close> of a parser is a read
  outside the data, the inner one data that is refused.
\<close>

definition Rsa4096Sha1 :: u32 where "Rsa4096Sha1 = 0x00010000"
definition Rsa2048Sha1 :: u32 where "Rsa2048Sha1 = 0x00010001"
definition EcdsaSha1 :: u32 where "EcdsaSha1 = 0x00010002"

definition kTicketTitleKey :: nat where "kTicketTitleKey = 0x7F"
definition kTicketId :: nat where "kTicketId = 0x90"
definition kTicketConsoleId :: nat where "kTicketConsoleId = 0x98"
definition kTicketTitleId :: nat where "kTicketTitleId = 0x9C"
definition kTicketTitleVersion :: nat where "kTicketTitleVersion = 0xA6"
definition kTicketCommonKeyIndex :: nat where "kTicketCommonKeyIndex = 0xB1"
definition kBodySize :: nat where "kBodySize = 0x164"

definition kTmdVersion :: nat where "kTmdVersion = 0x40"
definition kTmdSystemVersion :: nat where "kTmdSystemVersion = 0x44"
definition kTmdTitleId :: nat where "kTmdTitleId = 0x4C"
definition kTmdTitleType :: nat where "kTmdTitleType = 0x54"
definition kTmdGroupId :: nat where "kTmdGroupId = 0x58"
definition kTmdRegion :: nat where "kTmdRegion = 0x5C"
definition kTmdAccessRights :: nat where "kTmdAccessRights = 0x98"
definition kTmdTitleVersion :: nat where "kTmdTitleVersion = 0x9C"
definition kTmdContentCount :: nat where "kTmdContentCount = 0x9E"
definition kTmdBootIndex :: nat where "kTmdBootIndex = 0xA0"
definition kTmdContents :: nat where "kTmdContents = 0xA4"
definition kContentRecordSize :: nat where "kContentRecordSize = 0x24"

lemmas ticket_offsets = kTicketTitleKey_def kTicketId_def kTicketConsoleId_def kTicketTitleId_def
  kTicketTitleVersion_def kTicketCommonKeyIndex_def kBodySize_def

lemmas tmd_offsets = kTmdVersion_def kTmdSystemVersion_def kTmdTitleId_def kTmdTitleType_def kTmdGroupId_def
  kTmdRegion_def kTmdAccessRights_def kTmdTitleVersion_def kTmdContentCount_def kTmdBootIndex_def kTmdContents_def
  kContentRecordSize_def

record Ticket =
  k_signature_type :: u32
  k_issuer :: bytes
  k_title_key :: bytes
  k_ticket_id :: u64
  k_console_id :: u32
  k_title_id :: u64
  k_title_version :: u16
  k_common_key_index :: u8
  k_raw :: bytes

record ContentRecord =
  c_id :: u32
  c_index :: u16
  c_type :: u16
  c_size :: u64
  c_sha1 :: bytes

record Tmd =
  t_signature_type :: u32
  t_issuer :: bytes
  t_version :: u8
  t_system_version :: u64
  t_title_id :: u64
  t_title_type :: u32
  t_group_id :: u16
  t_region :: u16
  t_access_rights :: u32
  t_title_version :: u16
  t_boot_index :: u16
  t_contents :: "ContentRecord list"
  t_raw :: bytes

definition ReadIssuer :: "bytes \<Rightarrow> bytes option" where
  "ReadIssuer p = map_option (takeWhile (\<lambda>b. b \<noteq> 0)) (getn p 0 0x40)"

definition SignatureSize :: "u32 \<Rightarrow> nat option" where
  "SignatureSize type =
     (if type = Rsa4096Sha1 then Some (0x200 + 0x3C)
      else if type = Rsa2048Sha1 then Some (0x100 + 0x3C)
      else if type = EcdsaSha1 then Some (0x3C + 0x40)
      else None)"

definition Shared :: "ContentRecord \<Rightarrow> bool" where
  "Shared c \<longleftrightarrow> c_type c AND 0x8000 \<noteq> 0 \<or> c_type c = 0x4001"

definition EncryptedSize :: "ContentRecord \<Rightarrow> u64" where
  "EncryptedSize c = (c_size c + 15) AND NOT 15"

section \<open>Parsing\<close>

definition ticket_fields :: "u32 \<Rightarrow> bytes \<Rightarrow> bytes \<Rightarrow> Ticket option" where
  "ticket_fields type body raw = do {
     issuer \<leftarrow> ReadIssuer body;
     title_key \<leftarrow> getn body kTicketTitleKey 16;
     ticket_id \<leftarrow> read64 body kTicketId;
     console_id \<leftarrow> read32 body kTicketConsoleId;
     title_id \<leftarrow> read64 body kTicketTitleId;
     title_version \<leftarrow> read16 body kTicketTitleVersion;
     common_key_index \<leftarrow> rd body kTicketCommonKeyIndex;
     Some \<lparr>k_signature_type = type, k_issuer = issuer, k_title_key = title_key, k_ticket_id = ticket_id,
       k_console_id = console_id, k_title_id = title_id, k_title_version = title_version,
       k_common_key_index = common_key_index, k_raw = raw\<rparr> }"

definition Ticket_Parse :: "bytes option \<Rightarrow> Ticket option option" where
  "Ticket_Parse data = (case data of None \<Rightarrow> Some None
     | Some data \<Rightarrow>
        if length data < 4 then Some None
        else do {
          type \<leftarrow> read32 data 0;
          case SignatureSize type of
            None \<Rightarrow> Some None
          | Some signature \<Rightarrow>
              if length data < signature + kBodySize then Some None
              else do {
                raw \<leftarrow> getn data 0 (signature + kBodySize);
                ticket \<leftarrow> ticket_fields type (drop signature data) raw;
                Some (Some ticket) } })"

definition content_at :: "bytes \<Rightarrow> nat \<Rightarrow> ContentRecord option" where
  "content_at body index =
     (let r = kTmdContents + index * kContentRecordSize in do {
        ident \<leftarrow> read32 body r;
        idx \<leftarrow> read16 body (r + 0x04);
        type \<leftarrow> read16 body (r + 0x06);
        size \<leftarrow> read64 body (r + 0x08);
        sha1 \<leftarrow> getn body (r + 0x10) 20;
        Some \<lparr>c_id = ident, c_index = idx, c_type = type, c_size = size, c_sha1 = sha1\<rparr> })"

definition tmd_fields :: "u32 \<Rightarrow> bytes \<Rightarrow> Tmd option" where
  "tmd_fields type body = do {
     issuer \<leftarrow> ReadIssuer body;
     version \<leftarrow> rd body kTmdVersion;
     system_version \<leftarrow> read64 body kTmdSystemVersion;
     title_id \<leftarrow> read64 body kTmdTitleId;
     title_type \<leftarrow> read32 body kTmdTitleType;
     group_id \<leftarrow> read16 body kTmdGroupId;
     region \<leftarrow> read16 body kTmdRegion;
     access_rights \<leftarrow> read32 body kTmdAccessRights;
     title_version \<leftarrow> read16 body kTmdTitleVersion;
     boot_index \<leftarrow> read16 body kTmdBootIndex;
     Some \<lparr>t_signature_type = type, t_issuer = issuer, t_version = version, t_system_version = system_version,
       t_title_id = title_id, t_title_type = title_type, t_group_id = group_id, t_region = region,
       t_access_rights = access_rights, t_title_version = title_version, t_boot_index = boot_index,
       t_contents = [], t_raw = []\<rparr> }"

definition Tmd_Parse :: "bytes option \<Rightarrow> Tmd option option" where
  "Tmd_Parse data = (case data of None \<Rightarrow> Some None
     | Some data \<Rightarrow>
        if length data < 4 then Some None
        else do {
          type \<leftarrow> read32 data 0;
          case SignatureSize type of
            None \<Rightarrow> Some None
          | Some signature \<Rightarrow>
              if length data < signature + kTmdContents then Some None
              else do {
                tmd \<leftarrow> tmd_fields type (drop signature data);
                count \<leftarrow> read16 (drop signature data) kTmdContentCount;
                let needed = signature + kTmdContents + unat count * kContentRecordSize in
                if length data < needed then Some None
                else do {
                  contents \<leftarrow> those (map (content_at (drop signature data)) [0..<unat count]);
                  raw \<leftarrow> getn data 0 needed;
                  Some (Some (tmd\<lparr>t_contents := contents, t_raw := raw\<rparr>)) } } })"

definition Tmd_Content :: "Tmd \<Rightarrow> u16 \<Rightarrow> ContentRecord option" where
  "Tmd_Content tmd index = List.find (\<lambda>content. c_index content = index) (t_contents tmd)"

definition BootContent :: "Tmd \<Rightarrow> ContentRecord option" where
  "BootContent tmd = Tmd_Content tmd (t_boot_index tmd)"

definition TotalSize :: "Tmd \<Rightarrow> u64" where
  "TotalSize tmd = fold (\<lambda>content n. n + c_size content) (t_contents tmd) 0"

definition TitleKeyIv :: "u64 \<Rightarrow> bytes" where
  "TitleKeyIv title_id = map (\<lambda>index. ucast (drop_bit (56 - index * 8) title_id)) [0..<8] @ replicate 8 0"

definition ContentIv :: "u16 \<Rightarrow> bytes" where
  "ContentIv content_index = [ucast (drop_bit 8 content_index), ucast (content_index AND 0xFF)] @ replicate 14 0"

section \<open>Parsing stays inside the data\<close>

lemma SignatureSize_room: "SignatureSize type = Some n \<Longrightarrow> 0x7C \<le> n"
  by (auto simp: SignatureSize_def split: if_splits)

lemma ReadIssuer_total: "0x40 \<le> length p \<Longrightarrow> \<exists>issuer. ReadIssuer p = Some issuer"
  by (simp add: ReadIssuer_def getn_def)

lemma ReadIssuer_more: "ReadIssuer p = Some x \<Longrightarrow> ReadIssuer (p @ q) = Some x"
  by (auto simp: ReadIssuer_def getn_more)

lemma ticket_fields_total: "kBodySize \<le> length body \<Longrightarrow> \<exists>t. ticket_fields type body raw = Some t"
  using ReadIssuer_total [of body]
  by (auto simp: ticket_fields_def ticket_offsets getn_def read64_def read32_Some read16_Some rd_Some)

lemma tmd_fields_total: "kTmdContents \<le> length body \<Longrightarrow> \<exists>t. tmd_fields type body = Some t"
  using ReadIssuer_total [of body]
  by (auto simp: tmd_fields_def tmd_offsets read64_def read32_Some read16_Some rd_Some)

lemma content_at_total:
  assumes "kTmdContents + n * kContentRecordSize \<le> length body" "index < n"
  shows "\<exists>c. content_at body index = Some c"
proof -
  have "(index + 1) * kContentRecordSize \<le> n * kContentRecordSize" using assms(2) by (intro mult_le_mono1) simp
  then have "kTmdContents + index * kContentRecordSize + 0x24 \<le> length body"
    using assms(1) by (simp add: kContentRecordSize_def)
  then show ?thesis by (simp add: content_at_def Let_def getn_def read64_def read32_Some read16_Some)
qed

lemma those_total: "(\<And>x. x \<in> set xs \<Longrightarrow> \<exists>y. f x = Some y) \<Longrightarrow> \<exists>ys. those (map f xs) = Some ys"
proof (induction xs)
  case (Cons a xs)
  obtain y where "f a = Some y" using Cons.prems by force
  with Cons show ?case by force
qed simp

lemma contents_total:
  "kTmdContents + n * kContentRecordSize \<le> length body \<Longrightarrow> \<exists>cs. those (map (content_at body) [0..<n]) = Some cs"
  using content_at_total by (intro those_total) auto

lemma Ticket_Parse_total: "\<exists>r. Ticket_Parse data = Some r"
proof (cases "\<exists>d n. data = Some d \<and> 4 \<le> length d \<and> SignatureSize (the (read32 d 0)) = Some n \<and> n + kBodySize \<le> length d")
  case True
  then obtain d n where d: "data = Some d" "4 \<le> length d" "SignatureSize (the (read32 d 0)) = Some n" "n + kBodySize \<le> length d"
    by blast
  obtain type where type: "read32 d 0 = Some type" using d(2) by (simp add: read32_Some)
  have "kBodySize \<le> length (drop n d)" using d(4) by simp
  from ticket_fields_total [OF this] obtain t where "ticket_fields type (drop n d) (take (n + kBodySize) d) = Some t"
    by blast
  then show ?thesis using d type by (simp add: Ticket_Parse_def getn_def)
next
  case False
  then show ?thesis by (auto simp: Ticket_Parse_def read32_Some not_less split: option.split)
qed

lemma Tmd_Parse_total: "\<exists>r. Tmd_Parse data = Some r"
proof (cases "\<exists>d n. data = Some d \<and> 4 \<le> length d \<and> SignatureSize (the (read32 d 0)) = Some n \<and> n + kTmdContents \<le> length d")
  case True
  then obtain d n where d: "data = Some d" "4 \<le> length d" "SignatureSize (the (read32 d 0)) = Some n" "n + kTmdContents \<le> length d"
    by blast
  obtain type where type: "read32 d 0 = Some type" using d(2) by (simp add: read32_Some)
  have "kTmdContents \<le> length (drop n d)" using d(4) by simp
  from tmd_fields_total [OF this] obtain t where t: "tmd_fields type (drop n d) = Some t" by blast
  obtain c where c: "read16 (drop n d) kTmdContentCount = Some c"
    using d(4) by (simp add: read16_Some tmd_offsets)
  show ?thesis
  proof (cases "length d < n + kTmdContents + unat c * kContentRecordSize")
    case True
    then show ?thesis using d type t c by (simp add: Tmd_Parse_def)
  next
    case False
    then have "kTmdContents + unat c * kContentRecordSize \<le> length (drop n d)" by simp
    from contents_total [OF this] obtain cs where "those (map (content_at (drop n d)) [0..<unat c]) = Some cs" by blast
    with False show ?thesis using d type t c by (simp add: Tmd_Parse_def getn_def)
  qed
next
  case False
  then show ?thesis by (auto simp: Tmd_Parse_def read32_Some not_less split: option.split)
qed

section \<open>Parsing what was kept\<close>

lemma ticket_fields_more: "ticket_fields type p raw = Some t \<Longrightarrow> ticket_fields type (p @ q) raw = Some t"
  by (auto simp: ticket_fields_def ReadIssuer_more getn_more read64_more read32_more read16_more rd_more
      split: Option.bind_splits)

lemma tmd_fields_more: "tmd_fields type p = Some t \<Longrightarrow> tmd_fields type (p @ q) = Some t"
  by (auto simp: tmd_fields_def ReadIssuer_more read64_more read32_more read16_more rd_more split: Option.bind_splits)

lemma content_at_more: "content_at p index = Some c \<Longrightarrow> content_at (p @ q) index = Some c"
  by (auto simp: content_at_def Let_def getn_more read64_more read32_more read16_more split: Option.bind_splits)

lemma contents_more:
  "those (map (content_at p) ids) = Some cs \<Longrightarrow> those (map (content_at (p @ q)) ids) = Some cs"
  by (induction ids arbitrary: cs) (auto simp: content_at_more split: option.splits)


text \<open>What the parsers ask of the data, and what they leave.\<close>

lemma Ticket_Parse_cases:
  "Ticket_Parse (Some d) = Some (Some t) \<longleftrightarrow>
     (\<exists>type n. 4 \<le> length d \<and> read32 d 0 = Some type \<and> SignatureSize type = Some n \<and> n + kBodySize \<le> length d \<and>
        ticket_fields type (drop n d) (take (n + kBodySize) d) = Some t)"
  by (auto simp: Ticket_Parse_def getn_def not_less split: Option.bind_splits option.splits if_splits)

lemma Tmd_Parse_cases:
  "Tmd_Parse (Some d) = Some (Some t) \<longleftrightarrow>
     (\<exists>type n tmd count cs. 4 \<le> length d \<and> read32 d 0 = Some type \<and> SignatureSize type = Some n \<and>
        n + kTmdContents \<le> length d \<and> tmd_fields type (drop n d) = Some tmd \<and>
        read16 (drop n d) kTmdContentCount = Some count \<and> n + kTmdContents + unat count * kContentRecordSize \<le> length d \<and>
        those (map (content_at (drop n d)) [0..<unat count]) = Some cs \<and>
        t = tmd\<lparr>t_contents := cs, t_raw := take (n + kTmdContents + unat count * kContentRecordSize) d\<rparr>)"
  by (auto simp: Tmd_Parse_def getn_def not_less Let_def split: Option.bind_splits option.splits if_splits)

lemma ticket_fields_raw: "ticket_fields type body raw = Some t \<Longrightarrow> k_raw t = raw"
  by (auto simp: ticket_fields_def split: Option.bind_splits)

lemma Ticket_Parse_more: "Ticket_Parse (Some d) = Some (Some t) \<Longrightarrow> Ticket_Parse (Some (d @ q)) = Some (Some t)"
  unfolding Ticket_Parse_cases by (fastforce simp: read32_more ticket_fields_more)

lemma Tmd_Parse_more:
  assumes "Tmd_Parse (Some d) = Some (Some t)"
  shows "Tmd_Parse (Some (d @ q)) = Some (Some t)"
proof -
  obtain type n tmd count cs where d: "4 \<le> length d" "read32 d 0 = Some type" "SignatureSize type = Some n"
      "n + kTmdContents \<le> length d" "tmd_fields type (drop n d) = Some tmd"
      "read16 (drop n d) kTmdContentCount = Some count" "n + kTmdContents + unat count * kContentRecordSize \<le> length d"
      "those (map (content_at (drop n d)) [0..<unat count]) = Some cs"
    and t: "t = tmd\<lparr>t_contents := cs, t_raw := take (n + kTmdContents + unat count * kContentRecordSize) d\<rparr>"
    using assms unfolding Tmd_Parse_cases by blast
  have n: "drop n (d @ q) = drop n d @ q" using d(4) by simp
  show ?thesis
    unfolding Tmd_Parse_cases n
    using d(1,3,4,7) read32_more [OF d(2)] tmd_fields_more [OF d(5)] read16_more [OF d(6)] contents_more [OF d(8)]
    by (intro exI [of _ type] exI [of _ n] exI [of _ tmd] exI [of _ count] exI [of _ cs]) (simp add: t)
qed

lemma Tmd_Parse_hashes:
  assumes "Tmd_Parse (Some d) = Some (Some t)"
  shows "list_all (\<lambda>c. length (c_sha1 c) = 20) (t_contents t)"
proof -
  have hash: "length (c_sha1 c) = 20" if "content_at body i = Some c" for body i c
    using that by (auto simp: content_at_def Let_def getn_length split: Option.bind_splits)
  have "those (map f xs) = Some cs \<Longrightarrow> c \<in> set cs \<Longrightarrow> \<exists>x. f x = Some c" for f :: "nat \<Rightarrow> ContentRecord option" and xs cs c
    by (induction xs arbitrary: cs) (auto split: option.splits)
  with hash assms show ?thesis unfolding Tmd_Parse_cases by (fastforce simp: list_all_iff)
qed

lemma Ticket_Parse_raw:
  assumes t: "Ticket_Parse (Some d) = Some (Some t)"
  shows "Ticket_Parse (Some (k_raw t)) = Some (Some t)" "\<exists>rest. d = k_raw t @ rest"
proof -
  obtain type n where d: "4 \<le> length d" "read32 d 0 = Some type" "SignatureSize type = Some n" "n + kBodySize \<le> length d"
    "ticket_fields type (drop n d) (take (n + kBodySize) d) = Some t"
    using t unfolding Ticket_Parse_cases by blast
  have raw: "k_raw t = take (n + kBodySize) d" using d(5) by (rule ticket_fields_raw)
  then show rest: "\<exists>rest. d = k_raw t @ rest" by (metis append_take_drop_id)
  have len: "length (k_raw t) = n + kBodySize" using raw d(4) by simp
  have n4: "4 \<le> n" using SignatureSize_room [OF d(3)] by simp
  obtain rest where rest: "d = k_raw t @ rest" using rest by blast
  obtain type' where type': "read32 (k_raw t) 0 = Some type'" using len n4 by (simp add: read32_Some)
  then have "type' = type" using d(2) read32_more [OF type', of rest] rest by simp
  obtain t' where t': "ticket_fields type (drop n (k_raw t)) (k_raw t) = Some t'"
    using ticket_fields_total [of "drop n (k_raw t)"] len by auto
  then have "ticket_fields type (drop n (k_raw t) @ rest) (k_raw t) = Some t'" by (rule ticket_fields_more)
  then have "t' = t" using d(5) raw rest len by (metis append_take_drop_id drop_append diff_is_0_eq' drop0 le_add1 option.inject)
  then show "Ticket_Parse (Some (k_raw t)) = Some (Some t)"
    unfolding Ticket_Parse_cases using type' t' \<open>type' = type\<close> d(3) len n4 by auto
qed


lemma Tmd_Parse_raw:
  assumes "Tmd_Parse (Some d) = Some (Some t)"
  shows "Tmd_Parse (Some (t_raw t @ rest)) = Some (Some t) \<and> (\<exists>more. d = t_raw t @ more)"
proof -
  obtain type n tmd count cs where d: "4 \<le> length d" "read32 d 0 = Some type" "SignatureSize type = Some n"
      "n + kTmdContents \<le> length d" "tmd_fields type (drop n d) = Some tmd"
      "read16 (drop n d) kTmdContentCount = Some count" "n + kTmdContents + unat count * kContentRecordSize \<le> length d"
      "those (map (content_at (drop n d)) [0..<unat count]) = Some cs"
    and t: "t = tmd\<lparr>t_contents := cs, t_raw := take (n + kTmdContents + unat count * kContentRecordSize) d\<rparr>"
    using assms unfolding Tmd_Parse_cases by blast
  define raw where "raw = take (n + kTmdContents + unat count * kContentRecordSize) d"
  obtain more where more: "d = raw @ more" unfolding raw_def by (metis append_take_drop_id)
  have len: "length raw = n + kTmdContents + unat count * kContentRecordSize" using d(7) by (simp add: raw_def)
  then have body: "drop n d = drop n raw @ more" using more by simp
  have room: "4 \<le> n" using SignatureSize_room [OF d(3)] by simp
  have type': "read32 raw 0 = Some type"
    using read32_more [of raw 0 _ more] d(2) more room len by (force simp: read32_Some)
  have count': "read16 (drop n raw) kTmdContentCount = Some count"
    using read16_more [of "drop n raw" kTmdContentCount _ more] d(6) body len by (force simp: read16_Some tmd_offsets)
  have "kTmdContents \<le> length (drop n raw)" using len by simp
  from tmd_fields_total [OF this] obtain tmd' where tmd': "tmd_fields type (drop n raw) = Some tmd'" by blast
  have "kTmdContents + unat count * kContentRecordSize \<le> length (drop n raw)" using len by simp
  from contents_total [OF this] obtain cs' where cs': "those (map (content_at (drop n raw)) [0..<unat count]) = Some cs'"
    by blast
  have "tmd' = tmd" "cs' = cs"
    using tmd_fields_more [OF tmd', of more] contents_more [OF cs', of more] d(5,8) body by simp_all
  then have "Tmd_Parse (Some raw) = Some (Some t)"
    unfolding Tmd_Parse_cases using type' count' tmd' cs' d(3) len room
    by (intro exI [of _ type] exI [of _ n] exI [of _ tmd] exI [of _ count] exI [of _ cs]) (simp add: t raw_def)
  moreover have "t_raw t = raw" by (simp add: t raw_def)
  ultimately show ?thesis using Tmd_Parse_more more by blast
qed


text \<open>What is kept of a TMD is a beginning of the data it was read from, and reading it again, whatever follows
  it, gives the same TMD.\<close>

theorem Tmd_reparse:
  assumes "Tmd_Parse (Some d) = Some (Some t)"
  shows "Tmd_Parse (Some (t_raw t @ rest)) = Some (Some t) \<and> (\<exists>more. d = t_raw t @ more)"
  by (rule Tmd_Parse_raw [OF assms])

text \<open>A small title: one content of sixteen bytes.\<close>

definition small_ticket :: bytes where
  "small_ticket = [0, 1, 0, 2] @ replicate 0x78 0 @ [0x2D, 0x58, 0x53] @ replicate 0x161 0"

definition small_tmd :: bytes where
  "small_tmd = [0, 1, 0, 2] @ replicate 0x78 0 @ [0x2D, 0x43, 0x50] @ replicate 0x9B 0 @ [0, 1] @ replicate 4 0 @
     [0, 0, 0, 7, 0, 0, 0, 1] @ [0, 0, 0, 0, 0, 0, 0, 16] @ replicate 20 9"

definition small_content :: ContentRecord where
  "small_content = \<lparr>c_id = 7, c_index = 0, c_type = 1, c_size = 16, c_sha1 = replicate 20 9\<rparr>"

lemma small_tmd_parses:
  "\<exists>t. Tmd_Parse (Some small_tmd) = Some (Some t) \<and> t_contents t = [small_content] \<and> t_raw t = small_tmd \<and>
     t_issuer t = [0x2D, 0x43, 0x50] \<and> t_title_id t = 0"
proof -
  have type: "read32 small_tmd 0 = Some 0x00010002" by (simp add: small_tmd_def read32_def rd_def be32_def)
  have sig: "SignatureSize 0x00010002 = Some 0x7C" by (simp add: SignatureSize_def Rsa4096Sha1_def Rsa2048Sha1_def EcdsaSha1_def)
  define body where "body = [0x2D, 0x43, 0x50] @ replicate 0x9B 0 @ [0, 1] @ replicate 4 0 @
     [0, 0, 0, 7, 0, 0, 0, 1] @ [0, 0, 0, 0, 0, 0, 0, 16] @ replicate 20 (9 :: u8)"
  have drop: "drop 0x7C small_tmd = body" by (simp add: small_tmd_def body_def)
  have count: "read16 body kTmdContentCount = Some 1"
    by (simp add: body_def tmd_offsets read16_def rd_def be16_def nth_append)
  have "content_at body 0 = Some small_content"
    by (simp add: content_at_def small_content_def body_def tmd_offsets Let_def read16_def read32_def read64_def rd_def getn_def
        be16_def be32_def be64_def nth_append)
  then have contents: "those (map (content_at body) [0..<unat (1 :: u16)]) = Some [small_content]" by simp
  have fields: "\<exists>tmd. tmd_fields 0x00010002 body = Some tmd \<and> t_issuer tmd = [0x2D, 0x43, 0x50] \<and> t_title_id tmd = 0"
    by (simp add: tmd_fields_def ReadIssuer_def body_def tmd_offsets read16_def read32_def read64_def rd_def getn_def
        be16_def be32_def be64_def nth_append takeWhile_append)
  have len: "length small_tmd = 324" by (simp add: small_tmd_def)
  from fields obtain tmd where "tmd_fields 0x00010002 body = Some tmd" "t_issuer tmd = [0x2D, 0x43, 0x50]" "t_title_id tmd = 0"
    by blast
  with type sig drop count contents len show ?thesis
    unfolding Tmd_Parse_cases by (simp add: kTmdContents_def kContentRecordSize_def)
qed

lemma Tmd_reparse_witness:
  "\<exists>t. Tmd_Parse (Some (t_raw t @ [1, 2, 3])) = Some (Some t) \<and> t_contents t = [small_content] \<and> t_raw t = small_tmd"
proof -
  obtain t where t: "Tmd_Parse (Some small_tmd) = Some (Some t)" "t_contents t = [small_content]" "t_raw t = small_tmd"
    using small_tmd_parses by blast
  from Tmd_reparse [OF t(1), of "[1, 2, 3]"] t show ?thesis by blast
qed

text \<open>No signature ends where a structure aligned to 64 bytes could begin.\<close>

lemma SignatureSize_unaligned: "SignatureSize type = Some n \<Longrightarrow> n mod 64 = 60"
  by (auto simp: SignatureSize_def split: if_splits)

end
