(* ===== verification/Nand_Wad.thy ===== *)
theory Nand_Wad
  imports Nand_Title
begin

text \<open>
  src/format/nand/wad.cpp: titles packed as one file. Sizes and offsets are \<open>size_t\<close>, 64 bits.
\<close>

definition kHeaderSize :: u64 where "kHeaderSize = 0x20"
definition kAlignment :: u64 where "kAlignment = 0x40"
definition kTypeInstallable :: u16 where "kTypeInstallable = 0x4973"
definition kTypeBoot2 :: u16 where "kTypeBoot2 = 0x6962"

datatype WadKind = Installable | Boot2

record WadSection =
  w_offset :: u64
  w_size :: u64

record Wad =
  w_kind :: WadKind
  w_ticket :: Ticket
  w_tmd :: Tmd
  w_certs :: WadSection
  w_crl :: WadSection
  w_footer :: WadSection
  w_contents :: "WadSection list"

definition Align :: "u64 \<Rightarrow> u64" where
  "Align v = (v + kAlignment - 1) AND NOT (kAlignment - 1)"

definition contains :: "bytes \<Rightarrow> bytes \<Rightarrow> bool" where
  "contains part txt = list_ex (\<lambda>i. take (length part) (drop i txt) = part) [0..<Suc (length txt)]"

definition signs_tickets :: "bytes \<Rightarrow> bool" where
  "signs_tickets issuer = contains [0x2D, 0x58, 0x53] issuer"

definition size_of :: "'a list \<Rightarrow> u64" where
  "size_of xs = of_nat (length xs)"

definition LooksLikeTicket :: "bytes \<Rightarrow> u64 \<Rightarrow> u64 \<Rightarrow> bool option" where
  "LooksLikeTicket file off n =
     (if size_of file < off + n then Some False
      else do {
        blob \<leftarrow> getn file (unat off) (unat n);
        ticket \<leftarrow> Ticket_Parse (Some blob);
        Some (case ticket of None \<Rightarrow> False | Some t \<Rightarrow> signs_tickets (k_issuer t)) })"

section \<open>Parsing\<close>

text \<open>Where the ticket and the TMD are, and where the contents begin.\<close>

definition place_sections :: "bytes \<Rightarrow> u64 \<Rightarrow> u64 \<Rightarrow> u64 \<Rightarrow> (WadSection \<times> WadSection \<times> u64) option" where
  "place_sections file off ticket_size tmd_size =
     (let tmd_after_ticket = Align (off + ticket_size); ticket_after_tmd = Align (off + tmd_size) in
      do {
        first \<leftarrow> LooksLikeTicket file off ticket_size;
        second \<leftarrow> (if first then Some False else LooksLikeTicket file ticket_after_tmd ticket_size);
        Some (if second
              then (\<lparr>w_offset = ticket_after_tmd, w_size = ticket_size\<rparr>, \<lparr>w_offset = off, w_size = tmd_size\<rparr>,
                    Align (ticket_after_tmd + ticket_size))
              else (\<lparr>w_offset = off, w_size = ticket_size\<rparr>, \<lparr>w_offset = tmd_after_ticket, w_size = tmd_size\<rparr>,
                    Align (tmd_after_ticket + tmd_size))) })"

text \<open>The extents of the contents and what follows them; \<open>None\<close> where one does not fit.\<close>

primrec wad_contents :: "bytes \<Rightarrow> ContentRecord list \<Rightarrow> u64 \<Rightarrow> (WadSection list \<times> u64) option" where
  "wad_contents file [] off = Some ([], off)"
| "wad_contents file (c # cs) off =
     (let n = EncryptedSize c in
      if size_of file < off + n then None
      else map_option (\<lambda>(ss, stop). (\<lparr>w_offset = off, w_size = n\<rparr> # ss, stop)) (wad_contents file cs (Align (off + n))))"

definition footer_section :: "bytes \<Rightarrow> u64 \<Rightarrow> u64 \<Rightarrow> WadSection" where
  "footer_section file off n = \<lparr>w_offset = off, w_size = if size_of file < off + n then 0 else n\<rparr>"

definition wad_fields :: "bytes \<Rightarrow> (u64 \<times> u64 \<times> u64 \<times> u64 \<times> u64 \<times> u64) option" where
  "wad_fields file = do {
     certs_size \<leftarrow> read32 file 0x08;
     crl_size \<leftarrow> read32 file 0x0C;
     ticket_size \<leftarrow> read32 file 0x10;
     tmd_size \<leftarrow> read32 file 0x14;
     data_size \<leftarrow> read32 file 0x18;
     footer_size \<leftarrow> read32 file 0x1C;
     Some (ucast certs_size, ucast crl_size, ucast ticket_size, ucast tmd_size, ucast data_size, ucast footer_size) }"

text \<open>The rest of parsing, once the two blobs are found.\<close>

definition wad_body :: "bytes \<Rightarrow> u64 \<Rightarrow> u64 \<Rightarrow> u64 \<Rightarrow> Wad \<Rightarrow> Wad option" where
  "wad_body file off data_size footer_size wad =
     (case wad_contents file (t_contents (w_tmd wad)) off of
        None \<Rightarrow> None
      | Some (ss, stop) \<Rightarrow>
          if data_size \<noteq> 0 \<and> Align data_size < stop - off then None
          else Some (wad\<lparr>w_contents := ss, w_footer := footer_section file stop footer_size\<rparr>))"

definition Wad_Parse :: "bytes \<Rightarrow> Wad option option" where
  "Wad_Parse file =
     (if size_of file < kHeaderSize then Some None
      else do {
        head \<leftarrow> read32 file 0;
        if ucast head \<noteq> kHeaderSize then Some None
        else do {
          type \<leftarrow> read16 file 0x04;
          if type \<noteq> kTypeInstallable \<and> type \<noteq> kTypeBoot2 then Some None
          else do {
            (certs_size, crl_size, ticket_size, tmd_size, data_size, footer_size) \<leftarrow> wad_fields file;
            let certs = \<lparr>w_offset = Align kHeaderSize, w_size = certs_size\<rparr>;
                off = Align (Align kHeaderSize + certs_size);
                crl = \<lparr>w_offset = off, w_size = crl_size\<rparr>;
                off = Align (off + crl_size) in
            do {
              (ticket_at, tmd_at, off) \<leftarrow> place_sections file off ticket_size tmd_size;
              if size_of file < off \<or> size_of file < w_offset ticket_at + w_size ticket_at \<or>
                 size_of file < w_offset tmd_at + w_size tmd_at
              then Some None
              else do {
                ticket_blob \<leftarrow> getn file (unat (w_offset ticket_at)) (unat (w_size ticket_at));
                tmd_blob \<leftarrow> getn file (unat (w_offset tmd_at)) (unat (w_size tmd_at));
                ticket \<leftarrow> Ticket_Parse (Some ticket_blob);
                tmd \<leftarrow> Tmd_Parse (Some tmd_blob);
                Some (case (ticket, tmd) of
                    (Some ticket, Some tmd) \<Rightarrow>
                      wad_body file off data_size footer_size
                        \<lparr>w_kind = if type = kTypeBoot2 then Boot2 else Installable, w_ticket = ticket, w_tmd = tmd,
                          w_certs = certs, w_crl = crl, w_footer = \<lparr>w_offset = 0, w_size = 0\<rparr>, w_contents = []\<rparr>
                  | _ \<Rightarrow> None) } } } } })"

definition Wad_Content :: "Wad \<Rightarrow> u16 \<Rightarrow> WadSection option" where
  "Wad_Content wad index =
     (let cs = t_contents (w_tmd wad) in
      map_option (\<lambda>i. w_contents wad ! i)
        (List.find (\<lambda>i. c_index (cs ! i) = index \<and> i < length (w_contents wad)) [0..<length cs]))"

section \<open>Building\<close>

definition Pad :: "bytes \<Rightarrow> bytes" where
  "Pad out = resize (unat (Align (size_of out))) out"

definition section_of :: "bytes \<Rightarrow> bytes \<Rightarrow> bytes" where
  "section_of bs out = Pad (out @ bs)"

definition wad_header :: "WadKind \<Rightarrow> bytes \<Rightarrow> bytes \<Rightarrow> bytes \<Rightarrow> bytes list \<Rightarrow> bytes \<Rightarrow> bytes" where
  "wad_header kind certificates ticket tmd contents footer =
     (let data_size = fold (\<lambda>content n. n + Align (size_of content)) contents 0;
          type = (if kind = Boot2 then kTypeBoot2 else kTypeInstallable) in
      Pad (bytes32 (ucast kHeaderSize) @ [ucast (drop_bit 8 type), ucast (type AND 0xFF)] @ [0, 0] @
        bytes32 (ucast (size_of certificates)) @ bytes32 0 @ bytes32 (ucast (size_of ticket)) @
        bytes32 (ucast (size_of tmd)) @ bytes32 (ucast data_size) @ bytes32 (ucast (size_of footer))))"

definition Wad_Build :: "WadKind \<Rightarrow> bytes \<Rightarrow> bytes \<Rightarrow> bytes \<Rightarrow> bytes list \<Rightarrow> bytes \<Rightarrow> bytes" where
  "Wad_Build kind certificates ticket tmd contents footer =
     (let out = section_of certificates (wad_header kind certificates ticket tmd contents footer);
          out = (if kind = Boot2 then section_of ticket (section_of tmd out) else section_of tmd (section_of ticket out));
          out = fold section_of contents out in
      if footer = [] then out else section_of footer out)"

section \<open>Describing\<close>

fun decimal :: "nat \<Rightarrow> bytes" where
  "decimal n = (if n < 10 then [0x30 + of_nat n] else decimal (n div 10) @ [0x30 + of_nat (n mod 10)])"

declare decimal.simps [simp del]

definition Describe :: "Wad \<Rightarrow> bytes" where
  "Describe wad =
     (let ident = t_title_id (w_tmd wad); code = Code ident in
      HighHex ident @ ascii ''/'' @ LowHex ident @ (if code \<noteq> [] then ascii '' ('' @ code @ ascii '')'' else []) @
      ascii '' v'' @ decimal (unat (t_title_version (w_tmd wad))) @
      (if w_kind wad = Boot2 then ascii '', boot2'' else []))"

section \<open>Padding\<close>

definition pad64 :: "nat \<Rightarrow> nat" where
  "pad64 n = (n + 63) div 64 * 64"

definition padded :: "bytes \<Rightarrow> bytes" where
  "padded bs = bs @ replicate (pad64 (length bs) - length bs) 0"

lemma pad64_ge: "n \<le> pad64 n" "pad64 n < n + 64"
  unfolding pad64_def by linarith+

lemma pad64_add: "k mod 64 = 0 \<Longrightarrow> pad64 (k + n) = k + pad64 n"
  by (auto simp: pad64_def add.assoc elim!: dvdE simp flip: dvd_eq_mod_eq_0)

lemma pad64_mod [simp]: "pad64 n mod 64 = 0"
  by (simp add: pad64_def)

lemma length_padded [simp]: "length (padded bs) = pad64 (length bs)"
  using pad64_ge(1) [of "length bs"] by (simp add: padded_def)

lemma length_padded_mod: "length (concat (map padded bss)) mod 64 = 0"
  by (induction bss) (simp_all add: mod_add_eq [symmetric])

lemma unat_less_u64: "unat (w :: u64) < 2 ^ 64"
  using unsigned_less [of w] by simp

lemma unat_and_not_63: "unat (w AND NOT 63 :: u64) = unat w div 64 * 64"
proof -
  have "w AND NOT (mask 6) = push_bit 6 (drop_bit 6 w)"
    by (rule bit_word_eqI) (auto simp: bit_simps)
  then have "w AND NOT 63 = push_bit 6 (drop_bit 6 w)" by (simp add: mask_eq_exp_minus_1)
  moreover have "unat (drop_bit 6 w) = unat w div 64" by (simp add: unat_drop_bit)
  moreover have "unat w div 64 * 64 < 2 ^ 64"
    using unat_less_u64 [of w] by linarith
  ultimately show ?thesis using unat_push_bit_small [of "drop_bit 6 w" 6] by simp
qed

lemma unat_Align: "unat v + 63 < 2 ^ 64 \<Longrightarrow> unat (Align v) = pad64 (unat v)"
proof -
  assume v: "unat v + 63 < 2 ^ 64"
  have "Align v = (v + 63) AND NOT 63" by (simp add: Align_def kAlignment_def add.commute)
  moreover have "unat (v + 63) = unat v + 63" using v by (simp add: unat_word_ariths)
  ultimately show ?thesis by (simp only: unat_and_not_63 pad64_def)
qed

lemma unat_size_of: "length xs < 2 ^ 64 \<Longrightarrow> unat (size_of xs) = length xs"
  by (simp add: size_of_def unat_of_nat take_bit_nat_eq_self)

lemma Pad_padded: "length out + 63 < 2 ^ 64 \<Longrightarrow> Pad out = padded out"
  using pad64_ge(1) [of "length out"] by (simp add: Pad_def padded_def resize_def unat_Align unat_size_of)

lemma section_of_padded:
  assumes "length out mod 64 = 0" "length out + length bs + 63 < 2 ^ 64"
  shows "section_of bs out = out @ padded bs"
proof -
  have "section_of bs out = padded (out @ bs)" using assms(2) by (simp add: section_of_def Pad_padded)
  then show ?thesis using pad64_add [OF assms(1), of "length bs"] by (simp add: padded_def)
qed

lemma sections_padded:
  assumes "length out mod 64 = 0" "length out + length (concat (map padded bss)) + 64 < 2 ^ 64"
  shows "fold section_of bss out = out @ concat (map padded bss)"
  using assms
proof (induction bss arbitrary: out)
  case (Cons bs bss)
  have "length out + length bs + 63 < 2 ^ 64" using Cons.prems(2) pad64_ge(1) [of "length bs"] by simp
  from section_of_padded [OF Cons.prems(1) this] have step: "section_of bs out = out @ padded bs" .
  have "length (out @ padded bs) mod 64 = 0" using Cons.prems(1) by (simp add: mod_add_eq [symmetric])
  from Cons.IH [OF this] step Cons.prems(2) show ?case by simp
qed simp

section \<open>Contents\<close>

definition section_bytes :: "bytes \<Rightarrow> WadSection \<Rightarrow> bytes option" where
  "section_bytes file s = getn file (unat (w_offset s)) (unat (w_size s))"

lemma section_bytes_middle:
  "unat off = length pre \<Longrightarrow> unat n = length bs \<Longrightarrow>
     section_bytes (pre @ bs @ post) \<lparr>w_offset = off, w_size = n\<rparr> = Some bs"
  by (simp add: section_bytes_def getn_middle)

lemma unat_sum: "unat a + unat b < 2 ^ 64 \<Longrightarrow> unat (a + b :: u64) = unat a + unat b"
  by (simp add: unat_word_ariths)

lemma wad_contents_built:
  assumes "list_all2 (\<lambda>c bs. EncryptedSize c = size_of bs) cs bss"
    and "length pre mod 64 = 0" "unat off = length pre" "length pre + length (concat (map padded bss)) + length post < 2 ^ 32"
  shows "\<exists>ss stop. wad_contents (pre @ concat (map padded bss) @ post) cs off = Some (ss, stop) \<and>
     unat stop = length pre + length (concat (map padded bss)) \<and>
     list_all2 (\<lambda>s bs. section_bytes (pre @ concat (map padded bss) @ post) s = Some bs) ss bss"
  using assms
proof (induction arbitrary: pre off)
  case (Cons c cs bs bss)
  let ?tail = "replicate (pad64 (length bs) - length bs) 0"
  let ?file = "pre @ concat (map padded (bs # bss)) @ post"
  have whole: "?file = (pre @ padded bs) @ concat (map padded bss) @ post" by simp
  have small: "length pre + pad64 (length bs) + length (concat (map padded bss)) + length post < 2 ^ 32"
    using Cons.prems(3) by simp
  have n: "unat (size_of bs) = length bs" using small pad64_ge(1) [of "length bs"] by (intro unat_size_of) simp
  have ob: "unat (off + size_of bs) = length pre + length bs"
    using small pad64_ge(1) [of "length bs"] n Cons.prems(2) by (subst unat_sum) simp_all
  have off': "unat (Align (off + size_of bs)) = length (pre @ padded bs)"
    using small pad64_ge(1) [of "length bs"] ob pad64_add [OF Cons.prems(1), of "length bs"] by (subst unat_Align) simp_all
  have "length (pre @ padded bs) mod 64 = 0" using Cons.prems(1) by (simp add: mod_add_eq [symmetric])
  from Cons.IH [OF this off'] small obtain ss stop where rest:
    "wad_contents ?file cs (Align (off + size_of bs)) = Some (ss, stop)"
    "unat stop = length pre + length (concat (map padded (bs # bss)))"
    "list_all2 (\<lambda>s bs. section_bytes ?file s = Some bs) ss bss"
    unfolding whole by fastforce
  have "section_bytes ?file \<lparr>w_offset = off, w_size = size_of bs\<rparr> = Some bs"
    using section_bytes_middle [OF Cons.prems(2) n, of "?tail @ concat (map padded bss) @ post"] by (simp add: padded_def)
  moreover have "\<not> size_of ?file < off + size_of bs"
    using ob small pad64_ge(1) [of "length bs"] by (simp add: word_less_nat_alt unat_size_of)
  ultimately show ?case using rest Cons.hyps(1) by (simp add: Let_def)
qed simp

section \<open>The file that is built\<close>

definition built_size :: "bytes \<Rightarrow> bytes \<Rightarrow> bytes \<Rightarrow> bytes list \<Rightarrow> bytes \<Rightarrow> nat" where
  "built_size certificates ticket tmd contents footer =
     64 + pad64 (length certificates) + pad64 (length ticket) + pad64 (length tmd) +
     length (concat (map padded contents)) + pad64 (length footer)"

definition data_total :: "bytes list \<Rightarrow> u64" where
  "data_total contents = fold (\<lambda>content n. n + Align (size_of content)) contents 0"

lemma padded_Nil [simp]: "padded [] = []"
  by (simp add: padded_def pad64_def)

lemma ucast_there_and_back: "unat w < 2 ^ 32 \<Longrightarrow> ucast (ucast w :: u32) = (w :: u64)"
proof -
  assume "unat w < 2 ^ 32"
  then have "unat (take_bit 32 w) = unat w" by (simp only: unsigned_take_bit_eq take_bit_nat_eq_self)
  then have "take_bit 32 w = w" by (rule unsigned_word_eqI)
  moreover have "ucast (ucast w :: u32) = take_bit 32 w" by (rule bit_word_eqI) (auto simp: bit_simps)
  ultimately show ?thesis by (rule trans [rotated])
qed

lemma fold_data_total:
  "unat n + length (concat (map padded bss)) < 2 ^ 32 \<Longrightarrow>
     unat (fold (\<lambda>content n. n + Align (size_of content)) bss n) = unat n + length (concat (map padded bss))"
proof (induction bss arbitrary: n)
  case (Cons bs bss)
  have a: "unat (Align (size_of bs)) = pad64 (length bs)"
    using Cons.prems pad64_ge(1) [of "length bs"] by (simp add: unat_Align unat_size_of)
  then have "unat (n + Align (size_of bs)) = unat n + pad64 (length bs)"
    using Cons.prems by (subst unat_sum) simp_all
  then show ?case using Cons.IH [of "n + Align (size_of bs)"] Cons.prems by simp
qed simp

lemma wad_header_parts:
  fixes kind
  assumes "built_size certificates ticket tmd contents footer < 2 ^ 32"
  defines "H \<equiv> wad_header kind certificates ticket tmd contents footer"
  shows "length H = 64" "read32 (H @ rest) 0 = Some 0x20"
    "read16 (H @ rest) 4 = Some (if kind = Boot2 then kTypeBoot2 else kTypeInstallable)"
    "wad_fields (H @ rest) = Some (size_of certificates, 0, size_of ticket, size_of tmd, data_total contents, size_of footer)"
proof -
  define type where "type = (if kind = Boot2 then kTypeBoot2 else kTypeInstallable)"
  define H0 where "H0 = bytes32 0x20 @ [ucast (drop_bit 8 type), ucast (type AND 0xFF)] @ [0, 0] @
    bytes32 (ucast (size_of certificates)) @ bytes32 0 @ bytes32 (ucast (size_of ticket)) @
    bytes32 (ucast (size_of tmd)) @ bytes32 (ucast (data_total contents)) @ bytes32 (ucast (size_of footer))"
  have len: "length H0 = 32" by (simp add: H0_def)
  have H: "H = H0 @ replicate 32 0"
    unfolding H_def wad_header_def Let_def H0_def [symmetric] type_def [symmetric] data_total_def [symmetric]
    using Pad_padded [of H0] len
    by (simp add: H0_def data_total_def type_def kHeaderSize_def padded_def pad64_def)
  then show "length H = 64" using len by simp
  have "ucast (type AND mask 8) = (ucast type :: u8)" by (rule bit_word_eqI) (auto simp: bit_simps)
  then have low: "ucast (type AND 0xFF) = (ucast type :: u8)" by (simp add: mask_eq_exp_minus_1)
  have "read32 H0 0 = Some 0x20" "read16 H0 4 = Some type"
    by (simp_all add: H0_def bytes32_def read32_def read16_def rd_def be32_bytes be16_bytes low be32_def)
  then show "read32 (H @ rest) 0 = Some 0x20" "read16 (H @ rest) 4 = Some (if kind = Boot2 then kTypeBoot2 else kTypeInstallable)"
    unfolding H type_def [symmetric] by (simp_all add: read32_more read16_more)
  have kept: "ucast (ucast (size_of xs) :: u32) = size_of xs" if "length xs < 2 ^ 32" for xs :: bytes
    using that by (intro ucast_there_and_back) (simp add: unat_size_of)
  have sizes: "length certificates < 2 ^ 32" "length ticket < 2 ^ 32" "length tmd < 2 ^ 32" "length footer < 2 ^ 32"
    using assms(1) pad64_ge(1) [of "length certificates"] pad64_ge(1) [of "length ticket"] pad64_ge(1) [of "length tmd"]
      pad64_ge(1) [of "length footer"] by (simp_all add: built_size_def)
  have data: "ucast (ucast (data_total contents) :: u32) = data_total contents"
    using assms(1) fold_data_total [of 0 contents] by (intro ucast_there_and_back) (simp add: data_total_def built_size_def)
  have "read32 H0 0x0C = Some 0" by (simp add: H0_def bytes32_def read32_def rd_def be32_def)
  moreover have "read32 H0 0x08 = Some (ucast (size_of certificates))" "read32 H0 0x10 = Some (ucast (size_of ticket))"
    "read32 H0 0x14 = Some (ucast (size_of tmd))" "read32 H0 0x18 = Some (ucast (data_total contents))"
    "read32 H0 0x1C = Some (ucast (size_of footer))"
    by (simp_all add: H0_def bytes32_def read32_def rd_def be32_bytes)
  ultimately show "wad_fields (H @ rest) = Some (size_of certificates, 0, size_of ticket, size_of tmd, data_total contents, size_of footer)"
    unfolding H by (simp add: wad_fields_def read32_more kept [OF sizes(1)] kept [OF sizes(2)] kept [OF sizes(3)] kept [OF sizes(4)] data)
qed

lemma Wad_Build_layout:
  assumes "built_size certificates ticket tmd contents footer < 2 ^ 32"
  shows "Wad_Build kind certificates ticket tmd contents footer =
    wad_header kind certificates ticket tmd contents footer @ padded certificates @
    (if kind = Boot2 then padded tmd @ padded ticket else padded ticket @ padded tmd) @
    concat (map padded contents) @ padded footer"
proof -
  let ?H = "wad_header kind certificates ticket tmd contents footer"
  let ?all = "[certificates] @ (if kind = Boot2 then [tmd, ticket] else [ticket, tmd]) @ contents @ (if footer = [] then [] else [footer])"
  have "Wad_Build kind certificates ticket tmd contents footer = fold section_of ?all ?H"
    by (simp add: Wad_Build_def Let_def)
  also have "\<dots> = ?H @ concat (map padded ?all)"
    using assms wad_header_parts(1) [OF assms, of kind] by (intro sections_padded) (auto simp: built_size_def)
  finally show ?thesis by simp
qed

section \<open>Telling a ticket from a TMD\<close>

lemma LooksLikeTicket_blob:
  assumes "unat off = length pre" "unat n = length blob" "length (pre @ blob @ post) < 2 ^ 63"
  shows "LooksLikeTicket (pre @ blob @ post) off n =
    map_option (\<lambda>ticket. case ticket of None \<Rightarrow> False | Some t \<Rightarrow> signs_tickets (k_issuer t)) (Ticket_Parse (Some blob))"
proof -
  have "unat (off + n) = length pre + length blob" using assms by (subst unat_sum) simp_all
  then have "\<not> size_of (pre @ blob @ post) < off + n" using assms(3) by (simp add: word_less_nat_alt unat_size_of)
  then show ?thesis using assms(1,2) getn_middle [of blob _ pre post]
    by (simp add: LooksLikeTicket_def map_conv_bind_option comp_def)
qed

lemma ticket_issuer: "ticket_fields type body raw = Some t \<Longrightarrow> ReadIssuer body = Some (k_issuer t)"
  by (auto simp: ticket_fields_def split: Option.bind_splits)

lemma tmd_issuer: "tmd_fields type body = Some t \<Longrightarrow> ReadIssuer body = Some (t_issuer t)"
  by (auto simp: tmd_fields_def split: Option.bind_splits)

lemma ReadIssuer_take: "0x40 \<le> length p \<Longrightarrow> ReadIssuer p = Some (takeWhile (\<lambda>b. b \<noteq> 0) (take 0x40 p))"
  by (simp add: ReadIssuer_def getn_def)

lemma issuer_same:
  assumes "Ticket_Parse (Some (take k (d @ q))) = Some (Some t)" "Tmd_Parse (Some d) = Some (Some m)"
  shows "k_issuer t = t_issuer m"
proof -
  let ?p = "take k (d @ q)"
  obtain type n where p: "4 \<le> length ?p" "read32 ?p 0 = Some type" "SignatureSize type = Some n" "n + kBodySize \<le> length ?p"
    "ticket_fields type (drop n ?p) (take (n + kBodySize) ?p) = Some t"
    using assms(1) unfolding Ticket_Parse_cases by blast
  obtain type' n' tmd where d: "4 \<le> length d" "read32 d 0 = Some type'" "SignatureSize type' = Some n'" "n' + kTmdContents \<le> length d"
    "tmd_fields type' (drop n' d) = Some tmd" "t_issuer m = t_issuer tmd"
    using assms(2) unfolding Tmd_Parse_cases by auto
  have "4 \<le> k" using p(1) by simp
  then have "?p ! i = d ! i" if "i < 4" for i using that d(1) by (simp add: nth_append del: take_append)
  then have "type' = type" using p(1,2) d(1,2) by (simp add: read32_Some del: take_append length_take)
  then have n: "n' = n" using p(3) d(3) by simp
  have k: "n + 0x40 \<le> k" "n + 0x40 \<le> length d" using p(4) d(4) n by (simp_all add: kBodySize_def kTmdContents_def)
  then have same: "take 0x40 (drop n ?p) = take 0x40 (drop n d)" by (simp add: drop_take min_def)
  have "Some (k_issuer t) = ReadIssuer (drop n ?p)" using ticket_issuer [OF p(5)] by simp
  also have "\<dots> = ReadIssuer (drop n d)" using k p(4) same by (simp add: ReadIssuer_take kBodySize_def)
  also have "\<dots> = Some (t_issuer m)" using tmd_issuer [OF d(5)] n d(6) by simp
  finally show ?thesis by simp
qed

lemma LooksLikeTicket_tmd:
  assumes "unat off = length pre" "Tmd_Parse (Some tmd) = Some (Some m)" "\<not> signs_tickets (t_issuer m)"
    "length (pre @ tmd @ post) < 2 ^ 63" "unat n < 2 ^ 32"
  shows "LooksLikeTicket (pre @ tmd @ post) off n = Some False"
proof (cases "size_of (pre @ tmd @ post) < off + n")
  case False
  have "unat (off + n) = length pre + unat n" using assms by (subst unat_sum) simp_all
  then have "length pre + unat n \<le> length (pre @ tmd @ post)"
    using False assms(4) by (simp add: word_less_nat_alt unat_size_of)
  then have blob: "getn (pre @ tmd @ post) (unat off) (unat n) = Some (take (unat n) (tmd @ post))"
    using assms(1) by (simp add: getn_def)
  obtain r where r: "Ticket_Parse (Some (take (unat n) (tmd @ post))) = Some r" using Ticket_Parse_total by blast
  have "\<not> signs_tickets (k_issuer t)" if "r = Some t" for t
    using issuer_same [of "unat n" tmd post t m] r that assms(2,3) by simp
  then show ?thesis using False blob r by (simp add: LooksLikeTicket_def split: option.split)
qed (simp add: LooksLikeTicket_def)

section \<open>What is built is read back\<close>

definition wad_parts ::
  "WadKind \<Rightarrow> bytes \<Rightarrow> Ticket \<Rightarrow> Tmd \<Rightarrow> bytes list \<Rightarrow> bytes \<Rightarrow> bytes \<Rightarrow> Wad \<Rightarrow> bool" where
  "wad_parts kind certificates ticket tmd contents footer file w \<longleftrightarrow>
     w_kind w = kind \<and> w_ticket w = ticket \<and> w_tmd w = tmd \<and>
     section_bytes file (w_certs w) = Some certificates \<and> section_bytes file (w_crl w) = Some [] \<and>
     list_all2 (\<lambda>s bs. section_bytes file s = Some bs) (w_contents w) contents \<and>
     section_bytes file (w_footer w) = Some footer"

lemma section_fits:
  assumes "section_bytes file s = Some bs" "length file < 2 ^ 63"
  shows "\<not> size_of file < w_offset s + w_size s"
proof -
  have "unat (w_offset s) + unat (w_size s) \<le> length file"
    using assms(1) by (auto simp: section_bytes_def getn_def split: if_splits)
  moreover from this have "unat (w_offset s + w_size s) = unat (w_offset s) + unat (w_size s)"
    using assms(2) by (intro unat_sum) simp
  ultimately show ?thesis using assms(2) by (simp add: word_less_nat_alt unat_size_of)
qed

lemma unat_Align_add:
  assumes "unat off = k" "k mod 64 = 0" "k + pad64 (length bs) < 2 ^ 32"
  shows "unat (Align (off + size_of bs)) = k + pad64 (length bs)"
proof -
  have n: "unat (size_of bs) = length bs" using assms(3) pad64_ge(1) [of "length bs"] by (intro unat_size_of) simp
  then have "unat (off + size_of bs) = k + length bs"
    using assms(1,3) pad64_ge(1) [of "length bs"] by (subst unat_sum) simp_all
  then show ?thesis using assms(2,3) pad64_ge(1) [of "length bs"] by (subst unat_Align) (simp_all add: pad64_add)
qed

lemma place_sections_built:
  assumes off: "unat off = length P" "length P mod 64 = 0"
    and small: "length P + pad64 (length ticket) + pad64 (length tmd) + length R < 2 ^ 32"
    and ticket: "Ticket_Parse (Some ticket) = Some (Some t)" "signs_tickets (k_issuer t)"
    and tmd: "Tmd_Parse (Some tmd) = Some (Some m)" "\<not> signs_tickets (t_issuer m)"
    and whole_file: "file = P @ (if kind = Boot2 then padded tmd @ padded ticket else padded ticket @ padded tmd) @ R"
  shows "\<exists>at mt stop. place_sections file off (size_of ticket) (size_of tmd) = Some (at, mt, stop) \<and>
     section_bytes file at = Some ticket \<and> section_bytes file mt = Some tmd \<and>
     unat stop = length P + pad64 (length ticket) + pad64 (length tmd)"
proof -
  let ?gap = "\<lambda>bs. replicate (pad64 (length bs) - length bs) (0 :: u8)"
  have sizes: "unat (size_of ticket) = length ticket" "unat (size_of tmd) = length tmd"
    using small pad64_ge(1) [of "length ticket"] pad64_ge(1) [of "length tmd"] by (intro unat_size_of; simp)+
  have after: "unat (Align (off + size_of ticket)) = length P + pad64 (length ticket)"
    "unat (Align (off + size_of tmd)) = length P + pad64 (length tmd)"
    using small off by (intro unat_Align_add; simp)+
  have mods: "(length P + pad64 n) mod 64 = 0" for n using off(2) by (simp add: mod_add_eq [symmetric])
  have ends: "unat (Align (Align (off + size_of ticket) + size_of tmd)) = length P + pad64 (length ticket) + pad64 (length tmd)"
    "unat (Align (Align (off + size_of tmd) + size_of ticket)) = length P + pad64 (length ticket) + pad64 (length tmd)"
    using small by (subst unat_Align_add [OF after(1) mods], simp_all) (subst unat_Align_add [OF after(2) mods], simp_all)
  show ?thesis
  proof (cases kind)
    case Installable
    have whole: "file = P @ ticket @ (?gap ticket @ padded tmd @ R)" "file = (P @ padded ticket) @ tmd @ (?gap tmd @ R)"
      using Installable by (simp_all add: whole_file padded_def)
    have "LooksLikeTicket file off (size_of ticket) = Some True"
      unfolding whole(1) using small sizes off ticket pad64_ge(1) [of "length ticket"]
      by (subst LooksLikeTicket_blob) simp_all
    then have "place_sections file off (size_of ticket) (size_of tmd) =
      Some (\<lparr>w_offset = off, w_size = size_of ticket\<rparr>, \<lparr>w_offset = Align (off + size_of ticket), w_size = size_of tmd\<rparr>,
        Align (Align (off + size_of ticket) + size_of tmd))"
      by (simp add: place_sections_def Let_def)
    moreover have "section_bytes file \<lparr>w_offset = off, w_size = size_of ticket\<rparr> = Some ticket"
      unfolding whole(1) using off sizes by (intro section_bytes_middle) simp_all
    moreover have "section_bytes file \<lparr>w_offset = Align (off + size_of ticket), w_size = size_of tmd\<rparr> = Some tmd"
      unfolding whole(2) using after sizes by (intro section_bytes_middle) simp_all
    ultimately show ?thesis using ends by blast
  next
    case Boot2
    have whole: "file = P @ tmd @ (?gap tmd @ padded ticket @ R)" "file = (P @ padded tmd) @ ticket @ (?gap ticket @ R)"
      using Boot2 by (simp_all add: whole_file padded_def)
    have "LooksLikeTicket file off (size_of ticket) = Some False"
      unfolding whole(1) using small sizes off pad64_ge(1) [of "length ticket"] pad64_ge(1) [of "length tmd"]
      by (intro LooksLikeTicket_tmd [OF off(1) tmd]) simp_all
    moreover have "LooksLikeTicket file (Align (off + size_of tmd)) (size_of ticket) = Some True"
      unfolding whole(2) using small sizes after ticket pad64_ge(1) [of "length ticket"]
      by (subst LooksLikeTicket_blob) simp_all
    ultimately have "place_sections file off (size_of ticket) (size_of tmd) =
      Some (\<lparr>w_offset = Align (off + size_of tmd), w_size = size_of ticket\<rparr>, \<lparr>w_offset = off, w_size = size_of tmd\<rparr>,
        Align (Align (off + size_of tmd) + size_of ticket))"
      by (simp add: place_sections_def Let_def)
    moreover have "section_bytes file \<lparr>w_offset = off, w_size = size_of tmd\<rparr> = Some tmd"
      unfolding whole(1) using off sizes by (intro section_bytes_middle) simp_all
    moreover have "section_bytes file \<lparr>w_offset = Align (off + size_of tmd), w_size = size_of ticket\<rparr> = Some ticket"
      unfolding whole(2) using after sizes by (intro section_bytes_middle) simp_all
    ultimately show ?thesis using ends by blast
  qed
qed

lemma wad_body_built:
  assumes recs: "list_all2 (\<lambda>c bs. EncryptedSize c = size_of bs) (t_contents (w_tmd wad)) contents"
    and pre: "length pre mod 64 = 0" "unat off = length pre"
    and small: "length pre + length (concat (map padded contents)) + pad64 (length footer) < 2 ^ 32"
    and whole_file: "file = pre @ concat (map padded contents) @ padded footer"
  shows "\<exists>ss foot. wad_body file off (data_total contents) (size_of footer) wad = Some (wad\<lparr>w_contents := ss, w_footer := foot\<rparr>) \<and>
     list_all2 (\<lambda>s bs. section_bytes file s = Some bs) ss contents \<and> section_bytes file foot = Some footer"
proof -
  let ?C = "concat (map padded contents)"
  have small': "length pre + length ?C + length (padded footer) < 2 ^ 32" using small by simp
  obtain ss stop where ss: "wad_contents file (t_contents (w_tmd wad)) off = Some (ss, stop)" "unat stop = length pre + length ?C"
      "list_all2 (\<lambda>s bs. section_bytes file s = Some bs) ss contents"
    using wad_contents_built [OF recs pre small'] unfolding whole_file by blast
  have data: "unat (data_total contents) = length ?C" using fold_data_total [of 0 contents] small by (simp add: data_total_def)
  have "pad64 (length ?C) = length ?C" using pad64_add [OF length_padded_mod [of contents], of 0] by (simp add: pad64_def)
  then have "unat (Align (data_total contents)) = length ?C" using small data by (subst unat_Align) simp_all
  moreover have "unat (stop - off) = length ?C" using ss(2) pre(2) by (simp add: unat_sub_if')
  ultimately have fits: "\<not> Align (data_total contents) < stop - off" by (simp add: word_less_nat_alt)
  have foot: "section_bytes file \<lparr>w_offset = stop, w_size = size_of footer\<rparr> = Some footer"
    using section_bytes_middle [of stop "pre @ ?C" "size_of footer" footer "replicate (pad64 (length footer) - length footer) 0"]
      ss(2) small pad64_ge(1) [of "length footer"] by (simp add: whole_file padded_def unat_size_of)
  moreover have "length file < 2 ^ 63" using small by (simp add: whole_file)
  ultimately have "footer_section file stop (size_of footer) = \<lparr>w_offset = stop, w_size = size_of footer\<rparr>"
    using section_fits by (fastforce simp: footer_section_def)
  with ss fits have "wad_body file off (data_total contents) (size_of footer) wad =
      Some (wad\<lparr>w_contents := ss, w_footer := \<lparr>w_offset = stop, w_size = size_of footer\<rparr>\<rparr>)"
    by (simp add: wad_body_def)
  with ss foot show ?thesis by blast
qed

lemma sections_start:
  assumes "64 + pad64 (length certificates) < 2 ^ 32"
  shows "unat (Align kHeaderSize) = 64"
    "unat (Align (Align kHeaderSize + size_of certificates)) = 64 + pad64 (length certificates)"
    "unat (Align (Align (Align kHeaderSize + size_of certificates) + 0)) = 64 + pad64 (length certificates)"
proof -
  show start: "unat (Align kHeaderSize) = 64" by (simp add: unat_Align kHeaderSize_def pad64_def)
  show certs: "unat (Align (Align kHeaderSize + size_of certificates)) = 64 + pad64 (length certificates)"
    using assms start by (subst unat_Align_add [of _ 64]) simp_all
  have "pad64 (64 + pad64 (length certificates)) = 64 + pad64 (length certificates)"
    using pad64_add [of "64 + pad64 (length certificates)" 0] by (simp add: mod_add_eq [symmetric] pad64_def [of 0])
  then show "unat (Align (Align (Align kHeaderSize + size_of certificates) + 0)) = 64 + pad64 (length certificates)"
    using certs assms by (subst unat_Align) simp_all
qed

lemma Wad_Parse_fields:
  assumes "read32 whole 0 = Some 0x20" "read16 whole 0x04 = Some (if kind = Boot2 then kTypeBoot2 else kTypeInstallable)"
    and "wad_fields whole = Some (certs_size, crl_size, ticket_size, tmd_size, data_size, footer_size)"
    and "place_sections whole (Align (Align (Align kHeaderSize + certs_size) + crl_size)) ticket_size tmd_size = Some (at, mt, stop)"
    and "section_bytes whole at = Some ticket" "section_bytes whole mt = Some tmd"
    and "Ticket_Parse (Some ticket) = Some (Some t)" "Tmd_Parse (Some tmd) = Some (Some m)"
    and "length whole < 2 ^ 63" "unat stop \<le> length whole" "0x20 \<le> length whole"
  shows "Wad_Parse whole = Some (wad_body whole stop data_size footer_size
    \<lparr>w_kind = kind, w_ticket = t, w_tmd = m, w_certs = \<lparr>w_offset = Align kHeaderSize, w_size = certs_size\<rparr>,
      w_crl = \<lparr>w_offset = Align (Align kHeaderSize + certs_size), w_size = crl_size\<rparr>,
      w_footer = \<lparr>w_offset = 0, w_size = 0\<rparr>, w_contents = []\<rparr>)"
proof -
  have "\<not> size_of whole < w_offset at + w_size at" "\<not> size_of whole < w_offset mt + w_size mt"
    "\<not> size_of whole < stop" "\<not> size_of whole < kHeaderSize"
    using section_fits [OF assms(5,9)] section_fits [OF assms(6,9)] assms(9-11)
    by (simp_all add: word_less_nat_alt unat_size_of kHeaderSize_def)
  moreover have "kTypeInstallable \<noteq> kTypeBoot2" by (simp add: kTypeBoot2_def kTypeInstallable_def)
  ultimately show ?thesis
    unfolding Wad_Parse_def using assms(1-8) by (cases kind) (simp_all add: Let_def section_bytes_def kHeaderSize_def)
qed

lemma Wad_Build_parses:
  assumes small: "built_size certificates ticket tmd contents footer < 2 ^ 32"
    and ticket: "Ticket_Parse (Some ticket) = Some (Some t)" "signs_tickets (k_issuer t)"
    and tmd: "Tmd_Parse (Some tmd) = Some (Some m)" "\<not> signs_tickets (t_issuer m)"
    and recs: "list_all2 (\<lambda>c bs. EncryptedSize c = size_of bs) (t_contents m) contents"
  shows "\<exists>w. Wad_Parse (Wad_Build kind certificates ticket tmd contents footer) = Some (Some w) \<and>
     wad_parts kind certificates t m contents footer (Wad_Build kind certificates ticket tmd contents footer) w"
proof -
  define H where "H = wad_header kind certificates ticket tmd contents footer"
  define two where "two = (if kind = Boot2 then padded tmd @ padded ticket else padded ticket @ padded tmd)"
  define R where "R = concat (map padded contents) @ padded footer"
  define whole where "whole = Wad_Build kind certificates ticket tmd contents footer"
  let ?P = "H @ padded certificates"
  note head = wad_header_parts [OF small, of kind, folded H_def]
  have layout: "whole = ?P @ two @ R" unfolding whole_def H_def two_def R_def using Wad_Build_layout [OF small] by simp
  have len: "length whole < 2 ^ 32" "length ?P = 64 + pad64 (length certificates)" "length two = pad64 (length ticket) + pad64 (length tmd)"
    using small head(1) unfolding layout by (simp_all add: two_def R_def built_size_def)
  have mods: "length ?P mod 64 = 0" using len(2) by (simp add: mod_add_eq [symmetric])
  note start = sections_start [of certificates]
  let ?off = "Align (Align (Align kHeaderSize + size_of certificates) + 0)"
  have off: "unat ?off = length ?P" "unat (Align (Align kHeaderSize + size_of certificates)) = length ?P"
    using start(2,3) small len(2) by (simp_all add: built_size_def)
  have "length ?P + pad64 (length ticket) + pad64 (length tmd) + length R < 2 ^ 32"
    using len unfolding layout by simp
  from place_sections_built [OF off(1) mods this ticket tmd, of whole kind] obtain at mt stop where place:
      "place_sections whole ?off (size_of ticket) (size_of tmd) = Some (at, mt, stop)"
      "section_bytes whole at = Some ticket" "section_bytes whole mt = Some tmd" "unat stop = length ?P + length two"
    using len(3) unfolding layout two_def by (auto simp: add.assoc)
  define w where "w = \<lparr>w_kind = kind, w_ticket = t, w_tmd = m, w_certs = \<lparr>w_offset = Align kHeaderSize, w_size = size_of certificates\<rparr>,
    w_crl = \<lparr>w_offset = Align (Align kHeaderSize + size_of certificates), w_size = 0\<rparr>, w_footer = \<lparr>w_offset = 0, w_size = 0\<rparr>, w_contents = []\<rparr>"
  have recs': "list_all2 (\<lambda>c bs. EncryptedSize c = size_of bs) (t_contents (w_tmd w)) contents" using recs by (simp add: w_def)
  have room: "length (?P @ two) mod 64 = 0" "unat stop = length (?P @ two)"
    "length (?P @ two) + length (concat (map padded contents)) + pad64 (length footer) < 2 ^ 32"
    "whole = (?P @ two) @ concat (map padded contents) @ padded footer"
    using mods len(1,3) place(4) unfolding layout R_def by (simp_all add: mod_add_eq [symmetric])
  from wad_body_built [OF recs' room] obtain ss foot where body:
      "wad_body whole stop (data_total contents) (size_of footer) w = Some (w\<lparr>w_contents := ss, w_footer := foot\<rparr>)"
      "list_all2 (\<lambda>s bs. section_bytes whole s = Some bs) ss contents" "section_bytes whole foot = Some footer"
    by blast
  have "read32 whole 0 = Some 0x20" "read16 whole 0x04 = Some (if kind = Boot2 then kTypeBoot2 else kTypeInstallable)"
    "wad_fields whole = Some (size_of certificates, 0, size_of ticket, size_of tmd, data_total contents, size_of footer)"
    unfolding layout append_assoc by (rule head(2-4))+
  from Wad_Parse_fields [OF this place(1-3) ticket(1) tmd(1)]
  have parse: "Wad_Parse whole = Some (Some (w\<lparr>w_contents := ss, w_footer := foot\<rparr>))"
    using body(1) len(1,2) place(4) layout by (simp add: w_def)
  have "section_bytes whole (w_certs w) = Some certificates" "section_bytes whole (w_crl w) = Some []"
    using section_bytes_middle [of "Align kHeaderSize" H "size_of certificates" certificates
        "replicate (pad64 (length certificates) - length certificates) 0 @ two @ R"]
      start(1) head(1) len(1,2) layout pad64_ge(1) [of "length certificates"] section_bytes_middle [OF off(2), of 0 "[]" "two @ R"]
    by (simp_all add: padded_def unat_size_of w_def)
  then show ?thesis using parse body(2,3) unfolding whole_def wad_parts_def w_def by auto
qed

text \<open>C39: A title that is packed is read back as it was: where the ticket's issuer signs tickets and the TMD's does
  not, and every content has the length its record says, a file built in either order and of less than
  4 GB is accepted, and its kind, ticket, TMD, certificates, contents and footer are those that went in.\<close>

theorem Wad_roundtrip:
  assumes "built_size certificates ticket tmd contents footer < 2 ^ 32"
    and "Ticket_Parse (Some ticket) = Some (Some t)" "signs_tickets (k_issuer t)"
    and "Tmd_Parse (Some tmd) = Some (Some m)" "\<not> signs_tickets (t_issuer m)"
    and "list_all2 (\<lambda>c bs. EncryptedSize c = size_of bs) (t_contents m) contents"
  shows "\<exists>w. Wad_Parse (Wad_Build kind certificates ticket tmd contents footer) = Some (Some w) \<and>
     wad_parts kind certificates t m contents footer (Wad_Build kind certificates ticket tmd contents footer) w"
  by (rule Wad_Build_parses [OF assms])

lemma small_ticket_parses:
  "\<exists>t. Ticket_Parse (Some small_ticket) = Some (Some t) \<and> k_issuer t = [0x2D, 0x58, 0x53] \<and> k_common_key_index t = 0 \<and>
     k_raw t = small_ticket"
proof -
  have type: "read32 small_ticket 0 = Some 0x00010002" by (simp add: small_ticket_def read32_def rd_def be32_def)
  have sig: "SignatureSize 0x00010002 = Some 0x7C" by (simp add: SignatureSize_def Rsa4096Sha1_def Rsa2048Sha1_def EcdsaSha1_def)
  have drop: "drop 0x7C small_ticket = [0x2D, 0x58, 0x53] @ replicate 0x161 0" by (simp add: small_ticket_def)
  have fields: "\<exists>t. ticket_fields 0x00010002 ([0x2D, 0x58, 0x53] @ replicate 0x161 0) small_ticket = Some t \<and>
      k_issuer t = [0x2D, 0x58, 0x53] \<and> k_common_key_index t = 0 \<and> k_raw t = small_ticket"
    by (simp add: ticket_fields_def ReadIssuer_def ticket_offsets read16_def read32_def read64_def rd_def getn_def
        be16_def be32_def be64_def nth_append takeWhile_append)
  have len: "length small_ticket = 0x7C + kBodySize" by (simp add: small_ticket_def kBodySize_def)
  from fields type sig drop len show ?thesis unfolding Ticket_Parse_cases by (simp add: kBodySize_def)
qed

lemma small_sizes: "EncryptedSize small_content = size_of (replicate 16 (5 :: u8))"
  by (simp add: EncryptedSize_def small_content_def size_of_def)

lemma signs_small: "signs_tickets [0x2D, 0x58, 0x53]" "\<not> signs_tickets [0x2D, 0x43, 0x50]"
  by (simp_all add: signs_tickets_def contains_def)

lemma small_built: "built_size [1, 2, 3] small_ticket small_tmd [replicate 16 5] [] < 2 ^ 32"
  by (simp add: built_size_def pad64_def small_ticket_def small_tmd_def)

lemma Wad_roundtrip_witness:
  "\<exists>w. Wad_Parse (Wad_Build Boot2 [1, 2, 3] small_ticket small_tmd [replicate 16 5] []) = Some (Some w) \<and> w_kind w = Boot2 \<and>
     t_contents (w_tmd w) = [small_content]"
proof -
  obtain t where t: "Ticket_Parse (Some small_ticket) = Some (Some t)" "signs_tickets (k_issuer t)"
    using small_ticket_parses signs_small by metis
  obtain m where m: "Tmd_Parse (Some small_tmd) = Some (Some m)" "t_contents m = [small_content]" "\<not> signs_tickets (t_issuer m)"
    using small_tmd_parses signs_small by metis
  have "list_all2 (\<lambda>c bs. EncryptedSize c = size_of bs) (t_contents m) [replicate 16 (5 :: u8)]"
    using m(2) small_sizes by simp
  from Wad_roundtrip [OF small_built t m(1,3) this, of Boot2] m(2) show ?thesis by (auto simp: wad_parts_def)
qed

lemma small_wad:
  "\<exists>w. Wad_Parse (Wad_Build kind [1, 2, 3] small_ticket small_tmd [replicate 16 5] []) = Some (Some w) \<and>
     t_contents (w_tmd w) = [small_content] \<and> w_kind w = kind \<and>
     k_issuer (w_ticket w) = [0x2D, 0x58, 0x53] \<and> k_common_key_index (w_ticket w) = 0 \<and> k_raw (w_ticket w) = small_ticket \<and>
     t_raw (w_tmd w) = small_tmd \<and> t_title_id (w_tmd w) = 0 \<and>
     list_all2 (\<lambda>s bs. section_bytes (Wad_Build kind [1, 2, 3] small_ticket small_tmd [replicate 16 5] []) s = Some bs)
       (w_contents w) [replicate 16 5]"
proof -
  obtain t where t: "Ticket_Parse (Some small_ticket) = Some (Some t)" "k_issuer t = [0x2D, 0x58, 0x53]" "k_common_key_index t = 0"
      "k_raw t = small_ticket"
    using small_ticket_parses by blast
  obtain m where m: "Tmd_Parse (Some small_tmd) = Some (Some m)" "t_contents m = [small_content]" "t_issuer m = [0x2D, 0x43, 0x50]"
      "t_raw m = small_tmd" "t_title_id m = 0"
    using small_tmd_parses by blast
  have signs: "signs_tickets (k_issuer t)" "\<not> signs_tickets (t_issuer m)" using t(2) m(3) signs_small by simp_all
  have recs: "list_all2 (\<lambda>c bs. EncryptedSize c = size_of bs) (t_contents m) [replicate 16 (5 :: u8)]"
    using m(2) small_sizes by simp
  from Wad_Build_parses [OF small_built t(1) signs(1) m(1) signs(2) recs, of kind] t m show ?thesis
    by (auto simp: wad_parts_def)
qed

lemma small_wad_length: "length (Wad_Build kind [1, 2, 3] small_ticket small_tmd [replicate 16 5] []) < 2 ^ 63"
proof -
  have "length small_ticket = 480" "length small_tmd = 324" by (simp_all add: small_ticket_def small_tmd_def)
  then show ?thesis using wad_header_parts(1) [OF small_built, of kind]
    by (simp add: Wad_Build_layout [OF small_built] pad64_def)
qed

section \<open>Extents inside the file\<close>

definition in_file :: "bytes \<Rightarrow> WadSection \<Rightarrow> ContentRecord \<Rightarrow> bool" where
  "in_file file s c \<longleftrightarrow> w_size s = EncryptedSize c \<and> unat (w_offset s) + unat (w_size s) \<le> length file"

lemma wad_contents_fit:
  assumes "wad_contents whole cs off = Some (ss, stop)" "unat off \<le> length whole + 63" "length whole < 2 ^ 63"
    and "\<forall>c \<in> set cs. unat (EncryptedSize c) < 2 ^ 62"
  shows "list_all2 (in_file whole) ss cs \<and> (\<forall>s \<in> set ss. unat off \<le> unat (w_offset s)) \<and>
     sorted_wrt (\<lambda>s s'. unat (w_offset s) + unat (w_size s) \<le> unat (w_offset s')) ss"
  using assms(1,2,4)
proof (induction cs arbitrary: off ss stop)
  case (Cons c cs)
  let ?n = "EncryptedSize c"
  obtain ss' where ss: "ss = \<lparr>w_offset = off, w_size = ?n\<rparr> # ss'" "wad_contents whole cs (Align (off + ?n)) = Some (ss', stop)"
    and "\<not> size_of whole < off + ?n"
    using Cons.prems(1) by (auto simp: Let_def split: if_splits)
  moreover have sum: "unat (off + ?n) = unat off + unat ?n"
    using Cons.prems(2,3) assms(3) by (intro unat_sum) simp
  ultimately have fit: "unat off + unat ?n \<le> length whole" using assms(3) by (simp add: word_less_nat_alt unat_size_of)
  then have al: "unat (Align (off + ?n)) = pad64 (unat off + unat ?n)" using sum assms(3) by (subst unat_Align) simp_all
  then have "unat (Align (off + ?n)) \<le> length whole + 63" using fit pad64_ge(2) [of "unat off + unat ?n"] by linarith
  with Cons.IH [OF ss(2)] Cons.prems(3) have rest: "list_all2 (in_file whole) ss' cs"
      "\<forall>s \<in> set ss'. pad64 (unat off + unat ?n) \<le> unat (w_offset s)"
      "sorted_wrt (\<lambda>s s'. unat (w_offset s) + unat (w_size s) \<le> unat (w_offset s')) ss'"
    using al by auto
  have "unat off + unat ?n \<le> unat (w_offset s)" if "s \<in> set ss'" for s
    using rest(2) that pad64_ge(1) [of "unat off + unat ?n"] le_trans by blast
  then show ?case using rest(1,3) fit ss(1) by (auto simp: in_file_def [of whole "\<lparr>w_offset = off, w_size = EncryptedSize c\<rparr>" c] intro: add_leD1)
qed simp

lemma Wad_Parse_body:
  "Wad_Parse whole = Some (Some w) \<Longrightarrow> \<exists>off d f w0. wad_body whole off d f w0 = Some w \<and> \<not> size_of whole < off"
  by (auto simp: Wad_Parse_def Let_def split: if_splits Option.bind_splits option.splits) blast+

lemma Wad_Parse_extents:
  assumes "Wad_Parse whole = Some (Some w)" "length whole < 2 ^ 63" "\<forall>c \<in> set (t_contents (w_tmd w)). unat (EncryptedSize c) < 2 ^ 62"
  shows "list_all2 (in_file whole) (w_contents w) (t_contents (w_tmd w)) \<and>
     sorted_wrt (\<lambda>s s'. unat (w_offset s) + unat (w_size s) \<le> unat (w_offset s')) (w_contents w)"
proof -
  obtain off d f w0 where body: "wad_body whole off d f w0 = Some w" "\<not> size_of whole < off"
    using Wad_Parse_body [OF assms(1)] by blast
  then obtain ss stop where ss: "wad_contents whole (t_contents (w_tmd w0)) off = Some (ss, stop)" "w_contents w = ss"
      "w_tmd w = w_tmd w0"
    by (auto simp: wad_body_def split: option.splits if_splits)
  have "unat off \<le> length whole + 63" using body(2) assms(2) by (simp add: word_less_nat_alt unat_size_of)
  from wad_contents_fit [OF ss(1) this assms(2)] assms(3) ss show ?thesis by simp
qed

lemma Wad_Parse_blobs:
  assumes "Wad_Parse whole = Some (Some w)"
  shows "\<exists>blob. Ticket_Parse (Some blob) = Some (Some (w_ticket w))" "\<exists>blob. Tmd_Parse (Some blob) = Some (Some (w_tmd w))"
proof -
  have body: "wad_body blob off d f w0 = Some w \<Longrightarrow> w_ticket w = w_ticket w0 \<and> w_tmd w = w_tmd w0" for blob off d f w0
    by (auto simp: wad_body_def split: option.splits if_splits)
  show "\<exists>blob. Ticket_Parse (Some blob) = Some (Some (w_ticket w))" "\<exists>blob. Tmd_Parse (Some blob) = Some (Some (w_tmd w))"
    using assms by (auto simp: Wad_Parse_def Let_def dest!: body split: if_splits Option.bind_splits option.splits) blast+
qed

text \<open>What parsing says of the contents of a file lies in the file: where no content claims a size near the 64-bit
  limit, every extent has the size of its record, lies inside the file, and no two overlap.\<close>

theorem Wad_extents:
  assumes "Wad_Parse whole = Some (Some w)" "length whole < 2 ^ 63" "\<forall>c \<in> set (t_contents (w_tmd w)). unat (EncryptedSize c) < 2 ^ 62"
  shows "list_all2 (in_file whole) (w_contents w) (t_contents (w_tmd w)) \<and>
     sorted_wrt (\<lambda>s s'. unat (w_offset s) + unat (w_size s) \<le> unat (w_offset s')) (w_contents w)"
  by (rule Wad_Parse_extents [OF assms])

lemma Wad_extents_witness:
  "\<exists>w. Wad_Parse (Wad_Build Installable [1, 2, 3] small_ticket small_tmd [replicate 16 5] []) = Some (Some w) \<and>
     list_all2 (in_file (Wad_Build Installable [1, 2, 3] small_ticket small_tmd [replicate 16 5] [])) (w_contents w) [small_content]"
proof -
  obtain w where w: "Wad_Parse (Wad_Build Installable [1, 2, 3] small_ticket small_tmd [replicate 16 5] []) = Some (Some w)"
      "t_contents (w_tmd w) = [small_content]"
    using small_wad [of Installable] by blast
  have "\<forall>c \<in> set (t_contents (w_tmd w)). unat (EncryptedSize c) < 2 ^ 62"
    using w(2) by (simp add: small_sizes size_of_def)
  from Wad_extents [OF w(1) small_wad_length this] w show ?thesis by auto
qed

text \<open>A content that claims sixteen bytes less than 2^64 passes the check against the size of the file, whose sum
  wraps: the extent is kept, longer than any file, and the next content is placed where this one was.\<close>

theorem wad_contents_wraps:
  assumes "EncryptedSize c = 0xFFFFFFFFFFFFFFF0" "unat off mod 64 = 0" "64 \<le> unat off" "unat off \<le> length whole" "length whole < 2 ^ 63"
  shows "wad_contents whole (c # cs) off =
     map_option (\<lambda>(ss, stop). (\<lparr>w_offset = off, w_size = 0xFFFFFFFFFFFFFFF0\<rparr> # ss, stop)) (wad_contents whole cs off)"
proof -
  have eq: "off + 0xFFFFFFFFFFFFFFF0 = off - 16" by simp
  have sub: "unat (off - 16) = unat off - 16" using assms(3) by (simp add: unat_sub_if')
  obtain j where "unat off = 64 * j" using assms(2) by (auto elim: dvdE simp flip: dvd_eq_mod_eq_0)
  then have "pad64 (unat off - 16) = unat off"
    using assms(3) pad64_add [of "64 * (j - 1)" 48] by (cases j) (simp_all add: pad64_def)
  then have "unat (Align (off - 16)) = unat off" using sub assms(4,5) by (subst unat_Align) simp_all
  then have "Align (off + 0xFFFFFFFFFFFFFFF0) = off" unfolding eq by (rule unsigned_word_eqI)
  moreover have "\<not> size_of whole < off + 0xFFFFFFFFFFFFFFF0"
    unfolding eq using sub assms(4,5) by (simp add: word_less_nat_alt unat_size_of)
  ultimately show ?thesis by (simp add: assms(1) Let_def)
qed

lemma wad_contents_wraps_witness:
  "wad_contents (replicate 100 0) [small_content\<lparr>c_size := 0xFFFFFFFFFFFFFFF0\<rparr>] 64 =
     Some ([\<lparr>w_offset = 64, w_size = 0xFFFFFFFFFFFFFFF0\<rparr>], 64)"
  using wad_contents_wraps [of "small_content\<lparr>c_size := 0xFFFFFFFFFFFFFFF0\<rparr>" 64 "replicate 100 0" "[]"]
  by (simp add: EncryptedSize_def)

end
