(* ===== verification/Nand_Sysconf.thy ===== *)
theory Nand_Sysconf
  imports Nand_Paths
begin

text \<open>
  src/format/nand/sysconf.cpp: the console's settings. A type is the three bits the file holds, which
  need not be one of the seven the format knows.
\<close>

type_synonym SysconfType = u8

definition BigArray :: SysconfType where "BigArray = 1"
definition SmallArray :: SysconfType where "SmallArray = 2"
definition Byte :: SysconfType where "Byte = 3"
definition Short :: SysconfType where "Short = 4"
definition Long :: SysconfType where "Long = 5"
definition LongLong :: SysconfType where "LongLong = 6"
definition Bool :: SysconfType where "Bool = 7"

lemmas types_defs = BigArray_def SmallArray_def Byte_def Short_def Long_def LongLong_def Bool_def

definition kSysconfSize :: nat where "kSysconfSize = 0x4000"
definition kOffsetTable :: nat where "kOffsetTable = 0x0006"
definition kFooterOffset :: nat where "kFooterOffset = 0x3FFC"
definition kPayloadLimit :: nat where "kPayloadLimit = 0x3FAE"

record SysconfItem =
  i_name :: bytes
  i_type :: SysconfType
  i_data :: bytes

type_synonym sysconf = "SysconfItem list"

definition FixedWidth :: "SysconfType \<Rightarrow> nat" where
  "FixedWidth type =
     (if type = Byte \<or> type = Bool then 1 else if type = Short then 2 else if type = Long then 4
      else if type = LongLong then 8 else 0)"

definition NumberBytes :: "u64 \<Rightarrow> nat \<Rightarrow> bytes" where
  "NumberBytes v width = rev (map (\<lambda>index. ucast (drop_bit (index * 8) v)) [0..<width])"

definition item_number :: "SysconfItem \<Rightarrow> u64" where
  "item_number item = fold (\<lambda>byte v. push_bit 8 v OR ucast byte) (i_data item) 0"

section \<open>Settings\<close>

definition Find :: "sysconf \<Rightarrow> bytes \<Rightarrow> SysconfItem option" where
  "Find items name = List.find (\<lambda>item. i_name item = name) items"

definition Number :: "sysconf \<Rightarrow> bytes \<Rightarrow> u64 option" where
  "Number items name = (case Find items name of
      None \<Rightarrow> None
    | Some item \<Rightarrow> if FixedWidth (i_type item) = 0 then None else Some (item_number item))"

definition Boolean :: "sysconf \<Rightarrow> bytes \<Rightarrow> bool \<Rightarrow> bool" where
  "Boolean items name fallback = (case Number items name of Some v \<Rightarrow> v \<noteq> 0 | None \<Rightarrow> fallback)"

primrec SetNumber :: "sysconf \<Rightarrow> bytes \<Rightarrow> u64 \<Rightarrow> bool \<times> sysconf" where
  "SetNumber [] name v = (True, [\<lparr>i_name = name, i_type = Long, i_data = NumberBytes v 4\<rparr>])"
| "SetNumber (item # items) name v =
     (if i_name item \<noteq> name then (let (ok, items) = SetNumber items name v in (ok, item # items))
      else let width = FixedWidth (i_type item) in
        if width = 0 then (False, item # items)
        else (True, item\<lparr>i_data := NumberBytes v width\<rparr> # items))"

primrec SetBoolean :: "sysconf \<Rightarrow> bytes \<Rightarrow> bool \<Rightarrow> bool \<times> sysconf" where
  "SetBoolean [] name v = (True, [\<lparr>i_name = name, i_type = Bool, i_data = [of_bool v]\<rparr>])"
| "SetBoolean (item # items) name v =
     (if i_name item \<noteq> name then (let (ok, items) = SetBoolean items name v in (ok, item # items))
      else if i_type item \<noteq> Bool \<and> FixedWidth (i_type item) = 0 then (False, item # items)
      else (True, item\<lparr>i_data := [of_bool v]\<rparr> # items))"

primrec Set_item :: "sysconf \<Rightarrow> SysconfItem \<Rightarrow> sysconf" where
  "Set_item [] new = [new]"
| "Set_item (item # items) new = (if i_name item = i_name new then new # items else item # Set_item items new)"

definition Defaults :: sysconf where
  "Defaults =
     (let byte = (\<lambda>name v. \<lparr>i_name = ascii name, i_type = Byte, i_data = [v]\<rparr>);
          boolean = (\<lambda>name v. \<lparr>i_name = ascii name, i_type = Bool, i_data = [of_bool v]\<rparr>) in
      [\<lparr>i_name = ascii ''BT.SENS'', i_type = Long, i_data = NumberBytes 3 4\<rparr>,
       byte ''BT.BAR'' 1, byte ''BT.SPKV'' 0x58, boolean ''BT.MOT'' True, byte ''IPL.AR'' 1, byte ''IPL.LNG'' 1,
       boolean ''IPL.E60'' True, boolean ''IPL.PGS'' False, byte ''IPL.SND'' 1, byte ''IPL.SSV'' 0,
       boolean ''IPL.EULA'' True, boolean ''IPL.UPT'' True,
       \<lparr>i_name = ascii ''IPL.CB'', i_type = Long, i_data = NumberBytes 0 4\<rparr>,
       \<lparr>i_name = ascii ''IPL.SADR'', i_type = BigArray, i_data = replicate 0x1007 0\<rparr>])"

section \<open>Parsing\<close>

text \<open>The length of an item's data and where the data begins; the inner \<open>None\<close> ends the parsing.\<close>

definition data_length :: "bytes \<Rightarrow> SysconfType \<Rightarrow> nat \<Rightarrow> (nat \<times> nat) option option" where
  "data_length buf type off =
     (if type = BigArray then
        (if length buf < off + 2 then Some None
         else do { n \<leftarrow> read16 buf off; Some (Some (unat n + 1, off + 2)) })
      else if type = SmallArray then do { n \<leftarrow> rd buf off; Some (Some (unat n + 1, off + 1)) }
      else Some (Some (FixedWidth type, off)))"

text \<open>The item an entry of the table points to: none where the entry is skipped, and the end where parsing stops.\<close>

datatype parsed = Skip | Stop | Item SysconfItem

definition parse_item :: "bytes \<Rightarrow> nat \<Rightarrow> parsed option" where
  "parse_item buf index =
     (let entry = kOffsetTable + index * 2 in
      if length buf \<le> entry + 1 then Some Stop
      else do {
        at \<leftarrow> read16 buf entry;
        let off = unat at in
        if off = 0 \<or> length buf \<le> off then Some Skip
        else do {
          header \<leftarrow> rd buf off;
          let off = off + 1; type = drop_bit 5 header; n = unat (header AND 0x1F) + 1 in
          if length buf < off + n then Some Stop
          else do {
            name \<leftarrow> getn buf off n;
            found \<leftarrow> data_length buf type (off + n);
            case found of
              None \<Rightarrow> Some Stop
            | Some (len, off) \<Rightarrow>
                if length buf < off + len then Some Stop
                else do { data \<leftarrow> getn buf off len; Some (Item \<lparr>i_name = name, i_type = type, i_data = data\<rparr>) } } } })"

primrec parse_items :: "bytes \<Rightarrow> nat list \<Rightarrow> sysconf option" where
  "parse_items buf [] = Some []"
| "parse_items buf (index # ids) = do {
     p \<leftarrow> parse_item buf index;
     case p of
       Stop \<Rightarrow> Some []
     | Skip \<Rightarrow> parse_items buf ids
     | Item item \<Rightarrow> do { items \<leftarrow> parse_items buf ids; Some (item # items) } }"

definition Sysconf_Parse :: "bytes \<Rightarrow> sysconf option option" where
  "Sysconf_Parse buf =
     (if length buf < kFooterOffset + 4 \<or> take 4 buf \<noteq> [0x53, 0x43, 0x76, 0x30] then Some None
      else do {
        count \<leftarrow> read16 buf 0x0004;
        items \<leftarrow> parse_items buf [0..<unat count];
        Some (Some items) })"

section \<open>Building\<close>

text \<open>An item as the file has it.\<close>

definition extra :: "SysconfType \<Rightarrow> nat" where
  "extra type = (if type = BigArray then 2 else if type = SmallArray then 1 else 0)"

definition item_bytes :: "SysconfItem \<Rightarrow> bytes" where
  "item_bytes item =
     [push_bit 5 (i_type item) OR (of_nat (length (i_name item)) - 1 AND 0x1F)] @ i_name item @
     (if i_type item = BigArray then bytes16 (of_nat (length (i_data item)) - 1)
      else if i_type item = SmallArray then [of_nat (length (i_data item)) - 1] else []) @
     i_data item"

primrec put_items :: "sysconf \<Rightarrow> nat \<Rightarrow> nat \<Rightarrow> bytes \<Rightarrow> bytes option" where
  "put_items [] index cursor buf = Some buf"
| "put_items (item # items) index cursor buf =
     (if kPayloadLimit < cursor + 1 + length (i_name item) + extra (i_type item) + length (i_data item) then Some buf
      else do {
        buf \<leftarrow> putn buf (kOffsetTable + index * 2) (bytes16 (of_nat cursor));
        buf \<leftarrow> putn buf cursor (item_bytes item);
        put_items items (index + 1) (cursor + length (item_bytes item)) buf })"

definition Sysconf_Build :: "sysconf \<Rightarrow> bytes option" where
  "Sysconf_Build items = do {
     buf \<leftarrow> putn (replicate kSysconfSize 0) 0 [0x53, 0x43, 0x76, 0x30];
     buf \<leftarrow> putn buf 0x0004 (bytes16 (of_nat (length items)));
     buf \<leftarrow> put_items items 0 (kOffsetTable + (length items + 1) * 2) buf;
     putn buf kFooterOffset [0x53, 0x43, 0x65, 0x64] }"

section \<open>The items in the file\<close>

definition item_len :: "SysconfItem \<Rightarrow> nat" where
  "item_len item = 1 + length (i_name item) + extra (i_type item) + length (i_data item)"

lemma length_item_bytes [simp]: "length (item_bytes item) = item_len item"
  by (simp add: item_bytes_def item_len_def extra_def BigArray_def SmallArray_def)

definition items_len :: "sysconf \<Rightarrow> nat" where
  "items_len items = sum_list (map item_len items)"

lemma items_len_simps [simp]: "items_len [] = 0" "items_len (item # items) = item_len item + items_len items"
  by (simp_all add: items_len_def)

text \<open>What the buffer holds of the items from the one at \<open>index\<close> on, whose bytes begin at \<open>cursor\<close>.\<close>

primrec holds :: "bytes \<Rightarrow> sysconf \<Rightarrow> nat \<Rightarrow> nat \<Rightarrow> bool" where
  "holds buf [] index cursor = True"
| "holds buf (item # items) index cursor \<longleftrightarrow>
     getn buf (kOffsetTable + index * 2) 2 = Some (bytes16 (of_nat cursor)) \<and>
     getn buf cursor (item_len item) = Some (item_bytes item) \<and> holds buf items (index + 1) (cursor + item_len item)"

lemma holds_frame:
  assumes "holds a items index cursor" "length b = length a"
    and "\<And>i. kOffsetTable + index * 2 \<le> i \<Longrightarrow> i < kOffsetTable + (index + length items) * 2 \<Longrightarrow> b ! i = a ! i"
    and "\<And>i. cursor \<le> i \<Longrightarrow> i < cursor + items_len items \<Longrightarrow> b ! i = a ! i"
  shows "holds b items index cursor"
  using assms(1,3,4)
proof (induction items arbitrary: index cursor)
  case (Cons item items)
  have "getn b (kOffsetTable + index * 2) 2 = getn a (kOffsetTable + index * 2) 2"
    using Cons.prems(2) assms(2) by (intro getn_same) simp_all
  moreover have "getn b cursor (item_len item) = getn a cursor (item_len item)"
    using Cons.prems(3) assms(2) by (intro getn_same) simp_all
  moreover have "holds b items (index + 1) (cursor + item_len item)"
    using Cons.prems by (intro Cons.IH) simp_all
  ultimately show ?case using Cons.prems(1) by simp
qed simp

lemma put_items_holds:
  assumes "kOffsetTable + (index + length items) * 2 \<le> cursor" "cursor + items_len items \<le> kPayloadLimit" "length buf = kSysconfSize"
  shows "\<exists>out. put_items items index cursor buf = Some out \<and> length out = kSysconfSize \<and> holds out items index cursor \<and>
     (\<forall>i. i < kOffsetTable + index * 2 \<or> cursor + items_len items \<le> i \<longrightarrow> out ! i = buf ! i) \<and>
     (\<forall>i. kOffsetTable + (index + length items) * 2 \<le> i \<and> i < cursor \<longrightarrow> out ! i = buf ! i)"
  using assms
proof (induction items arbitrary: index cursor buf)
  case (Cons item items)
  have fits: "kOffsetTable + index * 2 + 2 \<le> length buf" "cursor + item_len item \<le> length buf"
    "\<not> kPayloadLimit < cursor + 1 + length (i_name item) + extra (i_type item) + length (i_data item)"
    using Cons.prems by (simp_all add: kPayloadLimit_def kSysconfSize_def item_len_def)
  obtain b1 where b1: "putn buf (kOffsetTable + index * 2) (bytes16 (of_nat cursor)) = Some b1" "length b1 = kSysconfSize"
    using fits(1) Cons.prems(3) putn_length by (metis length_bytes(1) putn_def)
  obtain b2 where b2: "putn b1 cursor (item_bytes item) = Some b2" "length b2 = kSysconfSize"
    using fits(2) Cons.prems(3) b1(2) putn_length by (metis length_item_bytes putn_def)
  have "kOffsetTable + (index + 1 + length items) * 2 \<le> cursor + item_len item"
    "cursor + item_len item + items_len items \<le> kPayloadLimit"
    using Cons.prems by simp_all
  from Cons.IH [OF this b2(2)] obtain out where out:
    "put_items items (index + 1) (cursor + item_len item) b2 = Some out" "length out = kSysconfSize"
    "holds out items (index + 1) (cursor + item_len item)"
    "\<And>i. i < kOffsetTable + (index + 1) * 2 \<or> cursor + item_len item + items_len items \<le> i \<Longrightarrow> out ! i = b2 ! i"
    "\<And>i. kOffsetTable + (index + 1 + length items) * 2 \<le> i \<Longrightarrow> i < cursor + item_len item \<Longrightarrow> out ! i = b2 ! i"
    by blast
  have n1: "b1 ! i = buf ! i" if "i < kOffsetTable + index * 2 \<or> kOffsetTable + index * 2 + 2 \<le> i" for i
    using putn_nth_outside [OF b1(1), of i] that by simp
  have n2: "b2 ! i = b1 ! i" if "i < cursor \<or> cursor + item_len item \<le> i" for i
    using putn_nth_outside [OF b2(1), of i] that by simp
  have "getn out (kOffsetTable + index * 2) 2 = getn b1 (kOffsetTable + index * 2) 2"
    using out(2,4) n2 b1(2) Cons.prems(1) by (intro getn_same) simp_all
  moreover have "getn out cursor (item_len item) = getn b2 cursor (item_len item)"
    using out(2,5) b2(2) Cons.prems(1) by (intro getn_same) simp_all
  ultimately have "holds out (item # items) index cursor"
    using out(3) getn_putn_same [OF b1(1)] getn_putn_same [OF b2(1)] by simp
  moreover have "out ! i = buf ! i" if "i < kOffsetTable + index * 2 \<or> cursor + items_len (item # items) \<le> i" for i
    using that out(4) [of i] n1 [of i] n2 [of i] Cons.prems(1) by auto
  moreover have "out ! i = buf ! i" if "kOffsetTable + (index + length (item # items)) * 2 \<le> i" "i < cursor" for i
    using that out(5) [of i] n1 [of i] n2 [of i] by auto
  ultimately show ?case using fits b1 b2 out(1,2) by auto
qed simp

section \<open>Items that fit their type\<close>

definition item_ok :: "SysconfItem \<Rightarrow> bool" where
  "item_ok item \<longleftrightarrow> 1 \<le> length (i_name item) \<and> length (i_name item) \<le> 32 \<and> unat (i_type item) < 8 \<and>
     (if i_type item = BigArray then 1 \<le> length (i_data item) \<and> length (i_data item) \<le> 0x10000
      else if i_type item = SmallArray then 1 \<le> length (i_data item) \<and> length (i_data item) \<le> 0x100
      else length (i_data item) = FixedWidth (i_type item))"

lemma header_parts:
  assumes "unat (t :: u8) < 8" "1 \<le> n" "n \<le> 32"
  shows "drop_bit 5 (push_bit 5 t OR (of_nat n - 1 AND 0x1F)) = t"
    "unat ((push_bit 5 t OR (of_nat n - 1 AND 0x1F)) AND 0x1F) + 1 = n"
proof -
  have mask: "(0x1F :: u8) = mask 5" by (simp add: mask_eq_exp_minus_1)
  have "take_bit 3 (unat t) = unat t" using assms(1) by (simp add: take_bit_nat_eq_self)
  then have "unat (take_bit 3 t) = unat t" by (simp only: unsigned_take_bit_eq)
  then have t: "take_bit 3 t = t" by (rule unsigned_word_eqI)
  have "drop_bit 5 (push_bit 5 t OR (of_nat n - 1 AND mask 5)) = take_bit 3 t"
    by (rule bit_word_eqI) (auto simp: bit_simps)
  then show "drop_bit 5 (push_bit 5 t OR (of_nat n - 1 AND 0x1F)) = t" using t by (simp only: mask)
  have n: "of_nat n - 1 = (of_nat (n - 1) :: u8)" using assms(2) by (simp add: of_nat_diff)
  have "(push_bit 5 t OR (of_nat (n - 1) AND mask 5)) AND mask 5 = of_nat (n - 1) AND (mask 5 :: u8)"
    by (rule bit_word_eqI) (auto simp: bit_simps)
  then have "unat ((push_bit 5 t OR (of_nat (n - 1) AND mask 5)) AND mask 5) = unat (of_nat (n - 1) :: u8) mod 2 ^ 5"
    by (simp only: unat_and_mask)
  also have "\<dots> = n - 1" using assms(3) by (simp add: unat_of_nat_u8)
  finally have "unat ((push_bit 5 t OR (of_nat (n - 1) AND mask 5)) AND mask 5) = n - 1" .
  then show "unat ((push_bit 5 t OR (of_nat n - 1 AND 0x1F)) AND 0x1F) + 1 = n"
    using assms(2) by (simp only: n mask)
qed

lemma unat_len_minus:
  "1 \<le> n \<Longrightarrow> n \<le> 0x10000 \<Longrightarrow> unat (of_nat n - 1 :: u16) + 1 = n"
  "1 \<le> n \<Longrightarrow> n \<le> 0x100 \<Longrightarrow> unat (of_nat n - 1 :: u8) + 1 = n"
proof -
  assume "1 \<le> n" "n \<le> 0x10000"
  then have eq: "of_nat n - 1 = (of_nat (n - 1) :: u16)" and "n - 1 < 2 ^ 16" by (simp_all add: of_nat_diff)
  then have "unat (of_nat (n - 1) :: u16) = n - 1" by (simp add: unat_of_nat take_bit_nat_eq_self del: of_nat_diff)
  then show "unat (of_nat n - 1 :: u16) + 1 = n" using \<open>1 \<le> n\<close> by (simp only: eq)
next
  assume "1 \<le> n" "n \<le> 0x100"
  then have eq: "of_nat n - 1 = (of_nat (n - 1) :: u8)" and "n - 1 < 256" by (simp_all add: of_nat_diff)
  then have "unat (of_nat (n - 1) :: u8) = n - 1" by (simp add: unat_of_nat_u8 del: of_nat_diff)
  then show "unat (of_nat n - 1 :: u8) + 1 = n" using \<open>1 \<le> n\<close> by (simp only: eq)
qed

lemma data_length_held:
  assumes "item_ok item" "getn buf c (item_len item) = Some (item_bytes item)"
  shows "data_length buf (i_type item) (c + 1 + length (i_name item)) =
    Some (Some (length (i_data item), c + 1 + length (i_name item) + extra (i_type item)))"
proof -
  let ?k = "1 + length (i_name item)"
  have room: "c + item_len item \<le> length buf" using assms(2) by (auto simp: getn_def split: if_splits)
  have len: "item_len item = ?k + extra (i_type item) + length (i_data item)" by (simp add: item_len_def)
  consider "i_type item = BigArray" | "i_type item = SmallArray" | "i_type item \<noteq> BigArray" "i_type item \<noteq> SmallArray" by blast
  then show ?thesis
  proof cases
    case 1
    have "read16 (item_bytes item) ?k = Some (of_nat (length (i_data item)) - 1)"
      using 1 by (simp add: item_bytes_def bytes16_def read16_def rd_def nth_append be16_bytes)
    moreover have "read16 buf (c + ?k) = read16 (item_bytes item) ?k"
      using read16_inner [OF assms(2), of ?k] len 1 by (simp add: extra_def)
    ultimately show ?thesis
      using 1 assms(1) room len unat_len_minus(1) [of "length (i_data item)"]
      by (simp add: data_length_def item_ok_def extra_def add.assoc)
  next
    case 2
    then have "rd (item_bytes item) ?k = Some (of_nat (length (i_data item)) - 1)"
      by (simp add: item_bytes_def rd_def nth_append SmallArray_def BigArray_def)
    moreover have "rd buf (c + ?k) = rd (item_bytes item) ?k"
      using rd_inner [OF assms(2), of ?k] len 2 by (simp add: extra_def SmallArray_def BigArray_def)
    ultimately show ?thesis
      using 2 assms(1) unat_len_minus(2) [of "length (i_data item)"]
      by (simp add: data_length_def item_ok_def extra_def add.assoc SmallArray_def BigArray_def)
  next
    case 3
    then show ?thesis using assms(1) by (simp add: data_length_def item_ok_def extra_def)
  qed
qed

lemma parse_item_held:
  assumes ok: "item_ok item" and held: "getn buf c (item_len item) = Some (item_bytes item)"
    and slot: "getn buf (kOffsetTable + index * 2) 2 = Some (bytes16 (of_nat c))" and c: "0 < c" "c < 0x10000"
  shows "parse_item buf index = Some (Item item)"
proof -
  let ?n = "length (i_name item)"
  have room: "c + item_len item \<le> length buf" using held by (auto simp: getn_def split: if_splits)
  have len: "item_len item = 1 + ?n + extra (i_type item) + length (i_data item)" by (simp add: item_len_def)
  have "read16 buf (kOffsetTable + index * 2) = Some (of_nat c)"
    using read16_inner [OF slot, of 0] by (simp add: bytes16_def read16_def rd_def be16_bytes)
  moreover have "unat (of_nat c :: u16) = c" using c by (simp add: unat_of_nat take_bit_nat_eq_self)
  moreover have "\<not> length buf \<le> kOffsetTable + index * 2 + 1" using slot by (auto simp: getn_def split: if_splits)
  moreover have "rd buf c = Some (push_bit 5 (i_type item) OR (of_nat ?n - 1 AND 0x1F))"
    using rd_inner [OF held, of 0] len by (simp add: item_bytes_def rd_def)
  moreover have name: "getn buf (c + 1) ?n = Some (i_name item)"
    using getn_inner [OF held, of 1 ?n] len by (simp add: item_bytes_def getn_def)
  moreover have "getn (item_bytes item) (1 + ?n + extra (i_type item)) (length (i_data item)) = Some (i_data item)"
    by (simp add: item_bytes_def getn_def extra_def BigArray_def SmallArray_def)
  then have "getn buf (c + 1 + ?n + extra (i_type item)) (length (i_data item)) = Some (i_data item)"
    using getn_inner [OF held, of "1 + ?n + extra (i_type item)" "length (i_data item)"] len by (simp add: add.assoc)
  ultimately show ?thesis
    using header_parts [of "i_type item" ?n] ok room len data_length_held [OF ok held] c
    by (simp add: parse_item_def Let_def item_ok_def)
qed

lemma parse_items_held:
  assumes "holds buf items index cursor" "list_all item_ok items" "0 < cursor" "cursor + items_len items < 0x10000"
  shows "parse_items buf [index..<index + length items] = Some items"
  using assms
proof (induction items arbitrary: index cursor)
  case (Cons item items)
  have "parse_item buf index = Some (Item item)"
    using Cons.prems by (intro parse_item_held [of _ _ cursor]) simp_all
  moreover have "parse_items buf [index + 1..<index + 1 + length items] = Some items"
    using Cons.prems by (intro Cons.IH [of _ "cursor + item_len item"]) simp_all
  moreover have "[index..<index + length (item # items)] = index # [index + 1..<index + 1 + length items]"
    by (simp add: upt_conv_Cons del: upt_Suc)
  ultimately show ?case by simp
qed simp

section \<open>Round trip\<close>

definition items_fit :: "sysconf \<Rightarrow> bool" where
  "items_fit items \<longleftrightarrow> kOffsetTable + (length items + 1) * 2 + items_len items \<le> kPayloadLimit"

lemma Build_holds:
  assumes "items_fit items"
  shows "\<exists>buf. Sysconf_Build items = Some buf \<and> length buf = kSysconfSize \<and> take 4 buf = [0x53, 0x43, 0x76, 0x30] \<and>
     read16 buf 4 = Some (of_nat (length items)) \<and> holds buf items 0 (kOffsetTable + (length items + 1) * 2)"
proof -
  let ?cursor = "kOffsetTable + (length items + 1) * 2"
  obtain b1 where b1: "putn (replicate kSysconfSize 0) 0 [0x53, 0x43, 0x76, 0x30 :: u8] = Some b1" "length b1 = kSysconfSize"
    by (simp add: putn_def kSysconfSize_def)
  obtain b2 where b2: "putn b1 4 (bytes16 (of_nat (length items))) = Some b2" "length b2 = kSysconfSize"
    using b1(2) by (simp add: putn_def kSysconfSize_def)
  obtain b3 where b3: "put_items items 0 ?cursor b2 = Some b3" "length b3 = kSysconfSize" "holds b3 items 0 ?cursor"
      "\<And>i. i < kOffsetTable \<Longrightarrow> b3 ! i = b2 ! i"
    using put_items_holds [of 0 items ?cursor b2] assms b2(2) by (auto simp: items_fit_def)
  obtain b4 where b4: "putn b3 kFooterOffset [0x53, 0x43, 0x65, 0x64] = Some b4" "length b4 = kSysconfSize"
    using b3(2) by (simp add: putn_def kSysconfSize_def kFooterOffset_def)
  have n4: "b4 ! i = b3 ! i" if "i < kFooterOffset" for i using putn_nth_outside [OF b4(1), of i] that by simp
  have head: "getn b4 0 4 = getn b1 0 4" "getn b4 4 2 = getn b2 4 2"
    using b1(2) b2(2) b4(2) putn_nth_outside [OF b2(1)] n4 b3(4)
    by (auto intro!: getn_same simp: kFooterOffset_def kOffsetTable_def)
  have "getn b4 0 4 = Some [0x53, 0x43, 0x76, 0x30]"
    using head(1) getn_putn_same [OF b1(1)] by (simp add: eval_nat_numeral)
  then have magic: "take 4 b4 = [0x53, 0x43, 0x76, 0x30]" by (auto simp: getn_def split: if_splits)
  have "getn b4 4 2 = Some (bytes16 (of_nat (length items)))" using head(2) getn_putn_same [OF b2(1)] by simp
  from read16_inner [OF this, of 0] have count: "read16 b4 4 = Some (of_nat (length items))"
    by (simp add: bytes16_def read16_def rd_def be16_bytes)
  have "holds b4 items 0 ?cursor"
    using assms b3(2,3) b4(2) n4 by (elim holds_frame) (auto simp: items_fit_def kPayloadLimit_def kFooterOffset_def)
  moreover have "Sysconf_Build items = Some b4"
    using b1(1) b2(1) b3(1) b4(1) by (simp add: Sysconf_Build_def)
  ultimately show ?thesis using b4(2) magic count by blast
qed

lemma parses_back:
  assumes "list_all item_ok items" "items_fit items"
  shows "\<exists>buf. Sysconf_Build items = Some buf \<and> length buf = kSysconfSize \<and> Sysconf_Parse buf = Some (Some items)"
proof -
  let ?cursor = "kOffsetTable + (length items + 1) * 2"
  obtain buf where buf: "Sysconf_Build items = Some buf" "length buf = kSysconfSize" "take 4 buf = [0x53, 0x43, 0x76, 0x30]"
      "read16 buf 4 = Some (of_nat (length items))" "holds buf items 0 ?cursor"
    using Build_holds [OF assms(2)] by blast
  have small: "?cursor + items_len items < 0x10000" using assms(2) by (simp add: items_fit_def kPayloadLimit_def)
  then have n: "unat (of_nat (length items) :: u16) = length items" by (simp add: unat_of_nat take_bit_nat_eq_self)
  have "parse_items buf [0..<0 + length items] = Some items"
    using buf(5) assms(1) small by (intro parse_items_held [of _ _ _ ?cursor]) (simp_all add: kOffsetTable_def)
  then have "Sysconf_Parse buf = Some (Some items)"
    using buf(2-4) n by (simp add: Sysconf_Parse_def kSysconfSize_def kFooterOffset_def)
  with buf(1,2) show ?thesis by blast
qed

text \<open>C40: Settings that are written are read back: where every name has one to 32 bytes, every value the length of its
  type, and all of them fit in front of the trailing table, the file is built inside its 16 KiB and
  parsing it gives the same items in the same order.\<close>

theorem Sysconf_roundtrip:
  assumes "list_all item_ok items" "items_fit items"
  shows "\<exists>buf. Sysconf_Build items = Some buf \<and> length buf = kSysconfSize \<and> Sysconf_Parse buf = Some (Some items)"
  by (rule parses_back [OF assms])

section \<open>Changing settings\<close>

lemma length_NumberBytes [simp]: "length (NumberBytes v n) = n"
  by (simp add: NumberBytes_def)

lemma FixedWidth_le: "FixedWidth t \<le> 8"
  by (simp add: FixedWidth_def)

lemma fixed_item_ok: "item_ok item \<Longrightarrow> FixedWidth (i_type item) \<noteq> 0 \<Longrightarrow> item_ok (item\<lparr>i_data := NumberBytes v (FixedWidth (i_type item))\<rparr>)"
  by (auto simp: item_ok_def FixedWidth_def types_defs)

definition name_ok :: "bytes \<Rightarrow> bool" where
  "name_ok name \<longleftrightarrow> 1 \<le> length name \<and> length name \<le> 32"

lemma SetNumber_ok: "list_all item_ok items \<Longrightarrow> name_ok name \<Longrightarrow> list_all item_ok (snd (SetNumber items name v))"
proof (induction items)
  case Nil
  then show ?case by (simp add: item_ok_def name_ok_def types_defs FixedWidth_def)
next
  case (Cons item items)
  then show ?case using fixed_item_ok [of item v] by (simp add: Let_def case_prod_beta)
qed

lemma Set_item_ok: "list_all item_ok items \<Longrightarrow> item_ok new \<Longrightarrow> list_all item_ok (Set_item items new)"
  by (induction items) simp_all

lemma SetBoolean_ok:
  "list_all item_ok items \<Longrightarrow> name_ok name \<Longrightarrow>
     (\<And>item. Find items name = Some item \<Longrightarrow> i_type item = Bool \<or> i_type item = Byte \<or> FixedWidth (i_type item) = 0) \<Longrightarrow>
     list_all item_ok (snd (SetBoolean items name v))"
proof (induction items)
  case Nil
  then show ?case by (simp add: item_ok_def name_ok_def types_defs FixedWidth_def)
next
  case (Cons item items)
  show ?case
  proof (cases "i_name item = name")
    case True
    then have "i_type item = Bool \<or> i_type item = Byte \<or> FixedWidth (i_type item) = 0"
      using Cons.prems(3) by (simp add: Find_def)
    then show ?thesis using True Cons.prems(1) by (auto simp: item_ok_def types_defs FixedWidth_def)
  next
    case False
    then have "list_all item_ok (snd (SetBoolean items name v))"
      using Cons by (simp add: Find_def)
    then show ?thesis using False Cons.prems(1) by (simp add: Let_def case_prod_beta)
  qed
qed

lemma fold_NumberBytes:
  "fold (\<lambda>byte v. push_bit 8 v OR ucast byte) (NumberBytes v n) acc = push_bit (8 * n) acc OR take_bit (8 * n) (v :: u64)"
proof (induction n arbitrary: acc)
  case (Suc n)
  have "NumberBytes v (Suc n) = ucast (drop_bit (n * 8) v) # NumberBytes v n" by (simp add: NumberBytes_def)
  moreover have "push_bit (8 * n) (push_bit 8 acc OR ucast (ucast (drop_bit (n * 8) v) :: u8)) OR take_bit (8 * n) v =
      push_bit (8 * Suc n) acc OR take_bit (8 * Suc n) v"
    by (rule bit_word_eqI) (auto simp: bit_simps ac_simps)
  ultimately show ?case using Suc.IH by simp
qed (simp add: NumberBytes_def)

definition set_width :: "sysconf \<Rightarrow> bytes \<Rightarrow> nat" where
  "set_width items name = (case Find items name of None \<Rightarrow> 4 | Some item \<Rightarrow> FixedWidth (i_type item))"

lemma SetNumber_value:
  assumes "SetNumber items name v = (True, items')"
  shows "Number items' name = Some (take_bit (8 * set_width items name) v)"
  using assms
proof (induction items arbitrary: items')
  case Nil
  then show ?case
    by (auto simp: Number_def Find_def set_width_def item_number_def fold_NumberBytes FixedWidth_def types_defs)
next
  case (Cons item items)
  then show ?case
    by (auto simp: Number_def Find_def set_width_def item_number_def fold_NumberBytes Let_def
        split: if_splits prod.splits option.splits)
qed

lemma SetNumber_others: "other \<noteq> name \<Longrightarrow> Find (snd (SetNumber items name v)) other = Find items other"
  by (induction items) (auto simp: Find_def Let_def case_prod_beta)

lemma SetNumber_refused: "\<not> fst (SetNumber items name v) \<Longrightarrow> snd (SetNumber items name v) = items"
  by (induction items) (auto simp: Let_def case_prod_beta split: if_splits)

section \<open>What parsing gives fits\<close>

lemma data_length_bounds:
  assumes "data_length buf type off = Some (Some (n, c))"
  shows "if type = BigArray then 1 \<le> n \<and> n \<le> 0x10000 else if type = SmallArray then 1 \<le> n \<and> n \<le> 0x100 else n = FixedWidth type"
proof -
  have "unat w + 1 \<le> 0x10000" for w :: u16 using unat_u16 [of w] by simp
  moreover have "unat w + 1 \<le> 0x100" for w :: u8 using unat_u8 [of w] by simp
  ultimately show ?thesis using assms by (auto simp: data_length_def split: if_splits Option.bind_splits)
qed

lemma parse_item_ok: "parse_item buf index = Some (Item item) \<Longrightarrow> item_ok item"
proof -
  assume p: "parse_item buf index = Some (Item item)"
  obtain header name content off len c where item: "item = \<lparr>i_name = name, i_type = drop_bit 5 header, i_data = content\<rparr>"
    and name: "length name = unat (header AND 0x1F) + 1" and data: "length content = len"
    and found: "data_length buf (drop_bit 5 header) off = Some (Some (len, c))"
    using p by (auto simp: parse_item_def Let_def getn_length split: if_splits Option.bind_splits option.splits)
  have "unat (header AND 0x1F) < 32" using unat_and_mask [of header 5] by (simp add: mask_eq_exp_minus_1)
  moreover have "unat (drop_bit 5 header) < 8" using unat_u8 [of header] by (simp add: unat_drop_bit less_mult_imp_div_less)
  ultimately show ?thesis using data_length_bounds [OF found] item name data
    by (simp add: item_ok_def split: if_splits)
qed

lemma parse_items_ok: "parse_items buf ids = Some items \<Longrightarrow> list_all item_ok items"
  by (induction ids arbitrary: items) (auto simp: parse_item_ok split: Option.bind_splits parsed.splits)

lemma Sysconf_Parse_ok: "Sysconf_Parse buf = Some (Some items) \<Longrightarrow> list_all item_ok items"
  by (auto simp: Sysconf_Parse_def parse_items_ok split: if_splits Option.bind_splits)

text \<open>A setting can be changed in a file: whatever was parsed, if the items still fit after a number is set, the file
  built from them parses to the very items, where the setting has the number, cut to the width it had
  (a new one to 32 bits), and every other setting is as it was; a refused change changes nothing.\<close>

theorem Sysconf_edit:
  assumes "Sysconf_Parse buf = Some (Some items)" "name_ok name" "SetNumber items name v = (ok, items')" "items_fit items'"
  shows "\<exists>out. Sysconf_Build items' = Some out \<and> Sysconf_Parse out = Some (Some items') \<and>
     (if ok then Number items' name = Some (take_bit (8 * set_width items name) v) else items' = items) \<and>
     (\<forall>other. Find items' other = (if other = name then Find items' name else Find items other))"
proof -
  have "list_all item_ok items'"
    using SetNumber_ok [OF Sysconf_Parse_ok [OF assms(1)] assms(2), of v] assms(3) by simp
  moreover have "Number items' name = Some (take_bit (8 * set_width items name) v)" if ok
    using SetNumber_value assms(3) that by simp
  moreover have "items' = items" if "\<not> ok" using SetNumber_refused [of items name v] assms(3) that by simp
  moreover have "Find items' other = Find items other" if "other \<noteq> name" for other
    using SetNumber_others [OF that, of items v] assms(3) by simp
  ultimately show ?thesis using parses_back [of items'] assms(4) by auto
qed

text \<open>Settings are state kept under names.\<close>

definition setting :: "sysconf \<Rightarrow> bytes \<Rightarrow> (SysconfType \<times> bytes) option" where
  "setting items name = map_option (\<lambda>item. (i_type item, i_data item)) (Find items name)"

definition put_setting :: "bytes \<Rightarrow> SysconfType \<times> bytes \<Rightarrow> sysconf \<Rightarrow> sysconf" where
  "put_setting name v items = Set_item items \<lparr>i_name = name, i_type = fst v, i_data = snd v\<rparr>"

interpretation settings: keyed setting put_setting
proof
  show "setting (put_setting k v s) k = Some v" for k v s
    by (induction s) (simp_all add: setting_def put_setting_def Find_def)
  show "k \<noteq> k' \<Longrightarrow> setting (put_setting k v s) k' = setting s k'" for k k' v s
    by (induction s) (auto simp: setting_def put_setting_def Find_def)
qed

lemma Defaults_ok: "list_all item_ok Defaults" "items_fit Defaults"
proof -
  have "length (replicate 0x1007 (0 :: u8)) = 0x1007" by (simp only: length_replicate)
  then show "list_all item_ok Defaults"
    by (simp add: Defaults_def Let_def item_ok_def types_defs FixedWidth_def)
  show "items_fit Defaults"
    by (simp add: Defaults_def Let_def items_fit_def item_len_def kOffsetTable_def kPayloadLimit_def extra_def types_defs)
qed

lemma Sysconf_roundtrip_witness:
  "\<exists>buf. Sysconf_Build Defaults = Some buf \<and> length buf = kSysconfSize \<and> Sysconf_Parse buf = Some (Some Defaults)"
  by (rule Sysconf_roundtrip [OF Defaults_ok])

definition two_settings :: sysconf where
  "two_settings = [\<lparr>i_name = [0x41], i_type = Long, i_data = [0, 0, 0, 1]\<rparr>, \<lparr>i_name = [0x42], i_type = Byte, i_data = [7]\<rparr>]"

lemma two_settings_ok: "list_all item_ok two_settings" "items_fit two_settings"
  by (simp_all add: two_settings_def item_ok_def items_fit_def item_len_def types_defs FixedWidth_def extra_def kOffsetTable_def kPayloadLimit_def)

lemma Sysconf_edit_witness:
  "\<exists>buf out. Sysconf_Parse buf = Some (Some two_settings) \<and>
     Sysconf_Build (snd (SetNumber two_settings [0x42] 0x109)) = Some out \<and>
     Sysconf_Parse out = Some (Some (snd (SetNumber two_settings [0x42] 0x109))) \<and>
     Number (snd (SetNumber two_settings [0x42] 0x109)) [0x42] = Some 9"
proof -
  obtain buf where buf: "Sysconf_Parse buf = Some (Some two_settings)" using parses_back [OF two_settings_ok] by blast
  obtain items' where set: "SetNumber two_settings [0x42] 0x109 = (True, items')"
    by (simp add: two_settings_def Let_def types_defs FixedWidth_def)
  have width: "set_width two_settings [0x42] = 1" by (simp add: set_width_def two_settings_def Find_def types_defs FixedWidth_def)
  have "length items' = 2" "items_len items' = 9"
    using set by (auto simp: two_settings_def Let_def types_defs FixedWidth_def item_len_def extra_def)
  then have fits: "items_fit items'" by (simp add: items_fit_def kOffsetTable_def kPayloadLimit_def)
  have "take_bit 8 (0x109 :: u64) = 9" by simp
  then show ?thesis using Sysconf_edit [OF buf _ set fits] buf set width by (auto simp: name_ok_def)
qed

section \<open>A number set to a truth value\<close>

text \<open>SetBoolean leaves a setting of four bytes with one: when the file is built and parsed again the other three are
  the beginning of what follows, and a setting that was switched off is on.\<close>

theorem SetBoolean_misread:
  "\<exists>items buf items'. SetBoolean two_settings [0x41] False = (True, items) \<and> Boolean items [0x41] True = False \<and>
     Sysconf_Build items = Some buf \<and> Sysconf_Parse buf = Some (Some items') \<and> Boolean items' [0x41] False = True"
proof -
  let ?a = "\<lparr>i_name = [0x41], i_type = Long, i_data = [0]\<rparr>" and ?b = "\<lparr>i_name = [0x42], i_type = Byte, i_data = [7]\<rparr>"
  have set: "SetBoolean two_settings [0x41] False = (True, [?a, ?b])"
    by (simp add: two_settings_def types_defs FixedWidth_def)
  have "items_fit [?a, ?b]"
    by (simp add: items_fit_def item_len_def types_defs extra_def kOffsetTable_def kPayloadLimit_def)
  then obtain buf where buf: "Sysconf_Build [?a, ?b] = Some buf" "length buf = kSysconfSize" "take 4 buf = [0x53, 0x43, 0x76, 0x30]"
      "read16 buf 4 = Some 2" "holds buf [?a, ?b] 0 12"
    using Build_holds [of "[?a, ?b]"] by (auto simp: kOffsetTable_def)
  have bytes: "item_bytes ?a = [0xA0, 0x41, 0]" "item_bytes ?b = [0x60, 0x42, 7]"
    by (simp_all add: item_bytes_def types_defs)
  have lens: "item_len ?a = 3" "item_len ?b = 3" by (simp_all add: item_len_def types_defs extra_def)
  have at: "getn buf 6 2 = Some (bytes16 12)" "getn buf 12 3 = Some [0xA0, 0x41, 0]" "getn buf 15 3 = Some [0x60, 0x42, 7]"
    using buf(5) bytes lens by (simp_all add: kOffsetTable_def)
  have six: "getn buf 12 6 = Some [0xA0, 0x41, 0, 0x60, 0x42, 7]" using getn_append [OF at(2), of 3] at(3) by simp
  have first: "parse_item buf 0 = Some (Item \<lparr>i_name = [0x41], i_type = Long, i_data = [0, 0x60, 0x42, 7]\<rparr>)"
  proof -
    have "read16 buf 6 = Some 12" using read16_inner [OF at(1), of 0] by (simp add: bytes16_def read16_def rd_def be16_def)
    moreover have "rd buf 12 = Some 0xA0" using rd_inner [OF six, of 0] by (simp add: rd_def)
    moreover have "getn buf 13 1 = Some [0x41]" "getn buf 14 4 = Some [0, 0x60, 0x42, 7]"
      using getn_inner [OF six, of 1 1] getn_inner [OF six, of 2 4] by (simp_all add: getn_def)
    ultimately show ?thesis using buf(2)
      by (simp add: parse_item_def Let_def kOffsetTable_def kSysconfSize_def data_length_def types_defs FixedWidth_def)
  qed
  have "item_ok ?b" by (simp add: item_ok_def types_defs FixedWidth_def)
  then have "parse_item buf 1 = Some (Item ?b)" using buf(5) lens by (intro parse_item_held [of _ _ 15]) (simp_all)
  with first have "Sysconf_Parse buf = Some (Some [\<lparr>i_name = [0x41], i_type = Long, i_data = [0, 0x60, 0x42, 7]\<rparr>, ?b])"
    using buf(2-4) by (simp add: Sysconf_Parse_def kSysconfSize_def kFooterOffset_def upt_conv_Cons)
  with set buf(1) show ?thesis
    by (intro exI [of _ "[?a, ?b]"] exI [of _ buf] exI [of _ "[\<lparr>i_name = [0x41], i_type = Long, i_data = [0, 0x60, 0x42, 7]\<rparr>, ?b]"])
      (simp add: Boolean_def Number_def Find_def item_number_def types_defs FixedWidth_def)
qed

text \<open>A small array whose name ends the file: its length is read from behind it.\<close>

lemma Sysconf_Parse_end:
  "Sysconf_Parse ([0x53, 0x43, 0x76, 0x30, 0, 1, 0x3F, 0xFE] @ replicate 0x3FF6 0 @ [0x40, 0x41]) = None"
proof -
  let ?buf = "[0x53, 0x43, 0x76, 0x30, 0, 1, 0x3F, 0xFE] @ replicate 0x3FF6 0 @ [0x40, 0x41] :: bytes"
  have "length ?buf = 0x4000" by simp
  moreover have "read16 ?buf 4 = Some 1" "read16 ?buf 6 = Some 0x3FFE" by (simp_all add: read16_def rd_def be16_def nth_append)
  moreover have "rd ?buf 0x3FFE = Some 0x40" "getn ?buf 0x3FFF 1 = Some [0x41]" by (simp_all add: rd_def getn_def nth_append)
  moreover have "rd ?buf 0x4000 = None" by (simp add: rd_def)
  moreover have "take 4 ?buf = [0x53, 0x43, 0x76, 0x30]" by simp
  ultimately show ?thesis
    by (simp add: Sysconf_Parse_def parse_item_def Let_def kOffsetTable_def kFooterOffset_def data_length_def types_defs del: append_Cons)
qed

end
