(* ===== verification/Nand_Mii.thy ===== *)
theory Nand_Mii
  imports Nand_Paths
begin

text \<open>
  src/format/nand/mii.cpp: the database of Miis. A Mii is its 74 bytes; what the database does not read is
  kept as it came.
\<close>

definition kEntriesOffset :: nat where "kEntriesOffset = 0x04"
definition kFlagsOffset :: nat where "kFlagsOffset = 0x00"
definition kNameOffset :: nat where "kNameOffset = 0x02"
definition kNameLength :: nat where "kNameLength = 10"
definition kIdOffset :: nat where "kIdOffset = 0x18"
definition kCreatorOffset :: nat where "kCreatorOffset = 0x36"
definition kInvalidFlag :: u16 where "kInvalidFlag = 0x8000"
definition kFemaleFlag :: u16 where "kFemaleFlag = 0x4000"
definition kMiiDatabaseSize :: nat where "kMiiDatabaseSize = 0x1F1E0"
definition kMiiDatabaseFileSize :: nat where "kMiiDatabaseFileSize = 0xBE6C0"
definition kMiiEntrySize :: nat where "kMiiEntrySize = 0x4A"
definition kMiiSlots :: nat where "kMiiSlots = 100"
definition kMiiParadeOffset :: nat where "kMiiParadeOffset = 0x1D00"
definition kMiiCrcOffset :: nat where "kMiiCrcOffset = 0x1F1DE"

lemmas mii_sizes = kEntriesOffset_def kMiiDatabaseSize_def kMiiDatabaseFileSize_def kMiiEntrySize_def kMiiSlots_def
  kMiiParadeOffset_def kMiiCrcOffset_def

type_synonym Mii = bytes

record MiiDatabase =
  mSlots :: "Mii list"
  mRest :: bytes

section \<open>The checksum\<close>

definition crc_bit :: "u16 \<Rightarrow> u16" where
  "crc_bit crc = (if crc AND 0x8000 \<noteq> 0 then push_bit 1 crc XOR 0x1021 else push_bit 1 crc)"

definition crc_byte :: "u16 \<Rightarrow> u8 \<Rightarrow> u16" where
  "crc_byte crc b = (crc_bit ^^ 8) (crc XOR push_bit 8 (ucast b))"

definition Crc16Ccitt :: "bytes \<Rightarrow> u16" where
  "Crc16Ccitt data = fold (\<lambda>b crc. crc_byte crc b) data 0"

section \<open>A Mii\<close>

definition utf8_unit :: "u16 \<Rightarrow> bytes" where
  "utf8_unit u =
     (if u < 0x80 then [ucast u]
      else if u < 0x800 then [ucast (0xC0 OR drop_bit 6 u), ucast (0x80 OR (u AND 0x3F))]
      else if 0xD800 \<le> u \<and> u \<le> 0xDFFF then [0x3F]
      else [ucast (0xE0 OR drop_bit 12 u), ucast (0x80 OR (drop_bit 6 u AND 0x3F)), ucast (0x80 OR (u AND 0x3F))])"

primrec utf8_units :: "bytes \<Rightarrow> nat \<Rightarrow> nat list \<Rightarrow> bytes option" where
  "utf8_units data at [] = Some []"
| "utf8_units data at (i # is) = do {
     u \<leftarrow> read16 data (at + i * 2);
     if u = 0 then Some [] else do { txt \<leftarrow> utf8_units data at is; Some (utf8_unit u @ txt) } }"

definition Utf16ToUtf8 :: "bytes \<Rightarrow> nat \<Rightarrow> nat \<Rightarrow> bytes option" where
  "Utf16ToUtf8 data at characters = utf8_units data at [0..<characters]"

definition Used :: "Mii \<Rightarrow> bool option" where
  "Used raw = (if list_all (\<lambda>b. b = 0) raw then Some False
     else do { flags \<leftarrow> read16 raw kFlagsOffset; Some (flags AND kInvalidFlag = 0) })"

definition Name :: "Mii \<Rightarrow> bytes option" where
  "Name raw = Utf16ToUtf8 raw kNameOffset kNameLength"

definition Creator :: "Mii \<Rightarrow> bytes option" where
  "Creator raw = Utf16ToUtf8 raw kCreatorOffset kNameLength"

definition Female :: "Mii \<Rightarrow> bool option" where
  "Female raw = do { flags \<leftarrow> read16 raw kFlagsOffset; Some (flags AND kFemaleFlag \<noteq> 0) }"

definition Id :: "Mii \<Rightarrow> u32 option" where
  "Id raw = read32 raw kIdOffset"

section \<open>The database\<close>

definition no_mii :: Mii where
  "no_mii = replicate kMiiEntrySize 0"

primrec put_parade :: "nat list \<Rightarrow> bytes \<Rightarrow> bytes option" where
  "put_parade [] buf = Some buf"
| "put_parade (entry # es) buf = do {
     buf \<leftarrow> putn buf (kMiiParadeOffset + 0x10 + entry * 12) [0x7F, 0xFF, 0x7F, 0xFF];
     put_parade es buf }"

definition MiiDatabase_Empty :: "MiiDatabase option" where
  "MiiDatabase_Empty = do {
     buf \<leftarrow> putn (replicate kMiiDatabaseFileSize 0) 0 [0x52, 0x4E, 0x4F, 0x44];
     buf \<leftarrow> wr buf (kEntriesOffset + kMiiSlots * kMiiEntrySize) 0x80;
     buf \<leftarrow> putn buf kMiiParadeOffset [0x52, 0x4E, 0x48, 0x44, 0xFF, 0xFF, 0xFF, 0xFF];
     buf \<leftarrow> put_parade [0..<10000] buf;
     Some \<lparr>mSlots = replicate kMiiSlots no_mii, mRest = buf\<rparr> }"

text \<open>The database and whether its checksum is the one stored; the inner \<open>None\<close> is a file that is refused.\<close>

definition MiiDatabase_Parse :: "bytes \<Rightarrow> (MiiDatabase \<times> bool) option option" where
  "MiiDatabase_Parse buf =
     (if length buf < kMiiDatabaseSize then Some None
      else do {
        head \<leftarrow> getn buf 0 4;
        parade \<leftarrow> getn buf kMiiParadeOffset 4;
        if head \<noteq> [0x52, 0x4E, 0x4F, 0x44] \<or> parade \<noteq> [0x52, 0x4E, 0x48, 0x44] then Some None
        else if list_ex (\<lambda>b. b \<noteq> 0) (drop kMiiDatabaseSize buf) then Some None
        else do {
          stored \<leftarrow> read16 buf kMiiCrcOffset;
          covered \<leftarrow> getn buf 0 kMiiCrcOffset;
          slots \<leftarrow> those (map (\<lambda>slot. getn buf (kEntriesOffset + slot * kMiiEntrySize) kMiiEntrySize) [0..<kMiiSlots]);
          Some (Some (\<lparr>mSlots = slots, mRest = buf\<rparr>, stored = Crc16Ccitt covered)) } })"

definition Count :: "MiiDatabase \<Rightarrow> nat option" where
  "Count db = map_option (\<lambda>used. length (filter id used)) (those (map Used (mSlots db)))"

primrec first_free :: "Mii list \<Rightarrow> nat \<Rightarrow> nat option option" where
  "first_free [] slot = Some None"
| "first_free (m # ms) slot = do { used \<leftarrow> Used m; if \<not> used then Some (Some slot) else first_free ms (slot + 1) }"

definition FirstFree :: "MiiDatabase \<Rightarrow> nat option option" where
  "FirstFree db = first_free (mSlots db) 0"

definition Put :: "nat \<Rightarrow> Mii \<Rightarrow> MiiDatabase \<Rightarrow> bool \<times> MiiDatabase" where
  "Put slot mii db = (if kMiiSlots \<le> slot then (False, db) else (True, db\<lparr>mSlots := (mSlots db)[slot := mii]\<rparr>))"

definition Remove :: "nat \<Rightarrow> MiiDatabase \<Rightarrow> bool \<times> MiiDatabase" where
  "Remove slot db = (if kMiiSlots \<le> slot then (False, db) else (True, db\<lparr>mSlots := (mSlots db)[slot := no_mii]\<rparr>))"

primrec put_slots :: "Mii list \<Rightarrow> nat \<Rightarrow> bytes \<Rightarrow> bytes option" where
  "put_slots [] slot buf = Some buf"
| "put_slots (m # ms) slot buf = do {
     buf \<leftarrow> putn buf (kEntriesOffset + slot * kMiiEntrySize) m;
     put_slots ms (slot + 1) buf }"

definition MiiDatabase_Build :: "MiiDatabase \<Rightarrow> bytes option" where
  "MiiDatabase_Build db = do {
     let buf = resize (max (length (mRest db)) kMiiDatabaseFileSize) (mRest db);
     buf \<leftarrow> putn buf 0 [0x52, 0x4E, 0x4F, 0x44];
     buf \<leftarrow> putn buf kMiiParadeOffset [0x52, 0x4E, 0x48, 0x44];
     buf \<leftarrow> put_slots (mSlots db) 0 buf;
     covered \<leftarrow> getn buf 0 kMiiCrcOffset;
     let crc = Crc16Ccitt covered;
     putn buf kMiiCrcOffset [ucast (drop_bit 8 crc), ucast (crc AND 0xFF)] }"

section \<open>What the checksum detects\<close>

lemma crc_top: "(c AND 0x8000 \<noteq> 0) = bit (c :: u16) 15"
  using and_exp_eq_0_iff_not_bit [of c 15] by simp

lemma crc_bit_xor: "crc_bit (a XOR b) = crc_bit a XOR crc_bit b"
  by (rule bit_word_eqI) (auto simp: crc_bit_def crc_top bit_simps)

lemma crc_bit_0: "crc_bit c = 0 \<Longrightarrow> c = 0"
proof (cases "bit c 15")
  case True
  moreover assume "crc_bit c = 0"
  ultimately have "push_bit 1 c XOR 0x1021 = 0" by (simp only: crc_bit_def crc_top if_True)
  then have "\<not> bit (push_bit 1 c XOR 0x1021) 0" by (simp only: bit_0_eq) simp
  moreover have "\<not> bit (push_bit 1 c) 0" by (simp only: bit_push_bit_iff) simp
  moreover have "bit (0x1021 :: u16) 0" by simp
  ultimately show ?thesis by (simp only: bit_xor_iff) simp
next
  case False
  assume "crc_bit c = 0"
  with False have z: "push_bit 1 c = 0" by (simp add: crc_bit_def crc_top)
  show ?thesis
  proof (rule bit_word_eqI)
    fix n assume n: "n < LENGTH(16)"
    have "\<not> bit (push_bit 1 c) (n + 1)" by (simp only: z) simp
    then have "\<not> bit c n" if "n \<noteq> 15" using n that by (simp only: bit_push_bit_iff) simp
    then show "bit c n = bit 0 n" using False by (cases "n = 15") auto
  qed
qed

lemma crc_bits_xor: "(crc_bit ^^ k) (a XOR b) = (crc_bit ^^ k) a XOR (crc_bit ^^ k) b"
  by (induction k) (simp_all add: crc_bit_xor)

lemma crc_bits_0: "(crc_bit ^^ k) c = 0 \<Longrightarrow> c = 0"
  by (induction k) (auto dest: crc_bit_0)

lemma xor_cancel: "x XOR u = x XOR v \<longleftrightarrow> u = (v :: u16)"
proof
  assume "x XOR u = x XOR v"
  then have "x XOR (x XOR u) = x XOR (x XOR v)" by (rule arg_cong)
  then show "u = v" by (simp only: xor.assoc [symmetric] xor_self_eq xor.left_neutral)
qed simp

lemma crc_bits_inj: "(crc_bit ^^ k) a = (crc_bit ^^ k) b \<longleftrightarrow> a = b"
proof
  assume "(crc_bit ^^ k) a = (crc_bit ^^ k) b"
  then have "(crc_bit ^^ k) (a XOR b) = 0" by (simp add: crc_bits_xor)
  then have "a XOR b = 0" by (rule crc_bits_0)
  then have "a XOR b = a XOR a" by (simp only: xor_self_eq)
  then show "a = b" by (simp only: xor_cancel)
qed simp

lemma crc_bits_low: "k \<le> 8 \<Longrightarrow> (crc_bit ^^ k) (ucast (b :: u8)) = push_bit k (ucast b)"
proof (induction k)
  case (Suc k)
  then have "\<not> bit (push_bit k (ucast b :: u16)) 15" by (auto simp: bit_simps dest: bit_imp_le_length)
  then have "crc_bit (push_bit k (ucast b)) = push_bit (Suc k) (ucast b)"
    by (simp add: crc_bit_def crc_top)
  with Suc show ?case by simp
qed simp

lemma crc_two: "crc_byte (crc_byte crc a) b = (crc_bit ^^ 16) (crc XOR push_bit 8 (ucast a) XOR ucast b)"
proof -
  have "crc_byte (crc_byte crc a) b = (crc_bit ^^ 8) ((crc_bit ^^ 8) (crc XOR push_bit 8 (ucast a)) XOR (crc_bit ^^ 8) (ucast b))"
    by (simp only: crc_byte_def crc_bits_low [of 8] order_refl)
  also have "\<dots> = ((crc_bit ^^ 8) \<circ> (crc_bit ^^ 8)) (crc XOR push_bit 8 (ucast a) XOR ucast b)"
    by (simp only: crc_bits_xor comp_apply xor.assoc)
  also have "(crc_bit ^^ 8) \<circ> (crc_bit ^^ 8) = crc_bit ^^ 16" by (simp only: funpow_add [symmetric]) simp
  finally show ?thesis .
qed

lemma crc_pair_inj:
  "crc XOR push_bit 8 (ucast a) XOR ucast b = crc XOR push_bit 8 (ucast (c :: u8)) XOR (ucast (d :: u8) :: u16) \<longleftrightarrow>
     a = c \<and> b = d"
proof
  assume "crc XOR push_bit 8 (ucast a) XOR ucast b = crc XOR push_bit 8 (ucast c) XOR (ucast d :: u16)"
  then have eq: "push_bit 8 (ucast a) XOR ucast b = push_bit 8 (ucast c) XOR (ucast d :: u16)" by (simp only: xor_cancel)
  have low: "bit (push_bit 8 (ucast x) XOR ucast y :: u16) n = bit y n" if "n < 8" for x y :: u8 and n
    using that by (auto simp: bit_simps)
  have high: "bit (push_bit 8 (ucast x) XOR ucast y :: u16) (8 + n) = bit x n" if "n < 8" for x y :: u8 and n
    using that by (auto simp: bit_simps dest: bit_imp_le_length)
  have "bit a n = bit c n" "bit b n = bit d n" if "n < 8" for n
    using low [OF that, of a b] low [OF that, of c d] high [OF that, of a b] high [OF that, of c d] eq by simp_all
  then show "a = c \<and> b = d" by (auto intro!: bit_word_eqI)
qed simp

lemma crc_fold_inj: "fold (\<lambda>b crc. crc_byte crc b) xs c = fold (\<lambda>b crc. crc_byte crc b) xs d \<longleftrightarrow> c = d"
proof (induction xs arbitrary: c d)
  case (Cons x xs)
  have "crc_byte c x = crc_byte d x \<longleftrightarrow> c = d"
    unfolding crc_byte_def crc_bits_inj by (simp only: xor_cancel xor.commute [of _ "push_bit 8 (ucast x)"])
  with Cons show ?case by simp
qed simp

text \<open>The checksum of the Mii database detects every change of two bytes next to each other, or of one: two files
  that differ in no more than that have the same checksum only if they are the same.\<close>

theorem Crc16_detects:
  "Crc16Ccitt (xs @ [a, b] @ ys) = Crc16Ccitt (xs @ [c, d] @ ys) \<longleftrightarrow> a = c \<and> b = d"
  by (simp add: Crc16Ccitt_def crc_fold_inj crc_two crc_bits_inj crc_pair_inj)

section \<open>Round trip\<close>

definition db_ok :: "MiiDatabase \<Rightarrow> bool" where
  "db_ok db \<longleftrightarrow> length (mSlots db) = kMiiSlots \<and> list_all (\<lambda>m. length m = kMiiEntrySize) (mSlots db) \<and>
     list_all (\<lambda>b. b = 0) (drop kMiiDatabaseSize (mRest db))"

lemma put_slots_held:
  assumes "list_all (\<lambda>m. length m = kMiiEntrySize) ms" "kEntriesOffset + (slot + length ms) * kMiiEntrySize \<le> length buf"
  shows "\<exists>out. put_slots ms slot buf = Some out \<and> length out = length buf \<and>
     (\<forall>j < length ms. getn out (kEntriesOffset + (slot + j) * kMiiEntrySize) kMiiEntrySize = Some (ms ! j)) \<and>
     (\<forall>i. i < kEntriesOffset + slot * kMiiEntrySize \<or> kEntriesOffset + (slot + length ms) * kMiiEntrySize \<le> i \<longrightarrow> out ! i = buf ! i)"
  using assms
proof (induction ms arbitrary: slot buf)
  case (Cons m ms)
  let ?at = "kEntriesOffset + slot * kMiiEntrySize"
  have at: "kEntriesOffset + (slot + 1) * kMiiEntrySize = ?at + kMiiEntrySize"
    "kEntriesOffset + (slot + length (m # ms)) * kMiiEntrySize = ?at + kMiiEntrySize + length ms * kMiiEntrySize"
    by (simp_all add: algebra_simps)
  have m: "length m = kMiiEntrySize" using Cons.prems(1) by simp
  obtain b where b: "putn buf ?at m = Some b" "length b = length buf"
    using Cons.prems(2) m at(2) putn_length by (metis add_leD1 putn_def)
  obtain out where out: "put_slots ms (slot + 1) b = Some out" "length out = length b"
      "\<And>j. j < length ms \<Longrightarrow> getn out (kEntriesOffset + (slot + 1 + j) * kMiiEntrySize) kMiiEntrySize = Some (ms ! j)"
      "\<And>i. i < ?at + kMiiEntrySize \<or> ?at + kMiiEntrySize + length ms * kMiiEntrySize \<le> i \<Longrightarrow> out ! i = b ! i"
    using Cons.IH [of "slot + 1" b] Cons.prems b(2) at by (auto simp: algebra_simps)
  have n: "b ! i = buf ! i" if "i < ?at \<or> ?at + kMiiEntrySize \<le> i" for i
    using putn_nth_outside [OF b(1), of i] that m by simp
  have "getn out ?at kMiiEntrySize = getn b ?at kMiiEntrySize" using out(2,4) by (intro getn_same) simp_all
  then have first: "getn out ?at kMiiEntrySize = Some m" using getn_putn_same [OF b(1)] m by simp
  have "getn out (kEntriesOffset + (slot + j) * kMiiEntrySize) kMiiEntrySize = Some ((m # ms) ! j)" if "j < length (m # ms)" for j
    using that first out(3) by (cases j) simp_all
  moreover have "out ! i = buf ! i" if "i < ?at \<or> ?at + kMiiEntrySize + length ms * kMiiEntrySize \<le> i" for i
    using that out(4) [of i] n [of i] by auto
  ultimately show ?case using b out(1,2) at(2) by auto
qed simp

text \<open>The bytes that building carries through as they came.\<close>

definition carried :: "nat \<Rightarrow> bool" where
  "carried i \<longleftrightarrow> kEntriesOffset + kMiiSlots * kMiiEntrySize \<le> i \<and> \<not> (kMiiParadeOffset \<le> i \<and> i < kMiiParadeOffset + 4) \<and>
     \<not> (kMiiCrcOffset \<le> i \<and> i < kMiiCrcOffset + 2)"

lemma Build_parts:
  assumes "db_ok db"
  defines "n \<equiv> max (length (mRest db)) kMiiDatabaseFileSize"
  shows "\<exists>buf. MiiDatabase_Build db = Some buf \<and> length buf = n \<and> getn buf 0 4 = Some [0x52, 0x4E, 0x4F, 0x44] \<and>
     getn buf kMiiParadeOffset 4 = Some [0x52, 0x4E, 0x48, 0x44] \<and>
     (\<forall>j < kMiiSlots. getn buf (kEntriesOffset + j * kMiiEntrySize) kMiiEntrySize = Some (mSlots db ! j)) \<and>
     (\<exists>covered. getn buf 0 kMiiCrcOffset = Some covered \<and> read16 buf kMiiCrcOffset = Some (Crc16Ccitt covered)) \<and>
     (\<forall>i. carried i \<longrightarrow> buf ! i = resize n (mRest db) ! i)"
proof -
  have big: "kMiiDatabaseFileSize \<le> n" by (simp add: n_def)
  let ?b0 = "resize n (mRest db)"
  obtain b1 where b1: "putn ?b0 0 [0x52, 0x4E, 0x4F, 0x44] = Some b1" "length b1 = n"
    using big putn_length [of ?b0 0 "[0x52, 0x4E, 0x4F, 0x44]"] by (auto simp: putn_def mii_sizes)
  obtain b2 where b2: "putn b1 kMiiParadeOffset [0x52, 0x4E, 0x48, 0x44] = Some b2" "length b2 = n"
    using big b1(2) by (auto simp: putn_def mii_sizes)
  obtain b3 where b3: "put_slots (mSlots db) 0 b2 = Some b3" "length b3 = n"
      "\<And>j. j < kMiiSlots \<Longrightarrow> getn b3 (kEntriesOffset + j * kMiiEntrySize) kMiiEntrySize = Some (mSlots db ! j)"
      "\<And>i. i < kEntriesOffset \<or> kEntriesOffset + kMiiSlots * kMiiEntrySize \<le> i \<Longrightarrow> b3 ! i = b2 ! i"
    using put_slots_held [of "mSlots db" 0 b2] assms(1) b2(2) big by (auto simp: db_ok_def mii_sizes)
  obtain covered where c: "getn b3 0 kMiiCrcOffset = Some covered" using b3(2) big by (simp add: getn_def mii_sizes)
  let ?crc = "Crc16Ccitt covered"
  obtain b4 where b4: "putn b3 kMiiCrcOffset [ucast (drop_bit 8 ?crc), ucast (?crc AND 0xFF)] = Some b4" "length b4 = n"
    using b3(2) big by (auto simp: putn_def mii_sizes)
  have n1: "b1 ! i = ?b0 ! i" if "4 \<le> i" for i using putn_nth_outside [OF b1(1), of i] that by simp
  have n2: "b2 ! i = b1 ! i" if "i < kMiiParadeOffset \<or> kMiiParadeOffset + 4 \<le> i" for i
    using putn_nth_outside [OF b2(1), of i] that by (simp add: eval_nat_numeral)
  have n4: "b4 ! i = b3 ! i" if "i < kMiiCrcOffset \<or> kMiiCrcOffset + 2 \<le> i" for i
    using putn_nth_outside [OF b4(1), of i] that by (simp add: eval_nat_numeral)
  have "getn b4 0 4 = getn b1 0 4"
    using b1(2) b4(2) n4 b3(4) n2 by (intro getn_same) (simp_all add: mii_sizes)
  then have head: "getn b4 0 4 = Some [0x52, 0x4E, 0x4F, 0x44]" using getn_putn_same [OF b1(1)] by (simp add: eval_nat_numeral)
  have "getn b4 kMiiParadeOffset 4 = getn b2 kMiiParadeOffset 4"
    using b2(2) b4(2) n4 b3(4) by (intro getn_same) (simp_all add: mii_sizes)
  then have parade: "getn b4 kMiiParadeOffset 4 = Some [0x52, 0x4E, 0x48, 0x44]"
    using getn_putn_same [OF b2(1)] by (simp add: eval_nat_numeral)
  have slots: "getn b4 (kEntriesOffset + j * kMiiEntrySize) kMiiEntrySize = Some (mSlots db ! j)" if "j < kMiiSlots" for j
  proof -
    have "getn b4 (kEntriesOffset + j * kMiiEntrySize) kMiiEntrySize = getn b3 (kEntriesOffset + j * kMiiEntrySize) kMiiEntrySize"
      using that b3(2) b4(2) n4 by (intro getn_same) (simp_all add: mii_sizes)
    then show ?thesis using b3(3) that by simp
  qed
  have cov: "getn b4 0 kMiiCrcOffset = Some covered"
    using c b3(2) b4(2) n4 getn_same [of 0 kMiiCrcOffset b4 b3] by simp
  have low: "ucast (?crc AND 0xFF) = (ucast ?crc :: u8)"
  proof -
    have "ucast (?crc AND mask 8) = (ucast ?crc :: u8)" by (rule bit_word_eqI) (auto simp: bit_simps)
    then show ?thesis by (simp add: mask_eq_exp_minus_1)
  qed
  have "getn b4 kMiiCrcOffset 2 = Some [ucast (drop_bit 8 ?crc), ucast (?crc AND 0xFF)]"
    using getn_putn_same [OF b4(1)] by (simp add: eval_nat_numeral)
  from read16_inner [OF this, of 0] have "read16 b4 kMiiCrcOffset = Some ?crc"
    by (simp add: low read16_def rd_def be16_bytes)
  moreover have "b4 ! i = ?b0 ! i" if "carried i" for i
    using that n4 [of i] b3(4) [of i] n2 [of i] n1 [of i] by (auto simp: carried_def mii_sizes)
  moreover have "MiiDatabase_Build db = Some b4"
    using b1(1) b2(1) b3(1) c b4(1) by (simp add: MiiDatabase_Build_def Let_def n_def)
  ultimately show ?thesis using b4(2) head parade slots cov by blast
qed

lemma those_in: "those (map f ids) = Some xs \<Longrightarrow> m \<in> set xs \<Longrightarrow> \<exists>i. f i = Some m"
  by (induction ids arbitrary: xs) (auto split: option.splits)

lemma those_all: "(\<And>j. j < n \<Longrightarrow> f j = Some (xs ! j)) \<Longrightarrow> length xs = n \<Longrightarrow> those (map f [0..<n]) = Some xs"
proof -
  assume "\<And>j. j < n \<Longrightarrow> f j = Some (xs ! j)" "length xs = n"
  then have "map f [0..<n] = map Some xs" by (intro nth_equalityI) simp_all
  then show ?thesis by (simp only: those_Some)
qed

text \<open>A database is read back as it was written: its file holds every Mii in its slot, is as long as the console wants
  it, has the checksum of what it holds, and carries every byte that is not understood unchanged.\<close>

theorem Mii_roundtrip:
  assumes "db_ok db"
  shows "\<exists>buf. MiiDatabase_Build db = Some buf \<and> length buf = max (length (mRest db)) kMiiDatabaseFileSize \<and>
     MiiDatabase_Parse buf = Some (Some (\<lparr>mSlots = mSlots db, mRest = buf\<rparr>, True)) \<and>
     (\<forall>i. carried i \<longrightarrow> buf ! i = resize (length buf) (mRest db) ! i)"
proof -
  obtain buf covered where buf: "MiiDatabase_Build db = Some buf" "length buf = max (length (mRest db)) kMiiDatabaseFileSize"
      "getn buf 0 4 = Some [0x52, 0x4E, 0x4F, 0x44]" "getn buf kMiiParadeOffset 4 = Some [0x52, 0x4E, 0x48, 0x44]"
      "\<And>j. j < kMiiSlots \<Longrightarrow> getn buf (kEntriesOffset + j * kMiiEntrySize) kMiiEntrySize = Some (mSlots db ! j)"
      "getn buf 0 kMiiCrcOffset = Some covered" "read16 buf kMiiCrcOffset = Some (Crc16Ccitt covered)"
      "\<And>i. carried i \<Longrightarrow> buf ! i = resize (length buf) (mRest db) ! i"
    using Build_parts [OF assms] by metis
  have "buf ! i = 0" if "kMiiDatabaseSize \<le> i" "i < length buf" for i
  proof -
    have "carried i" using that(1) by (simp add: carried_def mii_sizes)
    moreover have "mRest db ! i = 0" if "i < length (mRest db)"
    proof -
      have "\<forall>k < length (drop kMiiDatabaseSize (mRest db)). drop kMiiDatabaseSize (mRest db) ! k = 0"
        using assms by (simp add: db_ok_def list_all_length del: nth_drop)
      then show ?thesis using that \<open>kMiiDatabaseSize \<le> i\<close> by (auto dest: spec [of _ "i - kMiiDatabaseSize"])
    qed
    ultimately show ?thesis using buf(8) that(2) by (simp add: resize_def nth_append)
  qed
  then have zeros: "\<not> list_ex (\<lambda>b. b \<noteq> 0) (drop kMiiDatabaseSize buf)" by (auto simp: list_ex_length)
  have slots: "those (map (\<lambda>slot. getn buf (kEntriesOffset + slot * kMiiEntrySize) kMiiEntrySize) [0..<kMiiSlots]) = Some (mSlots db)"
    using buf(5) assms by (intro those_all) (simp_all add: db_ok_def)
  have "\<not> length buf < kMiiDatabaseSize" using buf(2) by (simp add: mii_sizes)
  then have "MiiDatabase_Parse buf = Some (Some (\<lparr>mSlots = mSlots db, mRest = buf\<rparr>, True))"
    using buf(3,4,6,7) zeros slots by (simp add: MiiDatabase_Parse_def)
  then show ?thesis using buf(1,2,8) by blast
qed

lemma db_ok_parse: "MiiDatabase_Parse buf = Some (Some (db, valid)) \<Longrightarrow> db_ok db"
  by (auto simp: MiiDatabase_Parse_def db_ok_def list_ex_iff list_all_iff those_length getn_length dest: those_in
      split: if_splits Option.bind_splits)

lemma db_ok_put: "db_ok db \<Longrightarrow> length mii = kMiiEntrySize \<Longrightarrow> db_ok (snd (Put slot mii db)) \<and> db_ok (snd (Remove slot db))"
  by (auto simp: db_ok_def Put_def Remove_def no_mii_def list_all_iff dest: set_update_subset_insert [THEN subsetD])

lemma Mii_roundtrip_witness:
  "\<exists>buf. MiiDatabase_Build \<lparr>mSlots = replicate kMiiSlots (replicate kMiiEntrySize 7), mRest = []\<rparr> = Some buf \<and>
     MiiDatabase_Parse buf = Some (Some (\<lparr>mSlots = replicate kMiiSlots (replicate kMiiEntrySize 7), mRest = buf\<rparr>, True))"
proof -
  have "db_ok \<lparr>mSlots = replicate kMiiSlots (replicate kMiiEntrySize 7), mRest = []\<rparr>" by (simp add: db_ok_def list_all_iff)
  from Mii_roundtrip [OF this] show ?thesis by auto
qed

end
