(* ===== verification/Nand_Store.thy ===== *)
theory Nand_Store
  imports Nand_Wad
begin

text \<open>
  src/format/nand/store.cpp: installing titles into a console's memory, finding and removing them. The
  memory is the caller's, four functions over a state of any type; so is the cipher.
\<close>

record 's store =
  s_read :: "('s \<Rightarrow> bytes \<Rightarrow> bool \<times> bytes) option"
  s_write :: "('s \<Rightarrow> bytes \<Rightarrow> bytes \<Rightarrow> bool \<times> 's) option"
  s_remove :: "('s \<Rightarrow> bytes \<Rightarrow> bool \<times> 's) option"
  s_list :: "('s \<Rightarrow> bytes \<Rightarrow> bool \<times> bytes list) option"

definition Read :: "'s store \<Rightarrow> 's \<Rightarrow> bytes \<Rightarrow> bool \<times> bytes" where
  "Read st s path = (case s_read st of None \<Rightarrow> (False, []) | Some f \<Rightarrow> f s path)"

definition Write :: "'s store \<Rightarrow> 's \<Rightarrow> bytes \<Rightarrow> bytes \<Rightarrow> bool \<times> 's" where
  "Write st s path bs = (case s_write st of None \<Rightarrow> (False, s) | Some f \<Rightarrow> f s path bs)"

record cipher =
  cbc_decrypt :: "(bytes \<Rightarrow> bytes \<Rightarrow> bytes \<Rightarrow> bytes) option"
  common_key :: "(u8 \<Rightarrow> bytes option) option"

datatype InstallResult = Installed | NotAWad | NoKey | WriteFailed

record InstalledTitle =
  it_id :: u64
  it_version :: u16
  it_contents :: u16
  it_size :: u64

record ContentLocation =
  l_id :: u32
  l_index :: u16
  l_shared :: bool
  l_path :: bytes
  l_present :: bool

section \<open>The map of shared contents\<close>

definition kSharedEntrySize :: nat where "kSharedEntrySize = 28"

definition kSharedPath :: bytes where "kSharedPath = ascii ''/shared1''"

definition map_path :: bytes where "map_path = kSharedPath @ ascii ''/content.map''"

definition shared_path :: "bytes \<Rightarrow> bytes" where
  "shared_path name = kSharedPath @ ascii ''/'' @ name @ ascii ''.app''"

definition xdigit :: "u8 \<Rightarrow> bool" where
  "xdigit b \<longleftrightarrow> 0x30 \<le> b \<and> b \<le> 0x39 \<or> 0x41 \<le> b \<and> b \<le> 0x46 \<or> 0x61 \<le> b \<and> b \<le> 0x66"

definition IsName :: "bytes \<Rightarrow> bool" where
  "IsName at = list_all xdigit (take 8 at)"

definition map_count :: "bytes \<Rightarrow> nat" where
  "map_count m = length m div kSharedEntrySize"

definition map_entry :: "bytes \<Rightarrow> nat \<Rightarrow> bytes" where
  "map_entry m index = take kSharedEntrySize (drop (index * kSharedEntrySize) m)"

definition Normalize :: "bytes \<Rightarrow> bytes" where
  "Normalize m =
     (let m = take (map_count m * kSharedEntrySize) m;
          reversed = (map_count m \<noteq> 0 \<and>
            list_all (\<lambda>index. \<not> IsName (map_entry m index) \<and> IsName (drop 20 (map_entry m index))) [0..<map_count m]) in
      if \<not> reversed then m
      else concat (map (\<lambda>index. drop 20 (map_entry m index) @ take 20 (map_entry m index)) [0..<map_count m]))"

definition map_find :: "bytes \<Rightarrow> bytes \<Rightarrow> bytes option" where
  "map_find m sha1 =
     map_option (\<lambda>index. take 8 (map_entry m index)) (List.find (\<lambda>index. drop 8 (map_entry m index) = sha1) [0..<map_count m])"

definition map_add :: "bytes \<Rightarrow> bytes \<Rightarrow> bytes \<times> bytes" where
  "map_add m sha1 = (let name = Hex8 (of_nat (map_count m)) in (name, m @ name @ sha1))"

definition LoadSharedMap :: "'s store \<Rightarrow> 's \<Rightarrow> bytes" where
  "LoadSharedMap st s = Normalize (snd (Read st s map_path))"

section \<open>What is installed\<close>

text \<open>\<open>strtoull\<close> and \<open>strtoul\<close> in base 16, with 64 bits.\<close>

definition digit_of :: "u8 \<Rightarrow> nat" where
  "digit_of b = (if b \<le> 0x39 then unat b - 0x30 else if b \<le> 0x46 then unat b - 0x37 else unat b - 0x57)"

definition skip_space :: "bytes \<Rightarrow> bytes" where
  "skip_space = dropWhile (\<lambda>b. b = 0x20 \<or> 0x09 \<le> b \<and> b \<le> 0x0D)"

definition hex_number :: "bytes \<Rightarrow> nat" where
  "hex_number txt =
     (let txt = (if take 2 txt \<in> {[0x30, 0x78], [0x30, 0x58]} \<and> (drop 2 txt \<noteq> [] \<and> xdigit (hd (drop 2 txt)))
                 then drop 2 txt else txt) in
      foldl (\<lambda>n b. n * 16 + digit_of b) 0 (takeWhile xdigit txt))"

definition strtoull :: "bytes \<Rightarrow> u64" where
  "strtoull txt =
     (let txt = skip_space txt;
          negative = (txt \<noteq> [] \<and> hd txt = 0x2D);
          n = hex_number (if txt \<noteq> [] \<and> (hd txt = 0x2D \<or> hd txt = 0x2B) then tl txt else txt) in
      if 2 ^ 64 \<le> n then - 1 else if negative then - of_nat n else of_nat n)"

definition installed_title :: "'s store \<Rightarrow> 's \<Rightarrow> u64 \<Rightarrow> InstalledTitle option option" where
  "installed_title st s ident =
     (case Read st s (TmdPath ident) of
        (False, _) \<Rightarrow> Some None
      | (True, bs) \<Rightarrow> map_option (map_option (\<lambda>tmd. \<lparr>it_id = ident, it_version = t_title_version tmd,
          it_contents = of_nat (length (t_contents tmd)), it_size = TotalSize tmd\<rparr>)) (Tmd_Parse (Some bs)))"

definition titles_under :: "'s store \<Rightarrow> 's \<Rightarrow> (bytes \<Rightarrow> bool \<times> bytes list) \<Rightarrow> bytes \<Rightarrow> InstalledTitle option list option" where
  "titles_under st s ls high =
     (case ls (ascii ''/title/'' @ high) of
        (False, _) \<Rightarrow> Some []
      | (True, lows) \<Rightarrow> those (map (\<lambda>low. installed_title st s (push_bit 32 (strtoull high) OR strtoull low)) lows))"

definition InstalledTitles :: "'s store \<Rightarrow> 's \<Rightarrow> InstalledTitle list option" where
  "InstalledTitles st s =
     (case s_list st of
        None \<Rightarrow> Some []
      | Some f \<Rightarrow>
          (case f s (ascii ''/title'') of
             (False, _) \<Rightarrow> Some []
           | (True, highs) \<Rightarrow> map_option (\<lambda>found. map the (filter (\<lambda>t. t \<noteq> None) (concat found)))
               (those (map (titles_under st s (f s)) highs))))"

definition locate :: "'s store \<Rightarrow> 's \<Rightarrow> u64 \<Rightarrow> bytes \<Rightarrow> ContentRecord \<Rightarrow> ContentLocation" where
  "locate st s ident shared content =
     (let path = (if Shared content then (case map_find shared (c_sha1 content) of Some name \<Rightarrow> shared_path name | None \<Rightarrow> [])
                  else ContentFilePath ident (c_id content)) in
      \<lparr>l_id = c_id content, l_index = c_index content, l_shared = Shared content, l_path = path,
       l_present = (path \<noteq> [] \<and> fst (Read st s path))\<rparr>)"

definition ResolveContents :: "'s store \<Rightarrow> 's \<Rightarrow> u64 \<Rightarrow> ContentLocation list option" where
  "ResolveContents st s ident =
     (case Read st s (TmdPath ident) of
        (False, _) \<Rightarrow> Some []
      | (True, bs) \<Rightarrow> map_option (\<lambda>tmd. case tmd of None \<Rightarrow> []
          | Some tmd \<Rightarrow> map (locate st s ident (LoadSharedMap st s)) (t_contents tmd)) (Tmd_Parse (Some bs)))"

definition TitleInstalled :: "'s store \<Rightarrow> 's \<Rightarrow> u64 \<Rightarrow> bool option" where
  "TitleInstalled st s ident =
     (case Read st s (TmdPath ident) of
        (False, _) \<Rightarrow> Some False
      | (True, bs) \<Rightarrow> map_option (\<lambda>tmd. tmd \<noteq> None) (Tmd_Parse (Some bs)))"

section \<open>Installing and removing\<close>

text \<open>The bytes of a content, decrypted; \<open>None\<close> is a copy from outside the file.\<close>

definition content_bytes :: "bytes \<Rightarrow> WadSection \<Rightarrow> (bytes \<Rightarrow> bytes \<Rightarrow> bytes \<Rightarrow> bytes) \<Rightarrow> bytes \<Rightarrow> ContentRecord \<Rightarrow> bytes option" where
  "content_bytes whole extent decrypt title_key content = do {
     bs \<leftarrow> getn whole (unat (w_offset extent)) (unat (EncryptedSize content));
     Some (resize (unat (c_size content)) (decrypt title_key (ContentIv (c_index content)) bs)) }"

text \<open>One content; whether to go on, the map and the memory.\<close>

definition install_content ::
  "'s store \<Rightarrow> u64 \<Rightarrow> ContentRecord \<Rightarrow> bytes \<Rightarrow> bytes \<times> 's \<Rightarrow> bool \<times> bytes \<times> 's" where
  "install_content st ident content bs = (\<lambda>(shared, s).
     if Shared content then
       (case map_find shared (c_sha1 content) of
          Some name \<Rightarrow> (True, shared, s)
        | None \<Rightarrow>
            let (name, shared) = map_add shared (c_sha1 content); (ok, s) = Write st s (shared_path name) bs in (ok, shared, s))
     else let (ok, s) = Write st s (ContentFilePath ident (c_id content)) bs in (ok, shared, s))"

primrec install_contents ::
  "'s store \<Rightarrow> bytes \<Rightarrow> Wad \<Rightarrow> (bytes \<Rightarrow> bytes \<Rightarrow> bytes \<Rightarrow> bytes) \<Rightarrow> bytes \<Rightarrow> ContentRecord list \<Rightarrow> bytes \<times> 's \<Rightarrow>
     (bool \<times> bytes \<times> 's) option" where
  "install_contents st whole wad decrypt title_key [] ms = Some (True, ms)"
| "install_contents st whole wad decrypt title_key (c # cs) ms =
     (case Wad_Content wad (c_index c) of
        None \<Rightarrow> Some (False, ms)
      | Some extent \<Rightarrow> do {
          bs \<leftarrow> content_bytes whole extent decrypt title_key c;
          let (ok, ms) = install_content st (t_title_id (w_tmd wad)) c bs ms in
          if \<not> ok then Some (False, ms) else install_contents st whole wad decrypt title_key cs ms })"

definition install_wad ::
  "'s store \<Rightarrow> bytes \<Rightarrow> Wad \<Rightarrow> (bytes \<Rightarrow> bytes \<Rightarrow> bytes \<Rightarrow> bytes) \<Rightarrow> bytes \<Rightarrow> 's \<Rightarrow> (InstallResult \<times> 's) option" where
  "install_wad st whole wad decrypt common s =
     (let title_key = decrypt common (TitleKeyIv (k_title_id (w_ticket wad))) (k_title_key (w_ticket wad));
          ident = t_title_id (w_tmd wad);
          (ok, s) = Write st s (TicketPath ident) (k_raw (w_ticket wad)) in
      if \<not> ok then Some (WriteFailed, s)
      else let (ok, s) = Write st s (TmdPath ident) (t_raw (w_tmd wad)) in
      if \<not> ok then Some (WriteFailed, s)
      else do {
        (ok, shared, s) \<leftarrow> install_contents st whole wad decrypt title_key (t_contents (w_tmd wad)) (LoadSharedMap st s, s);
        if \<not> ok then Some (WriteFailed, s)
        else if shared = [] then Some (Installed, s)
        else let (ok, s) = Write st s map_path shared in Some (if ok then Installed else WriteFailed, s) })"

definition InstallTitle :: "'s store \<Rightarrow> bytes \<Rightarrow> cipher \<Rightarrow> 's \<Rightarrow> (InstallResult \<times> 's) option" where
  "InstallTitle st whole cipher s = do {
     parsed \<leftarrow> Wad_Parse whole;
     case parsed of
       None \<Rightarrow> Some (NotAWad, s)
     | Some wad \<Rightarrow>
         (case (cbc_decrypt cipher, common_key cipher) of
            (Some decrypt, Some key) \<Rightarrow>
              (case key (k_common_key_index (w_ticket wad)) of
                 None \<Rightarrow> Some (NoKey, s)
               | Some common \<Rightarrow> install_wad st whole wad decrypt common s)
          | _ \<Rightarrow> Some (NoKey, s)) }"

definition RemoveTitle :: "'s store \<Rightarrow> u64 \<Rightarrow> 's \<Rightarrow> (bool \<times> 's) option" where
  "RemoveTitle st ident s =
     (case (s_remove st, s_list st) of
        (Some rm, Some ls) \<Rightarrow>
          (case Read st s (TmdPath ident) of
             (False, _) \<Rightarrow> Some (False, s)
           | (True, bs) \<Rightarrow> map_option (\<lambda>tmd. case tmd of
                 None \<Rightarrow> (False, s)
               | Some tmd \<Rightarrow>
                   let s = fold (\<lambda>c s. if \<not> Shared c then snd (rm s (ContentFilePath ident (c_id c))) else s) (t_contents tmd) s;
                       s = snd (rm s (TmdPath ident)) in
                   (True, snd (rm s (TicketPath ident)))) (Tmd_Parse (Some bs)))
      | _ \<Rightarrow> Some (False, s))"

section \<open>The map of shared contents is what its hashes are\<close>

text \<open>The map that gives these hashes the names from 00000000 on.\<close>

definition enc :: "bytes list \<Rightarrow> bytes" where
  "enc shas = concat (map (\<lambda>i. Hex8 (of_nat i) @ shas ! i) [0..<length shas])"

definition shas_ok :: "bytes list \<Rightarrow> bool" where
  "shas_ok shas \<longleftrightarrow> list_all (\<lambda>sha. length sha = 20) shas \<and> length shas < 2 ^ 32"

lemma concat_block:
  "(\<And>x. x \<in> set xss \<Longrightarrow> length x = n) \<Longrightarrow> i < length xss \<Longrightarrow> take n (drop (i * n) (concat xss)) = xss ! i"
proof (induction xss arbitrary: i)
  case (Cons x xss)
  then show ?case by (cases i) (simp_all add: add.commute)
qed simp

lemma length_enc: "list_all (\<lambda>sha. length sha = 20) shas \<Longrightarrow> length (enc shas) = length shas * 28"
proof -
  assume "list_all (\<lambda>sha. length sha = 20) shas"
  then have "map length (map (\<lambda>i. Hex8 (of_nat i) @ shas ! i) [0..<length shas]) = replicate (length shas) 28"
    by (intro nth_equalityI) (auto simp: list_all_length)
  then show ?thesis by (simp add: enc_def length_concat sum_list_replicate)
qed

lemma enc_append: "enc (shas @ [sha]) = enc shas @ Hex8 (of_nat (length shas)) @ sha"
  unfolding enc_def by (simp, rule arg_cong [of _ _ concat]) (simp add: nth_append)

lemma enc_Nil_iff: "enc shas = [] \<longleftrightarrow> shas = []"
  by (cases shas rule: rev_cases) (auto simp: enc_append enc_def dest: arg_cong [of _ _ length])

lemma map_count_enc: "shas_ok shas \<Longrightarrow> map_count (enc shas) = length shas"
  by (simp add: map_count_def kSharedEntrySize_def length_enc shas_ok_def)

lemma map_entry_enc: "shas_ok shas \<Longrightarrow> i < length shas \<Longrightarrow> map_entry (enc shas) i = Hex8 (of_nat i) @ shas ! i"
  unfolding map_entry_def kSharedEntrySize_def enc_def
  by (subst concat_block) (auto simp: shas_ok_def list_all_length)

lemma xdigit_hex: "n < 16 \<Longrightarrow> xdigit (hex_digit (word_of_nat n))"
  using unat_hex_digit [of n] by (simp add: xdigit_def word_le_nat_alt split: if_splits)

lemma IsName_Hex8: "IsName (Hex8 v @ rest)"
proof -
  have small: "unat (w AND 0xF) < 16" for w :: u32 using unat_and_F [of w] by simp
  have "xdigit (hex_digit (w AND 0xF))" for w :: u32 using xdigit_hex [OF small [of w]] by simp
  then show ?thesis by (simp add: IsName_def Hex8_def list_all_iff)
qed

lemma Normalize_enc: "shas_ok shas \<Longrightarrow> Normalize (enc shas) = enc shas"
proof -
  assume ok: "shas_ok shas"
  have whole: "take (length shas * kSharedEntrySize) (enc shas) = enc shas"
    using ok by (simp add: length_enc shas_ok_def kSharedEntrySize_def)
  show ?thesis
  proof (cases "shas = []")
    case False
    then have "IsName (map_entry (enc shas) 0)" using ok by (simp add: map_entry_enc IsName_Hex8)
    then show ?thesis using False ok by (auto simp: Normalize_def Let_def whole map_count_enc list_all_iff)
  qed (simp add: Normalize_def enc_def map_count_def Let_def)
qed

lemma find_enc:
  assumes "shas_ok shas"
  shows "map_find (enc shas) sha = map_option (\<lambda>i. Hex8 (of_nat i)) (List.find (\<lambda>i. shas ! i = sha) [0..<length shas])"
proof -
  have "List.find (\<lambda>index. drop 8 (map_entry (enc shas) index) = sha) [0..<length shas] =
      List.find (\<lambda>i. shas ! i = sha) [0..<length shas]"
    using assms by (intro find_cong) (simp_all add: map_entry_enc)
  moreover have "i < length shas" if "List.find (\<lambda>i. shas ! i = sha) [0..<length shas] = Some i" for i
    using that by (auto simp: find_Some_iff)
  ultimately show ?thesis using assms
    by (cases "List.find (\<lambda>i. shas ! i = sha) [0..<length shas]") (simp_all add: map_find_def map_count_enc map_entry_enc)
qed

lemma find_enc_Some:
  assumes "shas_ok shas" "sha \<in> set shas"
  shows "\<exists>i < length shas. map_find (enc shas) sha = Some (Hex8 (of_nat i)) \<and> shas ! i = sha"
proof -
  obtain i where i: "List.find (\<lambda>i. shas ! i = sha) [0..<length shas] = Some i"
    using assms(2) by (cases "List.find (\<lambda>i. shas ! i = sha) [0..<length shas]") (auto simp: find_None_iff in_set_conv_nth)
  then have "i < length shas" "shas ! i = sha" by (auto simp: find_Some_iff)
  then show ?thesis using find_enc [OF assms(1), of sha] i by auto
qed

lemma find_enc_None: "shas_ok shas \<Longrightarrow> sha \<notin> set shas \<Longrightarrow> map_find (enc shas) sha = None"
  by (simp add: find_enc find_None_iff) (metis nth_mem)

lemma find_enc_more:
  assumes "shas_ok (shas @ new)" "map_find (enc shas) sha = Some name"
  shows "map_find (enc (shas @ new)) sha = Some name"
proof -
  have "shas_ok shas" using assms(1) by (auto simp: shas_ok_def)
  then obtain i where i: "List.find (\<lambda>i. shas ! i = sha) [0..<length shas] = Some i" "name = Hex8 (of_nat i)"
    using assms(2) by (auto simp: find_enc)
  then have "List.find (\<lambda>i. (shas @ new) ! i = sha) [0..<length (shas @ new)] = Some i"
    by (auto simp: find_Some_iff nth_append intro!: exI [of _ i])
  then show ?thesis using assms(1) i(2) by (simp add: find_enc)
qed

lemma add_enc: "shas_ok shas \<Longrightarrow> map_add (enc shas) sha = (Hex8 (of_nat (length shas)), enc (shas @ [sha]))"
  by (simp add: map_add_def map_count_enc enc_append Let_def)

end
