(* ===== verification/Nand_Install.thy ===== *)
theory Nand_Install
  imports Nand_Store
begin

text \<open>
  What InstallTitle and RemoveTitle of src/format/nand/store.cpp do to a console's memory, for any store that
  keeps what is written to it.
\<close>

section \<open>What the memory holds\<close>

text \<open>Every hash of the map has its content.\<close>

definition stored :: "('s \<Rightarrow> bytes \<Rightarrow> bytes option) \<Rightarrow> 's \<Rightarrow> bytes list \<Rightarrow> bool" where
  "stored look s shas = list_all (\<lambda>i. look s (shared_path (Hex8 (of_nat i))) \<noteq> None) [0..<length shas]"

text \<open>The map in the memory is the one of these hashes, and is sound.\<close>

definition map_is :: "('s \<Rightarrow> bytes \<Rightarrow> bytes option) \<Rightarrow> 's \<Rightarrow> bytes list \<Rightarrow> bool" where
  "map_is look s shas \<longleftrightarrow> shas_ok shas \<and> stored look s shas \<and>
     Normalize (case look s map_path of None \<Rightarrow> [] | Some m \<Rightarrow> m) = enc shas"

text \<open>The bytes a content of a WAD has once it is decrypted.\<close>

definition plain :: "bytes \<Rightarrow> Wad \<Rightarrow> (bytes \<Rightarrow> bytes \<Rightarrow> bytes \<Rightarrow> bytes) \<Rightarrow> bytes \<Rightarrow> ContentRecord \<Rightarrow> bytes option" where
  "plain whole wad decrypt title_key c = do {
     extent \<leftarrow> Wad_Content wad (c_index c);
     content_bytes whole extent decrypt title_key c }"

text \<open>The files of a title's own contents, and the names the map has not given yet.\<close>

definition own :: "u64 \<Rightarrow> ContentRecord list \<Rightarrow> bytes set" where
  "own ident cs = (\<lambda>c. ContentFilePath ident (c_id c)) ` {c \<in> set cs. \<not> Shared c}"

definition fresh :: "bytes list \<Rightarrow> bytes set" where
  "fresh shas = (\<lambda>i. shared_path (Hex8 (of_nat i))) ` {length shas..<2 ^ 32}"

lemma length_shared [simp]: "length (shared_path (Hex8 v)) = 21" "length map_path = 20"
  by (simp_all add: shared_path_def map_path_def kSharedPath_def)

lemma shared_path_inj: "i < 2 ^ 32 \<Longrightarrow> j < 2 ^ 32 \<Longrightarrow> shared_path (Hex8 (of_nat i)) = shared_path (Hex8 (of_nat j)) \<longleftrightarrow> i = j"
  by (auto simp: shared_path_def Hex8_inj dest: arg_cong [of _ _ unat] simp: unat_of_nat_u32)

lemma other_paths [simp]:
  "shared_path (Hex8 v) \<notin> own ident cs" "map_path \<notin> own ident cs" "TmdPath a \<notin> own ident cs" "TicketPath a \<notin> own ident cs"
  "map_path \<notin> fresh shas" "TmdPath a \<notin> fresh shas" "TicketPath a \<notin> fresh shas" "ContentFilePath a c \<notin> fresh shas"
  by (auto simp: own_def fresh_def dest: arg_cong [of _ _ length])

lemma not_map [simp]:
  "shared_path (Hex8 v) \<noteq> map_path" "TmdPath a \<noteq> map_path" "TicketPath a \<noteq> map_path" "ContentFilePath a c \<noteq> map_path"
  "TmdPath a \<noteq> shared_path (Hex8 v)" "TicketPath a \<noteq> shared_path (Hex8 v)" "ContentFilePath a c \<noteq> shared_path (Hex8 v)"
  by (auto dest: arg_cong [of _ _ length])

lemmas not_map_sym [simp] = not_map [THEN not_sym]

lemma own_Cons: "own ident (c # cs) = (if Shared c then {} else {ContentFilePath ident (c_id c)}) \<union> own ident cs"
  by (auto simp: own_def)

lemma own_Nil [simp]: "own ident [] = {}"
  by (simp add: own_def)

lemma own_other [simp]: "a \<noteq> ident \<Longrightarrow> ContentFilePath a c \<notin> own ident cs"
  by (auto simp: own_def)

lemma shared_not_fresh: "i < length shas \<Longrightarrow> shas_ok shas \<Longrightarrow> shared_path (Hex8 (of_nat i)) \<notin> fresh shas"
  by (auto simp: fresh_def shas_ok_def shared_path_inj)

lemma fresh_append: "fresh (shas @ new) \<subseteq> fresh shas"
  by (auto simp: fresh_def)

lemma stored_nth: "stored look s shas \<Longrightarrow> i < length shas \<Longrightarrow> \<exists>bs. look s (shared_path (Hex8 (of_nat i))) = Some bs"
  by (auto simp: stored_def list_all_iff)

lemma shas_ok_snoc: "shas_ok (shas @ [sha]) \<longleftrightarrow> shas_ok shas \<and> length sha = 20 \<and> length shas + 1 < 2 ^ 32"
  by (auto simp: shas_ok_def)

section \<open>A store that keeps what is written\<close>

locale nand = keyed look put
  for look :: "'s \<Rightarrow> bytes \<Rightarrow> bytes option" and put :: "bytes \<Rightarrow> bytes \<Rightarrow> 's \<Rightarrow> 's" +
  fixes st :: "'s store"
  assumes read_law: "Read st s p = (case look s p of None \<Rightarrow> (False, []) | Some bs \<Rightarrow> (True, bs))"
    and write_law: "Write st s p bs = (True, put p bs s)"
begin

lemma load_map: "map_is look s shas \<Longrightarrow> LoadSharedMap st s = enc shas"
  by (cases "look s map_path") (simp_all add: LoadSharedMap_def read_law map_is_def)

lemma install_shared_known:
  "Shared c \<Longrightarrow> shas_ok shas \<Longrightarrow> c_sha1 c \<in> set shas \<Longrightarrow> install_content st ident c bs (enc shas, s) = (True, enc shas, s)"
  using find_enc_Some [of shas "c_sha1 c"] by (auto simp: install_content_def)

lemma install_shared_new:
  "Shared c \<Longrightarrow> shas_ok shas \<Longrightarrow> c_sha1 c \<notin> set shas \<Longrightarrow>
     install_content st ident c bs (enc shas, s) =
       (True, enc (shas @ [c_sha1 c]), put (shared_path (Hex8 (of_nat (length shas)))) bs s)"
  by (simp add: install_content_def find_enc_None add_enc write_law)

lemma install_own:
  "\<not> Shared c \<Longrightarrow> install_content st ident c bs (m, s) = (True, m, put (ContentFilePath ident (c_id c)) bs s)"
  by (simp add: install_content_def write_law)

lemma look_kept: "look s q \<noteq> None \<Longrightarrow> look (put p bs s) q \<noteq> None"
  by (cases "p = q") (simp_all add: look_put look_other)

lemma stored_put: "stored look s shas \<Longrightarrow> stored look (put p bs s) shas"
  using look_kept by (auto simp: stored_def list_all_iff)

lemma stored_snoc:
  "stored look s shas \<Longrightarrow> stored look (put (shared_path (Hex8 (of_nat (length shas)))) bs s) (shas @ [sha])"
  using stored_put [of s shas] by (simp add: stored_def look_put)

text \<open>One content.\<close>

lemma install_one:
  assumes "shas_ok shas" "length shas + 1 < 2 ^ 32" "stored look s shas" "length (c_sha1 c) = 20"
  shows "\<exists>new s'. install_content st ident c bs (enc shas, s) = (True, enc (shas @ new), s') \<and>
     length new \<le> 1 \<and> shas_ok (shas @ new) \<and> stored look s' (shas @ new) \<and>
     (if Shared c then c_sha1 c \<in> set (shas @ new) else look s' (ContentFilePath ident (c_id c)) = Some bs) \<and>
     (\<forall>p. p \<notin> own ident [c] \<longrightarrow> p \<notin> fresh shas \<longrightarrow> look s' p = look s p)"
proof (cases "Shared c")
  case False
  show ?thesis
    using assms False look_put [of "ContentFilePath ident (c_id c)" bs s] look_other stored_put
    by (intro exI [of _ "[]"] exI [of _ "put (ContentFilePath ident (c_id c)) bs s"]) (simp add: install_own own_Cons)
next
  case True
  show ?thesis
  proof (cases "c_sha1 c \<in> set shas")
    case known: True
    then show ?thesis using assms True by (intro exI [of _ "[]"] exI [of _ s]) (simp add: install_shared_known)
  next
    case False
    have "shared_path (Hex8 (of_nat (length shas))) \<in> fresh shas" using assms(2) by (auto simp: fresh_def)
    then have "p \<notin> fresh shas \<Longrightarrow> look (put (shared_path (Hex8 (of_nat (length shas)))) bs s) p = look s p" for p
      using look_other by metis
    then show ?thesis using assms True False stored_snoc
      by (intro exI [of _ "[c_sha1 c]"] exI [of _ "put (shared_path (Hex8 (of_nat (length shas)))) bs s"])
        (auto simp: install_shared_new shas_ok_snoc)
  qed
qed

end

text \<open>Every content is there: a shared one has its hash in the map, one of the title's own its bytes.\<close>

definition contents_in ::
  "('s \<Rightarrow> bytes \<Rightarrow> bytes option) \<Rightarrow> (ContentRecord \<Rightarrow> bytes option) \<Rightarrow> u64 \<Rightarrow> ContentRecord list \<Rightarrow> bytes list \<Rightarrow> 's \<Rightarrow> bool" where
  "contents_in look text_of ident cs shas s = list_all (\<lambda>c. if Shared c then c_sha1 c \<in> set shas
     else list_ex (\<lambda>c'. \<not> Shared c' \<and> c_id c' = c_id c \<and> look s (ContentFilePath ident (c_id c)) = text_of c') cs) cs"

lemma contents_in_Cons:
  assumes rest: "contents_in look f ident cs (shas @ new) s'"
    and head: "if Shared c then c_sha1 c \<in> set shas else look s (ContentFilePath ident (c_id c)) = f c"
    and frame: "\<And>p. p \<notin> own ident cs \<Longrightarrow> p \<notin> fresh shas \<Longrightarrow> look s' p = look s p"
  shows "contents_in look f ident (c # cs) (shas @ new) s'"
proof -
  have tail: "list_all (\<lambda>d. if Shared d then d \<in> set (c # cs) \<longrightarrow> c_sha1 d \<in> set (shas @ new)
      else list_ex (\<lambda>c'. \<not> Shared c' \<and> c_id c' = c_id d \<and> look s' (ContentFilePath ident (c_id d)) = f c') (c # cs)) cs"
    using rest by (auto simp: contents_in_def list_all_iff list_ex_iff split: if_splits)
  show ?thesis
  proof (cases "Shared c")
    case True
    then show ?thesis using tail head by (auto simp: contents_in_def list_all_iff)
  next
    case False
    have "list_ex (\<lambda>c'. \<not> Shared c' \<and> c_id c' = c_id c \<and> look s' (ContentFilePath ident (c_id c)) = f c') (c # cs)"
    proof (cases "ContentFilePath ident (c_id c) \<in> own ident cs")
      case True
      then obtain d where "d \<in> set cs" "\<not> Shared d" "c_id d = c_id c" by (auto simp: own_def)
      then show ?thesis using rest by (force simp: contents_in_def list_all_iff list_ex_iff)
    next
      case other: False
      then show ?thesis using frame head False by simp
    qed
    then show ?thesis using tail False by (auto simp: contents_in_def list_all_iff)
  qed
qed

context nand begin

lemma install_all:
  assumes "shas_ok shas" "length shas + length cs < 2 ^ 32" "stored look s shas" "list_all (\<lambda>c. length (c_sha1 c) = 20) cs"
    and "\<forall>c \<in> set cs. \<exists>bs. plain whole wad decrypt title_key c = Some bs"
  defines "ident \<equiv> t_title_id (w_tmd wad)"
  shows "\<exists>new s'. install_contents st whole wad decrypt title_key cs (enc shas, s) = Some (True, enc (shas @ new), s') \<and>
     shas_ok (shas @ new) \<and> stored look s' (shas @ new) \<and>
     contents_in look (plain whole wad decrypt title_key) ident cs (shas @ new) s' \<and>
     (\<forall>p. p \<notin> own ident cs \<longrightarrow> p \<notin> fresh shas \<longrightarrow> look s' p = look s p)"
  using assms(1-5)
proof (induction cs arbitrary: shas s)
  case Nil
  then show ?case by (intro exI [of _ "[]"] exI [of _ s]) (simp add: contents_in_def)
next
  case (Cons c cs)
  obtain extent bs where bs: "Wad_Content wad (c_index c) = Some extent" "content_bytes whole extent decrypt title_key c = Some bs"
    using Cons.prems(5) by (auto simp: plain_def split: Option.bind_splits)
  then have plain: "plain whole wad decrypt title_key c = Some bs" by (simp add: plain_def)
  obtain new1 s1 where one: "install_content st ident c bs (enc shas, s) = (True, enc (shas @ new1), s1)"
      "length new1 \<le> 1" "shas_ok (shas @ new1)" "stored look s1 (shas @ new1)"
      "if Shared c then c_sha1 c \<in> set (shas @ new1) else look s1 (ContentFilePath ident (c_id c)) = Some bs"
      "\<And>p. p \<notin> own ident [c] \<Longrightarrow> p \<notin> fresh shas \<Longrightarrow> look s1 p = look s p"
    using install_one [of shas s c ident bs] Cons.prems by auto
  have "length (shas @ new1) + length cs < 2 ^ 32" using one(2) Cons.prems(2) by simp
  from Cons.IH [OF one(3) this one(4)] Cons.prems(4,5) obtain new2 s2 where rest:
      "install_contents st whole wad decrypt title_key cs (enc (shas @ new1), s1) = Some (True, enc ((shas @ new1) @ new2), s2)"
      "shas_ok ((shas @ new1) @ new2)" "stored look s2 ((shas @ new1) @ new2)"
      "contents_in look (plain whole wad decrypt title_key) ident cs ((shas @ new1) @ new2) s2"
      "\<And>p. p \<notin> own ident cs \<Longrightarrow> p \<notin> fresh (shas @ new1) \<Longrightarrow> look s2 p = look s1 p"
    by auto
  have "contents_in look (plain whole wad decrypt title_key) ident (c # cs) ((shas @ new1) @ new2) s2"
    by (rule contents_in_Cons [OF rest(4) one(5) [folded plain] rest(5)])
  moreover have "look s2 p = look s p" if "p \<notin> own ident (c # cs)" "p \<notin> fresh shas" for p
    using that one(6) [of p] rest(5) [of p] fresh_append [of shas new1] by (auto simp: own_Cons)
  ultimately show ?case
    using rest(1-3) one(1) bs by (intro exI [of _ "new1 @ new2"] exI [of _ s2]) (simp flip: ident_def)
qed

end

section \<open>Every content of a file can be read from it\<close>

lemma Wad_Content_listed:
  assumes "length (w_contents w) = length (t_contents (w_tmd w))" "j < length (w_contents w)"
  shows "\<exists>i \<le> j. Wad_Content w (c_index (t_contents (w_tmd w) ! j)) = Some (w_contents w ! i)"
proof -
  let ?cs = "t_contents (w_tmd w)" and ?P = "\<lambda>i. c_index (t_contents (w_tmd w) ! i) = c_index (t_contents (w_tmd w) ! j) \<and> i < length (w_contents w)"
  have "List.find ?P [0..<length ?cs] \<noteq> None" using assms by (auto simp: find_None_iff)
  then obtain i where i: "List.find ?P [0..<length ?cs] = Some i" by blast
  then have "\<forall>m < i. \<not> ?P m" by (auto simp: find_Some_iff)
  then have "i \<le> j" using assms(2) by (metis linorder_not_le)
  with i show ?thesis by (auto simp: Wad_Content_def Let_def)
qed

lemma Wad_plain:
  assumes "Wad_Parse whole = Some (Some w)" "length whole < 2 ^ 63" "\<forall>c \<in> set (t_contents (w_tmd w)). unat (EncryptedSize c) < 2 ^ 62"
    and c: "c \<in> set (t_contents (w_tmd w))"
  shows "\<exists>bs. plain whole w decrypt title_key c = Some bs"
proof -
  let ?cs = "t_contents (w_tmd w)" and ?ss = "w_contents w"
  have all: "list_all2 (in_file whole) ?ss ?cs"
    and order: "sorted_wrt (\<lambda>s s'. unat (w_offset s) + unat (w_size s) \<le> unat (w_offset s')) ?ss"
    using Wad_Parse_extents [OF assms(1-3)] by blast+
  have len: "length ?ss = length ?cs" using all by (rule list_all2_lengthD)
  obtain j where j: "j < length ?cs" "?cs ! j = c" using c by (auto simp: in_set_conv_nth)
  obtain i where i: "i \<le> j" "Wad_Content w (c_index c) = Some (?ss ! i)"
    using Wad_Content_listed [OF len, of j] j len by auto
  have fits: "in_file whole (?ss ! j) c" using list_all2_nthD2 [OF all j(1)] j(2) by simp
  have "unat (w_offset (?ss ! i)) \<le> unat (w_offset (?ss ! j))"
  proof (cases "i = j")
    case False
    then show ?thesis using sorted_wrt_nth_less [OF order, of i j] i(1) j(1) len by simp
  qed simp
  then have "unat (w_offset (?ss ! i)) + unat (EncryptedSize c) \<le> length whole"
    using fits unfolding in_file_def by (metis add_le_mono1 le_trans)
  then show ?thesis using i(2) by (simp add: plain_def content_bytes_def getn_def)
qed

section \<open>Installing\<close>

text \<open>What a memory is that has this title, with these hashes in its map.\<close>

definition has_title ::
  "('s \<Rightarrow> bytes \<Rightarrow> bytes option) \<Rightarrow> (ContentRecord \<Rightarrow> bytes option) \<Rightarrow> Wad \<Rightarrow> bytes list \<Rightarrow> 's \<Rightarrow> bool" where
  "has_title look text_of w shas s \<longleftrightarrow>
     look s (TmdPath (t_title_id (w_tmd w))) = Some (t_raw (w_tmd w)) \<and>
     look s (TicketPath (t_title_id (w_tmd w))) = Some (k_raw (w_ticket w)) \<and>
     contents_in look text_of (t_title_id (w_tmd w)) (t_contents (w_tmd w)) shas s"

text \<open>What installing a title may change.\<close>

definition title_files :: "Wad \<Rightarrow> bytes set" where
  "title_files w = {TmdPath (t_title_id (w_tmd w)), TicketPath (t_title_id (w_tmd w))} \<union>
     own (t_title_id (w_tmd w)) (t_contents (w_tmd w))"

lemma stored_frame:
  assumes "stored look s shas" "shas_ok shas" "\<And>i. i < length shas \<Longrightarrow> look s' (shared_path (Hex8 (of_nat i))) = look s (shared_path (Hex8 (of_nat i)))"
  shows "stored look s' shas"
  using assms by (auto simp: stored_def list_all_iff)

lemma contents_in_frame:
  assumes "contents_in look f ident cs shas s" "\<And>p. p \<in> own ident cs \<Longrightarrow> look s' p = look s p"
  shows "contents_in look f ident cs shas s'"
  using assms by (force simp: contents_in_def list_all_iff list_ex_iff own_def)

context nand begin

lemma look_put_if: "look (put p bs s) q = (if p = q then Some bs else look s q)"
  by (simp add: look_put look_other)

lemma map_is_put:
  assumes "map_is look s shas" "p \<noteq> map_path" "\<And>i. i < length shas \<Longrightarrow> p \<noteq> shared_path (Hex8 (of_nat i))"
  shows "map_is look (put p bs s) shas"
  using assms stored_frame [of look s shas "put p bs s"] by (auto simp: map_is_def look_put_if)

lemma install_wad_effect:
  fixes common :: bytes
  assumes sound: "map_is look s shas" "length shas + length (t_contents (w_tmd w)) < 2 ^ 32"
    and hashes: "list_all (\<lambda>c. length (c_sha1 c) = 20) (t_contents (w_tmd w))"
    and texts: "\<And>key. \<forall>c \<in> set (t_contents (w_tmd w)). \<exists>bs. plain whole w decrypt key c = Some bs"
  defines "key \<equiv> decrypt common (TitleKeyIv (k_title_id (w_ticket w))) (k_title_key (w_ticket w))"
  shows "\<exists>new s'. install_wad st whole w decrypt common s = Some (Installed, s') \<and> map_is look s' (shas @ new) \<and>
     has_title look (plain whole w decrypt key) w (shas @ new) s' \<and>
     (\<forall>p. p \<notin> title_files w \<longrightarrow> p \<notin> fresh shas \<longrightarrow> p \<noteq> map_path \<longrightarrow> look s' p = look s p)"
proof -
  let ?ident = "t_title_id (w_tmd w)" and ?cs = "t_contents (w_tmd w)"
  let ?s1 = "put (TmdPath ?ident) (t_raw (w_tmd w)) (put (TicketPath ?ident) (k_raw (w_ticket w)) s)"
  have s1: "map_is look ?s1 shas" using sound(1) by (intro map_is_put) simp_all
  then have ok: "shas_ok shas" "stored look ?s1 shas" by (simp_all add: map_is_def)
  obtain new s2 where all: "install_contents st whole w decrypt key ?cs (enc shas, ?s1) = Some (True, enc (shas @ new), s2)"
      "shas_ok (shas @ new)" "stored look s2 (shas @ new)" "contents_in look (plain whole w decrypt key) ?ident ?cs (shas @ new) s2"
      "\<And>p. p \<notin> own ?ident ?cs \<Longrightarrow> p \<notin> fresh shas \<Longrightarrow> look s2 p = look ?s1 p"
    using install_all [OF ok(1) sound(2) ok(2) hashes texts] by blast
  define s' where "s' = (if shas @ new = [] then s2 else put map_path (enc (shas @ new)) s2)"
  have run: "install_wad st whole w decrypt common s = Some (Installed, s')"
    using all(1) load_map [OF s1] by (simp add: install_wad_def write_law Let_def enc_Nil_iff s'_def flip: key_def)
  have s2: "look s' p = look s2 p" if "p \<noteq> map_path" for p using that by (simp add: s'_def look_put_if)
  then have keep: "look s' p = look s2 p" if "p \<in> own ?ident ?cs" for p using that other_paths(2) by metis
  have "look s2 map_path = look s map_path" using all(5) [of map_path] by (simp add: look_put_if)
  then have "map_is look s' (shas @ new)"
    using all(2) stored_frame [OF all(3,2), of s'] s2 sound(1) Normalize_enc [OF all(2)]
    by (auto simp: map_is_def s'_def look_put_if)
  moreover have "has_title look (plain whole w decrypt key) w (shas @ new) s'"
    using all(5) [of "TmdPath ?ident"] all(5) [of "TicketPath ?ident"] s2 contents_in_frame [OF all(4) keep]
    by (simp add: has_title_def look_put_if)
  moreover have "look s' p = look s p" if "p \<notin> title_files w" "p \<notin> fresh shas" "p \<noteq> map_path" for p
    using that all(5) [of p] s2 [of p] by (auto simp: title_files_def look_put_if)
  ultimately show ?thesis using run by blast
qed

lemma InstallTitle_effect:
  fixes common :: bytes
  assumes parse: "Wad_Parse whole = Some (Some w)" "length whole < 2 ^ 63"
      "\<forall>c \<in> set (t_contents (w_tmd w)). unat (EncryptedSize c) < 2 ^ 62"
    and cipher: "cbc_decrypt ciph = Some decrypt" "common_key ciph = Some keys" "keys (k_common_key_index (w_ticket w)) = Some common"
    and sound: "map_is look s shas" "length shas + length (t_contents (w_tmd w)) < 2 ^ 32"
  defines "key \<equiv> decrypt common (TitleKeyIv (k_title_id (w_ticket w))) (k_title_key (w_ticket w))"
  shows "\<exists>new s'. InstallTitle st whole ciph s = Some (Installed, s') \<and> map_is look s' (shas @ new) \<and>
     has_title look (plain whole w decrypt key) w (shas @ new) s' \<and>
     (\<forall>p. p \<notin> title_files w \<longrightarrow> p \<notin> fresh shas \<longrightarrow> p \<noteq> map_path \<longrightarrow> look s' p = look s p)"
proof -
  have "list_all (\<lambda>c. length (c_sha1 c) = 20) (t_contents (w_tmd w))"
    using Wad_Parse_blobs(2) [OF parse(1)] Tmd_Parse_hashes by blast
  from install_wad_effect [OF sound this, of whole decrypt common, folded key_def] show ?thesis
    using Wad_plain [OF parse] parse(1) cipher by (simp add: InstallTitle_def)
qed

section \<open>What is found\<close>

text \<open>The title is there, and so is every content that it needs.\<close>

lemma found_title:
  assumes "look s (TmdPath ident) = Some raw" "Tmd_Parse (Some raw) = Some (Some tmd)" "map_is look s shas"
  shows "TitleInstalled st s ident = Some True" "ResolveContents st s ident = Some (map (locate st s ident (enc shas)) (t_contents tmd))"
  using assms load_map [OF assms(3)] by (simp_all add: TitleInstalled_def ResolveContents_def read_law)

lemma locate_present:
  assumes "map_is look s shas" "if Shared c then c_sha1 c \<in> set shas else look s (ContentFilePath ident (c_id c)) \<noteq> None"
  shows "l_present (locate st s ident (enc shas) c)"
proof (cases "Shared c")
  case True
  have ok: "shas_ok shas" "stored look s shas" using assms(1) by (simp_all add: map_is_def)
  obtain i where i: "i < length shas" "map_find (enc shas) (c_sha1 c) = Some (Hex8 (of_nat i))"
    using find_enc_Some [OF ok(1)] True assms(2) by auto
  have "shared_path (Hex8 (of_nat i)) \<noteq> []" using length_shared(1) [of "of_nat i"] by (metis list.size(3) zero_neq_numeral)
  then show ?thesis using i True stored_nth [OF ok(2) i(1)] by (auto simp: locate_def Let_def read_law)
next
  case False
  have "ContentFilePath ident (c_id c) \<noteq> []" using path_lengths(6) [of ident "c_id c"] by (metis list.size(3) zero_neq_numeral)
  then show ?thesis using False assms(2) by (auto simp: locate_def Let_def read_law)
qed

lemma locate_kept:
  assumes maps: "map_is look s shas" "map_is look s' (shas @ new)"
    and frame: "\<forall>p. p \<notin> title_files w \<longrightarrow> p \<notin> fresh shas \<longrightarrow> p \<noteq> map_path \<longrightarrow> look s' p = look s p"
    and other: "ident \<noteq> t_title_id (w_tmd w)" and present: "l_present (locate st s ident (enc shas) c)"
  defines "here \<equiv> locate st s ident (enc shas) c"
  shows "locate st s' ident (enc (shas @ new)) c = here \<and> look s' (l_path here) = look s (l_path here)"
proof (cases "Shared c")
  case False
  have "look s' (ContentFilePath ident (c_id c)) = look s (ContentFilePath ident (c_id c))"
    using frame other by (simp add: title_files_def)
  then show ?thesis using False by (simp add: here_def locate_def Let_def read_law)
next
  case True
  have ok: "shas_ok shas" "shas_ok (shas @ new)" using maps by (simp_all add: map_is_def)
  have "c_sha1 c \<in> set shas"
  proof (rule ccontr)
    assume "c_sha1 c \<notin> set shas"
    from find_enc_None [OF ok(1) this] show False using present True by (simp add: locate_def Let_def)
  qed
  then obtain i where i: "i < length shas" "map_find (enc shas) (c_sha1 c) = Some (Hex8 (of_nat i))"
    using find_enc_Some [OF ok(1)] by blast
  have "look s' (shared_path (Hex8 (of_nat i))) = look s (shared_path (Hex8 (of_nat i)))"
    using frame shared_not_fresh [OF i(1) ok(1)] by (simp add: title_files_def)
  then show ?thesis using True i(2) find_enc_more [OF ok(2) i(2)] by (simp add: here_def locate_def Let_def read_law)
qed

end

text \<open>A title that can be started.\<close>

definition complete :: "'s store \<Rightarrow> 's \<Rightarrow> u64 \<Rightarrow> bool" where
  "complete st s ident \<longleftrightarrow> TitleInstalled st s ident = Some True \<and>
     (case ResolveContents st s ident of None \<Rightarrow> False | Some ls \<Rightarrow> list_all l_present ls)"

context nand begin

lemma installed_tmd:
  "TitleInstalled st s ident = Some True \<Longrightarrow>
     \<exists>raw tmd. look s (TmdPath ident) = Some raw \<and> Tmd_Parse (Some raw) = Some (Some tmd)"
  by (cases "look s (TmdPath ident)") (auto simp: TitleInstalled_def read_law)

lemma has_title_complete:
  assumes "has_title look f w shas s" "map_is look s shas" "Wad_Parse whole = Some (Some w)"
    and "\<forall>c \<in> set (t_contents (w_tmd w)). f c \<noteq> None"
  shows "complete st s (t_title_id (w_tmd w))"
proof -
  obtain blob where "Tmd_Parse (Some blob) = Some (Some (w_tmd w))" using Wad_Parse_blobs(2) [OF assms(3)] by blast
  then have parse: "Tmd_Parse (Some (t_raw (w_tmd w))) = Some (Some (w_tmd w))"
    using Tmd_Parse_raw [of blob "w_tmd w" "[]"] by simp
  have tmd: "look s (TmdPath (t_title_id (w_tmd w))) = Some (t_raw (w_tmd w))" using assms(1) by (simp add: has_title_def)
  have "l_present (locate st s (t_title_id (w_tmd w)) (enc shas) c)" if c: "c \<in> set (t_contents (w_tmd w))" for c
  proof (rule locate_present [OF assms(2)])
    show "if Shared c then c_sha1 c \<in> set shas else look s (ContentFilePath (t_title_id (w_tmd w)) (c_id c)) \<noteq> None"
      using assms(1,4) c by (force simp: has_title_def contents_in_def list_all_iff list_ex_iff)
  qed
  then show ?thesis using found_title [OF tmd parse assms(2)] by (simp add: complete_def list_all_iff)
qed

lemma complete_kept:
  assumes maps: "map_is look s shas" "map_is look s' (shas @ new)"
    and frame: "\<forall>p. p \<notin> title_files w \<longrightarrow> p \<notin> fresh shas \<longrightarrow> p \<noteq> map_path \<longrightarrow> look s' p = look s p"
    and other: "ident \<noteq> t_title_id (w_tmd w)" and before: "complete st s ident"
  shows "complete st s' ident \<and> ResolveContents st s' ident = ResolveContents st s ident \<and>
     (\<exists>ls. ResolveContents st s ident = Some ls \<and> map (look s' \<circ> l_path) ls = map (look s \<circ> l_path) ls)"
proof -
  obtain raw tmd where tmd: "look s (TmdPath ident) = Some raw" "Tmd_Parse (Some raw) = Some (Some tmd)"
    using before installed_tmd [of s ident] by (auto simp: complete_def)
  then have tmd': "look s' (TmdPath ident) = Some raw" using frame other by (simp add: title_files_def)
  have present: "\<forall>c \<in> set (t_contents tmd). l_present (locate st s ident (enc shas) c)"
    using before found_title [OF tmd maps(1)] by (simp add: complete_def list_all_iff)
  from locate_kept [OF maps frame other] present have same:
    "map (locate st s' ident (enc (shas @ new))) (t_contents tmd) = map (locate st s ident (enc shas)) (t_contents tmd)"
    "\<forall>c \<in> set (t_contents tmd). look s' (l_path (locate st s ident (enc shas) c)) = look s (l_path (locate st s ident (enc shas) c))"
    by simp_all
  then have "ResolveContents st s' ident = ResolveContents st s ident"
    using found_title(2) [OF tmd maps(1)] found_title(2) [OF tmd' tmd(2) maps(2)] by (simp only:)
  then show ?thesis
    using before found_title [OF tmd maps(1)] found_title(1) [OF tmd' tmd(2) maps(2)] same(2) by (simp add: complete_def)
qed

end

section \<open>Removing\<close>

locale erasing = nand look put st
  for look :: "'s \<Rightarrow> bytes \<Rightarrow> bytes option" and put :: "bytes \<Rightarrow> bytes \<Rightarrow> 's \<Rightarrow> 's" and st :: "'s store" +
  fixes rm :: "'s \<Rightarrow> bytes \<Rightarrow> bool \<times> 's" and ls :: "'s \<Rightarrow> bytes \<Rightarrow> bool \<times> bytes list"
  assumes remove_fun: "s_remove st = Some rm" and list_fun: "s_list st = Some ls"
    and look_removed: "look (snd (rm s p)) q = (if p = q then None else look s q)"
begin

lemma look_removed_all:
  "look (fold (\<lambda>c s. if \<not> Shared c then snd (rm s (ContentFilePath ident (c_id c))) else s) cs s) p =
     (if p \<in> own ident cs then None else look s p)"
  by (induction cs arbitrary: s) (auto simp: own_Cons look_removed)

lemma RemoveTitle_effect:
  assumes "look s (TmdPath ident) = Some raw" "Tmd_Parse (Some raw) = Some (Some tmd)"
  shows "\<exists>s'. RemoveTitle st ident s = Some (True, s') \<and>
     (\<forall>p. look s' p = (if p \<in> {TmdPath ident, TicketPath ident} \<union> own ident (t_contents tmd) then None else look s p))"
  using assms by (auto simp: RemoveTitle_def remove_fun list_fun read_law Let_def look_removed look_removed_all)

end

end
