(* ===== verification/Nand_Memory.thy ===== *)
theory Nand_Memory
  imports Nand_Install "HOL-Library.AList" "HOL-Library.List_Lexorder"
begin

text \<open>
  The titles a console's memory lists (InstalledTitles of src/format/nand/store.cpp), and the memory of
  src/tests/nand_store_check.cpp, a map of paths to bytes, for which installing, finding, listing and removing
  are proved to do what they say.
\<close>

section \<open>Listing\<close>

lemma digit_of_hex: "n < 16 \<Longrightarrow> digit_of (hex_digit (word_of_nat n)) = n"
  using unat_hex_digit [of n] by (simp add: digit_of_def word_le_nat_alt split: if_splits)

definition nibble :: "u32 \<Rightarrow> nat \<Rightarrow> nat" where
  "nibble v i = unat v div 2 ^ (28 - 4 * i) mod 16"

lemma Hex8_nibbles: "Hex8 v = map (\<lambda>i. hex_digit (word_of_nat (nibble v i))) [0..<8]"
proof -
  have "drop_bit k v AND 0xF = word_of_nat (unat v div 2 ^ k mod 16)" for k
  proof -
    have "unat (drop_bit k v AND 0xF) = unat v div 2 ^ k mod 16" by (simp only: unat_and_F unat_drop_bit)
    moreover have "word_of_nat (unat (drop_bit k v AND 0xF)) = drop_bit k v AND 0xF" by simp
    ultimately show ?thesis by (simp only:)
  qed
  then show ?thesis by (simp add: Hex8_def nibble_def)
qed

lemma nibble_less [simp]: "nibble v i < 16"
  by (simp add: nibble_def)

lemma nibble_step: "n div 2 ^ k = n div 2 ^ (k + 4) * 16 + n div 2 ^ k mod (16 :: nat)"
proof -
  have "n div 2 ^ (k + 4) = n div 2 ^ k div 16" by (simp add: power_add div_mult2_eq)
  then show ?thesis by (simp only: div_mult_mod_eq)
qed

lemma fold_nibbles: "m \<le> 8 \<Longrightarrow> foldl (\<lambda>n i. n * 16 + nibble v i) 0 [0..<m] = unat v div 2 ^ (32 - 4 * m)"
proof (induction m)
  case 0
  then show ?case using unat_u32 [of v] by simp
next
  case (Suc m)
  have "28 - 4 * m + 4 = 32 - 4 * m" "32 - 4 * Suc m = 28 - 4 * m" using Suc.prems by simp_all
  then show ?case using Suc nibble_step [of "unat v" "28 - 4 * m"] by (simp only: nibble_def) simp
qed

lemma hex_value: "foldl (\<lambda>n b. n * 16 + digit_of b) 0 (Hex8 v) = unat v"
proof -
  have "foldl (\<lambda>n b. n * 16 + digit_of b) 0 (Hex8 v) = foldl (\<lambda>n i. n * 16 + nibble v i) 0 [0..<8]"
    by (simp add: Hex8_nibbles foldl_map digit_of_hex del: upt_Suc)
  also have "\<dots> = unat v div 2 ^ (32 - 4 * 8)" by (rule fold_nibbles) simp
  finally show ?thesis by simp
qed

lemma hex_digit_range: "b \<in> set (Hex8 v) \<Longrightarrow> xdigit b \<and> b \<noteq> 0x58 \<and> b \<noteq> 0x78"
proof -
  assume "b \<in> set (Hex8 v)"
  then obtain i where "b = hex_digit (word_of_nat (nibble v i))" by (auto simp: Hex8_nibbles)
  then obtain n where n: "n < 16" "b = hex_digit (word_of_nat n)" using nibble_less by blast
  then have "unat b \<noteq> 0x58" "unat b \<noteq> 0x78" using unat_hex_digit [of n] by simp_all
  then show ?thesis using n xdigit_hex by auto
qed

lemma xdigit_plain: "xdigit b \<Longrightarrow> b \<noteq> 0x20 \<and> \<not> (0x09 \<le> b \<and> b \<le> 0x0D) \<and> b \<noteq> 0x2D \<and> b \<noteq> 0x2B \<and> b \<noteq> 0x2F"
  by (auto simp: xdigit_def word_le_nat_alt)

lemma strtoull_Hex8: "strtoull (Hex8 v) = ucast v"
proof -
  obtain a b rest where ab: "Hex8 v = a # b # rest" by (simp add: Hex8_def upt_rec)
  have a: "xdigit a" and b: "b \<noteq> 0x58" "b \<noteq> 0x78" using hex_digit_range [of _ v] ab by auto
  have "\<not> (a = 0x20 \<or> 0x09 \<le> a \<and> a \<le> 0x0D)" using xdigit_plain [OF a] by blast
  then have "skip_space (Hex8 v) = Hex8 v" by (simp only: skip_space_def ab dropWhile.simps if_False)
  moreover have "takeWhile xdigit (Hex8 v) = Hex8 v" using hex_digit_range [of _ v] by (simp add: takeWhile_eq_all_conv)
  moreover from this have "hex_number (Hex8 v) = unat v" using b hex_value [of v] by (simp add: hex_number_def ab Let_def)
  moreover have "\<not> 2 ^ 64 \<le> unat v" using unat_u32 [of v] by simp
  moreover have "(of_nat (unat v) :: u64) = ucast v" by (simp add: unsigned_ucast_eq)
  ultimately show ?thesis using xdigit_plain [OF a] by (simp add: strtoull_def ab Let_def)
qed

lemma slash_free: "0x2F \<notin> set (Hex8 v)"
  using hex_digit_range xdigit_plain by blast

lemma those_member: "those (map f xs) = Some ys \<Longrightarrow> x \<in> set xs \<Longrightarrow> f x = Some y \<Longrightarrow> y \<in> set ys"
  by (induction xs arbitrary: ys) (auto split: option.splits)

lemma title_id_back: "push_bit 32 (strtoull (HighHex ident)) OR strtoull (LowHex ident) = ident"
  using be64_words [of ident] by (simp add: HighHex_def LowHex_def strtoull_Hex8 High_def Low_def be64_def)

lemma TmdPath_parts:
  "TmdPath ident = ascii ''/title'' @ [0x2F] @ HighHex ident @ [0x2F] @ LowHex ident @ ascii ''/content/title.tmd''"
  "TmdPath ident = (ascii ''/title/'' @ HighHex ident) @ [0x2F] @ LowHex ident @ [0x2F] @ ascii ''content/title.tmd''"
  by (simp_all add: TmdPath_def ContentPath_def TitlePath_def ascii_def)

lemma installed_title_total: "\<exists>r. installed_title st s ident = Some r"
  using Tmd_Parse_total by (auto simp: installed_title_def split: prod.split bool.split)

lemma titles_under_total: "\<exists>r. titles_under st s f high = Some r"
proof -
  have "\<exists>ys. those (map (\<lambda>low. installed_title st s (push_bit 32 (strtoull high) OR strtoull low)) lows) = Some ys" for lows
    by (rule those_total) (rule installed_title_total)
  then show ?thesis by (auto simp: titles_under_def split: prod.split bool.split)
qed

lemma all_titles_total: "\<exists>found. those (map (titles_under st s f) highs) = Some found"
  by (rule those_total) (rule titles_under_total)

lemma InstalledTitles_total: "\<exists>r. InstalledTitles st s = Some r"
proof (cases "s_list st")
  case (Some f)
  obtain there highs where f: "f s (ascii ''/title'') = (there, highs)" by fastforce
  obtain found where "those (map (titles_under st s (f s)) highs) = Some found"
    using all_titles_total [of st s "f s" highs] by blast
  then show ?thesis using Some f by (simp add: InstalledTitles_def split: bool.split)
qed (simp add: InstalledTitles_def)

locale listing = erasing look put st rm ls
  for look :: "'s \<Rightarrow> bytes \<Rightarrow> bytes option" and put :: "bytes \<Rightarrow> bytes \<Rightarrow> 's \<Rightarrow> 's" and st :: "'s store"
    and rm :: "'s \<Rightarrow> bytes \<Rightarrow> bool \<times> 's" and ls :: "'s \<Rightarrow> bytes \<Rightarrow> bool \<times> bytes list" +
  assumes list_law: "look s (dir @ [0x2F] @ name @ [0x2F] @ rest) \<noteq> None \<Longrightarrow> 0x2F \<notin> set name \<Longrightarrow>
      \<exists>names. ls s dir = (True, names) \<and> name \<in> set names"
begin

lemma listed:
  assumes raw: "look s (TmdPath ident) = Some raw" "Tmd_Parse (Some raw) = Some (Some tmd)"
  shows "\<exists>ts. InstalledTitles st s = Some ts \<and>
     \<lparr>it_id = ident, it_version = t_title_version tmd, it_contents = of_nat (length (t_contents tmd)), it_size = TotalSize tmd\<rparr> \<in> set ts"
proof -
  let ?t = "\<lparr>it_id = ident, it_version = t_title_version tmd, it_contents = of_nat (length (t_contents tmd)), it_size = TotalSize tmd\<rparr>"
  have here: "look s (TmdPath ident) \<noteq> None" using raw by simp
  obtain highs where highs: "ls s (ascii ''/title'') = (True, highs)" "HighHex ident \<in> set highs"
    using list_law [OF here [unfolded TmdPath_parts(1)]] slash_free by (auto simp: HighHex_def)
  obtain lows where lows: "ls s (ascii ''/title/'' @ HighHex ident) = (True, lows)" "LowHex ident \<in> set lows"
    using list_law [OF here [unfolded TmdPath_parts(2)]] slash_free by (auto simp: LowHex_def)
  have "installed_title st s ident = Some (Some ?t)" using raw by (simp add: installed_title_def read_law)
  moreover obtain under where under: "titles_under st s (ls s) (HighHex ident) = Some under"
    using titles_under_total [of st s "ls s" "HighHex ident"] by blast
  moreover from this lows(1) have
    "those (map (\<lambda>low. installed_title st s (push_bit 32 (strtoull (HighHex ident)) OR strtoull low)) lows) = Some under"
    by (simp add: titles_under_def)
  ultimately have "Some ?t \<in> set under" using those_member [OF _ lows(2)] title_id_back [of ident] by fastforce
  moreover obtain found where found: "those (map (titles_under st s (ls s)) highs) = Some found"
    using all_titles_total [of st s "ls s" highs] by blast
  then have "under \<in> set found" using those_member [of "titles_under st s (ls s)" highs found "HighHex ident" under] highs(2) under by blast
  ultimately have "Some ?t \<in> set (concat found)" by auto
  then have "?t \<in> set (map the (filter (\<lambda>t. t \<noteq> None) (concat found)))" by (force simp: image_iff)
  then show ?thesis using highs(1) found by (simp add: InstalledTitles_def list_fun)
qed

end

section \<open>A memory that is a map of paths to bytes\<close>

type_synonym files = "(bytes \<times> bytes) list"

definition Memory_Read :: "files \<Rightarrow> bytes \<Rightarrow> bool \<times> bytes" where
  "Memory_Read s path = (case map_of s path of None \<Rightarrow> (False, []) | Some bs \<Rightarrow> (True, bs))"

definition Memory_Write :: "files \<Rightarrow> bytes \<Rightarrow> bytes \<Rightarrow> bool \<times> files" where
  "Memory_Write s path data = (True, AList.update path data s)"

definition Memory_Remove :: "files \<Rightarrow> bytes \<Rightarrow> bool \<times> files" where
  "Memory_Remove s path = (map_of s path \<noteq> None, AList.delete path s)"

definition Memory_List :: "files \<Rightarrow> bytes \<Rightarrow> bool \<times> bytes list" where
  "Memory_List s path =
     (let prefix = path @ ascii ''/'';
          inside = filter (\<lambda>name. take (length prefix) name = prefix) (map fst s);
          names = sort (remdups (map (\<lambda>name. takeWhile (\<lambda>b. b \<noteq> 0x2F) (drop (length prefix) name)) inside)) in
      (names \<noteq> [], names))"

definition AsStore :: "files store" where
  "AsStore = \<lparr>s_read = Some Memory_Read, s_write = Some Memory_Write, s_remove = Some Memory_Remove, s_list = Some Memory_List\<rparr>"

lemma Memory_List_law:
  assumes "map_of s (dir @ [0x2F] @ name @ [0x2F] @ rest) \<noteq> None" "0x2F \<notin> set name"
  shows "\<exists>names. Memory_List s dir = (True, names) \<and> name \<in> set names"
proof -
  let ?path = "dir @ [0x2F] @ name @ [0x2F] @ rest" and ?prefix = "dir @ ascii ''/''"
  have slash: "ascii ''/'' = [0x2F]" by (simp add: ascii_def)
  let ?inside = "filter (\<lambda>name. take (length ?prefix) name = ?prefix) (map fst s)"
  have "?path \<in> fst ` set s" using assms(1) by (simp add: map_of_eq_None_iff)
  moreover have "take (length ?prefix) ?path = ?prefix" by (simp add: slash)
  ultimately have inside: "?path \<in> set ?inside" by (simp only: set_filter set_map mem_Collect_eq simp_thms)
  have "drop (length ?prefix) ?path = name @ [0x2F] @ rest" by (simp add: slash)
  moreover have "takeWhile (\<lambda>b. b \<noteq> 0x2F) (name @ [0x2F] @ rest) = name" using assms(2) by (subst takeWhile_append2) auto
  ultimately have "name = takeWhile (\<lambda>b. b \<noteq> 0x2F) (drop (length ?prefix) ?path)" by simp
  with inside have "name \<in> (\<lambda>p. takeWhile (\<lambda>b. b \<noteq> 0x2F) (drop (length ?prefix) p)) ` set ?inside" by (rule rev_image_eqI)
  then have found: "name \<in> set (sort (remdups (map (\<lambda>p. takeWhile (\<lambda>b. b \<noteq> 0x2F) (drop (length ?prefix) p)) ?inside)))"
    by (simp only: set_sort set_remdups set_map)
  then have "fst (Memory_List s dir)" by (simp only: Memory_List_def Let_def fst_conv) (metis empty_iff list.set(1))
  moreover have "name \<in> set (snd (Memory_List s dir))" using found by (simp only: Memory_List_def Let_def snd_conv)
  ultimately show ?thesis by (metis prod.collapse)
qed

interpretation memory: listing map_of AList.update AsStore Memory_Remove Memory_List
proof unfold_locales
  show "map_of (snd (Memory_Remove s p)) q = (if p = q then None else map_of s q)" for s p q
    by (simp add: Memory_Remove_def delete_conv')
qed (auto simp: update_conv' AsStore_def Read_def Write_def Memory_Read_def Memory_Write_def Memory_List_law)

section \<open>What is promised\<close>

lemma listed_installed:
  assumes "InstalledTitles st s = Some ts" "t \<in> set ts"
  shows "TitleInstalled st s (it_id t) = Some True"
proof -
  have inv: "those (map f xs) = Some ys \<Longrightarrow> y \<in> set ys \<Longrightarrow> \<exists>x. f x = Some y" for f :: "bytes \<Rightarrow> 'b option" and xs ys y
    by (induction xs arbitrary: ys) (auto split: option.splits)
  obtain f highs where f: "s_list st = Some f" "f s (ascii ''/title'') = (True, highs)"
    using assms by (auto simp: InstalledTitles_def split: option.splits prod.splits bool.splits)
  obtain found where found: "those (map (titles_under st s (f s)) highs) = Some found"
      "ts = map the (filter (\<lambda>t. t \<noteq> None) (concat found))"
    using assms(1) f by (auto simp: InstalledTitles_def)
  obtain under where under: "under \<in> set found" "Some t \<in> set under" using assms(2) found(2) by auto
  obtain high where "titles_under st s (f s) high = Some under" using inv [OF found(1) under(1)] by blast
  then obtain lows where
    "those (map (\<lambda>low. installed_title st s (push_bit 32 (strtoull high) OR strtoull low)) lows) = Some under"
    using under(2) by (auto simp: titles_under_def split: prod.splits bool.splits)
  from inv [OF this under(2)] obtain ident where "installed_title st s ident = Some (Some t)" by blast
  then show ?thesis by (auto simp: installed_title_def TitleInstalled_def split: prod.splits bool.splits)
qed

text \<open>C38: The list of titles of a memory names exactly the titles that are installed in it, whatever else it holds.\<close>

theorem InstalledTitles_exact:
  "\<exists>ts. InstalledTitles AsStore s = Some ts \<and> it_id ` set ts = {ident. TitleInstalled AsStore s ident = Some True}"
proof -
  obtain ts where ts: "InstalledTitles AsStore s = Some ts" using InstalledTitles_total [of AsStore s] by blast
  have "ident \<in> it_id ` set ts" if installed: "TitleInstalled AsStore s ident = Some True" for ident
  proof -
    obtain raw tmd where raw: "map_of s (TmdPath ident) = Some raw" "Tmd_Parse (Some raw) = Some (Some tmd)"
      using memory.installed_tmd [OF installed] by blast
    from memory.listed [OF raw] ts show ?thesis by force
  qed
  with ts listed_installed [OF ts] show ?thesis by (intro exI [of _ ts]) blast
qed

text \<open>C34: Installing a title that can be read, with the keys for it, succeeds on a memory whose map of shared contents is
  sound, and afterwards the title is complete: its ticket and TMD are the ones of the file, every content of its own
  holds the decrypted bytes, every content it shares has its hash in the map, and the map is sound, with the hashes it
  had before at its beginning.\<close>

theorem InstallTitle_installs:
  assumes "Wad_Parse whole = Some (Some w)" "length whole < 2 ^ 63"
      "\<forall>c \<in> set (t_contents (w_tmd w)). unat (EncryptedSize c) < 2 ^ 62"
    and "cbc_decrypt ciph = Some decrypt" "common_key ciph = Some keys" "keys (k_common_key_index (w_ticket w)) = Some common"
    and "map_is map_of s shas" "length shas + length (t_contents (w_tmd w)) < 2 ^ 32"
  shows "\<exists>new s'. InstallTitle AsStore whole ciph s = Some (Installed, s') \<and> complete AsStore s' (t_title_id (w_tmd w)) \<and>
     map_is map_of s' (shas @ new) \<and>
     has_title map_of (plain whole w decrypt (decrypt common (TitleKeyIv (k_title_id (w_ticket w))) (k_title_key (w_ticket w))))
       w (shas @ new) s'"
proof -
  define key where "key = decrypt common (TitleKeyIv (k_title_id (w_ticket w))) (k_title_key (w_ticket w))"
  obtain new s' where run: "InstallTitle AsStore whole ciph s = Some (Installed, s')" "map_is map_of s' (shas @ new)"
      "has_title map_of (plain whole w decrypt key) w (shas @ new) s'"
    using memory.InstallTitle_effect [OF assms] unfolding key_def by blast
  have "\<forall>c \<in> set (t_contents (w_tmd w)). plain whole w decrypt key c \<noteq> None"
    using Wad_plain [OF assms(1-3)] by fastforce
  from memory.has_title_complete [OF run(3,2) assms(1) this] run show ?thesis unfolding key_def by blast
qed

text \<open>C35: Installing a title leaves every other complete title as it was: it is still complete, its contents are found in
  the same places, and the bytes there are the same.\<close>

theorem InstallTitle_keeps:
  assumes "Wad_Parse whole = Some (Some w)" "length whole < 2 ^ 63"
      "\<forall>c \<in> set (t_contents (w_tmd w)). unat (EncryptedSize c) < 2 ^ 62"
    and "cbc_decrypt ciph = Some decrypt" "common_key ciph = Some keys" "keys (k_common_key_index (w_ticket w)) = Some common"
    and "map_is map_of s shas" "length shas + length (t_contents (w_tmd w)) < 2 ^ 32"
    and other: "ident \<noteq> t_title_id (w_tmd w)" "complete AsStore s ident"
  shows "\<exists>s' ls. InstallTitle AsStore whole ciph s = Some (Installed, s') \<and> complete AsStore s' ident \<and>
     ResolveContents AsStore s ident = Some ls \<and> ResolveContents AsStore s' ident = Some ls \<and>
     map (map_of s' \<circ> l_path) ls = map (map_of s \<circ> l_path) ls"
proof -
  obtain new s' where run: "InstallTitle AsStore whole ciph s = Some (Installed, s')" "map_is map_of s' (shas @ new)"
      "\<forall>p. p \<notin> title_files w \<longrightarrow> p \<notin> fresh shas \<longrightarrow> p \<noteq> map_path \<longrightarrow> map_of s' p = map_of s p"
    using memory.InstallTitle_effect [OF assms(1-8)] by blast
  from memory.complete_kept [OF assms(7) run(2,3) other] run(1) show ?thesis by auto
qed

lemma own_length: "p \<in> own ident cs \<Longrightarrow> length p = 45"
  by (auto simp: own_def)

lemma locate_short:
  "Shared c \<Longrightarrow> length (l_path (locate st s ident m c)) \<le> 21"
  by (auto simp: locate_def Let_def map_find_def shared_path_def kSharedPath_def split: option.split)

text \<open>C37: Removing an installed title removes its ticket, its TMD and its own contents and nothing else: the title is no longer
  installed, every other title is complete exactly where it was before, and what is shared stays.\<close>

theorem RemoveTitle_removes:
  assumes "map_of s (TmdPath ident) = Some raw" "Tmd_Parse (Some raw) = Some (Some tmd)"
  shows "\<exists>s'. RemoveTitle AsStore ident s = Some (True, s') \<and> TitleInstalled AsStore s' ident = Some False \<and>
     (\<forall>p. map_of s' p = (if p \<in> {TmdPath ident, TicketPath ident} \<union> own ident (t_contents tmd) then None else map_of s p)) \<and>
     list_all (\<lambda>other. other = ident \<or> complete AsStore s' other = complete AsStore s other) others"
proof -
  obtain s' where run: "RemoveTitle AsStore ident s = Some (True, s')"
      "\<And>p. map_of s' p = (if p \<in> {TmdPath ident, TicketPath ident} \<union> own ident (t_contents tmd) then None else map_of s p)"
    using memory.RemoveTitle_effect [OF assms] by blast
  have short: "map_of s' p = map_of s p" if "length p \<le> 21" for p
    using run(2) [of p] own_length [of p ident "t_contents tmd"] that by auto
  have "complete AsStore s' other = complete AsStore s other" if other: "other \<noteq> ident" for other
  proof -
    have tmd: "map_of s' (TmdPath other) = map_of s (TmdPath other)" using run(2) other by simp
    have own: "map_of s' (ContentFilePath other c) = map_of s (ContentFilePath other c)" for c using run(2) other by simp
    have map: "LoadSharedMap AsStore s' = LoadSharedMap AsStore s"
      using short [of map_path] by (simp add: LoadSharedMap_def memory.read_law)
    have "locate AsStore s' other m c = locate AsStore s other m c" for m c
    proof (cases "Shared c")
      case True
      then have "map_of s' (l_path (locate AsStore s other m c)) = map_of s (l_path (locate AsStore s other m c))"
        by (intro short locate_short)
      then show ?thesis using True by (simp add: locate_def Let_def memory.read_law)
    next
      case False
      then show ?thesis using own by (simp add: locate_def Let_def memory.read_law)
    qed
    then have loc: "locate AsStore s' other = locate AsStore s other" by blast
    have read: "Read AsStore s' (TmdPath other) = Read AsStore s (TmdPath other)" using tmd by (simp add: memory.read_law)
    show ?thesis unfolding complete_def TitleInstalled_def ResolveContents_def read map loc by (rule refl)
  qed
  moreover have "TitleInstalled AsStore s' ident = Some False"
    using run(2) [of "TmdPath ident"] by (simp add: TitleInstalled_def memory.read_law)
  ultimately show ?thesis using run by (auto simp: list_all_iff)
qed

section \<open>What is packed is what is installed\<close>

lemma Wad_Content_distinct:
  assumes "length (w_contents w) = length (t_contents (w_tmd w))" "j < length (w_contents w)"
    and "distinct (map c_index (t_contents (w_tmd w)))"
  shows "Wad_Content w (c_index (t_contents (w_tmd w) ! j)) = Some (w_contents w ! j)"
proof -
  let ?cs = "t_contents (w_tmd w)" and ?P = "\<lambda>i. c_index (t_contents (w_tmd w) ! i) = c_index (t_contents (w_tmd w) ! j) \<and> i < length (w_contents w)"
  have "\<And>i. i < length ?cs \<Longrightarrow> ?P i \<longleftrightarrow> i = j"
    using assms by (auto simp: distinct_conv_nth)
  then have "List.find ?P [0..<length ?cs] = Some j"
    using assms by (auto simp: find_Some_iff intro!: exI [of _ j])
  then show ?thesis by (simp add: Wad_Content_def Let_def)
qed

lemma plain_packed:
  assumes "list_all2 (\<lambda>s bs. section_bytes whole s = Some bs) (w_contents w) contents" "length whole < 2 ^ 63"
    and "list_all2 (\<lambda>c bs. EncryptedSize c = size_of bs) (t_contents (w_tmd w)) contents"
    and "distinct (map c_index (t_contents (w_tmd w)))" "j < length contents"
  defines "c \<equiv> t_contents (w_tmd w) ! j"
  shows "plain whole w decrypt key c = Some (resize (unat (c_size c)) (decrypt key (ContentIv (c_index c)) (contents ! j)))"
proof -
  have len: "length (w_contents w) = length contents" "length (t_contents (w_tmd w)) = length contents"
    using assms(1,3) by (auto dest: list_all2_lengthD)
  have bytes: "section_bytes whole (w_contents w ! j) = Some (contents ! j)" using assms(1,5) len by (simp add: list_all2_conv_all_nth)
  have n: "EncryptedSize c = size_of (contents ! j)" using assms(3,5) len by (simp add: list_all2_conv_all_nth c_def)
  have "unat (w_size (w_contents w ! j)) = length (contents ! j)"
    using bytes getn_length unfolding section_bytes_def by metis
  moreover from this bytes have "length (contents ! j) \<le> length whole"
    unfolding section_bytes_def getn_eq_Some_iff by linarith
  moreover from this have "unat (size_of (contents ! j)) = length (contents ! j)" using assms(2) by (intro unat_size_of) simp
  ultimately show ?thesis
    using Wad_Content_distinct [of w j] bytes n assms(4,5) len
    by (simp add: plain_def content_bytes_def section_bytes_def flip: c_def)
qed

lemma Wad_Build_length:
  assumes "built_size certificates ticket tmd contents footer < 2 ^ 32"
  shows "length (Wad_Build kind certificates ticket tmd contents footer) < 2 ^ 32"
  using assms wad_header_parts(1) [OF assms, of kind] by (cases kind) (simp_all add: Wad_Build_layout [OF assms] built_size_def)

text \<open>C36: A title that is packed into a file and installed from it is in the memory as it was before it was packed: with the
  decryption of what was encrypted giving it back, every content of its own is the content, cut to the size of its
  record.\<close>

theorem pack_and_install:
  assumes built: "built_size certificates ticket tmd contents footer < 2 ^ 32"
    and blobs: "Ticket_Parse (Some ticket) = Some (Some t)" "signs_tickets (k_issuer t)"
      "Tmd_Parse (Some tmd) = Some (Some m)" "\<not> signs_tickets (t_issuer m)"
    and recs: "list_all2 (\<lambda>c bs. EncryptedSize c = size_of bs) (t_contents m) contents"
      "distinct (map c_index (t_contents m))" "distinct (map c_id (filter (\<lambda>c. \<not> Shared c) (t_contents m)))"
    and ciph: "cbc_decrypt ciph = Some decrypt" "common_key ciph = Some keys" "keys (k_common_key_index t) = Some common"
    and sound: "map_is map_of s shas" "length shas + length (t_contents m) < 2 ^ 32"
    and key: "key = decrypt common (TitleKeyIv (k_title_id t)) (k_title_key t)"
    and gives: "list_all2 (\<lambda>c (bs, clear). decrypt key (ContentIv (c_index c)) bs = clear) (t_contents m) (zip contents clears)"
      "length clears = length contents"
  shows "\<exists>s'. InstallTitle AsStore (Wad_Build kind certificates ticket tmd contents footer) ciph s = Some (Installed, s') \<and>
     list_all2 (\<lambda>c clear. Shared c \<or> map_of s' (ContentFilePath (t_title_id m) (c_id c)) = Some (resize (unat (c_size c)) clear))
       (t_contents m) clears"
proof -
  define whole where "whole = Wad_Build kind certificates ticket tmd contents footer"
  have small: "length whole < 2 ^ 32" unfolding whole_def by (rule Wad_Build_length [OF built])
  obtain w where w: "Wad_Parse whole = Some (Some w)" "wad_parts kind certificates t m contents footer whole w"
    using Wad_Build_parses [OF built blobs recs(1), of kind] unfolding whole_def by blast
  have wt: "w_ticket w = t" "w_tmd w = m" and ss: "list_all2 (\<lambda>s bs. section_bytes whole s = Some bs) (w_contents w) contents"
    using w(2) by (simp_all add: wad_parts_def)
  have len: "length (t_contents m) = length contents" using recs(1) by (rule list_all2_lengthD)
  have text_of: "plain whole w decrypt key (t_contents m ! j) = Some (resize (unat (c_size (t_contents m ! j))) (clears ! j))"
    if "j < length contents" for j
    using plain_packed [OF ss _ _ _ that, of decrypt key] small recs wt gives that len by (simp add: list_all2_conv_all_nth)
  have sizes: "\<forall>c \<in> set (t_contents (w_tmd w)). unat (EncryptedSize c) < 2 ^ 62"
  proof -
    have "length bs \<le> built_size certificates ticket tmd contents footer" if bs: "bs \<in> set contents" for bs
    proof -
      obtain pre post where "contents = pre @ bs # post" using bs by (meson split_list)
      then show ?thesis using pad64_ge(1) [of "length bs"] by (simp add: built_size_def)
    qed
    then have "length bs < 2 ^ 32" if "bs \<in> set contents" for bs using that built by (meson le_less_trans)
    then have "unat (size_of bs) < 2 ^ 62" if "bs \<in> set contents" for bs using that unat_size_of [of bs] by fastforce
    then show ?thesis using recs(1) wt by (auto simp: list_all2_conv_all_nth in_set_conv_nth) (metis nth_mem)
  qed
  obtain new s' where run: "InstallTitle AsStore whole ciph s = Some (Installed, s')"
      "has_title map_of (plain whole w decrypt key) w (shas @ new) s'"
    using memory.InstallTitle_effect [OF w(1) _ sizes ciph(1,2) _ sound(1)] small ciph(3) sound(2) unfolding wt key by auto
  have "Shared c \<or> map_of s' (ContentFilePath (t_title_id m) (c_id c)) = plain whole w decrypt key c"
    if c: "c \<in> set (t_contents m)" for c
  proof (cases "Shared c")
    case own: False
    then obtain d where d: "d \<in> set (t_contents m)" "\<not> Shared d" "c_id d = c_id c"
        "map_of s' (ContentFilePath (t_title_id m) (c_id c)) = plain whole w decrypt key d"
      using run(2) c wt by (force simp: has_title_def contents_in_def list_all_iff list_ex_iff)
    then have "d = c" using recs(3) c own by (auto simp: distinct_map inj_on_def)
    then show ?thesis using d by simp
  qed simp
  then have "list_all2 (\<lambda>c clear. Shared c \<or> map_of s' (ContentFilePath (t_title_id m) (c_id c)) = Some (resize (unat (c_size c)) clear))
      (t_contents m) clears"
    using text_of len gives(2) by (auto simp: list_all2_conv_all_nth) (metis nth_mem)
  then show ?thesis using run(1) unfolding whole_def by blast
qed

section \<open>A small memory\<close>

text \<open>The cipher of src/tests/nand_store_check.cpp, which flips every byte.\<close>

definition flip :: "bytes \<Rightarrow> bytes \<Rightarrow> bytes \<Rightarrow> bytes" where
  "flip key iv bs = map NOT bs"

definition CommonKey :: "u8 \<Rightarrow> bytes option" where
  "CommonKey index = (if index \<le> 2 then Some (replicate 16 0) else None)"

definition Flip :: cipher where
  "Flip = \<lparr>cbc_decrypt = Some flip, common_key = Some CommonKey\<rparr>"

lemma Flip_parts: "cbc_decrypt Flip = Some flip" "common_key Flip = Some CommonKey" "CommonKey 0 = Some (replicate 16 0)"
  by (simp_all add: Flip_def CommonKey_def)

lemma small_own: "own ident [small_content] = {ContentFilePath ident 7}"
  by (simp add: own_Cons Shared_def small_content_def)

definition small_file :: bytes where
  "small_file = Wad_Build Installable [1, 2, 3] small_ticket small_tmd [replicate 16 5] []"

text \<open>A memory with another title, whose content is there.\<close>

definition other_title :: files where
  "other_title = [(TmdPath 1, small_tmd), (ContentFilePath 1 7, [1, 2, 3])]"

lemma small_file_parses:
  "\<exists>w. Wad_Parse small_file = Some (Some w) \<and> t_contents (w_tmd w) = [small_content] \<and> t_title_id (w_tmd w) = 0 \<and>
     k_common_key_index (w_ticket w) = 0 \<and> length small_file < 2 ^ 63 \<and>
     (\<forall>c \<in> set (t_contents (w_tmd w)). unat (EncryptedSize c) < 2 ^ 62)"
proof -
  obtain w where "Wad_Parse small_file = Some (Some w)" "t_contents (w_tmd w) = [small_content]" "t_title_id (w_tmd w) = 0"
      "k_common_key_index (w_ticket w) = 0"
    using small_wad [of Installable] unfolding small_file_def by blast
  moreover have "unat (EncryptedSize small_content) < 2 ^ 62" by (simp add: small_sizes size_of_def)
  ultimately show ?thesis using small_wad_length [of Installable] unfolding small_file_def by auto
qed

lemma no_shared [simp]: "map_is map_of [] []" "map_is map_of other_title []"
proof -
  have map: "map_of other_title map_path = None" by (simp add: other_title_def)
  show "map_is map_of [] []" "map_is map_of other_title []"
    by (simp_all only: map_is_def map) (simp_all add: shas_ok_def stored_def enc_def Normalize_def map_count_def Let_def)
qed

lemma other_title_complete: "complete AsStore other_title 1"
proof -
  obtain m where m: "Tmd_Parse (Some small_tmd) = Some (Some m)" "t_contents m = [small_content]" using small_tmd_parses by blast
  have "map_of other_title (TmdPath 1) = Some small_tmd" by (simp add: other_title_def)
  note found = memory.found_title [OF this m(1) no_shared(2)]
  have "l_present (locate AsStore other_title 1 (enc []) small_content)"
    by (rule memory.locate_present [OF no_shared(2)]) (simp_all add: other_title_def Shared_def small_content_def)
  then show ?thesis using found m(2) by (simp add: complete_def)
qed

lemma InstallTitle_installs_witness:
  "\<exists>s'. InstallTitle AsStore small_file Flip [] = Some (Installed, s') \<and> complete AsStore s' 0"
proof -
  obtain w where w: "Wad_Parse small_file = Some (Some w)" "t_contents (w_tmd w) = [small_content]" "t_title_id (w_tmd w) = 0"
      "k_common_key_index (w_ticket w) = 0" "length small_file < 2 ^ 63"
      "\<forall>c \<in> set (t_contents (w_tmd w)). unat (EncryptedSize c) < 2 ^ 62"
    using small_file_parses by blast
  from InstallTitle_installs [OF w(1,5,6) Flip_parts(1,2) _ no_shared(1)] w(2-4) Flip_parts(3) show ?thesis by auto
qed

lemma InstallTitle_keeps_witness:
  "\<exists>s'. InstallTitle AsStore small_file Flip other_title = Some (Installed, s') \<and> complete AsStore s' 1"
proof -
  obtain w where w: "Wad_Parse small_file = Some (Some w)" "t_contents (w_tmd w) = [small_content]" "t_title_id (w_tmd w) = 0"
      "k_common_key_index (w_ticket w) = 0" "length small_file < 2 ^ 63"
      "\<forall>c \<in> set (t_contents (w_tmd w)). unat (EncryptedSize c) < 2 ^ 62"
    using small_file_parses by blast
  from InstallTitle_keeps [OF w(1,5,6) Flip_parts(1,2) _ no_shared(2) _ _ other_title_complete] w(2-4) Flip_parts(3)
  show ?thesis by auto
qed

lemma RemoveTitle_removes_witness:
  "\<exists>s'. RemoveTitle AsStore 1 other_title = Some (True, s') \<and> TitleInstalled AsStore s' 1 = Some False \<and>
     map_of s' (ContentFilePath 1 7) = None"
proof -
  obtain m where m: "Tmd_Parse (Some small_tmd) = Some (Some m)" "t_contents m = [small_content]" using small_tmd_parses by blast
  have "map_of other_title (TmdPath 1) = Some small_tmd" by (simp add: other_title_def)
  from RemoveTitle_removes [OF this m(1), of "[]"] m(2) show ?thesis by (auto simp: small_own)
qed

lemma pack_and_install_witness:
  "\<exists>s'. InstallTitle AsStore small_file Flip [] = Some (Installed, s') \<and> map_of s' (ContentFilePath 0 7) = Some (replicate 16 0xFA)"
proof -
  obtain t where t: "Ticket_Parse (Some small_ticket) = Some (Some t)" "signs_tickets (k_issuer t)" "k_common_key_index t = 0"
    using small_ticket_parses signs_small by metis
  obtain m where m: "Tmd_Parse (Some small_tmd) = Some (Some m)" "\<not> signs_tickets (t_issuer m)" "t_contents m = [small_content]"
      "t_title_id m = 0"
    using small_tmd_parses signs_small by metis
  have "list_all2 (\<lambda>c bs. EncryptedSize c = size_of bs) (t_contents m) [replicate 16 (5 :: u8)]" using m(3) small_sizes by simp
  from pack_and_install [OF small_built t(1,2) m(1,2) this _ _ Flip_parts(1,2) _ no_shared(1) _ refl,
      where clears = "[replicate 16 0xFA]" and kind = Installable]
    t(3) m(3,4) Flip_parts(3)
  show ?thesis by (auto simp: flip_def small_file_def small_content_def Shared_def resize_def)
qed

end
