(* ===== verification/Media_Banner.thy ===== *)
theory Media_Banner
  imports Gx_Textures
begin

text \<open>
  Banners of titles (src/format/media/banner.cpp): the picture and the names of a disc's opening.bnr, and the names in the
  header of a channel's content. A string is its bytes; a read outside the data, which there is none of, is \<open>None\<close>.
\<close>

datatype BannerLanguage = Japanese | English | German | French | Spanish | Italian | Dutch

record BannerText =
  short_name :: bytes
  long_name :: bytes
  maker :: bytes
  long_maker :: bytes
  description :: bytes

record Banner =
  b_image :: bytes
  b_text :: "BannerText list"

definition kTextBlock :: nat where "kTextBlock = 0x140"
definition kImageAt :: nat where "kImageAt = 0x20"
definition kImageWidth :: nat where "kImageWidth = 96"
definition kImageHeight :: nat where "kImageHeight = 32"
definition kImageBytes :: nat where "kImageBytes = 96 * 32 * 2"
definition kTextAt :: nat where "kTextAt = kImageAt + kImageBytes"

definition latin1 :: "u8 \<Rightarrow> bytes" where
  "latin1 b = (if b < 0x80 then [b] else [0xC0 OR drop_bit 6 b, 0x80 OR (b AND 0x3F)])"

definition Field :: "bytes \<Rightarrow> nat \<Rightarrow> nat \<Rightarrow> bytes option" where
  "Field data at n = do { field \<leftarrow> getn data at n; Some (concat (map latin1 (takeWhile (\<lambda>b. b \<noteq> 0) field))) }"

definition utf8_unit :: "u16 \<Rightarrow> bytes" where
  "utf8_unit v =
     (if v < 0x80 then [ucast v]
      else if v < 0x800 then [0xC0 OR ucast (drop_bit 6 v), 0x80 OR ucast (v AND 0x3F)]
      else [0xE0 OR ucast (drop_bit 12 v), 0x80 OR ucast (drop_bit 6 v AND 0x3F), 0x80 OR ucast (v AND 0x3F)])"

primrec Utf16 :: "bytes \<Rightarrow> nat \<Rightarrow> nat \<Rightarrow> bytes option" where
  "Utf16 data at 0 = Some []"
| "Utf16 data at (Suc n) = do {
     v \<leftarrow> Be16 data at;
     if v = 0 then Some [] else do { rest \<leftarrow> Utf16 data (at + 2) n; Some (utf8_unit v @ rest) } }"

definition ReadTextBlock :: "bytes \<Rightarrow> nat \<Rightarrow> BannerText option" where
  "ReadTextBlock data at = do {
     short \<leftarrow> Field data at 0x20;
     m \<leftarrow> Field data (at + 0x20) 0x20;
     long \<leftarrow> Field data (at + 0x40) 0x40;
     lm \<leftarrow> Field data (at + 0x80) 0x40;
     d \<leftarrow> Field data (at + 0xC0) 0x80;
     Some \<lparr>short_name = short, long_name = long, maker = m, long_maker = lm, description = d\<rparr> }"

definition language_index :: "BannerLanguage \<Rightarrow> nat" where
  "language_index l = (case l of Japanese \<Rightarrow> 0 | English \<Rightarrow> 1 | German \<Rightarrow> 2 | French \<Rightarrow> 3 | Spanish \<Rightarrow> 4 | Italian \<Rightarrow> 5 | Dutch \<Rightarrow> 6)"

definition kNothing :: BannerText where
  "kNothing = \<lparr>short_name = [], long_name = [], maker = [], long_maker = [], description = []\<rparr>"

definition Preferred :: "Banner \<Rightarrow> BannerLanguage \<Rightarrow> BannerText" where
  "Preferred b language = (if b_text b = [] then kNothing
     else if language_index language < length (b_text b) then b_text b ! language_index language else hd (b_text b))"

text \<open>A pixel of the picture. The places in the tiles and in the result are 32-bit numbers, which wrap.\<close>

definition banner_pixel :: "u16 \<Rightarrow> bytes" where
  "banner_pixel pixel =
     (if pixel AND 0x8000 \<noteq> 0 then
        let r = ucast (drop_bit 10 pixel AND 0x1F); g = ucast (drop_bit 5 pixel AND 0x1F); b = ucast (pixel AND 0x1F) in
        [push_bit 3 r OR drop_bit 2 r, push_bit 3 g OR drop_bit 2 g, push_bit 3 b OR drop_bit 2 b, 0xFF]
      else
        let a = ucast (drop_bit 12 pixel AND 0x7); r = ucast (drop_bit 8 pixel AND 0xF); g = ucast (drop_bit 4 pixel AND 0xF);
            b = ucast (pixel AND 0xF) in
        [push_bit 4 r OR r, push_bit 4 g OR g, push_bit 4 b OR b, push_bit 5 a OR push_bit 2 a OR drop_bit 1 a])"

definition DecodeRgb5A3 :: "bytes \<Rightarrow> nat \<Rightarrow> nat \<Rightarrow> bytes \<Rightarrow> bytes option" where
  "DecodeRgb5A3 pixels width height rgba =
     each (\<lambda>y rgba. each (\<lambda>x rgba. do {
       let index = (y div 4) * (width div 4) + x div 4;
       let within = (y mod 4) * 4 + x mod 4;
       pixel \<leftarrow> Be16 pixels ((index * 16 + within) * 2 mod 2 ^ 32);
       putn rgba ((y * width + x) * 4 mod 2 ^ 32) (banner_pixel pixel) }) [0..<width] rgba) [0..<height] rgba"

primrec text_blocks :: "bytes \<Rightarrow> nat \<Rightarrow> nat \<Rightarrow> BannerText list option" where
  "text_blocks data at 0 = Some []"
| "text_blocks data at (Suc n) = do { t \<leftarrow> ReadTextBlock data at; ts \<leftarrow> text_blocks data (at + kTextBlock) n; Some (t # ts) }"

definition ReadDiscBanner :: "bytes \<Rightarrow> Banner option option" where
  "ReadDiscBanner data =
     (if length data < kTextAt + kTextBlock then Some None
      else do {
        magic \<leftarrow> getn data 0 4;
        if magic \<noteq> [0x42, 0x4E, 0x52, 0x31] \<and> magic \<noteq> [0x42, 0x4E, 0x52, 0x32] then Some None
        else let blocks = (if magic = [0x42, 0x4E, 0x52, 0x31] then 1 else 6) in
          if length data < kTextAt + blocks * kTextBlock then Some None
          else do {
            image \<leftarrow> DecodeRgb5A3 (drop kImageAt data) kImageWidth kImageHeight (replicate (kImageWidth * kImageHeight * 4) 0);
            texts \<leftarrow> text_blocks data kTextAt blocks;
            Some (Some \<lparr>b_image = image, b_text = texts\<rparr>) } })"

primrec channel_names :: "bytes \<Rightarrow> nat \<Rightarrow> nat \<Rightarrow> BannerText list option" where
  "channel_names data at 0 = Some []"
| "channel_names data at (Suc n) = do {
     name \<leftarrow> Utf16 data at 42;
     ts \<leftarrow> channel_names data (at + 42 * 2) n;
     Some (\<lparr>short_name = name, long_name = name, maker = [], long_maker = [], description = []\<rparr> # ts) }"

definition find_imet :: "bytes \<Rightarrow> nat option" where
  "find_imet data = find (\<lambda>at. at + 0x600 \<le> length data \<and> take 4 (drop at data) = [0x49, 0x4D, 0x45, 0x54]) [0x40, 0x80, 0]"

definition ReadChannelBanner :: "bytes \<Rightarrow> Banner option option" where
  "ReadChannelBanner data = (case find_imet data of None \<Rightarrow> Some None
     | Some at \<Rightarrow> do {
         texts \<leftarrow> channel_names data (at + 0x1C) 10;
         Some (if list_ex (\<lambda>t. short_name t \<noteq> []) texts then Some \<lparr>b_image = [], b_text = texts\<rparr> else None) })"

definition ReadBanner :: "bytes \<Rightarrow> Banner option option" where
  "ReadBanner data = do { disc \<leftarrow> ReadDiscBanner data; if disc \<noteq> None then Some disc else ReadChannelBanner data }"

section \<open>Names\<close>

text \<open>The two halves of a pair, which stand for one character beyond the first 65536, come out as three bytes each, which is
  not how UTF-8 writes a character.\<close>

lemma Utf16_surrogates: "Utf16 [0xD8, 0x3D, 0xDC, 0x4D, 0, 0] 0 42 = Some [0xED, 0xA0, 0xBD, 0xED, 0xB1, 0x8D]"
  by code_simp

text \<open>A disc has at most six texts, and the last of the seven languages is a place behind them: it is given the first text.\<close>

lemma Preferred_last: "length (b_text b) = 6 \<Longrightarrow> Preferred b Dutch = hd (b_text b)"
  by (auto simp: Preferred_def language_index_def)

section \<open>The picture\<close>

lemma banner_pixel_eq: "banner_pixel v = rgba_bytes (rgb5a3_colour v)"
  by (simp add: banner_pixel_def rgb5a3_colour_def rgba_bytes_def ExpandTo8_def Let_def)

definition banner_at :: "bytes \<Rightarrow> nat \<Rightarrow> nat \<Rightarrow> nat \<Rightarrow> u16" where
  "banner_at data w x y = the (Be16 data ((((y div 4) * (w div 4) + x div 4) * 16 + (y mod 4 * 4 + x mod 4)) * 2))"

lemma within_block: "Suc k * 32 \<le> n * 32 \<Longrightarrow> r \<le> 15 \<Longrightarrow> (k * 16 + r) * 2 + 2 \<le> n * (32 :: nat)"
  by (simp add: distrib_right)

lemma banner_bound:
  assumes w: "w mod 4 = 0" and xy: "x < w" "y < h"
  shows "(((y div 4) * (w div 4) + x div 4) * 16 + (y mod 4 * 4 + x mod 4)) * 2 + 2 \<le> blocks w 4 * blocks h 4 * 32"
proof -
  have q: "w div 4 = blocks w 4" using w by (auto simp: blocks_def elim!: dvdE simp flip: dvd_eq_mod_eq_0)
  have "y div 4 < blocks h 4" "x div 4 < w div 4" using xy w by (auto simp: block_of q)
  then have "(y div 4) * (w div 4) + x div 4 < (w div 4) * blocks h 4" by (intro plane_below)
  then have "Suc ((y div 4) * (w div 4) + x div 4) \<le> blocks w 4 * blocks h 4" by (simp add: q)
  then have "Suc ((y div 4) * (w div 4) + x div 4) * 32 \<le> blocks w 4 * blocks h 4 * 32" by (rule mult_le_mono1)
  moreover have "y mod 4 * 4 + x mod 4 \<le> 15"
  proof -
    have "y mod 4 \<le> 3" "x mod 4 \<le> 3" using mod_less_divisor [of 4 y] mod_less_divisor [of 4 x] by simp_all
    then show ?thesis by linarith
  qed
  ultimately show ?thesis by (rule within_block)
qed

lemma banner_reads:
  assumes "w mod 4 = 0" "x < w" "y < h" "blocks w 4 * blocks h 4 * 32 \<le> length data"
  shows "Be16 data ((((y div 4) * (w div 4) + x div 4) * 16 + (y mod 4 * 4 + x mod 4)) * 2) = Some (banner_at data w x y)"
  using Be16_reads [OF le_trans [OF banner_bound [OF assms(1-3)] assms(4)]] by (auto simp: banner_at_def)

lemma DecodeRgb5A3_puts:
  assumes w: "w mod 4 = 0" and data: "blocks w 4 * blocks h 4 * 32 \<le> length data" and room: "length rgba = 4 * (w * h)"
    and small: "blocks w 4 * blocks h 4 * 32 \<le> 2 ^ 32" "4 * (w * h) \<le> 2 ^ 32"
  shows "DecodeRgb5A3 data w h rgba = Some (puts (concat (map (\<lambda>y. concat (map (\<lambda>x.
     map (\<lambda>i. ((y * w + x) * 4 + i, banner_pixel (banner_at data w x y) ! i)) [0..<4]) [0..<w])) [0..<h])) rgba)"
  unfolding DecodeRgb5A3_def
proof (rule each_upt_out [OF _ room])
  fix y and o1 :: bytes
  assume y: "y < h" and o1: "length o1 = 4 * (w * h)"
  show "each (\<lambda>x rgba. do {
       let index = (y div 4) * (w div 4) + x div 4;
       let within = (y mod 4) * 4 + x mod 4;
       pixel \<leftarrow> Be16 data ((index * 16 + within) * 2 mod 2 ^ 32);
       putn rgba ((y * w + x) * 4 mod 2 ^ 32) (banner_pixel pixel) }) [0..<w] o1 =
     Some (puts (concat (map (\<lambda>x. map (\<lambda>i. ((y * w + x) * 4 + i, banner_pixel (banner_at data w x y) ! i)) [0..<4]) [0..<w])) o1)"
  proof (rule each_upt_out [OF _ o1])
    fix x and o2 :: bytes
    assume x: "x < w" and o2: "length o2 = 4 * (w * h)"
    define v where "v = banner_at data w x y"
    have v: "Be16 data ((((y div 4) * (w div 4) + x div 4) * 16 + (y mod 4 * 4 + x mod 4)) * 2) = Some v"
      unfolding v_def by (rule banner_reads [OF w x y data])
    have "Suc (y * w + x) \<le> w * h" using plane_below [OF x y] by simp
    then have "(y * w + x) * 4 + 4 \<le> length o2" using o2 by simp
    then have "putn o2 ((y * w + x) * 4) (banner_pixel v) = Some (puts (map (\<lambda>i. ((y * w + x) * 4 + i, banner_pixel v ! i)) [0..<4]) o2)"
      using puts_putn [of "(y * w + x) * 4" "banner_pixel v" o2] by (simp add: banner_pixel_eq)
    moreover have offset: "(((y div 4) * (w div 4) + x div 4) * 16 + (y mod 4 * 4 + x mod 4)) * 2 mod 2 ^ 32 = (((y div 4) * (w div 4) + x div 4) * 16 + (y mod 4 * 4 + x mod 4)) * 2"
        "(y * w + x) * 4 mod 2 ^ 32 = (y * w + x) * 4"
    proof -
      have "(y * w + x) * 4 < 4 * (w * h)" using \<open>Suc (y * w + x) \<le> w * h\<close> by simp
      with small(2) show "(y * w + x) * 4 mod 2 ^ 32 = (y * w + x) * 4" by (intro mod_less) (rule less_le_trans)
    qed (use banner_bound [OF w x y] small(1) in \<open>intro mod_less; linarith\<close>)
    ultimately show "do {
       let index = (y div 4) * (w div 4) + x div 4;
       let within = (y mod 4) * 4 + x mod 4;
       pixel \<leftarrow> Be16 data ((index * 16 + within) * 2 mod 2 ^ 32);
       putn o2 ((y * w + x) * 4 mod 2 ^ 32) (banner_pixel pixel) } =
     Some (puts (map (\<lambda>i. ((y * w + x) * 4 + i, banner_pixel (banner_at data w x y) ! i)) [0..<4]) o2)"
      using v offset by (simp add: v_def Let_def)
  qed
qed

lemma set_banner_writes:
  "set (concat (map (\<lambda>y. concat (map (\<lambda>x. map (\<lambda>i. ((y * w + x) * 4 + i, F x y ! i)) [0..<4]) [0..<w])) [0..<h])) =
     {(0 + (Y * (4 * w) + X), F (X div 4) Y ! (X mod 4)) |X Y. X < 4 * w \<and> Y < h}" (is "?L = ?R")
proof
  show "?L \<subseteq> ?R"
  proof
    fix e
    assume "e \<in> ?L"
    then obtain y x i where i: "y < h" "x < w" "i < 4" "e = ((y * w + x) * 4 + i, F x y ! i)" by auto
    then have "e = (0 + (y * (4 * w) + (4 * x + i)), F ((4 * x + i) div 4) y ! ((4 * x + i) mod 4))" "4 * x + i < 4 * w"
      by (simp_all add: algebra_simps)
    then show "e \<in> ?R" using i(1) by blast
  qed
  show "?R \<subseteq> ?L"
  proof
    fix e
    assume "e \<in> ?R"
    then obtain X Y where X: "X < 4 * w" "Y < h" and e: "e = (0 + (Y * (4 * w) + X), F (X div 4) Y ! (X mod 4))" by blast
    have "Y * (4 * w) + X = (Y * w + X div 4) * 4 + X mod 4" by (simp add: algebra_simps)
    then have "e = ((Y * w + X div 4) * 4 + X mod 4, F (X div 4) Y ! (X mod 4))" using e by simp
    moreover have "X div 4 < w" "X mod 4 < 4" using X(1) by simp_all
    ultimately show "e \<in> ?L" using X(2) unfolding in_concat_upt set_map by fastforce
  qed
qed

lemma rgb5a3_texel:
  assumes "w mod 4 = 0" "x < w" "y < h" "blocks w 4 * blocks h 4 * 32 \<le> length data"
  shows "rgba_bytes (texel_at DecodeRGB5A3 data 0 w x y) = banner_pixel (banner_at data w x y)"
proof -
  have q: "w div 4 = blocks w 4" using assms(1) by (auto simp: blocks_def elim!: dvdE simp flip: dvd_eq_mod_eq_0)
  have "32 * (blocks w 4 * (y div 4) + x div 4) + 8 * (y mod 4) + x mod 4 * 2 =
      (((y div 4) * (w div 4) + x div 4) * 16 + (y mod 4 * 4 + x mod 4)) * 2"
    by (simp add: q algebra_simps)
  then have "Be16 data (32 * (blocks w 4 * (y div 4) + x div 4) + 8 * (y mod 4) + x mod 4 * 2) = Some (banner_at data w x y)"
    by (simp only: banner_reads [OF assms])
  then show ?thesis
    by (simp add: texel_at_def decoders tile_bytes_def banner_pixel_eq)
qed

lemma room_for: "4 * (h + 3) \<le> n \<Longrightarrow> w * 4 \<le> n \<Longrightarrow> 4 * n \<le> 2 ^ 32 \<Longrightarrow> w + 7 < 2 ^ 32 \<and> h + 7 < (2 ^ 32 :: nat)"
  by simp

text \<open>C21: The picture of a banner, decoded by this loop over pixels, is the RGB5A3 texture that the decoder of tiles makes of
  the same bytes, for every width that is a multiple of four and every height, whatever was in the buffer before.\<close>

lemma DecodeRgb5A3_texture:
  assumes w: "w mod 4 = 0" "0 < w" and h: "0 < h" and small: "4 * (w * (h + 3)) \<le> 2 ^ 32"
    and data: "TextureDataSize RGB5A3 w h 1 \<noteq> 0" "TextureDataSize RGB5A3 w h 1 \<le> length data" and room: "length rgba = 4 * (w * h)"
  shows "DecodeRgb5A3 data w h rgba = DecodeTexture RGB5A3 w h 1 data"
proof -
  have "4 \<le> w" using w by (auto elim!: dvdE simp flip: dvd_eq_mod_eq_0)
  then have "4 * (h + 3) \<le> w * (h + 3)" by (rule mult_le_mono1)
  moreover have "w * 4 \<le> w * (h + 3)" using h by (intro mult_le_mono2) simp
  ultimately have below: "w + 7 < 2 ^ 32" "h + 7 < 2 ^ 32" using room_for [OF _ _ small] by blast+
  obtain out where out: "DecodeTexture RGB5A3 w h 1 data = Some out" "length out = 4 * (w * h)"
      "\<forall>X<w. \<forall>Y<h. take 4 (drop (4 * (Y * w + X)) out) = rgba_bytes (texel_at DecodeRGB5A3 data 0 w X Y)"
    using DecodeTexture_RGB5A3 [OF data below] by blast
  have long: "blocks w 4 * blocks h 4 * 32 \<le> length data"
    using data w(2) h data_size_before [of 1 "(4, 4, 32)" w h 0] by (auto simp: TextureDataSize_def TilingOf_def level_bytes_def Let_def)
  have "blocks w 4 * blocks h 4 * 32 \<le> 2 ^ 32"
  proof -
    have "blocks w 4 * 4 = w" using w(1) by (auto simp: blocks_def elim!: dvdE simp flip: dvd_eq_mod_eq_0)
    moreover have "blocks h 4 * 4 \<le> h + 3" by (simp add: blocks_def)
    ultimately have "blocks w 4 * 4 * (blocks h 4 * 4) \<le> w * (h + 3)" by (intro mult_le_mono) simp_all
    then show ?thesis using small by linarith
  qed
  moreover have "4 * (w * h) \<le> 2 ^ 32" using small by (simp add: algebra_simps)
  ultimately have fits: "blocks w 4 * blocks h 4 * 32 \<le> 2 ^ 32" "4 * (w * h) \<le> 2 ^ 32" .
  define ws where "ws = concat (map (\<lambda>y. concat (map (\<lambda>x. map (\<lambda>i. ((y * w + x) * 4 + i, banner_pixel (banner_at data w x y) ! i)) [0..<4]) [0..<w])) [0..<h])"
  have room': "0 + 4 * w * h \<le> length rgba" using room by simp
  have "puts ws rgba = out"
  proof (rule nth_equalityI)
    show "length (puts ws rgba) = length out" using room out(2) by simp
    fix p
    assume "p < length (puts ws rgba)"
    then have p: "p < 4 * (w * h)" using room by simp
    define Y where "Y = p div (4 * w)"
    define X where "X = p mod (4 * w)"
    have XY: "X < 4 * w" "Y < h" "p = Y * (4 * w) + X"
      using p w(2) unfolding X_def Y_def by (simp_all add: less_mult_imp_div_less mult.commute mult.left_commute)
    have X4: "X div 4 < w" using XY(1) by (simp add: less_mult_imp_div_less mult.commute)
    have "puts ws rgba ! p = banner_pixel (banner_at data w (X div 4) Y) ! (X mod 4)"
      using puts_plane(1) [OF set_banner_writes [of w "\<lambda>x y. banner_pixel (banner_at data w x y)" h] room' XY(1,2)] XY(3)
      by (simp add: ws_def)
    moreover have "take 4 (drop (4 * (Y * w + X div 4)) out) = banner_pixel (banner_at data w (X div 4) Y)"
      using out(3) X4 XY(2) rgb5a3_texel [OF w(1) X4 XY(2) long] by simp
    moreover have "take 4 (drop (4 * (Y * w + X div 4)) out) ! (X mod 4) = out ! p"
    proof -
      have "4 * (Y * w + X div 4) + X mod 4 = p" using XY(3) by (simp add: algebra_simps)
      then show ?thesis using p out(2) by simp
    qed
    ultimately show "puts ws rgba ! p = out ! p" by simp
  qed
  then show ?thesis using DecodeRgb5A3_puts [OF w(1) long room fits] out(1) by (simp add: ws_def)
qed

theorem DecodeRgb5A3_texture_witness:
  "DecodeRgb5A3 (replicate 32 0x83) 4 4 (replicate 64 0) = DecodeTexture RGB5A3 4 4 1 (replicate 32 0x83)"
proof -
  have "TextureDataSize RGB5A3 4 4 1 = 32" by (simp add: TextureDataSize_def TilingOf_def Let_def half_def)
  then show ?thesis by (intro DecodeRgb5A3_texture) simp_all
qed

end
