(* ===== verification/Spec2Isabelle.thy ===== *)
theory Spec2Isabelle
  imports Prelude Os_Calls Sliding_Window Yaz0 Cx Ash File_Tree U8 Disc_Source Disc_Container Disc_Gcz Disc_Rvz Disc_Image Gx_State Gx_Registers Gx_Invariant Vertex_Stream Gx_Command Gx_Stream Gx_Draw Gx_Run Gx_Fifo Gx_Batch Gx_Frame Gx_Textures Nand_Paths Nand_Title Nand_Wad Nand_Sysconf Nand_Mii Nand_Store Nand_Install Nand_Memory Media_Banner
begin

text \<open>
  A verification library for libdol-nx, the C++ runtime that runs recompiled GameCube and Wii programs: the formats it
  reads and writes (src/format), the threads it gives its guests (src/platform/os) and the way from a guest's graphics
  commands to the draws of the host (src/format/gx, src/platform/gpu). All paths below are under src/. The theories are
  shallow: a C++ function is a HOL function of the same name, with the state it changes passed in and returned.

  \<^bold>\<open>Conventions\<close> (\<open>Prelude\<close>). A byte is an \<open>8 word\<close>, an unsigned integer of the code a word of its width, so that sums
  wrap as they do there; \<open>size_t\<close> is 64 bits where the wrap-around matters and a natural where the value is bounded by a
  buffer in memory. A buffer is a list, and an access outside it, which C++ leaves undefined, is \<open>None\<close>. Where a function
  of the code itself answers with nothing, the model has two options: the outer one is undefined behaviour, the inner one
  the answer. Loops are structural recursion, or \<open>loop\<close>, which returns nothing if it does not end; a theorem that a model
  returns \<open>Some\<close> is therefore memory safety and termination. There is no fuel anywhere but where the code has it: display
  lists are nested four deep and no deeper (\<open>kMaxDepth\<close>), a wake takes 256 threads (\<open>kMaxWake\<close>).

  \<^bold>\<open>Archives\<close> (format/archive). \<open>Sliding_Window\<close> has what yaz0.cpp and cx.cpp share: the copy that repeats bytes it has just
  written, the meaning of a list of tokens, and the locale \<open>lz_decoder\<close>, under which a loop that follows a reader of tokens
  is the decoder of that stream. \<open>Yaz0\<close> and \<open>Cx\<close> model the decoders byte by byte and interpret it; \<open>Ash\<close> models the bit
  reader, the tree reader with its explicit stack and the decoder of ash.cpp, and shows it an instance for the trees that
  a stream spells. For each the decoder is the abstract decoder of its tokens, whose spelling is fixed apart from
  the code: by an encoder (Yaz0), by arithmetic on the bytes (Cx), by a description of trees and codes (Ash).
  The number 65808 in the theorem on CX is the longest run of a token: with that room below 2^32 no counter wraps.
  \<open>File_Tree\<close> is the table of nodes that archives and discs share, walked with its stack of open folders; \<open>U8\<close> is u8.cpp:
  what Parse lists is the tree that was written.

  \<^bold>\<open>Discs\<close> (format/disc). \<open>Disc_Source\<close> states what a source of bytes promises (the locale \<open>disc_source\<close>, interpreted on
  FromMemory). \<open>Disc_Container\<close> (container.cpp: CISO, WBFS), \<open>Disc_Gcz\<close> (gcz.cpp) and \<open>Disc_Rvz\<close> (rvz.cpp) open a file as the
  image inside it, with the one block they keep between two reads as the state of a read; \<open>Disc_Image\<close> (image.cpp) opens
  discs and partitions, decrypts clusters, lists and reads files. The decompressor and the cipher are parameters. The
  theorems: reads are the bytes of the image whatever was read before, a CISO file that is written reads back, files are
  the bytes of their clusters, the table of files is the tree of the disc, and no disc makes a read leave a buffer.

  \<^bold>\<open>The console's memory\<close> (format/nand). \<open>Nand_Paths\<close> (isfs.cpp), \<open>Nand_Title\<close> (title.cpp: tickets, TMDs), \<open>Nand_Wad\<close> (wad.cpp),
  \<open>Nand_Sysconf\<close> (sysconf.cpp), \<open>Nand_Mii\<close> (mii.cpp): the parsers and the builders, which are inverse to one another.
  \<open>Nand_Store\<close> is store.cpp, installing, finding and removing titles over a store that is four functions of the caller;
  \<open>Nand_Install\<close> proves what it does for any store that keeps its promises (the locales \<open>nand\<close>, \<open>erasing\<close> and, in
  \<open>Nand_Memory\<close>, \<open>listing\<close>, each an extension of the one before; \<open>keyed\<close> of \<open>Prelude\<close> is the least of them, and is
  interpreted on the settings of SYSCONF too), and \<open>Nand_Memory\<close> interprets them on the store of
  tests/nand_store_check.cpp, which the theorems speak of.

  \<^bold>\<open>Graphics\<close> (format/gx, platform/gpu). \<open>Gx_State\<close> and \<open>Gx_Registers\<close> are state.cpp: the setters of the SDK, the writes of the
  BP and XF registers, what a draw takes out of the state. \<open>Gx_Invariant\<close> is the shape every writer keeps: the sizes of
  arrays, the counts, and the selectors of stages and of swap tables. \<open>Vertex_Stream\<close> is vertex_stream.cpp, which makes
  floats of packed records. \<open>Gx_Command\<close> is command.cpp, the processor of a stream of bytes, and \<open>Gx_Stream\<close>, \<open>Gx_Draw\<close> and
  \<open>Gx_Run\<close> prove it: guest memory is the locale \<open>guest_memory\<close>, interpreted on MEM1 (cpu/memory.cpp); every Run returns, reads
  no byte outside its buffers, and may be cut anywhere. \<open>Gx_Fifo\<close> is the gather pipe in front of it and \<open>Gx_Batch\<close> the merge
  of draws behind it (both in platform/gpu/gx_native_switch.cpp), and \<open>Gx_Frame\<close> the two together. The textures of
  texture.cpp: \<open>Mip_Levels\<close> (levels, each half the one before, with the locale \<open>level_decoder\<close>), \<open>Gx_Texture\<close> (the
  decoders), \<open>Gx_Tiles\<close> (the locale \<open>tile_decoder\<close>, a sublocale of the levels), \<open>Gx_Cmpr\<close>, \<open>Gx_Blocks\<close> and \<open>Gx_Decode\<close> (its interpretations on
  every format of the code), \<open>Gx_Textures\<close> (every texel is the one at its place among the tiles). \<open>Media_Banner\<close> is
  banner.cpp of format/media, whose pictures are such textures.

  \<^bold>\<open>Threads\<close> (platform/os). They live in the memory of the guest, and so they do here: \<open>Os_Memory\<close> is that memory, a byte or an
  access violation at every address, \<open>Os_List\<close> its doubly linked lists, \<open>Os_System\<close> the layout of threads, queues and
  mutexes (os_internal.h) and the abstract state \<open>sched\<close> with \<open>represents\<close>, what the memory says of it. \<open>Os_Queue\<close>, \<open>Os_Thread\<close> and
  \<open>Os_Suspend\<close> are os_thread.cpp, \<open>Os_Wake\<close>, \<open>Os_Select\<close> and \<open>Os_Mutex\<close> os_scheduler.cpp, \<open>Os_Message\<close> os_message.cpp. Each operation is
  shown to do to the memory what a short operation on \<open>sched\<close> does to the lists (a forward simulation), and to keep
  \<open>well_formed\<close> of \<open>Os_Invariant\<close>: every thread on the queue its state and priority say, queues in the order of the
  priorities, the mask of pending queues exact. \<open>Os_Run\<close> is the machine of these calls as an inductive step relation;
  \<open>Os_Example\<close> a system to try them on; \<open>Os_Calls\<close> states what each call does. Two suppositions are in many of the theorems:
  objects of the system do not overlap (\<open>system_ok\<close>), and no threads wait for one another in a circle where the code
  follows such a chain to its end (\<open>deadlock_free\<close>). A parameter \<open>terminated\<close>, or \<open>fibers_gone\<close>, has the threads whose host
  fiber is gone; \<open>select\<close>, \<open>sleep\<close> and \<open>wake\<close> are calls of the system where a theorem holds whatever they do.

  \<^bold>\<open>How they meet.\<close> A guest writes commands to the pipe (\<open>Gx_Fifo\<close>), which runs the processor (\<open>Gx_Command\<close>), which changes the state
  (\<open>Gx_Registers\<close>) and hands draws to the batch (\<open>Gx_Batch\<close>), having announced each change; the renderer converts
  records (\<open>Vertex_Stream\<close>) and textures (\<open>Gx_Texture\<close>). Titles come from discs (\<open>Disc_Image\<close>) or WADs (\<open>Nand_Wad\<close>), with archives
  inside them (\<open>U8\<close>, \<open>Yaz0\<close>, \<open>Cx\<close>, \<open>Ash\<close>), into the store (\<open>Nand_Store\<close>).

  \<^bold>\<open>What is not modelled.\<close> The GPU library, the audio mixer, input, network, host files and clocks are I/O. Floats are their bit
  patterns, and nothing is computed with them but the exact scaling of vertices. The emission of shader text (tev.cpp,
  vertex.cpp), THP video, the paired singles and the rounding of the CPU, host fibers, the creation and the end of
  threads, alarms and sleep timers are left out, and so are the launcher, the tools and the translator. The switch of fibers at
  the end of SelectThread is a result (the thread to go on with), and the game's own code it calls is a parameter that leaves
  the scheduler's cells alone. Diagnosis (logs, traces, counters of time) is left out everywhere.
\<close>

end
